(* ===== verification/Prelude.thy ===== *)
theory Prelude
  imports Complex_Main "HOL-Library.AList" "HOL-Library.Product_Lexorder"
begin

text \<open>
  Shared vocabulary of the development.

  \<^item> Python values. A \<open>dict\<close> is an association list with distinct keys: updating a
    present key keeps its place and a new key goes to the end, which is the iteration order
    a Python \<open>dict\<close> has. Clock readings and dollar amounts (Python \<open>float\<close>) are
    \<open>real\<close>; integers are \<open>int\<close>, or \<open>nat\<close> where the code only ever counts up
    from zero.
  \<^item> Executions. An operation of a component is a function from a state and the reading of
    the clock to the next state; \<open>run\<close> folds one such step over a list of events, and
    the locale \<open>kept_invariant\<close> lifts an invariant from one step to a whole run. Guarded,
    non-deterministic systems (tasks of the event loop) use \<open>reach\<close> and the locale
    \<open>kept_by_relation\<close> in the same way.
\<close>

section \<open>Vocabulary\<close>

type_synonym time = real
type_synonym usd = real
type_synonym ('k, 'v) dict = "('k \<times> 'v) list"

named_theorems pool_simps "one-step facts about the key pool"
named_theorems wf_intros "preservation of a component's well-formedness"
named_theorems slot_simps "one-step facts about the limiters"
named_theorems breaker_simps "one-step facts about the circuit breaker"

abbreviation dict_get :: "('k, 'v) dict \<Rightarrow> 'k \<Rightarrow> 'v option" where
  "dict_get d k \<equiv> map_of d k"

abbreviation dict_set :: "'k \<Rightarrow> 'v \<Rightarrow> ('k, 'v) dict \<Rightarrow> ('k, 'v) dict" where
  "dict_set k v d \<equiv> AList.update k v d"

abbreviation dict_del :: "'k \<Rightarrow> ('k, 'v) dict \<Rightarrow> ('k, 'v) dict" where
  "dict_del k d \<equiv> AList.delete k d"

abbreviation dict_wf :: "('k, 'v) dict \<Rightarrow> bool" where
  "dict_wf d \<equiv> distinct (map fst d)"

text \<open>\<open>dict.get(k, default)\<close>.\<close>

definition dict_get_or :: "('k, 'v) dict \<Rightarrow> 'k \<Rightarrow> 'v \<Rightarrow> 'v" where
  "dict_get_or d k v = (case dict_get d k of None \<Rightarrow> v | Some x \<Rightarrow> x)"

text \<open>The position of the first element of a list that satisfies a test, as a
  \<open>for i, x in enumerate(xs): if test(x): ...\<close> loop that returns finds it.\<close>

fun first_index :: "('a \<Rightarrow> bool) \<Rightarrow> 'a list \<Rightarrow> nat option" where
  "first_index P [] = None"
| "first_index P (x # xs) = (if P x then Some 0 else map_option Suc (first_index P xs))"

text \<open>Python's \<open>str\<close> methods on ASCII text.\<close>

definition py_isspace :: "char \<Rightarrow> bool" where
  "py_isspace c \<longleftrightarrow> c \<in> {CHR '' '', CHR 0x09, CHR 0x0A, CHR 0x0B, CHR 0x0C, CHR 0x0D,
                          CHR 0x1C, CHR 0x1D, CHR 0x1E, CHR 0x1F}"

definition py_strip :: "string \<Rightarrow> string" where
  "py_strip s = rev (dropWhile py_isspace (rev (dropWhile py_isspace s)))"

definition py_lower_char :: "char \<Rightarrow> char" where
  "py_lower_char c = (let n = of_char c :: nat in if 65 \<le> n \<and> n \<le> 90 then char_of (n + 32) else c)"

definition py_lower :: "string \<Rightarrow> string" where
  "py_lower s = map py_lower_char s"

definition digit_char :: "nat \<Rightarrow> char" where
  "digit_char d = char_of (48 + d)"

fun show_nat :: "nat \<Rightarrow> string" where
  "show_nat n = (if n < 10 then [digit_char n] else show_nat (n div 10) @ [digit_char (n mod 10)])"

declare show_nat.simps [simp del]

text \<open>\<open>deque.append\<close> on a full bounded queue drops its oldest element.\<close>

definition bounded_append :: "nat \<Rightarrow> 'a list \<Rightarrow> 'a \<Rightarrow> 'a list" where
  "bounded_append maxlen xs x = (if length xs < maxlen then xs @ [x] else tl xs @ [x])"

text \<open>A deterministic component run over a list of events.\<close>

fun run :: "('s \<Rightarrow> 'e \<Rightarrow> 's) \<Rightarrow> 's \<Rightarrow> 'e list \<Rightarrow> 's" where
  "run f s [] = s"
| "run f s (e # es) = run f (f s e) es"

text \<open>The states a guarded step relation reaches from a state, with the events taken.\<close>

inductive reach :: "('s \<Rightarrow> 'e \<Rightarrow> 's \<Rightarrow> bool) \<Rightarrow> 's \<Rightarrow> 'e list \<Rightarrow> 's \<Rightarrow> bool"
  for R :: "'s \<Rightarrow> 'e \<Rightarrow> 's \<Rightarrow> bool" where
  reach_refl: "reach R s [] s"
| reach_step: "reach R s es t \<Longrightarrow> R t e u \<Longrightarrow> reach R s (es @ [e]) u"

text \<open>A run of a component whose step may be refused.\<close>

fun steps :: "('s \<Rightarrow> 'e \<Rightarrow> 's option) \<Rightarrow> 's \<Rightarrow> 'e list \<Rightarrow> 's option" where
  "steps f s [] = Some s"
| "steps f s (e # es) = (case f s e of None \<Rightarrow> None | Some t \<Rightarrow> steps f t es)"

lemma steps_append: "steps f s (xs @ ys) = (case steps f s xs of None \<Rightarrow> None | Some t \<Rightarrow> steps f t ys)"
  by (induction xs arbitrary: s) (auto split: option.splits)

inductive_cases reach_NilE: "reach R s [] t"

section \<open>Lists and dicts\<close>

lemma first_index_Some:
  "first_index P xs = Some i \<Longrightarrow> i < length xs \<and> P (xs ! i) \<and> (\<forall>j<i. \<not> P (xs ! j))"
proof (induction xs arbitrary: i)
  case Nil
  then show ?case by simp
next
  case (Cons x xs)
  then show ?case
    by (cases i) (auto simp: nth_Cons split: if_splits nat.splits)
qed

lemma first_index_None: "first_index P xs = None \<longleftrightarrow> (\<forall>x \<in> set xs. \<not> P x)"
  by (induction xs) auto

lemma first_index_Some_iff:
  "first_index P xs = Some i \<longleftrightarrow> i < length xs \<and> P (xs ! i) \<and> (\<forall>j<i. \<not> P (xs ! j))"
proof
  assume r: "i < length xs \<and> P (xs ! i) \<and> (\<forall>j<i. \<not> P (xs ! j))"
  then have "first_index P xs \<noteq> None" by (auto simp: first_index_None)
  then obtain j where j: "first_index P xs = Some j" by auto
  from first_index_Some [OF j] r have "j = i" by (meson linorder_neqE_nat)
  with j show "first_index P xs = Some i" by simp
qed (rule first_index_Some)

lemma dict_get_set [simp]:
  "dict_get (dict_set k v d) j = (if j = k then Some v else dict_get d j)"
  by (simp add: update_conv')

lemma dict_get_del [simp]:
  "dict_get (dict_del k d) j = (if j = k then None else dict_get d j)"
  by (simp add: delete_conv')

lemma dict_wf_set [simp]: "dict_wf d \<Longrightarrow> dict_wf (dict_set k v d)"
  by (rule distinct_update)

lemma dict_wf_del [simp]: "dict_wf d \<Longrightarrow> dict_wf (dict_del k d)"
  by (rule distinct_delete)

lemma dict_wf_filter [simp]: "dict_wf d \<Longrightarrow> dict_wf (filter P d)"
  by (induction d) auto

lemma dict_get_filter:
  "dict_wf d \<Longrightarrow>
    dict_get (filter P d) k = (case dict_get d k of None \<Rightarrow> None | Some v \<Rightarrow> if P (k, v) then Some v else None)"
proof (induction d)
  case Nil
  then show ?case by simp
next
  case (Cons x d)
  then show ?case
    by (cases x) (auto simp: map_of_eq_None_iff image_iff split: option.splits)
qed

lemma dict_set_entries: "set (dict_set k v d) \<subseteq> insert (k, v) (set d)"
  by (induction d) auto

lemma dict_del_entries: "set (dict_del k d) \<subseteq> set d"
  by (auto simp: AList.delete_eq)

lemma length_dict_set:
  "length (dict_set k v d) = (if dict_get d k = None then Suc (length d) else length d)"
  by (induction d) auto

lemma map_fst_dict_set_present: "dict_get d k \<noteq> None \<Longrightarrow> map fst (dict_set k v d) = map fst d"
  by (induction d) auto

lemma sorted_wrt_remove1: "sorted_wrt P xs \<Longrightarrow> sorted_wrt P (remove1 x xs)"
  by (induction xs) (auto dest: set_remove1_subset [THEN subsetD])

text \<open>How many elements satisfy a predicate, and how an update at an index changes it.\<close>

definition tally :: "('a \<Rightarrow> bool) \<Rightarrow> 'a list \<Rightarrow> int" where
  "tally P xs = int (length (filter P xs))"

lemma tally_simps [simp]:
  "tally P [] = 0" "tally P (x # xs) = (if P x then 1 else 0) + tally P xs" "tally P (xs @ ys) = tally P xs + tally P ys"
  by (simp_all add: tally_def)

lemma tally_nonneg [simp]: "0 \<le> tally P xs"
  by (simp add: tally_def)

lemma tally_update:
  "i < length xs \<Longrightarrow> tally P (xs[i := y]) = tally P xs - (if P (xs ! i) then 1 else 0) + (if P y then 1 else 0)"
proof (induction xs arbitrary: i)
  case (Cons x xs)
  then show ?case by (cases i) auto
qed simp

lemma tally_pos: "i < length xs \<Longrightarrow> P (xs ! i) \<Longrightarrow> 0 < tally P xs"
  by (auto simp: tally_def filter_empty_conv intro!: nth_mem)

lemma min_list_in: "xs \<noteq> [] \<Longrightarrow> min_list xs \<in> set (xs :: 'a :: linorder list)"
  by (simp add: min_list_Min)

lemma min_list_le: "x \<in> set xs \<Longrightarrow> min_list xs \<le> (x :: 'a :: linorder)"
  using min_list_Min [of xs] by (cases "xs = []") auto

section \<open>Runs and reachable states\<close>

lemma run_append [simp]: "run f s (xs @ ys) = run f (run f s xs) ys"
  by (induction xs arbitrary: s) auto

text \<open>What a component promises of every operation: the events it accepts keep its
  invariant. Everything that holds after any run of operations is derived here once.\<close>

locale kept_invariant =
  fixes step :: "'s \<Rightarrow> 'e \<Rightarrow> 's"
    and ok :: "'e \<Rightarrow> bool"
    and inv :: "'s \<Rightarrow> bool"
  assumes step_keeps: "inv s \<Longrightarrow> ok e \<Longrightarrow> inv (step s e)"
begin

lemma run_keeps: "inv s \<Longrightarrow> list_all ok es \<Longrightarrow> inv (run step s es)"
  by (induction es arbitrary: s) (auto intro: step_keeps)

lemma run_prefix_keeps: "inv s \<Longrightarrow> list_all ok (es @ fs) \<Longrightarrow> inv (run step s es)"
  by (rule run_keeps) auto

end

text \<open>The same contract for a system whose next step is a choice of the environment.\<close>

locale kept_by_relation =
  fixes R :: "'s \<Rightarrow> 'e \<Rightarrow> 's \<Rightarrow> bool"
    and inv :: "'s \<Rightarrow> bool"
  assumes rel_keeps: "inv s \<Longrightarrow> R s e t \<Longrightarrow> inv t"
begin

lemma reach_keeps: "reach R s es t \<Longrightarrow> inv s \<Longrightarrow> inv t"
  by (induction rule: reach.induct) (auto intro: rel_keeps)

end

lemma reach_one: "R s e t \<Longrightarrow> reach R s [e] t"
  using reach_step [OF reach_refl, of R s e t] by simp

lemma reach_trans: "reach R t fs u \<Longrightarrow> reach R s es t \<Longrightarrow> reach R s (es @ fs) u"
proof (induction rule: reach.induct)
  case reach_refl
  then show ?case by simp
next
  case (reach_step t fs v e u)
  then show ?case using reach.reach_step [of R s "es @ fs" v e u] by simp
qed

lemma reach_mono: "reach R s es t \<Longrightarrow> (\<And>s e t. R s e t \<Longrightarrow> Q s e t) \<Longrightarrow> reach Q s es t"
  by (induction rule: reach.induct) (auto intro: reach.intros)

lemma reach_steps:
  "steps f s es = Some t \<Longrightarrow> list_all P es \<Longrightarrow> reach (\<lambda>s e t. f s e = Some t \<and> P e) s es t"
proof (induction es arbitrary: s)
  case Nil
  then show ?case by (auto intro: reach_refl)
next
  case (Cons e es)
  then obtain u where "f s e = Some u" "steps f u es = Some t" by (auto split: option.splits)
  with Cons reach_trans [OF Cons.IH [of u] reach_one, of s e] show ?case by simp
qed

lemma steps_reach: "steps f s es = Some t \<Longrightarrow> reach (\<lambda>s e t. f s e = Some t) s es t"
  using reach_steps [of f s es t "\<lambda>_. True"] by (simp add: list_all_iff)

text \<open>Refinement: under an invariant, every concrete step is matched by some abstract steps
  between the abstractions of its states. Whole runs are then matched by whole runs.\<close>

locale simulation =
  fixes C :: "'c \<Rightarrow> 'e \<Rightarrow> 'c \<Rightarrow> bool"
    and A :: "'a \<Rightarrow> 'f \<Rightarrow> 'a \<Rightarrow> bool"
    and abs :: "'c \<Rightarrow> 'a"
    and cinv :: "'c \<Rightarrow> bool"
  assumes cinv_keeps: "cinv s \<Longrightarrow> C s e t \<Longrightarrow> cinv t"
    and simulated: "cinv s \<Longrightarrow> C s e t \<Longrightarrow> \<exists>fs. reach A (abs s) fs (abs t)"
begin

lemma run_simulated:
  "reach C s es t \<Longrightarrow> cinv s \<Longrightarrow> cinv t \<and> (\<exists>fs. reach A (abs s) fs (abs t))"
proof (induction rule: reach.induct)
  case (reach_refl s)
  then show ?case by (auto intro: reach.reach_refl exI [of _ "[]"])
next
  case (reach_step s es t e u)
  then have t: "cinv t" by blast
  from reach_step obtain fs where "reach A (abs s) fs (abs t)" by blast
  moreover obtain gs where "reach A (abs t) gs (abs u)" using simulated [OF t] reach_step(2) by blast
  ultimately have "reach A (abs s) (fs @ gs) (abs u)" by (rule reach_trans [rotated])
  then show ?case using cinv_keeps [OF t] reach_step(2) by blast
qed

end

end
