(* ===== verification/Roles.thy ===== *)
theory Roles
  imports Prelude
begin

text \<open>
  The role lattice of \<open>serving/config/settings.py\<close>: the rank of each role, and
  \<open>has_role\<close>, the one comparison every entitlement check in the gateway goes through.
  It is closed on an unknown \<^emph>\<open>required\<close> role and reads an unknown \<^emph>\<open>user\<close>
  role as the lowest one.
\<close>

definition ROLE_RANK :: "string \<Rightarrow> int option" where
  "ROLE_RANK r =
     (if r = ''free'' then Some 0 else if r = ''pro'' then Some 1
      else if r = ''internal'' then Some 2 else if r = ''admin'' then Some 3 else None)"

definition VALID_ROLES :: "string set" where
  "VALID_ROLES = {''free'', ''pro'', ''internal'', ''admin''}"

definition has_role :: "string \<Rightarrow> string \<Rightarrow> bool" where
  "has_role user_role required =
     (case ROLE_RANK required of
        None \<Rightarrow> False
      | Some q \<Rightarrow> q \<le> (case ROLE_RANK user_role of None \<Rightarrow> 0 | Some r \<Rightarrow> r))"

text \<open>\<open>ROLE_RANK.get(r, 0)\<close>.\<close>

definition rank_of :: "string \<Rightarrow> int" where
  "rank_of r = (case ROLE_RANK r of None \<Rightarrow> 0 | Some k \<Rightarrow> k)"

lemma valid_roles_ranked: "r \<in> VALID_ROLES \<longleftrightarrow> ROLE_RANK r \<noteq> None"
  by (auto simp: VALID_ROLES_def ROLE_RANK_def)

lemma rank_of_range: "0 \<le> rank_of r" "rank_of r \<le> 3"
  by (auto simp: rank_of_def ROLE_RANK_def split: option.splits if_splits)

lemma has_role_rank:
  "r \<in> VALID_ROLES \<Longrightarrow> has_role u r \<longleftrightarrow> rank_of r \<le> rank_of u"
  by (auto simp: has_role_def rank_of_def valid_roles_ranked split: option.splits)

lemma has_role_closed: "r \<notin> VALID_ROLES \<Longrightarrow> \<not> has_role u r"
  by (simp add: has_role_def valid_roles_ranked)

lemma has_role_mono: "has_role u r \<Longrightarrow> rank_of u \<le> rank_of v \<Longrightarrow> has_role v r"
  by (cases "r \<in> VALID_ROLES") (auto simp: has_role_rank has_role_closed)

end
