(* ===== verification/Key_Pool.thy ===== *)
theory Key_Pool
  imports Roles
begin

text \<open>
  \<open>serving/adapters/key_pool.py\<close>: the pool of API keys one provider adapter rotates
  over. The records are the dataclasses \<open>_KeyState\<close>, \<open>_Affinity\<close> and
  \<open>Lease\<close> and the fields of \<open>KeyPool\<close>; each method is one definition over the
  pool and the reading of \<open>time.monotonic()\<close> it takes. The methods hold the pool's
  lock for their whole body, so one call is one step.

  Exceptions are values of \<open>pool_error\<close>; a pool that raises has still dropped what it
  dropped before raising, so the operations return the pool beside the result. The text of
  the exhaustion messages is reduced to the two reasons they give.

  The lemmas show what \<open>acquire\<close> and \<open>release\<close> decide, that no caller is ever handed
  a key reserved above its role, that a mute never outlasts \<open>MUTE_SECONDS\<close>, and that
  every operation keeps the pool well formed.
\<close>

section \<open>Constants and statuses\<close>

definition MUTABLE_4XX :: "int list" where
  "MUTABLE_4XX = [401, 402, 403, 408, 425, 429]"

definition KEY_SPECIFIC_STATUSES :: "int list" where
  "KEY_SPECIFIC_STATUSES = [401, 402, 403, 429]"

definition should_mute_status :: "int \<Rightarrow> bool" where
  "should_mute_status c =
     (if 200 \<le> c \<and> c < 300 then False
      else if c = 0 then True
      else if c \<in> set MUTABLE_4XX then True
      else 500 \<le> c \<and> c \<le> 599)"

definition is_key_specific_status :: "int \<Rightarrow> bool" where
  "is_key_specific_status c = (c \<in> set KEY_SPECIFIC_STATUSES)"

datatype release_outcome = PROPAGATE | ROTATED | MUTED

abbreviation DEFAULT_MIN_ROLE :: string where
  "DEFAULT_MIN_ROLE \<equiv> ''free''"

definition normalize_min_role :: "string option \<Rightarrow> string" where
  "normalize_min_role r =
     (case r of None \<Rightarrow> DEFAULT_MIN_ROLE
      | Some s \<Rightarrow> if ROLE_RANK s \<noteq> None then s else DEFAULT_MIN_ROLE)"

text \<open>\<open>AllTried\<close>: every key the caller may use was already tried by this request;
  \<open>NoneUsable\<close>: every key the caller may use is muted or reserved for a higher tier.\<close>

datatype exhaust_reason = AllTried | NoneUsable

datatype pool_error =
    KeyPoolExhausted exhaust_reason
  | KeyPoolRoleRestricted
  | PoolValueError
  | PoolIndexError

section \<open>State\<close>

record key_state =
  ks_key :: string
  ks_request_count :: nat
  ks_cooldown_until :: time
  ks_removed :: bool
  ks_min_role :: string
  ks_consecutive_failures :: nat

record affinity =
  af_key_index :: nat
  af_expires_at :: time
  af_role :: "string option"

record lease =
  ls_key_index :: nat
  ls_affinity_key :: "string option"
  ls_role :: "string option"

record key_pool =
  kp_keys :: "key_state list"
  kp_affinity :: "(string, affinity) dict"
  kp_provider_label :: string

definition AFFINITY_TTL_SECONDS :: time where "AFFINITY_TTL_SECONDS = 300"
definition MUTE_SECONDS :: time where "MUTE_SECONDS = 20"
definition SWEEP_THRESHOLD :: nat where "SWEEP_THRESHOLD = 1000"
definition SOLE_KEY_BACKOFF_THRESHOLD :: nat where "SOLE_KEY_BACKOFF_THRESHOLD = 2"
definition SOLE_KEY_BACKOFF_BASE_SECONDS :: time where "SOLE_KEY_BACKOFF_BASE_SECONDS = 15"

definition fresh_key_state :: "string \<Rightarrow> string \<Rightarrow> key_state" where
  "fresh_key_state k r =
     \<lparr>ks_key = k, ks_request_count = 0, ks_cooldown_until = 0, ks_removed = False,
      ks_min_role = r, ks_consecutive_failures = 0\<rparr>"

definition role_may_use :: "string option \<Rightarrow> key_state \<Rightarrow> bool" where
  "role_may_use role s =
     (if ks_min_role s = DEFAULT_MIN_ROLE then True
      else case role of None \<Rightarrow> True | Some r \<Rightarrow> has_role r (ks_min_role s))"

section \<open>Construction and queries\<close>

fun dedupe_onto :: "string list \<Rightarrow> string list \<Rightarrow> string list" where
  "dedupe_onto acc [] = acc"
| "dedupe_onto acc (k # ks) = dedupe_onto (if k \<in> set acc then acc else acc @ [k]) ks"

definition KeyPool_init ::
  "string list \<Rightarrow> string \<Rightarrow> (string, string) dict \<Rightarrow> pool_error + key_pool" where
  "KeyPool_init keys label min_roles =
     (if keys = [] then Inl PoolValueError
      else Inr \<lparr>kp_keys = map (\<lambda>k. fresh_key_state k (normalize_min_role (dict_get min_roles k)))
                          (dedupe_onto [] keys),
                kp_affinity = [], kp_provider_label = label\<rparr>)"

text \<open>The guard of the selection scan, of slot \<open>i\<close> holding \<open>s\<close>.\<close>

definition selectable :: "time \<Rightarrow> string option \<Rightarrow> nat list \<Rightarrow> nat \<Rightarrow> key_state \<Rightarrow> bool" where
  "selectable now role exclude i s \<longleftrightarrow>
     \<not> ks_removed s \<and> ks_cooldown_until s \<le> now \<and> i \<notin> set exclude \<and> role_may_use role s"

definition pick_first_available ::
  "key_pool \<Rightarrow> time \<Rightarrow> string option \<Rightarrow> nat list \<Rightarrow> nat option" where
  "pick_first_available p now role exclude =
     (let candidates =
        map (\<lambda>(i, s). (- rank_of (ks_min_role s), i))
          (filter (\<lambda>(i, s). selectable now role exclude i s) (enumerate 0 (kp_keys p)))
      in if candidates = [] then None else Some (snd (min_list candidates)))"

definition size_for :: "key_pool \<Rightarrow> string option \<Rightarrow> nat" where
  "size_for p role = length (filter (\<lambda>s. \<not> ks_removed s \<and> role_may_use role s) (kp_keys p))"

definition can_serve_role :: "key_pool \<Rightarrow> time \<Rightarrow> string option \<Rightarrow> bool" where
  "can_serve_role p now role = (pick_first_available p now role [] \<noteq> None)"

definition snapshot_keys :: "key_pool \<Rightarrow> string list" where
  "snapshot_keys p = map ks_key (filter (\<lambda>s. \<not> ks_removed s) (kp_keys p))"

definition snapshot_min_roles :: "key_pool \<Rightarrow> (string, string) dict" where
  "snapshot_min_roles p =
     fold (\<lambda>s d. dict_set (ks_key s) (ks_min_role s) d)
       (filter (\<lambda>s. \<not> ks_removed s) (kp_keys p)) []"

definition affinity_count :: "key_pool \<Rightarrow> nat" where
  "affinity_count p = length (kp_affinity p)"

section \<open>Changing the keys\<close>

text \<open>Whether \<open>_drop_repointed_affinities_locked\<close> drops a binding. The code computes the
  preferred key of a role once and remembers it; selection reads only the keys and the
  clock, neither of which the loop changes, so computing it per entry is the same.\<close>

definition repointed :: "key_pool \<Rightarrow> time \<Rightarrow> affinity \<Rightarrow> bool" where
  "repointed p now entry =
     (let bound = kp_keys p ! af_key_index entry in
      if ks_removed bound \<or> \<not> role_may_use (af_role entry) bound then True
      else case pick_first_available p now (af_role entry) [] of
          None \<Rightarrow> False
        | Some preferred \<Rightarrow> preferred \<noteq> af_key_index entry)"

definition drop_repointed_affinities :: "key_pool \<Rightarrow> time \<Rightarrow> key_pool" where
  "drop_repointed_affinities p now =
     p\<lparr>kp_affinity := filter (\<lambda>(_, entry). \<not> repointed p now entry) (kp_affinity p)\<rparr>"

definition add_key ::
  "key_pool \<Rightarrow> time \<Rightarrow> string \<Rightarrow> string option \<Rightarrow> nat \<times> key_pool" where
  "add_key p now key min_role =
     (case first_index (\<lambda>s. ks_key s = key) (kp_keys p) of
        Some idx \<Rightarrow>
          (let s = kp_keys p ! idx;
               reactivated = ks_removed s;
               s1 = s\<lparr>ks_removed := False\<rparr>;
               retiered = (case min_role of None \<Rightarrow> False
                           | Some _ \<Rightarrow> ks_min_role s \<noteq> normalize_min_role min_role);
               s2 = (case min_role of None \<Rightarrow> s1
                     | Some _ \<Rightarrow> s1\<lparr>ks_min_role := normalize_min_role min_role\<rparr>);
               p1 = p\<lparr>kp_keys := (kp_keys p)[idx := s2]\<rparr>
           in (idx, if reactivated \<or> retiered then drop_repointed_affinities p1 now else p1))
      | None \<Rightarrow>
          (let p1 = p\<lparr>kp_keys := kp_keys p @ [fresh_key_state key (normalize_min_role min_role)]\<rparr>
           in (length (kp_keys p1) - 1, drop_repointed_affinities p1 now)))"

definition set_key_min_role ::
  "key_pool \<Rightarrow> time \<Rightarrow> string \<Rightarrow> string option \<Rightarrow> bool \<times> key_pool" where
  "set_key_min_role p now key min_role =
     (let normalized = normalize_min_role min_role;
          matches = (\<lambda>s. ks_key s = key \<and> \<not> ks_removed s);
          found = list_ex matches (kp_keys p);
          changed = list_ex (\<lambda>s. matches s \<and> ks_min_role s \<noteq> normalized) (kp_keys p);
          p1 = p\<lparr>kp_keys := map (\<lambda>s. if matches s then s\<lparr>ks_min_role := normalized\<rparr> else s)
                              (kp_keys p)\<rparr>
      in (found, if changed then drop_repointed_affinities p1 now else p1))"

definition remove_key :: "key_pool \<Rightarrow> time \<Rightarrow> string \<Rightarrow> bool \<times> key_pool" where
  "remove_key p now key =
     (case first_index (\<lambda>s. ks_key s = key \<and> \<not> ks_removed s) (kp_keys p) of
        None \<Rightarrow> (False, p)
      | Some i \<Rightarrow>
          (True, drop_repointed_affinities
                   (p\<lparr>kp_keys := (kp_keys p)[i := (kp_keys p ! i)\<lparr>ks_removed := True\<rparr>]\<rparr>) now))"

section \<open>Acquire\<close>

definition maybe_sweep :: "key_pool \<Rightarrow> time \<Rightarrow> key_pool" where
  "maybe_sweep p now =
     (if length (kp_affinity p) \<le> SWEEP_THRESHOLD then p
      else p\<lparr>kp_affinity := filter (\<lambda>(_, a). \<not> af_expires_at a < now) (kp_affinity p)\<rparr>)"

text \<open>Handing slot \<open>idx\<close> out: count the request and make the lease.\<close>

definition hand_out ::
  "key_pool \<Rightarrow> nat \<Rightarrow> string option \<Rightarrow> string option \<Rightarrow> (pool_error + string \<times> lease) \<times> key_pool"
  where
  "hand_out p idx affinity_key role =
     (let s = kp_keys p ! idx in
      (Inr (ks_key s, \<lparr>ls_key_index = idx, ls_affinity_key = affinity_key, ls_role = role\<rparr>),
       p\<lparr>kp_keys := (kp_keys p)[idx := s\<lparr>ks_request_count := Suc (ks_request_count s)\<rparr>]\<rparr>))"

text \<open>The part of \<open>acquire\<close> after the affinity lookup: pick, or classify the refusal.\<close>

definition acquire_pick ::
  "key_pool \<Rightarrow> time \<Rightarrow> string option \<Rightarrow> string option \<Rightarrow> nat list \<Rightarrow>
     (pool_error + string \<times> lease) \<times> key_pool" where
  "acquire_pick p now affinity_key role exclude =
     (case pick_first_available p now role exclude of
        None \<Rightarrow>
          (Inl (if pick_first_available p now role [] \<noteq> None then KeyPoolExhausted AllTried
                else if pick_first_available p now None [] \<noteq> None then KeyPoolRoleRestricted
                else KeyPoolExhausted NoneUsable), p)
      | Some idx \<Rightarrow>
          hand_out
            (case affinity_key of
               None \<Rightarrow> p
             | Some a \<Rightarrow>
                 p\<lparr>kp_affinity := dict_set a
                     \<lparr>af_key_index = idx, af_expires_at = now + AFFINITY_TTL_SECONDS, af_role = role\<rparr>
                     (kp_affinity p)\<rparr>)
            idx affinity_key role)"

definition honoured ::
  "key_pool \<Rightarrow> time \<Rightarrow> string option \<Rightarrow> nat list \<Rightarrow> affinity \<Rightarrow> bool" where
  "honoured p now role exclude existing =
     (let bound = kp_keys p ! af_key_index existing in
      now < af_expires_at existing \<and> af_role existing = role \<and> \<not> ks_removed bound \<and>
      ks_cooldown_until bound \<le> now \<and> af_key_index existing \<notin> set exclude \<and>
      role_may_use role bound)"

definition acquire ::
  "key_pool \<Rightarrow> time \<Rightarrow> string option \<Rightarrow> string option \<Rightarrow> nat list \<Rightarrow>
     (pool_error + string \<times> lease) \<times> key_pool" where
  "acquire p0 now affinity_key role exclude =
     (let p = maybe_sweep p0 now in
      case affinity_key of
        None \<Rightarrow> acquire_pick p now None role exclude
      | Some a \<Rightarrow>
          (case dict_get (kp_affinity p) a of
             None \<Rightarrow> acquire_pick p now (Some a) role exclude
           | Some existing \<Rightarrow>
               if length (kp_keys p) \<le> af_key_index existing then (Inl PoolIndexError, p)
               else if honoured p now role exclude existing
               then hand_out p (af_key_index existing) (Some a) role
               else acquire_pick (p\<lparr>kp_affinity := dict_del a (kp_affinity p)\<rparr>)
                      now (Some a) role exclude))"

section \<open>Release\<close>

definition has_untried_usable_key ::
  "key_pool \<Rightarrow> nat \<Rightarrow> time \<Rightarrow> string option \<Rightarrow> nat list \<Rightarrow> bool" where
  "has_untried_usable_key p exclude_idx now role tried =
     list_ex (\<lambda>(i, s). \<not> (i = exclude_idx \<or> i \<in> set tried \<or> ks_removed s) \<and>
                        \<not> now < ks_cooldown_until s \<and> role_may_use role s)
       (enumerate 0 (kp_keys p))"

definition has_other_usable_key ::
  "key_pool \<Rightarrow> nat \<Rightarrow> time \<Rightarrow> string option \<Rightarrow> bool" where
  "has_other_usable_key p exclude_idx now role =
     list_ex (\<lambda>(i, s). \<not> (i = exclude_idx \<or> ks_removed s) \<and>
                        \<not> now < ks_cooldown_until s \<and> role_may_use role s)
       (enumerate 0 (kp_keys p))"

definition sole_key_backoff :: "nat \<Rightarrow> time" where
  "sole_key_backoff failures =
     (let step = min (failures - SOLE_KEY_BACKOFF_THRESHOLD - 1) 8
      in min (SOLE_KEY_BACKOFF_BASE_SECONDS * 2 ^ step) MUTE_SECONDS)"

definition put_key :: "key_pool \<Rightarrow> nat \<Rightarrow> key_state \<Rightarrow> key_pool" where
  "put_key p i s = p\<lparr>kp_keys := (kp_keys p)[i := s]\<rparr>"

text \<open>The part of \<open>release\<close> under the lock, for a failure worth rotating for.\<close>

definition release_failure ::
  "key_pool \<Rightarrow> time \<Rightarrow> lease \<Rightarrow> int \<Rightarrow> nat list \<Rightarrow> release_outcome \<times> key_pool" where
  "release_failure p now lease status tried =
     (let idx = ls_key_index lease;
          s0 = kp_keys p ! idx;
          s = s0\<lparr>ks_consecutive_failures := Suc (ks_consecutive_failures s0)\<rparr>;
          p1 = put_key p idx s;
          mute = (\<lambda>d. (MUTED, put_key p idx (s\<lparr>ks_cooldown_until := now + d\<rparr>)))
      in if tried \<noteq> [] \<and> has_untried_usable_key p1 idx now (ls_role lease) tried
         then (ROTATED, p1)
         else
           (let is_sole_key = \<not> has_other_usable_key p1 idx now (ls_role lease)
            in if \<not> is_key_specific_status status
               then if is_sole_key then (PROPAGATE, p1) else mute MUTE_SECONDS
               else if is_sole_key
               then if ks_consecutive_failures s \<le> SOLE_KEY_BACKOFF_THRESHOLD then (PROPAGATE, p1)
                    else mute (sole_key_backoff (ks_consecutive_failures s))
               else mute MUTE_SECONDS))"

definition release ::
  "key_pool \<Rightarrow> time \<Rightarrow> lease \<Rightarrow> int option \<Rightarrow> nat list \<Rightarrow> (pool_error + release_outcome) \<times> key_pool"
  where
  "release p now lease status_code tried =
     (case status_code of
        None \<Rightarrow> (Inr PROPAGATE, p)
      | Some c \<Rightarrow>
          if \<not> should_mute_status c
          then if 200 \<le> c \<and> c < 300
               then if length (kp_keys p) \<le> ls_key_index lease then (Inl PoolIndexError, p)
                    else (Inr PROPAGATE,
                          put_key p (ls_key_index lease)
                            ((kp_keys p ! ls_key_index lease)\<lparr>ks_consecutive_failures := 0\<rparr>))
               else (Inr PROPAGATE, p)
          else if length (kp_keys p) \<le> ls_key_index lease then (Inl PoolIndexError, p)
          else map_prod Inr id (release_failure p now lease c tried))"

section \<open>The pool as a machine\<close>

datatype pool_op =
    OpAdd string "string option"
  | OpRetier string "string option"
  | OpRemove string
  | OpAcquire "string option" "string option" "nat list"
  | OpRelease lease "int option" "nat list"

text \<open>One call on the pool, with the clock reading it takes.\<close>

fun pool_step :: "key_pool \<Rightarrow> time \<times> pool_op \<Rightarrow> key_pool" where
  "pool_step p (now, OpAdd k r) = snd (add_key p now k r)"
| "pool_step p (now, OpRetier k r) = snd (set_key_min_role p now k r)"
| "pool_step p (now, OpRemove k) = snd (remove_key p now k)"
| "pool_step p (now, OpAcquire a r ex) = snd (acquire p now a r ex)"
| "pool_step p (now, OpRelease l c tr) = snd (release p now l c tr)"

text \<open>Well-formedness: one slot per credential, every slot has a role of the lattice, and
  every binding points at a slot.\<close>

definition pool_wf :: "key_pool \<Rightarrow> bool" where
  "pool_wf p \<longleftrightarrow>
     distinct (map ks_key (kp_keys p)) \<and>
     (\<forall>s \<in> set (kp_keys p). ks_min_role s \<in> VALID_ROLES) \<and>
     dict_wf (kp_affinity p) \<and>
     (\<forall>(a, e) \<in> set (kp_affinity p). af_key_index e < length (kp_keys p))"

text \<open>No key is muted past \<open>T + MUTE_SECONDS\<close>.\<close>

definition muted_within :: "time \<Rightarrow> key_pool \<Rightarrow> bool" where
  "muted_within T p \<longleftrightarrow> (\<forall>s \<in> set (kp_keys p). ks_cooldown_until s \<le> T + MUTE_SECONDS)"


section \<open>Selection\<close>

definition usable :: "key_pool \<Rightarrow> time \<Rightarrow> string option \<Rightarrow> nat list \<Rightarrow> nat \<Rightarrow> bool" where
  "usable p now role exclude i \<longleftrightarrow>
     i < length (kp_keys p) \<and> selectable now role exclude i (kp_keys p ! i)"

text \<open>Among two slots, the one reserved for the higher tier goes first, then the earlier one.\<close>

definition preferred_to :: "key_pool \<Rightarrow> nat \<Rightarrow> nat \<Rightarrow> bool" where
  "preferred_to p i j \<longleftrightarrow>
     rank_of (ks_min_role (kp_keys p ! j)) < rank_of (ks_min_role (kp_keys p ! i)) \<or>
     rank_of (ks_min_role (kp_keys p ! j)) = rank_of (ks_min_role (kp_keys p ! i)) \<and> i \<le> j"

lemma candidates_set:
  "(k, i) \<in> set (map (\<lambda>(i, s). (- rank_of (ks_min_role s), i))
      (filter (\<lambda>(i, s). selectable now role exclude i s) (enumerate 0 (kp_keys p)))) \<longleftrightarrow>
   usable p now role exclude i \<and> k = - rank_of (ks_min_role (kp_keys p ! i))"
  by (auto simp: usable_def in_set_enumerate_eq image_iff)

lemma pick_None: "pick_first_available p now role exclude = None \<longleftrightarrow> (\<forall>i. \<not> usable p now role exclude i)"
proof -
  let ?c = "map (\<lambda>(i, s). (- rank_of (ks_min_role s), i))
      (filter (\<lambda>(i, s). selectable now role exclude i s) (enumerate 0 (kp_keys p)))"
  have "?c = [] \<longleftrightarrow> (\<forall>k i. (k, i) \<notin> set ?c)"
    by (metis empty_iff list.set(1) list.set_intros(1) neq_Nil_conv surj_pair)
  then show ?thesis
    unfolding candidates_set pick_first_available_def Let_def by auto
qed

lemma pick_Some:
  assumes "pick_first_available p now role exclude = Some i"
  shows "usable p now role exclude i" "usable p now role exclude j \<Longrightarrow> preferred_to p i j"
proof -
  let ?c = "map (\<lambda>(i, s). (- rank_of (ks_min_role s), i))
      (filter (\<lambda>(i, s). selectable now role exclude i s) (enumerate 0 (kp_keys p)))"
  from assms have ne: "?c \<noteq> []" and i: "i = snd (min_list ?c)"
    by (auto simp: pick_first_available_def Let_def split: if_splits)
  obtain k where m: "min_list ?c = (k, i)" using i by (metis prod.collapse)
  from min_list_in [OF ne] have c: "(k, i) \<in> set ?c" unfolding m .
  then show "usable p now role exclude i" unfolding candidates_set by simp
  show "preferred_to p i j" if "usable p now role exclude j"
  proof -
    from that have "(- rank_of (ks_min_role (kp_keys p ! j)), j) \<in> set ?c"
      unfolding candidates_set by simp
    from min_list_le [OF this] have "(k, i) \<le> (- rank_of (ks_min_role (kp_keys p ! j)), j)"
      unfolding m .
    with c show ?thesis unfolding candidates_set by (auto simp: preferred_to_def)
  qed
qed

lemma preferred_to_antisym: "preferred_to p i j \<Longrightarrow> preferred_to p j i \<Longrightarrow> i = j"
  by (auto simp: preferred_to_def)

lemma pick_Some_iff:
  "pick_first_available p now role exclude = Some i \<longleftrightarrow>
     usable p now role exclude i \<and> (\<forall>j. usable p now role exclude j \<longrightarrow> preferred_to p i j)"
proof
  assume a: "usable p now role exclude i \<and> (\<forall>j. usable p now role exclude j \<longrightarrow> preferred_to p i j)"
  then obtain k where k: "pick_first_available p now role exclude = Some k"
    using pick_None by (metis option.exhaust)
  from pick_Some [OF k] a have "i = k" by (blast intro: preferred_to_antisym)
  with k show "pick_first_available p now role exclude = Some i" by simp
qed (blast dest: pick_Some)

lemma usable_cong: "kp_keys p = kp_keys q \<Longrightarrow> usable p = usable q"
  by (auto simp: usable_def fun_eq_iff)

lemma pick_cong:
  "kp_keys p = kp_keys q \<Longrightarrow> pick_first_available p = pick_first_available q"
  by (auto simp: pick_first_available_def fun_eq_iff)

lemma usable_mono_exclude: "usable p now role exclude i \<Longrightarrow> usable p now role [] i"
  by (auto simp: usable_def selectable_def)

lemma usable_mono_role: "usable p now role exclude i \<Longrightarrow> usable p now None exclude i"
  by (auto simp: usable_def selectable_def role_may_use_def)

section \<open>What acquire decides\<close>

lemma maybe_sweep_keys [simp]: "kp_keys (maybe_sweep p now) = kp_keys p"
  by (simp add: maybe_sweep_def)

lemma hand_out_simps [simp]:
  "fst (hand_out p i a r) =
     Inr (ks_key (kp_keys p ! i), \<lparr>ls_key_index = i, ls_affinity_key = a, ls_role = r\<rparr>)"
  "kp_affinity (snd (hand_out p i a r)) = kp_affinity p"
  "length (kp_keys (snd (hand_out p i a r))) = length (kp_keys p)"
  by (simp_all add: hand_out_def Let_def)

lemma acquire_pick_fst:
  "fst (acquire_pick p now a role exclude) =
    (case pick_first_available p now role exclude of
       Some i \<Rightarrow> Inr (ks_key (kp_keys p ! i), \<lparr>ls_key_index = i, ls_affinity_key = a, ls_role = role\<rparr>)
     | None \<Rightarrow> Inl (if \<exists>i. usable p now role [] i then KeyPoolExhausted AllTried
                     else if \<exists>i. usable p now None [] i then KeyPoolRoleRestricted
                     else KeyPoolExhausted NoneUsable))"
proof -
  have "(\<exists>i. usable p now r [] i) \<longleftrightarrow> pick_first_available p now r [] \<noteq> None" for r
    by (simp add: pick_None)
  then show ?thesis by (simp add: acquire_pick_def split: option.split)
qed

lemma acquire_pick_cong:
  "kp_keys p = kp_keys q \<Longrightarrow> fst (acquire_pick p now a role ex) = fst (acquire_pick q now a role ex)"
  by (simp add: acquire_pick_fst usable_cong [of p q] pick_cong [of p q] split: option.split)

lemma honoured_usable:
  "af_key_index e < length (kp_keys p) \<Longrightarrow> honoured p now role exclude e \<Longrightarrow>
     usable p now role exclude (af_key_index e)"
  by (auto simp: honoured_def usable_def selectable_def Let_def)

text \<open>The two ways a call can be answered once the pool is well formed: through a live
  binding, or by a fresh pick from the same keys.\<close>

lemma acquire_cases:
  assumes wf: "pool_wf p"
  obtains (bound) i where "fst (acquire p now a role exclude) =
        Inr (ks_key (kp_keys p ! i), \<lparr>ls_key_index = i, ls_affinity_key = a, ls_role = role\<rparr>)"
      "usable p now role exclude i"
    | (pick) "fst (acquire p now a role exclude) = fst (acquire_pick p now a role exclude)"
proof (cases a)
  case None
  then have "fst (acquire p now a role exclude) = fst (acquire_pick p now a role exclude)"
    by (simp add: acquire_def Let_def acquire_pick_cong [of "maybe_sweep p now" p])
  then show thesis by (rule pick)
next
  case (Some k)
  let ?p = "maybe_sweep p now"
  show thesis
  proof (cases "dict_get (kp_affinity ?p) k")
    case None
    with Some have "fst (acquire p now a role exclude) = fst (acquire_pick p now a role exclude)"
      by (simp add: acquire_def Let_def acquire_pick_cong [of "maybe_sweep p now" p])
    then show thesis by (rule pick)
  next
    case (Some e)
    then have "(k, e) \<in> set (kp_affinity p)"
      by (auto dest!: map_of_SomeD simp: maybe_sweep_def split: if_splits)
    with wf have lt: "af_key_index e < length (kp_keys p)" by (auto simp: pool_wf_def)
    show thesis
    proof (cases "honoured ?p now role exclude e")
      case True
      with lt have "usable ?p now role exclude (af_key_index e)"
        by (intro honoured_usable) simp_all
      then have u: "usable p now role exclude (af_key_index e)"
        by (simp add: usable_cong [OF maybe_sweep_keys])
      from True lt Some \<open>a = Some k\<close> show thesis
        by (intro bound [OF _ u]) (simp add: acquire_def Let_def)
    next
      case False
      with lt Some \<open>a = Some k\<close>
      have "fst (acquire p now a role exclude) =
              fst (acquire_pick (?p\<lparr>kp_affinity := dict_del k (kp_affinity ?p)\<rparr>) now a role exclude)"
        by (simp add: acquire_def Let_def)
      also have "\<dots> = fst (acquire_pick p now a role exclude)"
        by (rule acquire_pick_cong) simp
      finally show thesis by (rule pick)
    qed
  qed
qed

text \<open>Whatever is handed out is a slot the caller may use now, with that slot's key; and a
  refusal means there is no such slot, classified by whether the exclusions or the tiers
  are to blame.\<close>

lemma acquire_spec:
  assumes "pool_wf p"
  shows "case fst (acquire p now a role exclude) of
      Inr (key, l) \<Rightarrow> usable p now role exclude (ls_key_index l) \<and>
          key = ks_key (kp_keys p ! ls_key_index l) \<and> ls_affinity_key l = a \<and> ls_role l = role
    | Inl e \<Rightarrow> (\<forall>i. \<not> usable p now role exclude i) \<and>
          e = (if \<exists>i. usable p now role [] i then KeyPoolExhausted AllTried
               else if \<exists>i. usable p now None [] i then KeyPoolRoleRestricted
               else KeyPoolExhausted NoneUsable)"
proof (cases rule: acquire_cases [OF assms, of now a role exclude])
  case (1 i)
  then show ?thesis by simp
next
  case 2
  then show ?thesis
    by (auto simp: acquire_pick_fst pick_None dest: pick_Some split: option.splits)
qed

lemma acquire_no_IndexError: "pool_wf p \<Longrightarrow> fst (acquire p now a role ex) \<noteq> Inl PoolIndexError"
  using acquire_spec [where p = p and now = now and a = a and role = role and exclude = ex] by (auto split: if_splits)

lemma acquire_succeeds_iff:
  "pool_wf p \<Longrightarrow> (\<exists>r. fst (acquire p now a role ex) = Inr r) \<longleftrightarrow> (\<exists>i. usable p now role ex i)"
  using acquire_spec [where p = p and now = now and a = a and role = role and exclude = ex] by (auto split: sum.splits)

section \<open>What release decides\<close>

lemma has_untried_usable_iff:
  "has_untried_usable_key p idx now role tried \<longleftrightarrow> (\<exists>i. i \<noteq> idx \<and> usable p now role tried i)"
  by (auto simp: has_untried_usable_key_def usable_def selectable_def list_ex_iff
      in_set_enumerate_eq Bex_def)

lemma has_other_usable_iff:
  "has_other_usable_key p idx now role \<longleftrightarrow> (\<exists>i. i \<noteq> idx \<and> usable p now role [] i)"
  by (auto simp: has_other_usable_key_def usable_def selectable_def list_ex_iff
      in_set_enumerate_eq Bex_def)

lemma put_key_simps [simp]:
  "length (kp_keys (put_key p i s)) = length (kp_keys p)"
  "kp_affinity (put_key p i s) = kp_affinity p"
  "kp_provider_label (put_key p i s) = kp_provider_label p"
  by (simp_all add: put_key_def)

lemma usable_put_key_other: "i \<noteq> idx \<Longrightarrow> usable (put_key p idx s) now role ex i = usable p now role ex i"
  by (auto simp: usable_def put_key_def)

lemma other_usable_put_key:
  "has_other_usable_key (put_key p idx s) idx now role = has_other_usable_key p idx now role"
  "has_untried_usable_key (put_key p idx s) idx now role tr = has_untried_usable_key p idx now role tr"
  by (auto simp: has_other_usable_iff has_untried_usable_iff usable_put_key_other)

lemma sole_key_backoff_le: "sole_key_backoff n \<le> MUTE_SECONDS"
  by (simp add: sole_key_backoff_def Let_def)

lemma sole_key_backoff_pos: "0 < sole_key_backoff n"
  by (simp add: sole_key_backoff_def SOLE_KEY_BACKOFF_BASE_SECONDS_def MUTE_SECONDS_def Let_def)

lemma sole_key_backoff_ramp: "sole_key_backoff 3 = 15" "3 < n \<Longrightarrow> sole_key_backoff n = 20"
proof -
  show "sole_key_backoff 3 = 15"
    by (simp add: sole_key_backoff_def SOLE_KEY_BACKOFF_BASE_SECONDS_def MUTE_SECONDS_def
        SOLE_KEY_BACKOFF_THRESHOLD_def)
  assume n: "3 < n"
  define k where "k = min (n - 2 - 1) 8"
  from n have "1 \<le> k" by (simp add: k_def)
  then have "(2 :: real) ^ 1 \<le> 2 ^ k" by (intro power_increasing) simp_all
  then have "20 \<le> 15 * (2 :: real) ^ k" by simp
  then show "sole_key_backoff n = 20"
    unfolding sole_key_backoff_def SOLE_KEY_BACKOFF_BASE_SECONDS_def MUTE_SECONDS_def
      SOLE_KEY_BACKOFF_THRESHOLD_def Let_def k_def [symmetric]
    by (simp add: min_def)
qed

text \<open>A failed slot after \<open>release\<close>: what is written to it, by case.\<close>

definition failed_slot :: "key_pool \<Rightarrow> nat \<Rightarrow> key_state" where
  "failed_slot p i =
     (kp_keys p ! i)\<lparr>ks_consecutive_failures := Suc (ks_consecutive_failures (kp_keys p ! i))\<rparr>"

lemma release_failure_cases:
  fixes p now l c tried
  defines "i \<equiv> ls_key_index l" and "r \<equiv> ls_role l"
  defines "n \<equiv> Suc (ks_consecutive_failures (kp_keys p ! i))"
  shows "release_failure p now l c tried =
    (if tried \<noteq> [] \<and> has_untried_usable_key p i now r tried
     then (ROTATED, put_key p i (failed_slot p i))
     else if \<not> has_other_usable_key p i now r \<and>
             (\<not> is_key_specific_status c \<or> n \<le> SOLE_KEY_BACKOFF_THRESHOLD)
     then (PROPAGATE, put_key p i (failed_slot p i))
     else (MUTED, put_key p i ((failed_slot p i)\<lparr>ks_cooldown_until := now +
             (if has_other_usable_key p i now r then MUTE_SECONDS else sole_key_backoff n)\<rparr>)))"
  unfolding release_failure_def Let_def failed_slot_def assms
  by (simp add: other_usable_put_key)

section \<open>Every operation keeps the pool well formed\<close>

text \<open>The bound on mutes rides along: it holds of a fresh pool at any time from which
  on the clock is not negative, and only \<open>release\<close> writes a cooldown.\<close>

lemma pool_wfI:
  assumes "distinct (map ks_key (kp_keys p))" "\<And>s. s \<in> set (kp_keys p) \<Longrightarrow> ks_min_role s \<in> VALID_ROLES"
    "dict_wf (kp_affinity p)" "\<And>a e. (a, e) \<in> set (kp_affinity p) \<Longrightarrow> af_key_index e < length (kp_keys p)"
  shows "pool_wf p"
  using assms by (auto simp: pool_wf_def)

lemma pool_wf_affinity_subset:
  assumes "pool_wf p" "kp_keys q = kp_keys p" "set (kp_affinity q) \<subseteq> set (kp_affinity p)"
    "dict_wf (kp_affinity q)"
  shows "pool_wf q"
  using assms by (auto simp: pool_wf_def)

text \<open>A pool whose keys changed only in fields that are neither the credential nor an
  invalid role, with the same bindings.\<close>

lemma pool_wf_keys:
  assumes "pool_wf p" "map ks_key (kp_keys q) = map ks_key (kp_keys p)"
    "\<And>s. s \<in> set (kp_keys q) \<Longrightarrow> ks_min_role s \<in> VALID_ROLES" "kp_affinity q = kp_affinity p"
  shows "pool_wf q"
proof -
  from assms(2) have "length (kp_keys q) = length (kp_keys p)" by (metis length_map)
  with assms show ?thesis by (auto simp: pool_wf_def)
qed

lemma pool_wf_put_key:
  assumes "pool_wf p" "i < length (kp_keys p)" "ks_key s = ks_key (kp_keys p ! i)"
    "ks_min_role s \<in> VALID_ROLES"
  shows "pool_wf (put_key p i s)"
proof (rule pool_wf_keys [OF assms(1)])
  show "map ks_key (kp_keys (put_key p i s)) = map ks_key (kp_keys p)"
    using assms(2,3) by (simp add: put_key_def map_update list_update_same_conv)
  show "ks_min_role t \<in> VALID_ROLES" if "t \<in> set (kp_keys (put_key p i s))" for t
    using that assms by (auto simp: put_key_def pool_wf_def dest!: set_update_subset_insert [THEN subsetD])
qed simp

lemma pool_wf_valid_role: "pool_wf p \<Longrightarrow> i < length (kp_keys p) \<Longrightarrow> ks_min_role (kp_keys p ! i) \<in> VALID_ROLES"
  by (auto simp: pool_wf_def)

lemma normalize_valid [simp]: "normalize_min_role r \<in> VALID_ROLES"
  by (auto simp: normalize_min_role_def valid_roles_ranked ROLE_RANK_def split: option.splits)

lemma pool_wf_dict: "pool_wf p \<Longrightarrow> dict_wf (kp_affinity p)"
  by (simp add: pool_wf_def)

lemma drop_repointed_wf: "pool_wf p \<Longrightarrow> pool_wf (drop_repointed_affinities p now)"
  by (rule pool_wf_affinity_subset [of p]) (auto simp: drop_repointed_affinities_def pool_wf_dict)

lemma drop_repointed_keys [simp]: "kp_keys (drop_repointed_affinities p now) = kp_keys p"
  by (simp add: drop_repointed_affinities_def)

lemma maybe_sweep_wf: "pool_wf p \<Longrightarrow> pool_wf (maybe_sweep p now)"
  by (rule pool_wf_affinity_subset [of p]) (auto simp: maybe_sweep_def pool_wf_dict)

lemma hand_out_put: "snd (hand_out p i a r) =
    put_key p i ((kp_keys p ! i)\<lparr>ks_request_count := Suc (ks_request_count (kp_keys p ! i))\<rparr>)"
  by (simp add: hand_out_def put_key_def Let_def)

lemma hand_out_wf: "pool_wf p \<Longrightarrow> i < length (kp_keys p) \<Longrightarrow> pool_wf (snd (hand_out p i a r))"
  unfolding hand_out_put by (rule pool_wf_put_key) (auto simp: pool_wf_valid_role)

lemma pool_wf_bind:
  assumes "pool_wf p" "af_key_index e < length (kp_keys p)"
  shows "pool_wf (p\<lparr>kp_affinity := dict_set a e (kp_affinity p)\<rparr>)"
  using assms dict_set_entries [of a e "kp_affinity p"] by (intro pool_wfI) (auto simp: pool_wf_def)

lemma acquire_pick_wf:
  assumes "pool_wf p"
  shows "pool_wf (snd (acquire_pick p now a role ex))"
proof (cases "pick_first_available p now role ex")
  case None
  with assms show ?thesis by (simp add: acquire_pick_def)
next
  case (Some i)
  then have "i < length (kp_keys p)" by (auto dest: pick_Some simp: usable_def)
  with Some assms show ?thesis
    by (auto simp: acquire_pick_def intro!: hand_out_wf pool_wf_bind split: option.split)
qed

lemma acquire_wf [wf_intros]:
  assumes "pool_wf p"
  shows "pool_wf (snd (acquire p now a role ex))"
proof -
  let ?p = "maybe_sweep p now"
  have wf: "pool_wf ?p" using assms by (rule maybe_sweep_wf)
  have "pool_wf (?p\<lparr>kp_affinity := dict_del k (kp_affinity ?p)\<rparr>)" for k
    using wf by (intro pool_wf_affinity_subset [OF wf]) (auto simp: pool_wf_dict dict_del_entries)
  with wf show ?thesis
    by (auto simp: acquire_def Let_def intro!: acquire_pick_wf hand_out_wf split: option.split)
qed

lemma failed_slot_simps [simp]:
  "ks_key (failed_slot p i) = ks_key (kp_keys p ! i)"
  "ks_min_role (failed_slot p i) = ks_min_role (kp_keys p ! i)"
  "ks_cooldown_until (failed_slot p i) = ks_cooldown_until (kp_keys p ! i)"
  by (simp_all add: failed_slot_def)

text \<open>A release writes at most its own slot, and there only the failure count and the
  cooldown, which it sets at most \<open>MUTE_SECONDS\<close> ahead.\<close>

lemma release_effect:
  obtains "snd (release p now l c tr) = p"
    | s where "ls_key_index l < length (kp_keys p)"
      "snd (release p now l c tr) = put_key p (ls_key_index l) s"
      "ks_key s = ks_key (kp_keys p ! ls_key_index l)"
      "ks_min_role s = ks_min_role (kp_keys p ! ls_key_index l)"
      "ks_removed s = ks_removed (kp_keys p ! ls_key_index l)"
      "ks_cooldown_until s = ks_cooldown_until (kp_keys p ! ls_key_index l) \<or>
       now < ks_cooldown_until s \<and> ks_cooldown_until s \<le> now + MUTE_SECONDS"
proof -
  let ?i = "ls_key_index l"
  have mute: "0 < MUTE_SECONDS" by (simp add: MUTE_SECONDS_def)
  have fail: "\<exists>s. snd (release_failure p now l n tr) = put_key p ?i s \<and>
      ks_key s = ks_key (kp_keys p ! ?i) \<and> ks_min_role s = ks_min_role (kp_keys p ! ?i) \<and>
      ks_removed s = ks_removed (kp_keys p ! ?i) \<and>
      (ks_cooldown_until s = ks_cooldown_until (kp_keys p ! ?i) \<or>
       now < ks_cooldown_until s \<and> ks_cooldown_until s \<le> now + MUTE_SECONDS)" for n
  proof -
    let ?s = "\<lambda>d. (failed_slot p ?i)\<lparr>ks_cooldown_until := now + d\<rparr>"
    have "snd (release_failure p now l n tr) \<in>
        {put_key p ?i (failed_slot p ?i), put_key p ?i (?s MUTE_SECONDS),
         put_key p ?i (?s (sole_key_backoff (Suc (ks_consecutive_failures (kp_keys p ! ?i)))))}"
      by (simp add: release_failure_cases)
    then show ?thesis
      using mute by (auto simp: failed_slot_def sole_key_backoff_le sole_key_backoff_pos
          intro: exI [of _ "failed_slot p ?i"] exI [of _ "?s MUTE_SECONDS"]
            exI [of _ "?s (sole_key_backoff (Suc (ks_consecutive_failures (kp_keys p ! ?i))))"])
  qed
  show thesis
  proof (cases "snd (release p now l c tr) = p")
    case False
    then obtain n where c: "c = Some n" and i: "?i < length (kp_keys p)"
      by (auto simp: release_def split: option.splits if_splits)
    show thesis
    proof (cases "should_mute_status n")
      case True
      with c i have "snd (release p now l c tr) = snd (release_failure p now l n tr)"
        by (simp add: release_def)
      with fail [of n] i that(2) show thesis by metis
    next
      case False
      with c i \<open>snd (release p now l c tr) \<noteq> p\<close> show thesis
        by (intro that(2) [of "(kp_keys p ! ?i)\<lparr>ks_consecutive_failures := 0\<rparr>"])
          (auto simp: release_def split: if_splits)
    qed
  qed (rule that(1))
qed

lemma release_wf [wf_intros]:
  assumes "pool_wf p"
  shows "pool_wf (snd (release p now l c tr))"
  by (cases rule: release_effect [of p now l c tr])
    (use assms in \<open>auto intro!: pool_wf_put_key simp: pool_wf_valid_role\<close>)

lemma distinct_map_update_same:
  "i < length xs \<Longrightarrow> f y = f (xs ! i) \<Longrightarrow> map f (xs[i := y]) = map f xs"
  by (simp add: map_update list_update_same_conv)

lemma add_key_wf [wf_intros]:
  assumes "pool_wf p"
  shows "pool_wf (snd (add_key p now k r))"
proof (cases "first_index (\<lambda>s. ks_key s = k) (kp_keys p)")
  case None
  let ?s = "fresh_key_state k (normalize_min_role r)"
  from None have new: "k \<notin> ks_key ` set (kp_keys p)" by (auto simp: first_index_None)
  have "pool_wf (p\<lparr>kp_keys := kp_keys p @ [?s]\<rparr>)"
    using assms new by (auto intro!: pool_wfI simp: pool_wf_def fresh_key_state_def less_Suc_eq)
  with None show ?thesis by (simp add: add_key_def Let_def drop_repointed_wf)
next
  case (Some i)
  then have i: "i < length (kp_keys p)" by (auto dest: first_index_Some)
  let ?s1 = "(kp_keys p ! i)\<lparr>ks_removed := False\<rparr>"
  let ?s = "case r of None \<Rightarrow> ?s1 | Some _ \<Rightarrow> ?s1\<lparr>ks_min_role := normalize_min_role r\<rparr>"
  have "pool_wf (put_key p i ?s)"
    using assms i by (intro pool_wf_put_key) (auto simp: pool_wf_valid_role split: option.split)
  with Some show ?thesis by (simp add: add_key_def Let_def put_key_def drop_repointed_wf)
qed

lemma set_key_min_role_wf [wf_intros]:
  assumes "pool_wf p"
  shows "pool_wf (snd (set_key_min_role p now k r))"
proof -
  let ?f = "\<lambda>s. if ks_key s = k \<and> \<not> ks_removed s then s\<lparr>ks_min_role := normalize_min_role r\<rparr> else s"
  have "pool_wf (p\<lparr>kp_keys := map ?f (kp_keys p)\<rparr>)"
    using assms by (intro pool_wf_keys [OF assms]) (auto simp: pool_wf_def comp_def)
  then show ?thesis by (simp add: set_key_min_role_def Let_def drop_repointed_wf)
qed

lemma remove_key_wf [wf_intros]:
  assumes "pool_wf p"
  shows "pool_wf (snd (remove_key p now k))"
proof (cases "first_index (\<lambda>s. ks_key s = k \<and> \<not> ks_removed s) (kp_keys p)")
  case None
  with assms show ?thesis by (simp add: remove_key_def)
next
  case (Some i)
  then have "i < length (kp_keys p)" by (auto dest: first_index_Some)
  with assms have "pool_wf (put_key p i ((kp_keys p ! i)\<lparr>ks_removed := True\<rparr>))"
    by (intro pool_wf_put_key) (auto simp: pool_wf_valid_role)
  with Some show ?thesis by (simp add: remove_key_def put_key_def drop_repointed_wf)
qed

lemma pool_step_wf: "pool_wf p \<Longrightarrow> pool_wf (pool_step p e)"
  by (cases "(p, e)" rule: pool_step.cases) (auto intro: wf_intros)

lemma dedupe_onto_spec:
  "distinct acc \<Longrightarrow> distinct (dedupe_onto acc ks) \<and> set (dedupe_onto acc ks) = set acc \<union> set ks"
  by (induction ks arbitrary: acc) auto

lemma KeyPool_init_wf: "KeyPool_init keys label roles = Inr p \<Longrightarrow> pool_wf p"
  using dedupe_onto_spec [of "[]" keys]
  by (auto simp: KeyPool_init_def pool_wf_def fresh_key_state_def comp_def split: if_splits)

interpretation pool: kept_invariant pool_step "\<lambda>_. True" pool_wf
  by unfold_locales (rule pool_step_wf)

lemma pool_run_wf: "KeyPool_init keys label roles = Inr p \<Longrightarrow> pool_wf (run pool_step p es)"
  by (rule pool.run_keeps) (auto simp: list_all_iff intro: KeyPool_init_wf)

section \<open>Mutes are short\<close>

lemma muted_within_put_key:
  "muted_within T p \<Longrightarrow> ks_cooldown_until s \<le> T + MUTE_SECONDS \<Longrightarrow> muted_within T (put_key p i s)"
  by (auto simp: muted_within_def put_key_def dest!: set_update_subset_insert [THEN subsetD])

lemma muted_within_same_keys [simp]:
  "muted_within T (p\<lparr>kp_affinity := x\<rparr>) = muted_within T p"
  "muted_within T (maybe_sweep p now) = muted_within T p"
  by (simp_all add: muted_within_def)

lemma hand_out_muted:
  assumes "muted_within T p" "i < length (kp_keys p)"
  shows "muted_within T (snd (hand_out p i a r))"
  unfolding hand_out_put using assms by (intro muted_within_put_key) (auto simp: muted_within_def)

lemma acquire_pick_muted:
  assumes "muted_within T p"
  shows "muted_within T (snd (acquire_pick p now a role ex))"
proof (cases "pick_first_available p now role ex")
  case None
  with assms show ?thesis by (simp add: acquire_pick_def)
next
  case (Some i)
  then have "i < length (kp_keys p)" by (auto dest: pick_Some(1) simp: usable_def)
  with Some assms show ?thesis
    by (auto simp: acquire_pick_def intro!: hand_out_muted split: option.split)
qed

lemma acquire_muted: "muted_within T p \<Longrightarrow> muted_within T (snd (acquire p now a role ex))"
  by (auto simp: acquire_def Let_def intro!: acquire_pick_muted hand_out_muted split: option.split)

lemma release_muted:
  assumes "muted_within T p" "now \<le> T"
  shows "muted_within T (snd (release p now l c tr))"
proof (cases rule: release_effect [of p now l c tr])
  case 1
  with assms show ?thesis by simp
next
  case (2 s)
  with assms have "ks_cooldown_until s \<le> T + MUTE_SECONDS" by (auto simp: muted_within_def)
  with 2 assms show ?thesis by (simp add: muted_within_put_key)
qed

lemma add_key_muted:
  assumes "muted_within T p" "0 \<le> T"
  shows "muted_within T (snd (add_key p now k r))"
proof (cases "first_index (\<lambda>s. ks_key s = k) (kp_keys p)")
  case None
  with assms show ?thesis
    by (simp add: add_key_def Let_def muted_within_def fresh_key_state_def MUTE_SECONDS_def)
next
  case (Some i)
  then have "i < length (kp_keys p)" by (auto dest: first_index_Some)
  with Some assms show ?thesis
    by (auto simp: add_key_def Let_def muted_within_def dest!: set_update_subset_insert [THEN subsetD]
        split: option.splits if_splits)
qed

lemma set_key_min_role_muted: "muted_within T p \<Longrightarrow> muted_within T (snd (set_key_min_role p now k r))"
  by (auto simp: set_key_min_role_def Let_def muted_within_def)

lemma remove_key_muted: "muted_within T p \<Longrightarrow> muted_within T (snd (remove_key p now k))"
  by (auto simp: remove_key_def muted_within_def dest!: set_update_subset_insert [THEN subsetD] first_index_Some
      split: option.splits)

interpretation mutes: kept_invariant pool_step "\<lambda>e. fst e \<le> T" "\<lambda>p. 0 \<le> T \<and> muted_within T p" for T
proof unfold_locales
  fix p and e :: "time \<times> pool_op"
  assume "0 \<le> T \<and> muted_within T p" "fst e \<le> T"
  then show "0 \<le> T \<and> muted_within T (pool_step p e)"
    by (cases "(p, e)" rule: pool_step.cases)
      (auto intro: add_key_muted set_key_min_role_muted remove_key_muted acquire_muted release_muted)
qed

lemma KeyPool_init_muted: "KeyPool_init keys label roles = Inr p \<Longrightarrow> 0 \<le> T \<Longrightarrow> muted_within T p"
  by (auto simp: KeyPool_init_def muted_within_def fresh_key_state_def MUTE_SECONDS_def split: if_splits)

lemma pool_run_muted:
  "KeyPool_init keys label roles = Inr p \<Longrightarrow> 0 \<le> T \<Longrightarrow> \<forall>e \<in> set es. fst e \<le> T \<Longrightarrow>
     muted_within T (run pool_step p es)"
  using mutes.run_keeps [of T p es] by (auto simp: list_all_iff intro: KeyPool_init_muted)

lemma size_for_pos: "0 < size_for p role \<longleftrightarrow>
    (\<exists>i < length (kp_keys p). \<not> ks_removed (kp_keys p ! i) \<and> role_may_use role (kp_keys p ! i))"
  by (fastforce simp: size_for_def filter_empty_conv in_set_conv_nth)

lemma can_serve_iff: "can_serve_role p now role \<longleftrightarrow> (\<exists>i. usable p now role [] i)"
  by (simp add: can_serve_role_def pick_None)

section \<open>Affinity\<close>

lemma kp_affinity_hand_out_bind:
  "fst (acquire_pick p now (Some a) role ex) = Inr (k, l) \<Longrightarrow>
     dict_get (kp_affinity (snd (acquire_pick p now (Some a) role ex))) a =
       Some \<lparr>af_key_index = ls_key_index l, af_expires_at = now + AFFINITY_TTL_SECONDS, af_role = role\<rparr>"
  by (auto simp: acquire_pick_def split: option.splits)

lemma role_may_use_rank:
  "role_may_use (Some r) s \<Longrightarrow> ks_min_role s \<in> VALID_ROLES \<Longrightarrow> rank_of (ks_min_role s) \<le> rank_of r"
  using rank_of_range(1) [of r]
  by (auto simp: role_may_use_def has_role_rank rank_of_def ROLE_RANK_def split: if_splits)

lemma honoured_role: "honoured p now role ex e \<Longrightarrow> af_role e = role"
  by (simp add: honoured_def Let_def)

text \<open>The binding a successful call leaves behind.\<close>

lemma acquire_binding:
  assumes wf: "pool_wf p" and ok: "fst (acquire p now (Some a) role ex) = Inr (k, l)"
  obtains e where "dict_get (kp_affinity (snd (acquire p now (Some a) role ex))) a = Some e"
    "af_key_index e = ls_key_index l" "af_role e = role" "now < af_expires_at e"
proof -
  let ?p = "maybe_sweep p now"
  let ?q = "\<lambda>q. acquire_pick q now (Some a) role ex"
  note binding = that
  have picked: thesis if q: "acquire p now (Some a) role ex = ?q q" for q
  proof -
    from ok q have "fst (?q q) = Inr (k, l)" by simp
    from kp_affinity_hand_out_bind [OF this] q show thesis
      by (intro binding) (auto simp: AFFINITY_TTL_SECONDS_def)
  qed
  show thesis
  proof (cases "dict_get (kp_affinity ?p) a")
    case None
    then show thesis by (intro picked [of ?p]) (simp add: acquire_def Let_def)
  next
    case (Some e)
    show thesis
    proof (cases "honoured ?p now role ex e \<and> af_key_index e < length (kp_keys p)")
      case True
      then have "now < af_expires_at e" by (simp add: honoured_def Let_def)
      with True Some ok show thesis
        by (intro binding [of e]) (auto simp: acquire_def Let_def honoured_role)
    next
      case False
      with Some ok show thesis
        by (intro picked [of "?p\<lparr>kp_affinity := dict_del a (kp_affinity ?p)\<rparr>"])
          (auto simp: acquire_def Let_def split: if_splits)
    qed
  qed
qed

lemma acquire_key_of:
  assumes "pool_wf p" "fst (acquire p now a role ex) = Inr (k, l)"
  shows "usable p now role ex (ls_key_index l)" "k = ks_key (kp_keys p ! ls_key_index l)"
    "ls_affinity_key l = a" "ls_role l = role"
  using acquire_spec [OF assms(1), where now = now and a = a and role = role and exclude = ex] assms(2)
  by auto

lemma role_may_use_count [simp]: "role_may_use r (s\<lparr>ks_request_count := n\<rparr>) = role_may_use r s"
  by (simp add: role_may_use_def split: option.split)

lemma acquire_keys:
  assumes "pool_wf p" "fst (acquire p now a role ex) = Inr (k, l)"
  shows "kp_keys (snd (acquire p now a role ex)) = kp_keys (snd (hand_out p (ls_key_index l) a role))"
proof -
  let ?s = "kp_keys p ! ls_key_index l"
  have pick: "kp_keys (snd (acquire_pick q now b role ex)) =
      (kp_keys p)[ls_key_index l := ?s\<lparr>ks_request_count := Suc (ks_request_count ?s)\<rparr>]"
    if "kp_keys q = kp_keys p" "fst (acquire_pick q now b role ex) = Inr (k, l)" for q b
    using that by (auto simp: acquire_pick_def hand_out_put put_key_def split: option.splits)
  show ?thesis
    using assms(2) by (auto simp: acquire_def Let_def hand_out_put put_key_def split: option.splits if_splits
        intro!: pick)
qed

section \<open>A concrete pool\<close>

text \<open>A provider configured with a shared key \<open>ka\<close> (named twice) and a key \<open>kb\<close>
  reserved for \<open>pro\<close>, on which the properties below are instantiated.\<close>

definition demo_pool :: key_pool where
  "demo_pool = \<lparr>kp_keys = [fresh_key_state ''ka'' ''free'', fresh_key_state ''kb'' ''pro''],
                kp_affinity = [], kp_provider_label = ''acme''\<rparr>"

lemma demo_pool_init: "KeyPool_init [''ka'', ''kb'', ''ka''] ''acme'' [(''kb'', ''pro'')] = Inr demo_pool"
  by (simp add: KeyPool_init_def demo_pool_def normalize_min_role_def ROLE_RANK_def)

lemmas pool_eval = demo_pool_def fresh_key_state_def acquire_def acquire_pick_def hand_out_def
  honoured_def maybe_sweep_def pick_first_available_def selectable_def role_may_use_def has_role_def
  rank_of_def ROLE_RANK_def SWEEP_THRESHOLD_def AFFINITY_TTL_SECONDS_def Let_def

lemma demo_pool_wf: "pool_wf demo_pool"
  by (rule KeyPool_init_wf [OF demo_pool_init])

section \<open>Properties\<close>

text \<open>C7. Whatever sequence of calls a pool has seen since it was built (keys added,
  re-tiered and removed, leases taken and returned in any order, with any leases and
  exclusions), it holds at most one slot per credential, every slot's reservation is a role
  of the lattice, and every affinity binding points at an existing slot.\<close>

theorem pool_stays_well_formed:
  assumes "KeyPool_init keys label roles = Inr p"
  shows "pool_wf (run pool_step p es)"
  using assms by (rule pool_run_wf)

theorem pool_stays_well_formed_witness:
  "KeyPool_init [''ka'', ''kb'', ''ka''] ''acme'' [(''kb'', ''pro'')] = Inr demo_pool \<and>
   pool_wf (run pool_step demo_pool
     [(1, OpAcquire (Some ''u'') (Some ''pro'') []), (2, OpRemove ''kb''), (3, OpAdd ''kb'' None)])"
  using demo_pool_init pool_stays_well_formed [OF demo_pool_init] by blast

text \<open>C1. A caller with role \<open>r\<close> is only ever handed the credential of a slot that is
  in service, is not muted, is not among the slots the request already tried, and is
  reserved for no tier above \<open>r\<close> -- also when the slot comes from an affinity binding
  made before keys were re-tiered or removed.\<close>

theorem acquire_entitled:
  assumes "KeyPool_init keys label roles = Inr p0" and "p = run pool_step p0 es"
    and "fst (acquire p now a (Some r) ex) = Inr (key, l)"
  shows "ls_key_index l < length (kp_keys p) \<and>
    (let s = kp_keys p ! ls_key_index l in
       key = ks_key s \<and> \<not> ks_removed s \<and> ks_cooldown_until s \<le> now \<and>
       ls_key_index l \<notin> set ex \<and> rank_of (ks_min_role s) \<le> rank_of r)"
proof -
  have wf: "pool_wf p" unfolding assms(2) using assms(1) by (rule pool_run_wf)
  from acquire_key_of [OF wf assms(3)] pool_wf_valid_role [OF wf] show ?thesis
    by (auto simp: usable_def selectable_def Let_def intro: role_may_use_rank)
qed

theorem acquire_entitled_witness:
  "fst (acquire demo_pool 5 None (Some ''free'') []) =
     Inr (''ka'', \<lparr>ls_key_index = 0, ls_affinity_key = None, ls_role = Some ''free''\<rparr>) \<and>
   rank_of (ks_min_role (kp_keys demo_pool ! 0)) \<le> rank_of ''free''"
proof -
  have r: "fst (acquire demo_pool 5 None (Some ''free'') []) =
      Inr (''ka'', \<lparr>ls_key_index = 0, ls_affinity_key = None, ls_role = Some ''free''\<rparr>)"
    by (simp add: pool_eval)
  have d: "demo_pool = run pool_step demo_pool []" by simp
  from acquire_entitled [OF demo_pool_init d r] r show ?thesis by (simp add: Let_def)
qed

text \<open>\<open>acquire\<close> refuses exactly when the caller has no usable key left, never with an
  index error, and names the cause: the caller's own exclusions when it could use a key
  without them; a role restriction when somebody unrestricted could still be served; plain
  exhaustion otherwise.\<close>

lemma acquire_refusal:
  assumes "KeyPool_init keys label roles = Inr p0" and "p = run pool_step p0 es"
  shows "fst (acquire p now a role ex) = Inl e \<longleftrightarrow>
    (\<forall>i. \<not> usable p now role ex i) \<and>
    e = (if can_serve_role p now role then KeyPoolExhausted AllTried
         else if can_serve_role p now None then KeyPoolRoleRestricted
         else KeyPoolExhausted NoneUsable)"
proof -
  have wf: "pool_wf p" unfolding assms(2) using assms(1) by (rule pool_run_wf)
  show ?thesis
    using acquire_spec [OF wf, where now = now and a = a and role = role and exclude = ex]
    by (cases "fst (acquire p now a role ex)") (auto simp: can_serve_iff split: prod.splits)
qed

text \<open>A caller without affinity gets the best usable slot: reserved capacity of the
  highest tier it qualifies for first, configuration order within a tier.\<close>

lemma acquire_selection_order:
  assumes "pool_wf p"
  shows "(\<exists>key l. fst (acquire p now None role ex) = Inr (key, l) \<and> ls_key_index l = i) \<longleftrightarrow>
    usable p now role ex i \<and> (\<forall>j. usable p now role ex j \<longrightarrow> preferred_to p i j)"
proof -
  have "fst (acquire p now None role ex) = fst (acquire_pick p now None role ex)"
    by (simp add: acquire_def Let_def acquire_pick_cong [of "maybe_sweep p now" p])
  then show ?thesis
    by (auto simp: acquire_pick_fst pick_Some_iff [symmetric] split: option.splits)
qed

text \<open>C4. The whole decision of \<open>release\<close>. Neutral releases, 2xx and request-scoped 4xx
  propagate and mute nothing; other failures rotate while the request has an untried usable
  key, leaving the failing key selectable; otherwise the key is muted for
  \<open>MUTE_SECONDS\<close> when another key is alive, and as the sole usable key it stays in
  service for transient failures and for the first two key-specific ones, then backs off 15
  seconds once and 20 afterwards.\<close>

theorem release_decision:
  assumes "ls_key_index l < length (kp_keys p)"
  shows "release p now l c tried =
    (let i = ls_key_index l;
         n = Suc (ks_consecutive_failures (kp_keys p ! i));
         others = (\<exists>j. j \<noteq> i \<and> usable p now (ls_role l) [] j)
     in case c of None \<Rightarrow> (Inr PROPAGATE, p) | Some status \<Rightarrow>
      if \<not> should_mute_status status
      then (Inr PROPAGATE, if 200 \<le> status \<and> status < 300
              then put_key p i ((kp_keys p ! i)\<lparr>ks_consecutive_failures := 0\<rparr>) else p)
      else if tried \<noteq> [] \<and> (\<exists>j. j \<noteq> i \<and> usable p now (ls_role l) tried j)
      then (Inr ROTATED, put_key p i (failed_slot p i))
      else if \<not> others \<and> (\<not> is_key_specific_status status \<or> n \<le> 2)
      then (Inr PROPAGATE, put_key p i (failed_slot p i))
      else (Inr MUTED, put_key p i ((failed_slot p i)\<lparr>ks_cooldown_until := now +
              (if others then 20 else if n = 3 then 15 else 20)\<rparr>)))"
proof (cases c)
  case None
  then show ?thesis by (simp add: release_def)
next
  case (Some status)
  define n where "n = Suc (ks_consecutive_failures (kp_keys p ! ls_key_index l))"
  define others where "others = (\<exists>j. j \<noteq> ls_key_index l \<and> usable p now (ls_role l) [] j)"
  define untried where "untried = (\<exists>j. j \<noteq> ls_key_index l \<and> usable p now (ls_role l) tried j)"
  have bound: "length (kp_keys p) \<le> ls_key_index l \<longleftrightarrow> False" using assms by simp
  have ramp: "sole_key_backoff n = (if n = 3 then 15 else 20)" if "\<not> n \<le> 2"
    using sole_key_backoff_ramp(1) sole_key_backoff_ramp(2) [of n] that by auto
  show ?thesis
    unfolding Some release_def release_failure_cases has_other_usable_iff has_untried_usable_iff
      SOLE_KEY_BACKOFF_THRESHOLD_def MUTE_SECONDS_def Let_def n_def [symmetric] others_def [symmetric]
      untried_def [symmetric] bound
    by (cases others; cases "n \<le> 2") (simp_all add: ramp)
qed

theorem release_decision_witness:
  "fst (release demo_pool 5 \<lparr>ls_key_index = 1, ls_affinity_key = None, ls_role = Some ''pro''\<rparr> (Some 429) [1]) =
     Inr ROTATED"
proof -
  let ?l = "\<lparr>ls_key_index = 1, ls_affinity_key = None, ls_role = Some ''pro''\<rparr> :: lease"
  have b: "ls_key_index ?l < length (kp_keys demo_pool)" by (simp add: demo_pool_def)
  have "usable demo_pool 5 (Some ''pro'') [1] 0" by (simp add: usable_def pool_eval)
  then have "\<exists>j. j \<noteq> 1 \<and> usable demo_pool 5 (Some ''pro'') [1] j" by (intro exI [of _ 0]) simp
  then show ?thesis
    using release_decision [OF b, of 5 "Some 429" "[1]"]
    by (simp add: should_mute_status_def MUTABLE_4XX_def Let_def)
qed

text \<open>Muting is never permanent: once \<open>MUTE_SECONDS\<close> have passed since the last call
  on the pool, every caller that is entitled to some key in service is served, whatever
  failures the calls reported.\<close>

lemma mutes_expire:
  assumes "KeyPool_init keys label roles = Inr p0" and "0 \<le> T" and "\<forall>e \<in> set es. fst e \<le> T"
    and "p = run pool_step p0 es" and "T + 20 \<le> now"
  shows "can_serve_role p now role \<longleftrightarrow> 0 < size_for p role"
proof -
  from assms(1-3) have "muted_within T p" unfolding assms(4) by (rule pool_run_muted)
  then have "ks_cooldown_until (kp_keys p ! i) \<le> T + 20" if "i < length (kp_keys p)" for i
    using that by (auto simp: muted_within_def MUTE_SECONDS_def)
  with assms(5) have "ks_cooldown_until (kp_keys p ! i) \<le> now" if "i < length (kp_keys p)" for i
    using that order_trans by blast
  then show ?thesis by (auto simp: can_serve_iff size_for_pos usable_def selectable_def)
qed

text \<open>Sticky callers: a successful \<open>acquire\<close> leaves a binding to the slot it handed
  out, and until that binding expires the same caller in the same role gets the same key and
  lease back, unless it excludes the slot.\<close>

lemma affinity_is_sticky:
  assumes "pool_wf p" and "acquire p now (Some a) role ex = (Inr (k, l), q)"
  shows "\<exists>e. dict_get (kp_affinity q) a = Some e \<and> now < af_expires_at e \<and>
    (\<forall>now' ex'. now \<le> now' \<and> now' < af_expires_at e \<and> ls_key_index l \<notin> set ex' \<longrightarrow>
       fst (acquire q now' (Some a) role ex') = Inr (k, l))"
proof -
  have ok: "fst (acquire p now (Some a) role ex) = Inr (k, l)" and q: "q = snd (acquire p now (Some a) role ex)"
    using assms(2) by simp_all
  from acquire_binding [OF assms(1) ok] obtain e
    where e: "dict_get (kp_affinity q) a = Some e" "af_key_index e = ls_key_index l"
      "af_role e = role" "now < af_expires_at e" unfolding q .
  note key = acquire_key_of [OF assms(1) ok]
  have slot: "kp_keys q = kp_keys (snd (hand_out p (ls_key_index l) (Some a) role))"
    unfolding q by (rule acquire_keys [OF assms(1) ok])
  let ?s = "kp_keys q ! ls_key_index l"
  have s: "ls_key_index l < length (kp_keys q)" "ks_key ?s = k" "\<not> ks_removed ?s" "ks_cooldown_until ?s \<le> now"
    "role_may_use role ?s"
    using key slot by (auto simp: usable_def selectable_def hand_out_put put_key_def)
  have "fst (acquire q now' (Some a) role ex') = Inr (k, l)"
    if "now \<le> now'" "now' < af_expires_at e" "ls_key_index l \<notin> set ex'" for now' ex'
  proof -
    have "dict_get (kp_affinity (maybe_sweep q now')) a = Some e"
      using e(1) that(2) acquire_wf [OF assms(1), of now "Some a" role ex] unfolding q [symmetric]
      by (simp add: maybe_sweep_def dict_get_filter pool_wf_dict)
    moreover have "honoured (maybe_sweep q now') now' role ex' e"
      using s e that by (auto simp: honoured_def Let_def)
    ultimately show ?thesis
      using s e key by (auto simp: acquire_def Let_def)
  qed
  with e show ?thesis by blast
qed

end
