(* ===== verification/Key_Rotation.thy ===== *)
theory Key_Rotation
  imports Key_Pool
begin

text \<open>
  The key rotation of \<open>OpenAICompatAdapter\<close> (\<open>serving/adapters/openai_compat.py\<close>): the
  loops of \<open>_post_with_pool\<close> and \<open>_open_stream_with_pool\<close> over a \<open>KeyPool\<close>, the
  pool-less branches, the pre-flight errors, the promotion of a single-key adapter to a pool,
  and the statuses a finished stream is released with.

  One pass of a loop runs from one \<open>await\<close> to the next; what other requests do to the shared
  pool at an \<open>await\<close> is part of the environment of the pass (\<open>attempt\<close>), as are the
  outcome of waiting for an outbound slot and of the HTTP exchange. The two loops share their
  frame (\<open>rotate_keys\<close>) and differ in how a pass ends (\<open>post_attempt\<close>, \<open>stream_attempt\<close>).
  A pass also records which slot it used and how it ended, for the properties to speak about.
\<close>

section \<open>The request context\<close>

record request_ctx =
  cx_affinity_key :: "string option option"
  cx_auth_key_hash :: "string option"
  cx_user_role :: "string option"

definition caller_role :: "request_ctx \<Rightarrow> string option" where
  "caller_role cx = (case cx_user_role cx of None \<Rightarrow> None | Some r \<Rightarrow> if r = [] then None else Some r)"

definition pool_affinity_key :: "request_ctx \<Rightarrow> string option" where
  "pool_affinity_key cx =
     (case cx_affinity_key cx of
        Some a \<Rightarrow> a
      | None \<Rightarrow> (case cx_auth_key_hash cx of
          None \<Rightarrow> Some ''_anon'' | Some h \<Rightarrow> Some (if h = [] then ''_anon'' else h)))"

section \<open>The adapter's pool\<close>

record adapter =
  ad_key_pool :: "key_pool option"
  ad_api_key :: "string option"
  ad_api_keys :: "string list"
  ad_provider_label :: string

text \<open>The key an endpoint is configured with, stripped; \<open>None\<close> when it is missing or blank.\<close>

definition static_key :: "adapter \<Rightarrow> string option" where
  "static_key a =
     (case ad_api_key a of None \<Rightarrow> None | Some k \<Rightarrow> if py_strip k = [] then None else Some (py_strip k))"

definition pool_of :: "adapter \<Rightarrow> string list \<Rightarrow> adapter" where
  "pool_of a seed =
     (case KeyPool_init seed (ad_provider_label a) [] of
        Inl _ \<Rightarrow> a | Inr p \<Rightarrow> a\<lparr>ad_key_pool := Some p\<rparr>)"

definition adapter_init :: "string option \<Rightarrow> string list \<Rightarrow> string \<Rightarrow> adapter" where
  "adapter_init api_key api_keys label =
     (let a = \<lparr>ad_key_pool = None, ad_api_key = api_key, ad_api_keys = api_keys, ad_provider_label = label\<rparr>
      in if api_keys \<noteq> [] then pool_of a api_keys else a)"

definition ensure_key_pool :: "adapter \<Rightarrow> adapter" where
  "ensure_key_pool a =
     (case ad_key_pool a of
        Some _ \<Rightarrow> a
      | None \<Rightarrow>
          let seed = filter (\<lambda>k. k \<noteq> []) (map py_strip (ad_api_keys a));
              seed1 = (case static_key a of None \<Rightarrow> seed | Some k \<Rightarrow> if k \<in> set seed then seed else seed @ [k])
          in if seed1 = [] then a else pool_of a seed1)"

definition add_runtime_key :: "adapter \<Rightarrow> time \<Rightarrow> string \<Rightarrow> bool \<times> adapter" where
  "add_runtime_key a now key =
     (let normalized = py_strip key
      in if normalized = [] then (False, a)
         else case ad_key_pool a of
             None \<Rightarrow>
               (let seed = (case static_key a of None \<Rightarrow> [] | Some k \<Rightarrow> [k]);
                    seed1 = (if normalized \<in> set seed then seed else seed @ [normalized])
                in (True, pool_of a seed1))
           | Some p \<Rightarrow> (True, a\<lparr>ad_key_pool := Some (snd (add_key p now normalized None))\<rparr>))"

definition has_capacity_for_role :: "adapter \<Rightarrow> time \<Rightarrow> string option \<Rightarrow> bool" where
  "has_capacity_for_role a now role =
     (case ad_key_pool a of None \<Rightarrow> True | Some p \<Rightarrow> can_serve_role p now role)"

definition no_usable_key_error :: "key_pool \<Rightarrow> time \<Rightarrow> string option \<Rightarrow> pool_error" where
  "no_usable_key_error p now role =
     (if role \<noteq> None \<and> can_serve_role p now None then KeyPoolRoleRestricted
      else KeyPoolExhausted NoneUsable)"

section \<open>Attempts\<close>

text \<open>How the wait for an outbound slot ends; \<open>SlotAborted\<close> is any other exception,
  a cancellation above all.\<close>

datatype slot_wait = SlotGranted | SlotSaturated | SlotAborted

text \<open>How the HTTP exchange ends: the response (for a stream, its first chunk), a stream that
  ended before its first chunk, a status error, a timeout or connection error, or any other
  exception.\<close>

datatype io_result = IoOk | IoEmpty | IoStatus int | IoError | IoAborted

record attempt =
  at_now :: time
  at_slot_ops :: "(time \<times> pool_op) list"
  at_slot :: slot_wait
  at_io_ops :: "(time \<times> pool_op) list"
  at_io :: io_result
  at_done :: time

datatype rot_error = EPool pool_error | ESaturated | EStatus int | EIo | EAborted

datatype rot_result =
    Responded
  | Opened "lease option"
  | EndedEmpty
  | Raised rot_error

datatype verdict = Finish rot_result | Again rot_error

text \<open>What a pass leaves in the trace: the slot handed out as it then was, the credential, and
  the status its outbound slot was released with. \<open>None\<close>: no slot was had, or the open stream
  keeps it.\<close>

record pass =
  ps_index :: nat
  ps_slot :: key_state
  ps_key :: string
  ps_at :: attempt
  ps_released :: "int option option"

type_synonym finisher = "key_pool \<Rightarrow> lease \<Rightarrow> nat list \<Rightarrow> attempt \<Rightarrow> verdict \<times> int option option \<times> key_pool"

text \<open>Releasing the lease of a failed exchange: propagate, or go on to the next key.\<close>

definition fail_attempt :: "key_pool \<Rightarrow> time \<Rightarrow> lease \<Rightarrow> nat list \<Rightarrow> int \<Rightarrow> rot_error \<Rightarrow> verdict \<times> key_pool" where
  "fail_attempt p now lease tried status err =
     (case release p now lease (Some status) tried of
        (Inl e, p1) \<Rightarrow> (Finish (Raised (EPool e)), p1)
      | (Inr oc, p1) \<Rightarrow> (if oc = PROPAGATE then Finish (Raised err) else Again err, p1))"

definition post_attempt :: finisher where
  "post_attempt p lease tried a =
     (case at_io a of
        IoOk \<Rightarrow>
          (case release p (at_done a) lease (Some 200) [] of
             (Inl e, p1) \<Rightarrow> (Finish (Raised (EPool e)), Some (Some 200), p1)
           | (Inr _, p1) \<Rightarrow> (Finish Responded, Some (Some 200), p1))
      | IoStatus s \<Rightarrow>
          (case fail_attempt p (at_done a) lease tried s (EStatus s) of (v, p1) \<Rightarrow> (v, Some (Some s), p1))
      | IoError \<Rightarrow>
          (case fail_attempt p (at_done a) lease tried 0 EIo of (v, p1) \<Rightarrow> (v, Some (Some 0), p1))
      | _ \<Rightarrow> (Finish (Raised EAborted), Some None, p))"

definition stream_attempt :: finisher where
  "stream_attempt p lease tried a =
     (case at_io a of
        IoOk \<Rightarrow> (Finish (Opened (Some lease)), None, p)
      | IoEmpty \<Rightarrow>
          (case release p (at_done a) lease (Some 0) [] of
             (Inl e, p1) \<Rightarrow> (Finish (Raised (EPool e)), Some (Some 0), p1)
           | (Inr _, p1) \<Rightarrow> (Finish EndedEmpty, Some (Some 0), p1))
      | IoStatus s \<Rightarrow>
          (case fail_attempt p (at_done a) lease tried s (EStatus s) of (v, p1) \<Rightarrow> (v, Some (Some s), p1))
      | IoError \<Rightarrow> (Finish (Raised EIo), Some None, snd (release p (at_done a) lease None []))
      | IoAborted \<Rightarrow> (Finish (Raised EAborted), Some None, p))"

section \<open>The loops\<close>

text \<open>Whether the loop's \<open>except KeyPoolExhausted\<close> catches the error; the role restriction is
  a subclass.\<close>

definition is_exhausted :: "pool_error \<Rightarrow> bool" where
  "is_exhausted e = (case e of KeyPoolExhausted _ \<Rightarrow> True | KeyPoolRoleRestricted \<Rightarrow> True | _ \<Rightarrow> False)"

text \<open>\<open>n\<close> passes are left, \<open>k\<close> were made; \<open>env k\<close> is the environment of the next one.\<close>

fun rotate_keys ::
  "finisher \<Rightarrow> string option \<Rightarrow> string option \<Rightarrow> (nat \<Rightarrow> attempt) \<Rightarrow> nat \<Rightarrow> nat \<Rightarrow> key_pool \<Rightarrow>
     nat list \<Rightarrow> rot_error option \<Rightarrow> rot_result \<times> key_pool \<times> pass list" where
  "rotate_keys fin aff role env k 0 p tried last_error =
     (Raised (case last_error of Some e \<Rightarrow> e | None \<Rightarrow> EPool (KeyPoolExhausted NoneUsable)), p, [])"
| "rotate_keys fin aff role env k (Suc n) p tried last_error =
     (let a = env k in
      case acquire p (at_now a) aff role tried of
        (Inl e, p1) \<Rightarrow>
          (Raised (case last_error of
               Some le \<Rightarrow> if is_exhausted e then le else EPool e | None \<Rightarrow> EPool e), p1, [])
      | (Inr (api_key, lease), p1) \<Rightarrow>
          (let idx = ls_key_index lease;
               tried1 = idx # tried;
               pass = (\<lambda>r. \<lparr>ps_index = idx, ps_slot = kp_keys p ! idx, ps_key = api_key, ps_at = a, ps_released = r\<rparr>);
               p2 = run pool_step p1 (at_slot_ops a)
           in case at_slot a of
                SlotAborted \<Rightarrow> (Raised EAborted, p2, [pass None])
              | SlotSaturated \<Rightarrow>
                  (case rotate_keys fin aff role env (Suc k) n (snd (release p2 (at_done a) lease None [])) tried1 (Some ESaturated)
                   of (r, q, ps) \<Rightarrow> (r, q, pass None # ps))
              | SlotGranted \<Rightarrow>
                  (case fin (run pool_step p2 (at_io_ops a)) lease tried1 a of
                     (Finish r, st, p3) \<Rightarrow> (r, p3, [pass st])
                   | (Again e, st, p3) \<Rightarrow>
                       (case rotate_keys fin aff role env (Suc k) n p3 tried1 (Some e) of
                          (r, q, ps) \<Rightarrow> (r, q, pass st # ps)))))"

definition pooled ::
  "finisher \<Rightarrow> string option \<Rightarrow> string option \<Rightarrow> time \<Rightarrow> (nat \<Rightarrow> attempt) \<Rightarrow> key_pool \<Rightarrow> rot_result \<times> key_pool \<times> pass list"
  where
  "pooled fin aff role now env p =
     (let max_attempts = size_for p role
      in if max_attempts = 0 then (Raised (EPool (no_usable_key_error p now role)), p, [])
         else rotate_keys fin aff role env 0 max_attempts p [] None)"

text \<open>The branches for an adapter without a pool: one exchange, and the status its slot is
  released with.\<close>

definition post_single :: "attempt \<Rightarrow> rot_result \<times> int option option" where
  "post_single a =
     (case at_slot a of
        SlotSaturated \<Rightarrow> (Raised ESaturated, None)
      | SlotAborted \<Rightarrow> (Raised EAborted, None)
      | SlotGranted \<Rightarrow>
          (case at_io a of
             IoOk \<Rightarrow> (Responded, Some (Some 200))
           | IoStatus s \<Rightarrow> (Raised (EStatus s), Some (Some s))
           | IoError \<Rightarrow> (Raised EIo, Some (Some 0))
           | _ \<Rightarrow> (Raised EAborted, Some None)))"

definition stream_single :: "attempt \<Rightarrow> rot_result \<times> int option option" where
  "stream_single a =
     (case at_slot a of
        SlotSaturated \<Rightarrow> (Raised ESaturated, None)
      | SlotAborted \<Rightarrow> (Raised EAborted, None)
      | SlotGranted \<Rightarrow>
          (case at_io a of
             IoOk \<Rightarrow> (Opened None, None)
           | IoEmpty \<Rightarrow> (EndedEmpty, Some (Some 0))
           | IoStatus s \<Rightarrow> (Raised (EStatus s), Some (Some s))
           | IoError \<Rightarrow> (Raised EIo, Some None)
           | IoAborted \<Rightarrow> (Raised EAborted, Some None)))"

definition post_with_pool ::
  "adapter \<Rightarrow> request_ctx \<Rightarrow> time \<Rightarrow> (nat \<Rightarrow> attempt) \<Rightarrow> rot_result \<times> adapter \<times> pass list" where
  "post_with_pool ad cx now env =
     (case ad_key_pool ad of
        None \<Rightarrow> (fst (post_single (env 0)), ad, [])
      | Some p \<Rightarrow>
          (case pooled post_attempt (pool_affinity_key cx) (caller_role cx) now env p of
             (r, p1, ps) \<Rightarrow> (r, ad\<lparr>ad_key_pool := Some p1\<rparr>, ps)))"

definition open_stream_with_pool ::
  "adapter \<Rightarrow> request_ctx \<Rightarrow> time \<Rightarrow> (nat \<Rightarrow> attempt) \<Rightarrow> rot_result \<times> adapter \<times> pass list" where
  "open_stream_with_pool ad cx now env =
     (case ad_key_pool ad of
        None \<Rightarrow> (fst (stream_single (env 0)), ad, [])
      | Some p \<Rightarrow>
          (case pooled stream_attempt (pool_affinity_key cx) (caller_role cx) now env p of
             (r, p1, ps) \<Rightarrow> (r, ad\<lparr>ad_key_pool := Some p1\<rparr>, ps)))"

text \<open>How an opened stream ends, and the status that slot and lease are then released with.\<close>

datatype stream_end = StreamDone | StreamAbandoned | StreamFailed "int option"

definition stream_release_status :: "stream_end \<Rightarrow> int option" where
  "stream_release_status e =
     (case e of
        StreamAbandoned \<Rightarrow> None
      | StreamFailed s \<Rightarrow> Some (case s of None \<Rightarrow> 0 | Some c \<Rightarrow> c)
      | StreamDone \<Rightarrow> Some 200)"

definition close_stream :: "key_pool \<Rightarrow> time \<Rightarrow> lease \<Rightarrow> stream_end \<Rightarrow> key_pool" where
  "close_stream p now lease e = snd (release p now lease (stream_release_status e) [])"

section \<open>What the pool gives the loops\<close>

lemma acquire_pick_length [simp]:
  "length (kp_keys (snd (acquire_pick p now a r ex))) = length (kp_keys p)"
  by (simp add: acquire_pick_def split: option.split)

lemma acquire_same_length [simp]: "length (kp_keys (snd (acquire p now a r ex))) = length (kp_keys p)"
  by (simp add: acquire_def Let_def split: option.split)

lemma pool_step_length: "length (kp_keys p) \<le> length (kp_keys (pool_step p e))"
proof (cases "(p, e)" rule: pool_step.cases)
  case (1 p now k r)
  then show ?thesis by (auto simp: add_key_def Let_def split: option.splits)
next
  case (2 p now k r)
  then show ?thesis by (auto simp: set_key_min_role_def Let_def)
next
  case (3 p now k)
  then show ?thesis by (auto simp: remove_key_def split: option.splits)
next
  case (4 p now a r ex)
  then show ?thesis by simp
next
  case (5 p now l c tr)
  then show ?thesis by (cases rule: release_effect [of p now l c tr]) auto
qed

lemma run_pool_length: "length (kp_keys p) \<le> length (kp_keys (run pool_step p es))"
  by (induction es arbitrary: p) (auto intro: order_trans [OF pool_step_length])

lemma run_pool_wf: "pool_wf p \<Longrightarrow> pool_wf (run pool_step p es)"
  by (rule pool.run_keeps) (simp_all add: list_all_iff)

text \<open>A lease taken from a well-formed pool stays good while others use the pool.\<close>

lemma lease_stays_valid:
  assumes "pool_wf p" "acquire p now a role ex = (Inr (k, l), p1)"
  shows "pool_wf (run pool_step p1 es)" "ls_key_index l < length (kp_keys (run pool_step p1 es))"
    "usable p now role ex (ls_key_index l)" "k = ks_key (kp_keys p ! ls_key_index l)"
proof -
  have ok: "fst (acquire p now a role ex) = Inr (k, l)" and p1: "p1 = snd (acquire p now a role ex)"
    using assms(2) by simp_all
  note key = acquire_key_of [OF assms(1) ok]
  show "usable p now role ex (ls_key_index l)" "k = ks_key (kp_keys p ! ls_key_index l)" using key by auto
  have "pool_wf p1" unfolding p1 using assms(1) by (rule acquire_wf)
  then show "pool_wf (run pool_step p1 es)" by (rule run_pool_wf)
  have "ls_key_index l < length (kp_keys p1)"
    using key(1) acquire_same_length [of p now a role ex] unfolding p1 by (simp add: usable_def)
  then show "ls_key_index l < length (kp_keys (run pool_step p1 es))"
    using run_pool_length [of p1 es] by simp
qed

lemma release_no_error: "ls_key_index l < length (kp_keys p) \<Longrightarrow> fst (release p now l c tr) \<noteq> Inl e"
  by (auto simp: release_def split: option.splits)

lemma release_None [simp]: "release p now l None tr = (Inr PROPAGATE, p)"
  by (simp add: release_def)

section \<open>The slots a role is entitled to\<close>

definition entitled :: "key_pool \<Rightarrow> string option \<Rightarrow> nat set" where
  "entitled p role = {i. i < length (kp_keys p) \<and> \<not> ks_removed (kp_keys p ! i) \<and> role_may_use role (kp_keys p ! i)}"

lemma size_for_card: "size_for p role = card (entitled p role)"
  by (simp add: size_for_def entitled_def length_filter_conv_card)

lemma entitled_finite [simp]: "finite (entitled p role)"
  by (simp add: entitled_def)

lemma usable_entitled: "usable p now role ex i \<Longrightarrow> i \<in> entitled p role"
  by (simp add: usable_def selectable_def entitled_def)

lemma role_may_use_same: "ks_min_role s = ks_min_role t \<Longrightarrow> role_may_use r s = role_may_use r t"
  by (simp add: role_may_use_def split: option.split)

lemma entitled_put_key:
  "ks_min_role s = ks_min_role (kp_keys p ! i) \<Longrightarrow> ks_removed s = ks_removed (kp_keys p ! i) \<Longrightarrow>
   entitled (put_key p i s) role = entitled p role"
proof (rule set_eqI)
  fix x
  assume "ks_min_role s = ks_min_role (kp_keys p ! i)" "ks_removed s = ks_removed (kp_keys p ! i)"
  then show "x \<in> entitled (put_key p i s) role \<longleftrightarrow> x \<in> entitled p role"
    using role_may_use_same [of s "kp_keys p ! i" role] by (cases "x = i") (auto simp: entitled_def put_key_def)
qed

lemma entitled_release [simp]: "entitled (snd (release p now l c tr)) role = entitled p role"
  by (cases rule: release_effect [of p now l c tr]) (auto simp: entitled_put_key)

lemma entitled_acquire:
  assumes "pool_wf p" "acquire p now a r ex = (Inr (k, l), p1)"
  shows "entitled p1 role = entitled p role"
proof -
  have "kp_keys p1 = kp_keys (put_key p (ls_key_index l)
      ((kp_keys p ! ls_key_index l)\<lparr>ks_request_count := Suc (ks_request_count (kp_keys p ! ls_key_index l))\<rparr>))"
    using acquire_keys [OF assms(1), of now a r ex k l] assms(2) by (simp add: hand_out_put)
  then have "entitled p1 role = entitled (put_key p (ls_key_index l)
      ((kp_keys p ! ls_key_index l)\<lparr>ks_request_count := Suc (ks_request_count (kp_keys p ! ls_key_index l))\<rparr>)) role"
    by (simp add: entitled_def)
  then show ?thesis by (simp add: entitled_put_key)
qed

text \<open>A failed release that propagates although its status is worth a rotation found no other
  key for the request.\<close>

lemma propagate_means_none_left:
  assumes "ls_key_index l < length (kp_keys p)" "release p now l (Some c) tr = (Inr PROPAGATE, q)"
    "should_mute_status c" "ls_key_index l \<in> set tr"
  shows "\<not> usable q now (ls_role l) tr i"
proof -
  have q: "snd (release_failure p now l c tr) = q" "fst (release_failure p now l c tr) = PROPAGATE"
    using assms(1-3) by (auto simp: release_def map_prod_def split: prod.splits)
  then have "\<not> has_untried_usable_key p (ls_key_index l) now (ls_role l) tr" "q = put_key p (ls_key_index l) (failed_slot p (ls_key_index l))"
    using assms(4) by (auto simp: release_failure_cases split: if_splits)
  then show ?thesis
    using assms(4) by (cases "i = ls_key_index l")
      (auto simp: has_untried_usable_iff usable_put_key_other, auto simp: usable_def selectable_def)
qed

section \<open>The contract of a pass\<close>

definition forget_lease :: "rot_result \<Rightarrow> rot_result" where
  "forget_lease r = (case r of Opened _ \<Rightarrow> Opened None | _ \<Rightarrow> r)"

text \<open>The errors a pass may go on to the next key after.\<close>

definition rotatable :: "rot_error \<Rightarrow> bool" where
  "rotatable e = (case e of ESaturated \<Rightarrow> True | EStatus s \<Rightarrow> should_mute_status s | EIo \<Rightarrow> True | _ \<Rightarrow> False)"

text \<open>What the rotation needs of a finisher: it keeps the pool well formed; it ends the request
  with what a lone exchange would have ended with (\<open>single\<close>); it asks for another key only
  after an error of \<open>retries\<close>, and gives up on such an error only when the request has no
  other key left.\<close>

locale rotating_client =
  fixes fin :: finisher
    and single :: "attempt \<Rightarrow> rot_result"
    and retries :: "rot_error \<Rightarrow> bool"
  assumes fin_wf: "pool_wf p \<Longrightarrow> fin p l tr a = (v, st, q) \<Longrightarrow> pool_wf q"
    and fin_finish: "ls_key_index l < length (kp_keys p) \<Longrightarrow> at_slot a = SlotGranted \<Longrightarrow>
      fin p l tr a = (Finish r, st, q) \<Longrightarrow> forget_lease r = single a"
    and fin_again: "at_slot a = SlotGranted \<Longrightarrow> fin p l tr a = (Again e, st, q) \<Longrightarrow> single a = Raised e \<and> retries e"
    and single_slot: "at_slot a = SlotSaturated \<Longrightarrow> single a = Raised ESaturated"
      "at_slot a = SlotAborted \<Longrightarrow> single a = Raised EAborted"
    and retries_saturated: "retries ESaturated" "\<not> retries (EPool pe)" "\<not> retries EAborted"
    and fin_entitled: "fin p l tr a = (v, st, q) \<Longrightarrow> entitled q role = entitled p role"
    and fin_gave_up: "ls_key_index l < length (kp_keys p) \<Longrightarrow> ls_key_index l \<in> set tr \<Longrightarrow> retries e \<Longrightarrow>
      fin p l tr a = (Finish (Raised e), st, q) \<Longrightarrow> \<not> usable q (at_done a) (ls_role l) tr i"
begin

definition trace_ok :: "string option \<Rightarrow> nat list \<Rightarrow> pass list \<Rightarrow> bool" where
  "trace_ok role tried ps \<longleftrightarrow>
     distinct (map ps_index ps) \<and> set (map ps_index ps) \<inter> set tried = {} \<and>
     (\<forall>x \<in> set ps. \<not> ks_removed (ps_slot x) \<and> ks_cooldown_until (ps_slot x) \<le> at_now (ps_at x) \<and>
        role_may_use role (ps_slot x) \<and> ps_key x = ks_key (ps_slot x)) \<and>
     (\<forall>x \<in> set (butlast ps). \<exists>e. single (ps_at x) = Raised e \<and> retries e)"

lemma trace_ok_Cons:
  assumes "trace_ok role (ps_index x # tried) ps" "ps_index x \<notin> set tried"
    "\<not> ks_removed (ps_slot x)" "ks_cooldown_until (ps_slot x) \<le> at_now (ps_at x)"
    "role_may_use role (ps_slot x)" "ps_key x = ks_key (ps_slot x)"
    "single (ps_at x) = Raised e" "retries e"
  shows "trace_ok role tried (x # ps)"
  using assms by (auto simp: trace_ok_def)

lemma rotate_sound:
  assumes "pool_wf p" "rotate_keys fin aff role env k n p tried le = (r, q, ps)"
  shows "pool_wf q \<and> length ps \<le> n \<and> trace_ok role tried ps \<and>
    (\<forall>i < length ps. ps_at (ps ! i) = env (k + i)) \<and>
    (if ps = [] then (\<exists>e. r = Raised e \<and> (case le of Some e' \<Rightarrow> e = e' | None \<Rightarrow> \<exists>pe. e = EPool pe))
     else forget_lease r = single (ps_at (last ps)))"
  using assms
proof (induction n arbitrary: k p tried le r q ps)
  case 0
  then show ?case by (auto simp: trace_ok_def split: option.splits)
next
  case (Suc n)
  let ?a = "env k"
  obtain ar p1 where acq: "acquire p (at_now ?a) aff role tried = (ar, p1)" by fastforce
  show ?case
  proof (cases ar)
    case (Inl e)
    have "pool_wf p1" using acquire_wf [OF Suc.prems(1), of "at_now ?a" aff role tried] acq by simp
    moreover have "is_exhausted e"
      using acquire_spec [OF Suc.prems(1), where now = "at_now ?a" and a = aff and role = role and exclude = tried] acq Inl
      by (auto simp: is_exhausted_def)
    ultimately show ?thesis using Suc.prems(2) acq Inl by (auto simp: trace_ok_def split: option.splits)
  next
    case (Inr kl)
    then obtain key l where kl: "ar = Inr (key, l)" by (cases kl) auto
    note val = lease_stays_valid [OF Suc.prems(1) acq [unfolded kl]]
    let ?x = "\<lambda>st. \<lparr>ps_index = ls_key_index l, ps_slot = kp_keys p ! ls_key_index l, ps_key = key,
        ps_at = ?a, ps_released = st\<rparr>"
    let ?p2 = "run pool_step p1 (at_slot_ops ?a)" and ?p3 = "run pool_step p1 (at_slot_ops ?a @ at_io_ops ?a)"
    have x: "ls_key_index l \<notin> set tried" "\<not> ks_removed (kp_keys p ! ls_key_index l)"
      "ks_cooldown_until (kp_keys p ! ls_key_index l) \<le> at_now ?a" "role_may_use role (kp_keys p ! ls_key_index l)"
      "key = ks_key (kp_keys p ! ls_key_index l)"
      using val(3,4) by (auto simp: usable_def selectable_def)
    have stop: ?thesis if "ps = [?x st]" "pool_wf q" "forget_lease r = single ?a" for st
      using that x by (auto simp: trace_ok_def)
    have go: ?thesis if "ps = ?x st # ps'" "pool_wf p'" "single ?a = Raised e" "retries e"
      "rotate_keys fin aff role env (Suc k) n p' (ls_key_index l # tried) (Some e) = (r, q, ps')" for st ps' p' e
    proof -
      note IH = Suc.IH [OF that(2,5)]
      have "trace_ok role tried ps" unfolding that(1)
        by (rule trace_ok_Cons [where e = e]) (use IH x that(3,4) in simp_all)
      moreover have "\<forall>i < length ps. ps_at (ps ! i) = env (k + i)"
        using IH that(1) by (auto simp: nth_Cons split: nat.splits)
      ultimately show ?thesis using IH that(1,3) by (auto simp: forget_lease_def split: if_splits)
    qed
    show ?thesis
    proof (cases "at_slot ?a")
      case SlotAborted
      with Suc.prems(2) acq kl have "ps = [?x None]" "q = ?p2" "r = Raised EAborted" by (auto simp: Let_def)
      with val(1) single_slot(2) [OF SlotAborted] show ?thesis by (intro stop) (auto simp: forget_lease_def)
    next
      case SlotSaturated
      with Suc.prems(2) acq kl obtain ps' where "ps = ?x None # ps'"
        "rotate_keys fin aff role env (Suc k) n ?p2 (ls_key_index l # tried) (Some ESaturated) = (r, q, ps')"
        by (auto simp: Let_def split: prod.splits)
      with val(1) single_slot(1) [OF SlotSaturated] retries_saturated(1) show ?thesis by (intro go) auto
    next
      case SlotGranted
      obtain v st p3 where f: "fin ?p3 l (ls_key_index l # tried) ?a = (v, st, p3)" by (metis prod_cases3)
      note wf3 = fin_wf [OF val(1) f]
      show ?thesis
      proof (cases v)
        case (Finish r')
        with Suc.prems(2) acq kl SlotGranted f have "ps = [?x st]" "q = p3" "r = r'" by (auto simp: Let_def)
        moreover have "forget_lease r' = single ?a" by (rule fin_finish [OF val(2) SlotGranted f [unfolded Finish]])
        ultimately show ?thesis using wf3 by (intro stop) auto
      next
        case (Again e)
        with Suc.prems(2) acq kl SlotGranted f obtain ps' where "ps = ?x st # ps'"
          "rotate_keys fin aff role env (Suc k) n p3 (ls_key_index l # tried) (Some e) = (r, q, ps')"
          by (auto simp: Let_def split: prod.splits)
        with wf3 fin_again [OF SlotGranted] f Again show ?thesis by (intro go) auto
      qed
    qed
  qed
qed

text \<open>With nobody else at the pool, a request does not fail on an error it may retry while a
  key it may use is left untried.\<close>

lemma rotate_complete:
  assumes "pool_wf p" "rotate_keys fin aff role env k n p tried le = (Raised e, q, ps)" "retries e"
    and quiet: "\<forall>k. at_slot_ops (env k) = [] \<and> at_io_ops (env k) = []"
    and clock: "\<forall>k. at_done (env k) \<le> at_now (env (Suc k))"
    and "distinct tried" "set tried \<subseteq> entitled p role" "n + length tried = card (entitled p role)"
    and "k = 0 \<longrightarrow> le = None"
  shows "\<not> usable q (at_done (env (k + length ps - 1))) role (map ps_index ps @ tried) i"
  using assms
proof (induction n arbitrary: k p tried le ps)
  case 0
  then have "set tried = entitled p role"
    by (intro card_subset_eq) (simp_all add: distinct_card)
  moreover have "q = p" "ps = []" using 0 by auto
  ultimately show ?case using usable_entitled [of p "at_done (env (k - 1))" role tried i]
    by (auto simp: usable_def selectable_def)
next
  case (Suc n)
  let ?a = "env k"
  obtain ar p1 where acq: "acquire p (at_now ?a) aff role tried = (ar, p1)" by fastforce
  note spec = acquire_spec [OF Suc.prems(1), where now = "at_now ?a" and a = aff and role = role and exclude = tried]
  show ?case
  proof (cases ar)
    case (Inl er)
    with Suc.prems(2) acq have r: "ps = []" "q = p1" by auto
    have "k \<noteq> 0" using Suc.prems(2,3,9) acq Inl retries_saturated(2) by (auto split: option.splits if_splits)
    then obtain j where j: "k = Suc j" by (cases k) auto
    have none: "\<not> usable p (at_now ?a) role tried i" using spec acq Inl by simp
    have "kp_keys q = kp_keys p"
      using acq Inl r by (auto simp: acquire_def acquire_pick_def hand_out_def Let_def split: option.splits if_splits)
    then have "usable q = usable p" by (rule usable_cong)
    moreover have "at_done (env j) \<le> at_now ?a" using clock j by simp
    ultimately show ?thesis
      using none r j by (auto simp: usable_def selectable_def)
  next
    case (Inr kl)
    then obtain key l where kl: "ar = Inr (key, l)" by (cases kl) auto
    note acq' = acq [unfolded kl]
    note lv = lease_stays_valid [OF Suc.prems(1) acq']
    have val: "pool_wf p1" "ls_key_index l < length (kp_keys p1)" "usable p (at_now ?a) role tried (ls_key_index l)"
      using lv(1) [of "[]"] lv(2) [of "[]"] lv(3) by simp_all
    have role: "ls_role l = role" using spec acq kl by simp
    have idx: "ls_key_index l \<in> entitled p role" "ls_key_index l \<notin> set tried"
      using val(3) usable_entitled by (auto simp: usable_def selectable_def)
    note ent = entitled_acquire [OF Suc.prems(1) acq', of role]
    have go: ?thesis if "ps = x # ps'" "ps_index x = ls_key_index l" "pool_wf p'" "entitled p' role = entitled p role"
      "rotate_keys fin aff role env (Suc k) n p' (ls_key_index l # tried) (Some er) = (Raised e, q, ps')" for x ps' p' er
    proof -
      have "\<not> usable q (at_done (env (Suc k + length ps' - 1))) role (map ps_index ps' @ ls_key_index l # tried) i"
        by (rule Suc.IH [OF that(3,5) Suc.prems(3-5)]) (use idx Suc.prems(6-8) that(4) in auto)
      then show ?thesis using that(1,2) by (auto simp: usable_def selectable_def)
    qed
    have q0: "at_slot_ops ?a = []" "at_io_ops ?a = []" using quiet by auto
    show ?thesis
    proof (cases "at_slot ?a")
      case SlotAborted
      with Suc.prems(2,3) acq' retries_saturated(3) show ?thesis by (auto simp: Let_def)
    next
      case SlotSaturated
      with Suc.prems(2) acq' q0 obtain x ps' where "ps = x # ps'" "ps_index x = ls_key_index l"
        "rotate_keys fin aff role env (Suc k) n p1 (ls_key_index l # tried) (Some ESaturated) = (Raised e, q, ps')"
        by (auto simp: Let_def split: prod.splits)
      then show ?thesis by (rule go [OF _ _ val(1) ent])
    next
      case SlotGranted
      obtain v st p3 where f: "fin p1 l (ls_key_index l # tried) ?a = (v, st, p3)" by (metis prod_cases3)
      show ?thesis
      proof (cases v)
        case (Finish r')
        with Suc.prems(2) acq' SlotGranted f q0 have r: "q = p3" "r' = Raised e" "map ps_index ps = [ls_key_index l]" "length ps = 1"
          by (auto simp: Let_def)
        from fin_gave_up [OF val(2) _ Suc.prems(3) f [unfolded Finish r(2)], of i] role r show ?thesis by simp
      next
        case (Again er)
        with Suc.prems(2) acq' SlotGranted f q0 obtain x ps' where "ps = x # ps'" "ps_index x = ls_key_index l"
          "rotate_keys fin aff role env (Suc k) n p3 (ls_key_index l # tried) (Some er) = (Raised e, q, ps')"
          by (auto simp: Let_def split: prod.splits)
        then show ?thesis by (rule go [OF _ _ fin_wf [OF val(1) f] fin_entitled [OF f, of role, unfolded ent]])
      qed
    qed
  qed
qed

end

section \<open>Both loops keep the contract\<close>

text \<open>A failed exchange, in terms of the lease's release.\<close>

lemma fail_attempt_cases:
  assumes "fail_attempt p now l tr s err = (v, q)"
  obtains "q = snd (release p now l (Some s) tr)"
    and "v = Again err \<Longrightarrow> should_mute_status s"
    and "\<And>e. v = Again e \<Longrightarrow> e = err"
    and "\<And>r. v = Finish r \<Longrightarrow> ls_key_index l < length (kp_keys p) \<Longrightarrow>
         r = Raised err \<and> release p now l (Some s) tr = (Inr PROPAGATE, q)"
proof
  show "q = snd (release p now l (Some s) tr)"
    using assms by (auto simp: fail_attempt_def split: prod.splits sum.splits)
  show "should_mute_status s" if "v = Again err"
    using assms that by (auto simp: fail_attempt_def release_def split: prod.splits sum.splits if_splits)
  show "e = err" if "v = Again e" for e
    using assms that by (auto simp: fail_attempt_def split: prod.splits sum.splits if_splits)
  show "r = Raised err \<and> release p now l (Some s) tr = (Inr PROPAGATE, q)"
    if "v = Finish r" "ls_key_index l < length (kp_keys p)" for r
    using assms that release_no_error [OF that(2), of now "Some s" tr]
    by (auto simp: fail_attempt_def split: prod.splits sum.splits if_splits)
qed

definition post_retries :: "rot_error \<Rightarrow> bool" where
  "post_retries e = rotatable e"

definition stream_retries :: "rot_error \<Rightarrow> bool" where
  "stream_retries e = (rotatable e \<and> e \<noteq> EIo)"

lemma should_mute_zero [simp]: "should_mute_status 0"
  by (simp add: should_mute_status_def)

lemma post_attempt_cases:
  assumes "post_attempt p l tr a = (v, st, q)"
  obtains (ok) "at_io a = IoOk" "q = snd (release p (at_done a) l (Some 200) [])"
      "ls_key_index l < length (kp_keys p) \<Longrightarrow> v = Finish Responded" "\<And>e. v \<noteq> Again e"
    | (fail) s err where "at_io a = IoStatus s \<and> err = EStatus s \<or> at_io a = IoError \<and> s = 0 \<and> err = EIo"
      "fail_attempt p (at_done a) l tr s err = (v, q)"
    | (abort) "at_io a = IoAborted \<or> at_io a = IoEmpty" "v = Finish (Raised EAborted)" "q = p"
proof (cases "at_io a")
  case IoOk
  with assms release_no_error [of l p "at_done a" "Some 200" "[]"] show thesis
    by (intro ok) (auto simp: post_attempt_def split: prod.splits sum.splits)
qed (use assms fail abort in \<open>auto simp: post_attempt_def split: prod.splits\<close>)

lemma stream_attempt_cases:
  assumes "stream_attempt p l tr a = (v, st, q)"
  obtains (ok) "at_io a = IoOk" "q = p" "v = Finish (Opened (Some l))"
    | (empty) "at_io a = IoEmpty" "q = snd (release p (at_done a) l (Some 0) [])"
      "ls_key_index l < length (kp_keys p) \<Longrightarrow> v = Finish EndedEmpty" "\<And>e. v \<noteq> Again e"
    | (fail) s where "at_io a = IoStatus s" "fail_attempt p (at_done a) l tr s (EStatus s) = (v, q)"
    | (abort) e where "at_io a = IoAborted \<and> e = EAborted \<or> at_io a = IoError \<and> e = EIo" "v = Finish (Raised e)" "q = p"
proof (cases "at_io a")
  case IoEmpty
  with assms release_no_error [of l p "at_done a" "Some 0" "[]"] show thesis
    by (intro empty) (auto simp: stream_attempt_def split: prod.splits sum.splits)
qed (use assms ok fail abort in \<open>auto simp: stream_attempt_def split: prod.splits\<close>)

interpretation post: rotating_client post_attempt "\<lambda>a. fst (post_single a)" post_retries
proof unfold_locales
  fix p l tr a v st q r e role i pe
  show "post_attempt p l tr a = (v, st, q) \<Longrightarrow> pool_wf p \<Longrightarrow> pool_wf q"
    by (erule post_attempt_cases) (auto elim!: fail_attempt_cases intro: release_wf)
  show "post_attempt p l tr a = (v, st, q) \<Longrightarrow> entitled q role = entitled p role"
    by (erule post_attempt_cases) (auto elim!: fail_attempt_cases)
  show "forget_lease r = fst (post_single a)"
    if "ls_key_index l < length (kp_keys p)" "at_slot a = SlotGranted" "post_attempt p l tr a = (Finish r, st, q)"
    using that(3,1,2) by (cases rule: post_attempt_cases)
      (auto simp: post_single_def forget_lease_def elim!: fail_attempt_cases)
  show "fst (post_single a) = Raised e \<and> post_retries e"
    if "at_slot a = SlotGranted" "post_attempt p l tr a = (Again e, st, q)"
    using that(2,1) by (cases rule: post_attempt_cases)
      (auto simp: post_single_def post_retries_def rotatable_def elim!: fail_attempt_cases)
  show "\<not> usable q (at_done a) (ls_role l) tr i"
    if "ls_key_index l < length (kp_keys p)" "ls_key_index l \<in> set tr" "post_retries e"
      "post_attempt p l tr a = (Finish (Raised e), st, q)"
    using that(4,1-3) by (cases rule: post_attempt_cases)
      (auto simp: post_retries_def rotatable_def elim!: fail_attempt_cases
        dest: propagate_means_none_left propagate_means_none_left [OF _ _ should_mute_zero])
qed (auto simp: post_single_def post_retries_def rotatable_def)

interpretation stream: rotating_client stream_attempt "\<lambda>a. fst (stream_single a)" stream_retries
proof unfold_locales
  fix p l tr a v st q r e role i pe
  show "stream_attempt p l tr a = (v, st, q) \<Longrightarrow> pool_wf p \<Longrightarrow> pool_wf q"
    by (erule stream_attempt_cases) (auto elim!: fail_attempt_cases intro: release_wf)
  show "stream_attempt p l tr a = (v, st, q) \<Longrightarrow> entitled q role = entitled p role"
    by (erule stream_attempt_cases) (auto elim!: fail_attempt_cases)
  show "forget_lease r = fst (stream_single a)"
    if "ls_key_index l < length (kp_keys p)" "at_slot a = SlotGranted" "stream_attempt p l tr a = (Finish r, st, q)"
    using that(3,1,2) by (cases rule: stream_attempt_cases)
      (auto simp: stream_single_def forget_lease_def elim!: fail_attempt_cases)
  show "fst (stream_single a) = Raised e \<and> stream_retries e"
    if "at_slot a = SlotGranted" "stream_attempt p l tr a = (Again e, st, q)"
    using that(2,1) by (cases rule: stream_attempt_cases)
      (auto simp: stream_single_def stream_retries_def rotatable_def elim!: fail_attempt_cases)
  show "\<not> usable q (at_done a) (ls_role l) tr i"
    if "ls_key_index l < length (kp_keys p)" "ls_key_index l \<in> set tr" "stream_retries e"
      "stream_attempt p l tr a = (Finish (Raised e), st, q)"
    using that(4,1-3) by (cases rule: stream_attempt_cases)
      (auto simp: stream_retries_def rotatable_def elim!: fail_attempt_cases dest: propagate_means_none_left)
qed (auto simp: stream_single_def stream_retries_def rotatable_def)

section \<open>Properties\<close>

lemma forget_lease_id: "forget_lease r \<noteq> Opened None \<Longrightarrow> forget_lease r = r"
  by (cases r) (auto simp: forget_lease_def)

text \<open>C2. A non-streaming request over a shared pool, whatever other requests do to the pool at its
  \<open>await\<close>s. It makes at most as many exchanges as there are keys its role may use, each with a
  different key, and each with the credential of a slot that was in service, unmuted and open to
  the role when it was handed out. It goes on to another key only after saturation, a timeout or
  connection error, or a status worth rotating for; and it ends with exactly the outcome of its
  last exchange, or with a pool error when it made none.\<close>

theorem post_rotation_sound:
  assumes "KeyPool_init keys label roles = Inr p0" and "p = run pool_step p0 es"
    and "pooled post_attempt aff role now env p = (r, q, ps)"
  shows "length ps \<le> size_for p role \<and> distinct (map ps_index ps) \<and>
    (\<forall>x \<in> set ps. ps_key x = ks_key (ps_slot x) \<and> \<not> ks_removed (ps_slot x) \<and>
       ks_cooldown_until (ps_slot x) \<le> at_now (ps_at x) \<and> role_may_use role (ps_slot x)) \<and>
    (\<forall>x \<in> set (butlast ps). \<exists>e. fst (post_single (ps_at x)) = Raised e \<and> rotatable e) \<and>
    (if ps = [] then \<exists>pe. r = Raised (EPool pe) else r = fst (post_single (ps_at (last ps))))"
proof (cases "size_for p role = 0")
  case True
  with assms(3) show ?thesis by (auto simp: pooled_def)
next
  case False
  have wf: "pool_wf p" unfolding assms(2) using assms(1) by (rule pool_run_wf)
  have "rotate_keys post_attempt aff role env 0 (size_for p role) p [] None = (r, q, ps)"
    using assms(3) False by (simp add: pooled_def)
  note snd = post.rotate_sound [OF wf this]
  have "fst (post_single a) \<noteq> Opened None" for a
    by (auto simp: post_single_def split: slot_wait.splits io_result.splits)
  with snd show ?thesis
    using forget_lease_id [of r] by (auto simp: post.trace_ok_def post_retries_def split: if_splits)
qed

text \<open>An attempt of which the environment is quiet, for instances.\<close>

definition quiet_attempt :: "time \<Rightarrow> io_result \<Rightarrow> attempt" where
  "quiet_attempt now io = \<lparr>at_now = now, at_slot_ops = [], at_slot = SlotGranted, at_io_ops = [], at_io = io, at_done = now\<rparr>"

theorem post_rotation_sound_witness:
  "\<exists>q ps. pooled post_attempt None (Some ''pro'') 1
      (\<lambda>k. quiet_attempt (5 + real k) (if k = 0 then IoStatus 429 else IoOk)) demo_pool = (Responded, q, ps) \<and>
     map ps_key ps = [''kb'', ''ka''] \<and> distinct (map ps_index ps)"
proof -
  let ?r = "pooled post_attempt None (Some ''pro'') 1
      (\<lambda>k. quiet_attempt (5 + real k) (if k = 0 then IoStatus 429 else IoOk)) demo_pool"
  have run: "fst ?r = Responded \<and> map ps_key (snd (snd ?r)) = [''kb'', ''ka'']"
    by code_simp
  obtain r q ps where r: "?r = (r, q, ps)" by (cases ?r rule: prod_cases3)
  have d: "demo_pool = run pool_step demo_pool []" by simp
  have "r = Responded" "map ps_key ps = [''kb'', ''ka'']" using run unfolding r by simp_all
  note outcome = r [unfolded this(1)] this(2)
  have "distinct (map ps_index ps)" using post_rotation_sound [OF demo_pool_init d r] by (elim conjE)
  with outcome show ?thesis by (intro exI conjI)
qed

text \<open>A streaming request over a shared pool gives the same guarantees, and never asks an
  upstream to generate twice: only saturation and a status error, both before any byte of the
  body, send it to another key. An empty stream, a connection error or a cancellation ends the
  request.\<close>

lemma stream_rotation_sound:
  assumes "KeyPool_init keys label roles = Inr p0" and "p = run pool_step p0 es"
    and "pooled stream_attempt aff role now env p = (r, q, ps)"
  shows "length ps \<le> size_for p role \<and> distinct (map ps_index ps) \<and>
    (\<forall>x \<in> set ps. ps_key x = ks_key (ps_slot x) \<and> \<not> ks_removed (ps_slot x) \<and>
       ks_cooldown_until (ps_slot x) \<le> at_now (ps_at x) \<and> role_may_use role (ps_slot x)) \<and>
    (\<forall>x \<in> set (butlast ps). at_slot (ps_at x) = SlotSaturated \<or>
       at_slot (ps_at x) = SlotGranted \<and> (\<exists>s. at_io (ps_at x) = IoStatus s \<and> should_mute_status s)) \<and>
    (if ps = [] then \<exists>pe. r = Raised (EPool pe) else forget_lease r = fst (stream_single (ps_at (last ps))))"
proof (cases "size_for p role = 0")
  case True
  with assms(3) show ?thesis by (auto simp: pooled_def)
next
  case False
  have wf: "pool_wf p" unfolding assms(2) using assms(1) by (rule pool_run_wf)
  have "rotate_keys stream_attempt aff role env 0 (size_for p role) p [] None = (r, q, ps)"
    using assms(3) False by (simp add: pooled_def)
  note snd = stream.rotate_sound [OF wf this]
  have "at_slot a = SlotSaturated \<or> at_slot a = SlotGranted \<and> (\<exists>s. at_io a = IoStatus s \<and> should_mute_status s)"
    if "fst (stream_single a) = Raised e" "stream_retries e" for a e
    using that by (auto simp: stream_single_def stream_retries_def rotatable_def split: slot_wait.splits io_result.splits)
  then have "\<forall>x \<in> set (butlast ps). at_slot (ps_at x) = SlotSaturated \<or>
      at_slot (ps_at x) = SlotGranted \<and> (\<exists>s. at_io (ps_at x) = IoStatus s \<and> should_mute_status s)"
    using snd by (fastforce simp: stream.trace_ok_def)
  with snd show ?thesis by (auto simp: stream.trace_ok_def split: if_splits)
qed

text \<open>C5. Rotation is exhaustive. With nobody else at the pool, a request that fails on an error worth
  rotating for -- on either loop -- has no key left: at the end of its last exchange every key its
  role may use was tried by it or was muted.\<close>

theorem rotation_exhaustive:
  assumes "KeyPool_init keys label roles = Inr p0" and "p = run pool_step p0 es"
    and quiet: "\<forall>k. at_slot_ops (env k) = [] \<and> at_io_ops (env k) = []"
    and clock: "\<forall>k. at_done (env k) \<le> at_now (env (Suc k))"
    and run: "pooled post_attempt aff role now env p = (Raised e, q, ps) \<and> post_retries e \<or>
      pooled stream_attempt aff role now env p = (Raised e, q, ps) \<and> stream_retries e"
  shows "ps \<noteq> [] \<and> (\<forall>i. \<not> usable q (at_done (ps_at (last ps))) role (map ps_index ps) i)"
proof -
  have wf: "pool_wf p" unfolding assms(2) using assms(1) by (rule pool_run_wf)
  have no: "\<not> post_retries (EPool pe)" "\<not> stream_retries (EPool pe)" for pe
    by (simp_all add: post_retries_def stream_retries_def rotatable_def)
  with run have pos: "size_for p role \<noteq> 0" by (auto simp: pooled_def Let_def split: if_splits)
  note size = size_for_card [of p role, symmetric]
  from run show ?thesis
  proof
    assume a: "pooled post_attempt aff role now env p = (Raised e, q, ps) \<and> post_retries e"
    with pos have r: "rotate_keys post_attempt aff role env 0 (size_for p role) p [] None = (Raised e, q, ps)"
      by (simp add: pooled_def)
    have ne: "ps \<noteq> []" using post.rotate_sound [OF wf r] a no by auto
    with post.rotate_sound [OF wf r] have "ps_at (last ps) = env (length ps - 1)" by (simp add: last_conv_nth)
    with post.rotate_complete [OF wf r _ quiet clock] a ne size show ?thesis by simp
  next
    assume a: "pooled stream_attempt aff role now env p = (Raised e, q, ps) \<and> stream_retries e"
    with pos have r: "rotate_keys stream_attempt aff role env 0 (size_for p role) p [] None = (Raised e, q, ps)"
      by (simp add: pooled_def)
    have ne: "ps \<noteq> []" using stream.rotate_sound [OF wf r] a no by auto
    with stream.rotate_sound [OF wf r] have "ps_at (last ps) = env (length ps - 1)" by (simp add: last_conv_nth)
    with stream.rotate_complete [OF wf r _ quiet clock] a ne size show ?thesis by simp
  qed
qed

theorem rotation_exhaustive_witness:
  "\<exists>q ps. pooled post_attempt None (Some ''pro'') 1 (\<lambda>k. quiet_attempt (5 + real k) (IoStatus 503)) demo_pool =
     (Raised (EStatus 503), q, ps) \<and> length ps = 2 \<and>
     (\<forall>i. \<not> usable q (at_done (ps_at (last ps))) (Some ''pro'') (map ps_index ps) i)"
proof -
  let ?env = "\<lambda>k. quiet_attempt (5 + real k) (IoStatus 503)"
  let ?r = "pooled post_attempt None (Some ''pro'') 1 ?env demo_pool"
  have run: "fst ?r = Raised (EStatus 503) \<and> length (snd (snd ?r)) = 2" by code_simp
  obtain r q ps where r: "?r = (r, q, ps)" by (cases ?r rule: prod_cases3)
  have d: "demo_pool = run pool_step demo_pool []" by simp
  have "post_retries (EStatus 503)" by code_simp
  moreover have "r = Raised (EStatus 503)" using run unfolding r by simp
  ultimately have r': "?r = (Raised (EStatus 503), q, ps) \<and> post_retries (EStatus 503) \<or>
      pooled stream_attempt None (Some ''pro'') 1 ?env demo_pool = (Raised (EStatus 503), q, ps) \<and> stream_retries (EStatus 503)"
    using r by simp
  have env: "\<forall>k. at_slot_ops (?env k) = [] \<and> at_io_ops (?env k) = []"
    "\<forall>k. at_done (?env k) \<le> at_now (?env (Suc k))" by (auto simp: quiet_attempt_def)
  have "r = Raised (EStatus 503)" "length ps = 2" using run unfolding r by simp_all
  note outcome = r [unfolded this(1)] this(2)
  have "\<forall>i. \<not> usable q (at_done (ps_at (last ps))) (Some ''pro'') (map ps_index ps) i"
    using rotation_exhaustive [OF demo_pool_init d env r'] by (elim conjE)
  with outcome show ?thesis by (intro exI conjI)
qed

text \<open>The pre-flight refusal agrees with the pool: when a role has no key in service at all, the error
  built before the loop is the one \<open>acquire\<close> would have raised, so a tier refusal and an
  exhaustion are told apart the same way on both paths.\<close>

lemma preflight_error_agrees:
  assumes "KeyPool_init keys label roles = Inr p0" and "p = run pool_step p0 es" and "size_for p role = 0"
  shows "pooled fin aff role now env p = (Raised (EPool (no_usable_key_error p now role)), p, []) \<and>
    fst (acquire p now aff role ex) = Inl (no_usable_key_error p now role)"
proof -
  have wf: "pool_wf p" unfolding assms(2) using assms(1) by (rule pool_run_wf)
  have none: "\<not> usable p t role x i" for t x i
    using assms(3) usable_entitled [of p t role x i] by (auto simp: size_for_card)
  then show ?thesis
    using acquire_spec [OF wf, where now = now and a = aff and role = role and exclude = ex] assms(3)
    by (cases "fst (acquire p now aff role ex)"; cases role)
      (auto simp: pooled_def no_usable_key_error_def can_serve_iff split: prod.splits)
qed

lemma snapshot_set: "set (snapshot_keys p) = ks_key ` {s \<in> set (kp_keys p). \<not> ks_removed s}"
  by (auto simp: snapshot_keys_def)

lemma snapshot_init:
  assumes "KeyPool_init seed label [] = Inr p"
  shows "set (snapshot_keys p) = set seed"
proof -
  have "snapshot_keys p = dedupe_onto [] seed"
    using assms by (auto simp: KeyPool_init_def snapshot_keys_def filter_map o_def fresh_key_state_def split: if_splits
        simp del: set_map)
  then show ?thesis using dedupe_onto_spec [of "[]" seed] by simp
qed

lemma snapshot_add_key: "set (snapshot_keys (snd (add_key p now k r))) = insert k (set (snapshot_keys p))"
proof (cases "first_index (\<lambda>s. ks_key s = k) (kp_keys p)")
  case None
  then show ?thesis by (simp add: add_key_def Let_def snapshot_keys_def fresh_key_state_def)
next
  case (Some i)
  note i = first_index_Some [OF Some]
  let ?s = "kp_keys p ! i"
  obtain s where s: "ks_key s = k" "\<not> ks_removed s" and r: "kp_keys (snd (add_key p now k r)) = (kp_keys p)[i := s]"
  proof (rule that)
    let ?t = "case r of None \<Rightarrow> ?s\<lparr>ks_removed := False\<rparr>
        | Some _ \<Rightarrow> ?s\<lparr>ks_removed := False, ks_min_role := normalize_min_role r\<rparr>"
    show "ks_key ?t = k" "\<not> ks_removed ?t" using i by (auto split: option.split)
    show "kp_keys (snd (add_key p now k r)) = (kp_keys p)[i := ?t]"
      using Some by (auto simp: add_key_def Let_def split: option.split)
  qed
  have "ks_key ` {s' \<in> set ((kp_keys p)[i := s]). \<not> ks_removed s'} = insert k (ks_key ` {s \<in> set (kp_keys p). \<not> ks_removed s})"
  proof (intro equalityI subsetI)
    fix x
    assume "x \<in> ks_key ` {s' \<in> set ((kp_keys p)[i := s]). \<not> ks_removed s'}"
    then show "x \<in> insert k (ks_key ` {s \<in> set (kp_keys p). \<not> ks_removed s})"
      using s set_update_subset_insert [of "kp_keys p" i s] by auto
  next
    fix x
    assume "x \<in> insert k (ks_key ` {s \<in> set (kp_keys p). \<not> ks_removed s})"
    then consider "x = k" | t where "t \<in> set (kp_keys p)" "\<not> ks_removed t" "x = ks_key t" "x \<noteq> k" by blast
    then show "x \<in> ks_key ` {s' \<in> set ((kp_keys p)[i := s]). \<not> ks_removed s'}"
    proof cases
      case 1
      then show ?thesis using s i set_update_memI [of i "kp_keys p" s] by (intro image_eqI [of _ _ s]) auto
    next
      case 2
      then obtain j where "j < length (kp_keys p)" "kp_keys p ! j = t" by (auto simp: in_set_conv_nth)
      with 2 i have "j \<noteq> i" by auto
      then have "t \<in> set ((kp_keys p)[i := s])"
        using \<open>j < length (kp_keys p)\<close> \<open>kp_keys p ! j = t\<close> by (metis length_list_update nth_list_update_neq nth_mem)
      with 2 show ?thesis by blast
    qed
  qed
  then show ?thesis unfolding snapshot_set r .
qed

text \<open>Attaching a key at runtime loses none. A non-blank key is always attached: afterwards the
  adapter has a pool in which that key is in service, together with every key that was in
  service before -- for an adapter promoted from the single-key path, the key it was configured
  with.\<close>

lemma runtime_key_serves:
  assumes "py_strip key \<noteq> []"
  shows "\<exists>p. add_runtime_key a now key = (True, a\<lparr>ad_key_pool := Some p\<rparr>) \<and>
    set (snapshot_keys p) = insert (py_strip key)
      (case ad_key_pool a of Some p0 \<Rightarrow> set (snapshot_keys p0)
       | None \<Rightarrow> (case static_key a of None \<Rightarrow> {} | Some k \<Rightarrow> {k}))"
proof (cases "ad_key_pool a")
  case (Some p0)
  with assms show ?thesis by (auto simp: add_runtime_key_def Let_def snapshot_add_key)
next
  case None
  define seed where "seed = (case static_key a of None \<Rightarrow> [] | Some k \<Rightarrow> [k])"
  define seed1 where "seed1 = (if py_strip key \<in> set seed then seed else seed @ [py_strip key])"
  have "seed1 \<noteq> []" by (auto simp: seed1_def)
  then obtain p where p: "KeyPool_init seed1 (ad_provider_label a) [] = Inr p" by (simp add: KeyPool_init_def)
  with assms None have "add_runtime_key a now key = (True, a\<lparr>ad_key_pool := Some p\<rparr>)"
    by (simp add: add_runtime_key_def Let_def seed_def [symmetric] seed1_def [symmetric] pool_of_def)
  moreover have "set (snapshot_keys p) = insert (py_strip key) (set seed)"
    using snapshot_init [OF p] by (auto simp: seed1_def)
  ultimately show ?thesis using None by (auto simp: seed_def split: option.splits)
qed

end
