(* ===== verification/Admission_Line.thy ===== *)
theory Admission_Line
  imports Prelude
begin

text \<open>
  The abstract contract behind both queues of \<open>serving/adapters/upstream_limiter.py\<close>: a
  counter of places in use, a cap on it, and a first-in first-out line of tasks that wait on
  an \<open>asyncio\<close> future each. It is the specification that \<open>Upstream_Limiter\<close> shows
  \<open>_Bucket\<close> and \<open>_EngineGate\<close> to implement, and what is proved here about the line
  holds of both.

  One event of the event loop is one step. A waiting task's future is pending, granted (its
  result is set, the place is already counted in the waiter's name) or cancelled (a timeout
  or a cancellation reached the task first). The task runs later: a granted task resumes and
  holds its place, or -- when the timeout was delivered in the same tick -- unwinds although
  granted, and the place goes back.
\<close>

section \<open>The line\<close>

datatype fut = FPending | FGranted | FCancelled

datatype task = TNew | TWait | THold | TLeft | TDone

text \<open>Serving the line: \<open>while waiters and used < cap\<close>, pop the oldest; a future that is
  done already holds no place, any other is counted and granted.\<close>

fun serve :: "int \<Rightarrow> int \<Rightarrow> nat list \<Rightarrow> (nat \<Rightarrow> fut) \<Rightarrow> int \<times> nat list \<times> (nat \<Rightarrow> fut)" where
  "serve cap used [] F = (used, [], F)"
| "serve cap used (w # ws) F =
     (if used < cap
      then if F w \<noteq> FPending then serve cap used ws F
           else serve cap (used + 1) ws (F(w := FGranted))
      else (used, w # ws, F))"

record line =
  ln_used :: int
  ln_cap :: int
  ln_queue :: "nat list"
  ln_fut :: "nat \<Rightarrow> fut"
  ln_task :: "nat \<Rightarrow> task"
  ln_next :: nat

definition line_serve :: "line \<Rightarrow> line" where
  "line_serve s =
     (case serve (ln_cap s) (ln_used s) (ln_queue s) (ln_fut s) of
        (n, q, F) \<Rightarrow> s\<lparr>ln_used := n, ln_queue := q, ln_fut := F\<rparr>)"

definition dec :: "int \<Rightarrow> int" where
  "dec n = (if 0 < n then n - 1 else n)"

datatype levent =
    LJoin
  | LCap int
  | LCancel nat
  | LResume nat
  | LUnwind nat
  | LForce nat
  | LFinish nat int

text \<open>\<open>LJoin\<close>: a task arrives, and takes a place at once only with room left and nobody
  waiting. \<open>LCap\<close>: the cap changes and the line is served under the new one.
  \<open>LForce\<close>: a task that left the line takes a place past the cap. \<open>LFinish\<close>: a
  holder gives its place back, with the cap in force afterwards.\<close>

fun line_step :: "line \<Rightarrow> levent \<Rightarrow> line option" where
  "line_step s LJoin =
     (if ln_queue s = [] \<and> ln_used s < ln_cap s
      then Some (s\<lparr>ln_used := ln_used s + 1, ln_task := (ln_task s)(ln_next s := THold),
                   ln_next := Suc (ln_next s)\<rparr>)
      else Some (s\<lparr>ln_queue := ln_queue s @ [ln_next s],
                   ln_fut := (ln_fut s)(ln_next s := FPending),
                   ln_task := (ln_task s)(ln_next s := TWait), ln_next := Suc (ln_next s)\<rparr>))"
| "line_step s (LCap c) = Some (line_serve (s\<lparr>ln_cap := c\<rparr>))"
| "line_step s (LCancel t) =
     (if ln_task s t = TWait \<and> ln_fut s t = FPending
      then Some (s\<lparr>ln_fut := (ln_fut s)(t := FCancelled)\<rparr>) else None)"
| "line_step s (LResume t) =
     (if ln_task s t = TWait \<and> ln_fut s t = FGranted
      then Some (s\<lparr>ln_task := (ln_task s)(t := THold)\<rparr>) else None)"
| "line_step s (LUnwind t) =
     (if ln_task s t = TWait \<and> ln_fut s t \<noteq> FPending
      then (let s1 = s\<lparr>ln_queue := remove1 t (ln_queue s), ln_task := (ln_task s)(t := TLeft)\<rparr>
            in Some (if ln_fut s t = FGranted
                     then line_serve (s1\<lparr>ln_used := dec (ln_used s)\<rparr>) else s1))
      else None)"
| "line_step s (LForce t) =
     (if ln_task s t = TLeft
      then Some (s\<lparr>ln_used := ln_used s + 1, ln_task := (ln_task s)(t := THold)\<rparr>) else None)"
| "line_step s (LFinish t c) =
     (if ln_task s t = THold
      then Some (line_serve (s\<lparr>ln_used := dec (ln_used s), ln_cap := c,
                               ln_task := (ln_task s)(t := TDone)\<rparr>))
      else None)"

definition empty_line :: "int \<Rightarrow> line" where
  "empty_line c = \<lparr>ln_used = 0, ln_cap = c, ln_queue = [], ln_fut = (\<lambda>_. FPending),
                   ln_task = (\<lambda>_. TNew), ln_next = 0\<rparr>"

text \<open>Task \<open>t\<close> owns a counted place: it holds one, or was granted one it has not picked
  up yet.\<close>

definition owns :: "line \<Rightarrow> nat \<Rightarrow> bool" where
  "owns s t \<longleftrightarrow> ln_task s t = THold \<or> ln_task s t = TWait \<and> ln_fut s t = FGranted"

definition waiting :: "line \<Rightarrow> nat \<Rightarrow> bool" where
  "waiting s t \<longleftrightarrow> ln_task s t = TWait \<and> ln_fut s t = FPending"

text \<open>The books of the line: the queue holds the waiting tasks in arrival order, and the
  counter is the number of owners.\<close>

definition line_books :: "line \<Rightarrow> bool" where
  "line_books s \<longleftrightarrow>
     sorted_wrt (<) (ln_queue s) \<and>
     (\<forall>t \<in> set (ln_queue s). ln_task s t = TWait \<and> ln_fut s t \<noteq> FGranted) \<and>
     (\<forall>t. ln_next s \<le> t \<longrightarrow> ln_task s t = TNew) \<and>
     (\<forall>t. waiting s t \<longrightarrow> t \<in> set (ln_queue s)) \<and>
     ln_used s = int (card {t. owns s t})"

text \<open>Nobody waits while there is room.\<close>

definition no_idle_place :: "line \<Rightarrow> bool" where
  "no_idle_place s \<longleftrightarrow> ln_queue s = [] \<or> ln_cap s \<le> ln_used s"

text \<open>Nobody who came later has a place, or had one, while an earlier task still waits.\<close>

definition no_overtaking :: "line \<Rightarrow> bool" where
  "no_overtaking s \<longleftrightarrow>
     (\<forall>t u. waiting s t \<and> t < u \<longrightarrow> \<not> owns s u \<and> ln_task s u \<noteq> TDone)"

section \<open>Serving\<close>

lemma serve_spec:
  assumes "serve cap used q F = (n, q', F')" "distinct q"
  obtains p where "q = p @ q'" "F' = (\<lambda>t. if t \<in> set p \<and> F t = FPending then FGranted else F t)"
    "n = used + int (length (filter (\<lambda>t. F t = FPending) p))" "q' = [] \<or> cap \<le> n"
    "used \<le> cap \<Longrightarrow> n \<le> cap"
proof -
  have "\<exists>p. q = p @ q' \<and> F' = (\<lambda>t. if t \<in> set p \<and> F t = FPending then FGranted else F t) \<and>
      n = used + int (length (filter (\<lambda>t. F t = FPending) p)) \<and> (q' = [] \<or> cap \<le> n) \<and>
      (used \<le> cap \<longrightarrow> n \<le> cap)"
    using assms
  proof (induction q arbitrary: used F)
    case Nil
    then show ?case by auto
  next
    case (Cons w ws)
    show ?case
    proof (cases "used < cap")
      case False
      with Cons.prems show ?thesis by (intro exI [of _ "[]"]) auto
    next
      case True
      show ?thesis
      proof (cases "F w = FPending")
        case True
        with Cons.prems \<open>used < cap\<close> have "serve cap (used + 1) ws (F(w := FGranted)) = (n, q', F')"
          by simp
        from Cons.IH [OF this] Cons.prems obtain p where p: "ws = p @ q'"
          "F' = (\<lambda>t. if t \<in> set p \<and> (F(w := FGranted)) t = FPending then FGranted else (F(w := FGranted)) t)"
          "n = used + 1 + int (length (filter (\<lambda>t. (F(w := FGranted)) t = FPending) p))"
          "q' = [] \<or> cap \<le> n" "used + 1 \<le> cap \<longrightarrow> n \<le> cap" by auto
        moreover have "w \<notin> set p" using Cons.prems(2) p(1) by simp
        then have "filter (\<lambda>t. (F(w := FGranted)) t = FPending) p = filter (\<lambda>t. F t = FPending) p"
          by (intro filter_cong) auto
        ultimately show ?thesis
          using True \<open>used < cap\<close> by (intro exI [of _ "w # p"]) (auto simp: fun_eq_iff)
      next
        case False
        with Cons.prems \<open>used < cap\<close> have "serve cap used ws F = (n, q', F')" by simp
        from Cons.IH [OF this] Cons.prems obtain p where "ws = p @ q'"
          "F' = (\<lambda>t. if t \<in> set p \<and> F t = FPending then FGranted else F t)"
          "n = used + int (length (filter (\<lambda>t. F t = FPending) p))"
          "q' = [] \<or> cap \<le> n" "used \<le> cap \<longrightarrow> n \<le> cap" by auto
        with False show ?thesis by (intro exI [of _ "w # p"]) (auto simp: fun_eq_iff)
      qed
    qed
  qed
  then show thesis using that by blast
qed

lemma serve_mono:
  "serve cap used q F = (n, q', F') \<Longrightarrow> used \<le> n \<and> (used \<le> m \<and> cap \<le> m \<longrightarrow> n \<le> m)"
  by (induction cap used q F rule: serve.induct) (auto split: if_splits)

lemma line_serve_simps [simp]:
  "ln_task (line_serve s) = ln_task s" "ln_cap (line_serve s) = ln_cap s"
  "ln_next (line_serve s) = ln_next s"
  by (simp_all add: line_serve_def split: prod.split)

lemma owns_finite: "line_books s \<Longrightarrow> finite {t. owns s t}"
proof (rule finite_subset)
  assume "line_books s"
  then show "{t. owns s t} \<subseteq> {..< ln_next s}"
    by (auto simp: line_books_def owns_def not_le [symmetric])
qed simp

text \<open>Serving keeps the books, fills every free place and grants only the head of the line.\<close>

lemma line_serve_effect:
  assumes "distinct (ln_queue s)"
  obtains p where "ln_queue s = p @ ln_queue (line_serve s)"
    "ln_fut (line_serve s) = (\<lambda>t. if t \<in> set p \<and> ln_fut s t = FPending then FGranted else ln_fut s t)"
    "ln_used (line_serve s) = ln_used s + int (length (filter (\<lambda>t. ln_fut s t = FPending) p))"
    "no_idle_place (line_serve s)"
proof -
  obtain n q F where r: "serve (ln_cap s) (ln_used s) (ln_queue s) (ln_fut s) = (n, q, F)"
    by (metis prod_cases3)
  from serve_spec [OF r assms] obtain p where "ln_queue s = p @ q"
    "F = (\<lambda>t. if t \<in> set p \<and> ln_fut s t = FPending then FGranted else ln_fut s t)"
    "n = ln_used s + int (length (filter (\<lambda>t. ln_fut s t = FPending) p))"
    "q = [] \<or> ln_cap s \<le> n" by blast
  moreover have "line_serve s = s\<lparr>ln_used := n, ln_queue := q, ln_fut := F\<rparr>"
    by (simp add: line_serve_def r)
  ultimately show thesis by (intro that [of p]) (simp_all add: no_idle_place_def)
qed


section \<open>The books balance\<close>

text \<open>Granting the pending tasks of the head of the line adds exactly them to the owners.\<close>

lemma line_books_serve:
  assumes books: "sorted_wrt (<) (ln_queue s)"
      "\<forall>t \<in> set (ln_queue s). ln_task s t = TWait \<and> ln_fut s t \<noteq> FGranted"
      "\<forall>t. ln_next s \<le> t \<longrightarrow> ln_task s t = TNew" "\<forall>t. waiting s t \<longrightarrow> t \<in> set (ln_queue s)"
    and used: "ln_used s = int (card {t. owns s t})"
  shows "line_books (line_serve s) \<and> no_idle_place (line_serve s)"
proof -
  have dist: "distinct (ln_queue s)" using books(1) by (simp add: strict_sorted_iff)
  let ?s = "line_serve s"
  obtain p where p: "ln_queue s = p @ ln_queue ?s"
    "ln_fut ?s = (\<lambda>t. if t \<in> set p \<and> ln_fut s t = FPending then FGranted else ln_fut s t)"
    "ln_used ?s = ln_used s + int (length (filter (\<lambda>t. ln_fut s t = FPending) p))"
    and idle: "no_idle_place ?s" by (rule line_serve_effect [OF dist])
  let ?new = "{t \<in> set p. ln_fut s t = FPending}"
  have sub: "set p \<subseteq> set (ln_queue s)" "set (ln_queue ?s) \<subseteq> set (ln_queue s)"
    using p(1) by (metis Un_upper1 set_append, metis Un_upper2 set_append)
  have disj: "set p \<inter> set (ln_queue ?s) = {}" using dist p(1) by (metis distinct_append)
  have o: "{t. owns ?s t} = {t. owns s t} \<union> ?new"
    using sub books(2) p(2) by (auto simp: owns_def)
  have fin: "finite {t. owns s t}"
    by (rule finite_subset [of _ "{..< ln_next s}"]) (auto simp: owns_def books(3) not_le [symmetric])
  have "card ?new = length (filter (\<lambda>t. ln_fut s t = FPending) p)"
    using dist p(1) distinct_card [of "filter (\<lambda>t. ln_fut s t = FPending) p"]
    by (metis distinct_append distinct_filter set_filter)
  moreover have "{t. owns s t} \<inter> ?new = {}" using sub books(2) by (auto simp: owns_def)
  ultimately have "ln_used ?s = int (card {t. owns ?s t})"
    unfolding o p(3) used using fin by (simp add: card_Un_disjoint)
  moreover have "sorted_wrt (<) (ln_queue ?s)" using books(1) p(1) by (metis sorted_wrt_append)
  moreover have "\<forall>t \<in> set (ln_queue ?s). ln_task ?s t = TWait \<and> ln_fut ?s t \<noteq> FGranted"
    using sub disj books(2) p(2) by auto
  moreover have "\<forall>t. waiting ?s t \<longrightarrow> t \<in> set (ln_queue ?s)"
  proof (intro allI impI)
    fix t
    assume "waiting ?s t"
    then have "waiting s t" "t \<notin> set p" by (auto simp: waiting_def p(2) split: if_splits)
    with books(4) p(1) show "t \<in> set (ln_queue ?s)" by (metis UnE set_append)
  qed
  ultimately show ?thesis using idle books(3) by (auto simp: line_books_def)
qed

lemma line_books_iff_serve:
  "line_books s \<Longrightarrow> line_books (line_serve (s\<lparr>ln_cap := c\<rparr>)) \<and> no_idle_place (line_serve (s\<lparr>ln_cap := c\<rparr>))"
  by (rule line_books_serve) (auto simp: line_books_def owns_def waiting_def)

text \<open>Giving back the place of an owner \<open>t\<close> leaves the count right.\<close>

lemma dec_owner:
  assumes "line_books s" "owns s t"
  shows "dec (ln_used s) = int (card ({u. owns s u} - {t}))"
proof -
  have "finite {u. owns s u}" using assms(1) by (rule owns_finite)
  with assms show ?thesis
    by (auto simp: line_books_def dec_def card_Diff_singleton card_gt_0_iff of_nat_diff Suc_le_eq)
qed

lemma line_finish_books:
  assumes "line_books s" "line_step s (LFinish t c) = Some s'"
  shows "line_books s' \<and> no_idle_place s'"
proof -
  let ?s = "s\<lparr>ln_used := dec (ln_used s), ln_cap := c, ln_task := (ln_task s)(t := TDone)\<rparr>"
  from assms(2) have h: "ln_task s t = THold" and s': "s' = line_serve ?s"
    by (auto split: if_splits)
  have "{u. owns ?s u} = {u. owns s u} - {t}" by (auto simp: owns_def)
  moreover have "owns s t" "t \<notin> set (ln_queue s)" "t < ln_next s"
    using assms(1) h by (auto simp: owns_def line_books_def) (metis leI task.distinct(3))
  ultimately show ?thesis
    unfolding s' using assms(1) dec_owner [OF assms(1), of t]
    by (intro line_books_serve) (auto simp: line_books_def waiting_def)
qed

lemma line_unwind_books:
  assumes "line_books s" "no_idle_place s" "line_step s (LUnwind t) = Some s'"
  shows "line_books s' \<and> no_idle_place s'"
proof -
  let ?s = "s\<lparr>ln_queue := remove1 t (ln_queue s), ln_task := (ln_task s)(t := TLeft)\<rparr>"
  from assms(3) have w: "ln_task s t = TWait" "ln_fut s t \<noteq> FPending"
    and s': "s' = (if ln_fut s t = FGranted then line_serve (?s\<lparr>ln_used := dec (ln_used s)\<rparr>) else ?s)"
    by (auto simp: Let_def split: if_splits)
  have dist: "distinct (ln_queue s)" and srt: "sorted_wrt (<) (ln_queue s)"
    using assms(1) by (auto simp: line_books_def strict_sorted_iff)
  have lt: "t < ln_next s"
    using assms(1) w(1) by (auto simp: line_books_def) (metis leI task.distinct(1))
  have queue: "sorted_wrt (<) (remove1 t (ln_queue s))" "set (remove1 t (ln_queue s)) = set (ln_queue s) - {t}"
    using srt dist by (auto simp: sorted_wrt_remove1)
  have owned: "{u. owns ?s u} = {u. owns s u} - {t}" by (auto simp: owns_def)
  show ?thesis
  proof (cases "ln_fut s t = FGranted")
    case True
    let ?r = "?s\<lparr>ln_used := dec (ln_used s)\<rparr>"
    from True w have "owns s t" by (simp add: owns_def)
    moreover have "{u. owns ?r u} = {u. owns s u} - {t}" by (auto simp: owns_def)
    ultimately have "line_books (line_serve ?r) \<and> no_idle_place (line_serve ?r)"
      using assms(1) lt queue dec_owner [OF assms(1), of t]
      by (intro line_books_serve) (auto simp: line_books_def waiting_def)
    with True show ?thesis by (simp add: s')
  next
    case False
    then have "\<not> owns s t" using w by (simp add: owns_def)
    with owned have "{u. owns ?s u} = {u. owns s u}" by auto
    with False assms(1,2) lt queue w show ?thesis
      by (auto simp: s' line_books_def no_idle_place_def waiting_def)
  qed
qed

lemma line_step_books:
  assumes "line_books s" "no_idle_place s" "line_step s e = Some s'"
  shows "line_books s' \<and> no_idle_place s'"
proof (cases e)
  case LJoin
  have new: "ln_task s (ln_next s) = TNew" and lt: "\<forall>t \<in> set (ln_queue s). t < ln_next s"
    using assms(1) by (auto simp: line_books_def) (metis leI task.distinct(1))
  show ?thesis
  proof (cases "ln_queue s = [] \<and> ln_used s < ln_cap s")
    case True
    with assms(3) LJoin have s': "s' = s\<lparr>ln_used := ln_used s + 1,
        ln_task := (ln_task s)(ln_next s := THold), ln_next := Suc (ln_next s)\<rparr>" by simp
    have "{u. owns s' u} = insert (ln_next s) {u. owns s u}" "\<not> owns s (ln_next s)"
      using new by (auto simp: s' owns_def)
    with assms(1) new True owns_finite [OF assms(1)] show ?thesis
      by (auto simp: s' line_books_def no_idle_place_def waiting_def)
  next
    case False
    with assms(3) LJoin have s': "s' = s\<lparr>ln_queue := ln_queue s @ [ln_next s],
        ln_fut := (ln_fut s)(ln_next s := FPending),
        ln_task := (ln_task s)(ln_next s := TWait), ln_next := Suc (ln_next s)\<rparr>" by auto
    have "owns s' = owns s" using new by (auto simp: s' owns_def fun_eq_iff)
    moreover have "ln_cap s \<le> ln_used s" using False assms(2) by (auto simp: no_idle_place_def)
    ultimately show ?thesis
      using assms(1) lt by (auto simp: s' line_books_def no_idle_place_def waiting_def sorted_wrt_append)
  qed
next
  case (LCap c)
  with assms line_books_iff_serve [of s c] show ?thesis by simp
next
  case (LCancel t)
  with assms(3) have s': "s' = s\<lparr>ln_fut := (ln_fut s)(t := FCancelled)\<rparr>" and w: "waiting s t"
    by (auto simp: waiting_def split: if_splits)
  have "owns s' = owns s" using w by (auto simp: s' owns_def waiting_def fun_eq_iff)
  with assms(1,2) show ?thesis by (auto simp: s' line_books_def no_idle_place_def waiting_def)
next
  case (LResume t)
  with assms(3) have s': "s' = s\<lparr>ln_task := (ln_task s)(t := THold)\<rparr>"
    and g: "ln_task s t = TWait" "ln_fut s t = FGranted" by (auto split: if_splits)
  have "owns s' = owns s" using g by (auto simp: s' owns_def fun_eq_iff)
  moreover have "t \<notin> set (ln_queue s)" "t < ln_next s"
    using assms(1) g by (auto simp: line_books_def) (metis leI task.distinct(1))
  ultimately show ?thesis using assms(1,2) by (auto simp: s' line_books_def no_idle_place_def waiting_def)
next
  case (LForce t)
  with assms(3) have s': "s' = s\<lparr>ln_used := ln_used s + 1, ln_task := (ln_task s)(t := THold)\<rparr>"
    and l: "ln_task s t = TLeft" by (auto split: if_splits)
  have "\<not> owns s t" "t \<notin> set (ln_queue s)" "t < ln_next s"
    using assms(1) l by (auto simp: line_books_def owns_def) (metis leI task.distinct(5))
  moreover from this have "{u. owns s' u} = insert t {u. owns s u}" by (auto simp: s' owns_def)
  ultimately show ?thesis
    using assms(1,2) owns_finite [OF assms(1)]
    by (auto simp: s' line_books_def no_idle_place_def waiting_def)
next
  case (LUnwind t)
  then show ?thesis using line_unwind_books [OF assms(1,2)] assms(3) by simp
next
  case (LFinish t c)
  then show ?thesis using line_finish_books [OF assms(1)] assms(3) by simp
qed

interpretation books: kept_by_relation "\<lambda>s e t. line_step s e = Some t" "\<lambda>s. line_books s \<and> no_idle_place s"
  by unfold_locales (use line_step_books in blast)

lemma empty_line_books: "line_books (empty_line c) \<and> no_idle_place (empty_line c)"
  by (simp add: empty_line_def line_books_def no_idle_place_def owns_def waiting_def)

section \<open>First come, first served\<close>

text \<open>An event that is not a forced admission.\<close>

definition unforced :: "levent \<Rightarrow> bool" where
  "unforced e = (case e of LForce _ \<Rightarrow> False | _ \<Rightarrow> True)"

text \<open>A change that makes nobody an owner and no new waiter keeps the order, and so does
  serving the line afterwards: only its head is granted.\<close>

lemma no_overtaking_mono:
  assumes "no_overtaking s" "\<And>u. owns s' u \<Longrightarrow> owns s u" "\<And>u. waiting s' u \<Longrightarrow> waiting s u"
    "\<And>u. ln_task s' u = TDone \<Longrightarrow> ln_task s u = TDone \<or> owns s u"
  shows "no_overtaking s'"
  using assms unfolding no_overtaking_def by blast

lemma no_overtaking_serve:
  assumes srt: "sorted_wrt (<) (ln_queue s)" and books: "line_books (line_serve s)"
    and old: "no_overtaking s"
  shows "no_overtaking (line_serve s)"
  unfolding no_overtaking_def
proof (intro allI impI)
  fix t u
  assume tu: "waiting (line_serve s) t \<and> t < u"
  have "distinct (ln_queue s)" using srt by (simp add: strict_sorted_iff)
  then obtain p where p: "ln_queue s = p @ ln_queue (line_serve s)"
    "ln_fut (line_serve s) = (\<lambda>t. if t \<in> set p \<and> ln_fut s t = FPending then FGranted else ln_fut s t)"
    by (rule line_serve_effect)
  have "t \<in> set (ln_queue (line_serve s))" using tu books by (auto simp: line_books_def)
  moreover have "sorted_wrt (<) (p @ ln_queue (line_serve s))" using srt p(1) by simp
  ultimately have "u \<notin> set p" using tu by (auto simp: sorted_wrt_append dest: less_asym)
  moreover have "waiting s t" using tu by (auto simp: waiting_def p(2) split: if_splits)
  ultimately show "\<not> owns (line_serve s) u \<and> ln_task (line_serve s) u \<noteq> TDone"
    using tu old by (auto simp: no_overtaking_def owns_def p(2))
qed

lemma line_step_order:
  assumes books: "line_books s \<and> no_idle_place s" and old: "no_overtaking s"
    and step: "line_step s e = Some s'" and "unforced e"
  shows "no_overtaking s'"
proof -
  have books': "line_books s'" using line_step_books [OF _ _ step] books by blast
  have srt: "sorted_wrt (<) (ln_queue s)" using books by (simp add: line_books_def)
  show ?thesis
  proof (cases e)
    case LJoin
    have new: "\<And>t. ln_next s \<le> t \<Longrightarrow> ln_task s t = TNew" and wq: "\<forall>t. waiting s t \<longrightarrow> t \<in> set (ln_queue s)"
      using books by (auto simp: line_books_def)
    show ?thesis
    proof (cases "ln_queue s = [] \<and> ln_used s < ln_cap s")
      case True
      with step LJoin wq have "\<not> waiting s' t" for t
        by (cases "t = ln_next s") (auto simp: waiting_def)
      then show ?thesis by (simp add: no_overtaking_def)
    next
      case False
      with step LJoin have task: "ln_task s' = (ln_task s)(ln_next s := TWait)"
        and fut: "ln_fut s' = (ln_fut s)(ln_next s := FPending)" by auto
      have "\<not> owns s' u \<and> ln_task s' u \<noteq> TDone" if "waiting s' t \<and> t < u" for t u
        using that old new [of u] by (cases "t = ln_next s"; cases "u = ln_next s")
          (auto simp: no_overtaking_def waiting_def owns_def task fut)
      then show ?thesis by (simp add: no_overtaking_def)
    qed
  next
    case (LCap c)
    with step have s': "s' = line_serve (s\<lparr>ln_cap := c\<rparr>)" by simp
    show ?thesis
      unfolding s' by (rule no_overtaking_serve)
        (use srt books' s' old in \<open>auto intro: no_overtaking_mono simp: owns_def waiting_def\<close>)
  next
    case (LCancel t)
    with step show ?thesis
      by (intro no_overtaking_mono [OF old]) (auto simp: owns_def waiting_def split: if_splits)
  next
    case (LResume t)
    with step show ?thesis
      by (intro no_overtaking_mono [OF old]) (auto simp: owns_def waiting_def split: if_splits)
  next
    case (LForce t)
    with \<open>unforced e\<close> show ?thesis by (simp add: unforced_def)
  next
    case (LUnwind t)
    let ?s = "s\<lparr>ln_queue := remove1 t (ln_queue s), ln_task := (ln_task s)(t := TLeft)\<rparr>"
    let ?r = "?s\<lparr>ln_used := dec (ln_used s)\<rparr>"
    have "no_overtaking ?s" "no_overtaking ?r"
      by (rule no_overtaking_mono [OF old]; simp add: owns_def waiting_def split: if_splits)+
    moreover have "s' = (if ln_fut s t = FGranted then line_serve ?r else ?s)"
      using step LUnwind by (auto simp: Let_def split: if_splits)
    ultimately show ?thesis
      using no_overtaking_serve [of ?r] books' srt by (auto simp: sorted_wrt_remove1 split: if_splits)
  next
    case (LFinish t c)
    let ?s = "s\<lparr>ln_used := dec (ln_used s), ln_cap := c, ln_task := (ln_task s)(t := TDone)\<rparr>"
    have s': "s' = line_serve ?s" "ln_task s t = THold" using step LFinish by (auto split: if_splits)
    have "no_overtaking ?s"
      by (rule no_overtaking_mono [OF old]) (use s' in \<open>auto simp: owns_def waiting_def split: if_splits\<close>)
    with books' srt show ?thesis unfolding s' by (intro no_overtaking_serve) simp_all
  qed
qed

interpretation fifo: kept_by_relation "\<lambda>s e t. line_step s e = Some t \<and> unforced e"
    "\<lambda>s. (line_books s \<and> no_idle_place s) \<and> no_overtaking s"
  by unfold_locales (use line_step_books line_step_order in blast)

lemma empty_line_order: "no_overtaking (empty_line c)"
  by (simp add: empty_line_def no_overtaking_def waiting_def)

section \<open>The cap\<close>

text \<open>While the cap never exceeds \<open>m\<close> and nobody is forced in, the count never does.\<close>

definition cap_event :: "int \<Rightarrow> levent \<Rightarrow> bool" where
  "cap_event m e = (case e of LCap c \<Rightarrow> c \<le> m | LFinish _ c \<Rightarrow> c \<le> m | LForce _ \<Rightarrow> False | _ \<Rightarrow> True)"

definition within_cap :: "int \<Rightarrow> line \<Rightarrow> bool" where
  "within_cap m s \<longleftrightarrow> 0 \<le> m \<and> ln_cap s \<le> m \<and> ln_used s \<le> m"

lemma within_cap_serve: "within_cap m s \<Longrightarrow> within_cap m (line_serve s)"
  by (auto simp: within_cap_def line_serve_def dest: serve_mono [of _ _ _ _ _ _ _ m] split: prod.split)

lemma dec_le: "dec n \<le> n"
  by (simp add: dec_def)

lemma line_step_cap:
  assumes "within_cap m s" "line_step s e = Some s'" "cap_event m e"
  shows "within_cap m s'"
proof -
  have d: "dec (ln_used s) \<le> m" using assms(1) dec_le [of "ln_used s"] by (simp add: within_cap_def)
  show ?thesis
  proof (cases e)
    case (LCap c)
    with assms show ?thesis
      using within_cap_serve [of m "s\<lparr>ln_cap := c\<rparr>"] by (auto simp: cap_event_def within_cap_def)
  next
    case (LFinish t c)
    with assms d show ?thesis
      using within_cap_serve [of m "s\<lparr>ln_used := dec (ln_used s), ln_cap := c, ln_task := (ln_task s)(t := TDone)\<rparr>"]
      by (auto simp: cap_event_def within_cap_def split: if_splits)
  next
    case (LUnwind t)
    with assms d show ?thesis
      using within_cap_serve [of m "s\<lparr>ln_queue := remove1 t (ln_queue s), ln_task := (ln_task s)(t := TLeft),
          ln_used := dec (ln_used s)\<rparr>"]
      by (auto simp: Let_def within_cap_def split: if_splits)
  qed (use assms in \<open>auto simp: cap_event_def within_cap_def split: if_splits\<close>)
qed

interpretation capped: kept_by_relation "\<lambda>s e t. line_step s e = Some t \<and> cap_event m e" "within_cap m" for m
  by unfold_locales (use line_step_cap in blast)

end
