(* ===== verification/Upstream_Limiter.thy ===== *)
theory Upstream_Limiter
  imports Admission_Line
begin

text \<open>
  \<open>serving/adapters/upstream_limiter.py\<close>: the gateway's cap on its own outbound
  concurrency, one AIMD bucket per (provider, key), and the hold in front of a local engine.

  Every method of the file that contains no \<open>await\<close> runs atomically on the event loop
  and is one definition over \<open>bucket\<close> or \<open>gate\<close> and the table of futures;
  \<open>acquire\<close> and \<open>_admit_to_engine\<close> are cut at their one \<open>await\<close>: what runs
  before it (\<open>bucket_acquire\<close>, \<open>gate_admit\<close>), and what runs when the wait ends
  (resume, or the \<open>except\<close> clauses that abandon the waiter). \<open>bucket_event\<close> and
  \<open>gate_event\<close> are the resulting event systems for one bucket and one gate under any
  interleaving of tasks. A SHA-256 digest is a parameter; \<open>urlsplit\<close> enters as the
  record \<open>url\<close> of what it returns.

  The lemmas: both event systems implement the line of \<open>Admission_Line\<close> (simulation), so
  no slot is lost or leaked, nobody idles beside a free slot and buckets serve in arrival
  order; the AIMD limit stays within its bounds, only 429 and 200 move it, and a 429
  exactly takes back a probe.
\<close>

section \<open>Endpoints and keys\<close>

record url =
  url_raw :: string
  url_splits :: bool
  url_scheme :: string
  url_hostname :: "string option"
  url_port :: "nat option option"  \<comment> \<open>\<open>None\<close>: reading the port raises \<open>ValueError\<close>\<close>

datatype deployment_type = DAuto | DSelfHosted | DProviderApi

datatype limiter_error = LimiterValueError | UpstreamSaturated | UpstreamQueueWaitExpired

definition LOCAL_HOSTS :: "string list" where
  "LOCAL_HOSTS = [''localhost'', ''127.0.0.1'', ''0.0.0.0'', ''host.docker.internal'']"

definition validate_deployment_type :: "string option \<Rightarrow> limiter_error + deployment_type" where
  "validate_deployment_type v =
     (if v = Some ''auto'' then Inr DAuto
      else if v = Some ''self_hosted'' then Inr DSelfHosted
      else if v = Some ''provider_api'' then Inr DProviderApi
      else Inl LimiterValueError)"

definition host_of :: "url \<Rightarrow> string" where
  "host_of u = py_lower (case url_hostname u of None \<Rightarrow> [] | Some h \<Rightarrow> h)"

definition is_local_endpoint :: "url option \<Rightarrow> deployment_type \<Rightarrow> bool" where
  "is_local_endpoint base_url d =
     (if d \<noteq> DAuto then d = DSelfHosted
      else case base_url of
          None \<Rightarrow> False
        | Some u \<Rightarrow>
            if url_raw u = [] then False
            else if \<not> url_splits u then False
            else host_of u \<in> set LOCAL_HOSTS)"

definition engine_address :: "url option \<Rightarrow> string" where
  "engine_address base_url =
     (case base_url of
        None \<Rightarrow> '':80''
      | Some u \<Rightarrow>
          if \<not> url_splits u then url_raw u
          else case url_port u of
              None \<Rightarrow> url_raw u
            | Some port \<Rightarrow>
                host_of u @ '':'' @
                show_nat (case port of Some n \<Rightarrow> n
                          | None \<Rightarrow> if url_scheme u = ''https'' then 443 else 80))"

definition key_fingerprint :: "(string \<Rightarrow> string) \<Rightarrow> string option \<Rightarrow> string" where
  "key_fingerprint sha256_hex api_key =
     take 12 (sha256_hex (case api_key of None \<Rightarrow> [] | Some k \<Rightarrow> py_strip k))"

section \<open>Waits\<close>

text \<open>How long a dispatch may queue, and whether its own deadline ends the wait.\<close>

definition queue_wait :: "time \<Rightarrow> time option \<Rightarrow> time \<Rightarrow> time \<times> bool" where
  "queue_wait acquire_timeout deadline now =
     (case deadline of
        None \<Rightarrow> (acquire_timeout, False)
      | Some d \<Rightarrow>
          let remaining = d - now
          in if remaining < acquire_timeout then (remaining, True) else (acquire_timeout, False))"

definition hold_wait :: "time \<Rightarrow> time option \<Rightarrow> time \<Rightarrow> time \<times> bool" where
  "hold_wait acquire_timeout deadline now =
     (case deadline of None \<Rightarrow> (acquire_timeout, False) | Some d \<Rightarrow> (d - now, True))"

section \<open>Buckets\<close>

record bucket =
  bk_provider :: string
  bk_fingerprint :: string
  bk_limit :: int
  bk_max_limit :: int
  bk_probe_success_interval :: int
  bk_in_flight :: int
  bk_successes_since_probe :: int
  bk_probing :: bool
  bk_waiters :: "nat list"
  bk_loop :: "nat option"

type_synonym futures = "nat \<Rightarrow> fut"

definition new_bucket :: "string \<Rightarrow> string \<Rightarrow> int \<Rightarrow> int \<Rightarrow> int \<Rightarrow> bucket" where
  "new_bucket prov fp limit0 mx iv =
     \<lparr>bk_provider = prov, bk_fingerprint = fp, bk_limit = limit0, bk_max_limit = mx,
      bk_probe_success_interval = iv, bk_in_flight = 0, bk_successes_since_probe = 0,
      bk_probing = False, bk_waiters = [], bk_loop = None\<rparr>"

definition bucket_rebind_loop :: "bucket \<Rightarrow> nat \<Rightarrow> bucket" where
  "bucket_rebind_loop b loop =
     (if bk_loop b = Some loop then b
      else b\<lparr>bk_loop := Some loop, bk_waiters := [], bk_in_flight := 0\<rparr>)"

definition has_free_slot :: "bucket \<Rightarrow> bool" where
  "has_free_slot b = (bk_waiters b = [] \<and> bk_in_flight b < bk_limit b)"

definition take_slot :: "bucket \<Rightarrow> bucket" where
  "take_slot b = b\<lparr>bk_in_flight := bk_in_flight b + 1\<rparr>"

definition bucket_decrease :: "bucket \<Rightarrow> bucket" where
  "bucket_decrease b =
     b\<lparr>bk_limit := max 1 (bk_limit b - 1), bk_probing := False, bk_successes_since_probe := 0\<rparr>"

definition bucket_count_success :: "bucket \<Rightarrow> bucket" where
  "bucket_count_success b =
     (let b1 = b\<lparr>bk_successes_since_probe := bk_successes_since_probe b + 1\<rparr>
      in if bk_successes_since_probe b1 < bk_probe_success_interval b1 then b1
         else b1\<lparr>bk_successes_since_probe := 0, bk_limit := min (bk_max_limit b1) (bk_limit b1 + 1),
                 bk_probing := True\<rparr>)"

definition bucket_wake_waiters :: "bucket \<Rightarrow> futures \<Rightarrow> bucket \<times> futures" where
  "bucket_wake_waiters b F =
     (case serve (bk_limit b) (bk_in_flight b) (bk_waiters b) F of
        (n, ws, F') \<Rightarrow> (b\<lparr>bk_in_flight := n, bk_waiters := ws\<rparr>, F'))"

text \<open>The outcome folded into the controller: exactly 429 and 200 move it.\<close>

definition bucket_adapt :: "bucket \<Rightarrow> int option \<Rightarrow> bucket" where
  "bucket_adapt b status =
     (if status = Some 429 then bucket_decrease b
      else if status = Some 200 then bucket_count_success b else b)"

definition bucket_complete :: "bucket \<Rightarrow> futures \<Rightarrow> int option \<Rightarrow> bucket \<times> futures" where
  "bucket_complete b F status =
     (let b1 = (if 0 < bk_in_flight b then b\<lparr>bk_in_flight := bk_in_flight b - 1\<rparr> else b)
      in bucket_wake_waiters (bucket_adapt b1 status) F)"

definition bucket_abandon :: "bucket \<Rightarrow> futures \<Rightarrow> nat \<Rightarrow> bucket \<times> futures" where
  "bucket_abandon b F waiter =
     (let b1 = b\<lparr>bk_waiters := remove1 waiter (bk_waiters b)\<rparr>
      in if F waiter = FGranted then bucket_complete b1 F None else (b1, F))"

text \<open>\<open>acquire\<close> up to its \<open>await\<close>, for a policed endpoint: a slot at once, a place in
  line with the wait that bounds it, or nothing because the deadline already passed.\<close>

datatype acquire_start = Sent | Queued time bool | Expired

definition bucket_acquire ::
  "time \<Rightarrow> bucket \<Rightarrow> nat \<Rightarrow> nat \<Rightarrow> time option \<Rightarrow> time \<Rightarrow> acquire_start \<times> bucket" where
  "bucket_acquire acquire_timeout b0 loop waiter deadline now =
     (let b = bucket_rebind_loop b0 loop
      in if has_free_slot b then (Sent, take_slot b)
         else case queue_wait acquire_timeout deadline now of
             (wait, deadline_bound) \<Rightarrow>
               if deadline_bound \<and> wait \<le> 0 then (Expired, b)
               else (Queued wait deadline_bound, b\<lparr>bk_waiters := bk_waiters b @ [waiter]\<rparr>))"

text \<open>The error a timed-out wait ends with.\<close>

definition bucket_timeout_error :: "bool \<Rightarrow> limiter_error" where
  "bucket_timeout_error deadline_bound =
     (if deadline_bound then UpstreamQueueWaitExpired else UpstreamSaturated)"

section \<open>Engine holds\<close>

record gate =
  eg_address :: string
  eg_limit :: int
  eg_pending :: int
  eg_waiters :: "nat list"
  eg_loop :: "nat option"
  eg_epoch :: nat

definition new_gate :: "string \<Rightarrow> gate" where
  "new_gate address =
     \<lparr>eg_address = address, eg_limit = 1, eg_pending = 0, eg_waiters = [], eg_loop = None, eg_epoch = 0\<rparr>"

definition EngineHold_init :: "int \<Rightarrow> limiter_error + int" where
  "EngineHold_init limit = (if limit < 1 then Inl LimiterValueError else Inr limit)"

definition gate_rebind_loop :: "gate \<Rightarrow> nat \<Rightarrow> gate" where
  "gate_rebind_loop g loop =
     (if eg_loop g = Some loop then g
      else g\<lparr>eg_loop := Some loop, eg_waiters := [], eg_pending := 0, eg_epoch := Suc (eg_epoch g)\<rparr>)"

definition gate_wake_waiters :: "gate \<Rightarrow> futures \<Rightarrow> gate \<times> futures" where
  "gate_wake_waiters g F =
     (case serve (eg_limit g) (eg_pending g) (eg_waiters g) F of
        (n, ws, F') \<Rightarrow> (g\<lparr>eg_pending := n, eg_waiters := ws\<rparr>, F'))"

definition gate_admits :: "gate \<Rightarrow> futures \<Rightarrow> int \<Rightarrow> bool \<times> gate \<times> futures" where
  "gate_admits g F limit =
     (case gate_wake_waiters (g\<lparr>eg_limit := limit\<rparr>) F of
        (g1, F1) \<Rightarrow> (eg_pending g1 < eg_limit g1, g1, F1))"

record admission =
  ad_bound :: bool
  ad_epoch :: nat

definition gate_grant :: "gate \<Rightarrow> admission \<times> gate" where
  "gate_grant g = (\<lparr>ad_bound = True, ad_epoch = eg_epoch g\<rparr>, g\<lparr>eg_pending := eg_pending g + 1\<rparr>)"

definition gate_give_back :: "gate \<Rightarrow> futures \<Rightarrow> nat \<Rightarrow> gate \<times> futures" where
  "gate_give_back g F epoch =
     (if epoch \<noteq> eg_epoch g then (g, F)
      else gate_wake_waiters (if 0 < eg_pending g then g\<lparr>eg_pending := eg_pending g - 1\<rparr> else g) F)"

definition gate_abandon :: "gate \<Rightarrow> futures \<Rightarrow> nat \<Rightarrow> gate \<times> futures" where
  "gate_abandon g F waiter =
     (let g1 = g\<lparr>eg_waiters := remove1 waiter (eg_waiters g)\<rparr>
      in if F waiter = FGranted then gate_give_back g1 F (eg_epoch g1) else (g1, F))"

text \<open>\<open>_EngineAdmission.release\<close>: the place goes back once.\<close>

definition admission_release :: "admission \<Rightarrow> gate \<Rightarrow> futures \<Rightarrow> admission \<times> gate \<times> futures" where
  "admission_release a g F =
     (if \<not> ad_bound a then (a, g, F) else (a\<lparr>ad_bound := False\<rparr>, gate_give_back g F (ad_epoch a)))"

text \<open>\<open>_admit_to_engine\<close> up to its \<open>await\<close>, for a dispatch that carries a hold.\<close>

definition gate_admit ::
  "time \<Rightarrow> gate \<Rightarrow> futures \<Rightarrow> nat \<Rightarrow> nat \<Rightarrow> int \<Rightarrow> time option \<Rightarrow> time \<Rightarrow>
     acquire_start \<times> gate \<times> futures" where
  "gate_admit acquire_timeout g0 F loop waiter limit deadline now =
     (case gate_admits (gate_rebind_loop g0 loop) F limit of
        (ok, g, F1) \<Rightarrow>
          if ok then (Sent, snd (gate_grant g), F1)
          else case hold_wait acquire_timeout deadline now of
              (wait, deadline_bound) \<Rightarrow>
                if deadline_bound \<and> wait \<le> 0 then (Expired, g, F1)
                else (Queued wait deadline_bound, g\<lparr>eg_waiters := eg_waiters g @ [waiter]\<rparr>,
                      F1(waiter := FPending)))"

section \<open>Slots\<close>

text \<open>An \<open>UpstreamSlot\<close>: whether it still names a bucket, its place at an engine if it has
  one, and whether it was released.\<close>

record slot =
  sl_bucket :: bool
  sl_admission :: "admission option"
  sl_released :: bool

definition UpstreamSlot_init :: "bool \<Rightarrow> admission option \<Rightarrow> slot" where
  "UpstreamSlot_init has_bucket adm =
     \<lparr>sl_bucket = has_bucket, sl_admission = adm, sl_released = (\<not> has_bucket \<and> adm = None)\<rparr>"

definition slot_held :: "slot \<Rightarrow> bool" where
  "slot_held s = (\<not> sl_released s)"

text \<open>\<open>UpstreamSlot.release\<close>: what it calls, in order, on the engine place and the bucket.\<close>

datatype release_call = CallAdmissionRelease admission | CallBucketComplete "int option"

definition slot_release :: "slot \<Rightarrow> int option \<Rightarrow> slot \<times> release_call list" where
  "slot_release s status =
     (if sl_released s then (s, [])
      else (\<lparr>sl_bucket = False, sl_admission = None, sl_released = True\<rparr>,
            (case sl_admission s of None \<Rightarrow> [] | Some a \<Rightarrow> [CallAdmissionRelease a]) @
            (if sl_bucket s then [CallBucketComplete status] else [])))"

datatype exit_exc = ExitOk | ExitHttp int | ExitException | ExitBase

definition outcome_status :: "exit_exc \<Rightarrow> int option" where
  "outcome_status e =
     (case e of ExitOk \<Rightarrow> Some 200 | ExitHttp c \<Rightarrow> Some c | ExitException \<Rightarrow> Some 0 | ExitBase \<Rightarrow> None)"

text \<open>Leaving the \<open>upstream_slot\<close> block: the release its \<open>except\<close> or \<open>else\<close> branch
  makes, then the one in \<open>finally\<close>.\<close>

definition upstream_slot_exit :: "slot \<Rightarrow> exit_exc \<Rightarrow> slot \<times> release_call list" where
  "upstream_slot_exit s e =
     (let (s1, calls1) = slot_release s (outcome_status e);
          (s2, calls2) = slot_release s1 None
      in (s2, calls1 @ calls2))"

section \<open>The limiter\<close>

record limiter =
  lm_enabled :: bool
  lm_max_limit :: int
  lm_initial_limit :: int
  lm_probe_success_interval :: int
  lm_acquire_timeout :: time
  lm_buckets :: "(string \<times> string, bucket) dict"
  lm_gates :: "(string, gate) dict"

definition Limiter_init :: "bool \<Rightarrow> int \<Rightarrow> int \<Rightarrow> int \<Rightarrow> time \<Rightarrow> limiter" where
  "Limiter_init enabled initial_limit max_limit interval timeout =
     (let mx = max 1 max_limit
      in \<lparr>lm_enabled = enabled, lm_max_limit = mx, lm_initial_limit = min mx (max 1 initial_limit),
          lm_probe_success_interval = max 1 interval, lm_acquire_timeout = timeout,
          lm_buckets = [], lm_gates = []\<rparr>)"

definition fresh_bucket :: "limiter \<Rightarrow> string \<Rightarrow> string \<Rightarrow> bucket" where
  "fresh_bucket m label fp =
     new_bucket label fp (lm_initial_limit m) (lm_max_limit m) (lm_probe_success_interval m)"

definition bucket_for ::
  "(string \<Rightarrow> string) \<Rightarrow> limiter \<Rightarrow> string \<Rightarrow> string option \<Rightarrow> (string \<times> string) \<times> bucket \<times> limiter" where
  "bucket_for sha m provider api_key =
     (let label = (if py_strip provider \<noteq> [] then py_strip provider else ''unknown'');
          fp = key_fingerprint sha api_key
      in case dict_get (lm_buckets m) (label, fp) of
          Some b \<Rightarrow> ((label, fp), b, m)
        | None \<Rightarrow>
            let b = fresh_bucket m label fp
            in ((label, fp), b, m\<lparr>lm_buckets := dict_set (label, fp) b (lm_buckets m)\<rparr>))"

definition gate_for :: "limiter \<Rightarrow> url option \<Rightarrow> string \<times> gate \<times> limiter" where
  "gate_for m base_url =
     (let address = engine_address base_url
      in case dict_get (lm_gates m) address of
          Some g \<Rightarrow> (address, g, m)
        | None \<Rightarrow> (address, new_gate address, m\<lparr>lm_gates := dict_set address (new_gate address) (lm_gates m)\<rparr>))"

text \<open>What a dispatch brings in its context: a queue deadline and an engine hold.\<close>

record dispatch_ctx =
  dc_deadline :: "time option"
  dc_hold :: "int option"

text \<open>How the first part of \<open>acquire\<close> ends: sent with an inert slot, with a bucket slot or
  an engine place; waiting in a bucket's or an engine's line; or raising.\<close>

datatype start_result =
    SentInert | SentBucket "string \<times> string" | SentEngine string
  | WaitBucket "string \<times> string" time bool | WaitEngine string time bool
  | StartRaise limiter_error

definition limiter_acquire ::
  "(string \<Rightarrow> string) \<Rightarrow> limiter \<Rightarrow> futures \<Rightarrow> nat \<Rightarrow> nat \<Rightarrow> time \<Rightarrow> dispatch_ctx \<Rightarrow>
     string \<Rightarrow> string option \<Rightarrow> url option \<Rightarrow> string option \<Rightarrow> start_result \<times> limiter \<times> futures" where
  "limiter_acquire sha m F loop waiter now ctx provider api_key base_url deployment =
     (case validate_deployment_type deployment of
        Inl e \<Rightarrow> (StartRaise e, m, F)
      | Inr d \<Rightarrow>
          if is_local_endpoint base_url d then
            (case dc_hold ctx of
               None \<Rightarrow> (SentInert, m, F)
             | Some limit \<Rightarrow>
                 (case gate_for m base_url of (address, g, m1) \<Rightarrow>
                    (case gate_admit (lm_acquire_timeout m) g F loop waiter limit (dc_deadline ctx) now of
                       (r, g1, F1) \<Rightarrow>
                         (case r of Sent \<Rightarrow> SentEngine address
                            | Queued w bd \<Rightarrow> WaitEngine address w bd
                            | Expired \<Rightarrow> StartRaise UpstreamQueueWaitExpired,
                          m1\<lparr>lm_gates := dict_set address g1 (lm_gates m1)\<rparr>, F1))))
          else if \<not> lm_enabled m then (SentInert, m, F)
          else
            (case bucket_for sha m provider api_key of (key, b, m1) \<Rightarrow>
               (case bucket_acquire (lm_acquire_timeout m) b loop waiter (dc_deadline ctx) now of
                  (r, b1) \<Rightarrow>
                    (case r of Sent \<Rightarrow> SentBucket key
                       | Queued w bd \<Rightarrow> WaitBucket key w bd
                       | Expired \<Rightarrow> StartRaise UpstreamQueueWaitExpired,
                     m1\<lparr>lm_buckets := dict_set key b1 (lm_buckets m1)\<rparr>,
                     case r of Queued _ _ \<Rightarrow> F(waiter := FPending) | _ \<Rightarrow> F))))"

definition limiter_snapshot ::
  "limiter \<Rightarrow> (string \<times> string, int \<times> int \<times> nat \<times> int \<times> bool) dict" where
  "limiter_snapshot m =
     map (\<lambda>(k, b). (k, (bk_limit b, bk_in_flight b, length (bk_waiters b),
                         bk_successes_since_probe b, bk_probing b))) (lm_buckets m)"

section \<open>Tasks at one bucket\<close>

text \<open>The tasks of one event loop at one bucket. \<open>BCancel\<close> is the timeout or the
  cancellation of a waiting task reaching its future first, \<open>BUnwind\<close> the task then running
  its \<open>except\<close> clause; a task granted in the same tick unwinds with its future granted.
  Releasing again changes nothing (\<open>UpstreamSlot.release\<close>).\<close>

record bsys =
  bs_bucket :: bucket
  bs_fut :: futures
  bs_task :: "nat \<Rightarrow> task"
  bs_next :: nat

datatype bevent =
    BArrive "time option" time
  | BCancel nat
  | BResume nat
  | BUnwind nat
  | BRelease nat "int option"

fun bucket_event :: "time \<Rightarrow> nat \<Rightarrow> bsys \<Rightarrow> bevent \<Rightarrow> bsys option" where
  "bucket_event timeout loop s (BArrive deadline now) =
     (case bucket_acquire timeout (bs_bucket s) loop (bs_next s) deadline now of
        (r, b) \<Rightarrow>
          Some (case r of
              Sent \<Rightarrow> s\<lparr>bs_bucket := b, bs_task := (bs_task s)(bs_next s := THold),
                         bs_next := Suc (bs_next s)\<rparr>
            | Queued _ _ \<Rightarrow> s\<lparr>bs_bucket := b, bs_fut := (bs_fut s)(bs_next s := FPending),
                         bs_task := (bs_task s)(bs_next s := TWait), bs_next := Suc (bs_next s)\<rparr>
            | Expired \<Rightarrow> s\<lparr>bs_bucket := b\<rparr>))"
| "bucket_event timeout loop s (BCancel t) =
     (if bs_task s t = TWait \<and> bs_fut s t = FPending
      then Some (s\<lparr>bs_fut := (bs_fut s)(t := FCancelled)\<rparr>) else None)"
| "bucket_event timeout loop s (BResume t) =
     (if bs_task s t = TWait \<and> bs_fut s t = FGranted
      then Some (s\<lparr>bs_task := (bs_task s)(t := THold)\<rparr>) else None)"
| "bucket_event timeout loop s (BUnwind t) =
     (if bs_task s t = TWait \<and> bs_fut s t \<noteq> FPending
      then (case bucket_abandon (bs_bucket s) (bs_fut s) t of
              (b, F) \<Rightarrow> Some (s\<lparr>bs_bucket := b, bs_fut := F, bs_task := (bs_task s)(t := TLeft)\<rparr>))
      else None)"
| "bucket_event timeout loop s (BRelease t status) =
     (if bs_task s t = THold
      then (case bucket_complete (bs_bucket s) (bs_fut s) status of
              (b, F) \<Rightarrow> Some (s\<lparr>bs_bucket := b, bs_fut := F, bs_task := (bs_task s)(t := TDone)\<rparr>))
      else if bs_task s t = TDone then Some s else None)"

definition new_bsys :: "bucket \<Rightarrow> nat \<Rightarrow> bsys" where
  "new_bsys b loop =
     \<lparr>bs_bucket = bucket_rebind_loop b loop, bs_fut = (\<lambda>_. FPending), bs_task = (\<lambda>_. TNew), bs_next = 0\<rparr>"

definition bline :: "bsys \<Rightarrow> line" where
  "bline s = \<lparr>ln_used = bk_in_flight (bs_bucket s), ln_cap = bk_limit (bs_bucket s),
              ln_queue = bk_waiters (bs_bucket s), ln_fut = bs_fut s, ln_task = bs_task s,
              ln_next = bs_next s\<rparr>"

text \<open>What AIMD keeps of a bucket.\<close>

definition bucket_ok :: "nat \<Rightarrow> int \<Rightarrow> bucket \<Rightarrow> bool" where
  "bucket_ok loop m b \<longleftrightarrow>
     bk_loop b = Some loop \<and> bk_max_limit b = m \<and> 1 \<le> bk_limit b \<and> bk_limit b \<le> m \<and>
     1 \<le> bk_probe_success_interval b \<and>
     0 \<le> bk_successes_since_probe b \<and> bk_successes_since_probe b < bk_probe_success_interval b"

section \<open>Tasks at one engine\<close>

text \<open>The tasks of one event loop at one local engine. \<open>GOverflow\<close> is the timed-out wait of
  a dispatch with no deadline, which is sent past the limit; \<open>GGiveUp\<close> the first-token
  report or the slot's release, whichever comes first and as often as both come.\<close>

record gsys =
  gs_gate :: gate
  gs_fut :: futures
  gs_task :: "nat \<Rightarrow> task"
  gs_place :: "nat \<Rightarrow> admission option"
  gs_next :: nat

datatype gevent =
    GArrive int "time option" time
  | GCancel nat
  | GResume nat
  | GUnwind nat
  | GOverflow nat
  | GGiveUp nat

text \<open>\<open>_EngineAdmission(gate)\<close>, the place of a dispatch that was woken.\<close>

definition EngineAdmission_init :: "gate \<Rightarrow> admission" where
  "EngineAdmission_init g = \<lparr>ad_bound = True, ad_epoch = eg_epoch g\<rparr>"

fun gate_event :: "time \<Rightarrow> nat \<Rightarrow> gsys \<Rightarrow> gevent \<Rightarrow> gsys option" where
  "gate_event timeout loop s (GArrive limit deadline now) =
     (case gate_admit timeout (gs_gate s) (gs_fut s) loop (gs_next s) limit deadline now of
        (r, g, F) \<Rightarrow>
          Some (case r of
              Sent \<Rightarrow> s\<lparr>gs_gate := g, gs_fut := F, gs_task := (gs_task s)(gs_next s := THold),
                         gs_place := (gs_place s)(gs_next s := Some (EngineAdmission_init g)),
                         gs_next := Suc (gs_next s)\<rparr>
            | Queued _ _ \<Rightarrow> s\<lparr>gs_gate := g, gs_fut := F, gs_task := (gs_task s)(gs_next s := TWait),
                         gs_next := Suc (gs_next s)\<rparr>
            | Expired \<Rightarrow> s\<lparr>gs_gate := g, gs_fut := F\<rparr>))"
| "gate_event timeout loop s (GCancel t) =
     (if gs_task s t = TWait \<and> gs_fut s t = FPending
      then Some (s\<lparr>gs_fut := (gs_fut s)(t := FCancelled)\<rparr>) else None)"
| "gate_event timeout loop s (GResume t) =
     (if gs_task s t = TWait \<and> gs_fut s t = FGranted
      then Some (s\<lparr>gs_task := (gs_task s)(t := THold),
                   gs_place := (gs_place s)(t := Some (EngineAdmission_init (gs_gate s)))\<rparr>) else None)"
| "gate_event timeout loop s (GUnwind t) =
     (if gs_task s t = TWait \<and> gs_fut s t \<noteq> FPending
      then (case gate_abandon (gs_gate s) (gs_fut s) t of
              (g, F) \<Rightarrow> Some (s\<lparr>gs_gate := g, gs_fut := F, gs_task := (gs_task s)(t := TLeft)\<rparr>))
      else None)"
| "gate_event timeout loop s (GOverflow t) =
     (if gs_task s t = TWait \<and> gs_fut s t \<noteq> FPending
      then (case gate_abandon (gs_gate s) (gs_fut s) t of
              (g, F) \<Rightarrow> (case gate_grant g of (a, g1) \<Rightarrow>
                 Some (s\<lparr>gs_gate := g1, gs_fut := F, gs_task := (gs_task s)(t := THold),
                          gs_place := (gs_place s)(t := Some a)\<rparr>)))
      else None)"
| "gate_event timeout loop s (GGiveUp t) =
     (case gs_place s t of
        None \<Rightarrow> None
      | Some a \<Rightarrow>
          (case admission_release a (gs_gate s) (gs_fut s) of (a1, g, F) \<Rightarrow>
             Some (s\<lparr>gs_gate := g, gs_fut := F, gs_task := (gs_task s)(t := TDone),
                     gs_place := (gs_place s)(t := Some a1)\<rparr>)))"

definition new_gsys :: "gate \<Rightarrow> nat \<Rightarrow> gsys" where
  "new_gsys g loop =
     \<lparr>gs_gate = gate_rebind_loop g loop, gs_fut = (\<lambda>_. FPending), gs_task = (\<lambda>_. TNew),
      gs_place = (\<lambda>_. None), gs_next = 0\<rparr>"

definition gline :: "gsys \<Rightarrow> line" where
  "gline s = \<lparr>ln_used = eg_pending (gs_gate s), ln_cap = eg_limit (gs_gate s),
              ln_queue = eg_waiters (gs_gate s), ln_fut = gs_fut s, ln_task = gs_task s,
              ln_next = gs_next s\<rparr>"

text \<open>A task has a place exactly when it was sent, and its place is bound, in this epoch,
  exactly while it counts.\<close>

definition place_ok :: "nat \<Rightarrow> task \<Rightarrow> admission option \<Rightarrow> bool" where
  "place_ok epoch T P =
     (case P of
        None \<Rightarrow> T \<noteq> THold \<and> T \<noteq> TDone
      | Some a \<Rightarrow> ad_epoch a = epoch \<and> T = (if ad_bound a then THold else TDone))"

definition places_match :: "nat \<Rightarrow> gsys \<Rightarrow> bool" where
  "places_match loop s \<longleftrightarrow>
     eg_loop (gs_gate s) = Some loop \<and>
     (\<forall>t. place_ok (eg_epoch (gs_gate s)) (gs_task s t) (gs_place s t))"

section \<open>Buckets implement the line\<close>

lemma wake_is_serve:
  "bucket_wake_waiters b F = (b', F') \<Longrightarrow>
     bline \<lparr>bs_bucket = b', bs_fut = F', bs_task = T, bs_next = n\<rparr> =
       line_serve (bline \<lparr>bs_bucket = b, bs_fut = F, bs_task = T, bs_next = n\<rparr>)"
  by (auto simp: bucket_wake_waiters_def line_serve_def bline_def split: prod.splits)

lemma wake_keeps_ok [simp]: "bucket_ok loop m (fst (bucket_wake_waiters b F)) = bucket_ok loop m b"
  by (auto simp: bucket_wake_waiters_def bucket_ok_def split: prod.splits)

lemma adapt_keeps_ok: "bucket_ok loop m b \<Longrightarrow> bucket_ok loop m (bucket_adapt b st)"
  by (auto simp: bucket_ok_def bucket_adapt_def bucket_decrease_def bucket_count_success_def Let_def)

lemma adapt_fields [simp]:
  "bk_in_flight (bucket_adapt b st) = bk_in_flight b" "bk_waiters (bucket_adapt b st) = bk_waiters b"
  "bucket_adapt (b\<lparr>bk_in_flight := n\<rparr>) st = (bucket_adapt b st)\<lparr>bk_in_flight := n\<rparr>"
  "bucket_adapt (b\<lparr>bk_waiters := ws\<rparr>) st = (bucket_adapt b st)\<lparr>bk_waiters := ws\<rparr>"
  by (auto simp: bucket_adapt_def bucket_decrease_def bucket_count_success_def Let_def)

lemma adapt_None [simp]: "bucket_adapt b None = b"
  by (simp add: bucket_adapt_def)

lemma complete_alt:
  "bucket_complete b F st =
     bucket_wake_waiters ((bucket_adapt b st)\<lparr>bk_in_flight := dec (bk_in_flight b)\<rparr>) F"
proof -
  have same: "(bucket_adapt b st)\<lparr>bk_in_flight := bk_in_flight b\<rparr> = bucket_adapt b st"
    using adapt_fields(1) [of b st] by (cases "bucket_adapt b st") simp
  show ?thesis by (simp add: bucket_complete_def dec_def Let_def same)
qed

lemma complete_refines:
  assumes "bucket_complete b F st = (b', F')"
  shows "bline \<lparr>bs_bucket = b', bs_fut = F', bs_task = T, bs_next = n\<rparr> =
         line_serve ((bline \<lparr>bs_bucket = b, bs_fut = F, bs_task = T, bs_next = n\<rparr>)
           \<lparr>ln_used := dec (bk_in_flight b), ln_cap := bk_limit (bucket_adapt b st)\<rparr>)"
  using wake_is_serve [OF assms [unfolded complete_alt]] by (simp add: bline_def)

lemma complete_keeps_ok:
  "bucket_ok loop m b \<Longrightarrow> bucket_ok loop m (fst (bucket_complete b F st))"
  using adapt_keeps_ok [of loop m b st] by (simp add: complete_alt) (simp add: bucket_ok_def)

lemma abandon_keeps_ok:
  "bucket_ok loop m b \<Longrightarrow> bucket_ok loop m (fst (bucket_abandon b F t))"
  using complete_keeps_ok [of loop m "b\<lparr>bk_waiters := remove1 t (bk_waiters b)\<rparr>" F None]
  by (auto simp: bucket_abandon_def Let_def bucket_ok_def)

lemma acquire_same_loop:
  "bk_loop b = Some loop \<Longrightarrow>
   bucket_acquire timeout b loop w deadline now =
     (if has_free_slot b then (Sent, take_slot b)
      else case queue_wait timeout deadline now of (wait, bound) \<Rightarrow>
        if bound \<and> wait \<le> 0 then (Expired, b)
        else (Queued wait bound, b\<lparr>bk_waiters := bk_waiters b @ [w]\<rparr>))"
  by (simp add: bucket_acquire_def bucket_rebind_loop_def)

text \<open>One event at a bucket, and the event of the line it implements. A dispatch whose
  deadline had passed on arrival, and a release after the first, leave the line alone.\<close>

fun bmatch :: "bsys \<Rightarrow> bevent \<Rightarrow> levent" where
  "bmatch s (BArrive _ _) = LJoin"
| "bmatch s (BCancel t) = LCancel t"
| "bmatch s (BResume t) = LResume t"
| "bmatch s (BUnwind t) = LUnwind t"
| "bmatch s (BRelease t st) = LFinish t (bk_limit (bucket_adapt (bs_bucket s) st))"

lemma bucket_event_refines:
  assumes ok: "bucket_ok loop m (bs_bucket s)" and step: "bucket_event timeout loop s e = Some s'"
  shows "bline s' = bline s \<or> line_step (bline s) (bmatch s e) = Some (bline s') \<and> cap_event m (bmatch s e)"
proof (cases e)
  case (BArrive deadline now)
  then show ?thesis
    using ok step
    by (auto simp: acquire_same_loop bucket_ok_def has_free_slot_def take_slot_def bline_def cap_event_def
        split: if_splits prod.splits)
next
  case (BUnwind t)
  obtain b F where ab: "bucket_abandon (bs_bucket s) (bs_fut s) t = (b, F)" by (cases "bucket_abandon (bs_bucket s) (bs_fut s) t")
  with step BUnwind have w: "bs_task s t = TWait" "bs_fut s t \<noteq> FPending"
    and s': "s' = s\<lparr>bs_bucket := b, bs_fut := F, bs_task := (bs_task s)(t := TLeft)\<rparr>"
    by (auto split: if_splits)
  show ?thesis
  proof (cases "bs_fut s t = FGranted")
    case True
    with ab have "bucket_complete ((bs_bucket s)\<lparr>bk_waiters := remove1 t (bk_waiters (bs_bucket s))\<rparr>) (bs_fut s) None = (b, F)"
      by (simp add: bucket_abandon_def)
    from complete_refines [OF this, of "(bs_task s)(t := TLeft)" "bs_next s"] show ?thesis
      using w True BUnwind by (auto simp: s' bline_def cap_event_def)
  next
    case False
    with ab w BUnwind show ?thesis by (auto simp: s' bucket_abandon_def bline_def cap_event_def)
  qed
next
  case (BRelease t st)
  show ?thesis
  proof (cases "bs_task s t = THold")
    case True
    obtain b F where ab: "bucket_complete (bs_bucket s) (bs_fut s) st = (b, F)"
      by (cases "bucket_complete (bs_bucket s) (bs_fut s) st")
    with step BRelease True have s': "s' = s\<lparr>bs_bucket := b, bs_fut := F, bs_task := (bs_task s)(t := TDone)\<rparr>"
      by simp
    have "bk_limit (bucket_adapt (bs_bucket s) st) \<le> m" using adapt_keeps_ok [OF ok] by (simp add: bucket_ok_def)
    with complete_refines [OF ab, of "(bs_task s)(t := TDone)" "bs_next s"] True BRelease show ?thesis
      by (auto simp: s' bline_def cap_event_def)
  next
    case False
    with step BRelease show ?thesis by (auto split: if_splits)
  qed
qed (use step in \<open>auto simp: bline_def cap_event_def split: if_splits\<close>)

lemma bucket_event_ok:
  assumes ok: "bucket_ok loop m (bs_bucket s)" and step: "bucket_event timeout loop s e = Some s'"
  shows "bucket_ok loop m (bs_bucket s')"
proof (cases e)
  case (BArrive deadline now)
  moreover have "bk_loop (bs_bucket s) = Some loop" using ok by (simp add: bucket_ok_def)
  ultimately show ?thesis
    using ok step by (auto simp: acquire_same_loop take_slot_def bucket_ok_def split: if_splits prod.splits)
next
  case (BUnwind t)
  with ok step abandon_keeps_ok [of loop m "bs_bucket s" "bs_fut s" t] show ?thesis
    by (auto split: if_splits prod.splits)
next
  case (BRelease t st)
  with ok step complete_keeps_ok [of loop m "bs_bucket s" "bs_fut s" st] show ?thesis
    by (auto split: if_splits prod.splits)
qed (use assms in \<open>auto split: if_splits\<close>)

interpretation bucket_sim: simulation
    "\<lambda>s e t. bucket_event timeout loop s e = Some t"
    "\<lambda>s e t. line_step s e = Some t \<and> cap_event m e"
    bline "\<lambda>s. bucket_ok loop m (bs_bucket s)"
  for timeout loop m
proof unfold_locales
  fix s e t
  assume a: "bucket_ok loop m (bs_bucket s)" "bucket_event timeout loop s e = Some t"
  show "bucket_ok loop m (bs_bucket t)" using a by (rule bucket_event_ok)
  show "\<exists>fs. reach (\<lambda>s e t. line_step s e = Some t \<and> cap_event m e) (bline s) fs (bline t)"
    using bucket_event_refines [OF a]
  proof
    assume "bline t = bline s"
    then show ?thesis by (auto intro!: exI [of _ "[]"] reach_refl)
  next
    assume "line_step (bline s) (bmatch s e) = Some (bline t) \<and> cap_event m (bmatch s e)"
    then show ?thesis by (intro exI [of _ "[bmatch s e]"] reach_one)
  qed
qed

lemma cap_event_unforced: "cap_event m e \<Longrightarrow> unforced e"
  by (cases e) (auto simp: cap_event_def unforced_def)

text \<open>What a line gives its user when started empty.\<close>

lemma line_run_sound:
  assumes "reach (\<lambda>s e t. line_step s e = Some t \<and> cap_event m e) (empty_line c) es s" "c \<le> m" "0 \<le> m"
  shows "line_books s" "no_idle_place s" "no_overtaking s" "ln_used s \<le> m"
proof -
  have "reach (\<lambda>s e t. line_step s e = Some t \<and> unforced e) (empty_line c) es s"
    by (rule reach_mono [OF assms(1)]) (auto intro: cap_event_unforced)
  from fifo.reach_keeps [OF this] empty_line_books empty_line_order
  show "line_books s" "no_idle_place s" "no_overtaking s" by auto
  from capped.reach_keeps [OF assms(1)] assms(2,3) show "ln_used s \<le> m"
    by (simp add: within_cap_def empty_line_def)
qed

lemma bline_new: "bk_waiters b = [] \<Longrightarrow> bk_in_flight b = 0 \<Longrightarrow> bline (new_bsys b loop) = empty_line (bk_limit b)"
  by (auto simp: bline_def new_bsys_def empty_line_def bucket_rebind_loop_def)

section \<open>Engine holds implement the line\<close>

lemma serve_fills: "serve cap used q F = (n, q', F') \<Longrightarrow> q' = [] \<or> cap \<le> n"
  by (induction cap used q F rule: serve.induct) (auto split: if_splits)

lemma gate_wake_fields:
  "gate_wake_waiters g F = (g', F') \<Longrightarrow>
     eg_loop g' = eg_loop g \<and> eg_epoch g' = eg_epoch g \<and> eg_limit g' = eg_limit g \<and>
     (eg_waiters g' = [] \<or> eg_limit g \<le> eg_pending g')"
  by (auto simp: gate_wake_waiters_def dest: serve_fills split: prod.splits)

lemma gate_wake_is_serve:
  "gate_wake_waiters g F = (g', F') \<Longrightarrow>
     gline \<lparr>gs_gate = g', gs_fut = F', gs_task = T, gs_place = P, gs_next = n\<rparr> =
       line_serve (gline \<lparr>gs_gate = g, gs_fut = F, gs_task = T, gs_place = P, gs_next = n\<rparr>)"
  by (auto simp: gate_wake_waiters_def line_serve_def gline_def split: prod.splits)

lemma give_back_alt:
  "gate_give_back g F (eg_epoch g) = gate_wake_waiters (g\<lparr>eg_pending := dec (eg_pending g)\<rparr>) F"
  by (simp add: gate_give_back_def dec_def)

lemma abandon_fields:
  "gate_abandon g F t = (g', F') \<Longrightarrow> eg_loop g' = eg_loop g \<and> eg_epoch g' = eg_epoch g"
  by (auto simp: gate_abandon_def Let_def give_back_alt [of "g\<lparr>eg_waiters := ws\<rparr>" for ws, simplified]
      dest: gate_wake_fields split: if_splits)

lemma gate_abandon_refines:
  assumes w: "gs_task s t = TWait" "gs_fut s t \<noteq> FPending"
    and ab: "gate_abandon (gs_gate s) (gs_fut s) t = (g, F)"
  shows "line_step (gline s) (LUnwind t) =
         Some (gline (s\<lparr>gs_gate := g, gs_fut := F, gs_task := (gs_task s)(t := TLeft)\<rparr>))"
proof (cases "gs_fut s t = FGranted")
  case True
  with ab have "gate_wake_waiters ((gs_gate s)\<lparr>eg_waiters := remove1 t (eg_waiters (gs_gate s)),
      eg_pending := dec (eg_pending (gs_gate s))\<rparr>) (gs_fut s) = (g, F)"
    using give_back_alt [of "(gs_gate s)\<lparr>eg_waiters := remove1 t (eg_waiters (gs_gate s))\<rparr>" "gs_fut s"]
    by (simp add: gate_abandon_def)
  from gate_wake_is_serve [OF this, of "(gs_task s)(t := TLeft)" "gs_place s" "gs_next s"] True w show ?thesis
    by (simp add: gline_def)
next
  case False
  with ab w show ?thesis by (auto simp: gate_abandon_def gline_def)
qed

lemma gate_admit_same_loop:
  assumes "eg_loop g = Some loop" "gate_wake_waiters (g\<lparr>eg_limit := limit\<rparr>) F = (g1, F1)"
  shows "gate_admit timeout g F loop w limit deadline now =
    (if eg_pending g1 < limit then (Sent, g1\<lparr>eg_pending := eg_pending g1 + 1\<rparr>, F1)
     else case hold_wait timeout deadline now of (wait, bound) \<Rightarrow>
       if bound \<and> wait \<le> 0 then (Expired, g1, F1)
       else (Queued wait bound, g1\<lparr>eg_waiters := eg_waiters g1 @ [w]\<rparr>, F1(w := FPending)))"
  using assms gate_wake_fields [OF assms(2)]
  by (simp add: gate_admit_def gate_rebind_loop_def gate_admits_def gate_grant_def)

text \<open>The events of the line that one event at an engine implements.\<close>

fun gmatch :: "time \<Rightarrow> nat \<Rightarrow> gsys \<Rightarrow> gevent \<Rightarrow> levent list" where
  "gmatch timeout loop s (GArrive limit deadline now) =
     LCap limit # (case fst (gate_admit timeout (gs_gate s) (gs_fut s) loop (gs_next s) limit deadline now) of
        Expired \<Rightarrow> [] | _ \<Rightarrow> [LJoin])"
| "gmatch timeout loop s (GCancel t) = [LCancel t]"
| "gmatch timeout loop s (GResume t) = [LResume t]"
| "gmatch timeout loop s (GUnwind t) = [LUnwind t]"
| "gmatch timeout loop s (GOverflow t) = [LUnwind t, LForce t]"
| "gmatch timeout loop s (GGiveUp t) =
     (if gs_task s t = THold then [LFinish t (eg_limit (gs_gate s))] else [])"

lemma gate_arrive_refines:
  assumes ok: "places_match loop s" and step: "gate_event timeout loop s (GArrive limit deadline now) = Some s'"
  shows "steps line_step (gline s) (gmatch timeout loop s (GArrive limit deadline now)) = Some (gline s')"
proof -
  obtain g1 F1 where wk: "gate_wake_waiters ((gs_gate s)\<lparr>eg_limit := limit\<rparr>) (gs_fut s) = (g1, F1)"
    by (cases "gate_wake_waiters ((gs_gate s)\<lparr>eg_limit := limit\<rparr>) (gs_fut s)")
  have lp: "eg_loop (gs_gate s) = Some loop" using ok by (simp add: places_match_def)
  note adm = gate_admit_same_loop [OF lp wk]
  have cap: "line_step (gline s) (LCap limit) = Some (gline (s\<lparr>gs_gate := g1, gs_fut := F1\<rparr>))"
    using gate_wake_is_serve [OF wk, of "gs_task s" "gs_place s" "gs_next s"] by (simp add: gline_def)
  from gate_wake_fields [OF wk] have f: "eg_limit g1 = limit" "eg_waiters g1 = [] \<or> limit \<le> eg_pending g1"
    by auto
  obtain wait bd where hw: "hold_wait timeout deadline now = (wait, bd)" by fastforce
  have first: "steps line_step (gline s) (LCap limit # es) = steps line_step (gline (s\<lparr>gs_gate := g1, gs_fut := F1\<rparr>)) es" for es
    using cap by simp
  show ?thesis
    unfolding gmatch.simps first
    using step f by (cases "eg_pending g1 < limit"; cases "bd \<and> wait \<le> 0") (auto simp: adm hw gline_def)
qed

lemma gate_event_refines:
  assumes ok: "places_match loop s" and step: "gate_event timeout loop s e = Some s'"
  shows "steps line_step (gline s) (gmatch timeout loop s e) = Some (gline s')"
proof (cases e)
  case (GArrive limit deadline now)
  with gate_arrive_refines [OF ok] step show ?thesis by simp
next
  case (GUnwind t)
  with step gate_abandon_refines [of s t] show ?thesis
    by (auto simp: gline_def simp del: line_step.simps(5) split: if_splits prod.splits)
next
  case (GOverflow t)
  obtain g F where ab: "gate_abandon (gs_gate s) (gs_fut s) t = (g, F)"
    by (cases "gate_abandon (gs_gate s) (gs_fut s) t")
  with step GOverflow have w: "gs_task s t = TWait" "gs_fut s t \<noteq> FPending"
    and s': "gline s' = (gline (s\<lparr>gs_gate := g, gs_fut := F, gs_task := (gs_task s)(t := TLeft)\<rparr>))
        \<lparr>ln_used := eg_pending g + 1, ln_task := (gs_task s)(t := THold)\<rparr>"
    by (auto simp: gate_grant_def gline_def split: if_splits)
  show ?thesis
    using gate_abandon_refines [OF w ab] GOverflow
    by (auto simp: s' simp del: line_step.simps(5)) (simp_all add: gline_def)
next
  case (GGiveUp t)
  with step obtain a where a: "gs_place s t = Some a" by (auto split: option.splits)
  with ok have ep: "ad_epoch a = eg_epoch (gs_gate s)" "gs_task s t = (if ad_bound a then THold else TDone)"
    by (auto simp: places_match_def place_ok_def dest!: spec [of _ t])
  show ?thesis
  proof (cases "ad_bound a")
    case True
    obtain g F where wk: "gate_wake_waiters ((gs_gate s)\<lparr>eg_pending := dec (eg_pending (gs_gate s))\<rparr>) (gs_fut s) = (g, F)"
      by (cases "gate_wake_waiters ((gs_gate s)\<lparr>eg_pending := dec (eg_pending (gs_gate s))\<rparr>) (gs_fut s)")
    with step GGiveUp a True ep have "gline s' = gline \<lparr>gs_gate = g, gs_fut = F, gs_task = (gs_task s)(t := TDone),
        gs_place = gs_place s, gs_next = gs_next s\<rparr>"
      by (auto simp: admission_release_def give_back_alt gline_def)
    with gate_wake_is_serve [OF wk, of "(gs_task s)(t := TDone)" "gs_place s" "gs_next s"] GGiveUp True ep
    show ?thesis by (simp add: gline_def)
  next
    case False
    with step GGiveUp a ep have "gline s' = gline s"
      by (auto simp: admission_release_def gline_def fun_upd_idem)
    with False GGiveUp ep show ?thesis by simp
  qed
qed (use step in \<open>auto simp: gline_def split: if_splits\<close>)

text \<open>An event that touches at most one task's state and place keeps the places matched.\<close>

lemma places_match_upd:
  assumes "places_match loop s" "eg_loop (gs_gate s') = eg_loop (gs_gate s)"
    "eg_epoch (gs_gate s') = eg_epoch (gs_gate s)"
    "place_ok (eg_epoch (gs_gate s)) T P" "gs_task s' = (gs_task s)(t := T)" "gs_place s' = (gs_place s)(t := P)"
  shows "places_match loop s'"
  using assms by (simp add: places_match_def)

lemma places_match_same:
  "places_match loop s \<Longrightarrow> eg_loop (gs_gate s') = eg_loop (gs_gate s) \<Longrightarrow> eg_epoch (gs_gate s') = eg_epoch (gs_gate s) \<Longrightarrow>
   gs_task s' = gs_task s \<Longrightarrow> gs_place s' = gs_place s \<Longrightarrow> places_match loop s'"
  by (simp add: places_match_def)

lemma place_of_unsent:
  "places_match loop s \<Longrightarrow> gs_task s t \<noteq> THold \<Longrightarrow> gs_task s t \<noteq> TDone \<Longrightarrow> gs_place s t = None"
  by (cases "gs_place s t") (auto simp: places_match_def place_ok_def split: if_splits dest!: spec [of _ t])

lemma gate_event_places:
  assumes ok: "places_match loop s" and new: "gs_place s (gs_next s) = None"
    and step: "gate_event timeout loop s e = Some s'"
  shows "places_match loop s'"
proof (cases e)
  case (GArrive limit deadline now)
  obtain g1 F1 where wk: "gate_wake_waiters ((gs_gate s)\<lparr>eg_limit := limit\<rparr>) (gs_fut s) = (g1, F1)"
    by (cases "gate_wake_waiters ((gs_gate s)\<lparr>eg_limit := limit\<rparr>) (gs_fut s)")
  have lp: "eg_loop (gs_gate s) = Some loop" using ok by (simp add: places_match_def)
  note adm = gate_admit_same_loop [OF lp wk]
  have f: "eg_loop g1 = eg_loop (gs_gate s)" "eg_epoch g1 = eg_epoch (gs_gate s)"
    using gate_wake_fields [OF wk] by auto
  consider (sent) "s' = s\<lparr>gs_gate := g1\<lparr>eg_pending := eg_pending g1 + 1\<rparr>, gs_fut := F1,
      gs_task := (gs_task s)(gs_next s := THold),
      gs_place := (gs_place s)(gs_next s := Some (EngineAdmission_init (g1\<lparr>eg_pending := eg_pending g1 + 1\<rparr>))),
      gs_next := Suc (gs_next s)\<rparr>"
    | (queued) "s' = s\<lparr>gs_gate := g1\<lparr>eg_waiters := eg_waiters g1 @ [gs_next s]\<rparr>, gs_fut := F1(gs_next s := FPending),
      gs_task := (gs_task s)(gs_next s := TWait), gs_next := Suc (gs_next s)\<rparr>"
    | (expired) "s' = s\<lparr>gs_gate := g1, gs_fut := F1\<rparr>"
    using step GArrive by (auto simp: adm split: if_splits prod.splits)
  then show ?thesis
  proof cases
    case sent
    then show ?thesis using f
      by (intro places_match_upd [OF ok, of s' THold "gs_place s' (gs_next s)" "gs_next s"])
        (auto simp: EngineAdmission_init_def place_ok_def)
  next
    case queued
    then show ?thesis using f new
      by (intro places_match_upd [OF ok, of s' TWait None "gs_next s"]) (auto simp: fun_eq_iff place_ok_def)
  next
    case expired
    then show ?thesis using f by (intro places_match_same [OF ok]) auto
  qed
next
  case (GCancel t)
  with step show ?thesis by (intro places_match_same [OF ok]) (auto split: if_splits)
next
  case (GResume t)
  with step show ?thesis
    by (intro places_match_upd [OF ok, of s' THold "Some (EngineAdmission_init (gs_gate s))" t])
      (auto simp: EngineAdmission_init_def place_ok_def split: if_splits)
next
  case (GUnwind t)
  with step show ?thesis using abandon_fields place_of_unsent [OF ok, of t]
    by (intro places_match_upd [OF ok, of s' TLeft None t])
      (auto simp: fun_eq_iff place_ok_def split: if_splits prod.splits)
next
  case (GOverflow t)
  with step show ?thesis using abandon_fields
    by (intro places_match_upd [OF ok, of s' THold "gs_place s' t" t])
      (fastforce simp: gate_grant_def place_ok_def split: if_splits prod.splits)+
next
  case (GGiveUp t)
  with step obtain a where a: "gs_place s t = Some a" by (auto split: option.splits)
  with ok have ep: "ad_epoch a = eg_epoch (gs_gate s)"
    by (auto simp: places_match_def place_ok_def dest!: spec [of _ t])
  with step GGiveUp a show ?thesis
    by (intro places_match_upd [OF ok, of s' TDone "gs_place s' t" t])
      (auto simp: admission_release_def place_ok_def give_back_alt dest!: gate_wake_fields split: if_splits prod.splits)
qed

text \<open>The invariant of the simulation also says that the next task has no place yet.\<close>

definition gate_inv :: "nat \<Rightarrow> gsys \<Rightarrow> bool" where
  "gate_inv loop s \<longleftrightarrow> places_match loop s \<and> line_books (gline s) \<and> no_idle_place (gline s)"

lemma gate_inv_new: "gate_inv loop s \<Longrightarrow> gs_place s (gs_next s) = None"
  by (rule place_of_unsent [of loop]) (auto simp: gate_inv_def line_books_def gline_def dest: spec [of _ "gs_next s"])

lemma gate_event_inv:
  assumes inv: "gate_inv loop s" and step: "gate_event timeout loop s e = Some s'"
  shows "gate_inv loop s'"
proof -
  have "steps line_step (gline s) (gmatch timeout loop s e) = Some (gline s')"
    using gate_event_refines [OF _ step] inv by (simp add: gate_inv_def)
  then have "reach (\<lambda>s e t. line_step s e = Some t) (gline s) (gmatch timeout loop s e) (gline s')"
    by (rule steps_reach)
  from books.reach_keeps [OF this] inv gate_event_places [OF _ gate_inv_new [OF inv] step]
  show ?thesis by (simp add: gate_inv_def)
qed

definition overflows :: "gevent \<Rightarrow> bool" where
  "overflows e = (case e of GOverflow _ \<Rightarrow> True | _ \<Rightarrow> False)"

lemma gmatch_unforced: "\<not> overflows e \<Longrightarrow> list_all unforced (gmatch timeout loop s e)"
  by (cases e) (auto simp: overflows_def unforced_def split: acquire_start.splits)

text \<open>With \<open>strict\<close> nothing overflows, and then no place is forced.\<close>

interpretation gate_sim: simulation
    "\<lambda>s e t. gate_event timeout loop s e = Some t \<and> (strict \<longrightarrow> \<not> overflows e)"
    "\<lambda>s e t. line_step s e = Some t \<and> (strict \<longrightarrow> unforced e)"
    gline "gate_inv loop"
  for timeout loop strict
proof unfold_locales
  fix s e t
  assume inv: "gate_inv loop s" and a: "gate_event timeout loop s e = Some t \<and> (strict \<longrightarrow> \<not> overflows e)"
  show "gate_inv loop t" using gate_event_inv [OF inv] a by blast
  have "steps line_step (gline s) (gmatch timeout loop s e) = Some (gline t)"
    using gate_event_refines a inv by (auto simp: gate_inv_def)
  then have "reach (\<lambda>s e t. line_step s e = Some t \<and> (strict \<longrightarrow> unforced e)) (gline s) (gmatch timeout loop s e) (gline t)"
    using gmatch_unforced a by (intro reach_steps) (auto simp: list_all_iff)
  then show "\<exists>fs. reach (\<lambda>s e t. line_step s e = Some t \<and> (strict \<longrightarrow> unforced e)) (gline s) fs (gline t)" ..
qed

lemma gline_new: "eg_waiters g = [] \<Longrightarrow> eg_pending g = 0 \<Longrightarrow> gline (new_gsys g loop) = empty_line (eg_limit g)"
  by (auto simp: gline_def new_gsys_def empty_line_def gate_rebind_loop_def)

lemma gate_inv_init: "eg_waiters g = [] \<Longrightarrow> eg_pending g = 0 \<Longrightarrow> gate_inv loop (new_gsys g loop)"
  unfolding gate_inv_def using empty_line_books [of "eg_limit g"]
  by (simp add: gline_new) (simp add: places_match_def place_ok_def new_gsys_def gate_rebind_loop_def)

section \<open>Properties\<close>

lemma fresh_bucket_ok:
  "bucket_ok loop (max 1 mx) (bs_bucket (new_bsys (fresh_bucket (Limiter_init en ini mx iv to) label fp) loop))"
  by (simp add: bucket_ok_def new_bsys_def fresh_bucket_def new_bucket_def bucket_rebind_loop_def
      Limiter_init_def Let_def)

lemma bline_sel [simp]:
  "ln_used (bline s) = bk_in_flight (bs_bucket s)" "ln_cap (bline s) = bk_limit (bs_bucket s)"
  "ln_queue (bline s) = bk_waiters (bs_bucket s)" "ln_fut (bline s) = bs_fut s" "ln_task (bline s) = bs_task s"
  by (simp_all add: bline_def)

lemma gline_sel [simp]:
  "ln_used (gline s) = eg_pending (gs_gate s)" "ln_cap (gline s) = eg_limit (gs_gate s)"
  "ln_queue (gline s) = eg_waiters (gs_gate s)" "ln_fut (gline s) = gs_fut s" "ln_task (gline s) = gs_task s"
  by (simp_all add: gline_def)

lemma books_count: "line_books s \<Longrightarrow> ln_used s = int (card {t. owns s t})"
  by (simp add: line_books_def)

lemma bucket_run_sound:
  assumes "steps (bucket_event timeout loop)
      (new_bsys (fresh_bucket (Limiter_init en ini mx iv to) label fp) loop) es = Some s"
  shows "bucket_ok loop (max 1 mx) (bs_bucket s)" "line_books (bline s)" "no_idle_place (bline s)"
    "no_overtaking (bline s)" "ln_used (bline s) \<le> max 1 mx"
proof -
  let ?b = "fresh_bucket (Limiter_init en ini mx iv to) label fp"
  have "bk_waiters ?b = []" "bk_in_flight ?b = 0" and l: "bk_limit ?b \<le> max 1 mx"
    by (auto simp: fresh_bucket_def new_bucket_def Limiter_init_def Let_def)
  note new = bline_new [OF this(1,2), of loop]
  from bucket_sim.run_simulated [OF steps_reach [OF assms] fresh_bucket_ok] obtain fs where
    r: "reach (\<lambda>s e t. line_step s e = Some t \<and> cap_event (max 1 mx) e) (empty_line (bk_limit ?b)) fs (bline s)"
    and "bucket_ok loop (max 1 mx) (bs_bucket s)" using new by auto
  then show "bucket_ok loop (max 1 mx) (bs_bucket s)" by simp
  show "line_books (bline s)" "no_idle_place (bline s)" "no_overtaking (bline s)" "ln_used (bline s) \<le> max 1 mx"
    using line_run_sound [OF r l] by auto
qed

text \<open>C3. Whatever settings the limiter is built from and whatever order arrivals, timeouts,
  cancellations, wake-ups and releases of a bucket's tasks come in: the limit stays between
  1 and the configured maximum, \<open>in_flight\<close> is exactly the number of tasks that hold a slot or
  were granted one (none is lost when a timeout and a grant meet in one tick), it never
  exceeds the maximum, and nobody waits while a slot is free.\<close>

theorem bucket_accounting:
  assumes "steps (bucket_event timeout loop)
      (new_bsys (fresh_bucket (Limiter_init en ini mx iv to) label fp) loop) es = Some s"
  shows "1 \<le> bk_limit (bs_bucket s) \<and> bk_limit (bs_bucket s) \<le> max 1 mx \<and>
    bk_in_flight (bs_bucket s) =
       int (card {t. bs_task s t = THold \<or> bs_task s t = TWait \<and> bs_fut s t = FGranted}) \<and>
    bk_in_flight (bs_bucket s) \<le> max 1 mx \<and>
    (bk_waiters (bs_bucket s) = [] \<or> bk_limit (bs_bucket s) \<le> bk_in_flight (bs_bucket s))"
proof -
  note r = bucket_run_sound [OF assms]
  have "bk_in_flight (bs_bucket s) =
       int (card {t. bs_task s t = THold \<or> bs_task s t = TWait \<and> bs_fut s t = FGranted})"
    using books_count [OF r(2)] by (simp add: owns_def)
  moreover have "bk_waiters (bs_bucket s) = [] \<or> bk_limit (bs_bucket s) \<le> bk_in_flight (bs_bucket s)"
    using r(3) by (simp add: no_idle_place_def)
  moreover have "bk_in_flight (bs_bucket s) \<le> max 1 mx" using r(5) by simp
  ultimately show ?thesis using r(1) by (simp add: bucket_ok_def)
qed

lemmas limiter_eval = new_bsys_def fresh_bucket_def new_bucket_def Limiter_init_def Let_def bucket_acquire_def
  bucket_rebind_loop_def has_free_slot_def take_slot_def queue_wait_def bucket_abandon_def
  bucket_complete_def bucket_adapt_def bucket_decrease_def bucket_count_success_def bucket_wake_waiters_def

theorem bucket_accounting_witness:
  "\<exists>s. steps (bucket_event 30 1) (new_bsys (fresh_bucket (Limiter_init True 8 1 100 30) ''p'' ''f'') 1)
      [BArrive None 0, BArrive None 0, BArrive None 0, BRelease 0 (Some 429), BUnwind 1] = Some s \<and>
    bk_in_flight (bs_bucket s) \<le> 1 \<and> bs_fut s 2 = FGranted"
proof -
  let ?r = "steps (bucket_event 30 1) (new_bsys (fresh_bucket (Limiter_init True 8 1 100 30) ''p'' ''f'') 1)
      [BArrive None 0, BArrive None 0, BArrive None 0, BRelease 0 (Some 429), BUnwind 1]"
  have g: "map_option (\<lambda>s. bs_fut s 2) ?r = Some FGranted" by (simp add: limiter_eval)
  then obtain s where s: "?r = Some s" by (cases ?r) auto
  with g bucket_accounting [OF s] show ?thesis by auto
qed

text \<open>A bucket serves in arrival order: while a task still waits, no task that arrived
  after it holds a slot, was granted one, or has already used one.\<close>

lemma bucket_fifo:
  assumes "steps (bucket_event timeout loop)
      (new_bsys (fresh_bucket (Limiter_init en ini mx iv to) label fp) loop) es = Some s"
    and "bs_task s t = TWait" "bs_fut s t = FPending" "t < u"
  shows "bs_task s u \<noteq> THold \<and> bs_task s u \<noteq> TDone \<and> \<not> (bs_task s u = TWait \<and> bs_fut s u = FGranted)"
  using bucket_run_sound(4) [OF assms(1)] assms(2-4)
  by (auto simp: no_overtaking_def waiting_def owns_def)

text \<open>The engine hold, under any order of arrivals, timeouts, overflows, first tokens and
  slot releases: \<open>pending\<close> is exactly the number of dispatches sent or granted whose engine has
  not answered yet -- reporting a first token and then releasing the slot counts once -- and a
  dispatch only waits while the engine is at its limit. Without overflows the line is also
  strictly first come, first served.\<close>

lemma gate_accounting:
  assumes "steps (gate_event timeout loop) (new_gsys (new_gate address) loop) es = Some s"
  shows "eg_pending (gs_gate s) =
       int (card {t. gs_task s t = THold \<or> gs_task s t = TWait \<and> gs_fut s t = FGranted}) \<and>
    (eg_waiters (gs_gate s) = [] \<or> eg_limit (gs_gate s) \<le> eg_pending (gs_gate s)) \<and>
    (list_all (\<lambda>e. \<not> overflows e) es \<longrightarrow>
       (\<forall>t u. gs_task s t = TWait \<and> gs_fut s t = FPending \<and> t < u \<longrightarrow>
          gs_task s u \<noteq> THold \<and> gs_task s u \<noteq> TDone \<and> \<not> (gs_task s u = TWait \<and> gs_fut s u = FGranted)))"
proof -
  let ?g = "new_gate address"
  have fresh: "eg_waiters ?g = []" "eg_pending ?g = 0" by (simp_all add: new_gate_def)
  note new = gline_new [OF this, of loop]
  have fifo_run: "no_overtaking (gline s)" if nov: "list_all (\<lambda>e. \<not> overflows e) es"
  proof -
    have "reach (\<lambda>s e t. gate_event timeout loop s e = Some t \<and> (True \<longrightarrow> \<not> overflows e)) (new_gsys ?g loop) es s"
      using reach_steps [OF assms nov] by simp
    from gate_sim.run_simulated [OF this gate_inv_init [OF fresh]] obtain fs where
      "reach (\<lambda>s e t. line_step s e = Some t \<and> unforced e) (empty_line (eg_limit ?g)) fs (gline s)" using new by auto
    from fifo.reach_keeps [OF this] empty_line_books empty_line_order show ?thesis by auto
  qed
  have "reach (\<lambda>s e t. gate_event timeout loop s e = Some t \<and> (False \<longrightarrow> \<not> overflows e)) (new_gsys ?g loop) es s"
    using steps_reach [OF assms] by simp
  from gate_sim.run_simulated [OF this gate_inv_init [OF fresh]] have inv: "gate_inv loop s" by simp
  then have "eg_pending (gs_gate s) =
       int (card {t. gs_task s t = THold \<or> gs_task s t = TWait \<and> gs_fut s t = FGranted})"
    using books_count [of "gline s"] by (simp add: gate_inv_def owns_def)
  moreover have "eg_waiters (gs_gate s) = [] \<or> eg_limit (gs_gate s) \<le> eg_pending (gs_gate s)"
    using inv by (simp add: gate_inv_def no_idle_place_def)
  ultimately show ?thesis using fifo_run by (auto simp: no_overtaking_def waiting_def owns_def)
qed

lemmas gate_eval = new_gsys_def new_gate_def gate_rebind_loop_def gate_admit_def gate_admits_def gate_grant_def
  gate_give_back_def gate_abandon_def gate_wake_waiters_def admission_release_def hold_wait_def
  EngineAdmission_init_def Let_def

text \<open>The controller's part of a run of completions.\<close>

definition completions :: "bucket \<Rightarrow> futures \<Rightarrow> int option list \<Rightarrow> bucket" where
  "completions b F sts = fst (run (\<lambda>(b, F) st. bucket_complete b F st) (b, F) sts)"

lemma completions_simps [simp]:
  "completions b F [] = b"
  "completions b F (st # sts) = (case bucket_complete b F st of (b', F') \<Rightarrow> completions b' F' sts)"
  by (auto simp: completions_def split: prod.splits)

lemma complete_controller:
  "bucket_complete b F st = (b', F') \<Longrightarrow>
     bk_limit b' = bk_limit (bucket_adapt b st) \<and> bk_max_limit b' = bk_max_limit b \<and>
     bk_probe_success_interval b' = bk_probe_success_interval b \<and>
     bk_successes_since_probe b' = bk_successes_since_probe (bucket_adapt b st) \<and>
     bk_probing b' = bk_probing (bucket_adapt b st)"
  by (auto simp: complete_alt bucket_wake_waiters_def split: prod.splits)
    (auto simp: bucket_adapt_def bucket_decrease_def bucket_count_success_def Let_def)

lemma div_step:
  fixes k c i :: int
  assumes "0 \<le> c" "c + 1 = i"
  shows "(c + (k + 1)) div i = k div i + 1" "(c + (k + 1)) mod i = k mod i"
proof -
  have e: "c + (k + 1) = k + i" using assms by simp
  show "(c + (k + 1)) div i = k div i + 1" unfolding e using assms by (simp add: div_add_self2)
  show "(c + (k + 1)) mod i = k mod i" unfolding e by simp
qed

lemma completions_closed_form:
  assumes "Some 429 \<notin> set sts" "bucket_ok loop m b"
  shows "bk_limit (completions b F sts) =
      min m (bk_limit b + (bk_successes_since_probe b + int (count_list sts (Some 200))) div bk_probe_success_interval b) \<and>
    bk_successes_since_probe (completions b F sts) =
      (bk_successes_since_probe b + int (count_list sts (Some 200))) mod bk_probe_success_interval b"
  using assms
proof (induction sts arbitrary: b F)
  case Nil
  then show ?case by (simp add: bucket_ok_def)
next
  case (Cons st sts)
  obtain b' F' where c: "bucket_complete b F st = (b', F')" by (cases "bucket_complete b F st")
  have ok: "bucket_ok loop m b'" using complete_keeps_ok [OF Cons.prems(2), of F st] c by simp
  note IH = Cons.IH [OF _ ok, of F']
  note cc = complete_controller [OF c]
  let ?i = "bk_probe_success_interval b" and ?c = "bk_successes_since_probe b"
  let ?n = "int (count_list sts (Some 200))"
  have rng: "0 \<le> ?c" "?c < ?i" "bk_limit b \<le> m" "bk_max_limit b = m"
    using Cons.prems(2) by (auto simp: bucket_ok_def)
  show ?case
  proof (cases "st = Some 200")
    case False
    then show ?thesis using Cons.prems(1) IH c cc by (auto simp: bucket_adapt_def)
  next
    case True
    show ?thesis
    proof (cases "?c + 1 < ?i")
      case True
      then have "bk_limit b' = bk_limit b \<and> bk_successes_since_probe b' = ?c + 1"
        using cc \<open>st = Some 200\<close> by (simp add: bucket_adapt_def bucket_count_success_def Let_def)
      then show ?thesis using Cons.prems(1) IH c cc \<open>st = Some 200\<close> by (simp add: ac_simps)
    next
      case False
      then have i: "?c + 1 = ?i" using rng by simp
      have "bk_limit b' = min m (bk_limit b + 1) \<and> bk_successes_since_probe b' = 0"
        using cc i rng \<open>st = Some 200\<close> by (simp add: bucket_adapt_def bucket_count_success_def Let_def)
      moreover have "0 \<le> ?n div ?i" using rng by (simp add: pos_imp_zdiv_nonneg_iff)
      ultimately show ?thesis
        using Cons.prems(1) IH c cc \<open>st = Some 200\<close> div_step [OF rng(1) i, of ?n] by (auto simp: ac_simps)
    qed
  qed
qed

text \<open>C6. Additive increase, in closed form. As long as no 429 comes back, the limit has grown by one
  for every \<open>probe_success_interval\<close> responses with status 200, capped at the maximum, and by
  nothing else: errors, timeouts and neutral releases neither earn a probe nor cancel progress
  toward one. One 429 after that takes the limit down by one, to no less than 1, and restarts
  the count.\<close>

theorem aimd_closed_form:
  assumes "Some 429 \<notin> set sts" "bucket_ok loop m b"
    and k: "k = bk_successes_since_probe b + int (count_list sts (Some 200))"
  shows "bk_limit (completions b F sts) = min m (bk_limit b + k div bk_probe_success_interval b) \<and>
    bk_successes_since_probe (completions b F sts) = k mod bk_probe_success_interval b \<and>
    (\<forall>F'. let c = fst (bucket_complete (completions b F sts) F' (Some 429)) in
       bk_limit c = max 1 (min m (bk_limit b + k div bk_probe_success_interval b) - 1) \<and>
       bk_successes_since_probe c = 0 \<and> \<not> bk_probing c)"
proof -
  note cf = completions_closed_form [OF assms(1,2), of F, folded k]
  have "let c = fst (bucket_complete (completions b F sts) F' (Some 429)) in
       bk_limit c = max 1 (bk_limit (completions b F sts) - 1) \<and> bk_successes_since_probe c = 0 \<and> \<not> bk_probing c" for F'
    using complete_controller [of "completions b F sts" F' "Some 429"]
    by (cases "bucket_complete (completions b F sts) F' (Some 429)") (simp add: bucket_adapt_def bucket_decrease_def)
  with cf show ?thesis by simp
qed

theorem aimd_closed_form_witness:
  "bk_limit (completions (bucket_rebind_loop (new_bucket ''p'' ''f'' 8 64 2) 1) (\<lambda>_. FPending)
     [Some 200, Some 500, None, Some 200, Some 200, Some 0, Some 200, Some 200]) = 10"
  using aimd_closed_form [of "[Some 200, Some 500, None, Some 200, Some 200, Some 0, Some 200, Some 200]" 1 64
      "bucket_rebind_loop (new_bucket ''p'' ''f'' 8 64 2) 1" 5 "\<lambda>_. FPending"]
  by (simp add: bucket_ok_def new_bucket_def bucket_rebind_loop_def)

text \<open>A 429 right after a probe takes back exactly what the probe gave, but only below the
  ceiling: at the maximum limit the probe raises nothing, and the 429 that follows leaves the
  limit one lower than before the probe.\<close>

lemma probe_then_429:
  assumes ok: "bucket_ok loop m b"
    and full: "bk_successes_since_probe b + 1 = bk_probe_success_interval b"
  shows "bk_limit (completions b F [Some 200, Some 429]) =
    (if bk_limit b < m then bk_limit b else max 1 (m - 1))"
proof -
  obtain b1 F1 where c1: "bucket_complete b F (Some 200) = (b1, F1)" by (cases "bucket_complete b F (Some 200)")
  obtain b2 F2 where c2: "bucket_complete b1 F1 (Some 429) = (b2, F2)" by (cases "bucket_complete b1 F1 (Some 429)")
  have "bk_limit b1 = min m (bk_limit b + 1)"
    using complete_controller [OF c1] ok full
    by (simp add: bucket_adapt_def bucket_count_success_def Let_def bucket_ok_def)
  moreover have "bk_limit b2 = max 1 (bk_limit b1 - 1)"
    using complete_controller [OF c2] by (simp add: bucket_adapt_def bucket_decrease_def)
  ultimately show ?thesis using ok c1 c2 by (auto simp: bucket_ok_def)
qed

text \<open>Everything a slot calls over a sequence of releases.\<close>

fun releases :: "slot \<Rightarrow> int option list \<Rightarrow> slot \<times> release_call list" where
  "releases s [] = (s, [])"
| "releases s (st # sts) =
     (case slot_release s st of (s1, c1) \<Rightarrow> (case releases s1 sts of (s2, c2) \<Rightarrow> (s2, c1 @ c2)))"

lemma releases_released: "sl_released s \<Longrightarrow> releases s sts = (s, [])"
  by (induction sts) (auto simp: slot_release_def)

text \<open>A slot is handed back exactly once on every exit path. However the block of
  \<open>upstream_slot\<close> ends and however often the slot is released before or after, the bucket is completed once
  and the engine place released once, with the outcome of the first release; a slot that holds
  nothing calls nothing; and afterwards it is no longer held.\<close>

lemma slot_released_once:
  fixes s :: slot
  assumes "sts \<noteq> []" and s: "s = UpstreamSlot_init has_bucket adm"
  shows "snd (releases s sts) =
      (case adm of None \<Rightarrow> [] | Some a \<Rightarrow> [CallAdmissionRelease a]) @
      (if has_bucket then [CallBucketComplete (hd sts)] else []) \<and>
    \<not> slot_held (fst (releases s sts)) \<and>
    upstream_slot_exit s e = releases s [outcome_status e] \<and>
    upstream_slot_exit (fst (releases s sts)) e = (fst (releases s sts), [])"
proof -
  obtain st sts' where sts: "sts = st # sts'" using assms(1) by (cases sts) auto
  have rel: "sl_released (fst (slot_release s st))" for st
    by (simp add: slot_release_def)
  obtain s1 c1 where s1: "slot_release s st = (s1, c1)" by (cases "slot_release s st")
  with rel [of st] have r1: "sl_released s1" by simp
  have "c1 = (case adm of None \<Rightarrow> [] | Some a \<Rightarrow> [CallAdmissionRelease a]) @
      (if has_bucket then [CallBucketComplete st] else [])"
    using s1 by (auto simp: slot_release_def s UpstreamSlot_init_def split: if_splits option.splits)
  moreover have "releases s sts = (s1, c1)" by (simp add: sts s1 releases_released [OF r1])
  moreover have "upstream_slot_exit s e = releases s [outcome_status e]"
    using rel [of "outcome_status e"]
    by (cases "slot_release s (outcome_status e)") (simp add: upstream_slot_exit_def slot_release_def [of "_ :: slot" None])
  ultimately show ?thesis
    using r1 by (simp add: sts slot_held_def upstream_slot_exit_def slot_release_def [of s1])
qed

text \<open>How \<open>acquire\<close> can start. A local endpoint never touches a bucket and never fails for
  want of room: it goes straight through, or with a hold is sent or waits, positively long, and leaves only on
  a deadline that has passed. A policed endpoint never touches a gate; it waits at
  most the acquire timeout, and less only up to its own deadline, which then lies ahead.\<close>

lemma acquire_outcomes:
  assumes t: "0 < lm_acquire_timeout m"
    and d: "validate_deployment_type deployment = Inr d"
    and r: "limiter_acquire sha m F loop w now ctx provider api_key base_url deployment = (r, m', F')"
  shows "if is_local_endpoint base_url d
     then lm_buckets m' = lm_buckets m \<and>
       (case r of SentInert \<Rightarrow> dc_hold ctx = None | SentEngine a \<Rightarrow> a = engine_address base_url \<and> dc_hold ctx \<noteq> None
          | WaitEngine a wt bd \<Rightarrow> a = engine_address base_url \<and> 0 < wt \<and>
              (if bd then dc_deadline ctx = Some (now + wt) else dc_deadline ctx = None \<and> wt = lm_acquire_timeout m)
          | StartRaise e \<Rightarrow> e = UpstreamQueueWaitExpired \<and> (\<exists>dl. dc_deadline ctx = Some dl \<and> dl \<le> now)
          | _ \<Rightarrow> False)
     else lm_gates m' = lm_gates m \<and>
       (case r of SentInert \<Rightarrow> \<not> lm_enabled m | SentBucket k \<Rightarrow> snd k = key_fingerprint sha api_key
          | WaitBucket k wt bd \<Rightarrow> snd k = key_fingerprint sha api_key \<and> 0 < wt \<and> wt \<le> lm_acquire_timeout m \<and>
              (if bd then dc_deadline ctx = Some (now + wt) else wt = lm_acquire_timeout m)
          | StartRaise e \<Rightarrow> e = UpstreamQueueWaitExpired \<and> (\<exists>dl. dc_deadline ctx = Some dl \<and> dl \<le> now)
          | _ \<Rightarrow> False)"
proof (cases "is_local_endpoint base_url d")
  case True
  with assms show ?thesis
    by (auto simp: limiter_acquire_def gate_for_def gate_admit_def hold_wait_def Let_def
        split: option.splits prod.splits if_splits)
next
  case False
  with assms show ?thesis
    by (auto simp: limiter_acquire_def bucket_for_def bucket_acquire_def queue_wait_def Let_def
        split: option.splits prod.splits if_splits)
qed

lemma validate_samples [simp]:
  "validate_deployment_type (Some ''provider_api'') = Inr DProviderApi"
  "validate_deployment_type (Some ''self_hosted'') = Inr DSelfHosted"
  by (simp_all add: validate_deployment_type_def)

text \<open>The limiter never depends on a credential beyond its fingerprint: two keys with one
  fingerprint lead to the same admission and to the same state, so nothing of the raw key is
  kept or shown by a snapshot.\<close>

lemma acquire_sees_only_fingerprint:
  assumes "key_fingerprint sha k1 = key_fingerprint sha k2"
  shows "limiter_acquire sha m F loop w now ctx provider k1 base_url deployment =
         limiter_acquire sha m F loop w now ctx provider k2 base_url deployment"
  using assms by (simp add: limiter_acquire_def bucket_for_def Let_def cong: if_cong sum.case_cong)

end
