(* ===== verification/User_Concurrency.thy ===== *)
theory User_Concurrency
  imports Prelude
begin

text \<open>
  \<open>serving/servers/concurrency.py\<close>, first part: the per-user limiter and the choice of the
  budget a request draws on. The limits come from a provider (an admin setting read
  asynchronously); what it returned, or that it failed, is an input. From the slot lookup on,
  \<open>try_acquire\<close> runs without giving up the event loop, so it is one step.

  The lemmas: a slot is granted exactly when the cap in force leaves room, the count moves by one
  and only for its key, and the three budgets of a user never share a key.
\<close>

definition UNLIMITED_CONCURRENCY :: int where "UNLIMITED_CONCURRENCY = 0"
definition EXEMPT_MODEL_USER_CONCURRENCY_LIMIT :: int where "EXEMPT_MODEL_USER_CONCURRENCY_LIMIT = 64"
definition COUNT_TOKENS_USER_CONCURRENCY_LIMIT :: int where "COUNT_TOKENS_USER_CONCURRENCY_LIMIT = 4"

type_synonym limits = "(string, int) dict"

definition FALLBACK_LIMITS :: limits where
  "FALLBACK_LIMITS = [(''free'', 3), (''pro'', 3), (''internal'', 10), (''admin'', 0)]"

record user_slot =
  us_capacity :: int
  us_role :: string
  us_in_use :: int

definition slot_try_acquire :: "user_slot \<Rightarrow> bool \<times> user_slot" where
  "slot_try_acquire s =
     (if us_capacity s \<noteq> UNLIMITED_CONCURRENCY \<and> us_capacity s \<le> us_in_use s then (False, s)
      else (True, s\<lparr>us_in_use := us_in_use s + 1\<rparr>))"

definition slot_give_back :: "user_slot \<Rightarrow> user_slot" where
  "slot_give_back s = (if 0 < us_in_use s then s\<lparr>us_in_use := us_in_use s - 1\<rparr> else s)"

type_synonym user_limiter = "(string, user_slot) dict"

text \<open>What the provider did; a failure falls back to the defaults.\<close>

definition read_limits :: "limits option \<Rightarrow> limits" where
  "read_limits provided = (case provided of None \<Rightarrow> FALLBACK_LIMITS | Some l \<Rightarrow> l)"

definition limit_for :: "string \<Rightarrow> bool \<Rightarrow> limits \<Rightarrow> int" where
  "limit_for role is_admin lims =
     (if is_admin then dict_get_or lims ''admin'' (the (dict_get FALLBACK_LIMITS ''admin''))
      else case dict_get lims role of
          Some n \<Rightarrow> n
        | None \<Rightarrow> dict_get_or lims ''free'' (the (dict_get FALLBACK_LIMITS ''free'')))"

definition role_label :: "string \<Rightarrow> bool \<Rightarrow> limits \<Rightarrow> string" where
  "role_label role is_admin lims =
     (if is_admin then ''admin'' else if dict_get lims role \<noteq> None then role else ''free'')"

text \<open>\<open>try_acquire\<close>: whether it was granted, the cap in force, and the label of the slot.\<close>

definition user_try_acquire ::
  "user_limiter \<Rightarrow> limits option \<Rightarrow> string \<Rightarrow> string \<Rightarrow> bool \<Rightarrow> int option \<Rightarrow> (bool \<times> int \<times> string) \<times> user_limiter" where
  "user_try_acquire u provided key role is_admin max_concurrent =
     (let lims = read_limits provided;
          target = (case max_concurrent of Some n \<Rightarrow> n | None \<Rightarrow> limit_for role is_admin lims);
          s = dict_get_or u key \<lparr>us_capacity = target, us_role = role_label role is_admin lims, us_in_use = 0\<rparr>;
          s1 = s\<lparr>us_capacity := target\<rparr>
      in case slot_try_acquire s1 of
           (granted, s2) \<Rightarrow> ((granted, us_capacity s2, us_role s2), dict_set key s2 u))"

definition user_release :: "user_limiter \<Rightarrow> string \<Rightarrow> user_limiter" where
  "user_release u key = (case dict_get u key of None \<Rightarrow> u | Some s \<Rightarrow> dict_set key (slot_give_back s) u)"

section \<open>Budgets\<close>

definition exempt_slot_key :: "string \<Rightarrow> string" where
  "exempt_slot_key user = user @ '':exempt''"

definition count_tokens_slot_key :: "string \<Rightarrow> string" where
  "count_tokens_slot_key user = user @ '':count_tokens''"

record user_ctx =
  uc_user_id :: string
  uc_role :: "string option"
  uc_is_admin :: bool
  uc_max_concurrent :: "int option"

definition role_of :: "user_ctx \<Rightarrow> string" where
  "role_of c = (case uc_role c of None \<Rightarrow> ''free'' | Some r \<Rightarrow> if r = [] then ''free'' else r)"

text \<open>The answer of the exemption resolver for a known model: \<open>None\<close> when there is no resolver or it
  failed.\<close>

definition slot_for_canonical :: "user_ctx \<Rightarrow> string option \<Rightarrow> bool option \<Rightarrow> string \<times> int option" where
  "slot_for_canonical c canonical exempt =
     (if canonical \<noteq> None \<and> exempt = Some True
      then (exempt_slot_key (uc_user_id c),
            Some (case uc_max_concurrent c of
                None \<Rightarrow> EXEMPT_MODEL_USER_CONCURRENCY_LIMIT
              | Some n \<Rightarrow> min n EXEMPT_MODEL_USER_CONCURRENCY_LIMIT))
      else (uc_user_id c, uc_max_concurrent c))"

text \<open>The budget and cap of a token count.\<close>

definition count_tokens_slot :: "user_ctx \<Rightarrow> string \<times> int option" where
  "count_tokens_slot c =
     (count_tokens_slot_key (uc_user_id c),
      Some (case uc_max_concurrent c of
          None \<Rightarrow> COUNT_TOKENS_USER_CONCURRENCY_LIMIT
        | Some n \<Rightarrow> min n COUNT_TOKENS_USER_CONCURRENCY_LIMIT))"

text \<open>\<open>enforce_count_tokens_concurrency\<close>: without a limiter nothing is held; \<open>None\<close> is the
  429.\<close>

definition enter_count_tokens :: "user_limiter option \<Rightarrow> limits option \<Rightarrow> user_ctx \<Rightarrow> user_limiter option option" where
  "enter_count_tokens u provided c =
     (case u of
        None \<Rightarrow> Some None
      | Some v \<Rightarrow>
          (case count_tokens_slot c of (key, cap) \<Rightarrow>
             (case user_try_acquire v provided key (role_of c) (uc_is_admin c) cap of
                ((granted, _, _), w) \<Rightarrow> if granted then Some (Some w) else None)))"

section \<open>Counts\<close>

definition in_use :: "user_limiter \<Rightarrow> string \<Rightarrow> int" where
  "in_use u key = (case dict_get u key of None \<Rightarrow> 0 | Some s \<Rightarrow> us_in_use s)"

lemma in_use_acquire:
  assumes "user_try_acquire u provided key role adm mc = ((granted, cap, label), v)"
  shows "in_use v k = in_use u k + (if granted \<and> k = key then 1 else 0)"
    "granted \<longleftrightarrow> cap = 0 \<or> in_use u key < cap"
    "cap = (case mc of Some n \<Rightarrow> n | None \<Rightarrow> limit_for role adm (read_limits provided))"
  using assms
  by (auto simp: user_try_acquire_def slot_try_acquire_def in_use_def dict_get_or_def Let_def UNLIMITED_CONCURRENCY_def
      split: if_splits option.splits prod.splits)

lemma in_use_release:
  "in_use (user_release u key) k = in_use u k - (if k = key \<and> 0 < in_use u key then 1 else 0)"
  by (auto simp: user_release_def slot_give_back_def in_use_def split: option.splits)

section \<open>Properties\<close>

text \<open>The per-user cap. A request is admitted exactly when its budget is unlimited or has room under
  the cap in force now -- the user's override, or the role's current limit, with the defaults when
  the provider failed. Admission raises that one count by one, a refusal changes none, and after an
  admission under a finite cap the count is within it. Releasing gives one back, never below zero
  and never another key's.\<close>

lemma user_cap_respected:
  assumes "user_try_acquire u provided key role adm mc = ((granted, cap, label), v)"
  shows "cap = (case mc of Some n \<Rightarrow> n | None \<Rightarrow> limit_for role adm (read_limits provided)) \<and>
    (granted \<longleftrightarrow> cap = 0 \<or> in_use u key < cap) \<and>
    (\<forall>k. in_use v k = in_use u k + (if granted \<and> k = key then 1 else 0)) \<and>
    (granted \<and> cap \<noteq> 0 \<longrightarrow> in_use v key \<le> cap) \<and>
    (\<forall>k. in_use (user_release v key) k = in_use v k - (if k = key \<and> 0 < in_use v key then 1 else 0))"
  using in_use_acquire [OF assms] in_use_release [of v key] by auto

text \<open>Budgets never collide. For user ids without a colon the normal budget, the exempt-model budget
  and the token-count budget of all users are pairwise different keys, and the cap of an exempt or
  token-count request never exceeds 64 or 4 -- except that an override of 0 makes the exempt budget
  unlimited, since 0 is the sentinel for no limit.\<close>

lemma budgets_disjoint:
  assumes "CHR 0x3A \<notin> set (uc_user_id c)" and "CHR 0x3A \<notin> set (uc_user_id d)"
  shows "exempt_slot_key (uc_user_id c) \<noteq> uc_user_id d \<and> count_tokens_slot_key (uc_user_id c) \<noteq> uc_user_id d \<and>
    exempt_slot_key (uc_user_id c) \<noteq> count_tokens_slot_key (uc_user_id d) \<and>
    (exempt_slot_key (uc_user_id c) = exempt_slot_key (uc_user_id d) \<longrightarrow> uc_user_id c = uc_user_id d) \<and>
    (\<forall>m. fst (slot_for_canonical c (Some m) (Some True)) \<noteq> fst (slot_for_canonical d (Some m) (Some False)) \<and>
       the (snd (slot_for_canonical c (Some m) (Some True))) \<le> 64 \<and>
       (the (snd (slot_for_canonical c (Some m) (Some True))) = UNLIMITED_CONCURRENCY \<longleftrightarrow> uc_max_concurrent c = Some 0)) \<and>
    the (snd (count_tokens_slot c)) \<le> 4"
proof -
  have colon: "CHR 0x3A \<in> set (exempt_slot_key x)" "CHR 0x3A \<in> set (count_tokens_slot_key x)" for x
    by (simp_all add: exempt_slot_key_def count_tokens_slot_key_def)
  have "last (exempt_slot_key x) \<noteq> last (count_tokens_slot_key y)" for x y
    by (simp add: exempt_slot_key_def count_tokens_slot_key_def)
  then have "exempt_slot_key x \<noteq> count_tokens_slot_key y" for x y by metis
  moreover have "exempt_slot_key x \<noteq> y" "count_tokens_slot_key x \<noteq> y" if "CHR 0x3A \<notin> set y" for x y
    using colon that by auto
  moreover have "exempt_slot_key x = exempt_slot_key y \<Longrightarrow> x = y" for x y by (simp add: exempt_slot_key_def)
  ultimately show ?thesis
    using assms by (auto simp: slot_for_canonical_def count_tokens_slot_def EXEMPT_MODEL_USER_CONCURRENCY_LIMIT_def
        COUNT_TOKENS_USER_CONCURRENCY_LIMIT_def UNLIMITED_CONCURRENCY_def split: option.split)
qed

end
