(* ===== verification/Interactive_Load.thy ===== *)
theory Interactive_Load
  imports Prelude
begin

text \<open>
  \<open>serving/batch/interactive_load.py\<close>: interactive requests in flight per model, which batch
  work yields to. The load is the dict of counts; a tracker is one request's claim on it, which may
  be moved to another model while it is active. \<open>SharedInteractiveLoad.read\<close> adds the local
  counts to what the store returns of the other processes.

  The lemmas: counting and uncounting are inverse, a tracker moves its own count and no other, and
  the shared view never hides local load.
\<close>

type_synonym load = "(string, int) dict"

definition in_flight :: "load \<Rightarrow> string \<Rightarrow> int" where
  "in_flight d m = dict_get_or d m 0"

definition increment :: "load \<Rightarrow> string option \<Rightarrow> load" where
  "increment d m = (case m of None \<Rightarrow> d | Some x \<Rightarrow> dict_set x (dict_get_or d x 0 + 1) d)"

definition decrement :: "load \<Rightarrow> string option \<Rightarrow> load" where
  "decrement d m =
     (case m of
        None \<Rightarrow> d
      | Some x \<Rightarrow>
          (let remaining = dict_get_or d x 0 - 1
           in if remaining > 0 then dict_set x remaining d else dict_del x d))"

record tracker =
  tk_model :: "string option"
  tk_active :: bool

definition track :: "string option \<Rightarrow> tracker" where
  "track m = \<lparr>tk_model = m, tk_active = False\<rparr>"

text \<open>\<open>__enter__\<close>; \<open>None\<close> is the \<open>RuntimeError\<close> of entering twice.\<close>

definition tracker_enter :: "load \<Rightarrow> tracker \<Rightarrow> (load \<times> tracker) option" where
  "tracker_enter d t =
     (if tk_active t then None else Some (increment d (tk_model t), t\<lparr>tk_active := True\<rparr>))"

definition tracker_exit :: "load \<Rightarrow> tracker \<Rightarrow> load \<times> tracker" where
  "tracker_exit d t = (decrement d (tk_model t), t\<lparr>tk_active := False\<rparr>)"

definition retarget :: "load \<Rightarrow> tracker \<Rightarrow> string option \<Rightarrow> load \<times> tracker" where
  "retarget d t m =
     (if m = tk_model t then (d, t)
      else (if tk_active t then increment (decrement d (tk_model t)) m else d, t\<lparr>tk_model := m\<rparr>))"

definition load_snapshot :: "load \<Rightarrow> (string, int) dict" where
  "load_snapshot d = d"

text \<open>The rows of the other processes as the store returned them; \<open>None\<close> when they could not be
  read.\<close>

definition shared_read :: "(string, int) dict option \<Rightarrow> load \<Rightarrow> (string, int) dict option" where
  "shared_read others d =
     (case others of
        None \<Rightarrow> None
      | Some rows \<Rightarrow>
          Some (filter (\<lambda>(_, count). count > 0)
                  (foldl (\<lambda>t (m, count). dict_set m (dict_get_or t m 0 + count) t) rows (load_snapshot d))))"

text \<open>Counts as the code leaves them: positive, one entry per model.\<close>

definition load_wf :: "load \<Rightarrow> bool" where
  "load_wf d \<longleftrightarrow> dict_wf d \<and> (\<forall>(m, n) \<in> set d. 0 < n)"

lemma in_flight_nonneg: "load_wf d \<Longrightarrow> 0 \<le> in_flight d m"
  by (force simp: load_wf_def in_flight_def dict_get_or_def dest!: map_of_SomeD split: option.splits)

lemma increment_wf: "load_wf d \<Longrightarrow> load_wf (increment d m)"
  using in_flight_nonneg [of d]
  by (fastforce simp: load_wf_def increment_def in_flight_def [symmetric] split: option.splits
      dest: dict_set_entries [THEN subsetD])

lemma decrement_wf: "load_wf d \<Longrightarrow> load_wf (decrement d m)"
  by (fastforce simp: load_wf_def decrement_def Let_def split: option.splits
      dest: dict_set_entries [THEN subsetD] dict_del_entries [THEN subsetD])

lemma in_flight_increment: "in_flight (increment d m) x = in_flight d x + (if m = Some x then 1 else 0)"
  by (auto simp: in_flight_def increment_def dict_get_or_def split: option.splits)

lemma in_flight_decrement:
  "load_wf d \<Longrightarrow> m = Some x \<longrightarrow> 0 < in_flight d x \<Longrightarrow>
   in_flight (decrement d m) x = in_flight d x - (if m = Some x then 1 else 0)"
  by (auto simp: in_flight_def decrement_def dict_get_or_def Let_def split: option.splits)

lemma shared_total:
  "dict_wf t \<Longrightarrow> dict_wf d \<Longrightarrow>
   dict_wf (foldl (\<lambda>t (m, count). dict_set m (dict_get_or t m 0 + count) t) t d) \<and>
   dict_get_or (foldl (\<lambda>t (m, count). dict_set m (dict_get_or t m 0 + count) t) t d) x 0 =
     dict_get_or t x 0 + dict_get_or d x (0 :: int)"
proof (induction d arbitrary: t)
  case (Cons e d)
  obtain m n where e: "e = (m, n)" by (cases e)
  have "dict_get d m = None" using Cons.prems(2) by (simp add: e map_of_eq_None_iff)
  with Cons show ?case by (auto simp: e dict_get_or_def)
qed (simp add: dict_get_or_def)

section \<open>Properties\<close>

text \<open>The shared view is the sum of every other process's fresh count and this process's live one,
  model by model, so local load is never hidden by what was published earlier; models without load
  are left out, and when the rows cannot be read there is no answer at all.\<close>

lemma shared_read_sums:
  assumes "dict_wf others" and "\<forall>(m, n) \<in> set others. 0 \<le> n" and "load_wf d"
  shows "shared_read None d = None \<and>
    (\<exists>tot. shared_read (Some others) d = Some tot \<and>
       (\<forall>m. dict_get_or tot m 0 = dict_get_or others m 0 + in_flight d m \<and>
            (dict_get tot m = None \<longleftrightarrow> dict_get_or others m 0 + in_flight d m = 0)))"
proof -
  let ?t = "foldl (\<lambda>t (m, count). dict_set m (dict_get_or t m 0 + count) t) others d"
  have d: "dict_wf d" using assms(3) by (simp add: load_wf_def)
  note sum = shared_total [OF assms(1) d]
  have nn: "0 \<le> dict_get_or others m 0" for m
    using assms(2) by (auto simp: dict_get_or_def dest!: map_of_SomeD split: option.splits)
  have t: "shared_read (Some others) d = Some (filter (\<lambda>(_, count). count > 0) ?t)"
    by (simp add: shared_read_def load_snapshot_def)
  have get: "dict_get (filter (\<lambda>(_, count). count > 0) ?t) m =
      (if 0 < dict_get_or others m 0 + in_flight d m then Some (dict_get_or others m 0 + in_flight d m) else None)" for m
    using conjunct2 [OF sum, of m] dict_get_filter [OF conjunct1 [OF sum], where P = "\<lambda>(_, count). count > 0" and k = m]
    by (auto simp: dict_get_or_def in_flight_def split: option.splits)
  have "0 \<le> dict_get_or others m 0 + in_flight d m" for m
    using nn [of m] in_flight_nonneg [OF assms(3), of m] by simp
  then have "\<forall>m. dict_get_or (filter (\<lambda>(_, count). count > 0) ?t) m 0 = dict_get_or others m 0 + in_flight d m \<and>
      (dict_get (filter (\<lambda>(_, count). count > 0) ?t) m = None \<longleftrightarrow> dict_get_or others m 0 + in_flight d m = 0)"
    by (auto simp: get dict_get_or_def [of "filter _ _"] order.order_iff_strict)
  with t show ?thesis by (auto simp: shared_read_def)
qed

end
