(* ===== verification/Quota.thy ===== *)
theory Quota
  imports Prelude
begin

text \<open>
  \<open>serving/quota.py\<close>: the cost limits of an account and of an API key, in which order they
  are checked, when their windows reset, and the numbers a refusal carries. A UTC
  \<open>datetime\<close> is its date and the microsecond of its day; differences of datetimes go through
  the proleptic ordinal of the date, as in the standard library. Dollar amounts, which the code
  holds in floats, are reals. Of the response bodies the model keeps every field but the
  human-readable texts, and of the headers those that carry numbers.

  The lemmas: which limit a refusal names and that none is passed over, that an admitted
  request fits under all of them, and that every reset lies ahead, within a day or a month.
\<close>

section \<open>Datetimes\<close>

record datetime =
  dt_year :: nat
  dt_month :: nat
  dt_day :: nat
  dt_micros :: nat

definition is_leap :: "nat \<Rightarrow> bool" where
  "is_leap y \<longleftrightarrow> y mod 4 = 0 \<and> (y mod 100 \<noteq> 0 \<or> y mod 400 = 0)"

definition days_in_month :: "nat \<Rightarrow> nat \<Rightarrow> nat" where
  "days_in_month y m =
     (if m = 2 then if is_leap y then 29 else 28
      else if m \<in> {4, 6, 9, 11} then 30 else 31)"

definition day_micros :: nat where
  "day_micros = 86400000000"

definition valid_datetime :: "datetime \<Rightarrow> bool" where
  "valid_datetime d \<longleftrightarrow> 1 \<le> dt_year d \<and> 1 \<le> dt_month d \<and> dt_month d \<le> 12 \<and> 1 \<le> dt_day d \<and>
     dt_day d \<le> days_in_month (dt_year d) (dt_month d) \<and> dt_micros d < day_micros"

definition days_before_year :: "nat \<Rightarrow> nat" where
  "days_before_year y = (y - 1) * 365 + (y - 1) div 4 - (y - 1) div 100 + (y - 1) div 400"

fun days_before_month :: "nat \<Rightarrow> nat \<Rightarrow> nat" where
  "days_before_month y 0 = 0"
| "days_before_month y (Suc m) = (if m = 0 then 0 else days_before_month y m + days_in_month y m)"

definition to_ordinal :: "datetime \<Rightarrow> nat" where
  "to_ordinal d = days_before_year (dt_year d) + days_before_month (dt_year d) (dt_month d) + dt_day d"

text \<open>The difference of two datetimes in microseconds.\<close>

definition micros_between :: "datetime \<Rightarrow> datetime \<Rightarrow> int" where
  "micros_between later earlier =
     (int (to_ordinal later) - int (to_ordinal earlier)) * int day_micros +
     (int (dt_micros later) - int (dt_micros earlier))"

text \<open>\<open>int(delta.total_seconds())\<close> of a positive difference: whole seconds, rounded down.\<close>

definition whole_seconds :: "int \<Rightarrow> int" where
  "whole_seconds us = us div 1000000"

text \<open>Adding \<open>timedelta(days=1)\<close>.\<close>

definition plus_one_day :: "datetime \<Rightarrow> datetime" where
  "plus_one_day d =
     (if dt_day d < days_in_month (dt_year d) (dt_month d) then d\<lparr>dt_day := dt_day d + 1\<rparr>
      else if dt_month d < 12 then d\<lparr>dt_month := dt_month d + 1, dt_day := 1\<rparr>
      else d\<lparr>dt_year := dt_year d + 1, dt_month := 1, dt_day := 1\<rparr>)"

definition next_utc_midnight :: "datetime \<Rightarrow> datetime" where
  "next_utc_midnight now = (plus_one_day now)\<lparr>dt_micros := 0\<rparr>"

definition next_utc_month_start :: "datetime \<Rightarrow> datetime" where
  "next_utc_month_start now =
     (case if dt_month now = 12 then (dt_year now + 1, 1) else (dt_year now, dt_month now + 1) of
        (y, m) \<Rightarrow> \<lparr>dt_year = y, dt_month = m, dt_day = 1, dt_micros = 0\<rparr>)"

definition seconds_until_utc_midnight :: "datetime \<Rightarrow> int" where
  "seconds_until_utc_midnight now = max 1 (whole_seconds (micros_between (next_utc_midnight now) now))"

section \<open>Limits\<close>

definition DEFAULT_DAILY_QUOTA_USD :: usd where "DEFAULT_DAILY_QUOTA_USD = 1000"
definition ESTIMATED_REQUEST_COST_USD :: usd where "ESTIMATED_REQUEST_COST_USD = 1 / 100"

definition resolve_quota :: "usd option \<Rightarrow> usd" where
  "resolve_quota raw = (case raw of None \<Rightarrow> DEFAULT_DAILY_QUOTA_USD | Some q \<Rightarrow> q)"

record quota_exceeded =
  qe_quota :: usd
  qe_spent :: usd

definition check :: "usd \<Rightarrow> usd \<Rightarrow> quota_exceeded + unit" where
  "check quota spent =
     (if spent + ESTIMATED_REQUEST_COST_USD > quota then Inl \<lparr>qe_quota = quota, qe_spent = spent\<rparr>
      else Inr ())"

datatype scope = ScopeKey | ScopeAccount
datatype window = Day | Month

record budget_refusal =
  br_scope :: scope
  br_window :: window
  br_limit :: usd
  br_spent :: usd
  br_key_prefix :: "string option"
  br_key_label :: "string option"

definition reset_at :: "budget_refusal \<Rightarrow> datetime \<Rightarrow> datetime" where
  "reset_at r now = (if br_window r = Day then next_utc_midnight now else next_utc_month_start now)"

definition over :: "usd option \<Rightarrow> usd \<Rightarrow> bool" where
  "over limit spent = (case limit of None \<Rightarrow> False | Some l \<Rightarrow> spent + ESTIMATED_REQUEST_COST_USD > l)"

text \<open>What a gate knows when it checks: the limits, and the spend it holds against each.\<close>

record budget =
  bu_account_daily :: usd
  bu_account_spent :: usd
  bu_account_monthly :: "usd option"
  bu_account_spent_month :: usd
  bu_key_daily :: "usd option"
  bu_key_monthly :: "usd option"
  bu_key_spent_today :: usd
  bu_key_spent_month :: usd
  bu_key_prefix :: "string option"
  bu_key_label :: "string option"

definition first_refusal :: "budget \<Rightarrow> budget_refusal option" where
  "first_refusal b =
     (if over (bu_key_daily b) (bu_key_spent_today b) then
        Some \<lparr>br_scope = ScopeKey, br_window = Day, br_limit = the (bu_key_daily b), br_spent = bu_key_spent_today b,
              br_key_prefix = bu_key_prefix b, br_key_label = bu_key_label b\<rparr>
      else if over (bu_key_monthly b) (bu_key_spent_month b) then
        Some \<lparr>br_scope = ScopeKey, br_window = Month, br_limit = the (bu_key_monthly b), br_spent = bu_key_spent_month b,
              br_key_prefix = bu_key_prefix b, br_key_label = bu_key_label b\<rparr>
      else if over (Some (bu_account_daily b)) (bu_account_spent b) then
        Some \<lparr>br_scope = ScopeAccount, br_window = Day, br_limit = bu_account_daily b, br_spent = bu_account_spent b,
              br_key_prefix = None, br_key_label = None\<rparr>
      else if over (bu_account_monthly b) (bu_account_spent_month b) then
        Some \<lparr>br_scope = ScopeAccount, br_window = Month, br_limit = the (bu_account_monthly b),
              br_spent = bu_account_spent_month b, br_key_prefix = None, br_key_label = None\<rparr>
      else None)"

section \<open>Refusals\<close>

record refusal_body =
  rb_code :: "string option"
  rb_scope :: "scope option"
  rb_window :: "window option"
  rb_key_prefix :: "string option"
  rb_quota :: usd
  rb_spent :: usd
  rb_remaining :: usd
  rb_reset_at :: datetime
  rb_retry_after :: int

definition exceeded_payload :: "usd \<Rightarrow> usd \<Rightarrow> datetime \<Rightarrow> refusal_body" where
  "exceeded_payload quota spent now =
     \<lparr>rb_code = None, rb_scope = None, rb_window = None, rb_key_prefix = None, rb_quota = quota,
      rb_spent = spent, rb_remaining = max 0 (quota - spent), rb_reset_at = next_utc_midnight now,
      rb_retry_after = seconds_until_utc_midnight now\<rparr>"

definition refusal_payload :: "budget_refusal \<Rightarrow> datetime \<Rightarrow> refusal_body" where
  "refusal_payload r now =
     (if br_scope r = ScopeAccount \<and> br_window r = Day
      then (exceeded_payload (br_limit r) (br_spent r) now)
             \<lparr>rb_code := Some ''budget_exceeded'', rb_scope := Some ScopeAccount, rb_window := Some Day\<rparr>
      else \<lparr>rb_code = Some ''budget_exceeded'', rb_scope = Some (br_scope r), rb_window = Some (br_window r),
            rb_key_prefix = (if br_scope r = ScopeAccount then None else br_key_prefix r),
            rb_quota = br_limit r, rb_spent = br_spent r, rb_remaining = max 0 (br_limit r - br_spent r),
            rb_reset_at = reset_at r now,
            rb_retry_after = max 1 (whole_seconds (micros_between (reset_at r now) now))\<rparr>)"

section \<open>Calendar arithmetic\<close>

lemma days_before_year_Suc: "1 \<le> y \<Longrightarrow> days_before_year (y + 1) = days_before_year y + (if is_leap y then 366 else 365)"
proof -
  assume y: "1 \<le> y"
  then obtain n where n: "y = Suc n" by (cases y) auto
  have 4: "Suc n div 4 = n div 4 + (if Suc n mod 4 = 0 then 1 else 0)"
    and 100: "Suc n div 100 = n div 100 + (if Suc n mod 100 = 0 then 1 else 0)"
    and 400: "Suc n div 400 = n div 400 + (if Suc n mod 400 = 0 then 1 else 0)"
    by (simp_all add: div_Suc)
  have "Suc n mod 100 = 0 \<Longrightarrow> Suc n mod 4 = 0" "Suc n mod 400 = 0 \<Longrightarrow> Suc n mod 100 = 0" by presburger+
  moreover have "n div 100 \<le> n div 4" "Suc n div 100 \<le> Suc n div 4" by (auto intro: div_le_mono2)
  ultimately show ?thesis
    unfolding n days_before_year_def is_leap_def by (auto simp: 4 100 400 ac_simps)
qed

lemma days_before_next_year:
  "days_before_month y 12 + days_in_month y 12 = (if is_leap y then 366 else 365)"
  by (simp add: numeral_eq_Suc days_in_month_def)

lemma ordinal_month_start:
  assumes "valid_datetime d"
  shows "int (to_ordinal (next_utc_month_start d)) =
    int (to_ordinal d) - int (dt_day d) + int (days_in_month (dt_year d) (dt_month d)) + 1"
proof (cases "dt_month d = 12")
  case True
  then show ?thesis
    using assms days_before_year_Suc [of "dt_year d"] days_before_next_year [of "dt_year d"]
    by (simp add: to_ordinal_def next_utc_month_start_def valid_datetime_def)
next
  case False
  with assms show ?thesis by (simp add: to_ordinal_def next_utc_month_start_def valid_datetime_def)
qed

lemma ordinal_midnight:
  assumes "valid_datetime d"
  shows "to_ordinal (next_utc_midnight d) = to_ordinal d + 1"
proof (cases "dt_day d < days_in_month (dt_year d) (dt_month d)")
  case True
  then show ?thesis by (simp add: to_ordinal_def next_utc_midnight_def plus_one_day_def)
next
  case False
  with assms have e: "dt_day d = days_in_month (dt_year d) (dt_month d)" by (simp add: valid_datetime_def)
  have "next_utc_midnight d = next_utc_month_start d"
    using False assms by (auto simp: next_utc_midnight_def next_utc_month_start_def plus_one_day_def valid_datetime_def)
  with ordinal_month_start [OF assms] e show ?thesis by simp
qed

lemma until_midnight:
  "valid_datetime d \<Longrightarrow> micros_between (next_utc_midnight d) d = int day_micros - int (dt_micros d)"
  unfolding micros_between_def ordinal_midnight by (simp add: next_utc_midnight_def)

lemma until_month_start:
  "valid_datetime d \<Longrightarrow>
   micros_between (next_utc_month_start d) d =
     (int (days_in_month (dt_year d) (dt_month d)) - int (dt_day d) + 1) * int day_micros - int (dt_micros d)"
  by (simp add: micros_between_def ordinal_month_start) (simp add: next_utc_month_start_def split: prod.split)

lemma days_in_month_range: "28 \<le> days_in_month y m" "days_in_month y m \<le> 31"
  by (auto simp: days_in_month_def)

lemma whole_seconds_range:
  "0 < us \<Longrightarrow> us \<le> k * 1000000 \<Longrightarrow> 1 \<le> max 1 (whole_seconds us) \<and> max 1 (whole_seconds us) \<le> max 1 k"
  using zdiv_mono1 [of us "k * 1000000" 1000000] by (auto simp: whole_seconds_def)

section \<open>Properties\<close>

text \<open>The gate names the narrowest limit that ran out and passes none over: it admits exactly
  when the estimated charge fits under all four limits, and a refusal names the first of key/day,
  key/month, account/day, account/month that it does not fit under, with that limit and the spend
  held against it. A key budget or monthly quota that is not set never refuses.\<close>

lemma first_refusal_narrowest:
  "(first_refusal b = None \<longleftrightarrow>
      \<not> over (bu_key_daily b) (bu_key_spent_today b) \<and> \<not> over (bu_key_monthly b) (bu_key_spent_month b) \<and>
      bu_account_spent b + 1 / 100 \<le> bu_account_daily b \<and>
      \<not> over (bu_account_monthly b) (bu_account_spent_month b)) \<and>
   (\<forall>r. first_refusal b = Some r \<longrightarrow>
      br_limit r < br_spent r + 1 / 100 \<and>
      (case (br_scope r, br_window r) of
         (ScopeKey, Day) \<Rightarrow> bu_key_daily b = Some (br_limit r) \<and> br_spent r = bu_key_spent_today b
       | (ScopeKey, Month) \<Rightarrow> bu_key_monthly b = Some (br_limit r) \<and> br_spent r = bu_key_spent_month b \<and>
           \<not> over (bu_key_daily b) (bu_key_spent_today b)
       | (ScopeAccount, Day) \<Rightarrow> bu_account_daily b = br_limit r \<and> br_spent r = bu_account_spent b \<and>
           \<not> over (bu_key_daily b) (bu_key_spent_today b) \<and> \<not> over (bu_key_monthly b) (bu_key_spent_month b)
       | (ScopeAccount, Month) \<Rightarrow> bu_account_monthly b = Some (br_limit r) \<and> br_spent r = bu_account_spent_month b \<and>
           \<not> over (bu_key_daily b) (bu_key_spent_today b) \<and> \<not> over (bu_key_monthly b) (bu_key_spent_month b) \<and>
           bu_account_spent b + 1 / 100 \<le> bu_account_daily b))"
  by (auto simp: first_refusal_def over_def ESTIMATED_REQUEST_COST_USD_def not_less split: if_splits option.splits)

text \<open>Every refusal tells the client to come back when its window has really reset: the reset lies
  strictly ahead, \<open>retry_after\<close> is at least one second and at most a day for a daily limit and 31
  days for a monthly one, and waiting \<open>retry_after + 1\<close> seconds reaches the reset. The remaining
  amount is never negative.\<close>

lemma refusal_reset_ahead:
  assumes "valid_datetime now"
  shows "let b = refusal_payload r now; us = micros_between (rb_reset_at b) now in
    rb_window b = Some (br_window r) \<and> 0 < us \<and> 1 \<le> rb_retry_after b \<and>
    rb_retry_after b \<le> (if br_window r = Day then 86400 else 31 * 86400) \<and>
    us < (rb_retry_after b + 1) * 1000000 \<and> 0 \<le> rb_remaining b"
proof -
  have m: "0 < int day_micros - int (dt_micros now)" using assms by (simp add: valid_datetime_def)
  let ?left = "int (days_in_month (dt_year now) (dt_month now)) - int (dt_day now)"
  have l: "0 \<le> ?left" "?left + 1 \<le> 31"
    using assms days_in_month_range(2) [of "dt_year now" "dt_month now"] by (auto simp: valid_datetime_def)
  have month: "0 < (?left + 1) * int day_micros - int (dt_micros now)"
    "(?left + 1) * int day_micros - int (dt_micros now) \<le> 31 * 86400 * 1000000"
  proof -
    have "int day_micros \<le> (?left + 1) * int day_micros" using l by (simp add: distrib_right)
    then show "0 < (?left + 1) * int day_micros - int (dt_micros now)" using m by linarith
    have "(?left + 1) * int day_micros \<le> 31 * int day_micros" using l(2) by (intro mult_right_mono) auto
    then show "(?left + 1) * int day_micros - int (dt_micros now) \<le> 31 * 86400 * 1000000"
      by (simp add: day_micros_def)
  qed
  have above: "us < (max 1 (whole_seconds us) + 1) * 1000000" for us
    by (simp add: whole_seconds_def)
  have day: "int day_micros - int (dt_micros now) \<le> 86400 * 1000000" by (simp add: day_micros_def)
  have rd: "1 \<le> max 1 (whole_seconds (int day_micros - int (dt_micros now)))"
    "max 1 (whole_seconds (int day_micros - int (dt_micros now))) \<le> 86400"
    using whole_seconds_range [OF m day] by auto
  have rm: "1 \<le> max 1 (whole_seconds ((?left + 1) * int day_micros - int (dt_micros now)))"
    "max 1 (whole_seconds ((?left + 1) * int day_micros - int (dt_micros now))) \<le> 31 * 86400"
    using whole_seconds_range [OF month] by auto
  show ?thesis
    using m month(1) rd rm above [of "int day_micros - int (dt_micros now)"]
      above [of "(?left + 1) * int day_micros - int (dt_micros now)"]
    by (cases "br_window r"; cases "br_scope r")
      (auto simp: refusal_payload_def exceeded_payload_def seconds_until_utc_midnight_def reset_at_def Let_def
        until_midnight [OF assms] until_month_start [OF assms])
qed

end
