(* ===== verification/Spend_Ledger.thy ===== *)
theory Spend_Ledger
  imports Quota
begin

text \<open>
  \<open>serving/spend_ledger.py\<close>: the spend the cost counters do not show yet -- reservations of
  requests in flight, costs recorded and not yet written, and writes confirmed since a gate read
  the counters -- with the writer that carries costs to the store.

  The ledger is one record. The methods run on the event loop; the writer task is cut at its one
  \<open>await\<close> (\<open>write_begin\<close>, \<open>write_end\<close>), and the outcome of the store call is an input.
  The current UTC day, the clock and whether a loop is running are arguments. Dollar amounts, which
  the code sums in floats, are reals, so that sums do not drift; the counted amounts (decimals with
  six places) are whole millionths. The handles of admitted requests (\<open>Reservation\<close> objects)
  are kept in a list beside the tables they are counted in.

  The lemmas: what is unconfirmed is exactly what is pending, being written or of unknown outcome;
  the reservation tables are exactly the open reservations; and no step of the writer changes what a
  gate counts, so a cost counts at every moment from its reservation until the counters show it.
\<close>

section \<open>Amounts\<close>

type_synonym day = string
type_synonym cost_key = "string \<times> int option \<times> day"

definition LANDED_WINDOW_SECONDS :: time where "LANDED_WINDOW_SECONDS = 300"
definition RETRY_FIRST_SECONDS :: time where "RETRY_FIRST_SECONDS = 1 / 2"
definition RETRY_MAX_SECONDS :: time where "RETRY_MAX_SECONDS = 30"

definition show_nat_pad :: "nat \<Rightarrow> nat \<Rightarrow> string" where
  "show_nat_pad w n = replicate (w - length (show_nat n)) (digit_char 0) @ show_nat n"

definition utc_day :: "datetime \<Rightarrow> day" where
  "utc_day now =
     show_nat_pad 4 (dt_year now) @ ''-'' @ show_nat_pad 2 (dt_month now) @ ''-'' @ show_nat_pad 2 (dt_day now)"

text \<open>Millionths of a dollar, rounded half away from zero.\<close>

definition counted_amount :: "usd \<Rightarrow> int" where
  "counted_amount cost =
     (if 0 \<le> cost then \<lfloor>cost * 1000000 + 1 / 2\<rfloor> else - \<lfloor>- cost * 1000000 + 1 / 2\<rfloor>)"

record amount =
  am_cost :: usd
  am_counted :: int
  am_requests :: int

definition new_amount :: amount where
  "new_amount = \<lparr>am_cost = 0, am_counted = 0, am_requests = 0\<rparr>"

definition amount_add :: "amount \<Rightarrow> usd \<Rightarrow> int \<Rightarrow> int \<Rightarrow> amount" where
  "amount_add a cost counted requests =
     \<lparr>am_cost = am_cost a + cost, am_counted = am_counted a + counted, am_requests = am_requests a + requests\<rparr>"

record unconfirmed =
  un_cost :: usd
  un_requests :: int

record reservation =
  rv_user :: string
  rv_key :: "int option"
  rv_amount :: usd
  rv_open :: bool

text \<open>The write task: none; created; waiting for the store; or ended with its done-callback to come.\<close>

datatype writer = NoWriter | WriterScheduled | WriterWriting | WriterDone

type_synonym batch = "(cost_key, amount) dict"
type_synonym landed = "time \<times> (string, (int option \<times> day \<times> usd) list) dict"

record ledger =
  lg_reserved_users :: "(string, usd \<times> int) dict"
  lg_reserved_keys :: "(int, usd \<times> int) dict"
  lg_reservations :: "reservation list"
  lg_pending :: batch
  lg_writing :: batch
  lg_unconfirmed :: "(string, (int option \<times> day, unconfirmed) dict) dict"
  lg_landed :: "landed list"
  lg_unknown :: "(cost_key \<times> amount) list"
  lg_writer :: writer
  lg_retry :: bool
  lg_retry_delay :: time

definition SpendLedger_init :: ledger where
  "SpendLedger_init =
     \<lparr>lg_reserved_users = [], lg_reserved_keys = [], lg_reservations = [], lg_pending = [], lg_writing = [],
      lg_unconfirmed = [], lg_landed = [], lg_unknown = [], lg_writer = NoWriter, lg_retry = False,
      lg_retry_delay = 0\<rparr>"

section \<open>Reservation tables\<close>

definition add_reserved :: "('w, usd \<times> int) dict \<Rightarrow> 'w \<Rightarrow> usd \<Rightarrow> ('w, usd \<times> int) dict" where
  "add_reserved table who amount =
     (case dict_get table who of
        None \<Rightarrow> dict_set who (amount, 1) table
      | Some (a, n) \<Rightarrow> dict_set who (a + amount, n + 1) table)"

definition remove_reserved :: "('w, usd \<times> int) dict \<Rightarrow> 'w \<Rightarrow> usd \<Rightarrow> ('w, usd \<times> int) dict" where
  "remove_reserved table who amount =
     (case dict_get table who of
        None \<Rightarrow> table
      | Some (a, n) \<Rightarrow>
          if n - 1 \<le> 0 then dict_del who table else dict_set who (a - amount, n - 1) table)"

section \<open>The gate\<close>

text \<open>\<open>SpendCheck\<close>: who is checked, when its gate read the counters, and the limits with the spend
  it read.\<close>

record spend_check =
  sc_user :: string
  sc_key :: "int option"
  sc_read_at :: time
  sc_budget :: budget

record totals =
  tt_day :: usd
  tt_month :: usd
  tt_key_day :: usd
  tt_key_month :: usd

definition no_totals :: totals where
  "no_totals = \<lparr>tt_day = 0, tt_month = 0, tt_key_day = 0, tt_key_month = 0\<rparr>"

definition starts_with :: "string \<Rightarrow> string \<Rightarrow> bool" where
  "starts_with s p = (take (length p) s = p)"

text \<open>The closure \<open>count\<close> of \<open>_extra\<close>; the first seven characters of a day are its month.\<close>

definition count_cost :: "int option \<Rightarrow> day \<Rightarrow> int option \<times> day \<times> usd \<Rightarrow> totals \<Rightarrow> totals" where
  "count_cost key_id today c t =
     (case c of (cost_key, day, cost) \<Rightarrow>
        if starts_with day (take 7 today)
        then
          (let t1 = t\<lparr>tt_month := tt_month t + cost\<rparr>;
               t2 = (if day = today then t1\<lparr>tt_day := tt_day t1 + cost\<rparr> else t1)
           in if key_id \<noteq> None \<and> cost_key = key_id
              then (let t3 = t2\<lparr>tt_key_month := tt_key_month t2 + cost\<rparr>
                    in if day = today then t3\<lparr>tt_key_day := tt_key_day t3 + cost\<rparr> else t3)
              else t2)
        else t)"

definition forget_landed :: "ledger \<Rightarrow> time \<Rightarrow> ledger" where
  "forget_landed l now = l\<lparr>lg_landed := dropWhile (\<lambda>(t, _). t < now - LANDED_WINDOW_SECONDS) (lg_landed l)\<rparr>"

text \<open>The costs \<open>_extra\<close> counts for a user: unconfirmed ones, then the confirmed writes, newest
  first, back to the gate's reading -- all that are kept, for a gate older than the window.\<close>

definition unconfirmed_costs :: "ledger \<Rightarrow> string \<Rightarrow> (int option \<times> day \<times> usd) list" where
  "unconfirmed_costs l user =
     (case dict_get (lg_unconfirmed l) user of
        None \<Rightarrow> [] | Some d \<Rightarrow> map (\<lambda>((k, day), u). (k, day, un_cost u)) d)"

definition landed_costs :: "ledger \<Rightarrow> string \<Rightarrow> time \<Rightarrow> time \<Rightarrow> (int option \<times> day \<times> usd) list" where
  "landed_costs l user read_at now =
     (let stale = read_at < now - LANDED_WINDOW_SECONDS
      in concat (map (\<lambda>(_, by_user). case dict_get by_user user of None \<Rightarrow> [] | Some cs \<Rightarrow> cs)
           (takeWhile (\<lambda>(t, _). \<not> (t < read_at \<and> \<not> stale)) (rev (lg_landed l)))))"

definition extra :: "ledger \<Rightarrow> day \<Rightarrow> time \<Rightarrow> string \<Rightarrow> int option \<Rightarrow> time \<Rightarrow> totals \<times> ledger" where
  "extra l today now user key_id read_at =
     (let l1 = forget_landed l now;
          t = fold (count_cost key_id today) (unconfirmed_costs l1 user @ landed_costs l1 user read_at now) no_totals;
          t1 = (case dict_get (lg_reserved_users l) user of
                  None \<Rightarrow> t | Some (a, _) \<Rightarrow> t\<lparr>tt_day := tt_day t + a, tt_month := tt_month t + a\<rparr>);
          t2 = (case key_id of
                  None \<Rightarrow> t1
                | Some k \<Rightarrow> (case dict_get (lg_reserved_keys l) k of
                    None \<Rightarrow> t1 | Some (a, _) \<Rightarrow> t1\<lparr>tt_key_day := tt_key_day t1 + a, tt_key_month := tt_key_month t1 + a\<rparr>))
      in (t2, l1))"

text \<open>The limits of a check against what it read plus the extra spend.\<close>

definition check_budget :: "budget \<Rightarrow> totals \<Rightarrow> budget" where
  "check_budget b t =
     b\<lparr>bu_account_spent := bu_account_spent b + tt_day t,
       bu_account_spent_month := bu_account_spent_month b + tt_month t,
       bu_key_spent_today := bu_key_spent_today b + tt_key_day t,
       bu_key_spent_month := bu_key_spent_month b + tt_key_month t\<rparr>"

definition refusal :: "ledger \<Rightarrow> day \<Rightarrow> time \<Rightarrow> spend_check \<Rightarrow> budget_refusal option \<times> ledger" where
  "refusal l today now c =
     (case extra l today now (sc_user c) (sc_key c) (sc_read_at c) of
        (t, l1) \<Rightarrow> (first_refusal (check_budget (sc_budget c) t), l1))"

text \<open>A check without a ledger is only checked.\<close>

definition refusal_without_ledger :: "spend_check \<Rightarrow> budget_refusal option" where
  "refusal_without_ledger c = first_refusal (check_budget (sc_budget c) no_totals)"

definition admit :: "ledger \<Rightarrow> day \<Rightarrow> time \<Rightarrow> spend_check \<Rightarrow> usd \<Rightarrow> (budget_refusal + nat) \<times> ledger" where
  "admit l today now c amount =
     (case refusal l today now c of
        (Some r, l1) \<Rightarrow> (Inl r, l1)
      | (None, l1) \<Rightarrow>
          (Inr (length (lg_reservations l1)),
           l1\<lparr>lg_reservations := lg_reservations l1 @
                 [\<lparr>rv_user = sc_user c, rv_key = sc_key c, rv_amount = amount, rv_open = True\<rparr>],
              lg_reserved_users := add_reserved (lg_reserved_users l1) (sc_user c) amount,
              lg_reserved_keys := (case sc_key c of None \<Rightarrow> lg_reserved_keys l1
                                   | Some k \<Rightarrow> add_reserved (lg_reserved_keys l1) k amount)\<rparr>))"

definition unreserve :: "ledger \<Rightarrow> reservation \<Rightarrow> ledger" where
  "unreserve l r =
     l\<lparr>lg_reserved_users := remove_reserved (lg_reserved_users l) (rv_user r) (rv_amount r),
       lg_reserved_keys := (case rv_key r of None \<Rightarrow> lg_reserved_keys l
                            | Some k \<Rightarrow> remove_reserved (lg_reserved_keys l) k (rv_amount r))\<rparr>"

definition release_reservation :: "ledger \<Rightarrow> nat \<Rightarrow> ledger" where
  "release_reservation l i =
     (if i < length (lg_reservations l) \<and> rv_open (lg_reservations l ! i)
      then unreserve (l\<lparr>lg_reservations := (lg_reservations l)[i := (lg_reservations l ! i)\<lparr>rv_open := False\<rparr>]\<rparr>)
             (lg_reservations l ! i)
      else l)"

section \<open>Recording and writing\<close>

definition start_write :: "ledger \<Rightarrow> bool \<Rightarrow> ledger" where
  "start_write l loop_running =
     (if lg_writer l \<noteq> NoWriter then l
      else if lg_retry l \<or> lg_pending l = [] then l
      else if \<not> loop_running then l
      else l\<lparr>lg_writer := WriterScheduled\<rparr>)"

definition add_pending :: "batch \<Rightarrow> cost_key \<Rightarrow> usd \<Rightarrow> int \<Rightarrow> int \<Rightarrow> batch" where
  "add_pending d key cost counted requests =
     dict_set key (amount_add (dict_get_or d key new_amount) cost counted requests) d"

definition add_unconfirmed ::
  "(string, (int option \<times> day, unconfirmed) dict) dict \<Rightarrow> cost_key \<Rightarrow> usd \<Rightarrow> int \<Rightarrow>
     (string, (int option \<times> day, unconfirmed) dict) dict" where
  "add_unconfirmed d key cost requests =
     (case key of (user, kd) \<Rightarrow>
        let per_user = dict_get_or d user [];
            u = dict_get_or per_user kd \<lparr>un_cost = 0, un_requests = 0\<rparr>
        in dict_set user (dict_set kd \<lparr>un_cost = un_cost u + cost, un_requests = un_requests u + requests\<rparr> per_user) d)"

definition record_cost :: "ledger \<Rightarrow> bool \<Rightarrow> day \<Rightarrow> string \<Rightarrow> usd \<Rightarrow> int option \<Rightarrow> ledger" where
  "record_cost l loop_running today user cost key_id =
     (if user = [] \<or> \<not> cost > 0 then l
      else
        (let key = (user, key_id, today)
         in start_write
              (l\<lparr>lg_pending := add_pending (lg_pending l) key cost (counted_amount cost) 1,
                 lg_unconfirmed := add_unconfirmed (lg_unconfirmed l) key cost 1\<rparr>) loop_running))"

definition unconfirm ::
  "(string, (int option \<times> day, unconfirmed) dict) dict \<Rightarrow> cost_key \<times> amount \<Rightarrow>
     (string, (int option \<times> day, unconfirmed) dict) dict" where
  "unconfirm d e =
     (case e of ((user, kd), a) \<Rightarrow>
        case dict_get d user of
          None \<Rightarrow> d
        | Some per_user \<Rightarrow>
            (case dict_get per_user kd of
               None \<Rightarrow> d
             | Some u \<Rightarrow>
                 (let u1 = \<lparr>un_cost = un_cost u - am_cost a, un_requests = un_requests u - am_requests a\<rparr>
                  in if un_requests u1 \<le> 0
                     then (let rest = dict_del kd per_user
                           in if rest = [] then dict_del user d else dict_set user rest d)
                     else dict_set user (dict_set kd u1 per_user) d)))"

text \<open>The task up to its \<open>await\<close>: it takes the pending costs, or ends at once when there are
  none or the store is gone.\<close>

definition write_begin :: "ledger \<Rightarrow> bool \<Rightarrow> ledger" where
  "write_begin l store_alive =
     (let l1 = l\<lparr>lg_pending := []\<rparr>
      in if lg_pending l = [] then l1\<lparr>lg_writer := WriterDone\<rparr>
         else if \<not> store_alive
         then l1\<lparr>lg_unconfirmed := foldl unconfirm (lg_unconfirmed l1) (lg_pending l), lg_writer := WriterDone\<rparr>
         else l1\<lparr>lg_writing := lg_pending l, lg_writer := WriterWriting\<rparr>)"

definition group_by_user :: "(cost_key \<times> amount) list \<Rightarrow> (string, (int option \<times> day \<times> usd) list) dict" where
  "group_by_user es =
     foldl (\<lambda>d ((user, k, day), a). dict_set user (dict_get_or d user [] @ [(k, day, am_cost a)]) d) [] es"

definition land_writes :: "ledger \<Rightarrow> time \<Rightarrow> (cost_key \<times> amount) list \<Rightarrow> ledger" where
  "land_writes l now es =
     forget_landed
       (l\<lparr>lg_unconfirmed := foldl unconfirm (lg_unconfirmed l) es,
          lg_landed := lg_landed l @ [(now, group_by_user es)]\<rparr>) now"

definition schedule_retry :: "ledger \<Rightarrow> bool \<Rightarrow> ledger" where
  "schedule_retry l loop_running =
     (if lg_retry l then l
      else
        (let l1 = l\<lparr>lg_retry_delay := min RETRY_MAX_SECONDS (max RETRY_FIRST_SECONDS (lg_retry_delay l * 2))\<rparr>
         in if loop_running then l1\<lparr>lg_retry := True\<rparr> else l1))"

text \<open>How the store took one entry of a batch, and how the await of a write ended.\<close>

datatype entry_outcome = Applied | Failed | Unknown

datatype write_outcome = WriteReturned "cost_key \<Rightarrow> entry_outcome" | WriteCancelled

text \<open>\<open>_write\<close>: an atomic store applies the batch as one, any other store entry by entry.\<close>

definition write_store :: "bool \<Rightarrow> entry_outcome \<Rightarrow> (cost_key \<Rightarrow> bool) \<Rightarrow> cost_key \<Rightarrow> entry_outcome" where
  "write_store atomic all_outcome entry_ok =
     (if atomic then (\<lambda>_. all_outcome) else (\<lambda>k. if entry_ok k then Applied else Failed))"

definition entries_with :: "batch \<Rightarrow> (cost_key \<Rightarrow> entry_outcome) \<Rightarrow> entry_outcome \<Rightarrow> (cost_key \<times> amount) list" where
  "entries_with b oc x = filter (\<lambda>(k, _). oc k = x) b"

text \<open>The rest of the task, from the end of the \<open>await\<close>.\<close>

definition write_end :: "ledger \<Rightarrow> bool \<Rightarrow> time \<Rightarrow> write_outcome \<Rightarrow> ledger" where
  "write_end l loop_running now out =
     (let b = lg_writing l;
          l0 = l\<lparr>lg_writing := [], lg_writer := WriterDone\<rparr>
      in case out of
           WriteCancelled \<Rightarrow> l0\<lparr>lg_unknown := lg_unknown l0 @ b\<rparr>
         | WriteReturned oc \<Rightarrow>
             (let applied = entries_with b oc Applied;
                  failed = entries_with b oc Failed;
                  unknown = entries_with b oc Unknown;
                  l1 = (if applied \<noteq> [] then land_writes l0 now applied else l0);
                  l2 = l1\<lparr>lg_unknown := lg_unknown l1 @ unknown\<rparr>
              in if failed \<noteq> []
                 then schedule_retry
                        (l2\<lparr>lg_pending := foldl (\<lambda>d (k, a). add_pending d k (am_cost a) (am_counted a) (am_requests a))
                                          (lg_pending l2) failed\<rparr>) loop_running
                 else l2\<lparr>lg_retry_delay := 0\<rparr>))"

definition write_finished :: "ledger \<Rightarrow> bool \<Rightarrow> ledger" where
  "write_finished l loop_running = start_write (l\<lparr>lg_writer := NoWriter\<rparr>) loop_running"

definition retry_now :: "ledger \<Rightarrow> bool \<Rightarrow> ledger" where
  "retry_now l loop_running = start_write (l\<lparr>lg_retry := False\<rparr>) loop_running"

text \<open>One turn of \<open>flush\<close>'s loop, with the time left: what it does to the ledger, and whether it
  returns.\<close>

definition flush_turn :: "ledger \<Rightarrow> time \<Rightarrow> bool option \<times> ledger" where
  "flush_turn l remaining =
     (if lg_writer l \<noteq> NoWriter then (if remaining \<le> 0 then Some False else None, l)
      else if lg_pending l = [] then (Some True, l)
      else if remaining \<le> 0 then (Some False, l)
      else if lg_retry l then (None, l\<lparr>lg_retry := False\<rparr>)
      else (None, start_write l True))"

definition unwritten :: "ledger \<Rightarrow> usd \<times> int" where
  "unwritten l =
     (let amounts = map snd (lg_pending l) @ map snd (lg_writing l) @ map snd (lg_unknown l)
      in (sum_list (map am_cost amounts), sum_list (map am_requests amounts)))"

section \<open>The ledger as a machine\<close>

datatype ledger_event =
    EAdmit day time spend_check usd
  | ERelease nat
  | ERecord bool day string usd "int option"
  | EBegin bool
  | EEnd bool time write_outcome
  | ECancelScheduled
  | EFinished bool
  | ERetry bool
  | EFlushTurn time

text \<open>One step of the event loop at the ledger. The writer's steps happen when its task is at that
  point; a scheduled task may be cancelled before it starts.\<close>

fun ledger_step :: "ledger \<Rightarrow> ledger_event \<Rightarrow> ledger option" where
  "ledger_step l (EAdmit today now c amount) = Some (snd (admit l today now c amount))"
| "ledger_step l (ERelease i) = Some (release_reservation l i)"
| "ledger_step l (ERecord lr today user cost key_id) = Some (record_cost l lr today user cost key_id)"
| "ledger_step l (EBegin alive) =
     (if lg_writer l = WriterScheduled then Some (write_begin l alive) else None)"
| "ledger_step l (EEnd lr now out) =
     (if lg_writer l = WriterWriting then Some (write_end l lr now out) else None)"
| "ledger_step l ECancelScheduled =
     (if lg_writer l = WriterScheduled then Some (l\<lparr>lg_writer := WriterDone\<rparr>) else None)"
| "ledger_step l (EFinished lr) =
     (if lg_writer l = WriterDone then Some (write_finished l lr) else None)"
| "ledger_step l (ERetry lr) = (if lg_retry l then Some (retry_now l lr) else None)"
| "ledger_step l (EFlushTurn remaining) = Some (snd (flush_turn l remaining))"

section \<open>Sums over entries\<close>

declare map_of_eq_Some_iff [simp del] Some_eq_map_of_iff [simp del] split_paired_All [simp del] split_paired_Ex [simp del]

text \<open>The entries of one key, summed; and what the ledger counts as unconfirmed for a key.\<close>

definition ksum :: "(amount \<Rightarrow> 'b::comm_monoid_add) \<Rightarrow> (cost_key \<times> amount) list \<Rightarrow> cost_key \<Rightarrow> 'b" where
  "ksum f es key = sum_list (map (f \<circ> snd) (filter (\<lambda>e. fst e = key) es))"

definition un_of :: "(string, (int option \<times> day, unconfirmed) dict) dict \<Rightarrow> cost_key \<Rightarrow> unconfirmed option" where
  "un_of D key = (case dict_get D (fst key) of None \<Rightarrow> None | Some d \<Rightarrow> dict_get d (snd key))"

definition uncost :: "(string, (int option \<times> day, unconfirmed) dict) dict \<Rightarrow> cost_key \<Rightarrow> usd" where
  "uncost D key = (case un_of D key of None \<Rightarrow> 0 | Some u \<Rightarrow> un_cost u)"

definition unreq :: "(string, (int option \<times> day, unconfirmed) dict) dict \<Rightarrow> cost_key \<Rightarrow> int" where
  "unreq D key = (case un_of D key of None \<Rightarrow> 0 | Some u \<Rightarrow> un_requests u)"

lemma ksum_simps [simp]:
  "ksum f [] key = 0"
  "ksum f (e # es) key = (if fst e = key then f (snd e) else 0) + ksum f es key"
  "ksum f (xs @ ys) key = ksum f xs key + ksum f ys key"
  by (auto simp: ksum_def)

lemma ksum_absent: "key \<notin> fst ` set es \<Longrightarrow> ksum f es key = 0"
  by (induction es) auto

lemma ksum_dict: "dict_wf d \<Longrightarrow> ksum f d key = (case dict_get d key of None \<Rightarrow> 0 | Some a \<Rightarrow> f a)"
proof (induction d)
  case (Cons e d)
  obtain k a where e: "e = (k, a)" by (cases e)
  show ?case using Cons ksum_absent [of k d f] by (auto simp: e)
qed simp

lemma ksum_dict_set:
  assumes "dict_wf d"
  shows "ksum f (dict_set k v d) key = (if key = k then f v else ksum f d key)"
  using assms by (simp add: ksum_dict)

lemma ksum_filter_split:
  "ksum f (filter (\<lambda>(k, _). oc k = Applied) b) key + ksum f (filter (\<lambda>(k, _). oc k = Failed) b) key +
   ksum f (filter (\<lambda>(k, _). oc k = Unknown) b) key = ksum f b key"
proof (induction b)
  case (Cons e b)
  obtain k a where e: "e = (k, a)" by (cases e)
  show ?case using Cons by (cases "oc k") (auto simp: e ac_simps)
qed simp

lemma ksum_add_pending:
  assumes "dict_wf d"
  shows "ksum am_cost (add_pending d k c n r) key = ksum am_cost d key + (if key = k then c else 0)"
    "ksum am_requests (add_pending d k c n r) key = ksum am_requests d key + (if key = k then r else 0)"
  unfolding add_pending_def using assms
  by (auto simp: ksum_dict amount_add_def dict_get_or_def new_amount_def split: option.splits)

text \<open>Entries carry at least one request, so a key without requests has no entries.\<close>

definition has_requests :: "(cost_key \<times> amount) list \<Rightarrow> bool" where
  "has_requests es \<longleftrightarrow> (\<forall>e \<in> set es. 1 \<le> am_requests (snd e))"

lemma ksum_requests_nonneg: "has_requests es \<Longrightarrow> 0 \<le> ksum am_requests es key"
  by (induction es) (auto simp: has_requests_def)

lemma ksum_requests_zero: "has_requests es \<Longrightarrow> ksum am_requests es key \<le> 0 \<Longrightarrow> key \<notin> fst ` set es"
proof (induction es)
  case (Cons e es)
  have "0 \<le> ksum am_requests es key" using Cons.prems(1) by (intro ksum_requests_nonneg) (simp add: has_requests_def)
  with Cons show ?case by (auto simp: has_requests_def split: if_splits)
qed simp

section \<open>Unconfirmed costs\<close>

definition nested_wf :: "(string, (int option \<times> day, unconfirmed) dict) dict \<Rightarrow> bool" where
  "nested_wf D \<longleftrightarrow> dict_wf D \<and> (\<forall>u d. dict_get D u = Some d \<longrightarrow> dict_wf d)"

text \<open>What is unconfirmed is exactly a list of outstanding entries.\<close>

definition outstanding :: "(string, (int option \<times> day, unconfirmed) dict) dict \<Rightarrow> (cost_key \<times> amount) list \<Rightarrow> bool" where
  "outstanding D es \<longleftrightarrow> nested_wf D \<and> has_requests es \<and>
     (\<forall>key. uncost D key = ksum am_cost es key \<and> unreq D key = ksum am_requests es key)"

lemma un_of_add:
  "un_of (add_unconfirmed D k c r) key =
     (if key = k then Some \<lparr>un_cost = uncost D k + c, un_requests = unreq D k + r\<rparr> else un_of D key)"
  by (cases k; cases key)
    (auto simp: un_of_def add_unconfirmed_def uncost_def unreq_def dict_get_or_def Let_def split: option.splits)

lemma nested_wf_add: "nested_wf D \<Longrightarrow> nested_wf (add_unconfirmed D k c r)"
  by (cases k) (auto simp: nested_wf_def add_unconfirmed_def Let_def dict_get_or_def split: option.splits if_splits)

lemma outstanding_add:
  assumes "outstanding D es" "1 \<le> am_requests a"
  shows "outstanding (add_unconfirmed D k (am_cost a) (am_requests a)) ((k, a) # es)"
  using assms
  by (auto simp: outstanding_def has_requests_def nested_wf_add uncost_def [of "add_unconfirmed _ _ _ _"]
      unreq_def [of "add_unconfirmed _ _ _ _"] un_of_add) (auto simp: uncost_def unreq_def)

lemma outstanding_sums:
  assumes "outstanding D es" "has_requests fs"
    "\<And>key. ksum am_cost fs key = ksum am_cost es key" "\<And>key. ksum am_requests fs key = ksum am_requests es key"
  shows "outstanding D fs"
  using assms by (simp add: outstanding_def)

lemma un_of_unconfirm:
  assumes "un_of D k = Some u"
  shows "un_of (unconfirm D (k, a)) key =
    (if key \<noteq> k then un_of D key
     else if un_requests u - am_requests a \<le> 0 then None
     else Some \<lparr>un_cost = un_cost u - am_cost a, un_requests = un_requests u - am_requests a\<rparr>)"
proof -
  obtain user kd where k: "k = (user, kd)" by (cases k)
  with assms obtain d where d: "dict_get D user = Some d" "dict_get d kd = Some u"
    by (auto simp: un_of_def split: option.splits)
  show ?thesis
  proof (cases "un_requests u - am_requests a \<le> 0")
    case False
    then show ?thesis using d k by (cases key) (auto simp: un_of_def unconfirm_def Let_def)
  next
    case True
    show ?thesis
    proof (cases "dict_del kd d = []")
      case True
      then have "dict_get d x = None" if "x \<noteq> kd" for x
        using dict_get_del [of kd d x] that by (metis map_of.simps(1))
      then show ?thesis using True \<open>un_requests u - am_requests a \<le> 0\<close> d k
        by (cases key) (auto simp: un_of_def unconfirm_def Let_def)
    next
      case False
      then show ?thesis using \<open>un_requests u - am_requests a \<le> 0\<close> d k
        by (cases key) (auto simp: un_of_def unconfirm_def Let_def)
    qed
  qed
qed

lemma nested_wf_unconfirm: "nested_wf D \<Longrightarrow> nested_wf (unconfirm D e)"
  by (cases e) (auto simp: nested_wf_def unconfirm_def Let_def split: option.splits if_splits)

lemma outstanding_unconfirm:
  assumes "outstanding D (e # es)"
  shows "outstanding (unconfirm D e) es"
proof -
  obtain k a where e: "e = (k, a)" by (cases e)
  have req: "1 \<le> am_requests a" and es: "has_requests es" using assms by (auto simp: outstanding_def has_requests_def e)
  have sums: "uncost D key = ksum am_cost (e # es) key" "unreq D key = ksum am_requests (e # es) key" for key
    using assms by (auto simp: outstanding_def)
  have nn: "0 \<le> ksum am_requests es k" using es by (rule ksum_requests_nonneg)
  then have "unreq D k \<noteq> 0" using sums(2) [of k] req by (simp add: e)
  then obtain u where u: "un_of D k = Some u" by (auto simp: unreq_def split: option.splits)
  then have uv: "un_requests u = am_requests a + ksum am_requests es k" "un_cost u = am_cost a + ksum am_cost es k"
    using sums [of k] by (auto simp: e uncost_def unreq_def)
  have "uncost (unconfirm D e) key = ksum am_cost es key \<and> unreq (unconfirm D e) key = ksum am_requests es key" for key
  proof (cases "key = k")
    case False
    then show ?thesis using sums [of key] by (simp add: uncost_def unreq_def e un_of_unconfirm [OF u])
  next
    case True
    show ?thesis
    proof (cases "ksum am_requests es k \<le> 0")
      case True
      then have "ksum am_cost es k = 0" by (intro ksum_absent ksum_requests_zero [OF es])
      with True nn \<open>key = k\<close> show ?thesis by (simp add: uncost_def unreq_def e un_of_unconfirm [OF u] uv)
    next
      case False
      with \<open>key = k\<close> show ?thesis by (simp add: uncost_def unreq_def e un_of_unconfirm [OF u] uv)
    qed
  qed
  moreover have "nested_wf D" using assms by (simp add: outstanding_def)
  ultimately show ?thesis using es by (simp add: outstanding_def nested_wf_unconfirm)
qed

lemma outstanding_foldl: "outstanding D (xs @ ys) \<Longrightarrow> outstanding (foldl unconfirm D xs) ys"
  by (induction xs arbitrary: D) (auto dest: outstanding_unconfirm)

section \<open>What a gate counts\<close>

text \<open>The costs of a list that satisfy a predicate on key and day, summed; the entries of one user
  as such a list.\<close>

definition csum :: "(int option \<times> day \<Rightarrow> bool) \<Rightarrow> (int option \<times> day \<times> usd) list \<Rightarrow> usd" where
  "csum P cs = sum_list (map (snd \<circ> snd) (filter (\<lambda>(k, d, _). P (k, d)) cs))"

definition costs_of :: "string \<Rightarrow> (cost_key \<times> amount) list \<Rightarrow> (int option \<times> day \<times> usd) list" where
  "costs_of user es = map (\<lambda>((_, k, d), a). (k, d, am_cost a)) (filter (\<lambda>e. fst (fst e) = user) es)"

lemma csum_simps [simp]:
  "csum P [] = 0"
  "csum P ((k, d, c) # cs) = (if P (k, d) then c else 0) + csum P cs"
  "csum P (xs @ ys) = csum P xs + csum P ys"
  by (auto simp: csum_def)

lemma csum_concat: "csum P (concat xss) = sum_list (map (csum P) xss)"
  by (induction xss) auto

lemma costs_of_simps [simp]:
  "costs_of u [] = []"
  "costs_of u (((v, k, d), a) # es) = (if v = u then [(k, d, am_cost a)] else []) @ costs_of u es"
  "costs_of u (xs @ ys) = costs_of u xs @ costs_of u ys"
  by (auto simp: costs_of_def)

abbreviation is_today :: "day \<Rightarrow> int option \<times> day \<Rightarrow> bool" where
  "is_today today kd \<equiv> starts_with (snd kd) (take 7 today) \<and> snd kd = today"

abbreviation is_month :: "day \<Rightarrow> int option \<times> day \<Rightarrow> bool" where
  "is_month today kd \<equiv> starts_with (snd kd) (take 7 today)"

abbreviation of_key :: "int option \<Rightarrow> int option \<times> day \<Rightarrow> bool" where
  "of_key key kd \<equiv> key \<noteq> None \<and> fst kd = key"

lemma fold_count:
  "fold (count_cost key today) cs t =
     \<lparr>tt_day = tt_day t + csum (is_today today) cs, tt_month = tt_month t + csum (is_month today) cs,
      tt_key_day = tt_key_day t + csum (\<lambda>kd. is_today today kd \<and> of_key key kd) cs,
      tt_key_month = tt_key_month t + csum (\<lambda>kd. is_month today kd \<and> of_key key kd) cs\<rparr>"
proof (induction cs arbitrary: t)
  case Nil
  then show ?case by simp
next
  case (Cons c cs)
  obtain k d x where c: "c = (k, d, x)" by (cases c)
  show ?case unfolding fold_simps Cons by (auto simp: c count_cost_def Let_def)
qed

definition ucosts :: "(string, (int option \<times> day, unconfirmed) dict) dict \<Rightarrow> string \<Rightarrow> (int option \<times> day \<times> usd) list" where
  "ucosts D user = (case dict_get D user of None \<Rightarrow> [] | Some d \<Rightarrow> map (\<lambda>((k, day), u). (k, day, un_cost u)) d)"

lemma unconfirmed_costs_alt: "unconfirmed_costs l user = ucosts (lg_unconfirmed l) user"
  by (simp add: unconfirmed_costs_def ucosts_def)

abbreviation dsum :: "(int option \<times> day \<Rightarrow> bool) \<Rightarrow> (int option \<times> day, unconfirmed) dict \<Rightarrow> usd" where
  "dsum P d \<equiv> csum P (map (\<lambda>((k, day), u). (k, day, un_cost u)) d)"

lemma dsum_del:
  "dict_wf d \<Longrightarrow> dict_get d kd = Some u \<Longrightarrow> dsum P (dict_del kd d) = dsum P d - (if P kd then un_cost u else 0)"
proof (induction d)
  case (Cons e d)
  obtain k day v where e: "e = ((k, day), v)" by (metis surj_pair)
  show ?case
  proof (cases "kd = (k, day)")
    case True
    then have "dict_del kd d = d" using Cons.prems(1) by (auto simp: e intro: AList.delete_idem)
    with True Cons.prems show ?thesis by (auto simp: e)
  next
    case False
    with Cons show ?thesis by (auto simp: e)
  qed
qed simp

lemma dsum_set:
  "dict_wf d \<Longrightarrow> dict_get d kd = Some u \<Longrightarrow>
   dsum P (dict_set kd v d) = dsum P d + (if P kd then un_cost v - un_cost u else 0)"
proof (induction d)
  case (Cons e d)
  obtain k day w where e: "e = ((k, day), w)" by (metis surj_pair)
  show ?case using Cons by (cases "kd = (k, day)") (auto simp: e)
qed simp

lemma unconfirm_sum:
  assumes "outstanding D (((u, kd), a) # es)"
  shows "csum P (ucosts D user) = csum P (ucosts (unconfirm D ((u, kd), a)) user) + (if u = user \<and> P kd then am_cost a else 0)"
proof -
  have sums: "uncost D (u, kd) = am_cost a + ksum am_cost es (u, kd)" "unreq D (u, kd) = am_requests a + ksum am_requests es (u, kd)"
    and es: "has_requests es" and a: "1 \<le> am_requests a" and wf: "nested_wf D"
    using assms by (auto simp: outstanding_def has_requests_def)
  have nn: "0 \<le> ksum am_requests es (u, kd)" using es by (rule ksum_requests_nonneg)
  with sums a have "unreq D (u, kd) \<noteq> 0" by simp
  then obtain d x where d: "dict_get D u = Some d" "dict_get d kd = Some x"
    by (auto simp: unreq_def un_of_def split: option.splits)
  have x: "un_cost x = am_cost a + ksum am_cost es (u, kd)" "un_requests x = am_requests a + ksum am_requests es (u, kd)"
    using sums d by (auto simp: uncost_def unreq_def un_of_def)
  have dwf: "dict_wf d" using wf d by (auto simp: nested_wf_def)
  show ?thesis
  proof (cases "un_requests x - am_requests a \<le> 0")
    case True
    then have "ksum am_cost es (u, kd) = 0" using x nn by (intro ksum_absent ksum_requests_zero [OF es]) simp
    then have ca: "un_cost x = am_cost a" using x by simp
    have "csum P (ucosts (unconfirm D ((u, kd), a)) user) =
        (if user = u then dsum P (dict_del kd d) else csum P (ucosts D user))"
      using True d by (auto simp: unconfirm_def ucosts_def Let_def)
    then show ?thesis using dsum_del [OF dwf d(2), of P] ca d(1) by (auto simp: ucosts_def)
  next
    case False
    let ?x = "\<lparr>un_cost = un_cost x - am_cost a, un_requests = un_requests x - am_requests a\<rparr>"
    have "csum P (ucosts (unconfirm D ((u, kd), a)) user) =
        (if user = u then dsum P (dict_set kd ?x d) else csum P (ucosts D user))"
      using False d by (auto simp: unconfirm_def ucosts_def Let_def)
    then show ?thesis using dsum_set [OF dwf d(2), of P ?x] d(1) by (auto simp: ucosts_def)
  qed
qed

lemma dsum_zero: "(\<forall>e \<in> set d. un_cost (snd e) = 0) \<Longrightarrow> dsum P d = 0"
proof (induction d)
  case (Cons e d)
  obtain k day v where e: "e = ((k, day), v)" by (metis surj_pair)
  from Cons show ?case by (simp add: e)
qed simp

lemma outstanding_sum: "outstanding D es \<Longrightarrow> csum P (ucosts D user) = csum P (costs_of user es)"
proof (induction es arbitrary: D)
  case Nil
  show ?case
  proof (cases "dict_get D user")
    case (Some d)
    have wf: "dict_wf d" using Nil Some by (auto simp: outstanding_def nested_wf_def)
    have "un_cost u = 0" if "(kd, u) \<in> set d" for kd u
    proof -
      have "uncost D (user, kd) = un_cost u" using that wf Some by (simp add: uncost_def un_of_def)
      with Nil show ?thesis by (simp add: outstanding_def)
    qed
    then have "\<forall>e \<in> set d. un_cost (snd e) = 0" by auto
    with Some show ?thesis using dsum_zero [of d P] by (simp add: ucosts_def)
  qed (simp add: ucosts_def)
next
  case (Cons e es)
  obtain u k day a where e: "e = ((u, k, day), a)" by (metis surj_pair)
  show ?case
    using unconfirm_sum [OF Cons.prems [unfolded e], of P user] Cons.IH [OF outstanding_unconfirm [OF Cons.prems]]
    by (auto simp: e)
qed

lemma csum_costs_dict_set:
  "dict_wf d \<Longrightarrow>
   csum P (costs_of user (dict_set key v d)) =
     csum P (costs_of user d) + (if fst key = user \<and> P (snd key)
       then am_cost v - (case dict_get d key of None \<Rightarrow> 0 | Some w \<Rightarrow> am_cost w) else 0)"
proof (induction d)
  case Nil
  then show ?case by (cases key) auto
next
  case (Cons e d)
  obtain u k day w where e: "e = ((u, k, day), w)" by (metis surj_pair)
  show ?case using Cons by (cases "key = (u, k, day)") (auto simp: e)
qed

lemma csum_add_pending:
  "dict_wf d \<Longrightarrow>
   csum P (costs_of user (add_pending d (u, k, day) c n r)) =
     csum P (costs_of user d) + (if u = user \<and> P (k, day) then c else 0)"
  unfolding add_pending_def
  by (auto simp: csum_costs_dict_set amount_add_def dict_get_or_def new_amount_def split: option.splits)

lemma group_by_user_costs:
  "(case dict_get (group_by_user es) user of None \<Rightarrow> [] | Some cs \<Rightarrow> cs) = costs_of user es"
proof -
  let ?f = "\<lambda>d ((user, k, day), a). dict_set user (dict_get_or d user [] @ [(k, day, am_cost a)]) d"
  have "dict_get_or (foldl ?f d es) user [] = dict_get_or d user [] @ costs_of user es" for d
  proof (induction es arbitrary: d)
    case (Cons e es)
    obtain u k day a where e: "e = ((u, k, day), a)" by (metis surj_pair)
    show ?case unfolding foldl.simps Cons by (auto simp: e dict_get_or_def)
  qed simp
  from this [of "[]"] show ?thesis by (simp add: group_by_user_def dict_get_or_def)
qed

section \<open>The books of the ledger\<close>

definition costs_inv :: "ledger \<Rightarrow> bool" where
  "costs_inv l \<longleftrightarrow> dict_wf (lg_pending l) \<and> dict_wf (lg_writing l) \<and>
     outstanding (lg_unconfirmed l) (lg_pending l @ lg_writing l @ lg_unknown l) \<and>
     (lg_writer l \<noteq> WriterWriting \<longrightarrow> lg_writing l = [])"

text \<open>Amounts of the open reservations that satisfy \<open>P\<close>, and a table that counts them per owner.\<close>

definition open_for :: "(reservation \<Rightarrow> bool) \<Rightarrow> reservation list \<Rightarrow> usd list" where
  "open_for P rs = map rv_amount (filter (\<lambda>r. rv_open r \<and> P r) rs)"

definition table_ok :: "('w, usd \<times> int) dict \<Rightarrow> ('w \<Rightarrow> usd list) \<Rightarrow> bool" where
  "table_ok t f \<longleftrightarrow>
     (\<forall>w. dict_get t w = (if f w = [] then None else Some (sum_list (f w), int (length (f w)))))"

definition reserve_inv :: "ledger \<Rightarrow> bool" where
  "reserve_inv l \<longleftrightarrow>
     table_ok (lg_reserved_users l) (\<lambda>u. open_for (\<lambda>r. rv_user r = u) (lg_reservations l)) \<and>
     table_ok (lg_reserved_keys l) (\<lambda>k. open_for (\<lambda>r. rv_key r = Some k) (lg_reservations l))"

definition ledger_inv :: "ledger \<Rightarrow> bool" where
  "ledger_inv l \<longleftrightarrow> costs_inv l \<and> reserve_inv l"

lemma has_requests_Nil [simp]: "has_requests []"
  by (simp add: has_requests_def)

lemma has_requests_append [simp]: "has_requests (xs @ ys) \<longleftrightarrow> has_requests xs \<and> has_requests ys"
  by (auto simp: has_requests_def)

lemma has_requests_filter: "has_requests es \<Longrightarrow> has_requests (filter P es)"
  by (auto simp: has_requests_def)

lemma has_requests_add_pending:
  assumes "has_requests d" "1 \<le> r"
  shows "has_requests (add_pending d k c n r)"
proof -
  have "0 \<le> am_requests (dict_get_or d k new_amount)"
    using assms(1) by (auto simp: dict_get_or_def new_amount_def has_requests_def dest!: map_of_SomeD split: option.splits)
  then show ?thesis
    using assms dict_set_entries [of k "amount_add (dict_get_or d k new_amount) c n r" d]
    by (auto simp: add_pending_def has_requests_def amount_add_def)
qed

lemma dict_wf_add_pending: "dict_wf d \<Longrightarrow> dict_wf (add_pending d k c n r)"
  by (simp add: add_pending_def)

abbreviation add_back :: "batch \<Rightarrow> (cost_key \<times> amount) list \<Rightarrow> batch" where
  "add_back d fs \<equiv> foldl (\<lambda>d (k, a). add_pending d k (am_cost a) (am_counted a) (am_requests a)) d fs"

lemma add_back:
  assumes "dict_wf d" "has_requests d" "has_requests fs"
  shows "dict_wf (add_back d fs)" "has_requests (add_back d fs)"
    "ksum am_cost (add_back d fs) key = ksum am_cost d key + ksum am_cost fs key"
    "ksum am_requests (add_back d fs) key = ksum am_requests d key + ksum am_requests fs key"
    "csum P (costs_of user (add_back d fs)) = csum P (costs_of user d) + csum P (costs_of user fs)"
proof -
  have "dict_wf (add_back d fs) \<and> has_requests (add_back d fs) \<and>
    ksum am_cost (add_back d fs) key = ksum am_cost d key + ksum am_cost fs key \<and>
    ksum am_requests (add_back d fs) key = ksum am_requests d key + ksum am_requests fs key \<and>
    csum P (costs_of user (add_back d fs)) = csum P (costs_of user d) + csum P (costs_of user fs)"
    using assms
  proof (induction fs arbitrary: d)
    case (Cons e fs)
    obtain u k day a where e: "e = ((u, k, day), a)" by (metis surj_pair)
    let ?d = "add_pending d (u, k, day) (am_cost a) (am_counted a) (am_requests a)"
    have fs: "has_requests fs" "1 \<le> am_requests a" using Cons.prems(3) by (auto simp: has_requests_def e)
    have "add_back d (e # fs) = add_back ?d fs" by (simp add: e)
    then show ?case
      using Cons.IH [OF dict_wf_add_pending [OF Cons.prems(1)] has_requests_add_pending [OF Cons.prems(2) fs(2)] fs(1)]
        ksum_add_pending [OF Cons.prems(1)] csum_add_pending [OF Cons.prems(1)]
      by (auto simp: e)
  qed simp
  then show "dict_wf (add_back d fs)" "has_requests (add_back d fs)"
    "ksum am_cost (add_back d fs) key = ksum am_cost d key + ksum am_cost fs key"
    "ksum am_requests (add_back d fs) key = ksum am_requests d key + ksum am_requests fs key"
    "csum P (costs_of user (add_back d fs)) = csum P (costs_of user d) + csum P (costs_of user fs)" by auto
qed

lemma outstanding_has_requests: "outstanding D es \<Longrightarrow> has_requests es"
  by (simp add: outstanding_def)

text \<open>The state a returned write leaves, in one expression.\<close>

lemma write_end_returned:
  fixes l oc lr now
  defines "ap \<equiv> entries_with (lg_writing l) oc Applied" and "fl \<equiv> entries_with (lg_writing l) oc Failed"
    and "un \<equiv> entries_with (lg_writing l) oc Unknown"
  defines "r \<equiv> write_end l lr now (WriteReturned oc)"
  shows "lg_pending r = add_back (lg_pending l) fl" "lg_writing r = []" "lg_unknown r = lg_unknown l @ un"
    "lg_unconfirmed r = foldl unconfirm (lg_unconfirmed l) ap" "lg_writer r = WriterDone"
    "lg_reserved_users r = lg_reserved_users l" "lg_reserved_keys r = lg_reserved_keys l"
    "lg_reservations r = lg_reservations l"
    "lg_landed (forget_landed r now) =
       lg_landed (forget_landed l now) @ (if ap = [] then [] else [(now, group_by_user ap)])"
proof -
  have recent: "\<not> now < now - LANDED_WINDOW_SECONDS" by (simp add: LANDED_WINDOW_SECONDS_def)
  have "dropWhile (\<lambda>(t, _). t < now - LANDED_WINDOW_SECONDS) (xs @ [(now, g)]) =
      dropWhile (\<lambda>(t, _). t < now - LANDED_WINDOW_SECONDS) xs @ [(now, g)]" for xs :: "landed list" and g
    using recent by (induction xs) auto
  moreover have "dropWhile P (dropWhile P xs) = dropWhile P xs" for P and xs :: "landed list" by simp
  ultimately show "lg_landed (forget_landed r now) =
       lg_landed (forget_landed l now) @ (if ap = [] then [] else [(now, group_by_user ap)])"
    unfolding r_def ap_def
    by (auto simp: write_end_def Let_def land_writes_def forget_landed_def schedule_retry_def)
qed (auto simp: r_def ap_def fl_def un_def write_end_def Let_def land_writes_def forget_landed_def schedule_retry_def)

lemma write_end_outstanding:
  assumes inv: "costs_inv l"
  shows "costs_inv (write_end l lr now out)"
proof (cases out)
  case WriteCancelled
  have out: "outstanding (lg_unconfirmed l) (lg_pending l @ lg_writing l @ lg_unknown l)" using inv by (simp add: costs_inv_def)
  note req = outstanding_has_requests [OF this]
  have "outstanding (lg_unconfirmed l) (lg_pending l @ [] @ (lg_unknown l @ lg_writing l))"
    by (rule outstanding_sums [OF out]) (use req in \<open>simp_all add: ac_simps\<close>)
  with inv WriteCancelled show ?thesis by (simp add: costs_inv_def write_end_def)
next
  case (WriteReturned oc)
  let ?ap = "entries_with (lg_writing l) oc Applied" and ?fl = "entries_with (lg_writing l) oc Failed"
    and ?un = "entries_with (lg_writing l) oc Unknown"
  have out: "outstanding (lg_unconfirmed l) (lg_pending l @ lg_writing l @ lg_unknown l)" using inv by (simp add: costs_inv_def)
  then have req: "has_requests (lg_pending l)" "has_requests (lg_writing l)" "has_requests (lg_unknown l)"
    by (auto dest: outstanding_has_requests)
  then have parts: "has_requests ?ap" "has_requests ?fl" "has_requests ?un"
    by (auto simp: entries_with_def intro: has_requests_filter)
  note thirds = ksum_filter_split [where b = "lg_writing l" and oc = oc, folded entries_with_def]
  have "outstanding (lg_unconfirmed l) (?ap @ lg_pending l @ ?fl @ ?un @ lg_unknown l)"
    by (rule outstanding_sums [OF out]) (use req parts in \<open>auto simp: thirds [symmetric] ac_simps\<close>)
  then have after: "outstanding (foldl unconfirm (lg_unconfirmed l) ?ap) (lg_pending l @ ?fl @ ?un @ lg_unknown l)"
    by (rule outstanding_foldl)
  have wf: "dict_wf (lg_pending l)" using inv by (simp add: costs_inv_def)
  note restored = add_back [OF wf req(1) parts(2)]
  have "outstanding (foldl unconfirm (lg_unconfirmed l) ?ap) (add_back (lg_pending l) ?fl @ [] @ lg_unknown l @ ?un)"
    by (rule outstanding_sums [OF after]) (use req parts restored in \<open>auto simp: ac_simps\<close>)
  then show ?thesis
    using restored(1) by (simp add: costs_inv_def WriteReturned write_end_returned)
qed

lemma record_outstanding:
  assumes inv: "costs_inv l"
  shows "costs_inv (record_cost l lr today user cost key_id)"
proof (cases "user = [] \<or> \<not> cost > 0")
  case True
  with inv show ?thesis by (simp add: record_cost_def)
next
  case False
  let ?k = "(user, key_id, today)" and ?a = "\<lparr>am_cost = cost, am_counted = counted_amount cost, am_requests = 1\<rparr>"
  let ?p = "add_pending (lg_pending l) ?k cost (counted_amount cost) 1"
  have out: "outstanding (lg_unconfirmed l) (lg_pending l @ lg_writing l @ lg_unknown l)" and wf: "dict_wf (lg_pending l)"
    using inv by (auto simp: costs_inv_def)
  have req: "has_requests (lg_pending l)" "has_requests (lg_writing l)" "has_requests (lg_unknown l)"
    using outstanding_has_requests [OF out] by auto
  have "outstanding (add_unconfirmed (lg_unconfirmed l) ?k cost 1) ((?k, ?a) # lg_pending l @ lg_writing l @ lg_unknown l)"
    using outstanding_add [OF out, of ?a ?k] by simp
  then have "outstanding (add_unconfirmed (lg_unconfirmed l) ?k cost 1) (?p @ lg_writing l @ lg_unknown l)"
    by (rule outstanding_sums) (use req in \<open>auto simp: ksum_add_pending [OF wf] has_requests_add_pending\<close>)
  with inv False wf show ?thesis
    by (auto simp: record_cost_def costs_inv_def start_write_def Let_def dict_wf_add_pending)
qed

lemma begin_outstanding:
  assumes inv: "costs_inv l" and w: "lg_writer l = WriterScheduled"
  shows "costs_inv (write_begin l alive)"
proof -
  have out: "outstanding (lg_unconfirmed l) (lg_pending l @ lg_writing l @ lg_unknown l)" and e: "lg_writing l = []"
    using inv w by (auto simp: costs_inv_def)
  have "outstanding (foldl unconfirm (lg_unconfirmed l) (lg_pending l)) (lg_unknown l)"
    using outstanding_foldl [OF out] e by simp
  with out e inv show ?thesis by (auto simp: write_begin_def costs_inv_def Let_def)
qed

lemma open_for_simps [simp]:
  "open_for P [] = []"
  "open_for P (r # rs) = (if rv_open r \<and> P r then [rv_amount r] else []) @ open_for P rs"
  "open_for P (rs @ ss) = open_for P rs @ open_for P ss"
  by (auto simp: open_for_def)

lemma open_for_close:
  assumes "i < length rs" "rv_open (rs ! i)"
  shows "sum_list (open_for P (rs[i := (rs ! i)\<lparr>rv_open := False\<rparr>])) = sum_list (open_for P rs) - (if P (rs ! i) then rv_amount (rs ! i) else 0)"
    "length (open_for P rs) = length (open_for P (rs[i := (rs ! i)\<lparr>rv_open := False\<rparr>])) + (if P (rs ! i) then 1 else 0)"
proof -
  have "sum_list (open_for P (rs[i := (rs ! i)\<lparr>rv_open := False\<rparr>])) = sum_list (open_for P rs) - (if P (rs ! i) then rv_amount (rs ! i) else 0) \<and>
    length (open_for P rs) = length (open_for P (rs[i := (rs ! i)\<lparr>rv_open := False\<rparr>])) + (if P (rs ! i) then 1 else 0)"
    using assms
  proof (induction rs arbitrary: i)
    case (Cons r rs)
    show ?case using Cons.prems Cons.IH [of "i - 1"] by (cases i) auto
  qed simp
  then show "sum_list (open_for P (rs[i := (rs ! i)\<lparr>rv_open := False\<rparr>])) = sum_list (open_for P rs) - (if P (rs ! i) then rv_amount (rs ! i) else 0)"
    "length (open_for P rs) = length (open_for P (rs[i := (rs ! i)\<lparr>rv_open := False\<rparr>])) + (if P (rs ! i) then 1 else 0)" by auto
qed

lemma open_for_other: "i < length rs \<Longrightarrow> \<not> P (rs ! i) \<Longrightarrow> open_for P (rs[i := (rs ! i)\<lparr>rv_open := False\<rparr>]) = open_for P rs"
proof (induction rs arbitrary: i)
  case (Cons r rs)
  then show ?case by (cases i) auto
qed simp

lemma table_ok_add:
  assumes "table_ok t f" "g w = f w @ [a]" "\<And>v. v \<noteq> w \<Longrightarrow> g v = f v"
  shows "table_ok (add_reserved t w a) g"
  using assms by (auto simp: table_ok_def add_reserved_def split: option.splits if_splits)

lemma table_ok_remove:
  assumes ok: "table_ok t f" and n: "length (f w) = Suc (length (g w))" "sum_list (g w) = sum_list (f w) - a"
    and "\<And>v. v \<noteq> w \<Longrightarrow> g v = f v"
  shows "table_ok (remove_reserved t w a) g"
proof -
  have t: "dict_get t w = Some (sum_list (f w), int (length (f w)))" using ok n by (auto simp: table_ok_def)
  have "dict_get (remove_reserved t w a) v = (if g v = [] then None else Some (sum_list (g v), int (length (g v))))" for v
    using assms t by (cases "v = w"; cases "g w = []") (auto simp: remove_reserved_def table_ok_def)
  then show ?thesis by (simp add: table_ok_def)
qed

lemma refusal_ledger: "snd (refusal l today now c) = forget_landed l now"
  by (simp add: refusal_def extra_def Let_def)

lemma admit_cases:
  obtains (refused) r where "refusal l today now c = (Some r, forget_landed l now)"
      "admit l today now c a = (Inl r, forget_landed l now)"
    | (admitted) "refusal l today now c = (None, forget_landed l now)"
      "admit l today now c a = (Inr (length (lg_reservations l)),
        (forget_landed l now)\<lparr>lg_reservations := lg_reservations l @
             [\<lparr>rv_user = sc_user c, rv_key = sc_key c, rv_amount = a, rv_open = True\<rparr>],
           lg_reserved_users := add_reserved (lg_reserved_users l) (sc_user c) a,
           lg_reserved_keys := (case sc_key c of None \<Rightarrow> lg_reserved_keys l
                                | Some k \<Rightarrow> add_reserved (lg_reserved_keys l) k a)\<rparr>)"
proof -
  obtain o' where r: "refusal l today now c = (o', forget_landed l now)"
    using refusal_ledger [of l today now c] by (metis prod.collapse)
  show thesis
  proof (cases o')
    case None
    with r show thesis by (intro admitted) (auto simp: admit_def forget_landed_def split: option.splits)
  next
    case (Some b)
    with r show thesis by (intro refused [of b]) (auto simp: admit_def)
  qed
qed

lemma forget_inv [simp]: "costs_inv (forget_landed l now) = costs_inv l" "reserve_inv (forget_landed l now) = reserve_inv l"
  by (simp_all add: forget_landed_def costs_inv_def reserve_inv_def)

lemma admit_inv:
  assumes "ledger_inv l"
  shows "ledger_inv (snd (admit l today now c a))"
proof (cases rule: admit_cases [of l today now c a])
  case (refused r)
  with assms show ?thesis by (simp add: ledger_inv_def)
next
  case admitted
  have "costs_inv (snd (admit l today now c a))" using assms by (simp add: admitted ledger_inv_def costs_inv_def forget_landed_def)
  moreover have "reserve_inv (snd (admit l today now c a))"
  proof -
    have "table_ok (add_reserved (lg_reserved_users l) (sc_user c) a)
        (\<lambda>u. open_for (\<lambda>r. rv_user r = u) (lg_reservations l @ [\<lparr>rv_user = sc_user c, rv_key = sc_key c, rv_amount = a, rv_open = True\<rparr>]))"
      using assms by (intro table_ok_add) (auto simp: ledger_inv_def reserve_inv_def)
    moreover have "table_ok (case sc_key c of None \<Rightarrow> lg_reserved_keys l | Some k \<Rightarrow> add_reserved (lg_reserved_keys l) k a)
        (\<lambda>k. open_for (\<lambda>r. rv_key r = Some k) (lg_reservations l @ [\<lparr>rv_user = sc_user c, rv_key = sc_key c, rv_amount = a, rv_open = True\<rparr>]))"
      using assms by (cases "sc_key c") (auto simp: ledger_inv_def reserve_inv_def intro: table_ok_add)
    ultimately show ?thesis by (simp add: admitted reserve_inv_def)
  qed
  ultimately show ?thesis by (simp add: ledger_inv_def)
qed

lemma release_inv:
  assumes "ledger_inv l"
  shows "ledger_inv (release_reservation l i)"
proof (cases "i < length (lg_reservations l) \<and> rv_open (lg_reservations l ! i)")
  case False
  with assms show ?thesis by (auto simp: release_reservation_def)
next
  case True
  let ?rs = "lg_reservations l" and ?r = "lg_reservations l ! i"
  let ?ss = "?rs[i := ?r\<lparr>rv_open := False\<rparr>]"
  note close = open_for_close [OF conjunct1 [OF True] conjunct2 [OF True]]
  have "table_ok (remove_reserved (lg_reserved_users l) (rv_user ?r) (rv_amount ?r)) (\<lambda>u. open_for (\<lambda>r. rv_user r = u) ?ss)"
    using assms True close [of "\<lambda>r. rv_user r = rv_user ?r"]
    by (intro table_ok_remove [where f = "\<lambda>u. open_for (\<lambda>r. rv_user r = u) ?rs"])
      (auto simp: ledger_inv_def reserve_inv_def open_for_other)
  moreover have "table_ok (case rv_key ?r of None \<Rightarrow> lg_reserved_keys l | Some k \<Rightarrow> remove_reserved (lg_reserved_keys l) k (rv_amount ?r))
      (\<lambda>k. open_for (\<lambda>r. rv_key r = Some k) ?ss)"
  proof (cases "rv_key ?r")
    case None
    with assms True show ?thesis by (simp add: ledger_inv_def reserve_inv_def open_for_other)
  next
    case (Some k)
    with assms True close [of "\<lambda>r. rv_key r = Some k"] show ?thesis
      by (auto simp: ledger_inv_def reserve_inv_def open_for_other
          intro!: table_ok_remove [where f = "\<lambda>k. open_for (\<lambda>r. rv_key r = Some k) ?rs"])
  qed
  moreover have "costs_inv (release_reservation l i)"
    using assms True by (simp add: release_reservation_def unreserve_def ledger_inv_def costs_inv_def)
  ultimately show ?thesis
    using True by (simp add: ledger_inv_def release_reservation_def unreserve_def reserve_inv_def cong: option.case_cong)
qed

lemma start_write_inv [simp]: "costs_inv (start_write l lr) = costs_inv l" "reserve_inv (start_write l lr) = reserve_inv l"
  by (auto simp: start_write_def costs_inv_def reserve_inv_def)

lemma reserve_inv_same:
  "lg_reserved_users l' = lg_reserved_users l \<Longrightarrow> lg_reserved_keys l' = lg_reserved_keys l \<Longrightarrow>
   lg_reservations l' = lg_reservations l \<Longrightarrow> reserve_inv l' = reserve_inv l"
  by (simp add: reserve_inv_def)

lemma write_end_reserved:
  "lg_reserved_users (write_end l lr now out) = lg_reserved_users l"
  "lg_reserved_keys (write_end l lr now out) = lg_reserved_keys l"
  "lg_reservations (write_end l lr now out) = lg_reservations l"
  by (cases out; simp add: write_end_returned; simp add: write_end_def Let_def)+

lemma ledger_step_inv:
  assumes inv: "ledger_inv l" and step: "ledger_step l e = Some l'"
  shows "ledger_inv l'"
proof -
  have c: "costs_inv l" and r: "reserve_inv l" using inv by (auto simp: ledger_inv_def)
  show ?thesis
  proof (cases e)
    case (EAdmit today now c a)
    with step admit_inv [OF inv] show ?thesis by auto
  next
    case (ERelease i)
    with step release_inv [OF inv] show ?thesis by auto
  next
    case (ERecord lr today user cost key_id)
    have "reserve_inv (record_cost l lr today user cost key_id) = reserve_inv l"
      by (rule reserve_inv_same) (auto simp: record_cost_def start_write_def Let_def)
    with step ERecord record_outstanding [OF c] r show ?thesis by (auto simp: ledger_inv_def)
  next
    case (EBegin alive)
    have "reserve_inv (write_begin l alive) = reserve_inv l"
      by (rule reserve_inv_same) (auto simp: write_begin_def Let_def)
    with step EBegin begin_outstanding [OF c] r show ?thesis by (auto simp: ledger_inv_def split: if_splits)
  next
    case (EEnd lr now out)
    have "reserve_inv (write_end l lr now out) = reserve_inv l"
      by (rule reserve_inv_same) (simp_all add: write_end_reserved)
    with step EEnd write_end_outstanding [OF c] r show ?thesis by (auto simp: ledger_inv_def split: if_splits)
  next
    case (EFinished lr)
    with step c r show ?thesis
      by (auto simp: ledger_inv_def write_finished_def costs_inv_def [of "_\<lparr>lg_writer := _\<rparr>"] reserve_inv_def [of "_\<lparr>lg_writer := _\<rparr>"]
          split: if_splits) (auto simp: costs_inv_def reserve_inv_def)
  next
    case ECancelScheduled
    with step c r show ?thesis by (auto simp: ledger_inv_def costs_inv_def reserve_inv_def split: if_splits)
  next
    case (ERetry lr)
    with step c r show ?thesis
      by (auto simp: ledger_inv_def retry_now_def split: if_splits) (auto simp: costs_inv_def reserve_inv_def)
  next
    case (EFlushTurn remaining)
    with step c r show ?thesis
      by (auto simp: ledger_inv_def flush_turn_def split: if_splits) (auto simp: costs_inv_def reserve_inv_def)
  qed
qed

interpretation ledger: kept_by_relation "\<lambda>l e l'. ledger_step l e = Some l'" ledger_inv
  by unfold_locales (rule ledger_step_inv)

lemma ledger_inv_init: "ledger_inv SpendLedger_init"
  by (simp add: ledger_inv_def costs_inv_def reserve_inv_def table_ok_def SpendLedger_init_def outstanding_def
      nested_wf_def has_requests_def uncost_def unreq_def un_of_def)

lemma ledger_run_inv: "steps ledger_step SpendLedger_init es = Some l \<Longrightarrow> ledger_inv l"
  by (rule ledger.reach_keeps [OF steps_reach ledger_inv_init])

section \<open>Properties\<close>

text \<open>C39. The ledger's books, after any interleaving of admissions, releases, records, writes with any
  outcome, retries and flushes: what it counts as unconfirmed for a user, key and day is exactly
  what is pending, being written, or written with an unknown outcome; and what it counts as reserved
  for a user or key is exactly the open reservations, with their number.\<close>

theorem ledger_books:
  assumes "steps ledger_step SpendLedger_init es = Some l"
  shows "(\<forall>key. uncost (lg_unconfirmed l) key = ksum am_cost (lg_pending l @ lg_writing l @ lg_unknown l) key \<and>
        unreq (lg_unconfirmed l) key = ksum am_requests (lg_pending l @ lg_writing l @ lg_unknown l) key) \<and>
    (\<forall>u. let open_ones = filter (\<lambda>r. rv_open r \<and> rv_user r = u) (lg_reservations l) in
        dict_get (lg_reserved_users l) u =
          (if open_ones = [] then None else Some (sum_list (map rv_amount open_ones), int (length open_ones)))) \<and>
    (\<forall>k. let open_ones = filter (\<lambda>r. rv_open r \<and> rv_key r = Some k) (lg_reservations l) in
        dict_get (lg_reserved_keys l) k =
          (if open_ones = [] then None else Some (sum_list (map rv_amount open_ones), int (length open_ones))))"
  using ledger_run_inv [OF assms]
  by (simp add: ledger_inv_def costs_inv_def outstanding_def reserve_inv_def table_ok_def open_for_def Let_def)

definition demo_check :: spend_check where
  "demo_check = \<lparr>sc_user = ''u'', sc_key = Some 7, sc_read_at = 0,
     sc_budget = \<lparr>bu_account_daily = 10, bu_account_spent = 1, bu_account_monthly = None, bu_account_spent_month = 1,
       bu_key_daily = Some 2, bu_key_monthly = None, bu_key_spent_today = 1, bu_key_spent_month = 1,
       bu_key_prefix = None, bu_key_label = None\<rparr>\<rparr>"

definition demo_events :: "ledger_event list" where
  "demo_events = [EAdmit ''2026-01-02'' 1 demo_check (1 / 100), ERecord True ''2026-01-02'' ''u'' (1 / 4) (Some 7),
     ERelease 0, EBegin True]"

theorem ledger_books_witness:
  "\<exists>l. steps ledger_step SpendLedger_init demo_events = Some l \<and> lg_writer l = WriterWriting \<and>
     uncost (lg_unconfirmed l) (''u'', Some 7, ''2026-01-02'') =
       ksum am_cost (lg_pending l @ lg_writing l @ lg_unknown l) (''u'', Some 7, ''2026-01-02'')"
proof -
  have w: "map_option lg_writer (steps ledger_step SpendLedger_init demo_events) = Some WriterWriting" by code_simp
  then obtain l where l: "steps ledger_step SpendLedger_init demo_events = Some l" "lg_writer l = WriterWriting" by auto
  then show ?thesis using ledger_books [OF l(1)] by blast
qed

lemma landed_costs_app:
  assumes "read_at \<le> now"
  shows "csum P (landed_costs (l\<lparr>lg_landed := xs @ [(now, g)]\<rparr>) u read_at now) =
    csum P (case dict_get g u of None \<Rightarrow> [] | Some cs \<Rightarrow> cs) + csum P (landed_costs (l\<lparr>lg_landed := xs\<rparr>) u read_at now)"
  using assms by (simp add: landed_costs_def Let_def split: option.split)

lemma landed_costs_upd: "lg_landed l = xs \<Longrightarrow> landed_costs l u read_at now = landed_costs (m\<lparr>lg_landed := xs\<rparr>) u read_at now"
  by (simp add: landed_costs_def)

lemma extra_cong:
  assumes "\<And>P. csum P (unconfirmed_costs l user) + csum P (landed_costs (forget_landed l now) user read_at now) =
      csum P (unconfirmed_costs l' user) + csum P (landed_costs (forget_landed l' now) user read_at now)"
    and "lg_reserved_users l' = lg_reserved_users l" "lg_reserved_keys l' = lg_reserved_keys l"
  shows "fst (extra l' today now user key read_at) = fst (extra l today now user key read_at)"
proof -
  have "csum P (unconfirmed_costs (forget_landed l now) user @ landed_costs (forget_landed l now) user read_at now) =
      csum P (unconfirmed_costs (forget_landed l' now) user @ landed_costs (forget_landed l' now) user read_at now)" for P
    using assms(1) [of P] by (simp add: forget_landed_def unconfirmed_costs_def)
  then have "fold (count_cost key today) (unconfirmed_costs (forget_landed l' now) user @ landed_costs (forget_landed l' now) user read_at now) no_totals =
      fold (count_cost key today) (unconfirmed_costs (forget_landed l now) user @ landed_costs (forget_landed l now) user read_at now) no_totals"
    by (simp only: fold_count)
  then show ?thesis unfolding extra_def Let_def assms(2,3) by (simp only: fst_conv)
qed

lemma costs_of_split:
  "csum P (costs_of u (filter (\<lambda>(k, _). oc k = Applied) b)) + csum P (costs_of u (filter (\<lambda>(k, _). oc k = Failed) b)) +
   csum P (costs_of u (filter (\<lambda>(k, _). oc k = Unknown) b)) = csum P (costs_of u b)"
proof (induction b)
  case (Cons e b)
  obtain v k d a where e: "e = ((v, k, d), a)" by (metis surj_pair)
  show ?case using Cons by (cases "oc (v, k, d)") (auto simp: e)
qed simp

text \<open>No gap while a cost moves to the counters. However a write in flight ends -- applied, failed,
  partly applied, of unknown outcome, or cancelled -- it changes nothing of what any gate counts that
  read the counters before it ended: what leaves the unconfirmed costs is counted as landed, and
  everything else stays.\<close>

lemma write_end_keeps_extra:
  assumes run: "steps ledger_step SpendLedger_init es = Some l" and "lg_writer l = WriterWriting" and "read_at \<le> now"
  shows "fst (extra (write_end l lr now out) today now user key read_at) = fst (extra l today now user key read_at)"
proof (rule extra_cong)
  let ?r = "write_end l lr now out"
  have inv: "costs_inv l" using ledger_run_inv [OF run] by (simp add: ledger_inv_def)
  have before: "csum P (unconfirmed_costs l user) = csum P (costs_of user (lg_pending l @ lg_writing l @ lg_unknown l))" for P
    unfolding unconfirmed_costs_alt using inv by (intro outstanding_sum) (simp add: costs_inv_def)
  have after: "csum P (unconfirmed_costs ?r user) = csum P (costs_of user (lg_pending ?r @ lg_writing ?r @ lg_unknown ?r))" for P
    unfolding unconfirmed_costs_alt using write_end_outstanding [OF inv, of lr now out]
    by (intro outstanding_sum) (simp add: costs_inv_def)
  show "csum P (unconfirmed_costs l user) + csum P (landed_costs (forget_landed l now) user read_at now) =
      csum P (unconfirmed_costs ?r user) + csum P (landed_costs (forget_landed ?r now) user read_at now)" for P
  proof (cases out)
    case WriteCancelled
    then have "lg_landed ?r = lg_landed l" by (simp add: write_end_def Let_def)
    then have "landed_costs (forget_landed ?r now) user read_at now = landed_costs (forget_landed l now) user read_at now"
      by (simp add: landed_costs_def forget_landed_def)
    then show ?thesis unfolding before after by (simp add: WriteCancelled write_end_def Let_def)
  next
    case (WriteReturned oc)
    let ?ap = "entries_with (lg_writing l) oc Applied" and ?fl = "entries_with (lg_writing l) oc Failed"
      and ?un = "entries_with (lg_writing l) oc Unknown"
    have req: "has_requests (lg_pending l)" "has_requests ?fl" and wf: "dict_wf (lg_pending l)"
      using inv by (auto simp: costs_inv_def entries_with_def dest!: outstanding_has_requests intro: has_requests_filter)
    have landed: "csum P (landed_costs (forget_landed ?r now) user read_at now) =
        csum P (costs_of user ?ap) + csum P (landed_costs (forget_landed l now) user read_at now)"
    proof (cases "?ap = []")
      case True
      then show ?thesis using write_end_returned(9) [of l lr now oc] by (simp add: WriteReturned landed_costs_def)
    next
      case False
      then have "lg_landed (forget_landed ?r now) = lg_landed (forget_landed l now) @ [(now, group_by_user ?ap)]"
        using write_end_returned(9) [of l lr now oc] by (simp add: WriteReturned)
      from landed_costs_upd [OF this, where m = "forget_landed l now"] show ?thesis
        using landed_costs_app [OF assms(3), where P = P and l = "forget_landed l now" and xs = "lg_landed (forget_landed l now)"
            and g = "group_by_user ?ap" and u = user]
        by (simp add: group_by_user_costs)
    qed
    have "csum P (unconfirmed_costs ?r user) =
        csum P (costs_of user (add_back (lg_pending l) ?fl)) + csum P (costs_of user (lg_unknown l)) + csum P (costs_of user ?un)"
      unfolding after by (simp add: WriteReturned write_end_returned)
    then show ?thesis
      unfolding before landed
      using costs_of_split [of P user oc "lg_writing l", folded entries_with_def] add_back(5) [OF wf req, of P user]
      by simp
  qed
qed (simp_all add: write_end_reserved)

lemma extra_reserved:
  assumes "\<And>P. csum P (unconfirmed_costs l' user) + csum P (landed_costs (forget_landed l' now) user read_at now) =
      csum P (unconfirmed_costs l user) + csum P (landed_costs (forget_landed l now) user read_at now)"
    and u: "(case dict_get (lg_reserved_users l') user of None \<Rightarrow> 0 | Some (a, _) \<Rightarrow> a) =
      (case dict_get (lg_reserved_users l) user of None \<Rightarrow> 0 | Some (a, _) \<Rightarrow> a) + x"
    and k: "\<And>i. key = Some i \<Longrightarrow> (case dict_get (lg_reserved_keys l') i of None \<Rightarrow> 0 | Some (a, _) \<Rightarrow> a) =
      (case dict_get (lg_reserved_keys l) i of None \<Rightarrow> 0 | Some (a, _) \<Rightarrow> a) + y"
  shows "tt_day (fst (extra l' today now user key read_at)) = tt_day (fst (extra l today now user key read_at)) + x"
    "tt_month (fst (extra l' today now user key read_at)) = tt_month (fst (extra l today now user key read_at)) + x"
    "key \<noteq> None \<Longrightarrow> tt_key_day (fst (extra l' today now user key read_at)) = tt_key_day (fst (extra l today now user key read_at)) + y"
    "key \<noteq> None \<Longrightarrow> tt_key_month (fst (extra l' today now user key read_at)) = tt_key_month (fst (extra l today now user key read_at)) + y"
proof -
  have e: "csum P (unconfirmed_costs (forget_landed l' now) user @ landed_costs (forget_landed l' now) user read_at now) =
      csum P (unconfirmed_costs (forget_landed l now) user @ landed_costs (forget_landed l now) user read_at now)" for P
    using assms(1) [of P] by (simp add: forget_landed_def unconfirmed_costs_def)
  define t where "t = fold (count_cost key today)
      (unconfirmed_costs (forget_landed l now) user @ landed_costs (forget_landed l now) user read_at now) no_totals"
  have t': "fold (count_cost key today)
      (unconfirmed_costs (forget_landed l' now) user @ landed_costs (forget_landed l' now) user read_at now) no_totals = t"
    unfolding t_def by (simp only: fold_count e)
  show "tt_day (fst (extra l' today now user key read_at)) = tt_day (fst (extra l today now user key read_at)) + x"
    "tt_month (fst (extra l' today now user key read_at)) = tt_month (fst (extra l today now user key read_at)) + x"
    using u unfolding extra_def Let_def t' t_def [symmetric] by (auto split: option.splits)
  show "tt_key_day (fst (extra l' today now user key read_at)) = tt_key_day (fst (extra l today now user key read_at)) + y"
    "tt_key_month (fst (extra l' today now user key read_at)) = tt_key_month (fst (extra l today now user key read_at)) + y"
    if "key \<noteq> None"
    using k that unfolding extra_def Let_def t' t_def [symmetric] by (auto split: option.splits)
qed

lemma add_reserved_get:
  "(case dict_get (add_reserved t w a) w of None \<Rightarrow> 0 | Some (b, _) \<Rightarrow> b) =
     (case dict_get t w of None \<Rightarrow> 0 | Some (b, _) \<Rightarrow> b) + a"
  by (auto simp: add_reserved_def split: option.splits)



text \<open>What a gate counts, as sums.\<close>

abbreviation counted_by :: "ledger \<Rightarrow> string \<Rightarrow> time \<Rightarrow> time \<Rightarrow> (int option \<times> day \<Rightarrow> bool) \<Rightarrow> usd" where
  "counted_by l user read_at now P \<equiv>
     csum P (unconfirmed_costs l user) + csum P (landed_costs (forget_landed l now) user read_at now)"

abbreviation reserved_for :: "('w, usd \<times> int) dict \<Rightarrow> 'w \<Rightarrow> usd" where
  "reserved_for t w \<equiv> (case dict_get t w of None \<Rightarrow> 0 | Some (a, _) \<Rightarrow> a)"

lemma extra_fields:
  "tt_day (fst (extra l today now user key read_at)) =
     counted_by l user read_at now (is_today today) + reserved_for (lg_reserved_users l) user"
  "tt_month (fst (extra l today now user key read_at)) =
     counted_by l user read_at now (is_month today) + reserved_for (lg_reserved_users l) user"
  "tt_key_day (fst (extra l today now user (Some k) read_at)) =
     counted_by l user read_at now (\<lambda>kd. is_today today kd \<and> fst kd = Some k) + reserved_for (lg_reserved_keys l) k"
  "tt_key_month (fst (extra l today now user (Some k) read_at)) =
     counted_by l user read_at now (\<lambda>kd. is_month today kd \<and> fst kd = Some k) + reserved_for (lg_reserved_keys l) k"
proof -
  have uc: "unconfirmed_costs (forget_landed l now) user = unconfirmed_costs l user"
    by (simp add: forget_landed_def unconfirmed_costs_def)
  show "tt_day (fst (extra l today now user key read_at)) =
     counted_by l user read_at now (is_today today) + reserved_for (lg_reserved_users l) user"
  "tt_month (fst (extra l today now user key read_at)) =
     counted_by l user read_at now (is_month today) + reserved_for (lg_reserved_users l) user"
    unfolding extra_def Let_def fold_count uc no_totals_def by (auto split: option.splits)
  show "tt_key_day (fst (extra l today now user (Some k) read_at)) =
     counted_by l user read_at now (\<lambda>kd. is_today today kd \<and> fst kd = Some k) + reserved_for (lg_reserved_keys l) k"
  "tt_key_month (fst (extra l today now user (Some k) read_at)) =
     counted_by l user read_at now (\<lambda>kd. is_month today kd \<and> fst kd = Some k) + reserved_for (lg_reserved_keys l) k"
    unfolding extra_def Let_def fold_count uc no_totals_def by (auto split: option.splits)
qed

lemma record_counted:
  assumes inv: "costs_inv l" and "user \<noteq> []" "0 < cost"
  shows "counted_by (record_cost l lr today user cost key) user read_at now P =
    counted_by l user read_at now P + (if P (key, today) then cost else 0)"
proof -
  let ?r = "record_cost l lr today user cost key"
  have rec: "lg_pending ?r = add_pending (lg_pending l) (user, key, today) cost (counted_amount cost) 1"
    "lg_writing ?r = lg_writing l" "lg_unknown ?r = lg_unknown l" "lg_landed ?r = lg_landed l"
    using assms(2,3) by (auto simp: record_cost_def start_write_def Let_def)
  have "csum P (unconfirmed_costs l user) = csum P (costs_of user (lg_pending l @ lg_writing l @ lg_unknown l))"
    unfolding unconfirmed_costs_alt using inv by (intro outstanding_sum) (simp add: costs_inv_def)
  moreover have "csum P (unconfirmed_costs ?r user) = csum P (costs_of user (lg_pending ?r @ lg_writing ?r @ lg_unknown ?r))"
    unfolding unconfirmed_costs_alt using record_outstanding [OF inv] by (intro outstanding_sum) (simp add: costs_inv_def)
  moreover have "landed_costs (forget_landed ?r now) user read_at now = landed_costs (forget_landed l now) user read_at now"
    using rec(4) by (simp add: landed_costs_def forget_landed_def)
  moreover have "dict_wf (lg_pending l)" using inv by (simp add: costs_inv_def)
  ultimately show ?thesis by (simp add: rec csum_add_pending)
qed

lemma starts_with_self: "starts_with s (take n s)"
  by (simp add: starts_with_def min_def)

text \<open>A finished request counts at once: recording its cost adds exactly that cost to the account's
  day and month and, for a gate of the same key, to the key's -- before anything is written -- and
  touches no reservation. A cost that is not positive, or has no user, is not recorded.\<close>

lemma recorded_cost_counts:
  assumes run: "steps ledger_step SpendLedger_init es = Some l" and "user \<noteq> []" and "0 < cost"
  shows "let t = fst (extra l today now user (Some k) read_at);
             t' = fst (extra (record_cost l lr today user cost key) today now user (Some k) read_at);
             mine = (if key = Some k then cost else 0)
         in tt_day t' = tt_day t + cost \<and> tt_month t' = tt_month t + cost \<and>
            tt_key_day t' = tt_key_day t + mine \<and> tt_key_month t' = tt_key_month t + mine"
proof -
  have inv: "costs_inv l" using ledger_run_inv [OF run] by (simp add: ledger_inv_def)
  have "lg_reserved_users (record_cost l lr today user cost key) = lg_reserved_users l"
    "lg_reserved_keys (record_cost l lr today user cost key) = lg_reserved_keys l"
    by (auto simp: record_cost_def start_write_def Let_def)
  then show ?thesis
    by (simp add: Let_def extra_fields record_counted [OF inv assms(2,3)] starts_with_self)
qed

text \<open>A reservation lasts exactly as long as its request: releasing it gives back exactly what the
  admission took, from the account and from the key, leaving every other gate's count as it was, and
  releasing it again changes nothing.\<close>

lemma reservation_roundtrip:
  assumes run: "steps ledger_step SpendLedger_init es = Some l" and adm: "admit l today now c amount = (Inr i, l')"
  shows "fst (extra (release_reservation l' i) today now u (Some k) read_at) = fst (extra l today now u (Some k) read_at) \<and>
    release_reservation (release_reservation l' i) i = release_reservation l' i"
proof (cases rule: admit_cases [of l today now c amount])
  case (refused r)
  with adm show ?thesis by simp
next
  case admitted
  let ?n = "release_reservation l' i"
  have i: "i = length (lg_reservations l)" and res: "lg_reservations l' = lg_reservations l @
       [\<lparr>rv_user = sc_user c, rv_key = sc_key c, rv_amount = amount, rv_open = True\<rparr>]"
    using adm admitted(2) by auto
  have inv: "ledger_inv l" by (rule ledger_run_inv [OF run])
  have inv': "ledger_inv ?n" using release_inv [of l' i] admit_inv [OF inv, of today now c amount] adm by simp
  have same: "open_for P (lg_reservations ?n) = open_for P (lg_reservations l)" for P
    by (simp add: release_reservation_def unreserve_def i res nth_append list_update_append)
  have "reserved_for (lg_reserved_users ?n) u = reserved_for (lg_reserved_users l) u"
    "reserved_for (lg_reserved_keys ?n) k = reserved_for (lg_reserved_keys l) k"
    using inv inv' same by (auto simp: ledger_inv_def reserve_inv_def table_ok_def)
  moreover have "lg_unconfirmed ?n = lg_unconfirmed l" "lg_landed (forget_landed ?n now) = lg_landed (forget_landed l now)"
    using adm admitted(2) by (auto simp: release_reservation_def unreserve_def forget_landed_def)
  then have "counted_by ?n u read_at now P = counted_by l u read_at now P" for P
    by (simp add: unconfirmed_costs_def landed_costs_def)
  ultimately have "fst (extra ?n today now u (Some k) read_at) = fst (extra l today now u (Some k) read_at)"
    by (intro totals.equality) (simp_all add: extra_fields)
  moreover have "release_reservation ?n i = ?n"
    by (auto simp: release_reservation_def unreserve_def i res nth_append list_update_append)
  ultimately show ?thesis by simp
qed

section \<open>Nothing is stranded\<close>

text \<open>Events of normal operation: a loop is running, and nobody is flushing for shutdown.\<close>

definition serving_event :: "ledger_event \<Rightarrow> bool" where
  "serving_event e = (case e of ERecord lr _ _ _ _ \<Rightarrow> lr | EEnd lr _ _ \<Rightarrow> lr | EFinished lr \<Rightarrow> lr | ERetry lr \<Rightarrow> lr
     | EFlushTurn _ \<Rightarrow> False | _ \<Rightarrow> True)"

definition carried :: "ledger \<Rightarrow> bool" where
  "carried l \<longleftrightarrow> (lg_pending l \<noteq> [] \<longrightarrow> lg_writer l \<noteq> NoWriter \<or> lg_retry l) \<and>
     (lg_retry_delay l = 0 \<or> 1 / 2 \<le> lg_retry_delay l \<and> lg_retry_delay l \<le> 30)"

lemma start_write_carried:
  "lg_retry_delay l = 0 \<or> 1 / 2 \<le> lg_retry_delay l \<and> lg_retry_delay l \<le> 30 \<Longrightarrow> carried (start_write l True)"
  by (auto simp: carried_def start_write_def)

lemma admit_carried: "carried (snd (admit l today now c a)) = carried l"
  by (cases rule: admit_cases [of l today now c a]) (simp_all add: carried_def forget_landed_def)

lemma release_carried: "carried (release_reservation l i) = carried l"
  by (simp add: release_reservation_def unreserve_def carried_def)

lemma ledger_step_carried:
  assumes "carried l" "ledger_step l e = Some l' \<and> serving_event e"
  shows "carried l'"
proof -
  have d: "lg_retry_delay l = 0 \<or> 1 / 2 \<le> lg_retry_delay l \<and> lg_retry_delay l \<le> 30" using assms(1) by (simp add: carried_def)
  show ?thesis
  proof (cases e)
    case (EAdmit today now c a)
    with assms show ?thesis by (auto simp: admit_carried)
  next
    case (ERelease i)
    with assms show ?thesis by (auto simp: release_carried)
  next
    case (ERecord lr today user cost key_id)
    with assms d show ?thesis
      by (auto simp: record_cost_def serving_event_def Let_def intro!: start_write_carried)
  next
    case (EBegin alive)
    with assms show ?thesis by (auto simp: write_begin_def Let_def carried_def split: if_splits)
  next
    case (EEnd lr now out)
    with assms d show ?thesis
      by (cases out) (auto simp: write_end_def Let_def carried_def land_writes_def forget_landed_def schedule_retry_def
          RETRY_MAX_SECONDS_def RETRY_FIRST_SECONDS_def split: if_splits)
  next
    case (EFinished lr)
    with assms d show ?thesis
      by (auto simp: write_finished_def serving_event_def intro!: start_write_carried split: if_splits)
  next
    case (ERetry lr)
    with assms d show ?thesis
      by (auto simp: retry_now_def serving_event_def intro!: start_write_carried split: if_splits)
  next
    case ECancelScheduled
    with assms show ?thesis by (auto simp: carried_def split: if_splits)
  qed (use assms in \<open>simp add: serving_event_def\<close>)
qed

interpretation writer: kept_by_relation "\<lambda>l e l'. ledger_step l e = Some l' \<and> serving_event e" carried
  by unfold_locales (rule ledger_step_carried)

text \<open>Nothing recorded is stranded. While a loop is running and no shutdown flush is under way,
  whenever a cost is pending there is a write task that will carry it, or a retry timer is set; and a
  retry waits half a second to half a minute.\<close>

lemma nothing_stranded:
  assumes "steps ledger_step SpendLedger_init es = Some l" and "list_all serving_event es"
  shows "(lg_pending l \<noteq> [] \<longrightarrow> lg_writer l \<noteq> NoWriter \<or> lg_retry l) \<and>
    (lg_retry_delay l = 0 \<or> 1 / 2 \<le> lg_retry_delay l \<and> lg_retry_delay l \<le> 30)"
proof -
  have "carried SpendLedger_init" by (simp add: carried_def SpendLedger_init_def)
  from writer.reach_keeps [OF reach_steps [OF assms] this] show ?thesis by (simp add: carried_def)
qed

end
