(* ===== verification/Request_Admission.thy ===== *)
theory Request_Admission
  imports User_Concurrency Interactive_Load Spend_Ledger
begin

text \<open>
  \<open>serving/servers/concurrency.py\<close>, second part: \<open>enforce_user_concurrency\<close>, the dependency
  every inference request passes through. It holds three things for a request's lifetime -- a user
  slot, a cost reservation and a count of interactive load -- and gives each back however the request
  ends. The dependency is cut at its \<open>await\<close>s: arrival up to the body read or the \<open>yield\<close>, the end of a
  late body read, and the cleanup; between them other requests run. What the body read returned and
  the answers of the limits provider and of the exemption resolver are inputs of the arrival.

  The lemmas: after any interleaving each of the three counts is exactly the number of requests that
  still hold it.
\<close>

datatype body_read = BodyGone | BodyModel "string option"

record arrival =
  ar_user :: user_ctx
  ar_limits :: "limits option"
  ar_has_resolver :: bool
  ar_exempt :: "bool option"
  ar_body :: body_read
  ar_check :: "spend_check option"
  ar_has_ledger :: bool
  ar_today :: day
  ar_now :: time

datatype phase = Reading | Running | Ended

record held =
  hd_slot :: "string option"
  hd_reservation :: "nat option"
  hd_tracker :: tracker
  hd_phase :: phase

record gateway =
  gw_limiter :: "user_limiter option"
  gw_ledger :: ledger
  gw_load :: load
  gw_requests :: "held list"

datatype arrival_result = BadRequest | TooManyRequests | OverBudget budget_refusal | Admitted nat

text \<open>\<open>_admit_spend\<close>: nothing to reserve without a check; without a ledger only the check.\<close>

definition admit_spend ::
  "ledger \<Rightarrow> day \<Rightarrow> time \<Rightarrow> spend_check option \<Rightarrow> bool \<Rightarrow> (budget_refusal + nat option) \<times> ledger" where
  "admit_spend l today now chk has_ledger =
     (case chk of
        None \<Rightarrow> (Inr None, l)
      | Some c \<Rightarrow>
          if \<not> has_ledger
          then (case refusal_without_ledger c of None \<Rightarrow> Inr None | Some r \<Rightarrow> Inl r, l)
          else (case admit l today now c ESTIMATED_REQUEST_COST_USD of
                  (Inl r, l1) \<Rightarrow> (Inl r, l1) | (Inr i, l1) \<Rightarrow> (Inr (Some i), l1)))"

definition drop_reservation :: "ledger \<Rightarrow> nat option \<Rightarrow> ledger" where
  "drop_reservation l r = (case r of None \<Rightarrow> l | Some i \<Rightarrow> release_reservation l i)"

definition drop_slot :: "user_limiter option \<Rightarrow> string option \<Rightarrow> user_limiter option" where
  "drop_slot u s =
     (case u of None \<Rightarrow> None | Some v \<Rightarrow> Some (case s of None \<Rightarrow> v | Some k \<Rightarrow> user_release v k))"

text \<open>Entering the tracker of a new request: it is never active yet.\<close>

definition begin_tracking :: "load \<Rightarrow> string option \<Rightarrow> load \<times> tracker" where
  "begin_tracking d m = (case tracker_enter d (track m) of None \<Rightarrow> (d, track m) | Some r \<Rightarrow> r)"

text \<open>Taking the slot and the reservation, in one step: a request refused by its budgets gives its slot
  back.\<close>

definition reserve_all ::
  "gateway \<Rightarrow> arrival \<Rightarrow> string option \<Rightarrow> (arrival_result + string option \<times> nat option) \<times> user_limiter option \<times> ledger"
  where
  "reserve_all g a canonical =
     (case gw_limiter g of
        None \<Rightarrow>
          (case admit_spend (gw_ledger g) (ar_today a) (ar_now a) (ar_check a) (ar_has_ledger a) of
             (Inl r, l) \<Rightarrow> (Inl (OverBudget r), None, l)
           | (Inr rv, l) \<Rightarrow> (Inr (None, rv), None, l))
      | Some u \<Rightarrow>
          (case slot_for_canonical (ar_user a) canonical (if ar_has_resolver a then ar_exempt a else None) of
             (key, mc) \<Rightarrow>
               (case user_try_acquire u (ar_limits a) key (role_of (ar_user a)) (uc_is_admin (ar_user a)) mc of
                  ((granted, _, _), v) \<Rightarrow>
                    if \<not> granted then (Inl TooManyRequests, Some v, gw_ledger g)
                    else
                      (case admit_spend (gw_ledger g) (ar_today a) (ar_now a) (ar_check a) (ar_has_ledger a) of
                         (Inl r, l) \<Rightarrow> (Inl (OverBudget r), Some (user_release v key), l)
                       | (Inr rv, l) \<Rightarrow> (Inr (Some key, rv), Some v, l)))))"

text \<open>The dependency up to its \<open>yield\<close>, or to the late body read. The body is read first when the
  choice of the slot depends on the model, or when there is no limiter.\<close>

definition arrive :: "gateway \<Rightarrow> arrival \<Rightarrow> arrival_result \<times> gateway" where
  "arrive g a =
     (let parse_before_acquire = (gw_limiter g = None \<or> ar_has_resolver a);
          canonical = (if parse_before_acquire then (case ar_body a of BodyGone \<Rightarrow> None | BodyModel m \<Rightarrow> m) else None);
          (d, t) = (if parse_before_acquire then begin_tracking (gw_load g) canonical else (gw_load g, track None))
      in if parse_before_acquire \<and> ar_body a = BodyGone then (BadRequest, g)
         else case reserve_all g a canonical of
             (Inl res, w, l) \<Rightarrow> (res, g\<lparr>gw_limiter := w, gw_ledger := l\<rparr>)
           | (Inr (slot, rv), w, l) \<Rightarrow>
               (Admitted (length (gw_requests g)),
                g\<lparr>gw_limiter := w, gw_ledger := l, gw_load := d,
                  gw_requests := gw_requests g @
                    [\<lparr>hd_slot = slot, hd_reservation = rv, hd_tracker = t,
                      hd_phase = (if parse_before_acquire then Running else Reading)\<rparr>]\<rparr>))"

text \<open>The cleanup of a request: the tracker if it was entered, the reservation, the slot.\<close>

definition cleanup :: "gateway \<Rightarrow> nat \<Rightarrow> gateway" where
  "cleanup g i =
     (let h = gw_requests g ! i;
          (d, t) = (if hd_phase h = Running then tracker_exit (gw_load g) (hd_tracker h) else (gw_load g, hd_tracker h))
      in g\<lparr>gw_load := d, gw_ledger := drop_reservation (gw_ledger g) (hd_reservation h),
           gw_limiter := drop_slot (gw_limiter g) (hd_slot h),
           gw_requests := (gw_requests g)[i := h\<lparr>hd_tracker := t, hd_phase := Ended\<rparr>]\<rparr>)"

datatype gateway_event =
    QArrive arrival
  | QBody nat body_read
  | QRetarget nat string
  | QEnd nat
  | QLedger ledger_event

text \<open>Ledger steps of others: the writer, recorded costs, and the batch scheduler, which has
  reservations of its own and releases only those.\<close>

definition foreign :: "gateway \<Rightarrow> ledger_event \<Rightarrow> bool" where
  "foreign g e =
     (case e of ERelease j \<Rightarrow> j < length (lg_reservations (gw_ledger g)) \<and> \<not> list_ex (\<lambda>h. hd_reservation h = Some j) (gw_requests g)
      | _ \<Rightarrow> True)"

fun gateway_step :: "gateway \<Rightarrow> gateway_event \<Rightarrow> gateway option" where
  "gateway_step g (QArrive a) = Some (snd (arrive g a))"
| "gateway_step g (QBody i b) =
     (if i < length (gw_requests g) \<and> hd_phase (gw_requests g ! i) = Reading
      then Some (case b of
          BodyGone \<Rightarrow> cleanup g i
        | BodyModel m \<Rightarrow>
            (case begin_tracking (gw_load g) m of (d, t) \<Rightarrow>
               g\<lparr>gw_load := d,
                 gw_requests := (gw_requests g)[i := (gw_requests g ! i)\<lparr>hd_tracker := t, hd_phase := Running\<rparr>]\<rparr>))
      else None)"
| "gateway_step g (QRetarget i m) =
     (if i < length (gw_requests g) \<and> hd_phase (gw_requests g ! i) = Running
      then (case retarget (gw_load g) (hd_tracker (gw_requests g ! i)) (Some m) of (d, t) \<Rightarrow>
              Some (g\<lparr>gw_load := d, gw_requests := (gw_requests g)[i := (gw_requests g ! i)\<lparr>hd_tracker := t\<rparr>]\<rparr>))
      else None)"
| "gateway_step g (QEnd i) =
     (if i < length (gw_requests g) \<and> hd_phase (gw_requests g ! i) \<noteq> Ended then Some (cleanup g i) else None)"
| "gateway_step g (QLedger e) =
     (if foreign g e then (case ledger_step (gw_ledger g) e of None \<Rightarrow> None | Some l \<Rightarrow> Some (g\<lparr>gw_ledger := l\<rparr>))
      else None)"

definition new_gateway :: "user_limiter option \<Rightarrow> gateway" where
  "new_gateway u = \<lparr>gw_limiter = u, gw_ledger = SpendLedger_init, gw_load = [], gw_requests = []\<rparr>"

section \<open>Every hold is given back\<close>

abbreviation live_in :: "string \<Rightarrow> held \<Rightarrow> bool" where
  "live_in k h \<equiv> hd_phase h \<noteq> Ended \<and> hd_slot h = Some k"

abbreviation running_on :: "string \<Rightarrow> held \<Rightarrow> bool" where
  "running_on m h \<equiv> hd_phase h = Running \<and> tk_model (hd_tracker h) = Some m"

definition slots_match :: "gateway \<Rightarrow> bool" where
  "slots_match g \<longleftrightarrow> (\<forall>u k. gw_limiter g = Some u \<longrightarrow> in_use u k = tally (live_in k) (gw_requests g))"

definition load_matches :: "gateway \<Rightarrow> bool" where
  "load_matches g \<longleftrightarrow> load_wf (gw_load g) \<and>
     (\<forall>m. in_flight (gw_load g) m = tally (running_on m) (gw_requests g)) \<and>
     (\<forall>h \<in> set (gw_requests g). tk_active (hd_tracker h) \<longleftrightarrow> hd_phase h = Running)"

definition reservations_match :: "gateway \<Rightarrow> bool" where
  "reservations_match g \<longleftrightarrow>
     (\<forall>i < length (gw_requests g). \<forall>j. hd_reservation (gw_requests g ! i) = Some j \<longrightarrow>
        j < length (lg_reservations (gw_ledger g)) \<and>
        (rv_open (lg_reservations (gw_ledger g) ! j) \<longleftrightarrow> hd_phase (gw_requests g ! i) \<noteq> Ended) \<and>
        (\<forall>k < length (gw_requests g). hd_reservation (gw_requests g ! k) = Some j \<longrightarrow> k = i))"

text \<open>A change that keeps which reservation each request took keeps the match, if it keeps the state of
  each in step with its request.\<close>

lemma reservations_matchD:
  assumes "reservations_match g" "i < length (gw_requests g)" "hd_reservation (gw_requests g ! i) = Some j"
  shows "j < length (lg_reservations (gw_ledger g))"
    "rv_open (lg_reservations (gw_ledger g) ! j) \<longleftrightarrow> hd_phase (gw_requests g ! i) \<noteq> Ended"
    "k < length (gw_requests g) \<Longrightarrow> hd_reservation (gw_requests g ! k) = Some j \<Longrightarrow> k = i"
  using assms unfolding reservations_match_def by blast+

lemma reservations_pointwise:
  assumes m: "reservations_match g"
    and len: "length (gw_requests g') = length (gw_requests g)"
    and rv: "\<And>k. k < length (gw_requests g) \<Longrightarrow> hd_reservation (gw_requests g' ! k) = hd_reservation (gw_requests g ! k)"
    and st: "\<And>k j. k < length (gw_requests g) \<Longrightarrow> hd_reservation (gw_requests g ! k) = Some j \<Longrightarrow>
      j < length (lg_reservations (gw_ledger g')) \<and>
      (rv_open (lg_reservations (gw_ledger g') ! j) \<longleftrightarrow> hd_phase (gw_requests g' ! k) \<noteq> Ended)"
  shows "reservations_match g'"
  unfolding reservations_match_def len
proof (intro allI impI conjI)
  fix k j
  assume k: "k < length (gw_requests g)" and "hd_reservation (gw_requests g' ! k) = Some j"
  then have j: "hd_reservation (gw_requests g ! k) = Some j" by (simp add: rv)
  show "j < length (lg_reservations (gw_ledger g'))"
    "rv_open (lg_reservations (gw_ledger g') ! j) \<longleftrightarrow> hd_phase (gw_requests g' ! k) \<noteq> Ended"
    using st [OF k j] by blast+
  show "k' = k" if "k' < length (gw_requests g)" "hd_reservation (gw_requests g' ! k') = Some j" for k'
    using reservations_matchD(3) [OF m k j that(1)] that(2) rv [OF that(1)] by simp
qed

lemma reservations_append:
  assumes m: "reservations_match g"
    and q: "gw_requests g' = gw_requests g @ [h]"
    and l: "lg_reservations (gw_ledger g') = lg_reservations (gw_ledger g) @ r"
    and h: "hd_phase h \<noteq> Ended" "r = [] \<and> hd_reservation h = None \<or>
      (\<exists>b. r = [b] \<and> rv_open b \<and> hd_reservation h = Some (length (lg_reservations (gw_ledger g))))"
  shows "reservations_match g'"
  unfolding reservations_match_def
proof (intro allI impI)
  fix i j
  assume i: "i < length (gw_requests g')" and j: "hd_reservation (gw_requests g' ! i) = Some j"
  show "j < length (lg_reservations (gw_ledger g')) \<and>
    (rv_open (lg_reservations (gw_ledger g') ! j) \<longleftrightarrow> hd_phase (gw_requests g' ! i) \<noteq> Ended) \<and>
    (\<forall>k < length (gw_requests g'). hd_reservation (gw_requests g' ! k) = Some j \<longrightarrow> k = i)"
  proof (cases "i < length (gw_requests g)")
    case True
    with j q have j': "hd_reservation (gw_requests g ! i) = Some j" by (simp add: nth_append)
    note d = reservations_matchD [OF m True j']
    have "k = i" if "k < length (gw_requests g')" "hd_reservation (gw_requests g' ! k) = Some j" for k
    proof (cases "k < length (gw_requests g)")
      case True
      with d(3) that(2) q show ?thesis by (simp add: nth_append)
    next
      case False
      with that q have "hd_reservation h = Some j" by (simp add: nth_append less_Suc_eq)
      with h(2) d(1) show ?thesis by auto
    qed
    with d(1,2) True show ?thesis by (simp add: q l nth_append)
  next
    case False
    with i q have i': "i = length (gw_requests g)" by simp
    with j q have hj: "hd_reservation h = Some j" by simp
    with h(2) obtain b where b: "r = [b]" "rv_open b" "j = length (lg_reservations (gw_ledger g))" by auto
    have "k = i" if "k < length (gw_requests g')" "hd_reservation (gw_requests g' ! k) = Some j" for k
    proof (rule ccontr)
      assume "k \<noteq> i"
      with that q i' have "k < length (gw_requests g)" "hd_reservation (gw_requests g ! k) = Some j"
        by (simp_all add: nth_append split: if_splits)
      with reservations_matchD(1) [OF m] b(3) show False by blast
    qed
    with b h(1) i' show ?thesis by (simp add: q l)
  qed
qed

lemma begin_tracking_simp [simp]:
  "begin_tracking d m = (increment d m, \<lparr>tk_model = m, tk_active = True\<rparr>)"
  by (simp add: begin_tracking_def tracker_enter_def track_def)

text \<open>What the two holds taken on arrival do to their counts.\<close>

lemma admit_spend_reservations:
  assumes "admit_spend l today now c hl = (x, l')"
  shows "lg_reservations l' = lg_reservations l @
     (case x of Inr (Some j) \<Rightarrow> [\<lparr>rv_user = sc_user (the c), rv_key = sc_key (the c),
        rv_amount = ESTIMATED_REQUEST_COST_USD, rv_open = True\<rparr>] | _ \<Rightarrow> [])"
    "x = Inr (Some j) \<Longrightarrow> j = length (lg_reservations l)"
proof -
  show "lg_reservations l' = lg_reservations l @
     (case x of Inr (Some j) \<Rightarrow> [\<lparr>rv_user = sc_user (the c), rv_key = sc_key (the c),
        rv_amount = ESTIMATED_REQUEST_COST_USD, rv_open = True\<rparr>] | _ \<Rightarrow> [])"
  proof (cases c)
    case (Some k)
    with assms show ?thesis
      by (cases rule: admit_cases [of l today now k ESTIMATED_REQUEST_COST_USD])
        (auto simp: admit_spend_def forget_landed_def split: if_splits option.splits)
  qed (use assms in \<open>auto simp: admit_spend_def\<close>)
  show "j = length (lg_reservations l)" if "x = Inr (Some j)"
  proof (cases c)
    case (Some k)
    with assms that show ?thesis
      by (cases rule: admit_cases [of l today now k ESTIMATED_REQUEST_COST_USD])
        (auto simp: admit_spend_def split: if_splits option.splits)
  qed (use assms that in \<open>auto simp: admit_spend_def\<close>)
qed

lemma reserve_all_ledger:
  assumes "reserve_all g a c = (x, w, l)"
  obtains (none) "\<And>s j. x \<noteq> Inr (s, Some j)" "lg_reservations l = lg_reservations (gw_ledger g)"
    | (taken) s r where "x = Inr (s, Some (length (lg_reservations (gw_ledger g))))" "rv_open r"
        "lg_reservations l = lg_reservations (gw_ledger g) @ [r]"
proof -
  obtain y l1 where sp: "admit_spend (gw_ledger g) (ar_today a) (ar_now a) (ar_check a) (ar_has_ledger a) = (y, l1)" by fastforce
  note res = admit_spend_reservations [OF sp]
  show thesis
  proof (cases y)
    case (Inl r)
    then show thesis using assms sp res(1)
      by (intro none) (auto simp: reserve_all_def split: option.splits prod.splits if_splits)
  next
    case (Inr rv)
    show thesis
    proof (cases rv)
      case None
      then show thesis using assms sp res(1) Inr
        by (intro none) (auto simp: reserve_all_def split: option.splits prod.splits if_splits)
    next
      case (Some j)
      have "(\<exists>s. x = Inr (s, Some j)) \<and> l = l1 \<or> x = Inl TooManyRequests \<and> l = gw_ledger g"
        using assms sp Inr Some by (auto simp: reserve_all_def split: option.splits prod.splits if_splits)
      then show thesis
      proof
        assume "(\<exists>s. x = Inr (s, Some j)) \<and> l = l1"
        then obtain s where "x = Inr (s, Some j)" "l = l1" by blast
        with res Inr Some show thesis by (intro taken [of s]) auto
      next
        assume "x = Inl TooManyRequests \<and> l = gw_ledger g"
        then show thesis by (intro none) auto
      qed
    qed
  qed
qed

lemma reserve_all_slots:
  assumes "reserve_all g a c = (x, w, l)"
  shows "gw_limiter g = None \<Longrightarrow> w = None \<and> (\<forall>s rv. x = Inr (s, rv) \<longrightarrow> s = None)"
    "gw_limiter g = Some u \<Longrightarrow> (\<And>k. 0 \<le> in_use u k) \<Longrightarrow>
       \<exists>v. w = Some v \<and> (\<forall>k. in_use v k = in_use u k + (if \<exists>rv. x = Inr (Some k, rv) then 1 else 0)) \<and> (\<forall>rv. x \<noteq> Inr (None, rv))"
proof -
  show "w = None \<and> (\<forall>s rv. x = Inr (s, rv) \<longrightarrow> s = None)" if "gw_limiter g = None"
    using assms that by (auto simp: reserve_all_def split: prod.splits sum.splits)
  assume u: "gw_limiter g = Some u" and nn: "\<And>k. 0 \<le> in_use u k"
  obtain key mc where sl: "slot_for_canonical (ar_user a) c (if ar_has_resolver a then ar_exempt a else None) = (key, mc)"
    by (cases "slot_for_canonical (ar_user a) c (if ar_has_resolver a then ar_exempt a else None)")
  obtain granted cap lab v where ta: "user_try_acquire u (ar_limits a) key (role_of (ar_user a)) (uc_is_admin (ar_user a)) mc = ((granted, cap, lab), v)"
    by (metis prod.collapse)
  note cnt = in_use_acquire(1) [OF ta]
  obtain y l1 where sp: "admit_spend (gw_ledger g) (ar_today a) (ar_now a) (ar_check a) (ar_has_ledger a) = (y, l1)" by fastforce
  have rel: "in_use (user_release v key) k = in_use u k" if granted for k
    using cnt [of k] cnt [of key] nn [of key] that by (auto simp: in_use_release)
  show "\<exists>v. w = Some v \<and> (\<forall>k. in_use v k = in_use u k + (if \<exists>rv. x = Inr (Some k, rv) then 1 else 0)) \<and> (\<forall>rv. x \<noteq> Inr (None, rv))"
    using assms u sl ta sp cnt rel by (cases granted; cases y) (auto simp: reserve_all_def)
qed

lemma slots_nonneg: "slots_match g \<Longrightarrow> gw_limiter g = Some u \<Longrightarrow> 0 \<le> in_use u k"
  by (simp add: slots_match_def)

text \<open>An arrival, as its effect on the three counts.\<close>

lemma arrive_cases:
  obtains (gone) "arrive g a = (BadRequest, g)"
    | (tried) c p t d where
        "arrive g a = (case reserve_all g a c of
             (Inl res, w, l) \<Rightarrow> (res, g\<lparr>gw_limiter := w, gw_ledger := l\<rparr>)
           | (Inr (slot, rv), w, l) \<Rightarrow>
               (Admitted (length (gw_requests g)),
                g\<lparr>gw_limiter := w, gw_ledger := l, gw_load := d,
                  gw_requests := gw_requests g @
                    [\<lparr>hd_slot = slot, hd_reservation = rv, hd_tracker = t, hd_phase = p\<rparr>]\<rparr>))"
        "p = Running \<and> t = \<lparr>tk_model = c, tk_active = True\<rparr> \<and> d = increment (gw_load g) c \<or>
         p = Reading \<and> t = track None \<and> d = gw_load g"
proof (cases "gw_limiter g = None \<or> ar_has_resolver a")
  case True
  show thesis
  proof (cases "ar_body a")
    case BodyGone
    with True show thesis by (intro gone) (simp add: arrive_def)
  next
    case (BodyModel m)
    with True show thesis
      by (intro tried [where c = m and p = Running and t = "\<lparr>tk_model = m, tk_active = True\<rparr>" and d = "increment (gw_load g) m"])
        (simp_all add: arrive_def)
  qed
next
  case False
  then show thesis by (intro tried [where c = None]) (auto simp: arrive_def)
qed

lemma arrive_holds:
  assumes inv: "slots_match g" "load_matches g" "reservations_match g"
  shows "slots_match (snd (arrive g a)) \<and> load_matches (snd (arrive g a)) \<and> reservations_match (snd (arrive g a))"
proof (cases rule: arrive_cases [of g a])
  case gone
  with inv show ?thesis by simp
next
  case (tried c p t d)
  obtain x w l where ra: "reserve_all g a c = (x, w, l)" by (cases "reserve_all g a c" rule: prod_cases3)
  note sl = reserve_all_slots [OF ra]
  show ?thesis
  proof (cases x)
    case (Inl res)
    then have g': "snd (arrive g a) = g\<lparr>gw_limiter := w, gw_ledger := l\<rparr>" using tried(1) ra by simp
    have "lg_reservations l = lg_reservations (gw_ledger g)" using Inl by (cases rule: reserve_all_ledger [OF ra]) auto
    then have "reservations_match (snd (arrive g a))"
      by (intro reservations_pointwise [OF inv(3)]) (simp_all add: g' reservations_matchD [OF inv(3)])
    moreover have "slots_match (snd (arrive g a))"
    proof (cases "gw_limiter g")
      case None
      with sl(1) show ?thesis by (simp add: g' slots_match_def)
    next
      case (Some u)
      obtain v where "w = Some v" "\<And>k. in_use v k = in_use u k"
        using sl(2) [OF Some slots_nonneg [OF inv(1) Some]] Inl by auto
      with Some inv(1) show ?thesis by (simp add: g' slots_match_def)
    qed
    ultimately show ?thesis using inv(2) by (simp add: g' load_matches_def)
  next
    case (Inr sr)
    obtain slot rv where sr: "sr = (slot, rv)" by (cases sr)
    define h where "h = \<lparr>hd_slot = slot, hd_reservation = rv, hd_tracker = t, hd_phase = p\<rparr>"
    have g': "snd (arrive g a) = g\<lparr>gw_limiter := w, gw_ledger := l, gw_load := d, gw_requests := gw_requests g @ [h]\<rparr>"
      using tried(1) ra Inr sr by (simp add: h_def)
    have pe: "p \<noteq> Ended" using tried(2) by auto
    have slots: "slots_match (snd (arrive g a))"
    proof (cases "gw_limiter g")
      case None
      with sl(1) show ?thesis by (simp add: g' slots_match_def)
    next
      case (Some u)
      obtain v where "w = Some v" "\<And>k. in_use v k = in_use u k + (if slot = Some k then 1 else 0)"
        using sl(2) [OF Some slots_nonneg [OF inv(1) Some]] Inr sr by auto
      with Some inv(1) pe show ?thesis by (simp add: g' slots_match_def h_def)
    qed
    have load: "load_matches (snd (arrive g a))"
      using tried(2)
    proof
      assume "p = Running \<and> t = \<lparr>tk_model = c, tk_active = True\<rparr> \<and> d = increment (gw_load g) c"
      with inv(2) show ?thesis by (auto simp: g' load_matches_def h_def increment_wf in_flight_increment)
    next
      assume "p = Reading \<and> t = track None \<and> d = gw_load g"
      with inv(2) show ?thesis by (auto simp: g' load_matches_def h_def track_def)
    qed
    have "reservations_match (snd (arrive g a))"
      using ra
    proof (cases rule: reserve_all_ledger)
      case none
      with Inr sr have "rv = None" by (cases rv) auto
      with none(2) pe show ?thesis
        by (intro reservations_append [OF inv(3), where r = "[]" and h = h]) (simp_all add: g', simp_all add: h_def)
    next
      case (taken s r)
      with Inr sr pe show ?thesis
        by (intro reservations_append [OF inv(3), where r = "[r]" and h = h]) (simp_all add: g', simp_all add: h_def)
    qed
    with slots load show ?thesis by simp
  qed
qed

lemma in_use_drop:
  assumes "slots_match g" "i < length (gw_requests g)" "hd_phase (gw_requests g ! i) \<noteq> Ended" "gw_limiter g = Some u"
    "hd_slot (gw_requests g ! i) = Some key"
  shows "in_use (user_release u key) k = in_use u k - (if k = key then 1 else 0)"
proof -
  have "0 < in_use u key" using assms tally_pos [of i "gw_requests g" "live_in key"] by (simp add: slots_match_def)
  then show ?thesis by (simp add: in_use_release)
qed

lemma drop_reservation_flags:
  assumes "j < length (lg_reservations l)"
  shows "length (lg_reservations (drop_reservation l r)) = length (lg_reservations l)"
    "rv_open (lg_reservations (drop_reservation l r) ! j) \<longleftrightarrow> rv_open (lg_reservations l ! j) \<and> r \<noteq> Some j"
proof -
  show "length (lg_reservations (drop_reservation l r)) = length (lg_reservations l)"
    by (auto simp: drop_reservation_def release_reservation_def unreserve_def Let_def split: option.splits)
  show "rv_open (lg_reservations (drop_reservation l r) ! j) \<longleftrightarrow> rv_open (lg_reservations l ! j) \<and> r \<noteq> Some j"
    using assms
    by (auto simp: drop_reservation_def release_reservation_def unreserve_def Let_def nth_list_update split: option.splits)
qed

lemma cleanup_holds:
  assumes inv: "slots_match g" "load_matches g" "reservations_match g"
    and i: "i < length (gw_requests g)" "hd_phase (gw_requests g ! i) \<noteq> Ended"
  shows "slots_match (cleanup g i) \<and> load_matches (cleanup g i) \<and> reservations_match (cleanup g i)"
proof -
  let ?h = "gw_requests g ! i"
  define d where "d = (if hd_phase ?h = Running then decrement (gw_load g) (tk_model (hd_tracker ?h)) else gw_load g)"
  define t where "t = (if hd_phase ?h = Running then (hd_tracker ?h)\<lparr>tk_active := False\<rparr> else hd_tracker ?h)"
  have g': "cleanup g i = g\<lparr>gw_load := d, gw_ledger := drop_reservation (gw_ledger g) (hd_reservation ?h),
      gw_limiter := drop_slot (gw_limiter g) (hd_slot ?h), gw_requests := (gw_requests g)[i := ?h\<lparr>hd_tracker := t, hd_phase := Ended\<rparr>]\<rparr>"
    by (simp add: cleanup_def tracker_exit_def Let_def d_def t_def)
  have "slots_match (cleanup g i)"
  proof (cases "hd_slot ?h")
    case None
    with inv(1) i show ?thesis by (auto simp: g' slots_match_def drop_slot_def tally_update split: option.splits)
  next
    case (Some key)
    with inv(1) i in_use_drop [OF inv(1) i _ Some] show ?thesis
      by (auto simp: g' slots_match_def drop_slot_def tally_update split: option.splits)
  qed
  moreover have "load_matches (cleanup g i)"
  proof -
    have lw: "load_wf (gw_load g)" using inv(2) by (simp add: load_matches_def)
    have dwf: "load_wf d" using lw by (simp add: d_def decrement_wf)
    have cnt: "in_flight d m = in_flight (gw_load g) m - (if running_on m ?h then 1 else 0)" for m
    proof (cases "hd_phase ?h = Running")
      case True
      have "tk_model (hd_tracker ?h) = Some m \<longrightarrow> 0 < in_flight (gw_load g) m"
        using True i tally_pos [of i "gw_requests g" "running_on m"] inv(2) by (auto simp: load_matches_def)
      with True show ?thesis by (simp add: d_def in_flight_decrement [OF lw])
    qed (simp add: d_def)
    have act: "tk_active t \<longleftrightarrow> False" using inv(2) i by (auto simp: t_def load_matches_def)
    show ?thesis
      unfolding load_matches_def
    proof (intro conjI allI ballI)
      show "load_wf (gw_load (cleanup g i))" by (simp add: g' dwf)
      show "in_flight (gw_load (cleanup g i)) m = tally (running_on m) (gw_requests (cleanup g i))" for m
        using inv(2) i by (simp add: g' load_matches_def tally_update cnt)
      fix h assume "h \<in> set (gw_requests (cleanup g i))"
      then have "h \<in> set (gw_requests g) \<or> h = ?h\<lparr>hd_tracker := t, hd_phase := Ended\<rparr>"
        using set_update_subset_insert [of "gw_requests g" i] by (auto simp: g')
      with inv(2) act show "tk_active (hd_tracker h) \<longleftrightarrow> hd_phase h = Running" by (auto simp: load_matches_def)
    qed
  qed
  moreover have "reservations_match (cleanup g i)"
  proof (rule reservations_pointwise [OF inv(3)])
    fix k j
    assume k: "k < length (gw_requests g)" and j: "hd_reservation (gw_requests g ! k) = Some j"
    note d = reservations_matchD [OF inv(3) k j]
    have eq: "hd_reservation ?h = Some j \<longleftrightarrow> k = i" using d(3) [OF i(1)] j by auto
    have led: "gw_ledger (cleanup g i) = drop_reservation (gw_ledger g) (hd_reservation ?h)" by (simp add: g')
    have ph: "hd_phase (gw_requests (cleanup g i) ! k) = (if k = i then Ended else hd_phase (gw_requests g ! k))"
      using k by (simp add: g' nth_list_update)
    show "j < length (lg_reservations (gw_ledger (cleanup g i))) \<and>
      (rv_open (lg_reservations (gw_ledger (cleanup g i)) ! j) \<longleftrightarrow> hd_phase (gw_requests (cleanup g i) ! k) \<noteq> Ended)"
      using d(1,2) eq by (auto simp: ph led drop_reservation_flags [OF d(1)])
  qed (use i in \<open>auto simp: g' nth_list_update\<close>)
  ultimately show ?thesis by simp
qed

section \<open>Every step of the gateway\<close>

definition gateway_inv :: "gateway \<Rightarrow> bool" where
  "gateway_inv g \<longleftrightarrow> slots_match g \<and> load_matches g \<and> reservations_match g"

text \<open>A ledger step of another party: nothing is taken away, and the reservations of requests stay as
  they are.\<close>

lemma foreign_step:
  assumes f: "foreign g e" and st: "ledger_step (gw_ledger g) e = Some l"
    and k: "k < length (gw_requests g)" "hd_reservation (gw_requests g ! k) = Some j" "j < length (lg_reservations (gw_ledger g))"
  shows "j < length (lg_reservations l) \<and> lg_reservations l ! j = lg_reservations (gw_ledger g) ! j"
proof (cases e)
  case (EAdmit today now c a)
  then show ?thesis using st k(3)
    by (cases rule: admit_cases [of "gw_ledger g" today now c a]) (auto simp: nth_append forget_landed_def)
next
  case (ERelease i)
  have "i \<noteq> j" using f k(2) nth_mem [OF k(1)] by (auto simp: foreign_def ERelease list_ex_iff)
  then show ?thesis using st k(3) by (auto simp: ERelease release_reservation_def unreserve_def)
next
  case (EEnd lr now out)
  then show ?thesis using st k(3) by (auto simp: write_end_reserved split: if_splits)
qed (use st k(3) in \<open>auto simp: record_cost_def start_write_def write_begin_def write_finished_def retry_now_def
      flush_turn_def Let_def split: if_splits\<close>)

text \<open>Changing the tracker and phase of a live request, with the load moved to match.\<close>

lemma move_request_inv:
  assumes inv: "gateway_inv g" and i: "i < length (gw_requests g)" "hd_phase (gw_requests g ! i) \<noteq> Ended" "p \<noteq> Ended"
    and d: "load_wf d" "tk_active t \<longleftrightarrow> p = Running"
      "\<And>m. in_flight d m = in_flight (gw_load g) m - (if running_on m (gw_requests g ! i) then 1 else 0)
         + (if p = Running \<and> tk_model t = Some m then 1 else 0)"
  shows "gateway_inv (g\<lparr>gw_load := d, gw_requests := (gw_requests g)[i := (gw_requests g ! i)\<lparr>hd_tracker := t, hd_phase := p\<rparr>]\<rparr>)"
    (is "gateway_inv ?g")
proof -
  have inv': "slots_match g" "load_matches g" "reservations_match g" using inv by (auto simp: gateway_inv_def)
  have "slots_match ?g" using inv'(1) i by (simp add: slots_match_def tally_update)
  moreover have "load_matches ?g"
    unfolding load_matches_def
  proof (intro conjI allI ballI)
    show "load_wf (gw_load ?g)" by (simp add: d)
    show "in_flight (gw_load ?g) m = tally (running_on m) (gw_requests ?g)" for m
      using inv'(2) i by (simp add: load_matches_def tally_update d(3))
    fix h assume "h \<in> set (gw_requests ?g)"
    then have "h \<in> set (gw_requests g) \<or> h = (gw_requests g ! i)\<lparr>hd_tracker := t, hd_phase := p\<rparr>"
      using set_update_subset_insert [of "gw_requests g" i] by auto
    with inv'(2) d(2) show "tk_active (hd_tracker h) \<longleftrightarrow> hd_phase h = Running" by (auto simp: load_matches_def)
  qed
  moreover have "reservations_match ?g"
  proof (rule reservations_pointwise [OF inv'(3)])
    fix k j assume k: "k < length (gw_requests g)" "hd_reservation (gw_requests g ! k) = Some j"
    have "hd_phase (gw_requests ?g ! k) \<noteq> Ended \<longleftrightarrow> hd_phase (gw_requests g ! k) \<noteq> Ended"
      using i by (auto simp: nth_list_update)
    with reservations_matchD(1,2) [OF inv'(3) k]
    show "j < length (lg_reservations (gw_ledger ?g)) \<and>
      (rv_open (lg_reservations (gw_ledger ?g) ! j) \<longleftrightarrow> hd_phase (gw_requests ?g ! k) \<noteq> Ended)" by simp
  qed (use i in \<open>auto simp: nth_list_update\<close>)
  ultimately show ?thesis by (simp add: gateway_inv_def)
qed

lemma gateway_step_inv:
  assumes inv: "gateway_inv g" and st: "gateway_step g e = Some g'"
  shows "gateway_inv g'"
proof -
  have inv': "slots_match g" "load_matches g" "reservations_match g" using inv by (auto simp: gateway_inv_def)
  have lw: "load_wf (gw_load g)" using inv'(2) by (simp add: load_matches_def)
  have clean: "gateway_inv (cleanup g i)" if "i < length (gw_requests g)" "hd_phase (gw_requests g ! i) \<noteq> Ended" for i
    using cleanup_holds [OF inv' that] by (simp add: gateway_inv_def)
  show ?thesis
  proof (cases e)
    case (QArrive a)
    with st arrive_holds [OF inv'] show ?thesis by (auto simp: gateway_inv_def)
  next
    case (QEnd i)
    with st clean show ?thesis by (auto split: if_splits)
  next
    case (QBody i b)
    with st have i: "i < length (gw_requests g)" "hd_phase (gw_requests g ! i) = Reading" by (auto split: if_splits)
    show ?thesis
    proof (cases b)
      case BodyGone
      with QBody st i clean [of i] show ?thesis by simp
    next
      case (BodyModel m)
      have "g' = g\<lparr>gw_load := increment (gw_load g) m, gw_requests := (gw_requests g)
          [i := (gw_requests g ! i)\<lparr>hd_tracker := \<lparr>tk_model = m, tk_active = True\<rparr>, hd_phase := Running\<rparr>]\<rparr>"
        using st i by (simp add: QBody BodyModel)
      then show ?thesis
        using i by (simp add: move_request_inv [OF inv] increment_wf [OF lw] in_flight_increment)
    qed
  next
    case (QRetarget i m)
    with st have i: "i < length (gw_requests g)" "hd_phase (gw_requests g ! i) = Running" by (auto split: if_splits)
    let ?t = "hd_tracker (gw_requests g ! i)"
    have act: "tk_active ?t" using i inv'(2) by (auto simp: load_matches_def)
    have phase: "h\<lparr>hd_tracker := t, hd_phase := Running\<rparr> = h\<lparr>hd_tracker := t\<rparr>" if "hd_phase h = Running" for h :: held and t
      using that by (cases h) simp
    obtain d t where dt: "retarget (gw_load g) ?t (Some m) = (d, t)" by fastforce
    have g': "g' = g\<lparr>gw_load := d, gw_requests := (gw_requests g)[i := (gw_requests g ! i)\<lparr>hd_tracker := t, hd_phase := Running\<rparr>]\<rparr>"
      using st i dt by (simp add: QRetarget phase [OF i(2)])
    have pos: "tk_model ?t = Some x \<longrightarrow> 0 < in_flight (gw_load g) x" for x
      using i tally_pos [of i "gw_requests g" "running_on x"] inv'(2) by (auto simp: load_matches_def)
    show ?thesis
      unfolding g'
    proof (rule move_request_inv [OF inv i(1)])
      show "load_wf d" using dt lw by (auto simp: retarget_def increment_wf decrement_wf split: if_splits)
      show "tk_active t \<longleftrightarrow> Running = Running" using dt act by (auto simp: retarget_def split: if_splits)
      show "in_flight d x = in_flight (gw_load g) x - (if running_on x (gw_requests g ! i) then 1 else 0)
          + (if Running = Running \<and> tk_model t = Some x then 1 else 0)" for x
      proof (cases "tk_model ?t = Some m")
        case True
        with dt i(2) show ?thesis by (auto simp: retarget_def)
      next
        case False
        with dt act have "d = increment (decrement (gw_load g) (tk_model ?t)) (Some m)" "t = ?t\<lparr>tk_model := Some m\<rparr>"
          by (auto simp: retarget_def)
        with i(2) show ?thesis by (simp add: in_flight_increment in_flight_decrement [OF lw pos])
      qed
    qed (use i in simp_all)
  next
    case (QLedger le)
    with st obtain l where f: "foreign g le" and l: "ledger_step (gw_ledger g) le = Some l" and g': "g' = g\<lparr>gw_ledger := l\<rparr>"
      by (auto split: if_splits option.splits)
    have "reservations_match g'"
      by (rule reservations_pointwise [OF inv'(3)])
        (use foreign_step [OF f l] reservations_matchD [OF inv'(3)] in \<open>auto simp: g'\<close>)
    with inv' show ?thesis by (simp add: gateway_inv_def g' slots_match_def load_matches_def)
  qed
qed

interpretation gateway: kept_by_relation "\<lambda>g e g'. gateway_step g e = Some g'" gateway_inv
  by unfold_locales (rule gateway_step_inv)

lemma no_load_empty:
  assumes "load_wf d" "\<And>m. in_flight d m = 0"
  shows "d = []"
proof (cases d)
  case (Cons e d')
  with assms(1) assms(2) [of "fst e"] show ?thesis by (cases e) (auto simp: load_wf_def in_flight_def dict_get_or_def)
qed

section \<open>Properties\<close>



end
