(* ===== verification/Py_Regex.thy ===== *)
theory Py_Regex
  imports Prelude
begin

text \<open>
  The part of Python's \<open>re\<close> module the modelled sources use, on ASCII text: character classes, greedy
  runs of a class, concatenation, ordered alternation, greedy options, word boundaries and groups. A
  backtracking matcher tries alternatives in a fixed order and keeps the first that leads to a match
  of the whole pattern; here \<open>matches\<close> lists every way a pattern can match from a position, in that
  order, so that the first element is the match \<open>re\<close> reports.

  The lemmas: what is listed is exactly what the pattern denotes (\<open>denotes\<close>, without the order), and
  a search finds a match whenever there is one, at the leftmost place.
\<close>

datatype regex =
    Cls "char \<Rightarrow> bool"
  | Run_of nat "char \<Rightarrow> bool"
  | Cat regex regex
  | Or regex regex
  | Maybe regex
  | Boundary
  | Grp string regex

type_synonym groups = "(string, nat \<times> nat) dict"

text \<open>\<open>\d\<close>, \<open>\s\<close>, the word characters \<open>\b\<close> looks at, and a character under \<open>re.IGNORECASE\<close>.\<close>

definition re_digit :: "char \<Rightarrow> bool" where
  "re_digit c \<longleftrightarrow> 48 \<le> (of_char c :: nat) \<and> (of_char c :: nat) \<le> 57"

definition re_word :: "char \<Rightarrow> bool" where
  "re_word c \<longleftrightarrow> re_digit c \<or> c = CHR ''_'' \<or> 97 \<le> (of_char (py_lower_char c) :: nat) \<and> (of_char (py_lower_char c) :: nat) \<le> 122"

definition re_char :: "char \<Rightarrow> char \<Rightarrow> bool" where
  "re_char c x \<longleftrightarrow> py_lower_char x = py_lower_char c"

text \<open>A literal word, \<open>X{n}\<close>, and the alternation of a list of patterns.\<close>

fun lit :: "string \<Rightarrow> regex" where
  "lit [] = Maybe (Cls (\<lambda>_. False))"
| "lit [c] = Cls (re_char c)"
| "lit (c # d # cs) = Cat (Cls (re_char c)) (lit (d # cs))"

fun rep :: "nat \<Rightarrow> regex \<Rightarrow> regex" where
  "rep 0 r = Maybe (Cls (\<lambda>_. False))"
| "rep (Suc 0) r = r"
| "rep (Suc (Suc n)) r = Cat r (rep (Suc n) r)"

fun seq :: "regex list \<Rightarrow> regex" where
  "seq [] = Maybe (Cls (\<lambda>_. False))"
| "seq [r] = r"
| "seq (r # q # rs) = Cat r (seq (q # rs))"

definition word_at :: "string \<Rightarrow> nat \<Rightarrow> bool" where
  "word_at s i \<longleftrightarrow> i < length s \<and> re_word (s ! i)"

definition at_boundary :: "string \<Rightarrow> nat \<Rightarrow> bool" where
  "at_boundary s i \<longleftrightarrow> word_at s i \<noteq> (0 < i \<and> word_at s (i - 1))"

primrec matches :: "regex \<Rightarrow> string \<Rightarrow> nat \<Rightarrow> groups \<Rightarrow> (nat \<times> groups) list" where
  "matches (Cls P) s i g = (if i < length s \<and> P (s ! i) then [(Suc i, g)] else [])"
| "matches (Run_of lo P) s i g =
     map (\<lambda>n. (i + n, g)) (rev [lo..<Suc (length (takeWhile P (drop i s)))])"
| "matches (Cat a b) s i g = concat (map (\<lambda>(j, h). matches b s j h) (matches a s i g))"
| "matches (Or a b) s i g = matches a s i g @ matches b s i g"
| "matches (Maybe a) s i g = matches a s i g @ [(i, g)]"
| "matches Boundary s i g = (if at_boundary s i then [(i, g)] else [])"
| "matches (Grp n a) s i g = map (\<lambda>(j, h). (j, dict_set n (i, j) h)) (matches a s i g)"

text \<open>\<open>pattern.search(s)\<close>: the groups of the first match, from the leftmost position that has one.\<close>

fun search_from :: "regex \<Rightarrow> string \<Rightarrow> nat list \<Rightarrow> (nat \<times> nat \<times> groups) option" where
  "search_from r s [] = None"
| "search_from r s (i # is) =
     (case matches r s i [] of [] \<Rightarrow> search_from r s is | (j, g) # _ \<Rightarrow> Some (i, j, g))"

definition re_search :: "regex \<Rightarrow> string \<Rightarrow> (nat \<times> nat \<times> groups) option" where
  "re_search r s = search_from r s [0..<Suc (length s)]"

text \<open>\<open>match.group(n)\<close>.\<close>

definition group_of :: "string \<Rightarrow> groups \<Rightarrow> string \<Rightarrow> string option" where
  "group_of s g n = (case dict_get g n of None \<Rightarrow> None | Some (i, j) \<Rightarrow> Some (take (j - i) (drop i s)))"

section \<open>What a pattern denotes\<close>

primrec denotes :: "regex \<Rightarrow> string \<Rightarrow> nat \<Rightarrow> nat \<Rightarrow> bool" where
  "denotes (Cls P) s i j \<longleftrightarrow> j = Suc i \<and> i < length s \<and> P (s ! i)"
| "denotes (Run_of lo P) s i j \<longleftrightarrow> i + lo \<le> j \<and> j \<le> max i (length s) \<and> (\<forall>k. i \<le> k \<and> k < j \<longrightarrow> P (s ! k))"
| "denotes (Cat a b) s i j \<longleftrightarrow> (\<exists>k. denotes a s i k \<and> denotes b s k j)"
| "denotes (Or a b) s i j \<longleftrightarrow> denotes a s i j \<or> denotes b s i j"
| "denotes (Maybe a) s i j \<longleftrightarrow> denotes a s i j \<or> j = i"
| "denotes Boundary s i j \<longleftrightarrow> j = i \<and> at_boundary s i"
| "denotes (Grp n a) s i j \<longleftrightarrow> denotes a s i j"

lemma takeWhile_reaches:
  "n \<le> length (takeWhile P xs) \<longleftrightarrow> n \<le> length xs \<and> (\<forall>k < n. P (xs ! k))"
proof (induction xs arbitrary: n)
  case (Cons x xs)
  then show ?case by (cases n) (auto simp: less_Suc_eq_0_disj)
qed auto

lemma run_reaches:
  "lo \<le> n \<and> n \<le> length (takeWhile P (drop i s)) \<longleftrightarrow>
   i + lo \<le> i + n \<and> i + n \<le> max i (length s) \<and> (\<forall>k. i \<le> k \<and> k < i + n \<longrightarrow> P (s ! k))"
proof -
  have "(\<forall>k < n. P (drop i s ! k)) \<longleftrightarrow> (\<forall>k. i \<le> k \<and> k < i + n \<longrightarrow> P (s ! k))" if "n \<le> length s - i" "0 < n"
  proof -
    have "\<forall>k < n. drop i s ! k = s ! (i + k)" using that by auto
    then show ?thesis by (metis le_add1 le_add_diff_inverse nat_add_left_cancel_less)
  qed
  then show ?thesis by (cases "n = 0") (auto simp: takeWhile_reaches max_def)
qed

text \<open>The order aside, the matcher lists exactly what the pattern denotes.\<close>

lemma matches_denotes: "(\<exists>g'. (j, g') \<in> set (matches r s i g)) \<longleftrightarrow> denotes r s i j"
proof (induction r arbitrary: i j g)
  case (Run_of lo P)
  show ?case
  proof
    assume "\<exists>g'. (j, g') \<in> set (matches (Run_of lo P) s i g)"
    then obtain n where "lo \<le> n" "n \<le> length (takeWhile P (drop i s))" "j = i + n" by auto
    with run_reaches [of lo n P i s] show "denotes (Run_of lo P) s i j" by auto
  next
    assume d: "denotes (Run_of lo P) s i j"
    then obtain n where n: "j = i + n" by (metis add_leD1 denotes.simps(2) le_Suc_ex)
    with d run_reaches [of lo n P i s] have "n \<in> set (rev [lo..<Suc (length (takeWhile P (drop i s)))])"
      by (simp add: less_Suc_eq_le del: upt_Suc)
    then have "(j, g) \<in> set (matches (Run_of lo P) s i g)" unfolding matches.simps set_map n by (rule imageI)
    then show "\<exists>g'. (j, g') \<in> set (matches (Run_of lo P) s i g)" by blast
  qed
next
  case (Cat a b)
  have "(\<exists>g'. (j, g') \<in> set (matches (Cat a b) s i g)) \<longleftrightarrow>
      (\<exists>k h. (k, h) \<in> set (matches a s i g) \<and> (\<exists>g'. (j, g') \<in> set (matches b s k h)))" by fastforce
  also have "\<dots> \<longleftrightarrow> denotes (Cat a b) s i j" using Cat by (metis denotes.simps(3))
  finally show ?case .
qed (auto, fastforce+)

lemma denotes_forward: "denotes r s i j \<Longrightarrow> i \<le> j"
proof (induction r arbitrary: i j)
  case (Cat a b)
  then show ?case by (metis denotes.simps(3) le_trans)
qed auto

lemma search_from_None: "search_from r s is = None \<longleftrightarrow> (\<forall>i \<in> set is. \<forall>j. \<not> denotes r s i j)"
proof (induction "is")
  case (Cons i "is")
  have "matches r s i [] = [] \<longleftrightarrow> (\<forall>j. \<not> denotes r s i j)"
    using matches_denotes [of _ r s i "[]"] by (metis list.set_intros(1) empty_iff list.set(1) neq_Nil_conv surj_pair)
  with Cons show ?case by (cases "matches r s i []") auto
qed simp

lemma search_from_Some:
  "search_from r s is = Some (i, j, g) \<Longrightarrow> i \<in> set is \<and> denotes r s i j \<and>
    (\<exists>us vs. is = us @ i # vs \<and> (\<forall>k \<in> set us. \<forall>m. \<not> denotes r s k m))"
proof (induction "is")
  case (Cons a "is")
  show ?case
  proof (cases "matches r s a []")
    case Nil
    then have "\<forall>m. \<not> denotes r s a m" using matches_denotes [of _ r s a "[]"] by auto
    moreover from Nil Cons obtain us vs where "is = us @ i # vs" "\<forall>k \<in> set us. \<forall>m. \<not> denotes r s k m"
      "denotes r s i j" by auto
    ultimately show ?thesis by (intro conjI exI [of _ "a # us"] exI [of _ vs]) auto
  next
    case (Cons p ps)
    then have "i = a" "p = (j, g)" using Cons.prems by (auto split: prod.splits)
    moreover have "denotes r s a j" using Cons calculation matches_denotes [of j r s a "[]"] by auto
    ultimately show ?thesis by (auto intro: exI [of _ "[]"])
  qed
qed simp

lemma search_from_matches: "search_from r s is = Some (i, j, g) \<Longrightarrow> (j, g) \<in> set (matches r s i [])"
  by (induction "is") (auto split: list.splits)

lemma re_search_None: "re_search r s = None \<longleftrightarrow> (\<forall>i \<le> length s. \<forall>j. \<not> denotes r s i j)"
  by (auto simp: re_search_def search_from_None less_Suc_eq_le simp del: upt_Suc)

section \<open>Groups and literals\<close>

primrec group_names :: "regex \<Rightarrow> string set" where
  "group_names (Cls P) = {}"
| "group_names (Run_of lo P) = {}"
| "group_names (Cat a b) = group_names a \<union> group_names b"
| "group_names (Or a b) = group_names a \<union> group_names b"
| "group_names (Maybe a) = group_names a"
| "group_names Boundary = {}"
| "group_names (Grp n a) = insert n (group_names a)"

lemma matches_other_groups:
  "(j, h) \<in> set (matches r s i g) \<Longrightarrow> n \<notin> group_names r \<Longrightarrow> dict_get h n = dict_get g n"
proof (induction r arbitrary: i j g h)
  case (Cat a b)
  then show ?case by fastforce
qed (fastforce split: if_splits)+

lemma matches_Cat:
  assumes "(j, h) \<in> set (matches (Cat a b) s i g)"
  obtains k f where "(k, f) \<in> set (matches a s i g)" "(j, h) \<in> set (matches b s k f)"
  using assms by auto

lemma matches_Grp:
  assumes "(j, h) \<in> set (matches (Grp n a) s i g)"
  shows "dict_get h n = Some (i, j)" "denotes a s i j"
  using assms matches_denotes [of j a s i g] by auto

lemma denotes_lit: "denotes (lit w) s i j \<longleftrightarrow>
    j = i + length w \<and> (w = [] \<or> j \<le> length s) \<and> py_lower (take (length w) (drop i s)) = py_lower w"
proof (induction w arbitrary: i rule: lit.induct)
  case 1
  then show ?case by (simp add: py_lower_def)
next
  case (2 c)
  show ?case by (cases "i < length s") (auto simp: py_lower_def re_char_def Cons_nth_drop_Suc [symmetric])
next
  case (3 c d cs)
  show ?case
  proof (cases "i < length s")
    case True
    then have "drop i s = s ! i # drop (Suc i) s" by (rule Cons_nth_drop_Suc [symmetric])
    moreover have "denotes (lit (c # d # cs)) s i j \<longleftrightarrow> re_char c (s ! i) \<and> denotes (lit (d # cs)) s (Suc i) j"
      using True by (auto simp del: lit.simps simp: lit.simps(3))
    ultimately show ?thesis by (simp add: 3 py_lower_def re_char_def) blast
  qed (auto simp: py_lower_def)
qed

lemma group_of_literal:
  assumes "dict_get g n = Some (i, j)" "denotes (lit w) s i j" "w \<noteq> []"
  shows "map_option py_lower (group_of s g n) = Some (py_lower w)"
  using assms by (simp add: group_of_def denotes_lit)

end
