(* ===== verification/Usage_Limit.thy ===== *)
theory Usage_Limit
  imports Py_Regex
begin

text \<open>
  \<open>routing/usage_limit.py\<close>: telling a spent subscription window from a transient rate limit in an
  upstream's error text, and how long to stay quiet about it. The three regular expressions of the
  file are written out as patterns of \<open>Py_Regex\<close> and searched with its matcher.

  Instants are microseconds since 0001-01-01 UTC and durations are microseconds, as \<open>datetime\<close> and
  \<open>timedelta\<close> have them; leaving the range of either is Python's \<open>OverflowError\<close>, an outcome here.
  \<open>datetime.fromisoformat\<close> is an argument: what a timestamp text stands for as local microseconds with
  its offset from UTC, or nothing where it raises \<open>ValueError\<close>. Every theorem holds whatever it answers.

  The lemmas: the deadline of a detected limit lies between four hours and eight days ahead and is the
  provider's own claim wherever that fits; the only failure is a claim outside the range of dates.
\<close>

type_synonym instant = int
type_synonym duration = int
type_synonym iso_parser = "string \<Rightarrow> (int \<times> duration option) option"

definition second_us :: int where "second_us = 1000000"

definition hour_us :: duration where "hour_us = 3600 * second_us"

definition day_us :: duration where "day_us = 24 * hour_us"

definition MAX_INSTANT :: instant where "MAX_INSTANT = 3652059 * day_us - 1"

definition MAX_TIMEDELTA_DAYS :: int where "MAX_TIMEDELTA_DAYS = 999999999"

datatype date_error = OverflowError

text \<open>\<open>datetime + timedelta\<close> and the product of a \<open>timedelta\<close> with a positive decimal number
  \<open>num / 10 ^ scale\<close>, which is rounded to the nearest microsecond, ties to even.\<close>

definition add_instant :: "instant \<Rightarrow> duration \<Rightarrow> date_error + instant" where
  "add_instant t d = (if 0 \<le> t + d \<and> t + d \<le> MAX_INSTANT then Inr (t + d) else Inl OverflowError)"

definition round_half_even :: "int \<Rightarrow> int \<Rightarrow> int" where
  "round_half_even a b =
     (let q = a div b; r = 2 * (a mod b)
      in if r < b then q else if b < r then q + 1 else if even q then q else q + 1)"

definition scale_duration :: "duration \<Rightarrow> int \<Rightarrow> nat \<Rightarrow> date_error + duration" where
  "scale_duration d num scale =
     (let us = round_half_even (d * num) (10 ^ scale)
      in if us div day_us \<le> MAX_TIMEDELTA_DAYS then Inr us else Inl OverflowError)"

section \<open>Classification\<close>

definition USAGE_MARKERS :: "string list" where
  "USAGE_MARKERS = [''usage limit'', ''subscription limit'', ''fair usage policy'']"

definition RESET_MARKERS :: "string list" where
  "RESET_MARKERS = [''limit will reset'', ''limit resets'']"

text \<open>\<open>_SEPARATORS_RE.sub(" ", s)\<close>: every run of blanks, underscores and hyphens becomes one space.\<close>

definition is_separator :: "char \<Rightarrow> bool" where
  "is_separator c \<longleftrightarrow> py_isspace c \<or> c = CHR ''_'' \<or> c = CHR ''-''"

function collapse :: "string \<Rightarrow> string" where
  "collapse [] = []"
| "collapse (c # cs) =
     (if is_separator c then CHR '' '' # collapse (dropWhile is_separator cs) else c # collapse cs)"
  by pat_completeness auto
termination
  by (relation "measure length") (auto simp: length_dropWhile_le le_imp_less_Suc)

text \<open>\<open>marker in s\<close>.\<close>

fun contains :: "string \<Rightarrow> string \<Rightarrow> bool" where
  "contains m [] \<longleftrightarrow> m = []"
| "contains m (c # cs) \<longleftrightarrow> take (length m) (c # cs) = m \<or> contains m cs"

definition RATE_LIMIT_RE :: regex where
  "RATE_LIMIT_RE =
     seq [Cls ((=) CHR ''r''), Cls ((=) CHR ''a''), Cls ((=) CHR ''t''), Cls ((=) CHR ''e''), Maybe (Cls ((=) CHR '' '')),
          Cls ((=) CHR ''l''), Cls ((=) CHR ''i''), Cls ((=) CHR ''m''), Cls ((=) CHR ''i''), Cls ((=) CHR ''t'')]"

definition is_usage_limit :: "string \<Rightarrow> bool" where
  "is_usage_limit low =
     (let normalized = collapse low
      in if list_ex (\<lambda>m. contains m normalized) USAGE_MARKERS then True
         else if list_ex (\<lambda>m. contains m normalized) RESET_MARKERS
         then re_search RATE_LIMIT_RE normalized = None
         else False)"

section \<open>The window and the declared reset\<close>

definition MIN_ALERT_GAP :: duration where "MIN_ALERT_GAP = 4 * hour_us"

definition MAX_SUPPRESS :: duration where "MAX_SUPPRESS = 8 * day_us"

definition RESET_AT_RE :: regex where
  "RESET_AT_RE =
     seq [lit ''reset'', Maybe (Or (lit ''s'') (lit ''ting'')), Run_of 1 py_isspace,
          Or (lit ''at'') (lit ''on''), Run_of 1 py_isspace,
          Grp ''1''
            (seq [rep 4 (Cls re_digit), lit ''-'', rep 2 (Cls re_digit), lit ''-'', rep 2 (Cls re_digit),
                  Cls (\<lambda>c. c = CHR '' '' \<or> re_char CHR ''T'' c),
                  rep 2 (Cls re_digit), lit '':'', rep 2 (Cls re_digit),
                  Maybe (seq [lit '':'', rep 2 (Cls re_digit)]),
                  Maybe (seq [lit ''.'', Run_of 1 re_digit]),
                  Maybe (seq [Maybe (Cls py_isspace),
                              Or (lit ''Z'')
                                 (seq [Cls (\<lambda>c. c = CHR ''+'' \<or> c = CHR ''-''), rep 2 (Cls re_digit),
                                       Maybe (lit '':''), rep 2 (Cls re_digit)])])])]"

definition WINDOW_RE :: regex where
  "WINDOW_RE =
     seq [Maybe (seq [Grp ''num'' (seq [Run_of 1 re_digit, Maybe (seq [lit ''.'', Run_of 1 re_digit])]),
                      Run_of 0 (\<lambda>c. py_isspace c \<or> c = CHR ''-'')]),
          Boundary,
          Grp ''unit'' (Or (lit ''hour'') (Or (lit ''day'') (Or (lit ''week'') (lit ''month'')))),
          Maybe (Grp ''suffix'' (Or (lit ''ly'') (lit ''s''))),
          Boundary]"

definition UNIT_LENGTH :: "(string, duration) dict" where
  "UNIT_LENGTH = [(''hour'', hour_us), (''day'', day_us), (''week'', 7 * day_us), (''month'', 31 * day_us)]"

record usage_limit =
  ul_suppress_until :: instant
  ul_window :: string
  ul_reset_at :: "instant option"

text \<open>\<open>parsed.astimezone(UTC)\<close> leaves the range of dates for the first and last hours of it.\<close>

definition parse_reset_timestamp :: "iso_parser \<Rightarrow> string \<Rightarrow> date_error + instant option" where
  "parse_reset_timestamp fromisoformat raw =
     (let text0 = py_strip raw;
          text1 = (if text0 \<noteq> [] \<and> last text0 = CHR ''z'' then butlast text0 @ ''Z'' else text0)
      in case fromisoformat text1 of
           None \<Rightarrow> Inr None
         | Some (local_us, None) \<Rightarrow> Inr (Some local_us)
         | Some (local_us, Some offset) \<Rightarrow>
             (case add_instant local_us (- offset) of Inl e \<Rightarrow> Inl e | Inr t \<Rightarrow> Inr (Some t)))"

text \<open>\<open>float(num_raw)\<close> of the digits the pattern captured, as a numerator and a power of ten.\<close>

definition digits_value :: "string \<Rightarrow> int" where
  "digits_value ds = foldl (\<lambda>n c. 10 * n + (of_char c - 48)) 0 ds"

definition decimal_value :: "string \<Rightarrow> int \<times> nat" where
  "decimal_value raw =
     (let whole = takeWhile (\<lambda>c. c \<noteq> CHR ''.'') raw; frac = drop (Suc (length whole)) raw
      in (digits_value (whole @ frac), length frac))"

definition estimate_window :: "string \<Rightarrow> date_error + (duration \<times> string) option" where
  "estimate_window detail =
     (case re_search WINDOW_RE detail of
        None \<Rightarrow> Inr None
      | Some (_, _, g) \<Rightarrow>
          (let unit = py_lower (the (group_of detail g ''unit''));
               length_us = the (dict_get UNIT_LENGTH unit);
               named = (length_us, unit @ py_lower (case group_of detail g ''suffix'' of None \<Rightarrow> [] | Some x \<Rightarrow> x))
           in case group_of detail g ''num'' of
                None \<Rightarrow> Inr (Some named)
              | Some num_raw \<Rightarrow>
                  (case decimal_value num_raw of (num, scale) \<Rightarrow>
                     if 0 < num
                     then (case scale_duration length_us num scale of
                             Inl e \<Rightarrow> Inl e
                           | Inr us \<Rightarrow> Inr (Some (us, num_raw @ '' '' @ unit)))
                     else Inr (Some named))))"

definition suppression_deadline :: "instant option \<Rightarrow> instant \<Rightarrow> date_error + instant" where
  "suppression_deadline reset_at now =
     (case add_instant now MIN_ALERT_GAP of
        Inl e \<Rightarrow> Inl e
      | Inr floor_at \<Rightarrow>
          (case reset_at of
             None \<Rightarrow> Inr floor_at
           | Some r \<Rightarrow>
               if r < floor_at then Inr floor_at
               else (case add_instant now MAX_SUPPRESS of
                       Inl e \<Rightarrow> Inl e
                     | Inr ceiling_at \<Rightarrow> Inr (if ceiling_at < r then ceiling_at else r))))"

text \<open>The declared reset, if there is one and it lies ahead.\<close>

definition declared_reset :: "iso_parser \<Rightarrow> string \<Rightarrow> instant \<Rightarrow> date_error + instant option" where
  "declared_reset fromisoformat detail now =
     (case re_search RESET_AT_RE detail of
        None \<Rightarrow> Inr None
      | Some (_, _, g) \<Rightarrow>
          (case parse_reset_timestamp fromisoformat (the (group_of detail g ''1'')) of
             Inl e \<Rightarrow> Inl e
           | Inr None \<Rightarrow> Inr None
           | Inr (Some t) \<Rightarrow> Inr (if now < t then Some t else None)))"

definition finish_limit :: "instant option \<Rightarrow> string \<Rightarrow> instant \<Rightarrow> date_error + usage_limit option" where
  "finish_limit reset_at label now =
     (case suppression_deadline reset_at now of
        Inl e \<Rightarrow> Inl e
      | Inr t \<Rightarrow> Inr (Some \<lparr>ul_suppress_until = t, ul_window = label, ul_reset_at = reset_at\<rparr>))"

definition detect_usage_limit ::
  "iso_parser \<Rightarrow> string option \<Rightarrow> instant \<Rightarrow> date_error + usage_limit option" where
  "detect_usage_limit fromisoformat detail now =
     (case detail of
        None \<Rightarrow> Inr None
      | Some text1 \<Rightarrow>
          if text1 = [] then Inr None
          else if \<not> is_usage_limit (py_lower text1) then Inr None
          else
            (case estimate_window text1 of
               Inl e \<Rightarrow> Inl e
             | Inr window_est \<Rightarrow>
                 (case declared_reset fromisoformat text1 now of
                    Inl e \<Rightarrow> Inl e
                  | Inr declared \<Rightarrow>
                      (case (declared, window_est) of
                         (Some t, Some (_, label)) \<Rightarrow> finish_limit (Some t) label now
                       | (Some t, None) \<Rightarrow> finish_limit (Some t) ''explicit'' now
                       | (None, Some (len, label)) \<Rightarrow>
                           (case add_instant now len of Inl e \<Rightarrow> Inl e | Inr t \<Rightarrow> finish_limit (Some t) label now)
                       | (None, None) \<Rightarrow> finish_limit None ''unspecified'' now))))"

section \<open>What the patterns guarantee\<close>

text \<open>The unit a window match captured is one the table has.\<close>

lemma window_unit:
  assumes "re_search WINDOW_RE detail = Some (i, j, g)"
  obtains u where "group_of detail g ''unit'' = Some u" "py_lower u \<in> {''hour'', ''day'', ''week'', ''month''}"
proof -
  let ?num = "Maybe (seq [Grp ''num'' (seq [Run_of 1 re_digit, Maybe (seq [lit ''.'', Run_of 1 re_digit])]),
                      Run_of 0 (\<lambda>c. py_isspace c \<or> c = CHR ''-'')])"
  let ?unit = "Or (lit ''hour'') (Or (lit ''day'') (Or (lit ''week'') (lit ''month'')))"
  let ?rest = "Cat (Maybe (Grp ''suffix'' (Or (lit ''ly'') (lit ''s'')))) Boundary"
  from assms have "(j, g) \<in> set (matches WINDOW_RE detail i [])"
    unfolding re_search_def by (rule search_from_matches)
  then have "(j, g) \<in> set (matches (Cat ?num (Cat Boundary (Cat (Grp ''unit'' ?unit) ?rest))) detail i [])"
    by (simp only: WINDOW_RE_def seq.simps)
  then obtain k f where "(j, g) \<in> set (matches (Cat Boundary (Cat (Grp ''unit'' ?unit) ?rest)) detail k f)" by (rule matches_Cat)
  then obtain k' f' where "(j, g) \<in> set (matches (Cat (Grp ''unit'' ?unit) ?rest) detail k' f')" by (rule matches_Cat)
  then obtain b h where u: "(b, h) \<in> set (matches (Grp ''unit'' ?unit) detail k' f')"
    and r: "(j, g) \<in> set (matches ?rest detail b h)" by (rule matches_Cat)
  have "''unit'' \<notin> group_names ?rest" by simp
  from matches_other_groups [OF r this] matches_Grp(1) [OF u] have gu: "dict_get g ''unit'' = Some (k', b)" by simp
  from matches_Grp(2) [OF u] obtain w where "w \<in> {''hour'', ''day'', ''week'', ''month''}" "denotes (lit w) detail k' b"
    by (auto simp del: lit.simps)
  then have w: "w \<noteq> []" "py_lower w = w" "w \<in> {''hour'', ''day'', ''week'', ''month''}" "denotes (lit w) detail k' b"
    by (auto simp: py_lower_def py_lower_char_def simp del: lit.simps)
  from group_of_literal [OF gu w(4,1)] obtain u where "group_of detail g ''unit'' = Some u" "py_lower u = py_lower w"
    by (cases "group_of detail g ''unit''") simp_all
  with w(2,3) show thesis by (intro that [of u]) auto
qed

lemma round_half_even_nonneg: "0 \<le> a \<Longrightarrow> 0 < b \<Longrightarrow> 0 \<le> round_half_even a b"
  by (simp add: round_half_even_def Let_def pos_imp_zdiv_nonneg_iff)

lemma estimate_window_nonneg:
  assumes "estimate_window detail = Inr (Some (len, label))"
  shows "0 \<le> len"
proof -
  obtain i j g where s: "re_search WINDOW_RE detail = Some (i, j, g)"
    using assms by (auto simp: estimate_window_def split: option.splits)
  obtain u where u: "group_of detail g ''unit'' = Some u" "py_lower u \<in> {''hour'', ''day'', ''week'', ''month''}"
    by (rule window_unit [OF s])
  then have "0 \<le> the (dict_get UNIT_LENGTH (py_lower u))"
    by (auto simp: UNIT_LENGTH_def day_us_def hour_us_def second_us_def)
  with assms s u(1) show ?thesis
    by (auto simp: estimate_window_def scale_duration_def Let_def round_half_even_nonneg
        split: option.splits prod.splits if_splits sum.splits)
qed

lemma declared_ahead: "declared_reset parser detail now = Inr (Some t) \<Longrightarrow> now < t"
  by (auto simp: declared_reset_def split: option.splits prod.splits sum.splits if_splits)

text \<open>The floor and ceiling are in range for every day the code will see.\<close>

lemma deadline_clamped:
  assumes "0 \<le> now" "now + MAX_SUPPRESS \<le> MAX_INSTANT"
  shows "suppression_deadline r now =
    Inr (case r of None \<Rightarrow> now + MIN_ALERT_GAP | Some t \<Rightarrow> max (now + MIN_ALERT_GAP) (min t (now + MAX_SUPPRESS)))"
  using assms
  by (auto simp: suppression_deadline_def add_instant_def MIN_ALERT_GAP_def MAX_SUPPRESS_def day_us_def hour_us_def
      second_us_def split: option.splits)

section \<open>Properties\<close>

text \<open>C11. Detection of a spent subscription window, whatever the text and whatever the timestamp parser
  answers. A text is passed over exactly when it does not name a usage limit. Otherwise the alerts stay
  quiet for at least four hours and at most eight days, and exactly until the reset the provider
  declared or its named window implies wherever that lies between the two; a declared reset wins over
  the window and always lies ahead. The one failure is \<open>OverflowError\<close>, and only when the window or the
  timestamp the text names leaves the range of dates.\<close>

theorem usage_limit_deadline:
  assumes "0 \<le> now" and "now + MAX_SUPPRESS \<le> MAX_INSTANT"
  shows "case detect_usage_limit fromisoformat detail now of
      Inr None \<Rightarrow> (case detail of None \<Rightarrow> True | Some d \<Rightarrow> \<not> is_usage_limit (py_lower d))
    | Inr (Some u) \<Rightarrow>
        is_usage_limit (py_lower (the detail)) \<and>
        now + 4 * hour_us \<le> ul_suppress_until u \<and> ul_suppress_until u \<le> now + 8 * day_us \<and>
        (case ul_reset_at u of
           None \<Rightarrow> ul_suppress_until u = now + 4 * hour_us
         | Some r \<Rightarrow> now \<le> r \<and> ul_suppress_until u = max (now + 4 * hour_us) (min r (now + 8 * day_us))) \<and>
        (\<forall>t. declared_reset fromisoformat (the detail) now = Inr (Some t) \<longrightarrow> ul_reset_at u = Some t \<and> now < t)
    | Inl OverflowError \<Rightarrow>
        estimate_window (the detail) = Inl OverflowError \<or>
        declared_reset fromisoformat (the detail) now = Inl OverflowError \<or>
        (\<exists>len label. estimate_window (the detail) = Inr (Some (len, label)) \<and> MAX_INSTANT < now + len)"
proof (cases "case detail of None \<Rightarrow> True | Some d \<Rightarrow> \<not> is_usage_limit (py_lower d)")
  case True
  then have "detect_usage_limit fromisoformat detail now = Inr None"
    by (auto simp: detect_usage_limit_def split: option.splits)
  with True show ?thesis by simp
next
  case False
  then obtain d where d: "detail = Some d" "is_usage_limit (py_lower d)" by (auto split: option.splits)
  have "d \<noteq> []" using d(2) by (auto simp: is_usage_limit_def py_lower_def USAGE_MARKERS_def RESET_MARKERS_def Let_def)
  have fin: "finish_limit r label now = Inr (Some \<lparr>ul_suppress_until = (case r of None \<Rightarrow> now + MIN_ALERT_GAP
        | Some t \<Rightarrow> max (now + MIN_ALERT_GAP) (min t (now + MAX_SUPPRESS))), ul_window = label, ul_reset_at = r\<rparr>)" for r label
    by (simp add: finish_limit_def deadline_clamped [OF assms])
  have gap: "MIN_ALERT_GAP = 4 * hour_us" "MAX_SUPPRESS = 8 * day_us" "4 * hour_us \<le> 8 * day_us"
    by (simp_all add: MIN_ALERT_GAP_def MAX_SUPPRESS_def day_us_def hour_us_def second_us_def)
  show ?thesis
  proof (cases "estimate_window d")
    case (Inl e)
    with d \<open>d \<noteq> []\<close> show ?thesis by (cases e) (simp add: detect_usage_limit_def)
  next
    case (Inr w)
    note est = this
    show ?thesis
    proof (cases "declared_reset fromisoformat d now")
      case (Inl e)
      with est d \<open>d \<noteq> []\<close> show ?thesis by (cases e) (simp add: detect_usage_limit_def)
    next
      case (Inr t)
      show ?thesis
      proof (cases t)
        case (Some r)
        with Inr declared_ahead [of fromisoformat d now r] est d \<open>d \<noteq> []\<close> gap show ?thesis
          by (cases w) (auto simp: detect_usage_limit_def fin)
      next
        case None
        show ?thesis
        proof (cases w)
          case None
          with \<open>t = None\<close> Inr est d \<open>d \<noteq> []\<close> gap show ?thesis by (simp add: detect_usage_limit_def fin)
        next
          case (Some p)
          obtain len label where p: "p = (len, label)" by (cases p)
          have len: "0 \<le> len" using est Some p estimate_window_nonneg by simp
          with \<open>t = None\<close> Inr est d \<open>d \<noteq> []\<close> gap Some p assms(1) show ?thesis
            by (cases "now + len \<le> MAX_INSTANT") (auto simp: detect_usage_limit_def fin add_instant_def)
        qed
      qed
    qed
  qed
qed

theorem usage_limit_deadline_witness:
  "\<exists>u. detect_usage_limit (\<lambda>_. None) (Some ''Weekly usage-limit reached'') 62999990000000000 = Inr (Some u) \<and>
     ul_suppress_until u \<le> 62999990000000000 + 8 * day_us"
proof -
  have "\<exists>u. detect_usage_limit (\<lambda>_. None) (Some ''Weekly usage-limit reached'') 62999990000000000 = Inr (Some u)"
    by (rule exI [of _ "\<lparr>ul_suppress_until = 63000594800000000, ul_window = ''weekly'', ul_reset_at = Some 63000594800000000\<rparr>"]) code_simp
  then obtain u where u: "detect_usage_limit (\<lambda>_. None) (Some ''Weekly usage-limit reached'') 62999990000000000 = Inr (Some u)" by blast
  have "(0::int) \<le> 62999990000000000" "62999990000000000 + MAX_SUPPRESS \<le> MAX_INSTANT" by code_simp+
  from usage_limit_deadline [OF this, of "Some ''Weekly usage-limit reached''" "\<lambda>_. None"] u show ?thesis by auto
qed

text \<open>A text with a large enough number in front of a unit makes the detection raise.\<close>

lemma oversized_window_raises:
  "detect_usage_limit (\<lambda>_. None) (Some ''Usage limit reached for 99999999 hours'') 62999990000000000 = Inl OverflowError"
  by code_simp

end
