(* ===== verification/Circuit_Breaker.thy ===== *)
theory Circuit_Breaker
  imports Usage_Limit
begin

text \<open>
  \<open>routing/endpoint_health.py\<close>, first part: the availability counters of an endpoint
  (\<open>_ProviderHealth\<close>) and its circuit breaker (\<open>_CircuitBreaker\<close>), with half-open probes, the
  affected callers and the decision whether a trip pages.

  A call reads the clocks it uses once: the performance counter that times cooldowns and probes, the
  monotonic clock that spaces pages, and the wall clock. The breaker's lock makes each method one step.
  Delivering a page is a task of its own: \<open>on_failure\<close> says whether one was started, and
  \<open>send_finished\<close> is what the task does when the delivery has ended. Log lines and the texts of the
  alert card are left out; the figures the card shows are kept.

  The lemmas: one probe at a time, no endpoint is shut out for good, when the circuit opens as a closed
  form of the outcomes, and how often a spent plan may page.
\<close>

record clock =
  ck_perf :: time
  ck_mono :: time
  ck_utc :: instant

text \<open>\<open>datetime.timestamp()\<close>: seconds since 1970, 719162 days after the first day of year 1.\<close>

definition timestamp :: "instant \<Rightarrow> time" where
  "timestamp t = real_of_int (t - 719162 * day_us) / 1000000"

text \<open>The settings as parsed numbers; unset ones take the default.\<close>

record breaker_config =
  cf_alpha :: "real option"
  cf_failure_threshold :: "int option"
  cf_cooldown_seconds :: "time option"
  cf_min_availability :: "real option"

record policy =
  po_enabled :: bool
  po_page_on_usage_limit :: bool

definition MAX_TRACKED_CALLERS :: nat where "MAX_TRACKED_CALLERS = 50"

definition CALLERS_IN_ALERT :: nat where "CALLERS_IN_ALERT = 10"

definition MIN_ALERT_GAP_SEC :: time where "MIN_ALERT_GAP_SEC = real_of_int MIN_ALERT_GAP / 1000000"

definition or_default :: "'a option \<Rightarrow> 'a \<Rightarrow> 'a" where
  "or_default x d = (case x of None \<Rightarrow> d | Some v \<Rightarrow> v)"

section \<open>Availability\<close>

record provider_health =
  ph_alpha :: real
  ph_ewma_success :: real
  ph_ewma_total :: real
  ph_last_error_status :: "int option"
  ph_consecutive_auth_rejections :: nat

definition ProviderHealth_init :: "breaker_config \<Rightarrow> provider_health" where
  "ProviderHealth_init cfg =
     \<lparr>ph_alpha = or_default (cf_alpha cfg) (1 / 10), ph_ewma_success = 1, ph_ewma_total = 1,
      ph_last_error_status = None, ph_consecutive_auth_rejections = 0\<rparr>"

text \<open>Whether the outcome ended a run of credential rejections.\<close>

definition health_record :: "provider_health \<Rightarrow> bool \<Rightarrow> bool \<times> provider_health" where
  "health_record h success =
     (let inc_s = (if success then 1 else 0);
          h1 = h\<lparr>ph_ewma_success := (1 - ph_alpha h) * ph_ewma_success h + ph_alpha h * inc_s,
                 ph_ewma_total := (1 - ph_alpha h) * ph_ewma_total h + ph_alpha h\<rparr>
      in if success \<and> ph_consecutive_auth_rejections h \<noteq> 0
         then (True, h1\<lparr>ph_consecutive_auth_rejections := 0\<rparr>)
         else (False, h1))"

definition note_failure :: "provider_health \<Rightarrow> int option \<Rightarrow> bool \<Rightarrow> nat \<times> provider_health" where
  "note_failure h status auth_misconfig =
     (let h1 = (if status \<noteq> None then h\<lparr>ph_last_error_status := status\<rparr> else h);
          h2 = (if auth_misconfig then h1\<lparr>ph_consecutive_auth_rejections := Suc (ph_consecutive_auth_rejections h1)\<rparr> else h1)
      in (ph_consecutive_auth_rejections h2, h2))"

definition availability :: "provider_health \<Rightarrow> real" where
  "availability h =
     (if ph_ewma_total h \<le> 0 then 1 else max 0 (min 1 (ph_ewma_success h / ph_ewma_total h)))"

section \<open>The breaker\<close>

datatype circuit_state = CLOSED | OPEN | HALF_OPEN

record breaker =
  cb_provider :: string
  cb_state :: circuit_state
  cb_failure_threshold :: int
  cb_cooldown_seconds :: time
  cb_min_availability :: real
  cb_consecutive_failures :: int
  cb_last_opened :: "time option"
  cb_probe_deadline :: "time option"
  cb_probe_token :: "nat option"
  cb_next_probe_token :: nat
  cb_alert_suppressed_until :: time
  cb_usage_limit_alerted_at :: "time option"
  cb_alert_in_flight_generation :: "nat option"
  cb_recovery_generation :: nat
  cb_affected_callers :: "(string, nat) dict"

definition CircuitBreaker_init :: "breaker_config \<Rightarrow> string \<Rightarrow> breaker" where
  "CircuitBreaker_init cfg provider =
     \<lparr>cb_provider = provider, cb_state = CLOSED,
      cb_failure_threshold = or_default (cf_failure_threshold cfg) 3,
      cb_cooldown_seconds = or_default (cf_cooldown_seconds cfg) 30,
      cb_min_availability = or_default (cf_min_availability cfg) (7 / 10),
      cb_consecutive_failures = 0, cb_last_opened = None, cb_probe_deadline = None, cb_probe_token = None,
      cb_next_probe_token = 1, cb_alert_suppressed_until = 0, cb_usage_limit_alerted_at = None,
      cb_alert_in_flight_generation = None, cb_recovery_generation = 0, cb_affected_callers = []\<rparr>"

definition probe_claim_live :: "breaker \<Rightarrow> time \<Rightarrow> bool" where
  "probe_claim_live b now = (case cb_probe_deadline b of None \<Rightarrow> False | Some d \<Rightarrow> now < d)"

definition admits :: "breaker \<Rightarrow> time \<Rightarrow> bool" where
  "admits b now =
     (case cb_state b of
        CLOSED \<Rightarrow> True
      | OPEN \<Rightarrow> (case cb_last_opened b of None \<Rightarrow> False | Some t \<Rightarrow> cb_cooldown_seconds b \<le> now - t)
      | HALF_OPEN \<Rightarrow> \<not> probe_claim_live b now)"

definition allow_request :: "breaker \<Rightarrow> clock \<Rightarrow> bool" where
  "allow_request b ck = admits b (ck_perf ck)"

definition claim_probe :: "breaker \<Rightarrow> time \<Rightarrow> nat \<times> breaker" where
  "claim_probe b now =
     (cb_next_probe_token b,
      b\<lparr>cb_probe_deadline := Some (now + cb_cooldown_seconds b), cb_probe_token := Some (cb_next_probe_token b),
        cb_next_probe_token := Suc (cb_next_probe_token b)\<rparr>)"

definition release_probe :: "breaker \<Rightarrow> breaker" where
  "release_probe b = b\<lparr>cb_probe_deadline := None, cb_probe_token := None\<rparr>"

definition breaker_end_dispatch :: "breaker \<Rightarrow> nat \<Rightarrow> breaker" where
  "breaker_end_dispatch b probe_token = (if cb_probe_token b = Some probe_token then release_probe b else b)"

definition breaker_begin_dispatch :: "breaker \<Rightarrow> clock \<Rightarrow> (bool \<times> nat option) \<times> breaker" where
  "breaker_begin_dispatch b ck =
     (let now = ck_perf ck in
      case cb_state b of
        CLOSED \<Rightarrow> ((True, None), b)
      | OPEN \<Rightarrow>
          (case cb_last_opened b of
             None \<Rightarrow> ((False, None), b)
           | Some t \<Rightarrow>
               if now - t < cb_cooldown_seconds b then ((False, None), b)
               else (case claim_probe (b\<lparr>cb_state := HALF_OPEN\<rparr>) now of (tok, b1) \<Rightarrow> ((True, Some tok), b1)))
      | HALF_OPEN \<Rightarrow>
          if probe_claim_live b now then ((False, None), b)
          else (case claim_probe b now of (tok, b1) \<Rightarrow> ((True, Some tok), b1)))"

text \<open>Whether the success closed the circuit, which reports the recovery.\<close>

definition on_success :: "breaker \<Rightarrow> bool \<times> breaker" where
  "on_success b =
     (let b1 = b\<lparr>cb_consecutive_failures := 0, cb_affected_callers := [], cb_alert_suppressed_until := 0,
                 cb_recovery_generation := Suc (cb_recovery_generation b)\<rparr>
      in if cb_state b \<in> {OPEN, HALF_OPEN}
         then (True, release_probe (b1\<lparr>cb_state := CLOSED, cb_last_opened := None\<rparr>))
         else (False, b1))"

definition is_closed :: "breaker \<Rightarrow> bool" where
  "is_closed b \<longleftrightarrow> cb_state b = CLOSED"

section \<open>Failures and pages\<close>

datatype trip_reason = Streak int int | Floor real real

definition trip_cause :: "breaker \<Rightarrow> bool \<Rightarrow> bool \<Rightarrow> real option \<Rightarrow> trip_reason list" where
  "trip_cause b by_streak by_availability avail =
     (if by_streak then [Streak (cb_consecutive_failures b) (cb_failure_threshold b)] else []) @
     (case avail of Some a \<Rightarrow> if by_availability then [Floor a (cb_min_availability b)] else [] | None \<Rightarrow> [])"

text \<open>\<open>Counter.most_common(n)\<close>: by count, ties in insertion order; then how many callers are left out and
  whether the tracker was full.\<close>

definition most_common :: "nat \<Rightarrow> (string, nat) dict \<Rightarrow> (string \<times> nat) list" where
  "most_common n d = take n (rev (sort_key snd (rev d)))"

definition format_affected_callers :: "breaker \<Rightarrow> ((string \<times> nat) list \<times> nat \<times> bool) option" where
  "format_affected_callers b =
     (if cb_affected_callers b = [] then None
      else let named = most_common CALLERS_IN_ALERT (cb_affected_callers b);
               remaining = length (cb_affected_callers b) - length named
           in Some (named, remaining, 0 < remaining \<and> MAX_TRACKED_CALLERS \<le> length (cb_affected_callers b)))"

record page =
  pg_provider :: string
  pg_consecutive_failures :: int
  pg_availability :: "real option"
  pg_trip_cause :: "trip_reason list"
  pg_reason :: string
  pg_upstream_error :: "string option"
  pg_quota_reset_at :: "instant option"
  pg_alert_muted_until :: "instant option"
  pg_affected_callers :: "((string \<times> nat) list \<times> nat \<times> bool) option"

datatype alert_gate = CircuitOpenDisabled | UsageLimitPagingOff | Muted | MinAlertGap

text \<open>What a recorded failure led to. In the last three cases the circuit had just opened, and a recovery
  that was still settling was interrupted. \<open>Paged\<close> carries the card, the deadline to commit when it is
  delivered, the generation, and whether the delivery could be scheduled.\<close>

datatype failure_outcome =
    BelowThreshold
  | StillOpen
  | AlertRaised date_error
  | HeldBack alert_gate bool
  | Paged page "time option" nat bool

definition track_caller :: "breaker \<Rightarrow> string option \<Rightarrow> breaker" where
  "track_caller b caller =
     (case caller of
        None \<Rightarrow> b
      | Some c \<Rightarrow>
          if c \<noteq> [] \<and> (dict_get (cb_affected_callers b) c \<noteq> None \<or> length (cb_affected_callers b) < MAX_TRACKED_CALLERS)
          then b\<lparr>cb_affected_callers := dict_set c (dict_get_or (cb_affected_callers b) c 0 + 1) (cb_affected_callers b)\<rparr>
          else b)"

definition plan_limit_recent :: "breaker \<Rightarrow> clock \<Rightarrow> bool" where
  "plan_limit_recent b ck =
     (case cb_usage_limit_alerted_at b of None \<Rightarrow> False | Some t \<Rightarrow> ck_mono ck - t < MIN_ALERT_GAP_SEC)"

text \<open>The part of \<open>on_failure\<close> a trip reaches: whether to page.\<close>

definition hold_back :: "breaker \<Rightarrow> clock \<Rightarrow> usage_limit option \<Rightarrow> bool \<Rightarrow> breaker" where
  "hold_back b ck ul paging_off =
     (let b1 = (if paging_off \<and> ul \<noteq> None \<and> \<not> plan_limit_recent b ck
                then b\<lparr>cb_usage_limit_alerted_at := Some (ck_mono ck)\<rparr> else b)
      in case ul of
           None \<Rightarrow> b1
         | Some u \<Rightarrow> b1\<lparr>cb_alert_suppressed_until := max (cb_alert_suppressed_until b1) (timestamp (ul_suppress_until u))\<rparr>)"

definition trip_alert ::
  "iso_parser \<Rightarrow> policy \<Rightarrow> breaker \<Rightarrow> clock \<Rightarrow> bool \<Rightarrow> bool \<Rightarrow> bool \<Rightarrow> real option \<Rightarrow> string \<Rightarrow> string option \<Rightarrow>
     failure_outcome \<times> breaker" where
  "trip_alert fromisoformat pol b ck loop_running by_streak by_availability avail reason detail =
     (case detect_usage_limit fromisoformat detail (ck_utc ck) of
        Inl e \<Rightarrow> (AlertRaised e, b)
      | Inr ul \<Rightarrow>
          (let in_flight_current = (cb_alert_in_flight_generation b = Some (cb_recovery_generation b));
               muted = (in_flight_current \<or> timestamp (ck_utc ck) < cb_alert_suppressed_until b);
               recent = plan_limit_recent b ck;
               rate_limited = (ul \<noteq> None \<and> recent);
               paging_off = (\<not> po_page_on_usage_limit pol \<and> (ul \<noteq> None \<or> recent));
               alerting_off = (\<not> po_enabled pol)
           in if alerting_off \<or> muted \<or> rate_limited \<or> paging_off
              then (HeldBack (if alerting_off then CircuitOpenDisabled else if paging_off then UsageLimitPagingOff
                              else if muted then Muted else MinAlertGap)
                      (alerting_off \<or> paging_off),
                    hold_back b ck ul paging_off)
              else
                (let card = \<lparr>pg_provider = cb_provider b, pg_consecutive_failures = cb_consecutive_failures b,
                       pg_availability = avail, pg_trip_cause = trip_cause b by_streak by_availability avail,
                       pg_reason = (if reason = [] then ''unknown'' else reason),
                       pg_upstream_error = (if detail = Some [] then None else detail),
                       pg_quota_reset_at = (case ul of None \<Rightarrow> None | Some u \<Rightarrow> ul_reset_at u),
                       pg_alert_muted_until = map_option ul_suppress_until ul,
                       pg_affected_callers = format_affected_callers b\<rparr>;
                     suppress_epoch = map_option (\<lambda>u. timestamp (ul_suppress_until u)) ul;
                     generation = cb_recovery_generation b;
                     b1 = (if suppress_epoch \<noteq> None then b\<lparr>cb_alert_in_flight_generation := Some generation\<rparr> else b);
                     b2 = (if \<not> loop_running \<and> cb_alert_in_flight_generation b1 = Some generation
                           then b1\<lparr>cb_alert_in_flight_generation := None\<rparr> else b1)
                 in (Paged card suppress_epoch generation loop_running, b2))))"

definition on_failure ::
  "iso_parser \<Rightarrow> policy \<Rightarrow> breaker \<Rightarrow> clock \<Rightarrow> bool \<Rightarrow> real option \<Rightarrow> string \<Rightarrow> string option \<Rightarrow> string option \<Rightarrow>
     failure_outcome \<times> breaker" where
  "on_failure fromisoformat pol b ck loop_running avail reason detail caller =
     (let b1 = track_caller (b\<lparr>cb_consecutive_failures := cb_consecutive_failures b + 1\<rparr>) caller;
          by_streak = (cb_failure_threshold b1 \<le> cb_consecutive_failures b1);
          by_availability = (case avail of None \<Rightarrow> False | Some a \<Rightarrow> a < cb_min_availability b1)
      in if \<not> (by_streak \<or> by_availability) then (BelowThreshold, b1)
         else
           (let b2 = b1\<lparr>cb_state := OPEN, cb_last_opened := Some (ck_perf ck)\<rparr>
            in if cb_state b1 = OPEN then (StillOpen, b2)
               else trip_alert fromisoformat pol b2 ck loop_running by_streak by_availability avail reason detail))"

text \<open>The end of a page's delivery, with whether it was delivered; a delivery that raised was not.\<close>

definition send_finished :: "breaker \<Rightarrow> clock \<Rightarrow> time option \<Rightarrow> nat \<Rightarrow> bool \<Rightarrow> breaker" where
  "send_finished b ck suppress_epoch generation delivered =
     (case suppress_epoch of
        None \<Rightarrow> b
      | Some epoch \<Rightarrow>
          (let b1 = (if cb_alert_in_flight_generation b = Some generation
                     then b\<lparr>cb_alert_in_flight_generation := None\<rparr> else b)
           in if delivered
              then (let b2 = b1\<lparr>cb_usage_limit_alerted_at := Some (ck_mono ck)\<rparr>
                    in if generation = cb_recovery_generation b2 then b2\<lparr>cb_alert_suppressed_until := epoch\<rparr> else b2)
              else b1))"

section \<open>The breaker as a machine\<close>

text \<open>A failure event carries what its recorder passed; a page's delivery may end at any time.\<close>

datatype breaker_event =
    BBegin
  | BEnd nat
  | BSuccess
  | BFailure policy bool "real option" string "string option" "string option"
  | BSent "time option" nat bool

fun breaker_step :: "iso_parser \<Rightarrow> breaker \<Rightarrow> clock \<times> breaker_event \<Rightarrow> breaker" where
  "breaker_step parser b (ck, BBegin) = snd (breaker_begin_dispatch b ck)"
| "breaker_step parser b (ck, BEnd tok) = breaker_end_dispatch b tok"
| "breaker_step parser b (ck, BSuccess) = snd (on_success b)"
| "breaker_step parser b (ck, BFailure pol lr avail reason detail caller) =
     snd (on_failure parser pol b ck lr avail reason detail caller)"
| "breaker_step parser b (ck, BSent epoch gen delivered) = send_finished b ck epoch gen delivered"

text \<open>What the page decision leaves alone.\<close>

lemma track_caller_simps [breaker_simps]:
  "cb_state (track_caller b c) = cb_state b" "cb_last_opened (track_caller b c) = cb_last_opened b"
  "cb_probe_deadline (track_caller b c) = cb_probe_deadline b" "cb_probe_token (track_caller b c) = cb_probe_token b"
  "cb_next_probe_token (track_caller b c) = cb_next_probe_token b"
  "cb_cooldown_seconds (track_caller b c) = cb_cooldown_seconds b"
  "cb_failure_threshold (track_caller b c) = cb_failure_threshold b"
  "cb_min_availability (track_caller b c) = cb_min_availability b"
  "cb_consecutive_failures (track_caller b c) = cb_consecutive_failures b"
  "cb_usage_limit_alerted_at (track_caller b c) = cb_usage_limit_alerted_at b"
  by (auto simp: track_caller_def split: option.splits)

lemma hold_back_simps [breaker_simps]:
  "cb_state (hold_back b ck ul po) = cb_state b" "cb_last_opened (hold_back b ck ul po) = cb_last_opened b"
  "cb_probe_deadline (hold_back b ck ul po) = cb_probe_deadline b" "cb_probe_token (hold_back b ck ul po) = cb_probe_token b"
  "cb_next_probe_token (hold_back b ck ul po) = cb_next_probe_token b"
  "cb_cooldown_seconds (hold_back b ck ul po) = cb_cooldown_seconds b"
  "cb_failure_threshold (hold_back b ck ul po) = cb_failure_threshold b"
  "cb_min_availability (hold_back b ck ul po) = cb_min_availability b"
  "cb_consecutive_failures (hold_back b ck ul po) = cb_consecutive_failures b"
  by (auto simp: hold_back_def Let_def split: option.splits)

lemma trip_alert_simps [breaker_simps]:
  "cb_state (snd (trip_alert parser pol b ck lr s a v r d)) = cb_state b"
  "cb_last_opened (snd (trip_alert parser pol b ck lr s a v r d)) = cb_last_opened b"
  "cb_probe_deadline (snd (trip_alert parser pol b ck lr s a v r d)) = cb_probe_deadline b"
  "cb_probe_token (snd (trip_alert parser pol b ck lr s a v r d)) = cb_probe_token b"
  "cb_next_probe_token (snd (trip_alert parser pol b ck lr s a v r d)) = cb_next_probe_token b"
  "cb_cooldown_seconds (snd (trip_alert parser pol b ck lr s a v r d)) = cb_cooldown_seconds b"
  "cb_failure_threshold (snd (trip_alert parser pol b ck lr s a v r d)) = cb_failure_threshold b"
  "cb_min_availability (snd (trip_alert parser pol b ck lr s a v r d)) = cb_min_availability b"
  "cb_consecutive_failures (snd (trip_alert parser pol b ck lr s a v r d)) = cb_consecutive_failures b"
  by (simp_all add: trip_alert_def Let_def breaker_simps split: sum.split)

definition trips :: "breaker \<Rightarrow> real option \<Rightarrow> bool" where
  "trips b avail \<longleftrightarrow> cb_failure_threshold b \<le> cb_consecutive_failures b + 1 \<or>
     (case avail of None \<Rightarrow> False | Some a \<Rightarrow> a < cb_min_availability b)"

lemma on_failure_simps [breaker_simps]:
  fixes parser pol b ck lr v r d c
  defines "b' \<equiv> snd (on_failure parser pol b ck lr v r d c)"
  shows "cb_state b' = (if trips b v then OPEN else cb_state b)"
    "cb_last_opened b' = (if trips b v then Some (ck_perf ck) else cb_last_opened b)"
    "cb_probe_deadline b' = cb_probe_deadline b" "cb_probe_token b' = cb_probe_token b"
    "cb_next_probe_token b' = cb_next_probe_token b" "cb_cooldown_seconds b' = cb_cooldown_seconds b"
    "cb_failure_threshold b' = cb_failure_threshold b" "cb_min_availability b' = cb_min_availability b"
    "cb_consecutive_failures b' = cb_consecutive_failures b + 1"
  by (simp_all add: b'_def on_failure_def Let_def breaker_simps trips_def split: option.split)

lemma on_success_simps [breaker_simps]:
  "cb_state (snd (on_success b)) = CLOSED"
  "cb_probe_deadline (snd (on_success b)) = (if cb_state b = CLOSED then cb_probe_deadline b else None)"
  "cb_probe_token (snd (on_success b)) = (if cb_state b = CLOSED then cb_probe_token b else None)"
  "cb_next_probe_token (snd (on_success b)) = cb_next_probe_token b"
  "cb_cooldown_seconds (snd (on_success b)) = cb_cooldown_seconds b"
  "cb_failure_threshold (snd (on_success b)) = cb_failure_threshold b"
  "cb_min_availability (snd (on_success b)) = cb_min_availability b"
  "cb_consecutive_failures (snd (on_success b)) = 0"
  "cb_usage_limit_alerted_at (snd (on_success b)) = cb_usage_limit_alerted_at b"
  by (cases "cb_state b"; simp add: on_success_def release_probe_def Let_def)+

lemma send_finished_simps [breaker_simps]:
  "cb_state (send_finished b ck ep g dl) = cb_state b" "cb_last_opened (send_finished b ck ep g dl) = cb_last_opened b"
  "cb_probe_deadline (send_finished b ck ep g dl) = cb_probe_deadline b"
  "cb_probe_token (send_finished b ck ep g dl) = cb_probe_token b"
  "cb_next_probe_token (send_finished b ck ep g dl) = cb_next_probe_token b"
  "cb_cooldown_seconds (send_finished b ck ep g dl) = cb_cooldown_seconds b"
  "cb_failure_threshold (send_finished b ck ep g dl) = cb_failure_threshold b"
  "cb_min_availability (send_finished b ck ep g dl) = cb_min_availability b"
  "cb_consecutive_failures (send_finished b ck ep g dl) = cb_consecutive_failures b"
  by (auto simp: send_finished_def Let_def split: option.splits)

text \<open>The two ways a dispatch begins.\<close>

lemma begin_cases:
  obtains (closed) "cb_state b = CLOSED" "breaker_begin_dispatch b ck = ((True, None), b)"
    | (refused) "cb_state b \<noteq> CLOSED" "\<not> admits b (ck_perf ck)" "breaker_begin_dispatch b ck = ((False, None), b)"
    | (claimed) "cb_state b \<noteq> CLOSED" "admits b (ck_perf ck)"
        "breaker_begin_dispatch b ck =
          ((True, Some (cb_next_probe_token b)), snd (claim_probe (b\<lparr>cb_state := HALF_OPEN\<rparr>) (ck_perf ck)))"
proof (cases "cb_state b")
  case CLOSED
  then show thesis by (intro closed) (simp_all add: breaker_begin_dispatch_def Let_def)
next
  case OPEN
  then show thesis
    by (cases "admits b (ck_perf ck)")
      (auto simp: admits_def breaker_begin_dispatch_def claim_probe_def Let_def split: option.splits intro: refused claimed)
next
  case HALF_OPEN
  then have "b\<lparr>cb_state := HALF_OPEN\<rparr> = b" by simp
  with HALF_OPEN show thesis
    by (cases "admits b (ck_perf ck)")
      (auto simp: admits_def breaker_begin_dispatch_def claim_probe_def Let_def intro: refused claimed)
qed

lemma begin_admits: "fst (fst (breaker_begin_dispatch b ck)) = admits b (ck_perf ck)"
  by (cases rule: begin_cases [of b ck]) (simp_all add: admits_def)

lemma begin_simps [breaker_simps]:
  "cb_cooldown_seconds (snd (breaker_begin_dispatch b ck)) = cb_cooldown_seconds b"
  "cb_failure_threshold (snd (breaker_begin_dispatch b ck)) = cb_failure_threshold b"
  "cb_min_availability (snd (breaker_begin_dispatch b ck)) = cb_min_availability b"
  "cb_consecutive_failures (snd (breaker_begin_dispatch b ck)) = cb_consecutive_failures b"
  "cb_usage_limit_alerted_at (snd (breaker_begin_dispatch b ck)) = cb_usage_limit_alerted_at b"
  "cb_state (snd (breaker_begin_dispatch b ck)) = CLOSED \<longleftrightarrow> cb_state b = CLOSED"
  by (cases rule: begin_cases [of b ck]; simp add: claim_probe_def)+

lemma end_simps [breaker_simps]:
  "cb_state (breaker_end_dispatch b tok) = cb_state b" "cb_last_opened (breaker_end_dispatch b tok) = cb_last_opened b"
  "cb_cooldown_seconds (breaker_end_dispatch b tok) = cb_cooldown_seconds b"
  "cb_failure_threshold (breaker_end_dispatch b tok) = cb_failure_threshold b"
  "cb_min_availability (breaker_end_dispatch b tok) = cb_min_availability b"
  "cb_consecutive_failures (breaker_end_dispatch b tok) = cb_consecutive_failures b"
  "cb_next_probe_token (breaker_end_dispatch b tok) = cb_next_probe_token b"
  "cb_usage_limit_alerted_at (breaker_end_dispatch b tok) = cb_usage_limit_alerted_at b"
  by (auto simp: breaker_end_dispatch_def release_probe_def)

section \<open>One probe at a time\<close>

text \<open>While a claim is held: it is the live one, and if the circuit tripped again it did so no earlier than
  the claim was made.\<close>

definition holding :: "nat \<Rightarrow> time \<Rightarrow> time \<Rightarrow> breaker \<Rightarrow> bool" where
  "holding tok since cool b \<longleftrightarrow>
     cb_probe_token b = Some tok \<and> cb_probe_deadline b = Some (since + cool) \<and> cb_cooldown_seconds b = cool \<and>
     (cb_state b = HALF_OPEN \<or> cb_state b = OPEN \<and> (\<exists>t. cb_last_opened b = Some t \<and> since \<le> t))"

definition within_claim :: "nat \<Rightarrow> time \<Rightarrow> time \<Rightarrow> clock \<times> breaker_event \<Rightarrow> bool" where
  "within_claim tok since cool = (\<lambda>(ck, e).
     since \<le> ck_perf ck \<and> ck_perf ck < since + cool \<and> e \<noteq> BEnd tok \<and> e \<noteq> BSuccess)"

lemma holding_refuses: "holding tok since cool b \<Longrightarrow> m < since + cool \<Longrightarrow> \<not> admits b m"
  by (auto simp: holding_def admits_def probe_claim_live_def)

lemma holding_step:
  assumes h: "holding tok since cool b" and ok: "within_claim tok since cool ev"
  shows "holding tok since cool (breaker_step parser b ev)"
proof -
  obtain ck e where ev: "ev = (ck, e)" by (cases ev)
  have t: "since \<le> ck_perf ck" "ck_perf ck < since + cool" and e: "e \<noteq> BEnd tok" "e \<noteq> BSuccess"
    using ok by (auto simp: ev within_claim_def)
  show ?thesis
  proof (cases e)
    case BBegin
    have "cb_state b \<noteq> CLOSED" using h by (auto simp: holding_def)
    with h holding_refuses [OF h t(2)] show ?thesis by (cases rule: begin_cases [of b ck]) (simp_all add: ev BBegin)
  next
    case (BEnd u)
    with h e show ?thesis by (simp add: ev holding_def breaker_end_dispatch_def)
  next
    case (BFailure pol lr avail reason detail caller)
    with h t show ?thesis by (auto simp: ev holding_def breaker_simps)
  next
    case (BSent ep g dl)
    with h show ?thesis by (auto simp: ev holding_def breaker_simps)
  qed (use e in simp)
qed

interpretation claim: kept_invariant "breaker_step parser" "within_claim tok since cool" "holding tok since cool" for parser tok since cool
  by unfold_locales (rule holding_step)

text \<open>Tokens only grow.\<close>

definition tokens_from :: "nat \<Rightarrow> breaker \<Rightarrow> bool" where
  "tokens_from n b \<longleftrightarrow> n \<le> cb_next_probe_token b"

lemma tokens_step: "tokens_from n b \<Longrightarrow> tokens_from n (breaker_step parser b ev)"
proof -
  assume n: "tokens_from n b"
  obtain ck e where ev: "ev = (ck, e)" by (cases ev)
  show ?thesis
  proof (cases e)
    case BBegin
    with n show ?thesis by (cases rule: begin_cases [of b ck]) (simp_all add: ev tokens_from_def claim_probe_def)
  qed (use n in \<open>simp_all add: ev tokens_from_def breaker_simps\<close>)
qed

interpretation tokens: kept_invariant "breaker_step parser" "\<lambda>_. True" "tokens_from n" for parser n
  by unfold_locales (rule tokens_step)

section \<open>Nobody is shut out for good\<close>

text \<open>Everything the breaker waits for lies at most a cooldown after the latest event.\<close>

definition waits_until :: "time \<Rightarrow> breaker \<Rightarrow> bool" where
  "waits_until T b \<longleftrightarrow>
     (cb_state b = OPEN \<longrightarrow> (\<exists>t. cb_last_opened b = Some t \<and> t \<le> T)) \<and>
     (\<forall>d. cb_probe_deadline b = Some d \<longrightarrow> d \<le> T + cb_cooldown_seconds b)"

lemma waits_step:
  assumes w: "waits_until T b" and t: "ck_perf (fst ev) \<le> T"
  shows "waits_until T (breaker_step parser b ev)"
proof -
  obtain ck e where ev: "ev = (ck, e)" by (cases ev)
  show ?thesis
  proof (cases e)
    case BBegin
    with w t show ?thesis by (cases rule: begin_cases [of b ck]) (auto simp: ev waits_until_def claim_probe_def)
  next
    case (BEnd u)
    with w show ?thesis by (auto simp: ev waits_until_def breaker_end_dispatch_def release_probe_def)
  qed (use w t in \<open>auto simp: ev waits_until_def breaker_simps\<close>)
qed

interpretation waits: kept_invariant "breaker_step parser" "\<lambda>ev. ck_perf (fst ev) \<le> T" "waits_until T" for parser T
  by unfold_locales (rule waits_step)

lemma run_cooldown: "cb_cooldown_seconds (run (breaker_step parser) b es) = cb_cooldown_seconds b"
proof (induction es arbitrary: b)
  case (Cons ev es)
  obtain ck e where ev: "ev = (ck, e)" by (cases ev)
  have "cb_cooldown_seconds (breaker_step parser b ev) = cb_cooldown_seconds b"
    by (cases e) (simp_all add: ev breaker_simps)
  with Cons show ?case by simp
qed simp

section \<open>How often a spent plan pages\<close>

definition stamped_since :: "time \<Rightarrow> breaker \<Rightarrow> bool" where
  "stamped_since m b \<longleftrightarrow> (\<exists>t. cb_usage_limit_alerted_at b = Some t \<and> m \<le> t)"

lemma trip_alert_stamp:
  "cb_usage_limit_alerted_at (snd (trip_alert parser pol b ck lr s a v r d)) \<in>
     {cb_usage_limit_alerted_at b, Some (ck_mono ck)}"
  by (auto simp: trip_alert_def hold_back_def Let_def split: sum.split option.splits)

lemma on_failure_stamp:
  "cb_usage_limit_alerted_at (snd (on_failure parser pol b ck lr v r d c)) \<in>
     {cb_usage_limit_alerted_at b, Some (ck_mono ck)}"
proof -
  let ?b = "track_caller (b\<lparr>cb_consecutive_failures := cb_consecutive_failures b + 1\<rparr>) c\<lparr>cb_state := OPEN, cb_last_opened := Some (ck_perf ck)\<rparr>"
  show ?thesis
    using trip_alert_stamp [of parser pol ?b ck lr _ _ v r d] by (auto simp: on_failure_def Let_def breaker_simps)
qed

lemma stamp_step:
  assumes s: "stamped_since m b" and t: "m \<le> ck_mono (fst ev)"
  shows "stamped_since m (breaker_step parser b ev)"
proof -
  obtain ck e where ev: "ev = (ck, e)" by (cases ev)
  show ?thesis
  proof (cases e)
    case (BFailure pol lr avail reason detail caller)
    with s t on_failure_stamp [of parser pol b ck lr avail reason detail caller] show ?thesis
      by (auto simp: ev stamped_since_def)
  next
    case (BSent ep g dl)
    with s t show ?thesis by (auto simp: ev stamped_since_def send_finished_def Let_def split: option.splits)
  qed (use s in \<open>simp_all add: ev stamped_since_def breaker_simps\<close>)
qed

interpretation stamp: kept_invariant "breaker_step parser" "\<lambda>ev. m \<le> ck_mono (fst ev)" "stamped_since m" for parser m
  by unfold_locales (rule stamp_step)

text \<open>A page goes out only for a trip that is not muted, switched off, or too soon after a plan page.\<close>

lemma paged_trip:
  assumes "fst (trip_alert parser pol b ck lr s a v r d) = Paged pg ep gen sch"
  shows "po_enabled pol" "cb_alert_in_flight_generation b \<noteq> Some (cb_recovery_generation b)"
    "cb_alert_suppressed_until b \<le> timestamp (ck_utc ck)" "ep \<noteq> None \<Longrightarrow> \<not> plan_limit_recent b ck"
    "ep \<noteq> None \<Longrightarrow> po_page_on_usage_limit pol" "\<not> po_page_on_usage_limit pol \<Longrightarrow> \<not> plan_limit_recent b ck"
  using assms by (auto simp: trip_alert_def Let_def split: sum.splits if_splits)

lemma paged_failure:
  assumes "fst (on_failure parser pol b ck lr v r d c) = Paged pg ep gen sch"
  shows "po_enabled pol" "ep \<noteq> None \<Longrightarrow> \<not> plan_limit_recent b ck" "ep \<noteq> None \<Longrightarrow> po_page_on_usage_limit pol"
    "\<not> po_page_on_usage_limit pol \<Longrightarrow> \<not> plan_limit_recent b ck" "cb_state b \<noteq> OPEN"
proof -
  let ?b = "track_caller (b\<lparr>cb_consecutive_failures := cb_consecutive_failures b + 1\<rparr>) c\<lparr>cb_state := OPEN, cb_last_opened := Some (ck_perf ck)\<rparr>"
  have "plan_limit_recent ?b ck = plan_limit_recent b ck" by (simp add: plan_limit_recent_def breaker_simps)
  moreover obtain x y where "fst (trip_alert parser pol ?b ck lr x y v r d) = Paged pg ep gen sch" and "cb_state b \<noteq> OPEN"
    using assms by (auto simp: on_failure_def Let_def breaker_simps split: if_splits)
  ultimately show "po_enabled pol" "ep \<noteq> None \<Longrightarrow> \<not> plan_limit_recent b ck" "ep \<noteq> None \<Longrightarrow> po_page_on_usage_limit pol"
    "\<not> po_page_on_usage_limit pol \<Longrightarrow> \<not> plan_limit_recent b ck" "cb_state b \<noteq> OPEN"
    using paged_trip [of parser pol ?b ck lr x y v r d pg ep gen sch] by auto
qed

section \<open>Properties\<close>

text \<open>C8. Half-open admits one probe at a time. A dispatch that took a probe keeps every other caller out
  for a cooldown -- whatever else begins, fails, ends or pages meanwhile, the ends of other dispatches
  included -- until that dispatch itself ends or a success closes the circuit; and a later claim never
  gets its token, so its late end cannot free a slot that is not its own.\<close>

theorem probe_exclusive:
  assumes claim: "breaker_begin_dispatch b ck = ((True, Some tok), b')"
    and quiet: "list_all (\<lambda>(c, e). ck_perf ck \<le> ck_perf c \<and> ck_perf c < ck_perf ck + cb_cooldown_seconds b \<and>
        e \<noteq> BEnd tok \<and> e \<noteq> BSuccess) es"
    and m: "ck_perf ck' < ck_perf ck + cb_cooldown_seconds b"
  shows "fst (breaker_begin_dispatch (run (breaker_step parser) b' es) ck') = (False, None) \<and>
    \<not> allow_request (run (breaker_step parser) b' es) ck' \<and>
    (\<forall>fs c u c'. breaker_begin_dispatch (run (breaker_step parser) b' fs) c = ((True, Some u), c') \<longrightarrow> tok < u)"
proof -
  have b': "tok = cb_next_probe_token b" "b' = snd (claim_probe (b\<lparr>cb_state := HALF_OPEN\<rparr>) (ck_perf ck))"
    using claim by (cases rule: begin_cases [of b ck]; simp)+
  then have "holding tok (ck_perf ck) (cb_cooldown_seconds b) b'" by (simp add: holding_def claim_probe_def)
  then have h: "holding tok (ck_perf ck) (cb_cooldown_seconds b) (run (breaker_step parser) b' es)"
    using quiet by (rule claim.run_keeps [unfolded within_claim_def])
  then have closed: "cb_state (run (breaker_step parser) b' es) \<noteq> CLOSED" by (auto simp: holding_def)
  note no = holding_refuses [OF h m]
  then have "fst (breaker_begin_dispatch (run (breaker_step parser) b' es) ck') = (False, None)"
    using closed by (cases rule: begin_cases [of "run (breaker_step parser) b' es" ck']) simp_all
  moreover have "tok < u" if "breaker_begin_dispatch (run (breaker_step parser) b' fs) c = ((True, Some u), c')" for fs c u c'
  proof -
    have "tokens_from (Suc tok) b'" by (simp add: b' tokens_from_def claim_probe_def)
    then have "tokens_from (Suc tok) (run (breaker_step parser) b' fs)" by (rule tokens.run_keeps) (simp add: list_all_iff)
    moreover have "u = cb_next_probe_token (run (breaker_step parser) b' fs)"
      using that by (cases rule: begin_cases [of "run (breaker_step parser) b' fs" c]) simp_all
    ultimately show ?thesis by (simp add: tokens_from_def)
  qed
  ultimately show ?thesis using no by (auto simp: allow_request_def)
qed

definition demo_breaker :: breaker where
  "demo_breaker = (CircuitBreaker_init \<lparr>cf_alpha = None, cf_failure_threshold = None, cf_cooldown_seconds = None,
     cf_min_availability = None\<rparr> ''e1'')\<lparr>cb_state := OPEN, cb_last_opened := Some 0\<rparr>"

definition demo_clock :: "time \<Rightarrow> clock" where
  "demo_clock t = \<lparr>ck_perf = t, ck_mono = t, ck_utc = 62999990000000000\<rparr>"

theorem probe_exclusive_witness:
  "fst (breaker_begin_dispatch (run (breaker_step (\<lambda>_. None)) (snd (breaker_begin_dispatch demo_breaker (demo_clock 40)))
      [(demo_clock 41, BBegin), (demo_clock 42, BEnd 7)]) (demo_clock 60)) = (False, None)"
proof -
  have "fst (breaker_begin_dispatch demo_breaker (demo_clock 40)) = (True, Some 1)" by code_simp
  then have b: "breaker_begin_dispatch demo_breaker (demo_clock 40) =
      ((True, Some 1), snd (breaker_begin_dispatch demo_breaker (demo_clock 40)))" by (metis prod.collapse)
  have q: "list_all (\<lambda>(c, e). ck_perf (demo_clock 40) \<le> ck_perf c \<and> ck_perf c < ck_perf (demo_clock 40) + cb_cooldown_seconds demo_breaker \<and>
      e \<noteq> BEnd 1 \<and> e \<noteq> BSuccess) [(demo_clock 41, BBegin), (demo_clock 42, BEnd 7)]"
    by (simp add: demo_clock_def demo_breaker_def CircuitBreaker_init_def or_default_def)
  have m: "ck_perf (demo_clock 60) < ck_perf (demo_clock 40) + cb_cooldown_seconds demo_breaker"
    by (simp add: demo_clock_def demo_breaker_def CircuitBreaker_init_def or_default_def)
  from probe_exclusive [OF b q m, of "\<lambda>_. None"] show ?thesis by blast
qed

text \<open>No endpoint is shut out for good. The listing question and the claim agree at every moment, and
  in every state the breaker can reach -- probes never handed back included -- both admit a request once
  a cooldown has passed since the last event.\<close>

lemma breaker_recovers:
  assumes "list_all (\<lambda>(c, e). ck_perf c \<le> last_event) es"
    and "last_event + cb_cooldown_seconds (CircuitBreaker_init cfg provider) \<le> ck_perf ck"
  shows "(\<forall>b c. fst (fst (breaker_begin_dispatch b c)) = allow_request b c) \<and>
    allow_request (run (breaker_step parser) (CircuitBreaker_init cfg provider) es) ck \<and>
    fst (fst (breaker_begin_dispatch (run (breaker_step parser) (CircuitBreaker_init cfg provider) es) ck))"
proof -
  let ?b = "run (breaker_step parser) (CircuitBreaker_init cfg provider) es"
  have "waits_until last_event (CircuitBreaker_init cfg provider)" by (simp add: waits_until_def CircuitBreaker_init_def)
  moreover have "list_all (\<lambda>ev. ck_perf (fst ev) \<le> last_event) es" using assms(1) by (simp add: case_prod_unfold)
  ultimately have w: "waits_until last_event ?b" by (rule waits.run_keeps)
  have "admits ?b (ck_perf ck)"
    using w assms(2) by (cases "cb_state ?b")
      (auto simp: admits_def probe_claim_live_def waits_until_def run_cooldown split: option.splits)
  then show ?thesis by (simp add: allow_request_def begin_admits)
qed

text \<open>A spent plan pages at most once per four hours. Once a plan page was delivered, no recovery,
  reopening or other page in the next four hours of the monotonic clock lets a failure that names a
  usage limit page; where plan paging is off no such failure ever pages, and for those four hours no
  other failure does either; and a page is only raised by a failure that just opened the circuit.\<close>

lemma plan_page_floor:
  assumes "list_all (\<lambda>(c, e). ck_mono ck \<le> ck_mono c) es"
    and "ck_mono ck' < ck_mono ck + 4 * 60 * 60"
    and "b = run (breaker_step parser) (send_finished b0 ck (Some epoch) gen True) es"
  shows "case fst (on_failure parser pol b ck' lr avail reason detail caller) of
      Paged pg ep g sch \<Rightarrow> ep = None \<and> po_enabled pol \<and> po_page_on_usage_limit pol \<and> cb_state b \<noteq> OPEN
    | _ \<Rightarrow> True"
proof -
  have "stamped_since (ck_mono ck) (send_finished b0 ck (Some epoch) gen True)"
    by (simp add: stamped_since_def send_finished_def Let_def)
  moreover have "list_all (\<lambda>ev. ck_mono ck \<le> ck_mono (fst ev)) es" using assms(1) by (simp add: case_prod_unfold)
  ultimately have "stamped_since (ck_mono ck) b" unfolding assms(3) by (rule stamp.run_keeps)
  then have "plan_limit_recent b ck'"
    using assms(2) by (auto simp: stamped_since_def plan_limit_recent_def MIN_ALERT_GAP_SEC_def MIN_ALERT_GAP_def hour_us_def second_us_def)
  note recent = this
  show ?thesis
  proof (cases "fst (on_failure parser pol b ck' lr avail reason detail caller)")
    case (Paged pg ep g sch)
    note p = paged_failure [OF Paged]
    have "ep = None" using p(2) recent by blast
    with p(1,4,5) recent Paged show ?thesis by auto
  qed simp_all
qed

end
