(* ===== verification/Endpoint_Health.thy ===== *)
theory Endpoint_Health
  imports Circuit_Breaker
begin

text \<open>
  \<open>routing/endpoint_health.py\<close>, second part: which failures are charged to an endpoint, and the
  registry that keeps the health and the circuit of every endpoint and reports credential rejections.
  An exception is what the code reads of it: its class among the exempted ones, the integers under
  \<open>status\<close>, \<open>status_code\<close> and \<open>code\<close>, the two of its nested response, and its operator-safe text.

  The lemmas: the registry is one independent machine per endpoint; the circuit and availability of an
  endpoint are a closed form of its charged outcomes; a credential incident closes once per run of
  rejections.
\<close>

datatype exn_class = KeyPoolRoleRestricted_exn | KeyPoolExhausted_exn | UpstreamSaturated_exn | UpstreamQueueWaitExpired_exn
  | EngineWaitExpired_exn | UpstreamModelQueued_exn | Other_exn

record exn =
  ex_class :: exn_class
  ex_status :: "int option"
  ex_status_code :: "int option"
  ex_code :: "int option"
  ex_response :: "(int option \<times> int option) option"
  ex_operator_text :: "string option"

section \<open>Whose failure it is\<close>

definition AUTH_MISCONFIG_STATUSES :: "int set" where
  "AUTH_MISCONFIG_STATUSES = {401, 407}"

definition AUTH_ALERT_SCHEDULE_INTERVAL_SEC :: time where
  "AUTH_ALERT_SCHEDULE_INTERVAL_SEC = 5"

fun first_status :: "int option list \<Rightarrow> int option" where
  "first_status [] = None"
| "first_status (v # vs) =
     (case v of Some s \<Rightarrow> if 100 \<le> s \<and> s \<le> 599 then Some s else first_status vs | None \<Rightarrow> first_status vs)"

definition http_status_of :: "exn \<Rightarrow> int option" where
  "http_status_of e =
     (case first_status [ex_status e, ex_status_code e, ex_code e] of
        Some s \<Rightarrow> Some s
      | None \<Rightarrow> (case ex_response e of None \<Rightarrow> None | Some (sc, s) \<Rightarrow> first_status [sc, s]))"

definition is_auth_misconfig :: "int option \<Rightarrow> bool" where
  "is_auth_misconfig status = (case status of None \<Rightarrow> False | Some s \<Rightarrow> s \<in> AUTH_MISCONFIG_STATUSES)"

definition is_client_error_status :: "int option \<Rightarrow> bool" where
  "is_client_error_status status =
     (case status of
        None \<Rightarrow> False
      | Some s \<Rightarrow> if \<not> (400 \<le> s \<and> s < 500) then False
                  else if s \<in> {408, 429} then False
                  else \<not> is_auth_misconfig status)"

definition is_client_error :: "exn \<Rightarrow> bool" where
  "is_client_error e = is_client_error_status (http_status_of e)"

definition uncharged_failure_event :: "exn \<Rightarrow> string option" where
  "uncharged_failure_event e =
     (case ex_class e of
        KeyPoolRoleRestricted_exn \<Rightarrow> Some ''role_restricted_skip_breaker''
      | KeyPoolExhausted_exn \<Rightarrow> Some ''key_pool_exhausted_skip_breaker''
      | UpstreamSaturated_exn \<Rightarrow> Some ''gateway_throttle_skip_breaker''
      | UpstreamQueueWaitExpired_exn \<Rightarrow> Some ''gateway_throttle_skip_breaker''
      | EngineWaitExpired_exn \<Rightarrow> Some ''engine_wait_skip_breaker''
      | UpstreamModelQueued_exn \<Rightarrow> Some ''model_queued_skip_breaker''
      | Other_exn \<Rightarrow> None)"

definition failure_may_lose_prefix_cache :: "exn option \<Rightarrow> bool" where
  "failure_may_lose_prefix_cache exc =
     (case exc of
        None \<Rightarrow> True
      | Some e \<Rightarrow>
          if ex_class e = UpstreamModelQueued_exn then True
          else if uncharged_failure_event e \<noteq> None then False
          else (case http_status_of e of None \<Rightarrow> True | Some s \<Rightarrow> 500 \<le> s))"

section \<open>Texts\<close>

definition reason_str :: "string \<Rightarrow> string" where
  "reason_str s = (if s \<noteq> [] \<and> length s < 64 then s else ''error'')"

text \<open>\<open>" ".join(s.split())\<close>.\<close>

function py_words :: "string \<Rightarrow> string list" where
  "py_words s =
     (let t = dropWhile py_isspace s
      in if t = [] then [] else takeWhile (\<lambda>c. \<not> py_isspace c) t # py_words (dropWhile (\<lambda>c. \<not> py_isspace c) t))"
  by auto
termination
proof (relation "measure length")
  fix s t :: string
  assume t: "t = dropWhile py_isspace s" "t \<noteq> []"
  then have "\<not> py_isspace (hd t)" by (metis hd_dropWhile)
  with t(2) have "length (dropWhile (\<lambda>c. \<not> py_isspace c) t) < length t"
    by (cases t) (auto simp: length_dropWhile_le le_imp_less_Suc)
  with t(1) show "(dropWhile (\<lambda>c. \<not> py_isspace c) t, s) \<in> measure length"
    using length_dropWhile_le [of py_isspace s] by simp
qed simp

declare py_words.simps [simp del]

fun join_words :: "string list \<Rightarrow> string" where
  "join_words [] = []"
| "join_words [w] = w"
| "join_words (w # v # ws) = w @ '' '' @ join_words (v # ws)"

text \<open>The one character outside ASCII the code adds, an ellipsis; it is neither a blank nor a word
  character, like the character that stands for it here.\<close>

definition ELLIPSIS :: string where "ELLIPSIS = [CHR 0xB7]"

definition detail_str :: "string option \<Rightarrow> string option" where
  "detail_str s =
     (case s of
        None \<Rightarrow> None
      | Some t \<Rightarrow>
          if t = [] then None
          else (let cleaned = join_words (py_words (take (500 * 2) t))
                in if cleaned = [] then None
                   else Some (if length cleaned \<le> 500 then cleaned else take (500 - 1) cleaned @ ELLIPSIS)))"

definition caller_str :: "string option \<Rightarrow> string option \<Rightarrow> string option" where
  "caller_str user_id raw_name =
     (let present = (\<lambda>v. case v of None \<Rightarrow> False | Some t \<Rightarrow> t \<noteq> ([] :: string));
          user_name = (if present raw_name then Some (join_words (py_words (the raw_name))) else None)
      in if present user_id \<and> present user_name then Some (the user_name @ '' ('' @ the user_id @ '')'')
         else if present user_id then user_id
         else if present user_name then user_name
         else None)"

section \<open>The registry\<close>

record registry =
  rg_health :: "(string, provider_health) dict"
  rg_circuits :: "(string, breaker) dict"
  rg_auth_alert_at :: "(string, time) dict"

definition Registry_init :: registry where
  "Registry_init = \<lparr>rg_health = [], rg_circuits = [], rg_auth_alert_at = []\<rparr>"

definition ensure_circuit :: "breaker_config \<Rightarrow> registry \<Rightarrow> string \<Rightarrow> breaker \<times> registry" where
  "ensure_circuit cfg r endpoint_id =
     (case dict_get (rg_circuits r) endpoint_id of
        Some c \<Rightarrow> (c, r)
      | None \<Rightarrow>
          (let c = CircuitBreaker_init cfg endpoint_id
           in (c, r\<lparr>rg_circuits := dict_set endpoint_id c (rg_circuits r)\<rparr>)))"

definition ensure :: "breaker_config \<Rightarrow> registry \<Rightarrow> string \<Rightarrow> registry" where
  "ensure cfg r endpoint_id =
     (let r1 = (if dict_get (rg_health r) endpoint_id = None
                then r\<lparr>rg_health := dict_set endpoint_id (ProviderHealth_init cfg) (rg_health r)\<rparr> else r)
      in snd (ensure_circuit cfg r1 endpoint_id))"

definition put_circuit :: "registry \<Rightarrow> string \<Rightarrow> breaker \<Rightarrow> registry" where
  "put_circuit r endpoint_id c = r\<lparr>rg_circuits := dict_set endpoint_id c (rg_circuits r)\<rparr>"

definition put_health :: "registry \<Rightarrow> string \<Rightarrow> provider_health \<Rightarrow> registry" where
  "put_health r endpoint_id h = r\<lparr>rg_health := dict_set endpoint_id h (rg_health r)\<rparr>"

definition registry_allow_request :: "breaker_config \<Rightarrow> registry \<Rightarrow> string \<Rightarrow> clock \<Rightarrow> bool \<times> registry" where
  "registry_allow_request cfg r endpoint_id ck =
     (case ensure_circuit cfg r endpoint_id of (c, r1) \<Rightarrow> (allow_request c ck, r1))"

record dispatch_claim =
  dc_endpoint_id :: string
  dc_probe_token :: "nat option"

definition begin_dispatch :: "breaker_config \<Rightarrow> registry \<Rightarrow> string \<Rightarrow> clock \<Rightarrow> dispatch_claim option \<times> registry" where
  "begin_dispatch cfg r endpoint_id ck =
     (case ensure_circuit cfg r endpoint_id of
        (c, r1) \<Rightarrow>
          (case breaker_begin_dispatch c ck of
             ((admitted, tok), c1) \<Rightarrow>
               (if admitted then Some \<lparr>dc_endpoint_id = endpoint_id, dc_probe_token = tok\<rparr> else None,
                put_circuit r1 endpoint_id c1)))"

definition end_dispatch :: "registry \<Rightarrow> dispatch_claim option \<Rightarrow> registry" where
  "end_dispatch r claim =
     (case claim of
        None \<Rightarrow> r
      | Some dc \<Rightarrow>
          (case dc_probe_token dc of
             None \<Rightarrow> r
           | Some tok \<Rightarrow>
               (case dict_get (rg_circuits r) (dc_endpoint_id dc) of
                  None \<Rightarrow> r
                | Some c \<Rightarrow> put_circuit r (dc_endpoint_id dc) (breaker_end_dispatch c tok))))"

text \<open>Whether the success resolved a credential incident, and whether it closed the circuit.\<close>

definition record_success :: "breaker_config \<Rightarrow> registry \<Rightarrow> string \<Rightarrow> (bool \<times> bool) \<times> registry" where
  "record_success cfg r endpoint_id =
     (let r1 = ensure cfg r endpoint_id;
          (auth_run_ended, h) = health_record (the (dict_get (rg_health r1) endpoint_id)) True;
          r2 = put_health r1 endpoint_id h;
          r3 = (if auth_run_ended then r2\<lparr>rg_auth_alert_at := dict_del endpoint_id (rg_auth_alert_at r2)\<rparr> else r2);
          (closed, c) = on_success (the (dict_get (rg_circuits r3) endpoint_id))
      in ((auth_run_ended, closed), put_circuit r3 endpoint_id c))"

datatype auth_report = AuthScheduled nat | AuthThrottled

definition report_auth_misconfig :: "registry \<Rightarrow> string \<Rightarrow> clock \<Rightarrow> nat \<Rightarrow> auth_report \<times> registry" where
  "report_auth_misconfig r endpoint_id ck consecutive =
     (let now = ck_mono ck;
          throttled = (case dict_get (rg_auth_alert_at r) endpoint_id of
                         None \<Rightarrow> False | Some t \<Rightarrow> now - t < AUTH_ALERT_SCHEDULE_INTERVAL_SEC)
      in if throttled then (AuthThrottled, r)
         else (AuthScheduled consecutive, r\<lparr>rg_auth_alert_at := dict_set endpoint_id now (rg_auth_alert_at r)\<rparr>))"

datatype failure_record =
    Uncharged string
  | ClientErrorSkipped
  | Charged failure_outcome "auth_report option"

record failure_args =
  fa_reason :: string
  fa_detail :: "string option"
  fa_exn :: "exn option"
  fa_user_id :: "string option"
  fa_user_name :: "string option"
  fa_policy :: policy
  fa_loop_running :: bool

text \<open>Who pays for the failure: the event of an uncharged one, a skipped client error, or the endpoint,
  with the status and whether the gateway's own credential was rejected.\<close>

datatype charge = NoCharge string | ClientCharge | EndpointCharge "int option" bool

definition charge_of :: "exn option \<Rightarrow> charge" where
  "charge_of exc =
     (case exc of
        None \<Rightarrow> EndpointCharge None False
      | Some e \<Rightarrow>
          (case uncharged_failure_event e of
             Some ev \<Rightarrow> NoCharge ev
           | None \<Rightarrow>
               (let status = http_status_of e; auth_misconfig = is_auth_misconfig status
                in if \<not> auth_misconfig \<and> is_client_error e then ClientCharge else EndpointCharge status auth_misconfig)))"

definition record_failure ::
  "iso_parser \<Rightarrow> breaker_config \<Rightarrow> registry \<Rightarrow> string \<Rightarrow> clock \<Rightarrow> failure_args \<Rightarrow> failure_record \<times> registry" where
  "record_failure parser cfg r endpoint_id ck a =
     (case charge_of (fa_exn a) of
        NoCharge ev \<Rightarrow> (Uncharged ev, r)
      | ClientCharge \<Rightarrow> (ClientErrorSkipped, r)
      | EndpointCharge status auth_misconfig \<Rightarrow>
          (let detail = (case fa_detail a of
                           Some d \<Rightarrow> Some d
                         | None \<Rightarrow> (case fa_exn a of None \<Rightarrow> None | Some e \<Rightarrow> ex_operator_text e));
               r1 = ensure cfg r endpoint_id;
               h1 = snd (health_record (the (dict_get (rg_health r1) endpoint_id)) False);
               (auth_rejections, h2) = note_failure h1 status auth_misconfig;
               r2 = put_health r1 endpoint_id h2;
               (oc, c) = on_failure parser (fa_policy a) (the (dict_get (rg_circuits r2) endpoint_id)) ck (fa_loop_running a)
                           (Some (availability h2)) (reason_str (fa_reason a)) (detail_str detail)
                           (caller_str (fa_user_id a) (fa_user_name a));
               r3 = put_circuit r2 endpoint_id c
           in if auth_misconfig \<and> (case oc of AlertRaised _ \<Rightarrow> False | _ \<Rightarrow> True)
              then (case report_auth_misconfig r3 endpoint_id ck auth_rejections of (rpt, r4) \<Rightarrow> (Charged oc (Some rpt), r4))
              else (Charged oc None, r3)))"

text \<open>A page's delivery reports back to its breaker.\<close>

definition page_sent :: "registry \<Rightarrow> string \<Rightarrow> clock \<Rightarrow> time option \<Rightarrow> nat \<Rightarrow> bool \<Rightarrow> registry" where
  "page_sent r endpoint_id ck epoch gen delivered =
     (case dict_get (rg_circuits r) endpoint_id of
        None \<Rightarrow> r | Some c \<Rightarrow> put_circuit r endpoint_id (send_finished c ck epoch gen delivered))"

definition snapshot :: "registry \<Rightarrow> (string, real \<times> circuit_state \<times> int option \<times> nat) dict" where
  "snapshot r =
     map (\<lambda>(e, h). (e, availability h, cb_state (the (dict_get (rg_circuits r) e)),
                    ph_last_error_status h, ph_consecutive_auth_rejections h)) (rg_health r)"

section \<open>One endpoint on its own\<close>

text \<open>The specification the registry implements: an endpoint with its health, its breaker and the instant
  its last credential page was scheduled, and what each event does to it.\<close>

record endpoint =
  ep_health :: provider_health
  ep_breaker :: breaker
  ep_auth_alert_at :: "time option"

definition fresh_endpoint :: "breaker_config \<Rightarrow> string \<Rightarrow> endpoint" where
  "fresh_endpoint cfg e =
     \<lparr>ep_health = ProviderHealth_init cfg, ep_breaker = CircuitBreaker_init cfg e, ep_auth_alert_at = None\<rparr>"

datatype endpoint_event =
    EpBegin clock
  | EpEnd nat
  | EpSuccess
  | EpFailure clock failure_args
  | EpSent clock "time option" nat bool

fun endpoint_step :: "iso_parser \<Rightarrow> endpoint \<Rightarrow> endpoint_event \<Rightarrow> endpoint" where
  "endpoint_step parser p (EpBegin ck) = p\<lparr>ep_breaker := snd (breaker_begin_dispatch (ep_breaker p) ck)\<rparr>"
| "endpoint_step parser p (EpEnd tok) = p\<lparr>ep_breaker := breaker_end_dispatch (ep_breaker p) tok\<rparr>"
| "endpoint_step parser p EpSuccess =
     \<lparr>ep_health = snd (health_record (ep_health p) True), ep_breaker = snd (on_success (ep_breaker p)),
      ep_auth_alert_at = (if fst (health_record (ep_health p) True) then None else ep_auth_alert_at p)\<rparr>"
| "endpoint_step parser p (EpFailure ck a) =
     (case charge_of (fa_exn a) of
        NoCharge _ \<Rightarrow> p
      | ClientCharge \<Rightarrow> p
      | EndpointCharge status auth \<Rightarrow>
          (let detail = (case fa_detail a of
                           Some d \<Rightarrow> Some d
                         | None \<Rightarrow> (case fa_exn a of None \<Rightarrow> None | Some e \<Rightarrow> ex_operator_text e));
               h = snd (note_failure (snd (health_record (ep_health p) False)) status auth);
               (oc, c) = on_failure parser (fa_policy a) (ep_breaker p) ck (fa_loop_running a)
                           (Some (availability h)) (reason_str (fa_reason a)) (detail_str detail)
                           (caller_str (fa_user_id a) (fa_user_name a));
               due = (case ep_auth_alert_at p of None \<Rightarrow> True | Some t \<Rightarrow> AUTH_ALERT_SCHEDULE_INTERVAL_SEC \<le> ck_mono ck - t)
           in \<lparr>ep_health = h, ep_breaker = c,
               ep_auth_alert_at = (if auth \<and> (case oc of AlertRaised _ \<Rightarrow> False | _ \<Rightarrow> True) \<and> due
                                   then Some (ck_mono ck) else ep_auth_alert_at p)\<rparr>))"
| "endpoint_step parser p (EpSent ck epoch gen delivered) =
     p\<lparr>ep_breaker := send_finished (ep_breaker p) ck epoch gen delivered\<rparr>"

datatype registry_event =
    RAllow string clock
  | REnsure string
  | RBegin string clock
  | REnd "dispatch_claim option"
  | RSuccess string
  | RFailure string clock failure_args
  | RSent string clock "time option" nat bool

text \<open>Only a breaker that exists has pages under way.\<close>

fun registry_step :: "iso_parser \<Rightarrow> breaker_config \<Rightarrow> registry \<Rightarrow> registry_event \<Rightarrow> registry option" where
  "registry_step parser cfg r (RAllow e ck) = Some (snd (registry_allow_request cfg r e ck))"
| "registry_step parser cfg r (REnsure e) = Some (ensure cfg r e)"
| "registry_step parser cfg r (RBegin e ck) = Some (snd (begin_dispatch cfg r e ck))"
| "registry_step parser cfg r (REnd claim) = Some (end_dispatch r claim)"
| "registry_step parser cfg r (RSuccess e) = Some (snd (record_success cfg r e))"
| "registry_step parser cfg r (RFailure e ck a) = Some (snd (record_failure parser cfg r e ck a))"
| "registry_step parser cfg r (RSent e ck epoch gen delivered) =
     (if dict_get (rg_circuits r) e = None then None else Some (page_sent r e ck epoch gen delivered))"

text \<open>What an event of the registry is to one endpoint.\<close>

fun event_at :: "string \<Rightarrow> registry_event \<Rightarrow> endpoint_event list" where
  "event_at e (RAllow f ck) = []"
| "event_at e (REnsure f) = []"
| "event_at e (RBegin f ck) = (if f = e then [EpBegin ck] else [])"
| "event_at e (REnd claim) =
     (case claim of
        None \<Rightarrow> []
      | Some dc \<Rightarrow> (case dc_probe_token dc of None \<Rightarrow> [] | Some tok \<Rightarrow> if dc_endpoint_id dc = e then [EpEnd tok] else []))"
| "event_at e (RSuccess f) = (if f = e then [EpSuccess] else [])"
| "event_at e (RFailure f ck a) = (if f = e then [EpFailure ck a] else [])"
| "event_at e (RSent f ck epoch gen delivered) = (if f = e then [EpSent ck epoch gen delivered] else [])"

definition endpoint_of :: "breaker_config \<Rightarrow> registry \<Rightarrow> string \<Rightarrow> endpoint" where
  "endpoint_of cfg r e =
     \<lparr>ep_health = dict_get_or (rg_health r) e (ProviderHealth_init cfg),
      ep_breaker = dict_get_or (rg_circuits r) e (CircuitBreaker_init cfg e),
      ep_auth_alert_at = dict_get (rg_auth_alert_at r) e\<rparr>"

lemma ensure_circuit_simps:
  "fst (ensure_circuit cfg r e) = dict_get_or (rg_circuits r) e (CircuitBreaker_init cfg e)"
  "endpoint_of cfg (snd (ensure_circuit cfg r e)) f = endpoint_of cfg r f"
  "dict_get (rg_circuits (snd (ensure_circuit cfg r e))) e = Some (dict_get_or (rg_circuits r) e (CircuitBreaker_init cfg e))"
  by (auto simp: ensure_circuit_def endpoint_of_def dict_get_or_def Let_def split: option.splits)

lemma ensure_simps:
  "endpoint_of cfg (ensure cfg r e) f = endpoint_of cfg r f"
  "dict_get (rg_health (ensure cfg r e)) e = Some (ep_health (endpoint_of cfg r e))"
  "dict_get (rg_circuits (ensure cfg r e)) e = Some (ep_breaker (endpoint_of cfg r e))"
  by (auto simp: ensure_def ensure_circuit_def endpoint_of_def dict_get_or_def Let_def split: option.splits)

lemma endpoint_of_put:
  "endpoint_of cfg (put_circuit r e c) f = (if f = e then (endpoint_of cfg r f)\<lparr>ep_breaker := c\<rparr> else endpoint_of cfg r f)"
  "endpoint_of cfg (put_health r e h) f = (if f = e then (endpoint_of cfg r f)\<lparr>ep_health := h\<rparr> else endpoint_of cfg r f)"
  "dict_get (rg_circuits (put_health r e h)) = dict_get (rg_circuits r)"
  by (auto simp: endpoint_of_def put_circuit_def put_health_def dict_get_or_def)

lemma endpoint_of_auth:
  "endpoint_of cfg (r\<lparr>rg_auth_alert_at := d\<rparr>) f = (endpoint_of cfg r f)\<lparr>ep_auth_alert_at := dict_get d f\<rparr>"
  by (simp add: endpoint_of_def)

lemma endpoint_auth_at: "dict_get (rg_auth_alert_at r) f = ep_auth_alert_at (endpoint_of cfg r f)"
  by (simp add: endpoint_of_def)

text \<open>Each operation of the registry, seen from one endpoint.\<close>

lemma begin_dispatch_at:
  "endpoint_of cfg (snd (begin_dispatch cfg r f ck)) e = run (endpoint_step parser) (endpoint_of cfg r e) (event_at e (RBegin f ck))"
proof -
  obtain c r1 where er: "ensure_circuit cfg r f = (c, r1)" by (cases "ensure_circuit cfg r f")
  obtain ad tok c1 where bd: "breaker_begin_dispatch c ck = ((ad, tok), c1)" by (metis prod.collapse)
  have c: "c = ep_breaker (endpoint_of cfg r f)" and r1: "endpoint_of cfg r1 e = endpoint_of cfg r e"
    using ensure_circuit_simps(1,2) [of cfg r f] er by (simp_all add: endpoint_of_def)
  have "snd (begin_dispatch cfg r f ck) = put_circuit r1 f c1" by (simp add: begin_dispatch_def er bd)
  then show ?thesis using bd c r1 by (auto simp: endpoint_of_put)
qed

lemma end_dispatch_at:
  "endpoint_of cfg (end_dispatch r claim) e = run (endpoint_step parser) (endpoint_of cfg r e) (event_at e (REnd claim))"
proof -
  have "breaker_end_dispatch (CircuitBreaker_init cfg e) tok = CircuitBreaker_init cfg e" for e tok
    by (simp add: breaker_end_dispatch_def CircuitBreaker_init_def)
  then show ?thesis
    by (auto simp: end_dispatch_def endpoint_of_put split: option.splits) (auto simp: endpoint_of_def dict_get_or_def)
qed

lemma record_success_at:
  "endpoint_of cfg (snd (record_success cfg r f)) e = run (endpoint_step parser) (endpoint_of cfg r e) (event_at e (RSuccess f))"
proof -
  let ?r1 = "ensure cfg r f" and ?p = "endpoint_of cfg r f"
  obtain a h where h: "health_record (ep_health ?p) True = (a, h)" by fastforce
  obtain cl c where c: "on_success (ep_breaker ?p) = (cl, c)" by fastforce
  have "snd (record_success cfg r f) =
      put_circuit (if a then (put_health ?r1 f h)\<lparr>rg_auth_alert_at := dict_del f (rg_auth_alert_at (put_health ?r1 f h))\<rparr>
                   else put_health ?r1 f h) f c"
    by (simp add: record_success_def ensure_simps h Let_def endpoint_of_put c)
  then show ?thesis
    using h c by (auto simp: endpoint_of_put endpoint_of_auth ensure_simps endpoint_auth_at [of _ _ cfg])
qed

lemma record_failure_at:
  "endpoint_of cfg (snd (record_failure parser cfg r f ck a)) e =
     run (endpoint_step parser) (endpoint_of cfg r e) (event_at e (RFailure f ck a))"
proof (cases "charge_of (fa_exn a)")
  case (EndpointCharge status auth)
  let ?r1 = "ensure cfg r f" and ?p = "endpoint_of cfg r f"
  define d where "d = detail_str (case fa_detail a of Some d \<Rightarrow> Some d
      | None \<Rightarrow> (case fa_exn a of None \<Rightarrow> None | Some e \<Rightarrow> ex_operator_text e))"
  obtain n h where h: "note_failure (snd (health_record (ep_health ?p) False)) status auth = (n, h)" by fastforce
  obtain oc c where c: "on_failure parser (fa_policy a) (ep_breaker ?p) ck (fa_loop_running a) (Some (availability h))
      (reason_str (fa_reason a)) d (caller_str (fa_user_id a) (fa_user_name a)) = (oc, c)" by fastforce
  let ?r3 = "put_circuit (put_health ?r1 f h) f c"
  have res: "snd (record_failure parser cfg r f ck a) =
      (if auth \<and> (case oc of AlertRaised _ \<Rightarrow> False | _ \<Rightarrow> True) then snd (report_auth_misconfig ?r3 f ck n) else ?r3)"
    unfolding record_failure_def EndpointCharge charge.case d_def [symmetric] Let_def
    by (simp add: ensure_simps h endpoint_of_put c case_prod_beta)
  have r3: "endpoint_of cfg ?r3 e = (if e = f then ?p\<lparr>ep_health := h, ep_breaker := c\<rparr> else endpoint_of cfg r e)" for e
    by (simp add: endpoint_of_put ensure_simps)
  have "dict_get (rg_auth_alert_at ?r3) e = ep_auth_alert_at (endpoint_of cfg r e)" for e
    using endpoint_auth_at [of ?r3 e cfg] r3 [of e] by simp
  then have "endpoint_of cfg (snd (report_auth_misconfig ?r3 f ck n)) e =
      (if e = f then ?p\<lparr>ep_health := h, ep_breaker := c, ep_auth_alert_at :=
           (case ep_auth_alert_at ?p of None \<Rightarrow> Some (ck_mono ck)
            | Some t \<Rightarrow> if AUTH_ALERT_SCHEDULE_INTERVAL_SEC \<le> ck_mono ck - t then Some (ck_mono ck) else Some t)\<rparr>
       else endpoint_of cfg r e)" for e
    using r3 by (auto simp: report_auth_misconfig_def Let_def endpoint_of_auth not_less split: option.splits)
  then show ?thesis
    using r3 h c EndpointCharge by (auto simp: res d_def [symmetric] Let_def split: option.split failure_outcome.split)
qed (auto simp: record_failure_def)

lemma registry_step_at:
  assumes "registry_step parser cfg r ev = Some r'"
  shows "endpoint_of cfg r' e = run (endpoint_step parser) (endpoint_of cfg r e) (event_at e ev)"
proof (cases ev)
  case (RAllow f ck)
  with assms show ?thesis
    using ensure_circuit_simps(2) [of cfg r f e] by (auto simp: registry_allow_request_def case_prod_beta)
next
  case (REnsure f)
  with assms show ?thesis by (auto simp: ensure_simps)
next
  case (RSent f ck epoch gen delivered)
  with assms show ?thesis
    by (auto simp: page_sent_def endpoint_of_put split: if_splits option.splits) (simp add: endpoint_of_def dict_get_or_def)
next
  case (RFailure f ck a)
  with assms record_failure_at [of cfg parser r f ck a e] show ?thesis by auto
next
  case (REnd claim)
  with assms end_dispatch_at [of cfg r claim e parser] show ?thesis by auto
qed (use assms begin_dispatch_at [of cfg r _ _ e parser] record_success_at [of cfg r _ e parser] in auto)

lemma registry_endpoint:
  "steps (registry_step parser cfg) r0 es = Some r \<Longrightarrow>
   endpoint_of cfg r e = run (endpoint_step parser) (endpoint_of cfg r0 e) (concat (map (event_at e) es))"
proof (induction es arbitrary: r0)
  case (Cons ev es)
  then obtain r1 where "registry_step parser cfg r0 ev = Some r1" "steps (registry_step parser cfg) r1 es = Some r"
    by (auto split: option.splits)
  with Cons.IH registry_step_at [of parser cfg r0 ev r1 e] show ?case by simp
qed simp

section \<open>Outcomes\<close>

text \<open>What an event tells about the endpoint: an accepted request, or a charged failure with whether it was
  a rejected credential.\<close>

datatype outcome = Accepted | Failed_with bool

fun outcome_of :: "endpoint_event \<Rightarrow> outcome list" where
  "outcome_of EpSuccess = [Accepted]"
| "outcome_of (EpFailure ck a) = (case charge_of (fa_exn a) of EndpointCharge status auth \<Rightarrow> [Failed_with auth] | _ \<Rightarrow> [])"
| "outcome_of _ = []"

definition since_accepted :: "outcome list \<Rightarrow> outcome list" where
  "since_accepted os = takeWhile (\<lambda>x. x \<noteq> Accepted) (rev os)"

definition ewma :: "real \<Rightarrow> outcome list \<Rightarrow> real" where
  "ewma \<alpha> os = foldl (\<lambda>v x. (1 - \<alpha>) * v + \<alpha> * (if x = Accepted then 1 else 0)) 1 os"

lemma since_accepted_simps [simp]:
  "since_accepted [] = []" "since_accepted (os @ [Accepted]) = []"
  "since_accepted (os @ [Failed_with a]) = Failed_with a # since_accepted os"
  by (simp_all add: since_accepted_def)

lemma ewma_simps [simp]:
  "ewma \<alpha> [] = 1" "ewma \<alpha> (os @ [x]) = (1 - \<alpha>) * ewma \<alpha> os + \<alpha> * (if x = Accepted then 1 else 0)"
  by (simp_all add: ewma_def)

lemma ewma_range: "0 \<le> \<alpha> \<Longrightarrow> \<alpha> \<le> 1 \<Longrightarrow> 0 \<le> ewma \<alpha> os \<and> ewma \<alpha> os \<le> 1"
proof (induction os rule: rev_induct)
  case (snoc x os)
  then have v: "0 \<le> ewma \<alpha> os" "ewma \<alpha> os \<le> 1" by auto
  have "(1 - \<alpha>) * ewma \<alpha> os \<le> 1 - \<alpha>" using snoc(3) v(2) mult_left_le [of "ewma \<alpha> os" "1 - \<alpha>"] by simp
  with snoc(2,3) v show ?case by auto
qed simp

lemma ewma_closed:
  "ewma \<alpha> os = (1 - \<alpha>) ^ length os + \<alpha> * (\<Sum>i<length os. if os ! i = Accepted then (1 - \<alpha>) ^ (length os - 1 - i) else 0)"
proof (induction os rule: rev_induct)
  case (snoc x os)
  let ?n = "length os"
  define S where "S = (\<Sum>i<?n. if os ! i = Accepted then (1 - \<alpha>) ^ (?n - 1 - i) else 0)"
  define z :: real where "z = (if x = Accepted then 1 else 0)"
  have "(\<Sum>i<?n. if (os @ [x]) ! i = Accepted then (1 - \<alpha>) ^ (?n - i) else 0) =
      (\<Sum>i<?n. (1 - \<alpha>) * (if os ! i = Accepted then (1 - \<alpha>) ^ (?n - 1 - i) else 0))"
    by (rule sum.cong) (auto simp: nth_append power_Suc [symmetric] Suc_diff_Suc simp del: power_Suc)
  then have sum: "(\<Sum>i<Suc ?n. if (os @ [x]) ! i = Accepted then (1 - \<alpha>) ^ (?n - i) else 0) = (1 - \<alpha>) * S + z"
    by (simp add: sum_distrib_left S_def z_def)
  have "ewma \<alpha> (os @ [x]) = (1 - \<alpha>) * ((1 - \<alpha>) ^ ?n + \<alpha> * S) + \<alpha> * z" by (simp add: snoc S_def z_def)
  also have "\<dots> = (1 - \<alpha>) ^ Suc ?n + \<alpha> * ((1 - \<alpha>) * S + z)" by (simp add: algebra_simps)
  finally have e: "ewma \<alpha> (os @ [x]) = (1 - \<alpha>) ^ Suc ?n + \<alpha> * ((1 - \<alpha>) * S + z)" .
  have len: "length (os @ [x]) - 1 = ?n" "length (os @ [x]) = Suc ?n" by simp_all
  show ?case unfolding len(1) unfolding len(2) e sum ..
qed simp

section \<open>The state of an endpoint, as a function of its outcomes\<close>

definition tripped :: "int \<Rightarrow> real \<Rightarrow> real \<Rightarrow> outcome list \<Rightarrow> bool" where
  "tripped threshold min_avail \<alpha> os \<longleftrightarrow>
     since_accepted os \<noteq> [] \<and> (threshold \<le> int (length (since_accepted os)) \<or> ewma \<alpha> os < min_avail)"

definition follows :: "breaker_config \<Rightarrow> outcome list \<Rightarrow> endpoint \<Rightarrow> bool" where
  "follows cfg os p \<longleftrightarrow>
     ph_alpha (ep_health p) = or_default (cf_alpha cfg) (1 / 10) \<and>
     ph_ewma_success (ep_health p) = ewma (or_default (cf_alpha cfg) (1 / 10)) os \<and> ph_ewma_total (ep_health p) = 1 \<and>
     ph_consecutive_auth_rejections (ep_health p) = length (filter (\<lambda>x. x = Failed_with True) (since_accepted os)) \<and>
     cb_failure_threshold (ep_breaker p) = or_default (cf_failure_threshold cfg) 3 \<and>
     cb_min_availability (ep_breaker p) = or_default (cf_min_availability cfg) (7 / 10) \<and>
     cb_consecutive_failures (ep_breaker p) = int (length (since_accepted os)) \<and>
     (cb_state (ep_breaker p) \<noteq> CLOSED \<longleftrightarrow>
        tripped (or_default (cf_failure_threshold cfg) 3) (or_default (cf_min_availability cfg) (7 / 10))
          (or_default (cf_alpha cfg) (1 / 10)) os)"

lemma follows_fresh: "follows cfg [] (fresh_endpoint cfg e)"
  by (simp add: follows_def fresh_endpoint_def ProviderHealth_init_def CircuitBreaker_init_def tripped_def)

lemma health_record_simps:
  "ph_alpha (snd (health_record h ok)) = ph_alpha h"
  "ph_ewma_success (snd (health_record h ok)) = (1 - ph_alpha h) * ph_ewma_success h + ph_alpha h * (if ok then 1 else 0)"
  "ph_ewma_total (snd (health_record h ok)) = (1 - ph_alpha h) * ph_ewma_total h + ph_alpha h"
  "ph_consecutive_auth_rejections (snd (health_record h ok)) = (if ok then 0 else ph_consecutive_auth_rejections h)"
  "fst (health_record h ok) \<longleftrightarrow> ok \<and> ph_consecutive_auth_rejections h \<noteq> 0"
  by (auto simp: health_record_def Let_def)

lemma note_failure_simps:
  "ph_alpha (snd (note_failure h st au)) = ph_alpha h"
  "ph_ewma_success (snd (note_failure h st au)) = ph_ewma_success h"
  "ph_ewma_total (snd (note_failure h st au)) = ph_ewma_total h"
  "ph_consecutive_auth_rejections (snd (note_failure h st au)) = ph_consecutive_auth_rejections h + (if au then 1 else 0)"
  by (auto simp: note_failure_def Let_def)

lemma follows_step:
  assumes f: "follows cfg os p" and a: "0 \<le> or_default (cf_alpha cfg) (1 / 10)" "or_default (cf_alpha cfg) (1 / 10) \<le> 1"
  shows "follows cfg (os @ outcome_of ev) (endpoint_step parser p ev)"
proof (cases ev)
  case (EpBegin ck)
  with f show ?thesis by (simp add: follows_def breaker_simps)
next
  case (EpEnd tok)
  with f show ?thesis by (simp add: follows_def breaker_simps)
next
  case (EpSent ck epoch gen dl)
  with f show ?thesis by (simp add: follows_def breaker_simps)
next
  case EpSuccess
  with f show ?thesis by (simp add: follows_def breaker_simps health_record_simps tripped_def)
next
  case (EpFailure ck args)
  show ?thesis
  proof (cases "charge_of (fa_exn args)")
    case (EndpointCharge st au)
    let ?\<alpha> = "or_default (cf_alpha cfg) (1 / 10)" and ?os = "os @ [Failed_with au]"
    let ?h = "snd (note_failure (snd (health_record (ep_health p) False)) st au)"
    have h: "ph_alpha ?h = ?\<alpha>" "ph_ewma_success ?h = ewma ?\<alpha> ?os" "ph_ewma_total ?h = 1"
      "ph_consecutive_auth_rejections ?h = length (filter (\<lambda>x. x = Failed_with True) (since_accepted ?os))"
      using f by (simp_all add: follows_def health_record_simps note_failure_simps)
    have av: "availability ?h = ewma ?\<alpha> ?os" using h ewma_range [OF a, of ?os] by (simp add: availability_def)
    have grow: "tripped t m ?\<alpha> os \<Longrightarrow> tripped t m ?\<alpha> ?os" for t m
    proof -
      have "(1 - ?\<alpha>) * ewma ?\<alpha> os \<le> ewma ?\<alpha> os"
        using ewma_range [OF a, of os] a mult_right_mono [of "1 - ?\<alpha>" 1 "ewma ?\<alpha> os"] by simp
      then show "tripped t m ?\<alpha> os \<Longrightarrow> tripped t m ?\<alpha> ?os" by (auto simp: tripped_def)
    qed
    have tr: "trips (ep_breaker p) (Some (availability ?h)) \<longleftrightarrow>
        tripped (or_default (cf_failure_threshold cfg) 3) (or_default (cf_min_availability cfg) (7 / 10)) ?\<alpha> ?os"
      using f by (auto simp: trips_def av tripped_def follows_def)
    define p' where "p' = endpoint_step parser p ev"
    have p': "ep_health p' = ?h"
      and "\<exists>r d c. ep_breaker p' =
        snd (on_failure parser (fa_policy args) (ep_breaker p) ck (fa_loop_running args) (Some (availability ?h)) r d c)"
      by (auto simp: p'_def EpFailure EndpointCharge Let_def case_prod_beta)
    then obtain r d c where c: "ep_breaker p' =
        snd (on_failure parser (fa_policy args) (ep_breaker p) ck (fa_loop_running args) (Some (availability ?h)) r d c)" by blast
    have "follows cfg ?os p'"
      using f h grow by (auto simp: follows_def p' c breaker_simps tr)
    then show ?thesis by (simp add: p'_def EpFailure EndpointCharge)
  qed (use f in \<open>simp_all add: EpFailure\<close>)
qed

lemma follows_run:
  assumes a: "0 \<le> or_default (cf_alpha cfg) (1 / 10)" "or_default (cf_alpha cfg) (1 / 10) \<le> 1"
  shows "follows cfg os p \<Longrightarrow> follows cfg (os @ concat (map outcome_of evs)) (run (endpoint_step parser) p evs)"
proof (induction evs arbitrary: os p)
  case (Cons ev evs)
  from Cons.IH [OF follows_step [OF Cons.prems a]] show ?case by simp
qed simp

section \<open>Properties\<close>

text \<open>C9. The registry refines one independent machine per endpoint. After any interleaving of calls for any
  endpoints -- listings, dispatch claims and their ends, successes, failures, page deliveries -- the
  health, the circuit and the credential throttle of an endpoint are exactly what its own events alone
  would have made of a fresh endpoint: nothing recorded for one endpoint reaches another.\<close>

theorem registry_refines_endpoints:
  assumes "steps (registry_step parser cfg) Registry_init es = Some r"
  shows "endpoint_of cfg r e = run (endpoint_step parser) (fresh_endpoint cfg e) (concat (map (event_at e) es))"
  using registry_endpoint [OF assms, of e]
  by (simp add: Registry_init_def endpoint_of_def fresh_endpoint_def dict_get_or_def)

definition demo_config :: breaker_config where
  "demo_config = \<lparr>cf_alpha = None, cf_failure_threshold = None, cf_cooldown_seconds = None, cf_min_availability = None\<rparr>"

definition demo_failure :: "int \<Rightarrow> failure_args" where
  "demo_failure status = \<lparr>fa_reason = ''error'', fa_detail = None,
     fa_exn = Some \<lparr>ex_class = Other_exn, ex_status = Some status, ex_status_code = None, ex_code = None, ex_response = None,
                    ex_operator_text = Some ''bad gateway''\<rparr>,
     fa_user_id = Some ''u'', fa_user_name = None, fa_policy = \<lparr>po_enabled = True, po_page_on_usage_limit = True\<rparr>,
     fa_loop_running = True\<rparr>"

definition demo_calls :: "registry_event list" where
  "demo_calls = [RFailure ''a'' (demo_clock 1) (demo_failure 502), RFailure ''a'' (demo_clock 2) (demo_failure 404),
     RSuccess ''b'', RFailure ''a'' (demo_clock 3) (demo_failure 401), RFailure ''a'' (demo_clock 4) (demo_failure 502)]"

lemma demo_calls_run: "steps (registry_step (\<lambda>_. None) demo_config) Registry_init demo_calls =
    Some (the (steps (registry_step (\<lambda>_. None) demo_config) Registry_init demo_calls))"
  by (simp add: demo_calls_def)

theorem registry_refines_endpoints_witness:
  "endpoint_of demo_config (the (steps (registry_step (\<lambda>_. None) demo_config) Registry_init demo_calls)) ''b'' =
     endpoint_step (\<lambda>_. None) (fresh_endpoint demo_config ''b'') EpSuccess"
  using registry_refines_endpoints [OF demo_calls_run, of "''b''"] by (simp add: demo_calls_def)

text \<open>C10. An endpoint's state is a closed form of its outcomes. With a smoothing factor between 0 and 1,
  after any interleaving of calls: its availability is the exponentially weighted share of accepted
  requests, its streak counts the charged failures since the last accepted one, the circuit is open or
  half open exactly when that streak is not empty and has reached the threshold or the availability is
  below its floor, and the run of credential rejections counts those since the last accepted request,
  so that the next success closes a credential incident exactly when there was one.\<close>

theorem endpoint_closed_form:
  fixes cfg e es r
  defines "\<alpha> \<equiv> or_default (cf_alpha cfg) (1 / 10)"
    and "os \<equiv> concat (map outcome_of (concat (map (event_at e) es)))"
  assumes run: "steps (registry_step parser cfg) Registry_init es = Some r" and "0 \<le> \<alpha>" and "\<alpha> \<le> 1"
  shows "let h = ep_health (endpoint_of cfg r e); b = ep_breaker (endpoint_of cfg r e);
             streak = takeWhile (\<lambda>x. x \<noteq> Accepted) (rev os)
    in availability h =
         (1 - \<alpha>) ^ length os + \<alpha> * (\<Sum>i<length os. if os ! i = Accepted then (1 - \<alpha>) ^ (length os - 1 - i) else 0) \<and>
       cb_consecutive_failures b = int (length streak) \<and>
       (cb_state b \<noteq> CLOSED \<longleftrightarrow> streak \<noteq> [] \<and>
          (cb_failure_threshold b \<le> int (length streak) \<or> availability h < cb_min_availability b)) \<and>
       ph_consecutive_auth_rejections h = length (filter (\<lambda>x. x = Failed_with True) streak) \<and>
       (fst (fst (record_success cfg r e)) \<longleftrightarrow> Failed_with True \<in> set streak)"
proof -
  let ?p = "endpoint_of cfg r e"
  have a: "0 \<le> or_default (cf_alpha cfg) (1 / 10)" "or_default (cf_alpha cfg) (1 / 10) \<le> 1" using assms by auto
  have f: "follows cfg os ?p"
    using follows_run [OF a follows_fresh, of "concat (map (event_at e) es)" parser e] registry_endpoint [OF run, of e]
    by (simp add: os_def Registry_init_def endpoint_of_def fresh_endpoint_def dict_get_or_def)
  have av: "availability (ep_health ?p) = ewma \<alpha> os"
    using f ewma_range [OF a, of os] by (simp add: availability_def follows_def \<alpha>_def)
  have "fst (fst (record_success cfg r e)) \<longleftrightarrow> ph_consecutive_auth_rejections (ep_health ?p) \<noteq> 0"
    by (simp add: record_success_def Let_def ensure_simps case_prod_beta health_record_simps)
  also have "\<dots> \<longleftrightarrow> Failed_with True \<in> set (since_accepted os)" using f by (auto simp: follows_def filter_empty_conv)
  finally have res: "fst (fst (record_success cfg r e)) \<longleftrightarrow> Failed_with True \<in> set (since_accepted os)" .
  show ?thesis
    unfolding Let_def since_accepted_def [symmetric] av res
    using f ewma_closed [of \<alpha> os] by (simp add: follows_def tripped_def \<alpha>_def)
qed

theorem endpoint_closed_form_witness:
  "cb_consecutive_failures (ep_breaker (endpoint_of demo_config
     (the (steps (registry_step (\<lambda>_. None) demo_config) Registry_init demo_calls)) ''a'')) = 3"
proof -
  have "0 \<le> or_default (cf_alpha demo_config) (1 / 10)" "or_default (cf_alpha demo_config) (1 / 10) \<le> 1"
    by (simp_all add: demo_config_def or_default_def)
  moreover have "concat (map outcome_of (concat (map (event_at ''a'') demo_calls))) =
      [Failed_with False, Failed_with True, Failed_with False]" by code_simp
  ultimately show ?thesis using endpoint_closed_form [OF demo_calls_run, of "''a''"] by (simp add: Let_def)
qed

end
