(* ===== verification/Prompt_Identity.thy ===== *)
theory Prompt_Identity
  imports Prelude
begin

text \<open>
  \<open>routing/prefill_load.py\<close>, first part: how large a prompt is, which conversation it belongs to and
  what of it an endpoint has already seen. Requests are JSON values; \<open>json.dumps\<close> is an argument
  \<open>dumps\<close> (nothing where it raises), \<open>str\<close> of a value that is not a string is an argument \<open>py_str\<close>, and
  the blake2b digest is an argument \<open>blake\<close>. Text is ASCII, so its size in bytes is its length.

  The lemmas: the anchor loop compares exactly a prefix of the later prompt; appending turns to a
  conversation keeps its fingerprint and its anchor.
\<close>

datatype json = JNull | JBool bool | JNum real | JStr string | JArr "json list" | JObj "(string \<times> json) list"

type_synonym dumper = "json \<Rightarrow> string option"

text \<open>Python's truth of a value, and \<open>d.get(k)\<close> on an object.\<close>

fun truthy :: "json \<Rightarrow> bool" where
  "truthy JNull = False"
| "truthy (JBool b) = b"
| "truthy (JNum x) = (x \<noteq> 0)"
| "truthy (JStr s) = (s \<noteq> [])"
| "truthy (JArr xs) = (xs \<noteq> [])"
| "truthy (JObj d) = (d \<noteq> [])"

definition jget :: "(string \<times> json) list \<Rightarrow> string \<Rightarrow> json" where
  "jget d k = dict_get_or d k JNull"

definition BYTES_PER_TOKEN :: nat where "BYTES_PER_TOKEN = 4"
definition IMAGE_TOKENS :: nat where "IMAGE_TOKENS = 85"
definition AUDIO_TOKENS :: nat where "AUDIO_TOKENS = 200"
definition FINGERPRINT_CHARS_PER_MESSAGE :: nat where "FINGERPRINT_CHARS_PER_MESSAGE = 2048"
definition FINGERPRINT_MAX_MESSAGES :: nat where "FINGERPRINT_MAX_MESSAGES = 4"

section \<open>Size\<close>

definition text_size :: "string \<Rightarrow> nat" where
  "text_size t = length t"

definition serialized_chars :: "dumper \<Rightarrow> json \<Rightarrow> nat" where
  "serialized_chars dumps v = (if \<not> truthy v then 0 else case dumps v of None \<Rightarrow> 0 | Some s \<Rightarrow> length s)"

definition is_image :: "json \<Rightarrow> bool" where
  "is_image t \<longleftrightarrow> (case t of JStr s \<Rightarrow> s = ''image'' \<or> s = ''image_url'' | _ \<Rightarrow> False)"

definition is_audio :: "json \<Rightarrow> bool" where
  "is_audio t \<longleftrightarrow> (case t of JStr s \<Rightarrow> s = ''audio'' \<or> s = ''input_audio'' | _ \<Rightarrow> False)"

definition block_chars :: "dumper \<Rightarrow> json \<Rightarrow> nat" where
  "block_chars dumps block =
     (case block of
        JStr s \<Rightarrow> text_size s
      | JObj d \<Rightarrow>
          if is_image (jget d ''type'') then IMAGE_TOKENS * BYTES_PER_TOKEN
          else if is_audio (jget d ''type'') then AUDIO_TOKENS * BYTES_PER_TOKEN
          else (case jget d ''text'' of JStr t \<Rightarrow> text_size t | _ \<Rightarrow> serialized_chars dumps block)
      | _ \<Rightarrow> 0)"

definition content_chars :: "dumper \<Rightarrow> (json \<Rightarrow> string) \<Rightarrow> json \<Rightarrow> nat" where
  "content_chars dumps py_str content =
     (case content of
        JNull \<Rightarrow> 0
      | JStr s \<Rightarrow> text_size s
      | JArr blocks \<Rightarrow> sum_list (map (block_chars dumps) blocks)
      | _ \<Rightarrow> length (py_str content))"

definition extra_fields_of :: "(string \<times> json) list \<Rightarrow> (string \<times> json) list" where
  "extra_fields_of d = filter (\<lambda>(k, v). k \<noteq> ''role'' \<and> k \<noteq> ''content'' \<and> v \<noteq> JNull) d"

definition message_extra_chars :: "dumper \<Rightarrow> (string \<times> json) list \<Rightarrow> nat" where
  "message_extra_chars dumps d = serialized_chars dumps (JObj (extra_fields_of d))"

definition estimate_prefill_tokens :: "dumper \<Rightarrow> (json \<Rightarrow> string) \<Rightarrow> json list \<Rightarrow> json \<Rightarrow> json \<Rightarrow> nat" where
  "estimate_prefill_tokens dumps py_str messages tools response_format =
     (sum_list (map (\<lambda>m. case m of
         JObj d \<Rightarrow> content_chars dumps py_str (jget d ''content'') + message_extra_chars dumps d | _ \<Rightarrow> 0) messages)
      + serialized_chars dumps tools + serialized_chars dumps response_format) div BYTES_PER_TOKEN"

section \<open>What of a prompt was seen\<close>

text \<open>\<open>f"{v}"\<close>.\<close>

definition fmt :: "(json \<Rightarrow> string) \<Rightarrow> json \<Rightarrow> string" where
  "fmt py_str v = (case v of JStr s \<Rightarrow> s | _ \<Rightarrow> py_str v)"

text \<open>\<open>a or b or ... or ""\<close>.\<close>

fun first_truthy :: "json list \<Rightarrow> json" where
  "first_truthy [] = JStr []"
| "first_truthy (v # vs) = (if truthy v then v else first_truthy vs)"

definition media_identity :: "(json \<Rightarrow> string) \<Rightarrow> (string \<Rightarrow> string) \<Rightarrow> (string \<times> json) list \<Rightarrow> string" where
  "media_identity py_str blake d =
     (let kind = (if truthy (jget d ''type'') then jget d ''type'' else JStr ''media'');
          p0 = first_truthy [jget d ''image_url'', jget d ''input_audio'', jget d ''source''];
          p1 = (case p0 of JObj e \<Rightarrow> first_truthy [jget e ''url'', jget e ''data''] | _ \<Rightarrow> p0);
          payload = fmt py_str p1
      in CHR 0x03 # fmt py_str kind @ '':'' @ show_nat (length payload) @ '':'' @ blake payload)"

definition block_units :: "dumper \<Rightarrow> (json \<Rightarrow> string) \<Rightarrow> (string \<Rightarrow> string) \<Rightarrow> json \<Rightarrow> string list" where
  "block_units dumps py_str blake block =
     [CHR 0x04] #
     (case block of
        JStr s \<Rightarrow> [s]
      | JObj d \<Rightarrow>
          if is_image (jget d ''type'') \<or> is_audio (jget d ''type'') then [media_identity py_str blake d]
          else (case jget d ''text'' of
                  JStr t \<Rightarrow> [t]
                | _ \<Rightarrow> (case dumps block of None \<Rightarrow> [] | Some s \<Rightarrow> [s]))
      | _ \<Rightarrow> [])"

definition message_units :: "dumper \<Rightarrow> (json \<Rightarrow> string) \<Rightarrow> (string \<Rightarrow> string) \<Rightarrow> json \<Rightarrow> string list" where
  "message_units dumps py_str blake m =
     (case m of
        JObj d \<Rightarrow>
          [CHR 0x01 # fmt py_str (jget d ''role'') @ [CHR 0x02]] @
          (case jget d ''content'' of
             JStr s \<Rightarrow> [s]
           | JArr blocks \<Rightarrow> concat (map (block_units dumps py_str blake) blocks)
           | _ \<Rightarrow> []) @
          (if extra_fields_of d = [] then []
           else case dumps (JObj (extra_fields_of d)) of None \<Rightarrow> [] | Some s \<Rightarrow> [s])
      | _ \<Rightarrow> [])"

definition prefix_units :: "dumper \<Rightarrow> (json \<Rightarrow> string) \<Rightarrow> (string \<Rightarrow> string) \<Rightarrow> json list \<Rightarrow> string list" where
  "prefix_units dumps py_str blake messages = concat (map (message_units dumps py_str blake) messages)"

type_synonym anchor = "nat \<times> string"

text \<open>The digest is updated unit by unit, which is the digest of what was fed so far.\<close>

definition prompt_anchor :: "(string \<Rightarrow> string) \<Rightarrow> string list \<Rightarrow> anchor option" where
  "prompt_anchor blake units =
     (let fed = foldl (@) [] units; n = foldl (\<lambda>n u. n + length u) 0 units
      in if n = 0 then None else Some (n, blake fed))"

fun anchor_walk :: "nat \<Rightarrow> string list \<Rightarrow> nat \<Rightarrow> string \<Rightarrow> nat \<times> string" where
  "anchor_walk n [] seen fed = (seen, fed)"
| "anchor_walk n (u # us) seen fed =
     (if n \<le> seen then (seen, fed)
      else let t = take (n - seen) u in anchor_walk n us (seen + length t) (fed @ t))"

definition anchor_holds :: "(string \<Rightarrow> string) \<Rightarrow> string list \<Rightarrow> anchor \<Rightarrow> bool" where
  "anchor_holds blake units a =
     (case a of (n, expected) \<Rightarrow>
        if n = 0 then False
        else case anchor_walk n units 0 [] of (seen, fed) \<Rightarrow> seen = n \<and> blake fed = expected)"

section \<open>Which conversation\<close>

fun text_parts :: "json list \<Rightarrow> int \<Rightarrow> string" where
  "text_parts [] remaining = []"
| "text_parts (block # blocks) remaining =
     (if remaining \<le> 0 then []
      else
        (let t = (case block of
                    JStr s \<Rightarrow> s
                  | JObj d \<Rightarrow> if is_image (jget d ''type'') \<or> is_audio (jget d ''type'') then []
                              else (case jget d ''text'' of JStr s \<Rightarrow> s | _ \<Rightarrow> [])
                  | _ \<Rightarrow> [])
         in if t = [] then text_parts blocks remaining
            else (let part = CHR 0x04 # take (nat remaining) t
                  in part @ text_parts blocks (remaining - int (length part)))))"

definition content_text :: "json \<Rightarrow> nat \<Rightarrow> string" where
  "content_text content budget =
     (if budget = 0 then []
      else case content of JStr s \<Rightarrow> take budget s | JArr blocks \<Rightarrow> text_parts blocks (int budget) | _ \<Rightarrow> [])"

fun opening_turns :: "(json \<Rightarrow> string) \<Rightarrow> json list \<Rightarrow> string list" where
  "opening_turns py_str [] = []"
| "opening_turns py_str (m # ms) =
     (case m of
        JObj d \<Rightarrow>
          (let role = jget d ''role''; t = content_text (jget d ''content'') FINGERPRINT_CHARS_PER_MESSAGE
           in (if t = [] then [] else [fmt py_str role @ '':'' @ t]) @
              (if role = JStr ''user'' then [] else opening_turns py_str ms))
      | _ \<Rightarrow> opening_turns py_str ms)"

definition labelled :: "dumper \<Rightarrow> string \<Rightarrow> json \<Rightarrow> string list" where
  "labelled dumps label v =
     (if truthy v then (case dumps v of None \<Rightarrow> [] | Some s \<Rightarrow> [label @ '':'' @ s]) else [])"

fun join_nul :: "string list \<Rightarrow> string" where
  "join_nul [] = []"
| "join_nul [x] = x"
| "join_nul (x # y # xs) = x @ CHR 0x00 # join_nul (y # xs)"

definition conversation_fingerprint ::
  "dumper \<Rightarrow> (json \<Rightarrow> string) \<Rightarrow> (string \<Rightarrow> string) \<Rightarrow> json list \<Rightarrow> json \<Rightarrow> json \<Rightarrow> string option" where
  "conversation_fingerprint dumps py_str blake messages tools response_format =
     (let head = labelled dumps ''tools'' tools @ labelled dumps ''schema'' response_format
                 @ opening_turns py_str (take FINGERPRINT_MAX_MESSAGES messages)
      in if head = [] then None else Some (blake (join_nul head)))"

section \<open>Lemmas\<close>

lemma foldl_append: "foldl (@) s us = s @ concat us"
  by (induction us arbitrary: s) auto

lemma foldl_lengths: "foldl (\<lambda>n u. n + length u) k us = k + length (concat us)"
  by (induction us arbitrary: k) auto

lemma prompt_anchor_concat:
  "prompt_anchor blake us = (if concat us = [] then None else Some (length (concat us), blake (concat us)))"
  by (simp add: prompt_anchor_def foldl_append foldl_lengths del: concat_eq_Nil_conv)

text \<open>The walk reads exactly the first \<open>n\<close> characters, or all of them.\<close>

lemma anchor_walk_take:
  "length fed = seen \<Longrightarrow> seen \<le> n \<Longrightarrow>
   anchor_walk n us seen fed = (min n (seen + length (concat us)), fed @ take (n - seen) (concat us))"
proof (induction us arbitrary: seen fed)
  case (Cons u us)
  show ?case
  proof (cases "n \<le> seen")
    case False
    let ?t = "take (n - seen) u"
    have "anchor_walk n us (seen + length ?t) (fed @ ?t) =
        (min n (seen + length ?t + length (concat us)), (fed @ ?t) @ take (n - (seen + length ?t)) (concat us))"
      using Cons.prems False by (intro Cons.IH) auto
    then show ?thesis using False by (auto simp: Let_def min_def)
  qed (use Cons.prems in auto)
qed simp

lemma anchor_holds_prefix:
  "anchor_holds blake us (n, expected) \<longleftrightarrow>
     0 < n \<and> n \<le> length (concat us) \<and> blake (take n (concat us)) = expected"
  by (auto simp: anchor_holds_def anchor_walk_take min_def)

lemma opening_stops:
  "(\<exists>d. JObj d \<in> set ms \<and> jget d ''role'' = JStr ''user'') \<Longrightarrow> opening_turns py_str (ms @ ns) = opening_turns py_str ms"
proof (induction ms)
  case (Cons m ms)
  show ?case
  proof (cases m)
    case (JObj d)
    then show ?thesis using Cons by (cases "jget d ''role'' = JStr ''user''") (auto simp: Let_def)
  qed (use Cons in auto)
qed simp

lemma opening_continues:
  assumes "(\<exists>d. JObj d \<in> set (take FINGERPRINT_MAX_MESSAGES ms) \<and> jget d ''role'' = JStr ''user'') \<or> FINGERPRINT_MAX_MESSAGES \<le> length ms"
  shows "opening_turns py_str (take FINGERPRINT_MAX_MESSAGES (ms @ ns)) = opening_turns py_str (take FINGERPRINT_MAX_MESSAGES ms)"
  using assms opening_stops [of "take FINGERPRINT_MAX_MESSAGES ms"] by (auto simp del: take_append simp: take_append)

end
