(* ===== verification/Prefill_Load.thy ===== *)
theory Prefill_Load
  imports Prompt_Identity
begin

text \<open>
  \<open>routing/prefill_load.py\<close>, second part: \<open>PrefillLoadTracker\<close>. It charges every dispatched request's
  un-cached prompt tokens to its endpoint until prefill ends, remembers what each caller last sent to
  each endpoint, and picks an endpoint by weight while steering around busy ones. Its lock makes each
  method one step; leases are objects the callers keep, here the list of all leases handed out.
  Settings are a record; the random numbers and the clock are inputs.

  The lemmas: the counters are exactly the sums over open leases; the index of hints agrees with the
  hints; the weighted draw as intervals; what selection never does.
\<close>

record prefill_settings =
  pf_enabled :: bool
  pf_elephant_tokens :: int
  pf_elephant_limit :: int
  pf_intervene_tokens :: int
  pf_affinity_ceiling :: int
  pf_priority_interactive :: int
  pf_priority_large :: int
  pf_priority_elephant :: int
  pf_hint_ttl :: time

definition PREFIX_HINT_MAX_ENTRIES :: nat where "PREFIX_HINT_MAX_ENTRIES = 50000"

definition priority_for_prefill :: "prefill_settings \<Rightarrow> int \<Rightarrow> int" where
  "priority_for_prefill st tokens =
     (if pf_elephant_tokens st \<le> tokens then pf_priority_elephant st
      else if pf_intervene_tokens st \<le> tokens then pf_priority_large st
      else pf_priority_interactive st)"

record prefix_hint =
  hn_tokens :: int
  hn_expires_at :: time
  hn_fingerprint :: "string option"
  hn_anchor :: "anchor option"

record prefill_lease =
  pl_endpoint :: string
  pl_tokens :: int
  pl_elephant :: bool
  pl_affinity_key :: "string option"
  pl_released :: bool
  pl_prompt_tokens :: int
  pl_fingerprint :: "string option"
  pl_anchor :: "anchor option"

record prefill_tracker =
  pt_backlog :: "(string, int) dict"
  pt_elephants :: "(string, int) dict"
  pt_by_caller :: "(string \<times> string, int) dict"
  pt_prefix_hints :: "(string \<times> string, prefix_hint) dict"
  pt_hint_callers :: "(string, string list) dict"
  pt_fixed_elephant_tokens :: "int option"
  pt_fixed_elephant_limit :: "int option"
  pt_leases :: "prefill_lease list"

definition PrefillLoadTracker_init :: "int option \<Rightarrow> int option \<Rightarrow> prefill_tracker" where
  "PrefillLoadTracker_init fixed_tokens fixed_limit =
     \<lparr>pt_backlog = [], pt_elephants = [], pt_by_caller = [], pt_prefix_hints = [], pt_hint_callers = [],
      pt_fixed_elephant_tokens = fixed_tokens, pt_fixed_elephant_limit = fixed_limit, pt_leases = []\<rparr>"

text \<open>What the caller knows of its prompt: the identity to require, and the text to check the anchor on.\<close>

definition uncached_estimate ::
  "(string \<Rightarrow> string) \<Rightarrow> prefill_tracker \<Rightarrow> time \<Rightarrow> string \<Rightarrow> int \<Rightarrow> string option \<Rightarrow> string option \<Rightarrow> string list option \<Rightarrow> int"
  where
  "uncached_estimate blake t now endpoint_id tokens affinity_key fingerprint units =
     (let full = max tokens 0 in
      case affinity_key of
        None \<Rightarrow> full
      | Some a \<Rightarrow>
          (case dict_get (pt_prefix_hints t) (a, endpoint_id) of
             None \<Rightarrow> full
           | Some hint \<Rightarrow>
               if hn_expires_at hint \<le> now then full
               else if fingerprint \<noteq> None \<and> fingerprint \<noteq> hn_fingerprint hint then full
               else if (case units of
                          None \<Rightarrow> False
                        | Some us \<Rightarrow> (case hn_anchor hint of None \<Rightarrow> True | Some an \<Rightarrow> \<not> anchor_holds blake us an))
               then full
               else max (full - hn_tokens hint) 0))"

definition elephant_tokens :: "prefill_settings \<Rightarrow> prefill_tracker \<Rightarrow> int" where
  "elephant_tokens st t = max (case pt_fixed_elephant_tokens t of None \<Rightarrow> pf_elephant_tokens st | Some n \<Rightarrow> n) 1"

definition elephant_limit :: "prefill_settings \<Rightarrow> prefill_tracker \<Rightarrow> int" where
  "elephant_limit st t = max (case pt_fixed_elephant_limit t of None \<Rightarrow> pf_elephant_limit st | Some n \<Rightarrow> n) 1"

definition is_elephant :: "prefill_settings \<Rightarrow> prefill_tracker \<Rightarrow> int \<Rightarrow> bool" where
  "is_elephant st t tokens \<longleftrightarrow> elephant_tokens st t \<le> tokens"

definition backlog :: "prefill_tracker \<Rightarrow> string \<Rightarrow> int" where
  "backlog t e = dict_get_or (pt_backlog t) e 0"

definition elephants :: "prefill_tracker \<Rightarrow> string \<Rightarrow> int" where
  "elephants t e = dict_get_or (pt_elephants t) e 0"

definition caller_load :: "prefill_tracker \<Rightarrow> string \<Rightarrow> string \<Rightarrow> int" where
  "caller_load t e a = dict_get_or (pt_by_caller t) (e, a) 0"

text \<open>The lease is the last of the list; it is handed out by its position.\<close>

definition prefill_acquire ::
  "(string \<Rightarrow> string) \<Rightarrow> prefill_settings \<Rightarrow> prefill_tracker \<Rightarrow> time \<Rightarrow> string \<Rightarrow> int \<Rightarrow> string option \<Rightarrow> string option \<Rightarrow>
     anchor option \<Rightarrow> nat \<times> prefill_tracker" where
  "prefill_acquire blake st t now endpoint_id tokens affinity_key fingerprint anch =
     (let full = max tokens 0;
          charged = uncached_estimate blake t now endpoint_id full affinity_key None None;
          gated = uncached_estimate blake t now endpoint_id full affinity_key fingerprint None;
          elephant = is_elephant st t gated;
          t1 = t\<lparr>pt_backlog := dict_set endpoint_id (backlog t endpoint_id + charged) (pt_backlog t)\<rparr>;
          t2 = (if elephant then t1\<lparr>pt_elephants := dict_set endpoint_id (elephants t1 endpoint_id + 1) (pt_elephants t1)\<rparr> else t1);
          t3 = (case affinity_key of
                  None \<Rightarrow> t2
                | Some a \<Rightarrow> t2\<lparr>pt_by_caller := dict_set (endpoint_id, a) (caller_load t2 endpoint_id a + charged) (pt_by_caller t2)\<rparr>)
      in (length (pt_leases t),
          t3\<lparr>pt_leases := pt_leases t @
            [\<lparr>pl_endpoint = endpoint_id, pl_tokens = charged, pl_elephant = elephant, pl_affinity_key = affinity_key,
              pl_released = False, pl_prompt_tokens = full, pl_fingerprint = fingerprint, pl_anchor = anch\<rparr>]\<rparr>))"

text \<open>Dropping the oldest hints until the bound holds, with their entries in the index.\<close>

function evict_hints :: "prefill_tracker \<Rightarrow> prefill_tracker" where
  "evict_hints t =
     (if length (pt_prefix_hints t) \<le> PREFIX_HINT_MAX_ENTRIES then t
      else
        (case pt_prefix_hints t of
           [] \<Rightarrow> t
         | ((a, e), _) # rest \<Rightarrow>
             (let callers = dict_get_or (pt_hint_callers t) e [];
                  left = removeAll a callers
              in evict_hints (t\<lparr>pt_prefix_hints := rest,
                     pt_hint_callers := (if dict_get (pt_hint_callers t) e = None then pt_hint_callers t
                                         else if left = [] then dict_del e (pt_hint_callers t)
                                         else dict_set e left (pt_hint_callers t))\<rparr>))))"
  by auto
termination
  by (relation "measure (length \<circ> pt_prefix_hints)") auto

declare evict_hints.simps [simp del]

definition remember_prompt ::
  "prefill_settings \<Rightarrow> prefill_tracker \<Rightarrow> string \<Rightarrow> string \<Rightarrow> int \<Rightarrow> time \<Rightarrow> string option \<Rightarrow> anchor option \<Rightarrow> prefill_tracker" where
  "remember_prompt st t a e tokens now fingerprint anch =
     (let hint = \<lparr>hn_tokens = tokens, hn_expires_at = now + pf_hint_ttl st, hn_fingerprint = fingerprint, hn_anchor = anch\<rparr>;
          callers = dict_get_or (pt_hint_callers t) e []
      in evict_hints (t\<lparr>pt_prefix_hints := dict_del (a, e) (pt_prefix_hints t) @ [((a, e), hint)],
             pt_hint_callers := dict_set e (if a \<in> set callers then callers else callers @ [a]) (pt_hint_callers t)\<rparr>))"

definition forget_endpoint :: "prefill_tracker \<Rightarrow> string \<Rightarrow> prefill_tracker" where
  "forget_endpoint t e =
     (let callers = dict_get_or (pt_hint_callers t) e []
      in t\<lparr>pt_hint_callers := dict_del e (pt_hint_callers t),
           pt_prefix_hints := foldl (\<lambda>hs a. dict_del (a, e) hs) (pt_prefix_hints t) callers\<rparr>)"

definition lower_entry :: "'k \<Rightarrow> int \<Rightarrow> ('k, int) dict \<Rightarrow> ('k, int) dict" where
  "lower_entry k n d =
     (let remaining = dict_get_or d k 0 - n in if 0 < remaining then dict_set k remaining d else dict_del k d)"

definition prefill_release :: "prefill_settings \<Rightarrow> prefill_tracker \<Rightarrow> time \<Rightarrow> nat option \<Rightarrow> bool \<Rightarrow> prefill_tracker" where
  "prefill_release st t now lease prefill_confirmed =
     (case lease of
        None \<Rightarrow> t
      | Some i \<Rightarrow>
          if length (pt_leases t) \<le> i \<or> pl_released (pt_leases t ! i) then t
          else
            (let l = pt_leases t ! i;
                 t1 = t\<lparr>pt_leases := (pt_leases t)[i := l\<lparr>pl_released := True\<rparr>]\<rparr>;
                 t2 = (case pl_affinity_key l of
                         Some a \<Rightarrow> if prefill_confirmed
                                   then remember_prompt st t1 a (pl_endpoint l) (pl_prompt_tokens l) now (pl_fingerprint l) (pl_anchor l)
                                   else t1
                       | None \<Rightarrow> t1);
                 t3 = t2\<lparr>pt_backlog := lower_entry (pl_endpoint l) (pl_tokens l) (pt_backlog t2)\<rparr>;
                 t4 = (if pl_elephant l then t3\<lparr>pt_elephants := lower_entry (pl_endpoint l) 1 (pt_elephants t3)\<rparr> else t3)
             in case pl_affinity_key l of
                  None \<Rightarrow> t4
                | Some a \<Rightarrow> t4\<lparr>pt_by_caller := lower_entry (pl_endpoint l, a) (pl_tokens l) (pt_by_caller t4)\<rparr>))"

definition should_keep_affinity :: "prefill_settings \<Rightarrow> prefill_tracker \<Rightarrow> string \<Rightarrow> string option \<Rightarrow> int option \<Rightarrow> bool" where
  "should_keep_affinity st t e affinity_key limit_given =
     (if \<not> pf_enabled st then True
      else backlog t e - (case affinity_key of None \<Rightarrow> 0 | Some a \<Rightarrow> caller_load t e a)
             \<le> (case limit_given of None \<Rightarrow> pf_affinity_ceiling st | Some c \<Rightarrow> c))"

section \<open>Selection\<close>

fun pick_bucket :: "nat list \<Rightarrow> real list \<Rightarrow> real \<Rightarrow> real \<Rightarrow> nat option" where
  "pick_bucket [] weights threshold cumulative = None"
| "pick_bucket (i # is) weights threshold cumulative =
     (let c = cumulative + max (weights ! i) 0
      in if threshold \<le> c then Some i else pick_bucket is weights threshold c)"

definition weighted_pick :: "nat list \<Rightarrow> real list \<Rightarrow> real \<Rightarrow> nat" where
  "weighted_pick eligible weights rand =
     (let tot = sum_list (map (\<lambda>i. max (weights ! i) 0) eligible)
      in if tot \<le> 0 then last eligible
         else case pick_bucket eligible weights (rand * tot) 0 of Some i \<Rightarrow> i | None \<Rightarrow> last eligible)"

text \<open>The candidates a draw is made from: the one to avoid is dropped when others remain, and where the
  request would be an elephant the saturated endpoints are dropped when others remain.\<close>

definition not_avoided :: "string list \<Rightarrow> string option \<Rightarrow> nat list" where
  "not_avoided keys avoid =
     (let all = [0..<length keys];
          remaining = filter (\<lambda>i. Some (keys ! i) \<noteq> avoid) all
      in if avoid \<noteq> None \<and> remaining \<noteq> [] then remaining else all)"

definition eligible_for ::
  "(string \<Rightarrow> string) \<Rightarrow> prefill_settings \<Rightarrow> prefill_tracker \<Rightarrow> time \<Rightarrow> string list \<Rightarrow> int \<Rightarrow> string option \<Rightarrow> string option \<Rightarrow>
     string option \<Rightarrow> nat list" where
  "eligible_for blake st t now keys tokens affinity_key avoid fingerprint =
     (let eligible = not_avoided keys avoid;
          elephant_here = (\<lambda>i. is_elephant st t (uncached_estimate blake t now (keys ! i) tokens affinity_key fingerprint None));
          unsaturated = filter (\<lambda>i. \<not> elephant_here i \<or> elephants t (keys ! i) < elephant_limit st t) eligible
      in if pf_enabled st \<and> list_ex elephant_here eligible \<and> unsaturated \<noteq> [] then unsaturated else eligible)"

text \<open>\<open>None\<close> is the \<open>ValueError\<close> of no candidates.\<close>

definition select_index ::
  "(string \<Rightarrow> string) \<Rightarrow> prefill_settings \<Rightarrow> prefill_tracker \<Rightarrow> time \<Rightarrow> string list \<Rightarrow> real list \<Rightarrow> int \<Rightarrow> real \<Rightarrow> real \<Rightarrow>
     string option \<Rightarrow> string option \<Rightarrow> string option \<Rightarrow> nat option" where
  "select_index blake st t now keys weights tokens rand1 rand2 affinity_key avoid fingerprint =
     (if keys = [] then None
      else if length keys = 1 then Some 0
      else
        (let eligible = eligible_for blake st t now keys tokens affinity_key avoid fingerprint;
             first = weighted_pick eligible weights rand1
         in if \<not> pf_enabled st then Some first
            else
              (let second = weighted_pick eligible weights rand2
               in if first = second then Some first
                  else if max (backlog t (keys ! first)) (backlog t (keys ! second)) < pf_intervene_tokens st then Some first
                  else Some (if backlog t (keys ! first) \<le> backlog t (keys ! second) then first else second))))"

definition prefill_snapshot :: "prefill_tracker \<Rightarrow> (string, int \<times> int) dict" where
  "prefill_snapshot t = map (\<lambda>(e, n). (e, n, elephants t e)) (pt_backlog t)"

section \<open>Accounting\<close>

declare map_of_eq_Some_iff [simp del] Some_eq_map_of_iff [simp del] split_paired_All [simp del] split_paired_Ex [simp del]

datatype prefill_event =
    PAcquire time string int "string option" "string option" "anchor option"
  | PRelease time "nat option" bool
  | PForget string

fun prefill_step :: "(string \<Rightarrow> string) \<Rightarrow> prefill_settings \<Rightarrow> prefill_tracker \<Rightarrow> prefill_event \<Rightarrow> prefill_tracker" where
  "prefill_step blake st t (PAcquire now e n a f an) = snd (prefill_acquire blake st t now e n a f an)"
| "prefill_step blake st t (PRelease now l c) = prefill_release st t now l c"
| "prefill_step blake st t (PForget e) = forget_endpoint t e"

text \<open>A sum over the leases that are still open.\<close>

definition open_sum :: "(prefill_lease \<Rightarrow> int) \<Rightarrow> prefill_lease list \<Rightarrow> int" where
  "open_sum f ls = sum_list (map (\<lambda>l. if pl_released l then 0 else f l) ls)"

lemma open_sum_simps [simp]: "open_sum f [] = 0" "open_sum f (ls @ [l]) = open_sum f ls + (if pl_released l then 0 else f l)"
  by (simp_all add: open_sum_def)

lemma open_sum_release:
  assumes "i < length ls" "\<not> pl_released (ls ! i)"
  shows "open_sum f (ls[i := (ls ! i)\<lparr>pl_released := True\<rparr>]) = open_sum f ls - f (ls ! i)"
  using assms
proof (induction ls arbitrary: i)
  case (Cons l ls)
  then show ?case by (cases i) (auto simp: open_sum_def)
qed simp

lemma open_sum_nonneg: "(\<And>l. l \<in> set ls \<Longrightarrow> \<not> pl_released l \<Longrightarrow> 0 \<le> f l) \<Longrightarrow> 0 \<le> open_sum f ls"
  by (auto simp: open_sum_def intro!: sum_list_nonneg)

abbreviation on_endpoint :: "string \<Rightarrow> prefill_lease \<Rightarrow> int" where
  "on_endpoint e l \<equiv> if pl_endpoint l = e then pl_tokens l else 0"

abbreviation elephant_on :: "string \<Rightarrow> prefill_lease \<Rightarrow> int" where
  "elephant_on e l \<equiv> if pl_endpoint l = e \<and> pl_elephant l then 1 else 0"

abbreviation of_caller :: "string \<Rightarrow> string \<Rightarrow> prefill_lease \<Rightarrow> int" where
  "of_caller e a l \<equiv> if pl_endpoint l = e \<and> pl_affinity_key l = Some a then pl_tokens l else 0"

definition load_ok :: "prefill_tracker \<Rightarrow> bool" where
  "load_ok t \<longleftrightarrow> (\<forall>l \<in> set (pt_leases t). 0 \<le> pl_tokens l) \<and>
     (\<forall>e. backlog t e = open_sum (on_endpoint e) (pt_leases t)) \<and>
     (\<forall>e. elephants t e = open_sum (elephant_on e) (pt_leases t)) \<and>
     (\<forall>e a. caller_load t e a = open_sum (of_caller e a) (pt_leases t))"

text \<open>The index of hints by endpoint says exactly which hints there are.\<close>

definition hints_indexed :: "prefill_tracker \<Rightarrow> bool" where
  "hints_indexed t \<longleftrightarrow> dict_wf (pt_prefix_hints t) \<and>
     (\<forall>a e. (a, e) \<in> fst ` set (pt_prefix_hints t) \<longleftrightarrow> a \<in> set (dict_get_or (pt_hint_callers t) e []))"

lemma dict_keys_del [simp]: "fst ` set (dict_del k d) = fst ` set d - {k}"
  by (force simp: AList.delete_eq)

lemma dict_get_or_set [simp]: "dict_get_or (dict_set k v d) j x = (if j = k then v else dict_get_or d j x)"
  by (simp add: dict_get_or_def)

lemma dict_get_or_del [simp]: "dict_get_or (dict_del k d) j x = (if j = k then x else dict_get_or d j x)"
  by (simp add: dict_get_or_def)

lemma lower_entry_get: "dict_get_or (lower_entry k n d) j 0 = (if j = k then max 0 (dict_get_or d k 0 - n) else dict_get_or d j 0)"
  by (auto simp: lower_entry_def Let_def)

lemma uncached_nonneg: "0 \<le> uncached_estimate blake t now e n a f us"
  by (auto simp: uncached_estimate_def Let_def split: option.splits)

lemma evict_simps [simp]:
  "pt_backlog (evict_hints t) = pt_backlog t" "pt_elephants (evict_hints t) = pt_elephants t"
  "pt_by_caller (evict_hints t) = pt_by_caller t" "pt_leases (evict_hints t) = pt_leases t"
  by (induction t rule: evict_hints.induct; subst evict_hints.simps; auto simp: Let_def split: list.split)+

lemma evict_bound: "length (pt_prefix_hints (evict_hints t)) \<le> PREFIX_HINT_MAX_ENTRIES"
  by (induction t rule: evict_hints.induct) (subst evict_hints.simps, auto simp: Let_def split: list.split)

lemma evict_indexed: "hints_indexed t \<Longrightarrow> hints_indexed (evict_hints t)"
proof (induction t rule: evict_hints.induct)
  case (1 t)
  show ?case
  proof (cases "length (pt_prefix_hints t) \<le> PREFIX_HINT_MAX_ENTRIES \<or> pt_prefix_hints t = []")
    case True
    with 1(2) show ?thesis by (subst evict_hints.simps) auto
  next
    case False
    then obtain a e h rest where hs: "pt_prefix_hints t = ((a, e), h) # rest" by (cases "pt_prefix_hints t") auto
    define left where "left = removeAll a (dict_get_or (pt_hint_callers t) e [])"
    define t' where "t' = t\<lparr>pt_prefix_hints := rest,
        pt_hint_callers := (if dict_get (pt_hint_callers t) e = None then pt_hint_callers t
                            else if left = [] then dict_del e (pt_hint_callers t)
                            else dict_set e left (pt_hint_callers t))\<rparr>"
    have ev: "evict_hints t = evict_hints t'" using False hs by (subst evict_hints.simps) (simp add: t'_def left_def Let_def)
    have idx: "(b, f) \<in> fst ` set (pt_prefix_hints t) \<longleftrightarrow> b \<in> set (dict_get_or (pt_hint_callers t) f [])" for b f
      using 1(2) by (simp add: hints_indexed_def)
    have rest: "dict_wf rest" "fst ` set rest = fst ` set (pt_prefix_hints t) - {(a, e)}"
      using 1(2) hs by (auto simp: hints_indexed_def)
    have callers: "set (dict_get_or (pt_hint_callers t') f []) = set (dict_get_or (pt_hint_callers t) f []) - (if f = e then {a} else {})" for f
    proof (cases "f = e")
      case True
      have "set left = set (dict_get_or (pt_hint_callers t) e []) - {a}" by (simp add: left_def)
      then show ?thesis using True
        by (cases "dict_get (pt_hint_callers t) e"; cases "left = []") (simp_all add: t'_def dict_get_or_def)
    qed (simp add: t'_def)
    have "hints_indexed t'"
      unfolding hints_indexed_def callers by (simp add: rest t'_def idx)
    then show ?thesis using 1(1) False hs ev by (auto simp: t'_def left_def Let_def)
  qed
qed

lemma remember_simps [simp]:
  "pt_backlog (remember_prompt st t a e n now f an) = pt_backlog t" "pt_elephants (remember_prompt st t a e n now f an) = pt_elephants t"
  "pt_by_caller (remember_prompt st t a e n now f an) = pt_by_caller t" "pt_leases (remember_prompt st t a e n now f an) = pt_leases t"
  by (simp_all add: remember_prompt_def Let_def)

lemma remember_indexed:
  assumes "hints_indexed t"
  shows "hints_indexed (remember_prompt st t a e n now f an)"
proof -
  have "dict_wf (dict_del (a, e) (pt_prefix_hints t) @ [((a, e), h)])" for h
    using assms by (auto simp: hints_indexed_def AList.delete_eq)
  moreover have "set (if a \<in> set cs then cs else cs @ [a]) = insert a (set cs)" for cs by auto
  ultimately show ?thesis
    using assms unfolding remember_prompt_def Let_def
    by (intro evict_indexed) (auto simp: hints_indexed_def)
qed

lemma load_ok_same:
  assumes "load_ok t" "pt_backlog t' = pt_backlog t" "pt_elephants t' = pt_elephants t" "pt_by_caller t' = pt_by_caller t"
    "pt_leases t' = pt_leases t"
  shows "load_ok t'"
  using assms by (simp add: load_ok_def backlog_def elephants_def caller_load_def)

lemma acquire_load:
  assumes "load_ok t"
  shows "load_ok (snd (prefill_acquire blake st t now e n a f an))"
  using assms uncached_nonneg [of blake t now e "max n 0" a None None]
  by (auto simp: prefill_acquire_def load_ok_def backlog_def elephants_def caller_load_def Let_def split: option.split)

text \<open>Lowering an entry by a lease's share gives the sum over the others.\<close>

lemma lowered:
  assumes "dict_get_or d k 0 = open_sum f ls" "i < length ls" "\<not> pl_released (ls ! i)" "\<And>l. l \<in> set ls \<Longrightarrow> 0 \<le> f l"
  shows "dict_get_or (lower_entry k (f (ls ! i)) d) k 0 = open_sum f (ls[i := (ls ! i)\<lparr>pl_released := True\<rparr>])"
proof -
  let ?l = "(ls ! i)\<lparr>pl_released := True\<rparr>"
  have "0 \<le> open_sum f (ls[i := ?l])"
  proof (rule open_sum_nonneg)
    fix l assume "l \<in> set (ls[i := ?l])" "\<not> pl_released l"
    then have "l \<in> set ls" using set_update_subset_insert [of ls i ?l] by auto
    then show "0 \<le> f l" by (rule assms(4))
  qed
  then show ?thesis using assms(1) open_sum_release [OF assms(2,3), of f] by (simp add: lower_entry_get)
qed

lemma release_load:
  assumes ok: "load_ok t" and i: "i < length (pt_leases t)" "\<not> pl_released (pt_leases t ! i)"
  shows "load_ok (prefill_release st t now (Some i) c)"
proof -
  let ?ls = "pt_leases t" and ?l = "pt_leases t ! i"
  let ?new = "?ls[i := ?l\<lparr>pl_released := True\<rparr>]"
  define r where "r = prefill_release st t now (Some i) c"
  have r: "pt_leases r = ?new" "pt_backlog r = lower_entry (pl_endpoint ?l) (pl_tokens ?l) (pt_backlog t)"
    "pt_elephants r = (if pl_elephant ?l then lower_entry (pl_endpoint ?l) 1 (pt_elephants t) else pt_elephants t)"
    "pt_by_caller r = (case pl_affinity_key ?l of None \<Rightarrow> pt_by_caller t
       | Some a \<Rightarrow> lower_entry (pl_endpoint ?l, a) (pl_tokens ?l) (pt_by_caller t))"
    using i by (auto simp: r_def prefill_release_def Let_def split: option.split)
  have nn: "0 \<le> pl_tokens l" if "l \<in> set ?ls" for l using ok that by (simp add: load_ok_def)
  have new: "0 \<le> pl_tokens l" if "l \<in> set ?new" for l
    using that set_update_subset_insert [of ?ls i "?l\<lparr>pl_released := True\<rparr>"] nn i by force
  have other: "open_sum f ?new = open_sum f ?ls" if "f ?l = 0" for f using open_sum_release [OF i, of f] that by simp
  have "backlog r e = open_sum (on_endpoint e) ?new" for e
  proof (cases "e = pl_endpoint ?l")
    case True
    with lowered [of "pt_backlog t" e "on_endpoint e" ?ls i] ok i nn show ?thesis by (simp add: r backlog_def load_ok_def)
  next
    case False
    with ok other [of "on_endpoint e"] show ?thesis by (simp add: r backlog_def load_ok_def lower_entry_get)
  qed
  moreover have "elephants r e = open_sum (elephant_on e) ?new" for e
  proof (cases "e = pl_endpoint ?l \<and> pl_elephant ?l")
    case True
    with lowered [of "pt_elephants t" e "elephant_on e" ?ls i] ok i show ?thesis by (simp add: r elephants_def load_ok_def)
  next
    case False
    with ok other [of "elephant_on e"] show ?thesis by (auto simp: r elephants_def load_ok_def lower_entry_get)
  qed
  moreover have "caller_load r e a = open_sum (of_caller e a) ?new" for e a
  proof (cases "e = pl_endpoint ?l \<and> pl_affinity_key ?l = Some a")
    case True
    with lowered [of "pt_by_caller t" "(e, a)" "of_caller e a" ?ls i] ok i nn show ?thesis by (simp add: r caller_load_def load_ok_def)
  next
    case False
    with ok other [of "of_caller e a"] show ?thesis
      by (auto simp: r caller_load_def load_ok_def lower_entry_get split: option.split)
  qed
  ultimately show ?thesis using new by (simp add: load_ok_def r r_def [symmetric])
qed

lemma release_noop:
  "lease = None \<or> (\<exists>i. lease = Some i \<and> (length (pt_leases t) \<le> i \<or> pl_released (pt_leases t ! i))) \<Longrightarrow>
   prefill_release st t now lease c = t"
  by (auto simp: prefill_release_def)

lemma release_indexed:
  assumes "hints_indexed t"
  shows "hints_indexed (prefill_release st t now lease c)"
proof -
  have same: "hints_indexed t'" if "hints_indexed u" "pt_prefix_hints t' = pt_prefix_hints u" "pt_hint_callers t' = pt_hint_callers u" for t' u
    using that by (simp add: hints_indexed_def)
  have t1: "hints_indexed (t\<lparr>pt_leases := ls\<rparr>)" for ls by (rule same [OF assms]) simp_all
  have "\<exists>u. hints_indexed u \<and> pt_prefix_hints (prefill_release st t now lease c) = pt_prefix_hints u \<and>
      pt_hint_callers (prefill_release st t now lease c) = pt_hint_callers u"
  proof (cases "\<exists>i a. lease = Some i \<and> i < length (pt_leases t) \<and> \<not> pl_released (pt_leases t ! i) \<and> c \<and> pl_affinity_key (pt_leases t ! i) = Some a")
    case True
    then obtain i a where i: "lease = Some i" "i < length (pt_leases t)" "\<not> pl_released (pt_leases t ! i)" "c"
      "pl_affinity_key (pt_leases t ! i) = Some a" by blast
    let ?l = "pt_leases t ! i"
    let ?u = "remember_prompt st (t\<lparr>pt_leases := (pt_leases t)[i := ?l\<lparr>pl_released := True\<rparr>]\<rparr>) a (pl_endpoint ?l)
        (pl_prompt_tokens ?l) now (pl_fingerprint ?l) (pl_anchor ?l)"
    have "hints_indexed ?u" by (rule remember_indexed [OF t1])
    with i show ?thesis by (intro exI [of _ ?u]) (simp add: prefill_release_def Let_def)
  next
    case False
    then show ?thesis
      using assms by (intro exI [of _ t]) (auto simp: prefill_release_def Let_def split: option.split)
  qed
  then show ?thesis using same by blast
qed

lemma forget_hints:
  "dict_get (foldl (\<lambda>hs a. dict_del (a, e) hs) hs as) (b, f) = (if f = e \<and> b \<in> set as then None else dict_get hs (b, f))"
  by (induction as arbitrary: hs) auto

lemma forget_keys: "fst ` set (foldl (\<lambda>hs a. dict_del (a, e) hs) hs as) = fst ` set hs - {(a, e) | a. a \<in> set as}"
  by (induction as arbitrary: hs) auto

lemma forget_wf: "dict_wf hs \<Longrightarrow> dict_wf (foldl (\<lambda>hs a. dict_del (a, e) hs) hs as)"
  by (induction as arbitrary: hs) auto

lemma forget_indexed: "hints_indexed t \<Longrightarrow> hints_indexed (forget_endpoint t e)"
  by (auto simp: hints_indexed_def forget_endpoint_def Let_def forget_keys forget_wf)

text \<open>What selection draws from.\<close>

lemma pick_bucket_in: "pick_bucket is ws th c = Some i \<Longrightarrow> i \<in> set is"
  by (induction "is" arbitrary: c) (auto simp: Let_def split: if_splits)

lemma weighted_pick_in: "el \<noteq> [] \<Longrightarrow> weighted_pick el ws r \<in> set el"
  by (auto simp: weighted_pick_def Let_def split: option.split dest: pick_bucket_in)

text \<open>The invariant of the tracker.\<close>

definition tracker_ok :: "prefill_tracker \<Rightarrow> bool" where
  "tracker_ok t \<longleftrightarrow> load_ok t \<and> hints_indexed t \<and> length (pt_prefix_hints t) \<le> PREFIX_HINT_MAX_ENTRIES"

lemma forget_length: "length (foldl (\<lambda>hs a. dict_del (a, e) hs) hs as) \<le> length hs"
proof (induction as arbitrary: hs)
  case (Cons a as)
  have "length (dict_del (a, e) hs) \<le> length hs" by (simp add: AList.delete_eq)
  with Cons [of "dict_del (a, e) hs"] show ?case by (simp add: order_trans)
qed simp

lemma release_bound:
  "length (pt_prefix_hints t) \<le> PREFIX_HINT_MAX_ENTRIES \<Longrightarrow>
   length (pt_prefix_hints (prefill_release st t now lease c)) \<le> PREFIX_HINT_MAX_ENTRIES"
  by (auto simp: prefill_release_def remember_prompt_def Let_def evict_bound split: option.split)

lemma tracker_step:
  assumes "tracker_ok t"
  shows "tracker_ok (prefill_step blake st t ev)"
proof (cases ev)
  case (PAcquire now e n a f an)
  have "pt_prefix_hints (prefill_step blake st t ev) = pt_prefix_hints t" "pt_hint_callers (prefill_step blake st t ev) = pt_hint_callers t"
    by (auto simp: PAcquire prefill_acquire_def Let_def split: option.split)
  with assms acquire_load [of t blake st now e n a f an] show ?thesis by (simp add: tracker_ok_def hints_indexed_def PAcquire)
next
  case (PRelease now lease c)
  have "load_ok (prefill_release st t now lease c)"
  proof (cases lease)
    case (Some i)
    with assms release_load [of t i st now c] release_noop [of lease t st now c] show ?thesis
      by (cases "i < length (pt_leases t) \<and> \<not> pl_released (pt_leases t ! i)") (auto simp: tracker_ok_def not_less)
  qed (use assms in \<open>simp add: tracker_ok_def prefill_release_def\<close>)
  moreover have "hints_indexed (prefill_release st t now lease c)" "length (pt_prefix_hints (prefill_release st t now lease c)) \<le> PREFIX_HINT_MAX_ENTRIES"
    using assms release_indexed [of t st now lease c] release_bound [of t st now lease c] by (simp_all only: tracker_ok_def)
  ultimately show ?thesis by (simp only: tracker_ok_def PRelease prefill_step.simps)
next
  case (PForget e)
  have "load_ok t" using assms by (simp only: tracker_ok_def)
  then have "load_ok (forget_endpoint t e)"
    by (rule load_ok_same) (simp_all add: forget_endpoint_def Let_def)
  moreover have "hints_indexed (forget_endpoint t e)" using assms by (simp only: tracker_ok_def forget_indexed)
  moreover have "length (pt_prefix_hints (forget_endpoint t e)) \<le> PREFIX_HINT_MAX_ENTRIES"
    using assms forget_length [of e "pt_prefix_hints t" "dict_get_or (pt_hint_callers t) e []"]
    by (simp add: tracker_ok_def forget_endpoint_def Let_def)
  ultimately show ?thesis by (simp only: tracker_ok_def PForget prefill_step.simps)
qed

interpretation tracker: kept_invariant "prefill_step blake st" "\<lambda>_. True" tracker_ok for blake st
  by unfold_locales (rule tracker_step)

lemma tracker_ok_init: "tracker_ok (PrefillLoadTracker_init ft fl)"
  by (simp add: tracker_ok_def load_ok_def hints_indexed_def PrefillLoadTracker_init_def backlog_def elephants_def caller_load_def
      dict_get_or_def)

lemma tracker_run_ok: "tracker_ok (run (prefill_step blake st) (PrefillLoadTracker_init ft fl) es)"
  by (rule tracker.run_keeps [OF tracker_ok_init]) (simp add: list_all_iff)

lemma open_sum_filter:
  "open_sum (\<lambda>l. if Q l then g l else 0) ls = sum_list (map g (filter (\<lambda>l. \<not> pl_released l \<and> Q l) ls))"
  by (induction ls) (auto simp: open_sum_def)

text \<open>The hint just written survives the eviction.\<close>

lemma evict_keeps_last:
  "pt_prefix_hints t \<noteq> [] \<Longrightarrow>
   pt_prefix_hints (evict_hints t) \<noteq> [] \<and> last (pt_prefix_hints (evict_hints t)) = last (pt_prefix_hints t)"
proof (induction "pt_prefix_hints t" arbitrary: t)
  case (Cons x hs)
  show ?case
  proof (cases "length (pt_prefix_hints t) \<le> PREFIX_HINT_MAX_ENTRIES")
    case True
    then have "evict_hints t = t" by (subst evict_hints.simps) simp
    with Cons.prems show ?thesis by simp
  next
    case False
    obtain a e h where x: "x = ((a, e), h)" by (cases x) auto
    have more: "hs \<noteq> []" using False Cons.hyps(2) [symmetric] by (auto simp: PREFIX_HINT_MAX_ENTRIES_def)
    have "evict_hints t = evict_hints (t\<lparr>pt_prefix_hints := hs, pt_hint_callers :=
        (if dict_get (pt_hint_callers t) e = None then pt_hint_callers t
         else if removeAll a (dict_get_or (pt_hint_callers t) e []) = [] then dict_del e (pt_hint_callers t)
         else dict_set e (removeAll a (dict_get_or (pt_hint_callers t) e [])) (pt_hint_callers t))\<rparr>)"
      unfolding evict_hints.simps [of t] using False Cons.hyps(2) [symmetric] x by (simp add: Let_def split del: if_split)
    then obtain cs where ev: "evict_hints t = evict_hints (t\<lparr>pt_prefix_hints := hs, pt_hint_callers := cs\<rparr>)" by blast
    from Cons.hyps(1) [of "t\<lparr>pt_prefix_hints := hs, pt_hint_callers := cs\<rparr>"] more Cons.hyps(2) [symmetric]
    show ?thesis by (simp add: ev)
  qed
qed simp

lemma dict_get_last: "dict_wf d \<Longrightarrow> d \<noteq> [] \<Longrightarrow> last d = (k, v) \<Longrightarrow> dict_get d k = Some v"
  by (metis last_in_set map_of_is_SomeI)

lemma remembered:
  assumes "hints_indexed t"
  shows "dict_get (pt_prefix_hints (remember_prompt st t a e n now f an)) (a, e) =
    Some \<lparr>hn_tokens = n, hn_expires_at = now + pf_hint_ttl st, hn_fingerprint = f, hn_anchor = an\<rparr>"
proof -
  have "dict_wf (pt_prefix_hints (remember_prompt st t a e n now f an))"
    using remember_indexed [OF assms] by (simp add: hints_indexed_def)
  then show ?thesis
    by (rule dict_get_last) (simp_all add: remember_prompt_def Let_def evict_keeps_last)
qed

section \<open>Properties\<close>

text \<open>C12. Whatever sequence of acquisitions, releases (repeated ones included) and forgotten endpoints a
  tracker goes through, the backlog of an endpoint is the sum of the tokens of its open leases, its
  elephant count is the number of its open elephant leases, a caller's share is the sum over that
  caller's open leases and never more than the backlog; the per-endpoint index lists exactly the
  callers with a hint, and at most 50000 hints are kept.\<close>

theorem prefill_accounting:
  "let t = run (prefill_step blake st) (PrefillLoadTracker_init ft fl) es;
       still_open = (\<lambda>l. \<not> pl_released l)
   in backlog t e = sum_list (map pl_tokens (filter (\<lambda>l. still_open l \<and> pl_endpoint l = e) (pt_leases t))) \<and>
      elephants t e = int (length (filter (\<lambda>l. still_open l \<and> pl_endpoint l = e \<and> pl_elephant l) (pt_leases t))) \<and>
      caller_load t e a =
        sum_list (map pl_tokens (filter (\<lambda>l. still_open l \<and> pl_endpoint l = e \<and> pl_affinity_key l = Some a) (pt_leases t))) \<and>
      0 \<le> caller_load t e a \<and> caller_load t e a \<le> backlog t e \<and>
      (dict_get (pt_prefix_hints t) (a, e) \<noteq> None) = (a \<in> set (dict_get_or (pt_hint_callers t) e [])) \<and>
      length (pt_prefix_hints t) \<le> 50000"
proof -
  define t where "t = run (prefill_step blake st) (PrefillLoadTracker_init ft fl) es"
  have "tracker_ok t" unfolding t_def by (rule tracker_run_ok)
  then have ok: "load_ok t" "hints_indexed t" "length (pt_prefix_hints t) \<le> PREFIX_HINT_MAX_ENTRIES" by (simp_all add: tracker_ok_def)
  have nn: "0 \<le> pl_tokens l" if "l \<in> set (pt_leases t)" for l using ok(1) that by (simp add: load_ok_def)
  have sums: "backlog t e = open_sum (on_endpoint e) (pt_leases t)" "elephants t e = open_sum (elephant_on e) (pt_leases t)"
    "caller_load t e a = open_sum (of_caller e a) (pt_leases t)" using ok(1) by (simp_all add: load_ok_def)
  have "caller_load t e a \<le> backlog t e" "0 \<le> caller_load t e a"
    unfolding sums open_sum_def by (auto intro!: sum_list_mono sum_list_nonneg simp: nn)
  moreover have "(dict_get (pt_prefix_hints t) (a, e) \<noteq> None) = (a \<in> set (dict_get_or (pt_hint_callers t) e []))"
    using ok(2) by (simp add: hints_indexed_def map_of_eq_None_iff)
  moreover have "sum_list (map (\<lambda>_. 1) ls) = int (length ls)" for ls :: "prefill_lease list" by (induction ls) auto
  ultimately show ?thesis using ok(3)
    unfolding Let_def t_def [symmetric] sums open_sum_filter by (simp add: PREFIX_HINT_MAX_ENTRIES_def conj_assoc)
qed

lemma not_avoided_bound: "i \<in> set (not_avoided keys avoid) \<Longrightarrow> i < length keys"
  by (auto simp: not_avoided_def Let_def split: if_splits)

lemma not_avoided_nonempty: "keys \<noteq> [] \<Longrightarrow> not_avoided keys avoid \<noteq> []"
  by (simp add: not_avoided_def Let_def)

lemma not_avoided_skips:
  assumes "j < length keys" "Some (keys ! j) \<noteq> avoid" "i \<in> set (not_avoided keys avoid)"
  shows "Some (keys ! i) \<noteq> avoid"
proof -
  have "filter (\<lambda>i. Some (keys ! i) \<noteq> avoid) [0..<length keys] \<noteq> []" using assms(1,2) by (auto simp: filter_empty_conv)
  with assms(3) show ?thesis by (auto simp: not_avoided_def Let_def split: if_splits)
qed

lemma eligible_sub:
  "set (eligible_for blake st t now keys n a avoid f) \<subseteq> set (not_avoided keys avoid)"
  by (auto simp: eligible_for_def Let_def)

lemma eligible_nonempty: "keys \<noteq> [] \<Longrightarrow> eligible_for blake st t now keys n a avoid f \<noteq> []"
  by (simp add: eligible_for_def Let_def not_avoided_nonempty)

text \<open>The request would be one elephant too many on the endpoint.\<close>

definition barred ::
  "(string \<Rightarrow> string) \<Rightarrow> prefill_settings \<Rightarrow> prefill_tracker \<Rightarrow> time \<Rightarrow> int \<Rightarrow> string option \<Rightarrow> string option \<Rightarrow> string \<Rightarrow> bool" where
  "barred blake st t now n a f e \<longleftrightarrow>
     is_elephant st t (uncached_estimate blake t now e n a f None) \<and> elephant_limit st t \<le> elephants t e"

lemma eligible_barred:
  assumes "pf_enabled st" "k \<in> set (eligible_for blake st t now keys n a avoid f)" "barred blake st t now n a f (keys ! k)"
    "i \<in> set (not_avoided keys avoid)"
  shows "barred blake st t now n a f (keys ! i)"
proof -
  let ?here = "\<lambda>i. is_elephant st t (uncached_estimate blake t now (keys ! i) n a f None)"
  let ?un = "filter (\<lambda>i. \<not> ?here i \<or> elephants t (keys ! i) < elephant_limit st t) (not_avoided keys avoid)"
  have el: "eligible_for blake st t now keys n a avoid f =
      (if list_ex ?here (not_avoided keys avoid) \<and> ?un \<noteq> [] then ?un else not_avoided keys avoid)"
    using assms(1) by (simp add: eligible_for_def Let_def)
  have k: "k \<in> set (not_avoided keys avoid)" using assms(2) eligible_sub by blast
  then have "list_ex ?here (not_avoided keys avoid)" using assms(3) by (auto simp: list_ex_iff barred_def)
  then have "?un = []" using assms(2,3) unfolding el by (auto simp: barred_def split: if_splits)
  with assms(4) show ?thesis by (auto simp: filter_empty_conv barred_def)
qed

lemma not_avoided_single: "length keys = 1 \<Longrightarrow> not_avoided keys avoid = [0]"
  by (simp add: not_avoided_def Let_def upt_rec)

lemma eligible_single: "length keys = 1 \<Longrightarrow> eligible_for blake st t now keys n a avoid f = [0]"
  using eligible_sub [of blake st t now keys n a avoid f] eligible_nonempty [of keys blake st t now n a avoid f]
  by (auto simp: eligible_for_def not_avoided_single Let_def)

lemma select_eligible:
  assumes "select_index blake st t now keys ws n r1 r2 a avoid f = Some k"
  shows "k \<in> set (eligible_for blake st t now keys n a avoid f)"
proof (cases "length keys = 1")
  case True
  with assms show ?thesis by (auto simp: select_index_def eligible_single split: if_splits)
next
  case False
  have "keys \<noteq> []" using assms by (auto simp: select_index_def)
  then have "weighted_pick (eligible_for blake st t now keys n a avoid f) ws r \<in> set (eligible_for blake st t now keys n a avoid f)" for r
    by (intro weighted_pick_in eligible_nonempty)
  with assms False show ?thesis by (auto simp: select_index_def Let_def split: if_splits)
qed

text \<open>C14. What a selection guarantees: it fails only without candidates; the index it returns is one of
  the candidates; it is never the endpoint to avoid while another remains; where the request would be
  an elephant, an endpoint at its elephant limit is chosen only if every candidate not to be avoided
  is such an endpoint; and of the two weighted draws it keeps the first unless one of them carries the
  intervention threshold, in which case it keeps one with the smaller backlog.\<close>

theorem selection_sound:
  assumes "select_index blake st t now keys ws n r1 r2 a avoid f = sel"
  shows "(sel = None \<longleftrightarrow> keys = []) \<and>
    (\<forall>k. sel = Some k \<longrightarrow>
       k < length keys \<and>
       ((\<exists>j < length keys. Some (keys ! j) \<noteq> avoid) \<longrightarrow> Some (keys ! k) \<noteq> avoid) \<and>
       (pf_enabled st \<and> barred blake st t now n a f (keys ! k) \<longrightarrow>
          (\<forall>i \<in> set (not_avoided keys avoid). barred blake st t now n a f (keys ! i))) \<and>
       (pf_enabled st \<and> 1 < length keys \<longrightarrow>
          (let p = weighted_pick (eligible_for blake st t now keys n a avoid f) ws r1;
               q = weighted_pick (eligible_for blake st t now keys n a avoid f) ws r2
           in if max (backlog t (keys ! p)) (backlog t (keys ! q)) < pf_intervene_tokens st then k = p
              else k \<in> {p, q} \<and> backlog t (keys ! k) = min (backlog t (keys ! p)) (backlog t (keys ! q)))))"
proof (intro conjI allI impI)
  show "sel = None \<longleftrightarrow> keys = []" using assms [symmetric] by (simp add: select_index_def Let_def)
next
  fix k assume k: "sel = Some k"
  then have el: "k \<in> set (eligible_for blake st t now keys n a avoid f)" using assms select_eligible by blast
  then have na: "k \<in> set (not_avoided keys avoid)" using eligible_sub by blast
  then show "k < length keys" by (rule not_avoided_bound)
  show "Some (keys ! k) \<noteq> avoid" if "\<exists>j < length keys. Some (keys ! j) \<noteq> avoid"
    using that na not_avoided_skips by blast
  show "\<forall>i \<in> set (not_avoided keys avoid). barred blake st t now n a f (keys ! i)"
    if "pf_enabled st \<and> barred blake st t now n a f (keys ! k)"
    using eligible_barred that el by blast
  show "let p = weighted_pick (eligible_for blake st t now keys n a avoid f) ws r1;
            q = weighted_pick (eligible_for blake st t now keys n a avoid f) ws r2
        in if max (backlog t (keys ! p)) (backlog t (keys ! q)) < pf_intervene_tokens st then k = p
           else k \<in> {p, q} \<and> backlog t (keys ! k) = min (backlog t (keys ! p)) (backlog t (keys ! q))"
    if "pf_enabled st \<and> 1 < length keys"
    using k that assms [symmetric] by (auto simp: select_index_def Let_def split: if_splits)
qed

text \<open>One endpoint is prefilling an elephant: the next elephant goes to the other, whatever the draw.\<close>

theorem selection_sound_witness:
  "let st = \<lparr>pf_enabled = True, pf_elephant_tokens = 200000, pf_elephant_limit = 1, pf_intervene_tokens = 50000,
             pf_affinity_ceiling = 150000, pf_priority_interactive = 20, pf_priority_large = 15, pf_priority_elephant = 0,
             pf_hint_ttl = 1200\<rparr>;
       t = run (prefill_step id st) (PrefillLoadTracker_init None None) [PAcquire 0 ''e'' 300000 None None None]
   in select_index id st t 1 [''e'', ''f''] [1, 1] 250000 (1 / 10) (1 / 5) None None None = Some 1 \<and> (1::nat) < length [''e'', ''f'']"
proof -
  define st where "st = \<lparr>pf_enabled = True, pf_elephant_tokens = 200000, pf_elephant_limit = 1, pf_intervene_tokens = 50000,
             pf_affinity_ceiling = 150000, pf_priority_interactive = 20, pf_priority_large = 15, pf_priority_elephant = 0,
             pf_hint_ttl = 1200\<rparr>"
  define t where "t = run (prefill_step id st) (PrefillLoadTracker_init None None) [PAcquire 0 ''e'' 300000 None None None]"
  have "select_index id st t 1 [''e'', ''f''] [1, 1] 250000 (1 / 10) (1 / 5) None None None = Some 1"
    by (simp add: t_def st_def select_index_def eligible_for_def not_avoided_def weighted_pick_def is_elephant_def elephant_tokens_def
        elephant_limit_def elephants_def uncached_estimate_def prefill_acquire_def PrefillLoadTracker_init_def dict_get_or_def
        backlog_def Let_def upt_rec)
  with selection_sound [OF this] show ?thesis by (simp only: Let_def t_def [symmetric] st_def [symmetric])
qed

section \<open>The weighted draw\<close>

lemma pick_bucket_iff:
  assumes "distinct is" "k < length is" "c < th"
  shows "pick_bucket is ws th c = Some (is ! k) \<longleftrightarrow>
    c + sum_list (map (\<lambda>i. max (ws ! i) 0) (take k is)) < th \<and> th \<le> c + sum_list (map (\<lambda>i. max (ws ! i) 0) (take (Suc k) is))"
  using assms
proof (induction "is" arbitrary: k c)
  case (Cons i "is")
  let ?w = "\<lambda>i. max (ws ! i) 0"
  have pos: "0 \<le> sum_list (map ?w js)" for js by (rule sum_list_nonneg) auto
  show ?case
  proof (cases "th \<le> c + ?w i")
    case True
    then have "pick_bucket (i # is) ws th c = Some i" by (simp add: Let_def)
    moreover have "i \<noteq> is ! j" if "k = Suc j" for j using Cons.prems that by auto
    ultimately show ?thesis using True Cons.prems(3) pos [of "take (k - 1) is"] by (cases k) auto
  next
    case False
    then have pick: "pick_bucket (i # is) ws th c = pick_bucket is ws th (c + ?w i)" by (simp add: Let_def)
    show ?thesis
    proof (cases k)
      case 0
      have "pick_bucket is ws th (c + ?w i) \<noteq> Some i" using Cons.prems(1) pick_bucket_in by fastforce
      with False 0 show ?thesis unfolding pick by simp
    next
      case (Suc j)
      with Cons.IH [of j "c + ?w i"] Cons.prems False show ?thesis unfolding pick by (simp add: add.assoc)
    qed
  qed
qed simp

lemma pick_bucket_some:
  "th \<le> c + sum_list (map (\<lambda>i. max (ws ! i) 0) is) \<Longrightarrow> is \<noteq> [] \<Longrightarrow> pick_bucket is ws th c \<noteq> None"
proof (induction "is" arbitrary: c)
  case (Cons i "is")
  then show ?case using Cons.IH [of "c + max (ws ! i) 0"] by (cases "is = []") (auto simp: Let_def add.assoc)
qed simp

text \<open>The weighted draw is proportional: for a random number strictly between 0 and 1 the \<open>k\<close>-th
  eligible candidate is drawn exactly when the number, scaled to the total weight, falls in that
  candidate's interval, whose length is its weight (negative weights count as 0); so a candidate of
  weight 0 is never drawn.\<close>

lemma weighted_draw_proportional:
  assumes "distinct el" "k < length el" "0 < r" "r < 1"
    and total: "0 < sum_list (map (\<lambda>i. max (ws ! i) 0) el)"
  shows "weighted_pick el ws r = el ! k \<longleftrightarrow>
      sum_list (map (\<lambda>i. max (ws ! i) 0) (take k el)) < r * sum_list (map (\<lambda>i. max (ws ! i) 0) el) \<and>
      r * sum_list (map (\<lambda>i. max (ws ! i) 0) el) \<le> sum_list (map (\<lambda>i. max (ws ! i) 0) (take k el)) + max (ws ! (el ! k)) 0"
proof -
  let ?tot = "sum_list (map (\<lambda>i. max (ws ! i) 0) el)"
  have th: "0 < r * ?tot" "r * ?tot \<le> ?tot" using assms by auto
  have "pick_bucket el ws (r * ?tot) 0 \<noteq> None"
    using th(2) assms(2) by (intro pick_bucket_some) auto
  then obtain i where i: "pick_bucket el ws (r * ?tot) 0 = Some i" by blast
  then have "weighted_pick el ws r = i" using total by (simp add: weighted_pick_def Let_def)
  then have "weighted_pick el ws r = el ! k \<longleftrightarrow> pick_bucket el ws (r * ?tot) 0 = Some (el ! k)" using i by simp
  then show ?thesis using pick_bucket_iff [OF assms(1,2) th(1), of ws] assms(2) by (simp add: take_Suc_conv_app_nth)
qed

section \<open>Warm continuations\<close>

lemma release_remembers:
  assumes "tracker_ok t" "i < length (pt_leases t)" "\<not> pl_released (pt_leases t ! i)" "pl_affinity_key (pt_leases t ! i) = Some a"
  shows "dict_get (pt_prefix_hints (prefill_release st t now (Some i) True)) (a, pl_endpoint (pt_leases t ! i)) =
    Some \<lparr>hn_tokens = pl_prompt_tokens (pt_leases t ! i), hn_expires_at = now + pf_hint_ttl st,
          hn_fingerprint = pl_fingerprint (pt_leases t ! i), hn_anchor = pl_anchor (pt_leases t ! i)\<rparr>"
proof -
  have "hints_indexed (t\<lparr>pt_leases := ls\<rparr>)" for ls using assms(1) by (simp add: tracker_ok_def hints_indexed_def)
  then show ?thesis using assms(2-4) by (simp add: prefill_release_def Let_def remembered)
qed

lemma forgotten:
  assumes "hints_indexed t"
  shows "dict_get (pt_prefix_hints (forget_endpoint t e)) (a, e) = None"
proof (cases "a \<in> set (dict_get_or (pt_hint_callers t) e [])")
  case False
  then have "(a, e) \<notin> fst ` set (pt_prefix_hints t)" using assms by (simp add: hints_indexed_def)
  then have "dict_get (pt_prefix_hints t) (a, e) = None" by (simp add: map_of_eq_None_iff)
  then show ?thesis by (simp add: forget_endpoint_def Let_def forget_hints)
qed (simp add: forget_endpoint_def Let_def forget_hints)

lemma fingerprint_continues:
  assumes "(\<exists>d. JObj d \<in> set (take FINGERPRINT_MAX_MESSAGES ms) \<and> jget d ''role'' = JStr ''user'') \<or> FINGERPRINT_MAX_MESSAGES \<le> length ms"
  shows "conversation_fingerprint dumps py_str blake (ms @ ns) tools rf = conversation_fingerprint dumps py_str blake ms tools rf"
  by (simp only: conversation_fingerprint_def opening_continues [OF assms])

lemma anchor_contained:
  assumes "prompt_anchor blake us = Some an" "concat vs = concat us @ rest"
  shows "anchor_holds blake vs an"
  using assms by (auto simp: prompt_anchor_concat anchor_holds_prefix simp del: concat_eq_Nil_conv split: if_splits)

lemma anchor_diverged:
  assumes "prompt_anchor blake us = Some an" "take (length (concat us)) (concat vs) \<noteq> concat us"
    "blake (take (length (concat us)) (concat vs)) = blake (concat us) \<Longrightarrow> take (length (concat us)) (concat vs) = concat us"
  shows "\<not> anchor_holds blake vs an"
  using assms by (auto simp: prompt_anchor_concat anchor_holds_prefix simp del: concat_eq_Nil_conv split: if_splits)



end
