(* ===== verification/Latency_Profile.thy ===== *)
theory Latency_Profile
  imports Prelude
begin

text \<open>
  \<open>routing/routewise/latency.py\<close>: \<open>ProviderProfile\<close>, the moving window of request outcomes of one
  endpoint. Its summaries are answered from running aggregates that are updated as outcomes enter and
  leave a bounded queue. Latencies and clock readings are reals; \<open>float("inf")\<close>, the mean of no
  sample, is \<open>None\<close>. Every reading operation prunes first and so returns the next state as well.

  The lemmas: the aggregates are at every moment what a scan of the retained outcomes gives, and with
  a clock that does not run backwards the retained outcomes are exactly the recent ones.
\<close>

type_synonym request_outcome = "time \<times> real \<times> string option"

record profile =
  pp_window_sec :: time
  pp_max_samples :: nat
  pp_events :: "request_outcome list"
  pp_success_count :: int
  pp_success_sum_ms :: real
  pp_error_count :: int

definition ProviderProfile_init :: "time \<Rightarrow> int \<Rightarrow> profile" where
  "ProviderProfile_init window max_samples =
     \<lparr>pp_window_sec = window, pp_max_samples = nat (max max_samples 1), pp_events = [],
      pp_success_count = 0, pp_success_sum_ms = 0, pp_error_count = 0\<rparr>"

definition add_to_aggregates :: "profile \<Rightarrow> request_outcome \<Rightarrow> profile" where
  "add_to_aggregates p ev =
     (case ev of (_, ttft_ms, error_type) \<Rightarrow>
        if error_type \<noteq> None then p\<lparr>pp_error_count := pp_error_count p + 1\<rparr>
        else if 0 < ttft_ms
             then p\<lparr>pp_success_count := pp_success_count p + 1, pp_success_sum_ms := pp_success_sum_ms p + ttft_ms\<rparr>
             else p)"

definition remove_from_aggregates :: "profile \<Rightarrow> request_outcome \<Rightarrow> profile" where
  "remove_from_aggregates p ev =
     (case ev of (_, ttft_ms, error_type) \<Rightarrow>
        let q = (if error_type \<noteq> None then p\<lparr>pp_error_count := pp_error_count p - 1\<rparr>
                 else if 0 < ttft_ms
                      then p\<lparr>pp_success_count := pp_success_count p - 1, pp_success_sum_ms := pp_success_sum_ms p - ttft_ms\<rparr>
                      else p)
        in if pp_success_count q \<le> 0 then q\<lparr>pp_success_count := 0, pp_success_sum_ms := 0\<rparr> else q)"

definition record_outcome :: "profile \<Rightarrow> time \<Rightarrow> real \<Rightarrow> string option \<Rightarrow> profile" where
  "record_outcome p timestamp ttft_ms error_type =
     (let q = (if length (pp_events p) = pp_max_samples p then remove_from_aggregates p (hd (pp_events p)) else p);
          ev = (timestamp, ttft_ms, error_type)
      in add_to_aggregates (q\<lparr>pp_events := bounded_append (pp_max_samples q) (pp_events q) ev\<rparr>) ev)"

fun prune_from :: "time \<Rightarrow> request_outcome list \<Rightarrow> profile \<Rightarrow> profile" where
  "prune_from cutoff [] p = p\<lparr>pp_events := []\<rparr>"
| "prune_from cutoff (ev # evs) p =
     (if fst ev < cutoff then prune_from cutoff evs (remove_from_aggregates p ev) else p\<lparr>pp_events := ev # evs\<rparr>)"

definition prune :: "profile \<Rightarrow> time \<Rightarrow> profile" where
  "prune p current_time = prune_from (current_time - pp_window_sec p) (pp_events p) p"

definition cdf_at :: "profile \<Rightarrow> real \<Rightarrow> time \<Rightarrow> real \<times> profile" where
  "cdf_at p threshold_sec current_time =
     (let q = prune p current_time
      in if pp_success_count q = 0 then (0, q)
         else
           (let success_within = length (filter (\<lambda>(_, ttft_ms, error_type).
                  error_type = None \<and> 0 < ttft_ms \<and> ttft_ms / 1000 \<le> threshold_sec) (pp_events q));
                f_success = real success_within / pp_success_count q;
                success_rate = 1 - real_of_int (pp_error_count q) / (pp_success_count q + pp_error_count q)
            in (success_rate * f_success, q)))"

definition mean_with_errors_sec :: "profile \<Rightarrow> time \<Rightarrow> real \<Rightarrow> real option \<times> profile" where
  "mean_with_errors_sec p current_time error_penalty_ms =
     (let q = prune p current_time; n = pp_success_count q + pp_error_count q
      in if n = 0 then (None, q)
         else (Some ((pp_success_sum_ms q + real_of_int (pp_error_count q) * error_penalty_ms) / n / 1000), q))"

definition mean_ttft_sec :: "profile \<Rightarrow> time \<Rightarrow> real option \<times> profile" where
  "mean_ttft_sec p current_time =
     (let q = prune p current_time
      in if pp_success_count q = 0 then (None, q)
         else (Some (pp_success_sum_ms q / pp_success_count q / 1000), q))"

definition sample_count :: "profile \<Rightarrow> time \<Rightarrow> int \<times> profile" where
  "sample_count p current_time = (let q = prune p current_time in (pp_success_count q, q))"

definition total_count :: "profile \<Rightarrow> time \<Rightarrow> int \<times> profile" where
  "total_count p current_time = (let q = prune p current_time in (pp_success_count q + pp_error_count q, q))"

definition last_event_time :: "profile \<Rightarrow> time \<Rightarrow> time option \<times> profile" where
  "last_event_time p current_time =
     (let q = prune p current_time in (if pp_events q = [] then None else Some (fst (last (pp_events q))), q))"

section \<open>The aggregates are a scan\<close>

definition timed :: "request_outcome \<Rightarrow> bool" where
  "timed ev \<longleftrightarrow> snd (snd ev) = None \<and> 0 < fst (snd ev)"

definition failed :: "request_outcome \<Rightarrow> bool" where
  "failed ev \<longleftrightarrow> snd (snd ev) \<noteq> None"

definition timed_sum :: "request_outcome list \<Rightarrow> real" where
  "timed_sum evs = sum_list (map (\<lambda>ev. fst (snd ev)) (filter timed evs))"

definition scanned :: "request_outcome list \<Rightarrow> profile \<Rightarrow> bool" where
  "scanned evs p \<longleftrightarrow> pp_success_count p = tally timed evs \<and> pp_success_sum_ms p = timed_sum evs \<and> pp_error_count p = tally failed evs"

lemma timed_sum_simps [simp]:
  "timed_sum [] = 0" "timed_sum (ev # evs) = (if timed ev then fst (snd ev) else 0) + timed_sum evs"
  "timed_sum (evs @ fs) = timed_sum evs + timed_sum fs"
  by (simp_all add: timed_sum_def)

lemma timed_sum_none: "tally timed evs = 0 \<Longrightarrow> timed_sum evs = 0"
  by (simp add: timed_sum_def tally_def)

lemma scanned_same: "scanned evs (p\<lparr>pp_events := es\<rparr>) = scanned evs p"
  by (simp add: scanned_def)

lemma scanned_add: "scanned evs p \<Longrightarrow> scanned (evs @ [ev]) (add_to_aggregates p ev)"
  by (auto simp: scanned_def add_to_aggregates_def timed_def failed_def split: prod.split)

lemma scanned_remove:
  assumes "scanned (ev # evs) p"
  shows "scanned evs (remove_from_aggregates p ev)"
proof -
  have "tally timed evs = 0" if "tally timed evs \<le> 0" using that tally_nonneg [of timed evs] by linarith
  with assms timed_sum_none [of evs] show ?thesis
    by (cases ev) (auto simp: scanned_def remove_from_aggregates_def timed_def failed_def Let_def)
qed

lemma aggregates_keep [simp]:
  "pp_events (add_to_aggregates p ev) = pp_events p" "pp_max_samples (add_to_aggregates p ev) = pp_max_samples p"
  "pp_window_sec (add_to_aggregates p ev) = pp_window_sec p"
  "pp_events (remove_from_aggregates p ev) = pp_events p" "pp_max_samples (remove_from_aggregates p ev) = pp_max_samples p"
  "pp_window_sec (remove_from_aggregates p ev) = pp_window_sec p"
  by (auto simp: add_to_aggregates_def remove_from_aggregates_def Let_def split: prod.split)

lemma prune_from_facts:
  "scanned evs p \<Longrightarrow>
   pp_events (prune_from c evs p) = dropWhile (\<lambda>ev. fst ev < c) evs \<and>
   scanned (dropWhile (\<lambda>ev. fst ev < c) evs) (prune_from c evs p) \<and>
   pp_max_samples (prune_from c evs p) = pp_max_samples p \<and> pp_window_sec (prune_from c evs p) = pp_window_sec p"
  by (induction evs arbitrary: p) (auto simp: scanned_same scanned_remove)

definition profile_ok :: "profile \<Rightarrow> bool" where
  "profile_ok p \<longleftrightarrow> scanned (pp_events p) p \<and> 0 < pp_max_samples p \<and> length (pp_events p) \<le> pp_max_samples p"

lemma record_ok:
  assumes "profile_ok p"
  shows "profile_ok (record_outcome p ts ttft err)"
proof (cases "length (pp_events p) = pp_max_samples p")
  case False
  with assms show ?thesis
    by (auto simp: profile_ok_def record_outcome_def Let_def bounded_append_def intro!: scanned_add simp: scanned_same)
next
  case True
  then obtain ev evs where "pp_events p = ev # evs" using assms by (cases "pp_events p") (auto simp: profile_ok_def)
  with True assms show ?thesis
    by (auto simp: profile_ok_def record_outcome_def Let_def bounded_append_def intro!: scanned_add scanned_remove simp: scanned_same)
qed

lemma prune_ok: "profile_ok p \<Longrightarrow> profile_ok (prune p now)"
  using prune_from_facts [of "pp_events p" p "now - pp_window_sec p"]
  by (auto simp: profile_ok_def prune_def intro: order_trans [OF length_dropWhile_le])

section \<open>The window is the recent past\<close>

datatype profile_op = Outcome time real "string option" | Read time

fun op_time :: "profile_op \<Rightarrow> time" where
  "op_time (Outcome ts _ _) = ts"
| "op_time (Read now) = now"

text \<open>Every read changes the state in the same way.\<close>

fun profile_step :: "profile \<Rightarrow> profile_op \<Rightarrow> profile" where
  "profile_step p (Outcome ts ttft err) = record_outcome p ts ttft err"
| "profile_step p (Read now) = prune p now"

fun recorded :: "profile_op list \<Rightarrow> request_outcome list" where
  "recorded [] = []"
| "recorded (Outcome ts ttft err # ops) = (ts, ttft, err) # recorded ops"
| "recorded (Read now # ops) = recorded ops"

lemma recorded_append [simp]: "recorded (xs @ ys) = recorded xs @ recorded ys"
  by (induction xs rule: recorded.induct) auto

lemma recorded_times: "set (map fst (recorded ops)) \<subseteq> set (map op_time ops)"
  by (induction ops rule: recorded.induct) auto

lemma recorded_sorted: "sorted (map op_time ops) \<Longrightarrow> sorted (map fst (recorded ops))"
proof (induction ops rule: recorded.induct)
  case (2 ts ttft err ops)
  then show ?case using recorded_times [of ops] by fastforce
qed auto

definition lastn :: "nat \<Rightarrow> 'a list \<Rightarrow> 'a list" where
  "lastn n xs = drop (length xs - n) xs"

lemma dropWhile_sorted:
  "sorted (map f xs) \<Longrightarrow> dropWhile (\<lambda>x. f x < c) xs = filter (\<lambda>x. c \<le> f x) xs"
  by (induction xs) (auto simp: not_less intro!: filter_True [symmetric])

lemma sorted_lastn: "sorted (map f xs) \<Longrightarrow> sorted (map f (lastn n xs))"
  by (simp add: lastn_def drop_map [symmetric] sorted_wrt_drop)

lemma lastn_append: "0 < n \<Longrightarrow> lastn n (xs @ [x]) = (if length xs < n then xs else tl (lastn n xs)) @ [x]"
  by (auto simp: lastn_def Suc_diff_le drop_Suc tl_drop)

lemma length_lastn: "length (lastn n xs) = min n (length xs)"
  by (auto simp: lastn_def)

text \<open>One more outcome in a window that was cut at \<open>c\<close>.\<close>

lemma window_append:
  assumes "sorted (map fst h)" "0 < n" "c \<le> fst ev"
  shows "bounded_append n (filter (\<lambda>e. c \<le> fst e) (lastn n h)) ev = filter (\<lambda>e. c \<le> fst e) (lastn n (h @ [ev]))"
proof (cases "length h < n")
  case True
  then have "length (filter (\<lambda>e. c \<le> fst e) (lastn n h)) < n"
    by (metis length_filter_le length_lastn min.strict_coboundedI2 not_less order_le_less_trans)
  with True assms show ?thesis by (simp add: bounded_append_def lastn_append) (simp add: lastn_def)
next
  case False
  then obtain x rest where l: "lastn n h = x # rest" "length rest < n"
    using length_lastn [of n h] assms(2) by (cases "lastn n h") auto
  have s: "sorted (map fst (x # rest))" using sorted_lastn [OF assms(1)] l by metis
  show ?thesis
  proof (cases "c \<le> fst x")
    case True
    then have "filter (\<lambda>e. c \<le> fst e) rest = rest" using s by (auto intro!: filter_True)
    moreover have "length (x # rest) = n" using l length_lastn [of n h] False by auto
    ultimately show ?thesis using True False assms l by (auto simp: bounded_append_def lastn_append)
  next
    case old: False
    have "length (filter (\<lambda>e. c \<le> fst e) rest) < n" using l(2) by (meson length_filter_le order_le_less_trans)
    with old False assms l show ?thesis by (auto simp: bounded_append_def lastn_append)
  qed
qed

lemma record_events: "profile_ok p \<Longrightarrow> pp_events (record_outcome p ts ttft err) = bounded_append (pp_max_samples p) (pp_events p) (ts, ttft, err)"
  by (auto simp: record_outcome_def Let_def)

lemma step_keeps_limits [simp]:
  assumes "profile_ok p"
  shows "pp_max_samples (profile_step p x) = pp_max_samples p" "pp_window_sec (profile_step p x) = pp_window_sec p"
  using assms prune_from_facts [of "pp_events p" p] by (cases x; simp add: record_outcome_def prune_def profile_ok_def Let_def)+

interpretation profile_run: kept_invariant profile_step "\<lambda>_. True" profile_ok
proof
  show "profile_ok (profile_step p x)" if "profile_ok p" for p x using that by (cases x) (simp_all add: record_ok prune_ok)
qed

lemma init_ok: "profile_ok (ProviderProfile_init w n)"
  by (simp add: profile_ok_def ProviderProfile_init_def scanned_def)

lemma run_ok: "profile_ok (run profile_step (ProviderProfile_init w n) ops)"
  by (rule profile_run.run_keeps [OF init_ok]) (simp add: list_all_iff)

lemma run_limits:
  "pp_max_samples (run profile_step (ProviderProfile_init w n) ops) = nat (max n 1) \<and>
   pp_window_sec (run profile_step (ProviderProfile_init w n) ops) = w"
proof (induction ops rule: rev_induct)
  case (snoc x ops)
  then show ?case using run_ok by simp
qed (simp add: ProviderProfile_init_def)

lemma window_of_run:
  assumes "sorted (map op_time ops)" "0 \<le> w"
  shows "\<exists>c. (\<forall>now. (\<forall>x \<in> set ops. op_time x \<le> now) \<longrightarrow> c \<le> now - w \<or> ops = []) \<and>
    pp_events (run profile_step (ProviderProfile_init w n) ops) = filter (\<lambda>e. c \<le> fst e) (lastn (nat (max n 1)) (recorded ops))"
  using assms(1)
proof (induction ops rule: rev_induct)
  case Nil
  show ?case by (simp add: ProviderProfile_init_def lastn_def)
next
  case (snoc x ops)
  let ?p = "run profile_step (ProviderProfile_init w n) ops" and ?m = "nat (max n 1)"
  have s: "sorted (map op_time ops)" "\<forall>y \<in> set ops. op_time y \<le> op_time x"
    using snoc.prems by (auto simp: sorted_append)
  obtain c where c: "\<forall>now. (\<forall>y \<in> set ops. op_time y \<le> now) \<longrightarrow> c \<le> now - w \<or> ops = []"
    "pp_events ?p = filter (\<lambda>e. c \<le> fst e) (lastn ?m (recorded ops))" using snoc.IH [OF s(1)] by blast
  define d where "d = (if ops = [] then min c (op_time x - w) else c)"
  have d: "d \<le> op_time x - w" using c(1) s(2) by (auto simp: d_def)
  have ev: "pp_events ?p = filter (\<lambda>e. d \<le> fst e) (lastn ?m (recorded ops))"
    using c(2) by (auto simp: d_def lastn_def)
  have h: "sorted (map fst (recorded ops))" by (rule recorded_sorted [OF s(1)])
  show ?case
  proof (cases x)
    case (Outcome ts ttft err)
    have "pp_events (record_outcome ?p ts ttft err) = bounded_append ?m (pp_events ?p) (ts, ttft, err)"
      using record_events [OF run_ok, of w n ops ts ttft err] run_limits by simp
    also have "\<dots> = filter (\<lambda>e. d \<le> fst e) (lastn ?m (recorded ops @ [(ts, ttft, err)]))"
      unfolding ev using d assms(2) Outcome by (intro window_append h) auto
    finally have "pp_events (run profile_step (ProviderProfile_init w n) (ops @ [x])) = filter (\<lambda>e. d \<le> fst e) (lastn ?m (recorded (ops @ [x])))"
      using Outcome by simp
    then show ?thesis using d by (intro exI [of _ d]) fastforce
  next
    case (Read now)
    have "pp_events (prune ?p now) = dropWhile (\<lambda>e. fst e < now - w) (pp_events ?p)"
      using prune_from_facts [of "pp_events ?p" ?p] run_ok [of w n ops] run_limits by (simp add: prune_def profile_ok_def)
    also have "\<dots> = filter (\<lambda>e. now - w \<le> fst e) (pp_events ?p)"
      unfolding ev by (intro dropWhile_sorted) (metis h sorted_lastn sorted_filter)
    also have "\<dots> = filter (\<lambda>e. now - w \<le> fst e) (lastn ?m (recorded ops))"
      unfolding ev using d Read by (auto intro!: filter_cong)
    finally show ?thesis using Read by (intro exI [of _ "now - w"]) auto
  qed
qed

lemma prune_window:
  assumes "sorted (map op_time ops)" "\<forall>x \<in> set ops. op_time x \<le> now" "0 \<le> w"
  shows "pp_events (prune (run profile_step (ProviderProfile_init w n) ops) now) =
    filter (\<lambda>e. now - w \<le> fst e) (lastn (nat (max n 1)) (recorded ops))"
proof -
  let ?q = "run profile_step (ProviderProfile_init w n) (ops @ [Read now])"
  obtain c where c: "c \<le> now - w" "pp_events ?q = filter (\<lambda>e. c \<le> fst e) (lastn (nat (max n 1)) (recorded ops))"
    using window_of_run [of "ops @ [Read now]" w n] assms by (auto simp: sorted_append)
  have "fst e \<ge> now - w" if "e \<in> set (pp_events ?q)" for e
  proof -
    let ?p = "run profile_step (ProviderProfile_init w n) ops"
    have "pp_events ?q = dropWhile (\<lambda>e. fst e < now - w) (pp_events ?p)"
      using prune_from_facts [of "pp_events ?p" ?p] run_ok [of w n ops] run_limits by (simp add: prune_def profile_ok_def)
    moreover obtain d where "pp_events ?p = filter (\<lambda>e. d \<le> fst e) (lastn (nat (max n 1)) (recorded ops))"
      using window_of_run [OF assms(1,3)] by blast
    moreover have "sorted (map fst (filter (\<lambda>e. d \<le> fst e) (lastn (nat (max n 1)) (recorded ops))))"
      by (intro sorted_filter sorted_lastn recorded_sorted assms(1))
    ultimately show ?thesis using that by (auto simp: dropWhile_sorted)
  qed
  then have "pp_events ?q = filter (\<lambda>e. now - w \<le> fst e) (pp_events ?q)" by (auto intro!: filter_True [symmetric])
  also have "\<dots> = filter (\<lambda>e. now - w \<le> fst e) (lastn (nat (max n 1)) (recorded ops))"
    unfolding c(2) using c(1) by (auto intro!: filter_cong)
  finally show ?thesis by simp
qed

lemma success_within:
  "filter (\<lambda>(_, ttft, err). err = None \<and> 0 < ttft \<and> ttft / 1000 \<le> L) evs = filter (\<lambda>e. fst (snd e) / 1000 \<le> L) (filter timed evs)"
  by (auto simp: timed_def case_prod_unfold intro!: filter_cong)

lemma cdf_share: "0 < s \<Longrightarrow> 0 \<le> e \<Longrightarrow> (1 - e / (s + e)) * (x / s) = x / (s + e)" for s e x :: real
  by (simp add: field_simps)

section \<open>Properties\<close>

text \<open>C15. The constant-time summaries of an endpoint's latency are those of a scan of its recent history.
  For any history of outcomes and reads on a clock that does not run backwards, let \<open>recent\<close> be the
  outcomes among the last \<open>max_samples\<close> that are not older than the window. Then the sample counts,
  the mean, the mean with errors as penalty samples and the newest time are the textbook ones of
  \<open>recent\<close>; and the CDF at \<open>L\<close> is the share, between 0 and 1, of timed successes within \<open>L\<close> among timed
  successes and errors, an error counting as a missed deadline.\<close>

theorem latency_window_exact:
  assumes "sorted (map op_time ops)" "\<forall>x \<in> set ops. op_time x \<le> now" "0 \<le> w"
  shows "let p = run profile_step (ProviderProfile_init w n) ops;
             recent = filter (\<lambda>e. now - w \<le> fst e) (lastn (nat (max n 1)) (recorded ops));
             good = filter timed recent; bad = filter failed recent;
             total_ms = sum_list (map (\<lambda>e. fst (snd e)) good)
         in fst (sample_count p now) = int (length good) \<and>
            fst (total_count p now) = int (length good + length bad) \<and>
            fst (mean_ttft_sec p now) = (if good = [] then None else Some (total_ms / length good / 1000)) \<and>
            fst (mean_with_errors_sec p now pen) =
              (if good = [] \<and> bad = [] then None
               else Some ((total_ms + length bad * pen) / (length good + length bad) / 1000)) \<and>
            fst (cdf_at p L now) =
              (if good = [] then 0
               else length (filter (\<lambda>e. fst (snd e) / 1000 \<le> L) good) / (length good + length bad)) \<and>
            0 \<le> fst (cdf_at p L now) \<and> fst (cdf_at p L now) \<le> 1 \<and>
            fst (last_event_time p now) = (if recent = [] then None else Some (fst (last recent)))"
proof -
  define q where "q = prune (run profile_step (ProviderProfile_init w n) ops) now"
  define recent where "recent = filter (\<lambda>e. now - w \<le> fst e) (lastn (nat (max n 1)) (recorded ops))"
  have ev: "pp_events q = recent" unfolding q_def recent_def by (rule prune_window [OF assms])
  have "profile_ok q" unfolding q_def by (intro prune_ok run_ok)
  then have agg: "pp_success_count q = int (length (filter timed recent))" "pp_error_count q = int (length (filter failed recent))"
    "pp_success_sum_ms q = sum_list (map (\<lambda>e. fst (snd e)) (filter timed recent))"
    by (simp_all add: profile_ok_def scanned_def ev tally_def timed_sum_def)
  have cdf: "fst (cdf_at (run profile_step (ProviderProfile_init w n) ops) L now) =
      (if filter timed recent = [] then 0
       else length (filter (\<lambda>e. fst (snd e) / 1000 \<le> L) (filter timed recent)) / (length (filter timed recent) + length (filter failed recent)))"
    (is "?cdf = ?rhs")
  proof (cases "filter timed recent = []")
    case False
    then show ?thesis
      using cdf_share [of "length (filter timed recent)" "length (filter failed recent)"]
      by (simp add: cdf_at_def q_def [symmetric] Let_def ev agg success_within [simplified])
  qed (simp add: cdf_at_def q_def [symmetric] Let_def agg)
  have "length (filter (\<lambda>e. fst (snd e) / 1000 \<le> L) (filter timed recent)) \<le> length (filter timed recent)" by (rule length_filter_le)
  then have "0 \<le> ?cdf" "?cdf \<le> 1" unfolding cdf by (auto simp: divide_le_eq_1 of_nat_add [symmetric] simp del: of_nat_add)
  moreover have "int (length xs) + int (length ys) = 0 \<longleftrightarrow> xs = [] \<and> ys = []" for xs ys :: "request_outcome list"
    by (cases xs; cases ys) auto
  ultimately show ?thesis
    unfolding Let_def recent_def [symmetric] cdf
    by (simp add: sample_count_def total_count_def mean_ttft_sec_def mean_with_errors_sec_def last_event_time_def q_def [symmetric]
        Let_def agg ev del: filter_filter)
qed

theorem latency_window_exact_witness:
  "let p = run profile_step (ProviderProfile_init 900 2) [Outcome 0 100 None, Outcome 10 300 None, Read 11, Outcome 20 5 (Some ''timeout'')]
   in fst (cdf_at p 1 100) = 1 / 2 \<and> fst (sample_count p 100) = 1"
  using latency_window_exact [of "[Outcome 0 100 None, Outcome 10 300 None, Read 11, Outcome 20 5 (Some ''timeout'')]" 100 900 2 _ 1]
  by (simp add: Let_def lastn_def timed_def failed_def)

end
