(* ===== verification/Cost_Envelope.thy ===== *)
theory Cost_Envelope
  imports Prelude
begin

text \<open>
  \<open>routing/routewise/envelope.py\<close>: the sliding-window estimate of the range \<open>[L, U]\<close> of request costs
  of a pool, with its memoized snapshot. Costs and times are reals. The lock makes each method one
  step.

  The lemmas: an interpolated percentile lies between the samples; a cached answer never hides a pool
  that is calibrated.
\<close>

definition percentile_from_sorted :: "real list \<Rightarrow> real \<Rightarrow> real" where
  "percentile_from_sorted ordered p =
     (if ordered = [] then 0
      else if length ordered = 1 then ordered ! 0
      else
        (let rank = (max 0 (min 100 p) / 100) * (real (length ordered) - 1);
             lower = nat \<lfloor>rank\<rfloor>;
             upper = min (lower + 1) (length ordered - 1);
             frac = rank - real lower
         in ordered ! lower * (1 - frac) + ordered ! upper * frac))"

record cost_envelope =
  ev_lower :: real
  ev_upper :: real
  ev_sample_count :: nat

record estimator =
  ce_lower_percentile :: real
  ce_upper_percentile :: real
  ce_window_sec :: time
  ce_min_samples :: int
  ce_max_samples :: int
  ce_cache_ttl_sec :: time
  ce_samples :: "(string, (time \<times> usd) list) dict"
  ce_cache :: "(string, time \<times> cost_envelope option) dict"

definition CostEnvelopeEstimator_init :: "real \<Rightarrow> real \<Rightarrow> time \<Rightarrow> int \<Rightarrow> int \<Rightarrow> time \<Rightarrow> estimator" where
  "CostEnvelopeEstimator_init lower_percentile upper_percentile window_sec min_samples max_samples cache_ttl_sec =
     \<lparr>ce_lower_percentile = lower_percentile, ce_upper_percentile = upper_percentile, ce_window_sec = window_sec,
      ce_min_samples = min_samples, ce_max_samples = max_samples, ce_cache_ttl_sec = cache_ttl_sec,
      ce_samples = [], ce_cache = []\<rparr>"

definition needed_samples :: "estimator \<Rightarrow> nat" where
  "needed_samples est = nat (max (ce_min_samples est) 1)"

definition window_maxlen :: "estimator \<Rightarrow> nat option" where
  "window_maxlen est =
     (if ce_max_samples est \<le> 0 then None else Some (nat (max (ce_max_samples est) (max (ce_min_samples est) 1))))"

definition prune_samples :: "estimator \<Rightarrow> string \<Rightarrow> time \<Rightarrow> estimator" where
  "prune_samples est pool now =
     (case dict_get (ce_samples est) pool of
        None \<Rightarrow> est
      | Some samples \<Rightarrow>
          if samples = [] then est
          else est\<lparr>ce_samples := dict_set pool (dropWhile (\<lambda>s. fst s < now - ce_window_sec est) samples) (ce_samples est)\<rparr>)"

definition observe :: "estimator \<Rightarrow> string \<Rightarrow> usd \<Rightarrow> time \<Rightarrow> estimator" where
  "observe est pool cost_usd ts =
     (if cost_usd \<le> 0 then est
      else
        (let samples = dict_get_or (ce_samples est) pool [];
             appended = (case window_maxlen est of
                           None \<Rightarrow> samples @ [(ts, cost_usd)]
                         | Some n \<Rightarrow> bounded_append n samples (ts, cost_usd));
             e1 = prune_samples (est\<lparr>ce_samples := dict_set pool appended (ce_samples est)\<rparr>) pool ts
         in case dict_get (ce_cache e1) pool of
              Some (_, None) \<Rightarrow> e1\<lparr>ce_cache := dict_del pool (ce_cache e1)\<rparr>
            | _ \<Rightarrow> e1))"

definition envelope_for :: "estimator \<Rightarrow> usd list \<Rightarrow> cost_envelope option" where
  "envelope_for est values =
     (if length values < needed_samples est then None
      else
        (let ordered = sort values;
             upper = percentile_from_sorted ordered (ce_upper_percentile est)
         in if upper \<le> 0 then None
            else
              (let l = percentile_from_sorted ordered (ce_lower_percentile est);
                   lower = (if l \<le> 0 \<or> upper \<le> l then upper * (1 / 1000) else l)
               in Some \<lparr>ev_lower = lower, ev_upper = upper, ev_sample_count = length ordered\<rparr>)))"

definition pool_samples :: "estimator \<Rightarrow> string \<Rightarrow> (time \<times> usd) list" where
  "pool_samples est pool = dict_get_or (ce_samples est) pool []"

definition cached_answer :: "estimator \<Rightarrow> string \<Rightarrow> time \<Rightarrow> cost_envelope option option" where
  "cached_answer est pool ts =
     (if 0 < ce_cache_ttl_sec est
      then case dict_get (ce_cache est) pool of
             None \<Rightarrow> None
           | Some (at_time, result) \<Rightarrow> if 0 \<le> ts - at_time \<and> ts - at_time < ce_cache_ttl_sec est then Some result else None
      else None)"

definition envelope_snapshot :: "estimator \<Rightarrow> string \<Rightarrow> time \<Rightarrow> cost_envelope option \<times> estimator" where
  "envelope_snapshot est pool ts =
     (case cached_answer est pool ts of
        Some result \<Rightarrow> (result, est)
      | None \<Rightarrow>
          (let e1 = prune_samples est pool ts;
               result = envelope_for e1 (map snd (pool_samples e1 pool))
           in (result, if 0 < ce_cache_ttl_sec est then e1\<lparr>ce_cache := dict_set pool (ts, result) (ce_cache e1)\<rparr> else e1)))"

definition envelope_sample_count :: "estimator \<Rightarrow> string \<Rightarrow> time \<Rightarrow> nat \<times> estimator" where
  "envelope_sample_count est pool ts =
     (let e1 = prune_samples est pool ts in (length (pool_samples e1 pool), e1))"

section \<open>Percentiles\<close>

lemma convex_between: "(a::real) \<le> x \<Longrightarrow> a \<le> y \<Longrightarrow> x \<le> b \<Longrightarrow> y \<le> b \<Longrightarrow> 0 \<le> f \<Longrightarrow> f \<le> 1 \<Longrightarrow> a \<le> x * (1 - f) + y * f \<and> x * (1 - f) + y * f \<le> b"
  using convex_bound_le [of x b y "1 - f" f] convex_bound_le [of "- x" "- a" "- y" "1 - f" f] by (simp add: mult.commute)

text \<open>An interpolated percentile lies between the smallest and the largest sample.\<close>

lemma percentile_between:
  assumes "xs \<noteq> []" "\<And>x. x \<in> set xs \<Longrightarrow> a \<le> x \<and> x \<le> b"
  shows "a \<le> percentile_from_sorted xs p \<and> percentile_from_sorted xs p \<le> b"
proof (cases "length xs = 1")
  case True
  then show ?thesis using assms nth_mem [of 0 xs] by (simp add: percentile_from_sorted_def)
next
  case False
  with assms(1) have n: "1 < length xs" by (metis length_0_conv less_one linorder_neqE_nat)
  define rank where "rank = (max 0 (min 100 p) / 100) * (real (length xs) - 1)"
  have "rank \<le> 1 * (real (length xs) - 1)" unfolding rank_def using n by (intro mult_right_mono) auto
  then have below: "rank < real (length xs)" by simp
  have r0: "0 \<le> rank" using n by (simp add: rank_def)
  have "real (nat \<lfloor>rank\<rfloor>) < real (length xs)" using of_nat_floor [OF r0] below by (rule order_le_less_trans)
  then have lower: "nat \<lfloor>rank\<rfloor> < length xs" by simp
  have frac: "0 \<le> rank - real (nat \<lfloor>rank\<rfloor>)" "rank - real (nat \<lfloor>rank\<rfloor>) \<le> 1" using r0 by linarith+
  have at: "a \<le> xs ! i \<and> xs ! i \<le> b" if "i < length xs" for i using assms(2) that by simp
  have upper: "min (nat \<lfloor>rank\<rfloor> + 1) (length xs - 1) < length xs" using n by simp
  have "percentile_from_sorted xs p = xs ! nat \<lfloor>rank\<rfloor> * (1 - (rank - real (nat \<lfloor>rank\<rfloor>))) +
      xs ! min (nat \<lfloor>rank\<rfloor> + 1) (length xs - 1) * (rank - real (nat \<lfloor>rank\<rfloor>))"
    using False assms(1) unfolding percentile_from_sorted_def Let_def rank_def by simp
  with convex_between [OF _ _ _ _ frac] at [OF lower] at [OF upper] show ?thesis by metis
qed

section \<open>Properties\<close>

datatype envelope_op = EObserve string usd time | ESnapshot string time | ECount string time

fun envelope_step :: "estimator \<Rightarrow> envelope_op \<Rightarrow> estimator" where
  "envelope_step est (EObserve pool c ts) = observe est pool c ts"
| "envelope_step est (ESnapshot pool ts) = snd (envelope_snapshot est pool ts)"
| "envelope_step est (ECount pool ts) = snd (envelope_sample_count est pool ts)"

text \<open>The costs a pool has ever been told of.\<close>

definition told :: "envelope_op list \<Rightarrow> string \<Rightarrow> usd set" where
  "told ops pool = {c. \<exists>ts. EObserve pool c ts \<in> set ops \<and> 0 < c}"

text \<open>A well-formed envelope over a set of costs.\<close>

definition envelope_ok :: "usd set \<Rightarrow> nat \<Rightarrow> cost_envelope \<Rightarrow> bool" where
  "envelope_ok C k s \<longleftrightarrow> 0 < ev_lower s \<and> ev_lower s < ev_upper s \<and> k \<le> ev_sample_count s \<and>
     (\<exists>c \<in> C. \<exists>d \<in> C. c \<le> ev_upper s \<and> ev_upper s \<le> d)"

definition in_window :: "estimator \<Rightarrow> string \<Rightarrow> time \<Rightarrow> (time \<times> usd) list" where
  "in_window est pool ts = dropWhile (\<lambda>s. fst s < ts - ce_window_sec est) (pool_samples est pool)"

definition estimator_ok :: "(string \<Rightarrow> usd set) \<Rightarrow> estimator \<Rightarrow> bool" where
  "estimator_ok C est \<longleftrightarrow>
     (\<forall>pool. set (map snd (pool_samples est pool)) \<subseteq> C pool \<and> (\<forall>c \<in> C pool. 0 < c)) \<and>
     (\<forall>pool ts r. dict_get (ce_cache est) pool = Some (ts, r) \<longrightarrow>
        (case r of Some s \<Rightarrow> envelope_ok (C pool) (needed_samples est) s
         | None \<Rightarrow> length (in_window est pool ts) < needed_samples est))"

lemma prune_pool [simp]: "pool_samples (prune_samples est pool ts) p = (if p = pool then in_window est pool ts else pool_samples est p)"
  by (auto simp: prune_samples_def pool_samples_def in_window_def dict_get_or_def split: option.split)

lemma prune_keeps [simp]:
  "ce_cache (prune_samples est pool ts) = ce_cache est" "needed_samples (prune_samples est pool ts) = needed_samples est"
  "ce_window_sec (prune_samples est pool ts) = ce_window_sec est" "ce_cache_ttl_sec (prune_samples est pool ts) = ce_cache_ttl_sec est"
  "ce_min_samples (prune_samples est pool ts) = ce_min_samples est"
  "ce_upper_percentile (prune_samples est pool ts) = ce_upper_percentile est"
  "ce_lower_percentile (prune_samples est pool ts) = ce_lower_percentile est"
  by (auto simp: prune_samples_def needed_samples_def split: option.split)

lemma prune_envelope [simp]: "envelope_for (prune_samples est pool ts) = envelope_for est"
  by (simp add: envelope_for_def fun_eq_iff Let_def)

lemma dropWhile_twice_le: "length (dropWhile P (dropWhile Q xs)) \<le> length (dropWhile P xs)"
  by (induction xs) (auto intro: le_SucI order_trans [OF length_dropWhile_le] order_trans [OF _ length_dropWhile_le])

lemma dropWhile_mono: "(\<And>x. P x \<Longrightarrow> Q x) \<Longrightarrow> length (dropWhile Q xs) \<le> length (dropWhile P xs)"
  by (induction xs) (auto intro: le_SucI order_trans [OF length_dropWhile_le])

lemma in_window_sub: "set (in_window est pool ts) \<subseteq> set (pool_samples est pool)"
  by (auto simp: in_window_def dest: set_dropWhileD)

lemma in_window_after_prune: "length (in_window (prune_samples est pool ts) p u) \<le> length (in_window est p u)"
  using dropWhile_twice_le [of "\<lambda>s. fst s < u - ce_window_sec est" "\<lambda>s. fst s < ts - ce_window_sec est" "pool_samples est pool"]
  by (simp add: in_window_def [of "prune_samples est pool ts"]) (auto simp: in_window_def)

lemma sort_empty: "sort xs = [] \<longleftrightarrow> xs = []"
  by (metis length_0_conv length_sort)

lemma envelope_for_ok:
  assumes "envelope_for est values = Some s" "set values \<subseteq> C" "\<And>c. c \<in> C \<Longrightarrow> 0 < c"
  shows "envelope_ok C (needed_samples est) s"
proof -
  have n: "needed_samples est \<le> length values" using assms(1) by (auto simp: envelope_for_def split: if_splits)
  then have ne: "values \<noteq> []" by (auto simp: needed_samples_def)
  let ?u = "percentile_from_sorted (sort values) (ce_upper_percentile est)"
  have "Min (set values) \<le> ?u \<and> ?u \<le> Max (set values)" using ne
    by (intro percentile_between) (auto simp: sort_empty)
  moreover have "Min (set values) \<in> C" "Max (set values) \<in> C" using assms(2) ne by (auto dest: Min_in Max_in)
  moreover have "ev_upper s = ?u" "ev_sample_count s = length values" "0 < ev_lower s \<and> ev_lower s < ev_upper s"
    using assms(1) by (auto simp: envelope_for_def Let_def split: if_splits)
  ultimately show ?thesis using n by (auto simp: envelope_ok_def)
qed

lemma envelope_for_None:
  assumes "envelope_for est values = None" "\<And>c. c \<in> set values \<Longrightarrow> 0 < c"
  shows "length values < needed_samples est"
proof (rule ccontr)
  assume n: "\<not> ?thesis"
  then have ne: "values \<noteq> []" by (auto simp: needed_samples_def)
  have "Min (set values) \<le> percentile_from_sorted (sort values) (ce_upper_percentile est)" using ne
    by (intro conjunct1 [OF percentile_between [where b = "Max (set values)"]]) (auto simp: sort_empty)
  moreover have "0 < Min (set values)" using ne assms(2) by simp
  ultimately show False using n assms(1) by (simp add: envelope_for_def Let_def)
qed

lemma cached_ok:
  "estimator_ok C est \<Longrightarrow> dict_get (ce_cache est) pool = Some (ts, Some s) \<Longrightarrow> envelope_ok (C pool) (needed_samples est) s"
  "estimator_ok C est \<Longrightarrow> dict_get (ce_cache est) pool = Some (ts, None) \<Longrightarrow> length (in_window est pool ts) < needed_samples est"
  unfolding estimator_ok_def by force+

lemma estimator_okI:
  assumes "estimator_ok C est" "needed_samples est' = needed_samples est"
    and "\<And>pool. set (map snd (pool_samples est' pool)) \<subseteq> C pool"
    and "\<And>pool ts s. dict_get (ce_cache est') pool = Some (ts, Some s) \<Longrightarrow> dict_get (ce_cache est) pool \<noteq> Some (ts, Some s) \<Longrightarrow>
      envelope_ok (C pool) (needed_samples est) s"
    and "\<And>pool ts. dict_get (ce_cache est') pool = Some (ts, None) \<Longrightarrow> length (in_window est' pool ts) < needed_samples est"
  shows "estimator_ok C est'"
  unfolding estimator_ok_def
proof (intro conjI allI impI)
  show "set (map snd (pool_samples est' pool)) \<subseteq> C pool" for pool by (rule assms(3))
  show "\<forall>c \<in> C pool. 0 < c" for pool using assms(1) by (simp add: estimator_ok_def)
  fix pool ts r assume c: "dict_get (ce_cache est') pool = Some (ts, r)"
  show "case r of Some s \<Rightarrow> envelope_ok (C pool) (needed_samples est') s | None \<Rightarrow> length (in_window est' pool ts) < needed_samples est'"
    using c assms(2,4,5) cached_ok(1) [OF assms(1)] by (cases r) (force simp: assms(2))+
qed

lemma samples_in: "estimator_ok C est \<Longrightarrow> set (map snd (pool_samples est pool)) \<subseteq> C pool"
  by (simp add: estimator_ok_def)

lemma prune_estimator_ok:
  assumes "estimator_ok C est"
  shows "estimator_ok C (prune_samples est pool ts)"
proof (rule estimator_okI [OF assms])
  show "set (map snd (pool_samples (prune_samples est pool ts) p)) \<subseteq> C p" for p
    using samples_in [OF assms, of p] in_window_sub [of est pool ts] by auto
  show "length (in_window (prune_samples est pool ts) p u) < needed_samples est"
    if "dict_get (ce_cache (prune_samples est pool ts)) p = Some (u, None)" for p u
    using that cached_ok(2) [OF assms, of p u] in_window_after_prune [of est pool ts p u] by simp
qed auto

lemma appended_in: "set (case k of None \<Rightarrow> xs @ [x] | Some n \<Rightarrow> bounded_append n xs x) \<subseteq> insert x (set xs)"
  by (cases xs) (auto simp: bounded_append_def split: option.split)

lemma observe_ok:
  assumes ok: "estimator_ok C est" and c: "c \<in> C pool"
  shows "estimator_ok C (observe est pool c ts)"
proof (cases "c \<le> 0")
  case False
  let ?xs = "case window_maxlen est of None \<Rightarrow> pool_samples est pool @ [(ts, c)] | Some n \<Rightarrow> bounded_append n (pool_samples est pool) (ts, c)"
  define e0 where "e0 = est\<lparr>ce_samples := dict_set pool ?xs (ce_samples est)\<rparr>"
  define e1 where "e1 = prune_samples e0 pool ts"
  have pools0: "pool_samples e0 p = (if p = pool then ?xs else pool_samples est p)" for p
    by (simp add: e0_def pool_samples_def dict_get_or_def)
  have obs: "observe est pool c ts = (case dict_get (ce_cache est) pool of Some (_, None) \<Rightarrow> e1\<lparr>ce_cache := dict_del pool (ce_cache est)\<rparr> | _ \<Rightarrow> e1)"
    using False by (auto simp: observe_def e1_def e0_def pool_samples_def Let_def split: option.split)
  then have cache: "dict_get (ce_cache (observe est pool c ts)) p =
      (if p = pool \<and> (\<exists>u. dict_get (ce_cache est) pool = Some (u, None)) then None else dict_get (ce_cache est) p)" for p
    by (auto simp: e1_def e0_def split: option.split)
  have rest: "pool_samples (observe est pool c ts) p = pool_samples e1 p" "needed_samples (observe est pool c ts) = needed_samples est"
    "ce_window_sec (observe est pool c ts) = ce_window_sec est" for p
    unfolding obs by (auto simp: pool_samples_def e1_def e0_def needed_samples_def split: option.split)
  show ?thesis
  proof (rule estimator_okI [OF ok])
    show "set (map snd (pool_samples (observe est pool c ts) p)) \<subseteq> C p" for p
    proof -
      have "set (pool_samples e1 p) \<subseteq> set (pool_samples e0 p)" using in_window_sub [of e0 pool ts] by (auto simp: e1_def)
      moreover have "set (map snd (pool_samples e0 p)) \<subseteq> C p"
      proof (cases "p = pool")
        case True
        have "set (map snd ?xs) \<subseteq> snd ` insert (ts, c) (set (pool_samples est pool))"
          using image_mono [OF appended_in [of "pool_samples est pool" "(ts, c)" "window_maxlen est"], of snd] by simp
        then show ?thesis using samples_in [OF ok, of pool] c True by (auto simp: pools0)
      qed (use samples_in [OF ok, of p] in \<open>simp add: pools0\<close>)
      ultimately show ?thesis by (auto simp: rest)
    qed
    show "length (in_window (observe est pool c ts) p u) < needed_samples est"
      if "dict_get (ce_cache (observe est pool c ts)) p = Some (u, None)" for p u
    proof -
      have p: "p \<noteq> pool" "dict_get (ce_cache est) p = Some (u, None)" using that by (auto simp: cache split: if_splits)
      then have "pool_samples (observe est pool c ts) p = pool_samples est p" by (simp add: rest e1_def pools0)
      then show ?thesis using cached_ok(2) [OF ok p(2)] by (simp add: in_window_def rest)
    qed
  qed (auto simp: rest cache split: if_splits)
qed (use ok in \<open>simp add: observe_def\<close>)

lemma snapshot_fresh_ok:
  assumes "estimator_ok C est"
  shows "case envelope_for est (map snd (in_window est pool ts)) of
      Some s \<Rightarrow> envelope_ok (C pool) (needed_samples est) s
    | None \<Rightarrow> length (in_window est pool ts) < needed_samples est"
proof -
  have sub: "set (map snd (in_window est pool ts)) \<subseteq> C pool" using samples_in [OF assms, of pool] in_window_sub [of est pool ts] by auto
  have pos: "0 < c" if "c \<in> C pool" for c using assms that by (simp add: estimator_ok_def)
  show ?thesis
    using envelope_for_ok [OF _ sub pos] envelope_for_None [of est "map snd (in_window est pool ts)"] sub pos
    by (cases "envelope_for est (map snd (in_window est pool ts))") auto
qed

lemma snapshot_ok:
  assumes ok: "estimator_ok C est"
  shows "estimator_ok C (snd (envelope_snapshot est pool ts))"
proof (cases "cached_answer est pool ts = None \<and> 0 < ce_cache_ttl_sec est")
  case False
  then show ?thesis using ok prune_estimator_ok [OF ok] by (auto simp: envelope_snapshot_def Let_def split: option.split)
next
  case True
  let ?e1 = "prune_samples est pool ts" and ?r = "envelope_for est (map snd (in_window est pool ts))"
  have snap: "snd (envelope_snapshot est pool ts) = ?e1\<lparr>ce_cache := dict_set pool (ts, ?r) (ce_cache est)\<rparr>"
    using True by (simp add: envelope_snapshot_def Let_def)
  have same: "pool_samples (?e1\<lparr>ce_cache := d\<rparr>) p = pool_samples ?e1 p" "in_window (?e1\<lparr>ce_cache := d\<rparr>) p u = in_window ?e1 p u" for d p u
    by (simp_all add: pool_samples_def in_window_def)
  note ok1 = prune_estimator_ok [OF ok, of pool ts]
  show ?thesis unfolding snap
  proof (rule estimator_okI [OF ok1])
    show "set (map snd (pool_samples (?e1\<lparr>ce_cache := dict_set pool (ts, ?r) (ce_cache est)\<rparr>) p)) \<subseteq> C p" for p
      unfolding same by (rule samples_in [OF ok1])
    show "length (in_window (?e1\<lparr>ce_cache := dict_set pool (ts, ?r) (ce_cache est)\<rparr>) p u) < needed_samples ?e1"
      if "dict_get (ce_cache (?e1\<lparr>ce_cache := dict_set pool (ts, ?r) (ce_cache est)\<rparr>)) p = Some (u, None)" for p u
      unfolding same using that snapshot_fresh_ok [OF ok, of pool ts] cached_ok(2) [OF ok1, of p u] in_window_after_prune [of est pool ts p u]
      by (auto split: if_splits)
    show "envelope_ok (C p) (needed_samples ?e1) s"
      if "dict_get (ce_cache (?e1\<lparr>ce_cache := dict_set pool (ts, ?r) (ce_cache est)\<rparr>)) p = Some (u, Some s)"
        "dict_get (ce_cache ?e1) p \<noteq> Some (u, Some s)" for p u s
      using that snapshot_fresh_ok [OF ok, of pool ts] by (auto split: if_splits)
  qed (simp add: needed_samples_def)
qed

definition op_known :: "(string \<Rightarrow> usd set) \<Rightarrow> envelope_op \<Rightarrow> bool" where
  "op_known C x \<longleftrightarrow> (case x of EObserve pool c ts \<Rightarrow> c \<le> 0 \<or> c \<in> C pool | _ \<Rightarrow> True)"

interpretation estimator_run: kept_invariant envelope_step "op_known C" "estimator_ok C" for C
proof
  fix est x assume ok: "estimator_ok C est" "op_known C x"
  show "estimator_ok C (envelope_step est x)"
  proof (cases x)
    case (EObserve pool c ts)
    then have "c \<le> 0 \<or> c \<in> C pool" using ok(2) by (simp add: op_known_def)
    then show ?thesis using EObserve ok(1) observe_ok [OF ok(1), of c pool ts] by (auto simp: observe_def)
  next
    case (ECount pool ts)
    then show ?thesis using prune_estimator_ok [OF ok(1)] by (simp add: envelope_sample_count_def Let_def)
  qed (use ok(1) in \<open>simp add: snapshot_ok\<close>)
qed

lemma estimator_run_ok: "estimator_ok (told ops) (run envelope_step (CostEnvelopeEstimator_init lp up w k n ttl) ops)"
proof (rule estimator_run.run_keeps)
  show "estimator_ok (told ops) (CostEnvelopeEstimator_init lp up w k n ttl)"
    by (simp add: estimator_ok_def CostEnvelopeEstimator_init_def pool_samples_def dict_get_or_def told_def)
  show "list_all (op_known (told ops)) ops"
    by (auto simp: list_all_iff op_known_def told_def split: envelope_op.split)
qed

text \<open>Whatever costs, snapshots and counts a pool has seen, in whatever order of times, an envelope that
  is reported is well formed: \<open>0 < L < U\<close>, with \<open>U\<close> between two costs the pool was really told of and
  at least the required number of samples behind it. And a pool is reported as uncalibrated only if
  its window really holds fewer samples than required: the memoized answer never hides a pool that
  has become calibrated.\<close>

lemma envelope_sound:
  "let est = run envelope_step (CostEnvelopeEstimator_init lp up w k n ttl) ops
   in case fst (envelope_snapshot est pool now) of
        Some s \<Rightarrow> 0 < ev_lower s \<and> ev_lower s < ev_upper s \<and> max k 1 \<le> int (ev_sample_count s) \<and>
                  (\<exists>c d. c \<in> told ops pool \<and> d \<in> told ops pool \<and> c \<le> ev_upper s \<and> ev_upper s \<le> d)
      | None \<Rightarrow> int (fst (envelope_sample_count est pool now)) < max k 1"
proof -
  define est where "est = run envelope_step (CostEnvelopeEstimator_init lp up w k n ttl) ops"
  have ok: "estimator_ok (told ops) est" unfolding est_def by (rule estimator_run_ok)
  have "ce_min_samples (envelope_step e x) = ce_min_samples e" for e x
    by (cases x) (auto simp: observe_def envelope_snapshot_def envelope_sample_count_def prune_samples_def Let_def split: option.splits)
  then have "ce_min_samples (run envelope_step e ops) = ce_min_samples e" for e by (induction ops arbitrary: e) auto
  then have need: "int (needed_samples est) = max k 1" by (simp add: est_def needed_samples_def CostEnvelopeEstimator_init_def max_def)
  have "case fst (envelope_snapshot est pool now) of
      Some s \<Rightarrow> envelope_ok (told ops pool) (needed_samples est) s
    | None \<Rightarrow> length (in_window est pool now) < needed_samples est"
  proof (cases "cached_answer est pool now")
    case None
    then show ?thesis using snapshot_fresh_ok [OF ok] by (simp add: envelope_snapshot_def Let_def)
  next
    case (Some r)
    then obtain u where u: "dict_get (ce_cache est) pool = Some (u, r)" "u \<le> now"
      by (auto simp: cached_answer_def split: if_splits option.splits)
    have "length (in_window est pool now) \<le> length (in_window est pool u)"
      unfolding in_window_def using u(2) by (intro dropWhile_mono) auto
    with u cached_ok [OF ok] Some show ?thesis by (cases r) (force simp: envelope_snapshot_def)+
  qed
  then show ?thesis
    unfolding Let_def est_def [symmetric] using need
    by (auto simp: envelope_ok_def envelope_sample_count_def Let_def split: option.splits)
qed

end
