(* ===== verification/Route_Costs.thy ===== *)
theory Route_Costs
  imports Prelude
begin

text \<open>
  The small pieces of the RouteWise cost layer: the output-length predictor
  (\<open>routing/routewise/predictor.py\<close>), the cost helpers (\<open>effective_cost.py\<close>), the wrapper around the
  selection LP (\<open>lp.py\<close>) and the concurrency gate (\<open>concurrency.py\<close>). The functions of the separate
  \<open>llm_routewise\<close> package are arguments. An infinite cost or latency is \<open>None\<close>.

  The lemmas: every mean is the mean of the matching observations; what the LP wrapper makes of any
  solver's answer; the counts of the gate.
\<close>

section \<open>Output-length predictor\<close>

record mean_state =
  bm_total :: real
  bm_count :: nat

definition bucket_mean :: "mean_state \<Rightarrow> real" where
  "bucket_mean s = (if bm_count s = 0 then 0 else bm_total s / bm_count s)"

definition mean_update :: "mean_state \<Rightarrow> real \<Rightarrow> mean_state" where
  "mean_update s v = (if v \<le> 0 then s else \<lparr>bm_total = bm_total s + v, bm_count = bm_count s + 1\<rparr>)"

definition BucketMeanState_init :: mean_state where
  "BucketMeanState_init = \<lparr>bm_total = 0, bm_count = 0\<rparr>"

datatype prediction_source = FromBucket | FromModel | FromGlobal | FromDefault

record prediction =
  pr_tokens :: real
  pr_source :: prediction_source
  pr_bucket :: nat
  pr_sample_count :: nat

record predictor =
  bp_default_output :: real
  bp_min_bucket_samples :: nat
  bp_min_model_samples :: nat
  bp_min_global_samples :: nat
  bp_bucket_states :: "(string \<times> nat, mean_state) dict"
  bp_model_states :: "(string, mean_state) dict"
  bp_global_state :: mean_state

definition Predictor_init :: "real \<Rightarrow> int \<Rightarrow> int \<Rightarrow> int \<Rightarrow> predictor" where
  "Predictor_init default_output min_bucket min_model min_global =
     \<lparr>bp_default_output = max default_output 1, bp_min_bucket_samples = nat (max min_bucket 1),
      bp_min_model_samples = nat (max min_model 1), bp_min_global_samples = nat (max min_global 1),
      bp_bucket_states = [], bp_model_states = [], bp_global_state = BucketMeanState_init\<rparr>"

text \<open>\<open>int.bit_length\<close>.\<close>

fun bit_length :: "nat \<Rightarrow> nat" where
  "bit_length n = (if n = 0 then 0 else Suc (bit_length (n div 2)))"

declare bit_length.simps [simp del]

definition bucket_for_prompt :: "int \<Rightarrow> nat" where
  "bucket_for_prompt prompt_tokens = bit_length (nat (max prompt_tokens 1)) - 1"

text \<open>The mean to use, its source and its sample count, when the bucket has too few samples and in general.\<close>

definition fallback_mean :: "predictor \<Rightarrow> string \<Rightarrow> real \<times> prediction_source \<times> nat" where
  "fallback_mean bp model_id =
     (let global = (if bp_min_global_samples bp \<le> bm_count (bp_global_state bp)
                    then (bucket_mean (bp_global_state bp), FromGlobal, bm_count (bp_global_state bp))
                    else (bp_default_output bp, FromDefault, 0))
      in case dict_get (bp_model_states bp) model_id of
           Some ms \<Rightarrow> if bp_min_model_samples bp \<le> bm_count ms then (bucket_mean ms, FromModel, bm_count ms) else global
         | None \<Rightarrow> global)"

definition chosen_mean :: "predictor \<Rightarrow> string \<Rightarrow> nat \<Rightarrow> real \<times> prediction_source \<times> nat" where
  "chosen_mean bp model_id bucket =
     (case dict_get (bp_bucket_states bp) (model_id, bucket) of
        Some bs \<Rightarrow> if bp_min_bucket_samples bp \<le> bm_count bs then (bucket_mean bs, FromBucket, bm_count bs) else fallback_mean bp model_id
      | None \<Rightarrow> fallback_mean bp model_id)"

definition predict :: "predictor \<Rightarrow> string \<Rightarrow> int \<Rightarrow> real option \<Rightarrow> prediction" where
  "predict bp model_id prompt_tokens max_tokens =
     (let bucket = bucket_for_prompt prompt_tokens;
          (v, source, n) = chosen_mean bp model_id bucket;
          capped = (case max_tokens of Some cap \<Rightarrow> if 0 < cap then min v cap else v | None \<Rightarrow> v)
      in \<lparr>pr_tokens = max capped 1, pr_source = source, pr_bucket = bucket, pr_sample_count = n\<rparr>)"

text \<open>Without \<open>output_tokens\<close> the first number is the output length and the prompt counts as empty.\<close>

definition predictor_update :: "predictor \<Rightarrow> string \<Rightarrow> int \<Rightarrow> real option \<Rightarrow> predictor" where
  "predictor_update bp model_id prompt_tokens output_tokens =
     (let v = (case output_tokens of None \<Rightarrow> real_of_int prompt_tokens | Some n \<Rightarrow> n);
          prompt = (case output_tokens of None \<Rightarrow> 0 | Some _ \<Rightarrow> prompt_tokens)
      in if v \<le> 0 then bp
         else
           (let key = (model_id, bucket_for_prompt prompt)
            in bp\<lparr>bp_bucket_states := dict_set key
                    (mean_update (dict_get_or (bp_bucket_states bp) key BucketMeanState_init) v) (bp_bucket_states bp),
                  bp_model_states := dict_set model_id
                    (mean_update (dict_get_or (bp_model_states bp) model_id BucketMeanState_init) v) (bp_model_states bp),
                  bp_global_state := mean_update (bp_global_state bp) v\<rparr>))"

section \<open>Costs\<close>

definition api_request_cost_usd :: "real \<Rightarrow> real \<Rightarrow> real \<Rightarrow> real \<Rightarrow> real" where
  "api_request_cost_usd prompt_tokens predicted_output_tokens input_price_per_m output_price_per_m =
     (input_price_per_m * max prompt_tokens 0 + output_price_per_m * max predicted_output_tokens 0) / 1000000"

text \<open>\<open>math.isclose\<close> with its default tolerance.\<close>

definition isclose :: "real \<Rightarrow> real \<Rightarrow> bool" where
  "isclose a b \<longleftrightarrow> \<bar>a - b\<bar> \<le> (1 / 10 ^ 9) * max \<bar>a\<bar> \<bar>b\<bar>"

definition quota_shadow_price_usd :: "(real \<Rightarrow> real \<Rightarrow> real \<Rightarrow> real) \<Rightarrow> real \<Rightarrow> real \<Rightarrow> real \<Rightarrow> real" where
  "quota_shadow_price_usd quota_effective_cost used_fraction lower upper =
     (let l = max lower (1 / 10 ^ 12); u = max upper l
      in if isclose u l then l else quota_effective_cost used_fraction l u)"

section \<open>The selection LP\<close>

record lp_candidate =
  lc_endpoint_id :: string
  lc_cost_usd :: "real option"
  lc_mean_ttft_sec :: "real option"

datatype lp_status = NoFeasible | SingleProvider | CheapestFallback | Optimal

record lp_solution =
  ls_weights :: "(string, real) dict"
  ls_budget_usd :: real
  ls_status :: lp_status

text \<open>A candidate with finite, non-negative numbers.\<close>

fun finite_candidate :: "lp_candidate \<Rightarrow> (string \<times> real \<times> real) option" where
  "finite_candidate c =
     (case (lc_cost_usd c, lc_mean_ttft_sec c) of
        (Some cost, Some ttft) \<Rightarrow> if 0 \<le> cost \<and> 0 \<le> ttft then Some (lc_endpoint_id c, cost, ttft) else None
      | _ \<Rightarrow> None)"

text \<open>\<open>min(xs, key = (cost, ttft))\<close>: the first of the smallest.\<close>

fun cheapest :: "(string \<times> real \<times> real) \<Rightarrow> (string \<times> real \<times> real) list \<Rightarrow> string \<times> real \<times> real" where
  "cheapest best [] = best"
| "cheapest best (c # cs) = (if snd c < snd best then cheapest c cs else cheapest best cs)"

type_synonym lp_solver = "(string \<times> real \<times> real) list \<Rightarrow> real \<Rightarrow> bool \<times> (string, real) dict"

definition solve_cost_budgeted_mean_ttft ::
  "(real list \<Rightarrow> real list \<Rightarrow> real list) \<Rightarrow> lp_solver \<Rightarrow> lp_candidate list \<Rightarrow> real \<Rightarrow> lp_solution" where
  "solve_cost_budgeted_mean_ttft cost_tiebroken_objective solve_budget_lp candidates alpha_given =
     (case List.map_filter finite_candidate candidates of
        [] \<Rightarrow> \<lparr>ls_weights = [], ls_budget_usd = 0, ls_status = NoFeasible\<rparr>
      | c # cs \<Rightarrow>
          (let fin = c # cs;
               alpha = max 0 (min alpha_given 1);
               costs = map (\<lambda>(_, cost, _). cost) fin;
               c_min = min_list costs;
               c_max = Max (set costs);
               budget = c_min + alpha * (c_max - c_min)
           in if cs = [] then \<lparr>ls_weights = [(fst c, 1)], ls_budget_usd = budget, ls_status = SingleProvider\<rparr>
              else
                (let objective = cost_tiebroken_objective (map (\<lambda>(_, _, ttft). ttft * 1000) fin) costs;
                     (feasible, weights) =
                       solve_budget_lp (map (\<lambda>i. (fst (fin ! i), objective ! i, costs ! i)) [0..<length fin]) budget
                 in if \<not> feasible \<or> weights = []
                    then \<lparr>ls_weights = [(fst (cheapest c cs), 1)], ls_budget_usd = budget, ls_status = CheapestFallback\<rparr>
                    else \<lparr>ls_weights = weights, ls_budget_usd = budget, ls_status = Optimal\<rparr>)))"

section \<open>The concurrency gate\<close>

record gate_slots =
  cg_limit :: int
  cg_active :: int
  cg_total_acquired :: int
  cg_total_rejected :: int
  cg_peak_active :: int

text \<open>\<open>None\<close> is the \<open>ValueError\<close> of a limit below one.\<close>

definition ConcurrencyManager_init :: "int \<Rightarrow> gate_slots option" where
  "ConcurrencyManager_init limit_given =
     (if limit_given < 1 then None
      else Some \<lparr>cg_limit = limit_given, cg_active = 0, cg_total_acquired = 0, cg_total_rejected = 0, cg_peak_active = 0\<rparr>)"

definition available :: "gate_slots \<Rightarrow> int" where
  "available g = max 0 (cg_limit g - cg_active g)"

definition gate_try_acquire :: "gate_slots \<Rightarrow> bool \<times> gate_slots" where
  "gate_try_acquire g =
     (if cg_active g < cg_limit g
      then (True, g\<lparr>cg_active := cg_active g + 1, cg_peak_active := max (cg_peak_active g) (cg_active g + 1),
                    cg_total_acquired := cg_total_acquired g + 1\<rparr>)
      else (False, g\<lparr>cg_total_rejected := cg_total_rejected g + 1\<rparr>))"

definition update_limit :: "gate_slots \<Rightarrow> int \<Rightarrow> gate_slots option" where
  "update_limit g limit_given = (if limit_given < 1 then None else Some (g\<lparr>cg_limit := limit_given\<rparr>))"

definition gate_release_slot :: "gate_slots \<Rightarrow> gate_slots" where
  "gate_release_slot g = (if 0 < cg_active g then g\<lparr>cg_active := cg_active g - 1\<rparr> else g)"

definition gate_stats :: "gate_slots \<Rightarrow> (string \<times> int) list" where
  "gate_stats g = [(''limit'', cg_limit g), (''active'', cg_active g), (''available'', available g),
     (''total_acquired'', cg_total_acquired g), (''total_rejected'', cg_total_rejected g), (''peak_active'', cg_peak_active g)]"

section \<open>The means\<close>

lemma bit_length_bounds: "0 < n \<Longrightarrow> 2 ^ (bit_length n - 1) \<le> n \<and> n < 2 ^ bit_length n"
proof (induction n rule: bit_length.induct)
  case (1 n)
  show ?case
  proof (cases "n = 1")
    case True
    then show ?thesis by (simp add: bit_length.simps)
  next
    case False
    then have h: "0 < n div 2" using 1(2) by auto
    with 1 have ih: "2 ^ (bit_length (n div 2) - 1) \<le> n div 2" "n div 2 < 2 ^ bit_length (n div 2)" by auto
    have len: "bit_length n = Suc (bit_length (n div 2))" using 1(2) bit_length.simps [of n] by simp
    have "0 < bit_length (n div 2)" using h bit_length.simps [of "n div 2"] by simp
    then have double: "(2::nat) ^ bit_length (n div 2) = 2 * 2 ^ (bit_length (n div 2) - 1)" by (cases "bit_length (n div 2)") simp_all
    have "2 * 2 ^ (bit_length (n div 2) - 1) \<le> n" using ih(1) by linarith
    moreover have "n < 2 * 2 ^ bit_length (n div 2)" using ih(2) by linarith
    ultimately show ?thesis unfolding len by (simp only: double diff_Suc_1 power_Suc)
  qed
qed

text \<open>What an update tells the predictor: nothing, or a model, a bucket and a length.\<close>

type_synonym observation = "string \<times> nat \<times> real"

fun observation_of :: "string \<times> int \<times> real option \<Rightarrow> observation option" where
  "observation_of (m, p, None) = (if 0 < p then Some (m, bucket_for_prompt 0, real_of_int p) else None)"
| "observation_of (m, p, Some v) = (if 0 < v then Some (m, bucket_for_prompt p, v) else None)"

definition predictor_step :: "predictor \<Rightarrow> string \<times> int \<times> real option \<Rightarrow> predictor" where
  "predictor_step bp u = (case u of (m, p, v) \<Rightarrow> predictor_update bp m p v)"

definition mean_of :: "real list \<Rightarrow> mean_state" where
  "mean_of vs = \<lparr>bm_total = sum_list vs, bm_count = length vs\<rparr>"

definition values_where :: "(string \<Rightarrow> nat \<Rightarrow> bool) \<Rightarrow> (string \<times> int \<times> real option) list \<Rightarrow> real list" where
  "values_where P us = map (\<lambda>(_, _, v). v) (filter (\<lambda>(m, b, _). P m b) (List.map_filter observation_of us))"

definition entry_of :: "real list \<Rightarrow> mean_state option" where
  "entry_of vs = (if vs = [] then None else Some (mean_of vs))"

lemma values_where_snoc:
  "values_where P (us @ [u]) = values_where P us @ (case observation_of u of None \<Rightarrow> [] | Some (m, b, v) \<Rightarrow> if P m b then [v] else [])"
  by (auto simp: values_where_def map_filter_def split: option.split)

lemma mean_of_snoc: "0 < v \<Longrightarrow> mean_update (mean_of vs) v = mean_of (vs @ [v])"
  by (simp add: mean_update_def mean_of_def)

lemma entry_snoc: "0 < v \<Longrightarrow> mean_update (case entry_of vs of None \<Rightarrow> BucketMeanState_init | Some s \<Rightarrow> s) v = mean_of (vs @ [v])"
  by (simp add: entry_of_def mean_update_def mean_of_def BucketMeanState_init_def)

definition history_ok :: "(string \<times> int \<times> real option) list \<Rightarrow> predictor \<Rightarrow> bool" where
  "history_ok us bp \<longleftrightarrow>
     (\<forall>m b. dict_get (bp_bucket_states bp) (m, b) = entry_of (values_where (\<lambda>m' b'. m' = m \<and> b' = b) us)) \<and>
     (\<forall>m. dict_get (bp_model_states bp) m = entry_of (values_where (\<lambda>m' _. m' = m) us)) \<and>
     bp_global_state bp = mean_of (values_where (\<lambda>_ _. True) us)"

lemma observation_update:
  "predictor_step bp u =
     (case observation_of u of
        None \<Rightarrow> bp
      | Some (m, b, v) \<Rightarrow>
          bp\<lparr>bp_bucket_states := dict_set (m, b) (mean_update (dict_get_or (bp_bucket_states bp) (m, b) BucketMeanState_init) v) (bp_bucket_states bp),
             bp_model_states := dict_set m (mean_update (dict_get_or (bp_model_states bp) m BucketMeanState_init) v) (bp_model_states bp),
             bp_global_state := mean_update (bp_global_state bp) v\<rparr>)"
  by (cases u rule: observation_of.cases) (auto simp: predictor_step_def predictor_update_def Let_def)

lemma observation_pos: "observation_of u = Some (m, b, v) \<Longrightarrow> 0 < v"
  by (cases u rule: observation_of.cases) (auto split: if_splits)

lemma history_step:
  assumes "history_ok us bp"
  shows "history_ok (us @ [u]) (predictor_step bp u)"
proof (cases "observation_of u")
  case None
  with assms show ?thesis by (simp add: observation_update history_ok_def values_where_snoc)
next
  case (Some ob)
  obtain m b v where ob: "observation_of u = Some (m, b, v)" using Some by (cases ob) auto
  note pos = observation_pos [OF ob]
  show ?thesis using assms
    by (simp add: history_ok_def observation_update ob values_where_snoc dict_get_or_def entry_snoc [OF pos] mean_of_snoc [OF pos])
      (simp add: entry_of_def)
qed

lemma predictor_step_keeps [simp]:
  "bp_min_bucket_samples (predictor_step bp u) = bp_min_bucket_samples bp" "bp_min_model_samples (predictor_step bp u) = bp_min_model_samples bp"
  "bp_min_global_samples (predictor_step bp u) = bp_min_global_samples bp" "bp_default_output (predictor_step bp u) = bp_default_output bp"
  by (auto simp: observation_update split: option.split)

lemma history_run:
  "history_ok us (run predictor_step (Predictor_init d kb km kg) us) \<and>
   bp_min_bucket_samples (run predictor_step (Predictor_init d kb km kg) us) = nat (max kb 1) \<and>
   bp_min_model_samples (run predictor_step (Predictor_init d kb km kg) us) = nat (max km 1) \<and>
   bp_min_global_samples (run predictor_step (Predictor_init d kb km kg) us) = nat (max kg 1) \<and>
   bp_default_output (run predictor_step (Predictor_init d kb km kg) us) = max d 1"
proof (induction us rule: rev_induct)
  case Nil
  show ?case
    by (simp add: history_ok_def Predictor_init_def values_where_def map_filter_def entry_of_def mean_of_def BucketMeanState_init_def)
next
  case (snoc u us)
  then show ?case using history_step by simp
qed

lemma enough_entry:
  "(case entry_of vs of Some s \<Rightarrow> if max k 1 \<le> int (bm_count s) then f s else g | None \<Rightarrow> g) =
   (if max k 1 \<le> int (length vs) then f (mean_of vs) else g)"
  by (auto simp: entry_of_def mean_of_def nat_le_iff)

section \<open>Properties\<close>

text \<open>A prediction is the mean of what was observed. After any sequence of updates the length predicted
  for a model and a prompt is the mean of all positive lengths observed for that model on prompts of
  the same power-of-two size if there were enough of them, else of all observed for that model, else
  of all observed at all, else the default; a positive cap of the request lowers it, it is never
  below one token, and the reported source and sample count are those of the mean that was used.\<close>

lemma predictor_means:
  "let bp = run predictor_step (Predictor_init d kb km kg) us;
       same_bucket = values_where (\<lambda>m b. m = model \<and> b = bucket_for_prompt p) us;
       same_model = values_where (\<lambda>m _. m = model) us;
       everything = values_where (\<lambda>_ _. True) us;
       (v, source, n) =
         (if max kb 1 \<le> int (length same_bucket) then (sum_list same_bucket / length same_bucket, FromBucket, length same_bucket)
          else if max km 1 \<le> int (length same_model) then (sum_list same_model / length same_model, FromModel, length same_model)
          else if max kg 1 \<le> int (length everything) then (sum_list everything / length everything, FromGlobal, length everything)
          else (max d 1, FromDefault, 0))
   in predict bp model p cap =
        \<lparr>pr_tokens = max 1 (case cap of Some c \<Rightarrow> if 0 < c then min v c else v | None \<Rightarrow> v), pr_source = source,
         pr_bucket = bucket_for_prompt p, pr_sample_count = n\<rparr> \<and>
      2 ^ bucket_for_prompt p \<le> max p 1 \<and> max p 1 < 2 ^ Suc (bucket_for_prompt p)"
proof -
  define bp where "bp = run predictor_step (Predictor_init d kb km kg) us"
  have h: "history_ok us bp" "bp_min_bucket_samples bp = nat (max kb 1)" "bp_min_model_samples bp = nat (max km 1)"
    "bp_min_global_samples bp = nat (max kg 1)" "bp_default_output bp = max d 1"
    unfolding bp_def using history_run by auto
  have mean: "bucket_mean (mean_of vs) = sum_list vs / length vs" if "max k 1 \<le> int (length vs)" for vs k
    using that by (auto simp: bucket_mean_def mean_of_def)
  have count: "bm_count (mean_of vs) = length vs" for vs by (simp add: mean_of_def)
  have "0 < nat (max p 1)" by simp
  note bits = bit_length_bounds [OF this]
  moreover have "0 < bit_length (nat (max p 1))" using bit_length.simps [of "nat (max p 1)"] by simp
  ultimately have "2 ^ bucket_for_prompt p \<le> nat (max p 1)" "nat (max p 1) < 2 ^ Suc (bucket_for_prompt p)"
    by (simp_all add: bucket_for_prompt_def)
  then have "2 ^ bucket_for_prompt p \<le> max p 1" "max p 1 < 2 ^ Suc (bucket_for_prompt p)"
    by (simp_all add: le_nat_iff nat_less_iff)
  moreover have "chosen_mean bp model (bucket_for_prompt p) =
      (let same_bucket = values_where (\<lambda>m b. m = model \<and> b = bucket_for_prompt p) us;
           same_model = values_where (\<lambda>m _. m = model) us;
           everything = values_where (\<lambda>_ _. True) us
       in if max kb 1 \<le> int (length same_bucket) then (sum_list same_bucket / length same_bucket, FromBucket, length same_bucket)
          else if max km 1 \<le> int (length same_model) then (sum_list same_model / length same_model, FromModel, length same_model)
          else if max kg 1 \<le> int (length everything) then (sum_list everything / length everything, FromGlobal, length everything)
          else (max d 1, FromDefault, 0))"
    using h(1) unfolding chosen_mean_def fallback_mean_def history_ok_def h(2-5) Let_def
    by (simp only: enough_entry nat_le_iff count mean cong: if_cong)
  ultimately show ?thesis
    unfolding Let_def bp_def [symmetric] predict_def by (simp only: case_prod_unfold max.commute)
qed

text \<open>What the LP wrapper makes of the answer of any solver.\<close>

lemma cheapest_in: "cheapest b cs \<in> set (b # cs)"
  by (induction cs arbitrary: b) auto

lemma cheapest_le: "c \<in> set (b # cs) \<Longrightarrow> snd (cheapest b cs) \<le> snd c"
proof (induction cs arbitrary: b c)
  case (Cons d cs)
  show ?case
  proof (cases "snd d < snd b")
    case True
    then show ?thesis using Cons.IH [of d d] Cons.IH [of c d] Cons.prems by auto
  next
    case False
    then show ?thesis using Cons.IH [of b b] Cons.IH [of c b] Cons.prems by auto
  qed
qed simp

lemma convex_budget:
  assumes "0 \<le> a" "a \<le> 1" "(lo::real) \<le> hi"
  shows "lo \<le> lo + a * (hi - lo) \<and> lo + a * (hi - lo) \<le> hi"
proof -
  have "a * (hi - lo) \<le> 1 * (hi - lo)" using assms by (intro mult_right_mono) auto
  with assms show ?thesis by simp
qed

text \<open>The selection LP wrapper is safe against its solver. Suppose the solver, when it claims feasibility
  with a non-empty answer, returns non-negative weights of total one on the names it was given, whose
  expected cost keeps the budget. Then for any candidates with distinct endpoints the wrapper's
  mixture puts non-negative weights of total one on endpoints with finite non-negative cost and
  latency and its expected cost keeps the reported budget, which lies between the cheapest and the
  dearest finite candidate; and the mixture is empty exactly when no candidate is finite.\<close>

lemma lp_mixture_sound:
  fixes solver :: lp_solver
  assumes solver: "\<And>cs budget ws. solver cs budget = (True, ws) \<Longrightarrow> ws \<noteq> [] \<Longrightarrow> distinct (map fst cs) \<Longrightarrow>
      list_all (\<lambda>(x, w). 0 \<le> w \<and> x \<in> set (map fst cs)) ws \<and> sum_list (map snd ws) = 1 \<and>
      sum_list (map (\<lambda>(x, w). w * snd (the (map_of cs x))) ws) \<le> budget"
    and "distinct (map fst (List.map_filter finite_candidate candidates))"
  shows "let fin = List.map_filter finite_candidate candidates;
             sol = solve_cost_budgeted_mean_ttft tiebroken solver candidates alpha;
             cost = (\<lambda>x. fst (the (map_of fin x)))
         in (ls_weights sol = [] \<longleftrightarrow> fin = []) \<and>
            (fin \<noteq> [] \<longrightarrow>
              list_all (\<lambda>(x, w). 0 \<le> w \<and> x \<in> set (map fst fin)) (ls_weights sol) \<and>
              sum_list (map snd (ls_weights sol)) = 1 \<and>
              sum_list (map (\<lambda>(x, w). w * cost x) (ls_weights sol)) \<le> ls_budget_usd sol \<and>
              Min (set (map (\<lambda>(_, c, _). c) fin)) \<le> ls_budget_usd sol \<and>
              ls_budget_usd sol \<le> Max (set (map (\<lambda>(_, c, _). c) fin)))"
proof (cases "List.map_filter finite_candidate candidates")
  case Nil
  then show ?thesis by (simp add: solve_cost_budgeted_mean_ttft_def)
next
  case (Cons c cs)
  define fin where "fin = c # cs"
  define costs where "costs = map (\<lambda>(_, cost, _ :: real). cost) fin"
  define budget where "budget = Min (set costs) + max 0 (min alpha 1) * (Max (set costs) - Min (set costs))"
  define sol where "sol = solve_cost_budgeted_mean_ttft tiebroken solver candidates alpha"
  have fin: "List.map_filter finite_candidate candidates = fin" "costs \<noteq> []" "fin \<noteq> []" using Cons by (simp_all add: fin_def costs_def)
  have dist: "distinct (map fst fin)" using assms(2) fin(1) by simp
  have cost_of: "map_of fin (fst x) = Some (snd x)" if "x \<in> set fin" for x 
    using map_of_is_SomeI [OF dist, of "fst x" "snd x"] that by simp
  have "Min (set costs) \<le> Max (set costs)" using fin(2) by simp
  then have budget: "Min (set costs) \<le> budget" "budget \<le> Max (set costs)"
    unfolding budget_def using convex_budget [of "max 0 (min alpha 1)"] by auto
  have low: "fst (snd x) \<le> budget" if "x \<in> set fin" "\<And>y. y \<in> set fin \<Longrightarrow> fst (snd x) \<le> fst (snd y)" for x
  proof -
    have "Min (set costs) \<in> set costs" using fin(2) by simp
    then obtain y where "y \<in> set fin" "fst (snd y) = Min (set costs)" by (auto simp: costs_def)
    with that budget(1) show ?thesis by fastforce
  qed
  let ?obj = "tiebroken (map (\<lambda>(_, _, ttft). ttft * 1000) fin) costs"
  let ?given = "map (\<lambda>i. (fst (fin ! i), ?obj ! i, costs ! i)) [0..<length fin]"
  have names: "map fst ?given = map fst fin" by (rule nth_equalityI) simp_all
  have given: "snd (the (map_of ?given x)) = fst (the (map_of fin x))" if x: "x \<in> set (map fst fin)" for x
  proof -
    obtain i where i: "i < length fin" "x = fst (fin ! i)" using x unfolding in_set_conv_nth by auto
    have "(x, ?obj ! i, costs ! i) \<in> set ?given" using i by auto
    then have "map_of ?given x = Some (?obj ! i, costs ! i)" using names dist by (intro map_of_is_SomeI) metis+
    moreover have "map_of fin x = Some (snd (fin ! i))" using cost_of [of "fin ! i"] i by simp
    ultimately show ?thesis using i by (simp add: costs_def case_prod_unfold)
  qed
  have "min_list costs = Min (set costs)" using fin(2) by (simp add: min_list_Min)
  then have sol: "sol = (if cs = [] then \<lparr>ls_weights = [(fst c, 1)], ls_budget_usd = budget, ls_status = SingleProvider\<rparr>
      else case solver ?given budget of (feasible, ws) \<Rightarrow>
        if \<not> feasible \<or> ws = [] then \<lparr>ls_weights = [(fst (cheapest c cs), 1)], ls_budget_usd = budget, ls_status = CheapestFallback\<rparr>
        else \<lparr>ls_weights = ws, ls_budget_usd = budget, ls_status = Optimal\<rparr>)"
    unfolding sol_def solve_cost_budgeted_mean_ttft_def Cons list.case Let_def
    unfolding fin_def [symmetric] costs_def [symmetric]
    by (simp only: budget_def)
  then have bud: "ls_budget_usd sol = budget" by (simp add: case_prod_unfold)
  consider (one) x where "x \<in> set fin" "\<And>y. y \<in> set fin \<Longrightarrow> fst (snd x) \<le> fst (snd y)" "ls_weights sol = [(fst x, 1)]"
    | (solved) ws where "solver ?given budget = (True, ws)" "ws \<noteq> []" "ls_weights sol = ws"
  proof (cases "cs = []")
    case True
    then have "ls_weights sol = [(fst c, 1)]" by (simp add: sol)
    then show ?thesis using that(1) [of c] True by (simp add: fin_def)
  next
    case False
    obtain ok ws where r: "solver ?given budget = (ok, ws)" by (cases "solver ?given budget") auto
    have w: "ls_weights sol = (if \<not> ok \<or> ws = [] then [(fst (cheapest c cs), 1)] else ws)" unfolding sol r using False by simp
    have "fst (snd (cheapest c cs)) \<le> fst (snd y)" if "y \<in> set fin" for y
      using cheapest_le [of y c cs] that by (auto simp: fin_def less_eq_prod_def)
    then show ?thesis using that(1) [of "cheapest c cs"] that(2) [of ws] cheapest_in [of c cs] w r by (auto simp: fin_def split: if_splits)
  qed
  then have "ls_weights sol \<noteq> [] \<and> list_all (\<lambda>(x, w). 0 \<le> w \<and> x \<in> set (map fst fin)) (ls_weights sol) \<and>
      sum_list (map snd (ls_weights sol)) = 1 \<and>
      sum_list (map (\<lambda>(x, w). w * fst (the (map_of fin x))) (ls_weights sol)) \<le> budget"
  proof cases
    case one
    then show ?thesis using low [OF one(1,2)] cost_of [OF one(1)] by simp
  next
    case solved
    note s = solver [OF solved(1,2)]
    have sub: "x \<in> set (map fst fin)" if "(x, w) \<in> set ws" for x w
      using s that unfolding names by (auto simp: list_all_iff dist)
    have "map (\<lambda>(x, w). w * snd (the (map_of ?given x))) ws = map (\<lambda>(x, w). w * fst (the (map_of fin x))) ws"
      by (rule map_cong [OF refl]) (auto simp: given [OF sub])
    with s solved(2,3) show ?thesis by (simp only: names dist simp_thms)
  qed
  then show ?thesis
    unfolding Let_def sol_def [symmetric] fin(1) bud costs_def [symmetric] using budget fin(3) by simp
qed

text \<open>A solver that puts everything on the first affordable candidate keeps the contract.\<close>

definition first_affordable :: lp_solver where
  "first_affordable cs budget =
     (case filter (\<lambda>(_, _, c). c \<le> budget) cs of [] \<Rightarrow> (False, []) | (x, _, _) # _ \<Rightarrow> (True, [(x, 1)]))"

lemma first_affordable_contract:
  assumes "first_affordable cs budget = (True, ws)" "distinct (map fst cs)"
  shows "list_all (\<lambda>(x, w). 0 \<le> w \<and> x \<in> set (map fst cs)) ws \<and> sum_list (map snd ws) = 1 \<and>
      sum_list (map (\<lambda>(x, w). w * snd (the (map_of cs x))) ws) \<le> budget"
proof -
  obtain x ob c where xs: "(x, ob, c) \<in> set (filter (\<lambda>(_, _, c). c \<le> budget) cs)" "ws = [(x, 1)]"
    using assms(1) by (cases "filter (\<lambda>(_, _, c). c \<le> budget) cs") (auto simp: first_affordable_def split: prod.splits)
  then have "map_of cs x = Some (ob, c)" using assms(2) by (auto intro: map_of_is_SomeI)
  with xs show ?thesis by (auto simp: rev_image_eqI)
qed

lemma lp_mixture_example:
  "let candidates = [\<lparr>lc_endpoint_id = ''a'', lc_cost_usd = Some 3, lc_mean_ttft_sec = Some 1\<rparr>,
                     \<lparr>lc_endpoint_id = ''b'', lc_cost_usd = None, lc_mean_ttft_sec = Some 1\<rparr>,
                     \<lparr>lc_endpoint_id = ''c'', lc_cost_usd = Some 1, lc_mean_ttft_sec = Some 4\<rparr>];
       sol = solve_cost_budgeted_mean_ttft (\<lambda>ts _. ts) first_affordable candidates (1 / 2)
   in ls_weights sol \<noteq> [] \<and> sum_list (map snd (ls_weights sol)) = 1 \<and> ls_budget_usd sol \<le> 3"
proof -
  define candidates :: "lp_candidate list" where "candidates = [\<lparr>lc_endpoint_id = ''a'', lc_cost_usd = Some 3, lc_mean_ttft_sec = Some 1\<rparr>,
                     \<lparr>lc_endpoint_id = ''b'', lc_cost_usd = None, lc_mean_ttft_sec = Some 1\<rparr>,
                     \<lparr>lc_endpoint_id = ''c'', lc_cost_usd = Some 1, lc_mean_ttft_sec = Some 4\<rparr>]"
  have fin: "List.map_filter finite_candidate candidates = [(''a'', 3, 1), (''c'', 1, 4)]"
    by (simp add: candidates_def map_filter_def)
  have "distinct (map fst (List.map_filter finite_candidate candidates))" by (simp add: fin)
  note * = lp_mixture_sound [of first_affordable candidates "\<lambda>ts _. ts" "1 / 2", OF first_affordable_contract this]
  from * [unfolded Let_def fin] have "ls_weights (solve_cost_budgeted_mean_ttft (\<lambda>ts _. ts) first_affordable candidates (1 / 2)) \<noteq> [] \<and>
      sum_list (map snd (ls_weights (solve_cost_budgeted_mean_ttft (\<lambda>ts _. ts) first_affordable candidates (1 / 2)))) = 1 \<and>
      ls_budget_usd (solve_cost_budgeted_mean_ttft (\<lambda>ts _. ts) first_affordable candidates (1 / 2)) \<le> 3" by simp
  then show ?thesis unfolding Let_def candidates_def .
qed

text \<open>The counters of the gate after any run: as many slots in use as were taken and not given back, and
  a refusal only at the limit.\<close>

datatype gate_op = GTry | GRelease | GLimit int

fun gate_op_step :: "gate_slots \<Rightarrow> gate_op \<Rightarrow> gate_slots" where
  "gate_op_step g GTry = snd (gate_try_acquire g)"
| "gate_op_step g GRelease = gate_release_slot g"
| "gate_op_step g (GLimit n) = (case update_limit g n of None \<Rightarrow> g | Some g' \<Rightarrow> g')"

definition gate_slots_ok :: "gate_slots \<Rightarrow> bool" where
  "gate_slots_ok g \<longleftrightarrow> 1 \<le> cg_limit g \<and> 0 \<le> cg_active g \<and> cg_active g \<le> cg_peak_active g \<and> cg_peak_active g \<le> cg_total_acquired g \<and>
     0 \<le> cg_total_rejected g"

interpretation slots: kept_invariant gate_op_step "\<lambda>_. True" gate_slots_ok
proof
  show "gate_slots_ok (gate_op_step g x)" if "gate_slots_ok g" for g x
    using that by (cases x) (auto simp: gate_slots_ok_def gate_try_acquire_def gate_release_slot_def update_limit_def)
qed

lemma gate_slots_run:
  assumes "ConcurrencyManager_init n = Some g"
  shows "gate_slots_ok (run gate_op_step g xs) \<and> (fst (gate_try_acquire (run gate_op_step g xs)) \<longleftrightarrow> 0 < available (run gate_op_step g xs))"
proof -
  have "gate_slots_ok g" using assms by (auto simp: ConcurrencyManager_init_def gate_slots_ok_def split: if_splits)
  then have "gate_slots_ok (run gate_op_step g xs)" by (rule slots.run_keeps) (simp add: list_all_iff)
  then show ?thesis by (auto simp: gate_try_acquire_def available_def)
qed

end
