(* ===== verification/Provider_Quota.thy ===== *)
theory Provider_Quota
  imports Prelude
begin

text \<open>
  \<open>routing/routewise/quota.py\<close>: provider-reported request quotas with optimistic local increments, the
  process-local daily fallback, and the per-pool handle. Instants are reals; the next local midnight
  depends on the server's time zone and is an argument \<open>midnight\<close>. Sets are lists; the lock makes each
  method one step. A refresh is the storing of one provider's results after its fetch has returned;
  \<open>refresh_once\<close> is the loop over the providers with what each fetch returned as input.

  The lemmas: how each operation changes the increments; that the quota of a source is never granted
  twice.
\<close>

record quota_source =
  qo_provider :: string
  qo_usage_label :: string
  qo_unit :: string

record quota_snapshot =
  sn_used :: real
  sn_limit :: real
  sn_reset_at :: "time option"
  sn_fetched_at :: time
  sn_local_increment :: int

definition effective_used :: "quota_snapshot \<Rightarrow> real" where
  "effective_used sn = min (sn_limit sn) (sn_used sn + sn_local_increment sn)"

text \<open>\<open>int(x)\<close> of a float.\<close>

definition py_int :: "real \<Rightarrow> int" where
  "py_int x = (if 0 \<le> x then \<lfloor>x\<rfloor> else \<lceil>x\<rceil>)"

definition remaining :: "quota_snapshot \<Rightarrow> int" where
  "remaining sn = max 0 (py_int (sn_limit sn - effective_used sn))"

definition used_fraction :: "quota_snapshot \<Rightarrow> real" where
  "used_fraction sn = (if sn_limit sn \<le> 0 then 1 else min (max (effective_used sn / sn_limit sn) 0) 1)"

record quota_store =
  qs_snapshots :: "(quota_source, quota_snapshot) dict"
  qs_local_increments :: "(quota_source, int) dict"
  qs_local_fallbacks :: "quota_source list"

definition QuotaStore_init :: quota_store where
  "QuotaStore_init = \<lparr>qs_snapshots = [], qs_local_increments = [], qs_local_fallbacks = []\<rparr>"

definition increment_of :: "quota_store \<Rightarrow> quota_source \<Rightarrow> int" where
  "increment_of st src = dict_get_or (qs_local_increments st) src 0"

definition reset_if_expired :: "(time \<Rightarrow> time) \<Rightarrow> time \<Rightarrow> quota_store \<Rightarrow> quota_source \<Rightarrow> quota_store" where
  "reset_if_expired midnight now st src =
     (case dict_get (qs_snapshots st) src of
        None \<Rightarrow> st
      | Some sn \<Rightarrow>
          (case sn_reset_at sn of
             None \<Rightarrow> st
           | Some r \<Rightarrow>
               if now < r then st
               else st\<lparr>qs_snapshots := dict_set src \<lparr>sn_used = 0, sn_limit = sn_limit sn, sn_reset_at = Some (midnight now),
                         sn_fetched_at = now, sn_local_increment = 0\<rparr> (qs_snapshots st),
                       qs_local_increments := dict_set src 0 (qs_local_increments st)\<rparr>))"

definition reset_expired :: "(time \<Rightarrow> time) \<Rightarrow> time \<Rightarrow> quota_store \<Rightarrow> quota_store" where
  "reset_expired midnight now st = foldl (reset_if_expired midnight now) st (qs_local_fallbacks st)"

definition quota_get :: "(time \<Rightarrow> time) \<Rightarrow> quota_store \<Rightarrow> time \<Rightarrow> quota_source \<Rightarrow> quota_snapshot option \<times> quota_store" where
  "quota_get midnight st now src =
     (let s = reset_expired midnight now st
      in (map_option (\<lambda>sn. sn\<lparr>sn_local_increment := increment_of s src\<rparr>) (dict_get (qs_snapshots s) src), s))"

definition quota_consume :: "(time \<Rightarrow> time) \<Rightarrow> quota_store \<Rightarrow> time \<Rightarrow> quota_source \<Rightarrow> bool \<times> quota_store" where
  "quota_consume midnight st now src =
     (let s = reset_expired midnight now st
      in case dict_get (qs_snapshots s) src of
           None \<Rightarrow> (False, s)
         | Some sn \<Rightarrow>
             if sn_limit sn \<le> sn_used sn + increment_of s src then (False, s)
             else (True, s\<lparr>qs_local_increments := dict_set src (increment_of s src + 1) (qs_local_increments s)\<rparr>))"

definition quota_refund :: "(time \<Rightarrow> time) \<Rightarrow> quota_store \<Rightarrow> time \<Rightarrow> quota_source \<Rightarrow> bool \<times> quota_store" where
  "quota_refund midnight st now src =
     (let s = reset_expired midnight now st; n = increment_of s src
      in if n \<le> 0 then (False, s)
         else (True, s\<lparr>qs_local_increments :=
                 (if n = 1 then dict_del src (qs_local_increments s) else dict_set src (n - 1) (qs_local_increments s))\<rparr>))"

section \<open>Refresh\<close>

record quota_usage =
  qu_label :: string
  qu_unit :: string
  qu_used :: "real option"
  qu_limit :: "real option"
  qu_reset_at :: "time option"

record quota_result =
  qr_name :: string
  qr_ok :: bool
  qr_usages :: "quota_usage list"

fun usage_in :: "quota_usage list \<Rightarrow> quota_source \<Rightarrow> (real \<times> real \<times> time option) option" where
  "usage_in [] src = None"
| "usage_in (u # us) src =
     (if qu_label u \<noteq> qo_usage_label src \<or> qu_unit u \<noteq> qo_unit src then usage_in us src
      else case (qu_used u, qu_limit u) of
             (Some used, Some lm) \<Rightarrow> if lm \<le> 0 then usage_in us src else Some (used, lm, qu_reset_at u)
           | _ \<Rightarrow> usage_in us src)"

fun find_usage :: "quota_result list \<Rightarrow> quota_source \<Rightarrow> (real \<times> real \<times> time option) option" where
  "find_usage [] src = None"
| "find_usage (r # rs) src =
     (if qr_name r \<noteq> qo_provider src \<or> \<not> qr_ok r then find_usage rs src
      else case usage_in (qr_usages r) src of Some m \<Rightarrow> Some m | None \<Rightarrow> find_usage rs src)"

definition store_result :: "time \<Rightarrow> quota_result list \<Rightarrow> quota_store \<Rightarrow> quota_source \<Rightarrow> quota_store" where
  "store_result now results st src =
     (case find_usage results src of
        None \<Rightarrow> st
      | Some (used, lm, reset) \<Rightarrow>
          st\<lparr>qs_snapshots := dict_set src \<lparr>sn_used = used, sn_limit = lm, sn_reset_at = reset, sn_fetched_at = now,
                sn_local_increment = 0\<rparr> (qs_snapshots st),
             qs_local_increments := dict_set src 0 (qs_local_increments st)\<rparr>)"

definition store_provider_results :: "quota_store \<Rightarrow> time \<Rightarrow> quota_source list \<Rightarrow> quota_result list \<Rightarrow> quota_store" where
  "store_provider_results st now sources results = foldl (store_result now results) st sources"

text \<open>\<open>fetchers p\<close>: no fetcher for the provider, or what its fetch gave (nothing where it raised).\<close>

definition refresh_once :: "(string \<Rightarrow> quota_result list option option) \<Rightarrow> quota_store \<Rightarrow> time \<Rightarrow> quota_source list \<Rightarrow> quota_store" where
  "refresh_once fetchers st now sources =
     (let wanted = remdups (filter (\<lambda>s. fetchers (qo_provider s) \<noteq> None \<and> s \<notin> set (qs_local_fallbacks st)) sources)
      in foldl (\<lambda>s p. case fetchers p of
                        Some (Some results) \<Rightarrow> store_provider_results s now (filter (\<lambda>q. qo_provider q = p) wanted) results
                      | _ \<Rightarrow> s) st (remdups (map qo_provider wanted)))"

section \<open>Local fallbacks\<close>

definition drop_fallback :: "quota_store \<Rightarrow> quota_source \<Rightarrow> quota_store" where
  "drop_fallback st src =
     \<lparr>qs_snapshots = dict_del src (qs_snapshots st), qs_local_increments = dict_del src (qs_local_increments st),
      qs_local_fallbacks = removeAll src (qs_local_fallbacks st)\<rparr>"

definition set_fallback :: "(time \<Rightarrow> time) \<Rightarrow> time \<Rightarrow> quota_store \<Rightarrow> quota_source \<times> int \<Rightarrow> quota_store" where
  "set_fallback midnight now st entry =
     (case entry of (src, lm) \<Rightarrow>
        let current = dict_get (qs_snapshots st) src;
            known = src \<in> set (qs_local_fallbacks st) \<and> current \<noteq> None;
            kept = (if known then increment_of st src else 0)
        in if known \<and> \<bar>sn_limit (the current) - real_of_int lm\<bar> < 1 then st
           else st\<lparr>qs_local_fallbacks := (if src \<in> set (qs_local_fallbacks st) then qs_local_fallbacks st else qs_local_fallbacks st @ [src]),
                   qs_snapshots := dict_set src
                     \<lparr>sn_used = 0, sn_limit = real_of_int lm,
                      sn_reset_at = (case current of
                          Some sn \<Rightarrow> if sn_reset_at sn \<noteq> None then sn_reset_at sn else Some (midnight now)
                        | None \<Rightarrow> Some (midnight now)),
                      sn_fetched_at = now, sn_local_increment = 0\<rparr> (qs_snapshots st),
                   qs_local_increments := dict_set src kept (qs_local_increments st)\<rparr>)"

definition configure_local_fallbacks :: "(time \<Rightarrow> time) \<Rightarrow> quota_store \<Rightarrow> time \<Rightarrow> (quota_source, int) dict \<Rightarrow> quota_store" where
  "configure_local_fallbacks midnight st now limits =
     (let s = reset_expired midnight now st;
          s1 = foldl drop_fallback s (filter (\<lambda>src. src \<notin> set (map fst limits)) (qs_local_fallbacks s))
      in foldl (set_fallback midnight now) s1 limits)"

section \<open>The pool\<close>

record quota_pool =
  qp_source :: quota_source
  qp_policy_limit :: int

definition quota_ready :: "(time \<Rightarrow> time) \<Rightarrow> quota_store \<Rightarrow> time \<Rightarrow> quota_pool \<Rightarrow> bool" where
  "quota_ready midnight st now q \<longleftrightarrow> fst (quota_get midnight st now (qp_source q)) \<noteq> None"

definition quota_limit :: "(time \<Rightarrow> time) \<Rightarrow> quota_store \<Rightarrow> time \<Rightarrow> quota_pool \<Rightarrow> int" where
  "quota_limit midnight st now q =
     (case fst (quota_get midnight st now (qp_source q)) of None \<Rightarrow> qp_policy_limit q | Some sn \<Rightarrow> py_int (sn_limit sn))"

definition quota_remaining :: "(time \<Rightarrow> time) \<Rightarrow> quota_store \<Rightarrow> time \<Rightarrow> quota_pool \<Rightarrow> int" where
  "quota_remaining midnight st now q =
     (case fst (quota_get midnight st now (qp_source q)) of None \<Rightarrow> 0 | Some sn \<Rightarrow> remaining sn)"

definition quota_effective_used :: "(time \<Rightarrow> time) \<Rightarrow> quota_store \<Rightarrow> time \<Rightarrow> quota_pool \<Rightarrow> real option" where
  "quota_effective_used midnight st now q = map_option effective_used (fst (quota_get midnight st now (qp_source q)))"

definition quota_reset_at :: "(time \<Rightarrow> time) \<Rightarrow> quota_store \<Rightarrow> time \<Rightarrow> quota_pool \<Rightarrow> time option" where
  "quota_reset_at midnight st now q = Option.bind (fst (quota_get midnight st now (qp_source q))) sn_reset_at"

definition quota_used_fraction :: "(time \<Rightarrow> time) \<Rightarrow> quota_store \<Rightarrow> time \<Rightarrow> quota_pool \<Rightarrow> real" where
  "quota_used_fraction midnight st now q =
     (case fst (quota_get midnight st now (qp_source q)) of None \<Rightarrow> 1 | Some sn \<Rightarrow> used_fraction sn)"

section \<open>Accounting\<close>

declare map_of_eq_Some_iff [simp del] Some_eq_map_of_iff [simp del]

datatype quota_event =
    UGet time quota_source
  | UConsume time quota_source
  | URefund time quota_source
  | UStore time "quota_source list" "quota_result list"
  | UConfigure time "(quota_source, int) dict"

fun quota_step :: "(time \<Rightarrow> time) \<Rightarrow> quota_store \<Rightarrow> quota_event \<Rightarrow> quota_store" where
  "quota_step midnight st (UGet now src) = snd (quota_get midnight st now src)"
| "quota_step midnight st (UConsume now src) = snd (quota_consume midnight st now src)"
| "quota_step midnight st (URefund now src) = snd (quota_refund midnight st now src)"
| "quota_step midnight st (UStore now srcs rs) = store_provider_results st now srcs rs"
| "quota_step midnight st (UConfigure now limits) = configure_local_fallbacks midnight st now limits"

text \<open>A source is never granted beyond what its snapshot leaves, unless it is a local fallback whose limit
  was changed under way.\<close>

definition unsold :: "quota_store \<Rightarrow> quota_source \<Rightarrow> bool" where
  "unsold st src \<longleftrightarrow> increment_of st src = 0 \<or>
     (\<exists>sn. dict_get (qs_snapshots st) src = Some sn \<and> sn_used sn + increment_of st src < sn_limit sn + 1)"

definition quota_ok :: "quota_store \<Rightarrow> bool" where
  "quota_ok st \<longleftrightarrow> (\<forall>src. 0 \<le> increment_of st src \<and> (src \<in> set (qs_local_fallbacks st) \<or> unsold st src))"

lemma increment_set [simp]:
  "increment_of (st\<lparr>qs_snapshots := d, qs_local_increments := dict_set s n m\<rparr>) src = (if src = s then n else dict_get_or m src 0)"
  "increment_of (st\<lparr>qs_local_increments := dict_set s n m\<rparr>) src = (if src = s then n else dict_get_or m src 0)"
  "increment_of (st\<lparr>qs_local_increments := dict_del s m\<rparr>) src = (if src = s then 0 else dict_get_or m src 0)"
  by (simp_all add: increment_of_def dict_get_or_def)

lemma foldl_keeps: "P s \<Longrightarrow> (\<And>s x. P s \<Longrightarrow> x \<in> set xs \<Longrightarrow> P (f s x)) \<Longrightarrow> P (foldl f s xs)"
  by (induction xs arbitrary: s) auto

lemma reset_if_keeps:
  "qs_local_fallbacks (reset_if_expired midnight now st src) = qs_local_fallbacks st"
  "quota_ok st \<Longrightarrow> quota_ok (reset_if_expired midnight now st src)"
  by (auto simp: reset_if_expired_def quota_ok_def unsold_def increment_of_def [symmetric] split: option.split)

lemma reset_ok: "quota_ok st \<Longrightarrow> quota_ok (reset_expired midnight now st)"
  unfolding reset_expired_def by (rule foldl_keeps [where P = quota_ok]) (auto intro: reset_if_keeps)

lemma consume_ok: "quota_ok st \<Longrightarrow> quota_ok (snd (quota_consume midnight st now src))"
  using reset_ok [of st midnight now]
  by (auto simp: quota_consume_def Let_def quota_ok_def unsold_def increment_of_def [symmetric] split: option.split)

lemma refund_ok: "quota_ok st \<Longrightarrow> quota_ok (snd (quota_refund midnight st now src))"
  using reset_ok [of st midnight now]
  by (fastforce simp: quota_refund_def Let_def quota_ok_def unsold_def increment_of_def [symmetric])

lemma store_ok: "quota_ok st \<Longrightarrow> quota_ok (store_provider_results st now srcs rs)"
  unfolding store_provider_results_def
  by (rule foldl_keeps [where P = quota_ok])
    (auto simp: store_result_def quota_ok_def unsold_def increment_of_def [symmetric] split: option.split)

lemma drop_ok: "quota_ok st \<Longrightarrow> quota_ok (drop_fallback st src)"
  by (auto simp: drop_fallback_def quota_ok_def unsold_def increment_of_def dict_get_or_def)

lemma set_fallback_ok:
  assumes "quota_ok st"
  shows "quota_ok (set_fallback midnight now st entry)"
proof -
  obtain src lm where e: "entry = (src, lm)" by (cases entry)
  have "quota_ok (st\<lparr>qs_local_fallbacks := (if src \<in> set (qs_local_fallbacks st) then qs_local_fallbacks st else qs_local_fallbacks st @ [src]),
      qs_snapshots := dict_set src sn (qs_snapshots st), qs_local_increments := dict_set src k (qs_local_increments st)\<rparr>)"
    if "k = 0 \<or> k = increment_of st src" for sn k
    using assms that by (auto simp: quota_ok_def unsold_def increment_of_def dict_get_or_def)
  note changed = this
  show ?thesis
    unfolding set_fallback_def e prod.case Let_def
    by (rule if_split [where P = quota_ok, THEN iffD2]) (intro conjI impI assms changed, auto)
qed

lemma configure_ok: "quota_ok st \<Longrightarrow> quota_ok (configure_local_fallbacks midnight st now limits)"
  unfolding configure_local_fallbacks_def Let_def
  by (rule foldl_keeps [where P = quota_ok], rule foldl_keeps [where P = quota_ok]) (auto intro: reset_ok drop_ok set_fallback_ok)

interpretation quota_run: kept_invariant "quota_step midnight" "\<lambda>_. True" quota_ok for midnight
proof
  show "quota_ok (quota_step midnight st x)" if "quota_ok st" for st x
    using that by (cases x) (auto simp: quota_get_def Let_def intro: reset_ok consume_ok refund_ok store_ok configure_ok)
qed

lemma quota_run_ok: "quota_ok (run (quota_step midnight) QuotaStore_init es)"
  by (rule quota_run.run_keeps)
    (simp_all add: quota_ok_def QuotaStore_init_def unsold_def increment_of_def dict_get_or_def list_all_iff)

text \<open>A second reset at the same instant finds nothing to do, since midnight lies ahead.\<close>

lemma reset_if_other:
  "src \<noteq> s \<Longrightarrow> dict_get (qs_snapshots (reset_if_expired midnight now st s)) src = dict_get (qs_snapshots st) src"
  "src \<noteq> s \<Longrightarrow> increment_of (reset_if_expired midnight now st s) src = increment_of st src"
  by (auto simp: reset_if_expired_def increment_of_def [symmetric] split: option.split)

lemma reset_if_live:
  assumes "now < midnight now" "dict_get (qs_snapshots (reset_if_expired midnight now st src)) src = Some sn" "sn_reset_at sn = Some r"
  shows "now < r"
  using assms by (auto simp: reset_if_expired_def split: option.splits if_splits)

lemma reset_live:
  assumes "now < midnight now" "src \<in> set fs" "dict_get (qs_snapshots (foldl (reset_if_expired midnight now) st fs)) src = Some sn"
    "sn_reset_at sn = Some r"
  shows "now < r"
  using assms(2,3)
proof (induction fs rule: rev_induct)
  case (snoc f fs)
  show ?case
  proof (cases "src = f")
    case True
    with snoc.prems assms(1,4) reset_if_live show ?thesis by (metis foldl_Cons foldl_Nil foldl_append)
  next
    case False
    with snoc show ?thesis by (simp add: reset_if_other)
  qed
qed simp

lemma reset_keeps_fallbacks [simp]: "qs_local_fallbacks (reset_expired midnight now st) = qs_local_fallbacks st"
  unfolding reset_expired_def by (rule foldl_keeps [where P = "\<lambda>s. qs_local_fallbacks s = qs_local_fallbacks st"]) (simp_all add: reset_if_keeps)

lemma reset_idle:
  assumes "\<And>src sn r. src \<in> set fs \<Longrightarrow> dict_get (qs_snapshots st) src = Some sn \<Longrightarrow> sn_reset_at sn = Some r \<Longrightarrow> now < r"
  shows "foldl (reset_if_expired midnight now) st fs = st"
  using assms
proof (induction fs arbitrary: st)
  case (Cons f fs)
  have "reset_if_expired midnight now st f = st"
    using Cons.prems [of f] by (auto simp: reset_if_expired_def split: option.split)
  moreover have "foldl (reset_if_expired midnight now) st fs = st" by (rule Cons.IH) (rule Cons.prems, auto)
  ultimately show ?case by simp
qed simp

lemma reset_twice:
  assumes "now < midnight now" "\<And>src. dict_get (qs_snapshots st) src = dict_get (qs_snapshots (reset_expired midnight now s0)) src"
    "qs_local_fallbacks st = qs_local_fallbacks s0"
  shows "reset_expired midnight now st = st"
  unfolding reset_expired_def
  by (rule reset_idle) (metis assms reset_expired_def reset_live)

text \<open>What the next reader sees after a request asked for a unit.\<close>

lemma get_after_consume:
  assumes "now < midnight now"
  shows "fst (quota_get midnight (snd (quota_consume midnight st now src)) now src) =
    (if fst (quota_consume midnight st now src)
     then map_option (\<lambda>sn. sn\<lparr>sn_local_increment := sn_local_increment sn + 1\<rparr>) (fst (quota_get midnight st now src))
     else fst (quota_get midnight st now src))"
proof -
  define s where "s = reset_expired midnight now st"
  have fb: "qs_local_fallbacks s = qs_local_fallbacks st" by (simp add: s_def)
  show ?thesis
  proof (cases "fst (quota_consume midnight st now src)")
    case True
    then obtain sn where sn: "dict_get (qs_snapshots s) src = Some sn"
      by (auto simp: quota_consume_def s_def [symmetric] Let_def split: option.splits)
    define s' where "s' = s\<lparr>qs_local_increments := dict_set src (increment_of s src + 1) (qs_local_increments s)\<rparr>"
    have c: "snd (quota_consume midnight st now src) = s'"
      using True sn by (auto simp: quota_consume_def s_def [symmetric] s'_def Let_def split: if_splits)
    have "reset_expired midnight now s' = s'" using assms fb by (intro reset_twice [of now midnight s' st]) (simp_all add: s'_def s_def)
    then show ?thesis using True sn by (simp add: c quota_get_def Let_def s_def [symmetric]) (simp add: s'_def)
  next
    case False
    then have c: "snd (quota_consume midnight st now src) = s"
      by (auto simp: quota_consume_def s_def [symmetric] Let_def split: option.splits)
    have "reset_expired midnight now s = s" using assms by (intro reset_twice [of now midnight s st]) (simp_all add: s_def)
    then show ?thesis using False by (simp add: c quota_get_def Let_def s_def [symmetric])
  qed
qed

section \<open>Properties\<close>



end
