(* ===== verification/Fallback_Order.thy ===== *)
theory Fallback_Order
  imports Endpoint_Health
begin

text \<open>
  \<open>routing/offload.py\<close>: the offload policy of a model, and the order in which one request walks the
  rest of its route after its primary attempt failed. The routes are of any type \<open>'a\<close>; equality is
  the identity of the adapter object. An \<open>UpstreamQueueWaitExpired\<close> is an \<open>UpstreamSaturated\<close>.

  The lemmas: every candidate handed out uses up something, so a walk ends whatever fails; what a walk
  hands out.
\<close>

datatype offload_reason = QUEUE_WAIT | ENGINE_WAIT | LAST_RESORT

record offload_policy =
  op_route_id :: string
  op_wait_seconds :: time
  op_engine_queue_limit :: "int option"
  op_max_input_tokens :: "int option"

text \<open>\<open>None\<close> is the \<open>ValueError\<close> of \<open>__post_init__\<close>. A finite number is a real; other types are not modelled.\<close>

definition OffloadPolicy_init :: "string \<Rightarrow> time \<Rightarrow> int option \<Rightarrow> int option \<Rightarrow> offload_policy option" where
  "OffloadPolicy_init route_id wait_seconds engine_queue_limit max_input_tokens =
     (if py_strip route_id = [] then None
      else if wait_seconds \<le> 0 then None
      else if (case engine_queue_limit of None \<Rightarrow> False | Some n \<Rightarrow> n < 1) then None
      else if (case max_input_tokens of None \<Rightarrow> False | Some n \<Rightarrow> n < 1) then None
      else Some \<lparr>op_route_id = route_id, op_wait_seconds = wait_seconds, op_engine_queue_limit = engine_queue_limit,
                 op_max_input_tokens = max_input_tokens\<rparr>)"

definition takes_input :: "offload_policy \<Rightarrow> int \<Rightarrow> bool" where
  "takes_input pol prompt_tokens = (case op_max_input_tokens pol of None \<Rightarrow> True | Some n \<Rightarrow> prompt_tokens \<le> n)"

definition ended_in_gateway_queue :: "exn \<Rightarrow> bool" where
  "ended_in_gateway_queue e \<longleftrightarrow> ex_class e = UpstreamSaturated_exn \<or> ex_class e = UpstreamQueueWaitExpired_exn"

definition offload_reason_for :: "exn \<Rightarrow> offload_reason option" where
  "offload_reason_for e =
     (if ended_in_gateway_queue e then Some QUEUE_WAIT
      else if ex_class e = EngineWaitExpired_exn then Some ENGINE_WAIT else None)"

definition abandoned_for_offload :: "exn \<Rightarrow> bool" where
  "abandoned_for_offload e \<longleftrightarrow> ex_class e = EngineWaitExpired_exn \<or> ex_class e = UpstreamQueueWaitExpired_exn"

record 'a fallback_order =
  fo_ordinary :: "'a list"
  fo_offload :: "'a option"
  fo_offload_next :: "offload_reason option"
  fo_retries :: "'a list"
  fo_retried :: "'a list"

definition FallbackOrder_init :: "'a list \<Rightarrow> 'a option \<Rightarrow> 'a fallback_order" where
  "FallbackOrder_init ordinary offload =
     \<lparr>fo_ordinary = filter (\<lambda>a. Some a \<noteq> offload) ordinary, fo_offload = offload, fo_offload_next = None,
      fo_retries = [], fo_retried = []\<rparr>"

definition offload_pending :: "'a fallback_order \<Rightarrow> 'a option" where
  "offload_pending o' = fo_offload o'"

definition order_record_failure :: "'a fallback_order \<Rightarrow> exn \<Rightarrow> 'a option \<Rightarrow> 'a fallback_order" where
  "order_record_failure o' e route =
     (let o1 = (case route of
                  Some a \<Rightarrow> if abandoned_for_offload e \<and> a \<notin> set (fo_retried o')
                            then o'\<lparr>fo_retried := a # fo_retried o', fo_retries := fo_retries o' @ [a]\<rparr> else o'
                | None \<Rightarrow> o')
      in if fo_offload o1 = None then o1
         else case offload_reason_for e of Some r \<Rightarrow> o1\<lparr>fo_offload_next := Some r\<rparr> | None \<Rightarrow> o1)"

definition order_next :: "'a fallback_order \<Rightarrow> (('a \<times> offload_reason option) \<times> 'a fallback_order) option" where
  "order_next o' =
     (if fo_offload o' \<noteq> None \<and> (fo_offload_next o' \<noteq> None \<or> fo_ordinary o' = [])
      then Some ((the (fo_offload o'), Some (case fo_offload_next o' of Some r \<Rightarrow> r | None \<Rightarrow> LAST_RESORT)),
                 o'\<lparr>fo_offload := None, fo_offload_next := None\<rparr>)
      else case fo_ordinary o' of
             a # rest \<Rightarrow> Some ((a, None), o'\<lparr>fo_ordinary := rest\<rparr>)
           | [] \<Rightarrow> (case fo_retries o' of
                      a # rest \<Rightarrow> Some ((a, None), o'\<lparr>fo_retries := rest\<rparr>)
                    | [] \<Rightarrow> None))"

section \<open>A walk ends\<close>

text \<open>What is left of a walk: a route still to be tried counts twice, since it may come back once.\<close>

definition left_of_order :: "'a fallback_order \<Rightarrow> nat" where
  "left_of_order o' = 2 * length (fo_ordinary o') + (if fo_offload o' = None then 0 else 2) +
     sum_list (map (\<lambda>a. if a \<in> set (fo_retried o') then 1 else 2) (fo_retries o'))"

lemma retries_weight_le:
  "sum_list (map (\<lambda>a. if a = x \<or> a \<in> R then 1 else 2) zs) \<le> (sum_list (map (\<lambda>a. if a \<in> R then 1 else 2) zs) :: nat)"
  by (induction zs) auto

text \<open>Recording a failure adds at most the retry of that route.\<close>

lemma record_left: "left_of_order (order_record_failure o' e route) \<le> left_of_order o' + 1"
  using retries_weight_le [of "the route" "set (fo_retried o')" "fo_retries o'"]
  by (auto simp: order_record_failure_def left_of_order_def Let_def split: option.split)

lemma record_left_retried:
  "a \<in> set (fo_retried o') \<Longrightarrow> left_of_order (order_record_failure o' e (Some a)) = left_of_order o'"
  by (auto simp: order_record_failure_def left_of_order_def Let_def split: option.split)

lemma next_left:
  assumes "order_next o' = Some ((a, r), o'')"
  shows "left_of_order o'' < left_of_order o'" "left_of_order (order_record_failure o'' e (Some a)) < left_of_order o'"
proof -
  consider (big) "left_of_order o'' + 2 = left_of_order o'" | (small) "a \<in> set (fo_retried o'')" "left_of_order o'' < left_of_order o'"
    using assms by (fastforce simp: order_next_def left_of_order_def split: if_splits list.splits option.splits)
  then show "left_of_order o'' < left_of_order o'" "left_of_order (order_record_failure o'' e (Some a)) < left_of_order o'"
    using record_left [of o'' e "Some a"] record_left_retried [of a o'' e] by (cases; force)+
qed

text \<open>A request that walks its route until nothing is left. What becomes of the \<open>k\<close>-th candidate is an
  input: it is passed over, or it fails with an error.\<close>

function walk :: "(nat \<Rightarrow> 'a \<Rightarrow> exn option) \<Rightarrow> nat \<Rightarrow> 'a fallback_order \<Rightarrow> ('a \<times> offload_reason option) list" where
  "walk f k o' =
     (case order_next o' of
        None \<Rightarrow> []
      | Some ((a, r), o'') \<Rightarrow>
          (a, r) # walk f (Suc k) (case f k a of None \<Rightarrow> o'' | Some e \<Rightarrow> order_record_failure o'' e (Some a)))"
  by auto
termination
  by (relation "measure (\<lambda>(f, k, o'). left_of_order o')") (auto simp: next_left split: option.splits)

declare walk.simps [simp del]

section \<open>What a walk hands out\<close>

lemma record_order [simp]:
  "fo_ordinary (order_record_failure o' e route) = fo_ordinary o'" "fo_offload (order_record_failure o' e route) = fo_offload o'"
  by (auto simp: order_record_failure_def Let_def split: option.split)

definition queued_again :: "'a fallback_order \<Rightarrow> exn \<Rightarrow> 'a \<Rightarrow> bool" where
  "queued_again o' e a \<longleftrightarrow> abandoned_for_offload e \<and> a \<notin> set (fo_retried o')"

lemma record_retries:
  "fo_retries (order_record_failure o' e (Some a)) = fo_retries o' @ (if queued_again o' e a then [a] else [])"
  "fo_retried (order_record_failure o' e (Some a)) = (if queued_again o' e a then [a] else []) @ fo_retried o'"
  by (auto simp: order_record_failure_def queued_again_def Let_def split: option.split)

definition retries_ok :: "'a fallback_order \<Rightarrow> bool" where
  "retries_ok o' \<longleftrightarrow> distinct (fo_retries o') \<and> set (fo_retries o') \<subseteq> set (fo_retried o')"

lemma record_retries_ok: "retries_ok o' \<Longrightarrow> retries_ok (order_record_failure o' e (Some a))"
  by (auto simp: retries_ok_def record_retries queued_again_def)

text \<open>The routes handed out without an offload reason from a state on, and those with one.\<close>

abbreviation plain :: "('a \<times> offload_reason option) list \<Rightarrow> 'a list" where
  "plain w \<equiv> map fst (filter (\<lambda>x. snd x = None) w)"

abbreviation offloaded :: "('a \<times> offload_reason option) list \<Rightarrow> 'a list" where
  "offloaded w \<equiv> map fst (filter (\<lambda>x. snd x \<noteq> None) w)"

definition walk_shape :: "'a fallback_order \<Rightarrow> ('a \<times> offload_reason option) list \<Rightarrow> 'a list \<Rightarrow> bool" where
  "walk_shape o' w rs \<longleftrightarrow>
     plain w = fo_ordinary o' @ rs \<and> distinct rs \<and> set (fo_retries o') \<subseteq> set rs \<and>
     (set rs - set (fo_retries o')) \<inter> set (fo_retried o') = {} \<and>
     set rs \<subseteq> set (fo_retries o') \<union> set (fo_ordinary o') \<union> set_option (fo_offload o') \<and>
     offloaded w = (case fo_offload o' of None \<Rightarrow> [] | Some a \<Rightarrow> [a])"

text \<open>One candidate, whether it comes from the ordinary routes or is the offload route.\<close>

lemma walk_shape_after:
  assumes "walk_shape (case x of None \<Rightarrow> o'' | Some e \<Rightarrow> order_record_failure o'' e (Some a)) w rs"
  shows "distinct rs" "set (fo_retries o'') \<subseteq> set rs" "(set rs - set (fo_retries o'')) \<inter> set (fo_retried o'') = {}"
    "set rs \<subseteq> set (fo_retries o'') \<union> insert a (set (fo_ordinary o'') \<union> set_option (fo_offload o''))"
    "plain w = fo_ordinary o'' @ rs" "offloaded w = (case fo_offload o'' of None \<Rightarrow> [] | Some b \<Rightarrow> [b])"
  using assms by (auto simp: walk_shape_def record_retries queued_again_def split: option.splits if_splits)

lemma walk_has_shape: "retries_ok o' \<Longrightarrow> \<exists>rs. walk_shape o' (walk f k o') rs"
proof (induction f k o' rule: walk.induct)
  case (1 f k o')
  show ?case
  proof (cases "order_next o'")
    case None
    then have "walk_shape o' (walk f k o') []"
      by (subst walk.simps) (auto simp: order_next_def walk_shape_def split: if_splits list.splits option.splits)
    then show ?thesis ..
  next
    case (Some res)
    then obtain a r o'' where n: "order_next o' = Some ((a, r), o'')" by (metis prod.collapse)
    let ?o = "case f k a of None \<Rightarrow> o'' | Some e \<Rightarrow> order_record_failure o'' e (Some a)"
    have w: "walk f k o' = (a, r) # walk f (Suc k) ?o" by (subst walk.simps) (simp add: n)
    have "retries_ok o''"
      using 1(2) n by (auto simp: retries_ok_def order_next_def split: if_splits list.splits option.splits)
    then have "retries_ok ?o" by (simp add: record_retries_ok split: option.split)
    then obtain rs where "walk_shape ?o (walk f (Suc k) ?o) rs" using 1(1) [OF n refl refl] by blast
    note sh = walk_shape_after [OF this]
    consider (offload) "fo_offload o' = Some a" "r \<noteq> None" "o'' = o'\<lparr>fo_offload := None, fo_offload_next := None\<rparr>"
      | (ordinary) rest where "fo_ordinary o' = a # rest" "r = None" "o'' = o'\<lparr>fo_ordinary := rest\<rparr>"
      | (retry) rest where "fo_offload o' = None" "fo_ordinary o' = []" "r = None" "fo_retries o' = a # rest" "o'' = o'\<lparr>fo_retries := rest\<rparr>"
    proof (cases "fo_offload o' \<noteq> None \<and> (fo_offload_next o' \<noteq> None \<or> fo_ordinary o' = [])")
      case True
      then have "a = the (fo_offload o')" "r \<noteq> None" "o'' = o'\<lparr>fo_offload := None, fo_offload_next := None\<rparr>"
        using n unfolding order_next_def by (simp_all only: if_True simp_thms option.inject prod.inject) auto
      with True that(1) show ?thesis by (metis option.collapse)
    next
      case False
      with n that(2,3) show ?thesis unfolding order_next_def by (auto split: list.splits)
    qed
    then show ?thesis
    proof cases
      case offload
      then have "walk_shape o' (walk f k o') rs" using sh unfolding w walk_shape_def by auto
      then show ?thesis ..
    next
      case ordinary
      have "walk_shape o' (walk f k o') rs" using sh ordinary(1,2) unfolding w walk_shape_def ordinary(3) by auto
      then show ?thesis ..
    next
      case retry
      have a: "a \<in> set (fo_retried o')" "a \<notin> set rest" using 1(2) retry(4) by (auto simp: retries_ok_def)
      then have "a \<notin> set rs" using sh(3) unfolding retry(5) by auto
      then have "walk_shape o' (walk f k o') (a # rs)" using sh retry(1-4) a(1) unfolding w walk_shape_def retry(5) by auto
      then show ?thesis ..
    qed
  qed
qed

text \<open>A candidate that waited too long is followed by the offload route, while that is pending.\<close>

lemma offload_follows_wait:
  assumes "fo_offload o' = Some b" "offload_reason_for e = Some r"
  shows "\<exists>w. walk f k (order_record_failure o' e route) = (b, Some r) # w"
  by (subst walk.simps) (use assms in \<open>auto simp: order_next_def order_record_failure_def Let_def split: option.split\<close>)

section \<open>Properties\<close>


end
