(* ===== verification/Route_Errors.thy ===== *)
theory Route_Errors
  imports Fallback_Order Py_Regex
begin

text \<open>
  \<open>routing/endpoints.py\<close>, and the part of \<open>routing/routers.py\<close> that reads the failures of one request:
  the identity of an adapter, whether a failure describes the request, prompts that do not fit a
  context window, when refusals end a fallback, and the error the caller is told about. An adapter is
  a record with the fields of its configuration the router reads; \<open>ra_obj\<close> tells two objects with the
  same configuration apart, so that \<open>=\<close> is \<open>is\<close>. A \<open>frozenset\<close> is a list.

  The lemmas: which attempts are reported, and which of them is surfaced.
\<close>

record route_adapter =
  ra_obj :: nat
  ra_endpoint_id :: "string option"
  ra_provider :: string
  ra_route_id :: "string option"
  ra_input_modalities :: "string list option"
  ra_context_length :: "int option"
  ra_priority_scheduling :: bool

text \<open>The truth of an optional text.\<close>

definition present :: "string option \<Rightarrow> bool" where
  "present v = (case v of None \<Rightarrow> False | Some s \<Rightarrow> s \<noteq> [])"

definition endpoint_id_for_config :: "route_adapter \<Rightarrow> string option" where
  "endpoint_id_for_config a =
     (case ra_endpoint_id a of None \<Rightarrow> None | Some s \<Rightarrow> if py_strip s \<noteq> [] then Some (py_strip s) else None)"

definition endpoint_id_for_adapter :: "route_adapter \<Rightarrow> string" where
  "endpoint_id_for_adapter a = (if present (ra_endpoint_id a) then the (ra_endpoint_id a) else ra_provider a)"

definition route_id_for_adapter :: "route_adapter \<Rightarrow> string" where
  "route_id_for_adapter a = (if present (ra_route_id a) then the (ra_route_id a) else endpoint_id_for_adapter a)"

definition adapter_supports_modalities :: "route_adapter \<Rightarrow> string list \<Rightarrow> bool" where
  "adapter_supports_modalities a required =
     (if required = [] then True
      else set required \<subseteq> set (case ra_input_modalities a of Some (m # ms) \<Rightarrow> m # ms | _ \<Rightarrow> [''text'']))"

definition adapter_in_endpoint_scope :: "route_adapter \<Rightarrow> string list option \<Rightarrow> bool" where
  "adapter_in_endpoint_scope a scope =
     (case scope of None \<Rightarrow> True | Some sc \<Rightarrow> endpoint_id_for_adapter a \<in> set sc \<or> ra_provider a \<in> set sc)"

section \<open>What a failure says\<close>

text \<open>A block of \<open>_routing\<close> metadata, where every key is optional and \<open>setdefault\<close> keeps what is there.
  Of a failed attempt it keeps the endpoint and the status; prices and addresses are left out.\<close>

record routing_block =
  rb_provider :: "string option"
  rb_endpoint_id :: "string option"
  rb_fallback :: "bool option"
  rb_failed_attempts :: "(string \<times> int option) list option"
  rb_offload :: "offload_reason option"
  rb_offload_endpoint_id :: "string option"

definition no_routing :: routing_block where
  "no_routing = \<lparr>rb_provider = None, rb_endpoint_id = None, rb_fallback = None, rb_failed_attempts = None,
     rb_offload = None, rb_offload_endpoint_id = None\<rparr>"

definition setdefault :: "'a option \<Rightarrow> 'a \<Rightarrow> 'a option" where
  "setdefault v d = (case v of None \<Rightarrow> Some d | Some x \<Rightarrow> Some x)"

text \<open>An error of an attempt: what the health of the endpoint reads of it, the body of the failed response
  and the message, and the block a nested router attached.\<close>

record route_error =
  re_exn :: exn
  re_error_body :: "string option"
  re_message :: string
  re_routing :: "routing_block option"

definition REQUEST_DESCRIBING_STATUSES :: "int list" where
  "REQUEST_DESCRIBING_STATUSES = [400, 404, 413, 422]"

definition describes_request :: "route_error \<Rightarrow> bool" where
  "describes_request e = (case http_status_of (re_exn e) of None \<Rightarrow> False | Some s \<Rightarrow> s \<in> set REQUEST_DESCRIBING_STATUSES)"

text \<open>\<open>.{0,n}\<close>: up to \<open>n\<close> characters that are not a newline, as many as possible first.\<close>

fun any_upto :: "nat \<Rightarrow> regex" where
  "any_upto 0 = Maybe (Cls (\<lambda>_. False))"
| "any_upto (Suc n) = Maybe (Cat (Cls (\<lambda>c. c \<noteq> CHR 0x0A)) (any_upto n))"

definition CONTEXT_WINDOW_REFUSAL_RE :: regex where
  "CONTEXT_WINDOW_REFUSAL_RE =
     Or (lit ''context length'') (Or (lit ''context window'') (Or (lit ''context_length_exceeded'')
     (Or (seq [lit ''maximum '', Or (lit ''model'') (lit ''prompt''), lit '' length'']) (Or (lit ''prompt is too long'')
     (Or (seq [lit ''input token count'', Boundary, any_upto 40, Boundary, lit ''exceeds''])
         (lit ''model token limit''))))))"

definition exceeds_context_window :: "route_error \<Rightarrow> bool" where
  "exceeds_context_window e =
     (if \<not> describes_request e then False
      else list_ex (\<lambda>t. re_search CONTEXT_WINDOW_REFUSAL_RE t \<noteq> None)
             (case re_error_body e of Some body \<Rightarrow> [body, re_message e] | None \<Rightarrow> [re_message e]))"

definition configured_context_window :: "route_adapter \<Rightarrow> int option" where
  "configured_context_window a = (case ra_context_length a of Some w \<Rightarrow> if w \<le> 0 then None else Some w | None \<Rightarrow> None)"

definition widest_refused_window :: "int option \<Rightarrow> route_adapter \<Rightarrow> route_error \<Rightarrow> int option" where
  "widest_refused_window refused a e =
     (if \<not> exceeds_context_window e then refused
      else case configured_context_window a of
             None \<Rightarrow> refused
           | Some w \<Rightarrow> (case refused of None \<Rightarrow> Some w | Some r \<Rightarrow> Some (max r w)))"

definition window_cannot_fit :: "route_adapter \<Rightarrow> int option \<Rightarrow> bool" where
  "window_cannot_fit a refused =
     (case refused of
        None \<Rightarrow> False
      | Some r \<Rightarrow> (case configured_context_window a of None \<Rightarrow> False | Some w \<Rightarrow> w \<le> r))"

text \<open>With its log line left out, \<open>_skips_for_context_window\<close> is \<open>_window_cannot_fit\<close>.\<close>

definition skips_for_context_window :: "route_adapter \<Rightarrow> int option \<Rightarrow> bool" where
  "skips_for_context_window a refused = window_cannot_fit a refused"

definition REQUEST_REFUSAL_LIMIT :: nat where
  "REQUEST_REFUSAL_LIMIT = 2"

definition counts_as_request_refusal :: "route_error \<Rightarrow> bool" where
  "counts_as_request_refusal e \<longleftrightarrow> describes_request e \<and> \<not> exceeds_context_window e"

definition request_refusals_end_fallback :: "(string \<times> route_error) list \<Rightarrow> bool" where
  "request_refusals_end_fallback failures =
     (let refused = map fst (filter (\<lambda>(_, e). counts_as_request_refusal e) failures)
      in \<not> length refused < REQUEST_REFUSAL_LIMIT)"

section \<open>The attempts of a request\<close>

record route_attempt =
  at_adapter :: route_adapter
  at_error :: route_error
  at_offload :: "offload_reason option"
  at_route :: "route_adapter option"

definition stops_after_request_refusals :: "route_attempt list \<Rightarrow> bool" where
  "stops_after_request_refusals as =
     request_refusals_end_fallback (map (\<lambda>x. (endpoint_id_for_adapter (at_adapter x), at_error x)) as)"

definition failed_attempt :: "route_adapter \<Rightarrow> route_error \<Rightarrow> string \<times> int option" where
  "failed_attempt a e = (endpoint_id_for_adapter a, http_status_of (re_exn e))"

text \<open>The index of the error to report. The first attempt is there whenever this is asked.\<close>

definition select_surfaced_error :: "route_error list \<Rightarrow> nat" where
  "select_surfaced_error errors =
     (if describes_request (hd errors) then 0
      else case first_index describes_request (tl errors) of None \<Rightarrow> 0 | Some i \<Rightarrow> Suc i)"

text \<open>The first later attempt on the same route, taken out of the list.\<close>

definition take_retry :: "route_attempt \<Rightarrow> route_attempt list \<Rightarrow> route_attempt \<times> route_attempt list" where
  "take_retry x later =
     (if at_route x \<noteq> None \<and> abandoned_for_offload (re_exn (at_error x))
      then (case first_index (\<lambda>y. at_route y = at_route x) later of
              None \<Rightarrow> (x, later)
            | Some i \<Rightarrow> (later ! i, take i later @ drop (Suc i) later))
      else (x, later))"

lemma take_retry_shorter [termination_simp]: "length (snd (take_retry x later)) < Suc (length later)"
  by (auto simp: take_retry_def split: option.split)

fun reported_attempts :: "route_attempt list \<Rightarrow> route_attempt list" where
  "reported_attempts [] = []"
| "reported_attempts (x # later) = fst (take_retry x later) # reported_attempts (snd (take_retry x later))"

definition offload_marker :: "route_attempt list \<Rightarrow> (offload_reason \<times> string) option" where
  "offload_marker as =
     (case first_index (\<lambda>x. at_offload x \<noteq> None) as of
        None \<Rightarrow> None
      | Some i \<Rightarrow> Some (the (at_offload (as ! i)), endpoint_id_for_adapter (at_adapter (as ! i))))"

definition mark_offload :: "routing_block \<Rightarrow> route_attempt list \<Rightarrow> routing_block" where
  "mark_offload rb as =
     (case offload_marker as of
        None \<Rightarrow> rb
      | Some (reason, e) \<Rightarrow>
          rb\<lparr>rb_offload := setdefault (rb_offload rb) reason, rb_offload_endpoint_id := setdefault (rb_offload_endpoint_id rb) e\<rparr>)"

text \<open>What is raised once every route has failed: the error with its block.\<close>

definition raise_surfaced_error ::
  "route_attempt list \<Rightarrow> (string \<times> int option) list \<Rightarrow> route_error \<times> routing_block" where
  "raise_surfaced_error as failed =
     (let reported = reported_attempts as;
          i = select_surfaced_error (map at_error reported);
          selected = reported ! i;
          rb0 = (case re_routing (at_error selected) of
                   Some rb \<Rightarrow> rb\<lparr>rb_failed_attempts := setdefault (rb_failed_attempts rb) failed\<rparr>
                 | None \<Rightarrow> no_routing\<lparr>rb_provider := Some (ra_provider (at_adapter selected)),
                                     rb_endpoint_id := Some (endpoint_id_for_adapter (at_adapter selected)),
                                     rb_failed_attempts := Some failed\<rparr>);
          rb1 = (if i \<noteq> 0 then rb0\<lparr>rb_fallback := setdefault (rb_fallback rb0) True\<rparr> else rb0)
      in (at_error selected, mark_offload rb1 as))"

section \<open>What is reported\<close>

lemma take_retry_cases:
  obtains (kept) "take_retry x later = (x, later)"
    "at_route x = None \<or> \<not> abandoned_for_offload (re_exn (at_error x)) \<or> (\<forall>y \<in> set later. at_route y \<noteq> at_route x)"
  | (retried) pre y post where "take_retry x later = (y, pre @ post)" "later = pre @ y # post" "at_route y = at_route x"
    "\<forall>z \<in> set pre. at_route z \<noteq> at_route x" "abandoned_for_offload (re_exn (at_error x))" "at_route x \<noteq> None"
proof (cases "at_route x \<noteq> None \<and> abandoned_for_offload (re_exn (at_error x))")
  case False
  then show ?thesis using kept by (auto simp: take_retry_def)
next
  case True
  show ?thesis
  proof (cases "first_index (\<lambda>y. at_route y = at_route x) later")
    case None
    then have "take_retry x later = (x, later)" using True by (simp add: take_retry_def)
    then show ?thesis using kept None by (auto simp: first_index_None)
  next
    case (Some i)
    note fi = first_index_Some [OF Some]
    have "later = take i later @ later ! i # drop (Suc i) later" using fi id_take_nth_drop by blast
    moreover have "\<forall>z \<in> set (take i later). at_route z \<noteq> at_route x" using fi by (auto simp: in_set_conv_nth)
    ultimately show ?thesis using retried [of "later ! i" "take i later" "drop (Suc i) later"] fi True Some by (auto simp: take_retry_def)
  qed
qed

lemma reported_sub: "set (reported_attempts as) \<subseteq> set as"
proof (induction as rule: reported_attempts.induct)
  case (2 x later)
  then show ?case by (cases rule: take_retry_cases [of x later]) auto
qed simp

text \<open>Only an attempt the router itself cut short is left out, and its route's retry stands for it.\<close>

lemma reported_covers:
  "x \<in> set as \<Longrightarrow> x \<in> set (reported_attempts as) \<or>
     abandoned_for_offload (re_exn (at_error x)) \<and> (\<exists>y \<in> set (reported_attempts as). y \<noteq> x \<and> at_route y = at_route x)"
proof (induction as rule: reported_attempts.induct)
  case (2 z later)
  show ?case
  proof (cases rule: take_retry_cases [of z later])
    case kept
    then show ?thesis using 2 by auto
  next
    case (retried pre y post)
    then show ?thesis using 2 by auto
  qed
qed simp

lemma reported_hd:
  "hd (reported_attempts (x # later)) =
     (if at_route x \<noteq> None \<and> abandoned_for_offload (re_exn (at_error x))
      then (case filter (\<lambda>y. at_route y = at_route x) later of [] \<Rightarrow> x | y # _ \<Rightarrow> y) else x)"
proof (cases rule: take_retry_cases [of x later])
  case kept
  then show ?thesis by (auto simp: filter_empty_conv split: list.split)
next
  case (retried pre y post)
  moreover have "filter (\<lambda>z. at_route z = at_route x) pre = []" using retried(4) by (simp add: filter_empty_conv)
  ultimately show ?thesis by simp
qed

text \<open>The surfaced one: the first attempt that describes the request, or else the primary.\<close>

lemma surfaced_index:
  assumes "es \<noteq> []"
  shows "select_surfaced_error es < length es"
    "(\<exists>e \<in> set es. describes_request e) \<longrightarrow> describes_request (es ! select_surfaced_error es) \<and>
       (\<forall>j < select_surfaced_error es. \<not> describes_request (es ! j))"
    "(\<forall>e \<in> set es. \<not> describes_request e) \<longrightarrow> select_surfaced_error es = 0"
proof -
  obtain e es' where es: "es = e # es'" using assms by (cases es) auto
  show "select_surfaced_error es < length es"
    unfolding es by (auto simp: select_surfaced_error_def dest: first_index_Some split: option.split)
  show "(\<forall>e \<in> set es. \<not> describes_request e) \<longrightarrow> select_surfaced_error es = 0"
    unfolding es by (auto simp: select_surfaced_error_def dest!: first_index_Some intro: nth_mem split: option.split)
  show "(\<exists>e \<in> set es. describes_request e) \<longrightarrow> describes_request (es ! select_surfaced_error es) \<and>
       (\<forall>j < select_surfaced_error es. \<not> describes_request (es ! j))"
  proof (cases "describes_request e")
    case True
    then show ?thesis by (simp add: es select_surfaced_error_def)
  next
    case False
    show ?thesis
    proof (cases "first_index describes_request es'")
      case None
      then show ?thesis using False by (simp add: es first_index_None)
    next
      case (Some i)
      show ?thesis using first_index_Some [OF Some] False Some
        by (auto simp: es select_surfaced_error_def nth_Cons split: nat.split)
    qed
  qed
qed

lemma reported_nonempty: "as \<noteq> [] \<Longrightarrow> reported_attempts as \<noteq> []"
  by (cases as) auto

section \<open>Properties\<close>

text \<open>C31. What the caller of a request is told when every route failed. The error is the one of the first
  reported attempt that describes the request (400, 404, 413 or 422), or, if none does, the primary's:
  a credential error, a rate limit or an overload of a fallback never displaces it. The attempts
  reported are those that were made, except that an attempt the router cut short for the offload
  route is represented by the retry of its route; the primary's place is kept that way. The block
  that goes with the error names the offload route if the request was sent there.\<close>

theorem surfaced_error_rule:
  assumes "as = x # later"
  shows "let rep' = reported_attempts as; (e, rb) = raise_surfaced_error as failed
    in (if list_ex (\<lambda>y. describes_request (at_error y)) rep'
        then (\<exists>pre y post. rep' = pre @ y # post \<and> e = at_error y \<and> describes_request e \<and>
                \<not> list_ex (\<lambda>z. describes_request (at_error z)) pre)
        else e = at_error (hd rep')) \<and>
       hd rep' = (if at_route x \<noteq> None \<and> abandoned_for_offload (re_exn (at_error x))
                  then (case filter (\<lambda>y. at_route y = at_route x) later of [] \<Rightarrow> x | y # _ \<Rightarrow> y) else x) \<and>
       set rep' \<subseteq> set as \<and>
       (\<forall>y \<in> set as - set rep'. abandoned_for_offload (re_exn (at_error y)) \<and> (\<exists>z \<in> set rep'. z \<noteq> y \<and> at_route z = at_route y)) \<and>
       (if list_ex (\<lambda>y. at_offload y \<noteq> None) as then rb_offload rb \<noteq> None else True)"
proof -
  define r where "r = reported_attempts as"
  define i where "i = select_surfaced_error (map at_error r)"
  obtain e rb where er: "raise_surfaced_error as failed = (e, rb)" by (cases "raise_surfaced_error as failed")
  have "r \<noteq> []" unfolding r_def using assms by (intro reported_nonempty) simp
  then have ix: "i < length r" "(\<exists>y \<in> set r. describes_request (at_error y)) \<Longrightarrow> describes_request (at_error (r ! i)) \<and> (\<forall>j < i. \<not> describes_request (at_error (r ! j)))"
    "(\<forall>y \<in> set r. \<not> describes_request (at_error y)) \<Longrightarrow> i = 0"
    using surfaced_index [of "map at_error r"] by (auto simp: i_def)
  have e: "e = at_error (r ! i)" using er unfolding raise_surfaced_error_def Let_def r_def i_def by simp
  have first: "if list_ex (\<lambda>y. describes_request (at_error y)) r
        then (\<exists>pre y post. r = pre @ y # post \<and> e = at_error y \<and> describes_request e \<and>
                \<not> list_ex (\<lambda>z. describes_request (at_error z)) pre)
        else e = at_error (hd r)"
  proof (cases "list_ex (\<lambda>y. describes_request (at_error y)) r")
    case True
    then have d: "describes_request (at_error (r ! i))" "\<forall>j < i. \<not> describes_request (at_error (r ! j))"
      using ix(2) by (auto simp: list_ex_iff)
    have "\<not> list_ex (\<lambda>z. describes_request (at_error z)) (take i r)" using d(2) ix(1) by (auto simp: list_ex_iff in_set_conv_nth)
    then show ?thesis unfolding if_P [OF True]
      using d(1) e id_take_nth_drop [OF ix(1)] by (intro exI [of _ "take i r"] exI [of _ "r ! i"] exI [of _ "drop (Suc i) r"]) simp
  next
    case False
    then have "i = 0" using ix(3) by (auto simp: list_ex_iff)
    then show ?thesis using False e \<open>r \<noteq> []\<close> by (simp add: hd_conv_nth)
  qed
  have "rb_offload rb \<noteq> None" if "list_ex (\<lambda>y. at_offload y \<noteq> None) as"
  proof -
    have "first_index (\<lambda>y. at_offload y \<noteq> None) as \<noteq> None" using that by (auto simp: first_index_None list_ex_iff)
    then obtain m where "offload_marker as = Some m" by (auto simp: offload_marker_def)
    then have "rb_offload (mark_offload b as) \<noteq> None" for b
      by (cases m) (auto simp: mark_offload_def setdefault_def split: option.split)
    then show ?thesis using er unfolding raise_surfaced_error_def Let_def by auto
  qed
  then have mark: "if list_ex (\<lambda>y. at_offload y \<noteq> None) as then rb_offload rb \<noteq> None else True" by simp
  have "\<forall>y \<in> set as - set r. abandoned_for_offload (re_exn (at_error y)) \<and> (\<exists>z \<in> set r. z \<noteq> y \<and> at_route z = at_route y)"
    using reported_covers [of _ as] unfolding r_def by blast
  with first reported_sub [of as] reported_hd [of x later] mark show ?thesis
    unfolding Let_def er case_prod_conv unfolding r_def assms by (intro conjI)
qed

text \<open>A primary that waited too long and was retried, after an offload route that refused the credential.\<close>

definition demo_error :: "exn_class \<Rightarrow> int option \<Rightarrow> route_error" where
  "demo_error c s = \<lparr>re_exn = \<lparr>ex_class = c, ex_status = s, ex_status_code = None, ex_code = None, ex_response = None,
     ex_operator_text = None\<rparr>, re_error_body = None, re_message = ''m'', re_routing = None\<rparr>"

definition demo_adapter :: "nat \<Rightarrow> string \<Rightarrow> route_adapter" where
  "demo_adapter n e = \<lparr>ra_obj = n, ra_endpoint_id = Some e, ra_provider = ''p'', ra_route_id = None, ra_input_modalities = None,
     ra_context_length = Some 1000, ra_priority_scheduling = False\<rparr>"

theorem surfaced_error_rule_witness:
  "fst (raise_surfaced_error
     [\<lparr>at_adapter = demo_adapter 0 ''a'', at_error = demo_error UpstreamQueueWaitExpired_exn None, at_offload = None, at_route = Some (demo_adapter 0 ''a'')\<rparr>,
      \<lparr>at_adapter = demo_adapter 1 ''b'', at_error = demo_error Other_exn (Some 401), at_offload = Some QUEUE_WAIT, at_route = Some (demo_adapter 1 ''b'')\<rparr>,
      \<lparr>at_adapter = demo_adapter 0 ''a'', at_error = demo_error Other_exn (Some 503), at_offload = None, at_route = Some (demo_adapter 0 ''a'')\<rparr>] [])
   = demo_error Other_exn (Some 503)"
proof -
  let ?as = "[\<lparr>at_adapter = demo_adapter 0 ''a'', at_error = demo_error UpstreamQueueWaitExpired_exn None, at_offload = None, at_route = Some (demo_adapter 0 ''a'')\<rparr>,
      \<lparr>at_adapter = demo_adapter 1 ''b'', at_error = demo_error Other_exn (Some 401), at_offload = Some QUEUE_WAIT, at_route = Some (demo_adapter 1 ''b'')\<rparr>,
      \<lparr>at_adapter = demo_adapter 0 ''a'', at_error = demo_error Other_exn (Some 503), at_offload = None, at_route = Some (demo_adapter 0 ''a'')\<rparr>]"
  have r: "\<not> list_ex (\<lambda>y. describes_request (at_error y)) (reported_attempts ?as)" "hd (reported_attempts ?as) = ?as ! 2" by code_simp+
  show ?thesis using surfaced_error_rule [OF refl, of "hd ?as" "tl ?as" "[]"] r by (auto simp: Let_def split: prod.splits)
qed

end
