(* ===== verification/Route_Selection.thy ===== *)
theory Route_Selection
  imports Route_Errors Prefill_Load
begin

text \<open>
  \<open>routing/routers.py\<close>, the route table and the selection of \<open>FixedRouter\<close>: registered routes with
  their weights, what overrides and kill switches leave of them, the offload target, sticky pins, the
  weighted draw, and the loop that claims the dispatch of the endpoint that was chosen. The resolvers
  the router asks (weight overrides, disabled providers, excluded routes, offload policies) answer
  from snapshots, which are fields of the state that an administrator changes.

  Each call of \<open>_select_adapter\<close> reads the clocks and draws random numbers; the \<open>k\<close>-th call of a
  request gets the \<open>k\<close>-th tick. The handler for an exception inside the prefill-aware draw is not
  modelled: the draw fails on an empty list only, and is never asked about one.
\<close>

record route_config =
  rc_adapters :: "(route_adapter \<times> real) list"
  rc_raw_adapters :: "(route_adapter \<times> real \<times> string) list option"
  rc_canonical_model_id :: "string option"
  rc_admin_only :: bool
  rc_required_role :: string
  rc_published :: bool

record affinity_pin =
  af_endpoint_id :: string
  af_expires_at :: time
  af_created_at :: time

record fixed_router =
  fr_registry :: registry
  fr_prefill :: prefill_tracker
  fr_affinity :: "(string \<times> string, affinity_pin) dict"
  fr_routes :: "(string, route_config) dict"
  fr_embedding_routes :: "(string, route_config) dict"
  fr_overrides :: "(string, (string, real) dict) dict option"
  fr_disabled :: "string list option"
  fr_route_states :: "(string \<times> string) list option"
  fr_offload :: "(string, offload_policy) dict option"

definition FixedRouter_init ::
  "(string, (string, real) dict) dict option \<Rightarrow> string list option \<Rightarrow> (string \<times> string) list option \<Rightarrow>
     (string, offload_policy) dict option \<Rightarrow> fixed_router" where
  "FixedRouter_init overrides disabled route_states offload =
     \<lparr>fr_registry = Registry_init, fr_prefill = PrefillLoadTracker_init None None, fr_affinity = [], fr_routes = [],
      fr_embedding_routes = [], fr_overrides = overrides, fr_disabled = disabled, fr_route_states = route_states,
      fr_offload = offload\<rparr>"

text \<open>Settings, and the functions of libraries.\<close>

record router_env =
  en_blake :: "string \<Rightarrow> string"
  en_parser :: iso_parser
  en_prefill :: prefill_settings
  en_breaker :: breaker_config
  en_alerts :: policy
  en_loop_running :: bool
  en_affinity_enabled :: bool
  en_affinity_max_age :: time

definition AFFINITY_TTL_SECONDS :: time where "AFFINITY_TTL_SECONDS = 300"

definition AFFINITY_SWEEP_THRESHOLD :: nat where "AFFINITY_SWEEP_THRESHOLD = 1000"

definition affinity_expiry :: "router_env \<Rightarrow> time \<Rightarrow> time \<Rightarrow> time" where
  "affinity_expiry env created_at now =
     (let expires_at = now + AFFINITY_TTL_SECONDS
      in if 0 < en_affinity_max_age env then min expires_at (created_at + en_affinity_max_age env) else expires_at)"

section \<open>The route table\<close>

definition canonical_of :: "route_config \<Rightarrow> string \<Rightarrow> string" where
  "canonical_of route model_id = (if present (rc_canonical_model_id route) then the (rc_canonical_model_id route) else model_id)"

definition canonical_id :: "fixed_router \<Rightarrow> string \<Rightarrow> string" where
  "canonical_id R model_id = (case dict_get (fr_routes R) model_id of None \<Rightarrow> model_id | Some route \<Rightarrow> canonical_of route model_id)"

definition effective_role :: "bool \<Rightarrow> string \<Rightarrow> string" where
  "effective_role admin_only required_role = (if admin_only \<and> required_role = ''free'' then ''admin'' else required_role)"

definition register_all :: "(string, route_config) dict \<Rightarrow> string \<Rightarrow> string list \<Rightarrow> route_config \<Rightarrow> (string, route_config) dict" where
  "register_all routes model_id aliases cfg = foldl (\<lambda>d k. dict_set k cfg d) routes (model_id # aliases)"

definition register_route ::
  "fixed_router \<Rightarrow> string \<Rightarrow> (route_adapter \<times> real) list \<Rightarrow> string list \<Rightarrow> bool \<Rightarrow> string \<Rightarrow> bool \<Rightarrow> fixed_router" where
  "register_route R model_id adapters_with_weights aliases admin_only required_role published =
     (let total_weight = sum_list (map snd adapters_with_weights)
      in if total_weight \<le> 0 then R
         else R\<lparr>fr_routes := register_all (fr_routes R) model_id aliases
                  \<lparr>rc_adapters = map (\<lambda>(a, w). (a, w / total_weight)) adapters_with_weights,
                   rc_raw_adapters = Some (map (\<lambda>(a, w). (a, w, endpoint_id_for_adapter a)) adapters_with_weights),
                   rc_canonical_model_id = Some model_id, rc_admin_only = admin_only,
                   rc_required_role = effective_role admin_only required_role, rc_published = published\<rparr>\<rparr>)"

definition register_embedding_route ::
  "fixed_router \<Rightarrow> string \<Rightarrow> (route_adapter \<times> real) list \<Rightarrow> string list \<Rightarrow> bool \<Rightarrow> string \<Rightarrow> fixed_router" where
  "register_embedding_route R model_id adapters_with_weights aliases admin_only required_role =
     R\<lparr>fr_embedding_routes := register_all (fr_embedding_routes R) model_id aliases
         \<lparr>rc_adapters = adapters_with_weights, rc_raw_adapters = None, rc_canonical_model_id = Some model_id,
          rc_admin_only = admin_only, rc_required_role = effective_role admin_only required_role, rc_published = True\<rparr>\<rparr>"

text \<open>The kill switches: a disabled provider or an excluded route weighs nothing.\<close>

definition switched_off :: "fixed_router \<Rightarrow> string \<Rightarrow> route_adapter \<Rightarrow> bool" where
  "switched_off R model_id a \<longleftrightarrow>
     (case fr_disabled R of None \<Rightarrow> False | Some ds \<Rightarrow> ra_provider a \<in> set ds) \<or>
     (case fr_route_states R of None \<Rightarrow> False | Some xs \<Rightarrow> (model_id, route_id_for_adapter a) \<in> set xs)"

definition apply_disabled_providers :: "fixed_router \<Rightarrow> (route_adapter \<times> real) list \<Rightarrow> string \<Rightarrow> (route_adapter \<times> real) list" where
  "apply_disabled_providers R adapters model_id =
     (if fr_disabled R = None \<and> fr_route_states R = None then adapters
      else map (\<lambda>(a, w). (a, if switched_off R model_id a then 0 else w)) adapters)"

definition get_effective_adapters :: "fixed_router \<Rightarrow> string \<Rightarrow> route_config \<Rightarrow> (route_adapter \<times> real) list" where
  "get_effective_adapters R model_id route =
     (let override_model_id = canonical_of route model_id in
      case (fr_overrides R, rc_raw_adapters route) of
        (Some table, Some (x # xs)) \<Rightarrow>
          (let overrides = dict_get_or table override_model_id []
           in apply_disabled_providers R (map (\<lambda>(a, raw, e). (a, dict_get_or overrides e raw)) (x # xs)) override_model_id)
      | _ \<Rightarrow> apply_disabled_providers R (rc_adapters route) override_model_id)"

text \<open>The route-table snapshot other routers read: one entry per canonical model.\<close>

fun effective_routes :: "fixed_router \<Rightarrow> string option \<Rightarrow> string list \<Rightarrow> (string, route_config) dict \<Rightarrow>
    (string \<times> string \<times> (route_adapter \<times> real) list) list" where
  "effective_routes R staged seen [] = []"
| "effective_routes R staged seen ((key, route) # rest) =
     (let canonical = canonical_of route key
      in if \<not> rc_published route \<and> Some canonical \<noteq> staged then effective_routes R staged seen rest
         else if canonical \<in> set seen then effective_routes R staged seen rest
         else (key, canonical, get_effective_adapters R key route) # effective_routes R staged (canonical # seen) rest)"

definition iter_effective_routes :: "fixed_router \<Rightarrow> (string \<times> string \<times> (route_adapter \<times> real) list) list" where
  "iter_effective_routes R = effective_routes R None [] (fr_routes R)"

definition snapshot_for_transition ::
  "fixed_router \<Rightarrow> string \<Rightarrow> (string \<times> string \<times> (route_adapter \<times> real) list) list \<times> (string, string) dict" where
  "snapshot_for_transition R model_id =
     (effective_routes R (Some model_id) [] (fr_routes R),
      map (\<lambda>(key, route). (key, canonical_of route key))
        (filter (\<lambda>(key, route). rc_published route \<or> canonical_of route key = model_id) (fr_routes R)))"

definition offload_target ::
  "fixed_router \<Rightarrow> string \<Rightarrow> route_config \<Rightarrow> (route_adapter \<times> real) list \<Rightarrow> (route_adapter \<times> offload_policy) option" where
  "offload_target R model_id route adapters =
     (case fr_offload R of
        None \<Rightarrow> None
      | Some source \<Rightarrow>
          (case dict_get source (canonical_of route model_id) of
             None \<Rightarrow> None
           | Some pol \<Rightarrow>
               (case find (\<lambda>(a, w). 0 < w \<and> route_id_for_adapter a = op_route_id pol) adapters of
                  None \<Rightarrow> None
                | Some (a, w) \<Rightarrow> Some (a, pol))))"

definition dispatch_range ::
  "fixed_router \<Rightarrow> string \<Rightarrow> route_config \<Rightarrow> string list option \<Rightarrow> string list \<Rightarrow> (route_adapter \<times> real) list" where
  "dispatch_range R model_id route scope modalities =
     filter (\<lambda>(a, w). adapter_in_endpoint_scope a scope \<and> adapter_supports_modalities a modalities)
       (get_effective_adapters R model_id route)"

section \<open>Selection\<close>

datatype route_refusal = CIRCUIT_OPEN | WEIGHT_0 | EXCLUDED

text \<open>Why \<open>AllCircuitsOpenError\<close> is raised, with what its message names.\<close>

datatype all_open =
    NoModalityRoute "string list"
  | OutsideScope
  | NothingAdmissible "(string \<times> route_refusal) list" "string list"
  | OnlyOffloadTooLong
  | ClaimsRefused "string list"

datatype router_error =
    PinTypeError
  | ProviderPinError
  | NoRouteConfigured
  | AllCircuitsOpenError all_open
  | TargetUnavailableError
  | DispatchMismatchError
  | InvalidBinding

text \<open>An \<open>EndpointBinding\<close> a caller committed to, and what a request asks of the router. The prompt is
  known by its size, its fingerprint and its units.\<close>

record endpoint_binding =
  eb_endpoint_id :: string
  eb_adapter :: route_adapter

record route_request =
  rq_model :: string
  rq_pin :: "string option"
  rq_preferred :: "string option"
  rq_scope :: "string list option"
  rq_allow_fallback :: bool
  rq_bound :: "endpoint_binding option"
  rq_require_target :: bool
  rq_modalities :: "string list"
  rq_tokens :: int
  rq_fingerprint :: "string option"
  rq_units :: "string list"
  rq_affinity_key :: "string option"
  rq_user_id :: "string option"
  rq_user_name :: "string option"

text \<open>The caller identity of a request, an empty one being none.\<close>

definition current_affinity_key :: "route_request \<Rightarrow> string option" where
  "current_affinity_key rq = (if present (rq_affinity_key rq) then rq_affinity_key rq else None)"

text \<open>One selection and the claim that follows it: the clocks read and the numbers drawn.\<close>

record tick =
  tk_clock :: clock
  tk_claim_clock :: clock
  tk_rand1 :: real
  tk_rand2 :: real

fun admit_routes ::
  "breaker_config \<Rightarrow> clock \<Rightarrow> string list \<Rightarrow> registry \<Rightarrow> (route_adapter \<times> real) list \<Rightarrow>
     ((route_adapter \<times> real) list \<times> (string \<times> route_refusal) list) \<times> registry" where
  "admit_routes cfg ck exclude r [] = (([], []), r)"
| "admit_routes cfg ck exclude r ((a, w) # rest) =
     (let e = endpoint_id_for_adapter a
      in if \<not> 0 < w
         then (case admit_routes cfg ck exclude r rest of ((al, rf), r1) \<Rightarrow> ((al, (e, WEIGHT_0) # rf), r1))
         else if e \<in> set exclude
         then (case admit_routes cfg ck exclude r rest of ((al, rf), r1) \<Rightarrow> ((al, (e, EXCLUDED) # rf), r1))
         else
           (let (ok, r1) = registry_allow_request cfg r e ck; ((al, rf), r2) = admit_routes cfg ck exclude r1 rest
            in if ok then (((a, w) # al, rf), r2) else ((al, (e, CIRCUIT_OPEN) # rf), r2)))"

definition drop_affinity :: "fixed_router \<Rightarrow> route_request \<Rightarrow> fixed_router" where
  "drop_affinity R rq =
     (case current_affinity_key rq of
        None \<Rightarrow> R
      | Some key \<Rightarrow> R\<lparr>fr_affinity := dict_del (key, rq_model rq) (fr_affinity R)\<rparr>)"

definition sweep_affinity :: "time \<Rightarrow> (string \<times> string, affinity_pin) dict \<Rightarrow> (string \<times> string, affinity_pin) dict" where
  "sweep_affinity now d = (if length d \<le> AFFINITY_SWEEP_THRESHOLD then d else filter (\<lambda>(k, a). \<not> af_expires_at a < now) d)"

text \<open>The pin of a caller: the adapter it keeps, or the endpoint it was moved off.\<close>

definition honour_pin ::
  "router_env \<Rightarrow> fixed_router \<Rightarrow> time \<Rightarrow> string \<Rightarrow> string \<Rightarrow> (route_adapter \<times> real) list \<Rightarrow>
     (route_adapter option \<times> string option) \<times> fixed_router" where
  "honour_pin env R now key model_id allowed =
     (case dict_get (fr_affinity R) (key, model_id) of
        None \<Rightarrow> ((None, None), R)
      | Some entry \<Rightarrow>
          if now < af_expires_at entry
          then (case find (\<lambda>(a, w). endpoint_id_for_adapter a = af_endpoint_id entry) allowed of
                  Some (a, w) \<Rightarrow>
                    if should_keep_affinity (en_prefill env) (fr_prefill R) (af_endpoint_id entry) (Some key) None
                    then ((Some a, None),
                          R\<lparr>fr_affinity := dict_set (key, model_id)
                              (entry\<lparr>af_expires_at := affinity_expiry env (af_created_at entry) now\<rparr>) (fr_affinity R)\<rparr>)
                    else ((None, Some (af_endpoint_id entry)), R)
                | None \<Rightarrow> ((None, None), R\<lparr>fr_affinity := dict_del (key, model_id) (fr_affinity R)\<rparr>))
          else ((None, None), R\<lparr>fr_affinity := dict_del (key, model_id) (fr_affinity R)\<rparr>))"

definition record_affinity_and_return ::
  "router_env \<Rightarrow> fixed_router \<Rightarrow> time \<Rightarrow> string \<Rightarrow> route_adapter \<Rightarrow> string option \<Rightarrow> fixed_router" where
  "record_affinity_and_return env R now model_id chosen affinity_key =
     (case affinity_key of
        None \<Rightarrow> R
      | Some key \<Rightarrow>
          R\<lparr>fr_affinity := sweep_affinity now (dict_set (key, model_id)
              \<lparr>af_endpoint_id = endpoint_id_for_adapter chosen, af_expires_at = affinity_expiry env now now, af_created_at = now\<rparr>
              (fr_affinity R))\<rparr>)"

definition weighted_draw ::
  "router_env \<Rightarrow> fixed_router \<Rightarrow> tick \<Rightarrow> (route_adapter \<times> real) list \<Rightarrow> int \<Rightarrow> string option \<Rightarrow> string option \<Rightarrow>
     string option \<Rightarrow> route_adapter option" where
  "weighted_draw env R tk allowed tokens affinity_key avoid fingerprint =
     (let total_allowed = sum_list (map snd allowed);
          pool = (if 1 / 1000000000 < \<bar>total_allowed - 1\<bar> then map (\<lambda>(a, w). (a, w / total_allowed)) allowed else allowed)
      in case select_index (en_blake env) (en_prefill env) (fr_prefill R) (ck_mono (tk_clock tk))
                (map (\<lambda>(a, w). endpoint_id_for_adapter a) pool) (map snd pool) tokens (tk_rand1 tk) (tk_rand2 tk)
                affinity_key avoid fingerprint of
           None \<Rightarrow> None
         | Some i \<Rightarrow> Some (fst (pool ! i)))"

text \<open>The draw among admitted routes with the pin that is recorded for it.\<close>

definition draw_and_pin ::
  "router_env \<Rightarrow> fixed_router \<Rightarrow> tick \<Rightarrow> route_request \<Rightarrow> (route_adapter \<times> real) list \<Rightarrow> string option \<Rightarrow> string option \<Rightarrow>
     (router_error + route_adapter option) \<times> fixed_router" where
  "draw_and_pin env R tk rq pool affinity_key avoid =
     (case weighted_draw env R tk pool (rq_tokens rq) affinity_key avoid (rq_fingerprint rq) of
        None \<Rightarrow> (Inr None, R)
      | Some a \<Rightarrow> (Inr (Some a), record_affinity_and_return env R (ck_mono (tk_clock tk)) (rq_model rq) a affinity_key))"

text \<open>What is left of the admitted routes once the offload route is held back; \<open>None\<close> is the refusal of a
  prompt only the offload route could take, but not at this size.\<close>

definition hold_back_offload ::
  "fixed_router \<Rightarrow> string \<Rightarrow> route_config \<Rightarrow> (route_adapter \<times> real) list \<Rightarrow> int \<Rightarrow> (route_adapter \<times> real) list \<Rightarrow>
     (route_adapter \<times> real) list option" where
  "hold_back_offload R model_id route snap tokens allowed =
     (case offload_target R model_id route snap of
        None \<Rightarrow> Some allowed
      | Some (b, pol) \<Rightarrow>
          (let ordinary = filter (\<lambda>(a, w). a \<noteq> b) allowed
           in if ordinary = [] \<and> \<not> takes_input pol tokens then None
              else if ordinary \<noteq> [] then Some ordinary else Some allowed))"

definition targeted_draw ::
  "router_env \<Rightarrow> fixed_router \<Rightarrow> tick \<Rightarrow> route_request \<Rightarrow> string option \<Rightarrow> bool \<Rightarrow> (route_adapter \<times> real) list \<Rightarrow>
     (router_error + route_adapter option) \<times> fixed_router" where
  "targeted_draw env R tk rq preferred require_target allowed =
     (let affinity_key = (if en_affinity_enabled env then current_affinity_key rq else None);
          ((kept, avoid), R1) =
            (case affinity_key of
               Some key \<Rightarrow> if \<not> require_target then honour_pin env R (ck_mono (tk_clock tk)) key (rq_model rq) allowed
                           else ((None, None), R)
             | None \<Rightarrow> ((None, None), R))
      in case kept of
           Some a \<Rightarrow> (Inr (Some a), R1)
         | None \<Rightarrow>
             (let targeted = filter (\<lambda>(a, w). Some (endpoint_id_for_adapter a) = preferred) allowed
              in if present preferred \<and> targeted \<noteq> [] then draw_and_pin env R1 tk rq targeted affinity_key None
                 else if present preferred \<and> require_target then (Inl TargetUnavailableError, R1)
                 else draw_and_pin env R1 tk rq allowed affinity_key avoid))"

definition select_adapter ::
  "router_env \<Rightarrow> fixed_router \<Rightarrow> tick \<Rightarrow> route_request \<Rightarrow> string option \<Rightarrow> string list \<Rightarrow> string option \<Rightarrow> bool \<Rightarrow>
     (router_error + route_adapter option) \<times> fixed_router" where
  "select_adapter env R tk rq pin exclude preferred require_target =
     (case dict_get (fr_routes R) (rq_model rq) of
        None \<Rightarrow> (Inr None, R)
      | Some route \<Rightarrow>
          if \<not> rc_published route \<or> rc_adapters route = [] then (Inr None, R)
          else
            (let scoped = filter (\<lambda>(a, w). adapter_in_endpoint_scope a (rq_scope rq)) (get_effective_adapters R (rq_model rq) route);
                 snap = filter (\<lambda>(a, w). adapter_supports_modalities a (rq_modalities rq)) scoped;
                 filtered = map (endpoint_id_for_adapter \<circ> fst) (filter (\<lambda>(a, w). \<not> adapter_supports_modalities a (rq_modalities rq)) scoped)
             in if rq_modalities rq \<noteq> [] \<and> snap = [] then (Inl (AllCircuitsOpenError (NoModalityRoute filtered)), R)
                else if rq_scope rq \<noteq> None \<and> snap = [] then (Inl (AllCircuitsOpenError OutsideScope), R)
                else if present pin
                then (Inr (map_option fst (find (\<lambda>(a, w). 0 < w \<and> (Some (ra_provider a) = pin \<or> Some (endpoint_id_for_adapter a) = pin)) snap)), R)
                else
                  (case admit_routes (en_breaker env) (tk_clock tk) exclude (fr_registry R) snap of
                     ((allowed, refused), r1) \<Rightarrow>
                       (let R1 = R\<lparr>fr_registry := r1\<rparr>
                        in if allowed = [] then (Inl (AllCircuitsOpenError (NothingAdmissible refused filtered)), R1)
                           else (case hold_back_offload R1 (rq_model rq) route snap (rq_tokens rq) allowed of
                                   None \<Rightarrow> (Inl (AllCircuitsOpenError OnlyOffloadTooLong), R1)
                                 | Some left \<Rightarrow> targeted_draw env R1 tk rq preferred require_target left)))))"

text \<open>The ordinary passes of \<open>_select_and_claim_adapter\<close>; each refused claim excludes one more endpoint.\<close>

fun claim_loop ::
  "router_env \<Rightarrow> (nat \<Rightarrow> tick) \<Rightarrow> route_request \<Rightarrow> nat \<Rightarrow> nat \<Rightarrow> string list \<Rightarrow> fixed_router \<Rightarrow>
     (router_error + (route_adapter \<times> dispatch_claim option) option) \<times> fixed_router" where
  "claim_loop env ticks rq k 0 exclude R = (Inl (AllCircuitsOpenError (ClaimsRefused exclude)), R)"
| "claim_loop env ticks rq k (Suc n) exclude R =
     (case select_adapter env R (ticks k) rq None exclude None False of
        (Inl err, R1) \<Rightarrow> (Inl err, R1)
      | (Inr None, R1) \<Rightarrow> (Inr None, R1)
      | (Inr (Some a), R1) \<Rightarrow>
          (case begin_dispatch (en_breaker env) (fr_registry R1) (endpoint_id_for_adapter a) (tk_claim_clock (ticks k)) of
             (Some c, r2) \<Rightarrow> (Inr (Some (a, Some c)), R1\<lparr>fr_registry := r2\<rparr>)
           | (None, r2) \<Rightarrow>
               claim_loop env ticks rq (Suc k) n (List.insert (endpoint_id_for_adapter a) exclude) (R1\<lparr>fr_registry := r2\<rparr>)))"

definition select_and_claim_adapter ::
  "router_env \<Rightarrow> (nat \<Rightarrow> tick) \<Rightarrow> route_request \<Rightarrow> fixed_router \<Rightarrow>
     (router_error + (route_adapter \<times> dispatch_claim option) option) \<times> fixed_router" where
  "select_and_claim_adapter env ticks rq R =
     (if present (rq_pin rq)
      then (case select_adapter env R (ticks 0) rq (rq_pin rq) [] None False of
              (Inl err, R1) \<Rightarrow> (Inl err, R1)
            | (Inr found, R1) \<Rightarrow> (Inr (map_option (\<lambda>a. (a, None)) found), R1))
      else
        (let attempts = (case dict_get (fr_routes R) (rq_model rq) of
                           None \<Rightarrow> 1 | Some route \<Rightarrow> if rc_adapters route = [] then 1 else length (rc_adapters route))
         in if present (rq_preferred rq) \<and> 0 < attempts
            then (case select_adapter env R (ticks 0) rq None [] (rq_preferred rq) (rq_require_target rq) of
                    (Inl err, R1) \<Rightarrow> (Inl err, R1)
                  | (Inr None, R1) \<Rightarrow> claim_loop env ticks rq 1 attempts [] R1
                  | (Inr (Some a), R1) \<Rightarrow>
                      (case begin_dispatch (en_breaker env) (fr_registry R1) (endpoint_id_for_adapter a) (tk_claim_clock (ticks 0)) of
                         (Some c, r2) \<Rightarrow> (Inr (Some (a, Some c)), R1\<lparr>fr_registry := r2\<rparr>)
                       | (None, r2) \<Rightarrow>
                           if rq_require_target rq then (Inl TargetUnavailableError, R1\<lparr>fr_registry := r2\<rparr>)
                           else claim_loop env ticks rq 1 attempts [endpoint_id_for_adapter a] (R1\<lparr>fr_registry := r2\<rparr>)))
            else claim_loop env ticks rq 0 attempts [] R))"

text \<open>The adapters a surface of its own may use, the offload route at the end or left out.\<close>

definition eligible_adapters ::
  "router_env \<Rightarrow> fixed_router \<Rightarrow> clock \<Rightarrow> string \<Rightarrow> string list option \<Rightarrow> (route_adapter \<Rightarrow> int) option \<Rightarrow>
     (route_adapter \<times> real) list \<times> fixed_router" where
  "eligible_adapters env R ck model_id scope size_prompt =
     (case dict_get (fr_routes R) model_id of
        None \<Rightarrow> ([], R)
      | Some route \<Rightarrow>
          if \<not> rc_published route \<or> rc_adapters route = [] then ([], R)
          else
            (case admit_routes (en_breaker env) ck [] (fr_registry R)
                    (filter (\<lambda>(a, w). 0 < w \<and> adapter_in_endpoint_scope a scope) (get_effective_adapters R model_id route)) of
               ((eligible, _), r1) \<Rightarrow>
                 ((case offload_target R model_id route eligible of
                     None \<Rightarrow> eligible
                   | Some (b, pol) \<Rightarrow>
                       (let ordinary = filter (\<lambda>(a, w). a \<noteq> b) eligible
                        in if op_max_input_tokens pol \<noteq> None \<and>
                              (case size_prompt of None \<Rightarrow> False | Some sz \<Rightarrow> \<not> takes_input pol (sz b))
                           then ordinary else ordinary @ filter (\<lambda>(a, w). a = b) eligible)),
                  R\<lparr>fr_registry := r1\<rparr>)))"

text \<open>One admitted endpoint of a provider. The \<open>k\<close>-th candidate is asked about with the \<open>k\<close>-th tick; a
  refusal of every route ends the search.\<close>

fun first_preferred ::
  "router_env \<Rightarrow> (nat \<Rightarrow> tick) \<Rightarrow> route_request \<Rightarrow> nat \<Rightarrow> string list \<Rightarrow> fixed_router \<Rightarrow> string option \<times> fixed_router" where
  "first_preferred env ticks rq k [] R = (None, R)"
| "first_preferred env ticks rq k (e # es) R =
     (case select_adapter env R (ticks k) rq None [] (Some e) False of
        (Inl err, R1) \<Rightarrow> (None, R1)
      | (Inr None, R1) \<Rightarrow> first_preferred env ticks rq (Suc k) es R1
      | (Inr (Some a), R1) \<Rightarrow>
          if endpoint_id_for_adapter a = e then (Some e, R1) else first_preferred env ticks rq (Suc k) es R1)"

definition preferred_endpoint_for_provider ::
  "router_env \<Rightarrow> (nat \<Rightarrow> tick) \<Rightarrow> route_request \<Rightarrow> string \<Rightarrow> fixed_router \<Rightarrow> string option \<times> fixed_router" where
  "preferred_endpoint_for_provider env ticks rq provider R =
     (case dict_get (fr_routes R) (rq_model rq) of
        None \<Rightarrow> (None, R)
      | Some route \<Rightarrow>
          if \<not> rc_published route \<or> rc_adapters route = [] then (None, R)
          else first_preferred env ticks (rq\<lparr>rq_scope := None, rq_fingerprint := None\<rparr>) 0
                 (map (endpoint_id_for_adapter \<circ> fst)
                   (filter (\<lambda>(a, w). ra_provider a = provider) (get_effective_adapters R (rq_model rq) route))) R)"

section \<open>What selection keeps and returns\<close>

text \<open>The state of an endpoint a listing looks at.\<close>

definition admitted :: "router_env \<Rightarrow> fixed_router \<Rightarrow> clock \<Rightarrow> route_adapter \<Rightarrow> bool" where
  "admitted env R ck a \<longleftrightarrow>
     admits (ep_breaker (endpoint_of (en_breaker env) (fr_registry R) (endpoint_id_for_adapter a))) (ck_perf ck)"

lemma not_present_None [simp]: "\<not> present None"
  by (simp add: present_def)

lemma allow_request_at:
  "fst (registry_allow_request cfg r e ck) = admits (ep_breaker (endpoint_of cfg r e)) (ck_perf ck)"
  "endpoint_of cfg (snd (registry_allow_request cfg r e ck)) f = endpoint_of cfg r f"
  using ensure_circuit_simps(1,2) [of cfg r e]
  by (auto simp: registry_allow_request_def allow_request_def endpoint_of_def case_prod_beta)

lemma admit_routes_at:
  "endpoint_of cfg (snd (admit_routes cfg ck exclude r routes)) f = endpoint_of cfg r f"
  "fst (fst (admit_routes cfg ck exclude r routes)) =
     filter (\<lambda>(a, w). 0 < w \<and> endpoint_id_for_adapter a \<notin> set exclude \<and>
               admits (ep_breaker (endpoint_of cfg r (endpoint_id_for_adapter a))) (ck_perf ck)) routes"
proof (induction routes arbitrary: r)
  case (Cons x rest)
  obtain a w where x: "x = (a, w)" by fastforce
  { case 1
    show ?case using Cons(1) by (auto simp: x Let_def case_prod_beta allow_request_at)
  next
    case 2
    show ?case using Cons(2) by (auto simp: x Let_def case_prod_beta allow_request_at)
  }
qed auto

text \<open>The routes a request may be sent to: published, inside its scope, accepting its media.\<close>

definition route_range :: "fixed_router \<Rightarrow> route_request \<Rightarrow> (route_adapter \<times> real) list" where
  "route_range R rq =
     (case dict_get (fr_routes R) (rq_model rq) of
        None \<Rightarrow> []
      | Some route \<Rightarrow> if rc_published route \<and> rc_adapters route \<noteq> []
                      then dispatch_range R (rq_model rq) route (rq_scope rq) (rq_modalities rq) else [])"

definition range_offload :: "fixed_router \<Rightarrow> route_request \<Rightarrow> (route_adapter \<times> offload_policy) option" where
  "range_offload R rq =
     (case dict_get (fr_routes R) (rq_model rq) of
        None \<Rightarrow> None | Some route \<Rightarrow> offload_target R (rq_model rq) route (route_range R rq))"

text \<open>Selection leaves the table, the tracker and every endpoint as they are.\<close>

definition same_tables :: "router_env \<Rightarrow> fixed_router \<Rightarrow> fixed_router \<Rightarrow> bool" where
  "same_tables env R R' \<longleftrightarrow>
     R'\<lparr>fr_affinity := fr_affinity R, fr_registry := fr_registry R\<rparr> = R \<and>
     (\<forall>e. endpoint_of (en_breaker env) (fr_registry R') e = endpoint_of (en_breaker env) (fr_registry R) e)"

lemma same_tables_refl [simp]: "same_tables env R R"
  by (simp add: same_tables_def)

lemma same_tablesI: "(\<And>e. endpoint_of (en_breaker env) r e = endpoint_of (en_breaker env) (fr_registry R) e) \<Longrightarrow>
    same_tables env R (R\<lparr>fr_registry := r\<rparr>)" "same_tables env R (R\<lparr>fr_affinity := d\<rparr>)"
  by (simp_all add: same_tables_def)

lemma same_tablesD:
  assumes "same_tables env R R'"
  shows "fr_routes R' = fr_routes R" "fr_prefill R' = fr_prefill R" "fr_overrides R' = fr_overrides R" "fr_disabled R' = fr_disabled R"
    "fr_route_states R' = fr_route_states R" "fr_offload R' = fr_offload R"
    "endpoint_of (en_breaker env) (fr_registry R') e = endpoint_of (en_breaker env) (fr_registry R) e"
    "admitted env R' ck a = admitted env R ck a"
proof -
  have eq: "R'\<lparr>fr_affinity := fr_affinity R, fr_registry := fr_registry R\<rparr> = R" using assms by (simp add: same_tables_def)
  show "fr_routes R' = fr_routes R" "fr_prefill R' = fr_prefill R" "fr_overrides R' = fr_overrides R" "fr_disabled R' = fr_disabled R"
    "fr_route_states R' = fr_route_states R" "fr_offload R' = fr_offload R"
    by (subst eq [symmetric], simp)+
  show "endpoint_of (en_breaker env) (fr_registry R') e = endpoint_of (en_breaker env) (fr_registry R) e" "admitted env R' ck a = admitted env R ck a"
    using assms by (auto simp: same_tables_def admitted_def)
qed

lemma effective_same:
  assumes "same_tables env R R'"
  shows "get_effective_adapters R' m route = get_effective_adapters R m route" "offload_target R' m route as = offload_target R m route as"
    "dispatch_range R' m route sc md = dispatch_range R m route sc md" "route_range R' rq = route_range R rq" "range_offload R' rq = range_offload R rq"
proof -
  note same = same_tablesD [OF assms]
  have off: "apply_disabled_providers R' as m = apply_disabled_providers R as m" for as m
    using same by (simp add: apply_disabled_providers_def switched_off_def)
  then show eff: "get_effective_adapters R' m route = get_effective_adapters R m route" for m route
    using same by (simp add: get_effective_adapters_def Let_def split: option.split list.split)
  then show "dispatch_range R' m route sc md = dispatch_range R m route sc md" for m route sc md by (simp add: dispatch_range_def)
  then show rr: "route_range R' rq = route_range R rq" using same by (simp add: route_range_def split: option.split)
  show "offload_target R' m route as = offload_target R m route as" for m route as using same by (simp add: offload_target_def)
  then show "range_offload R' rq = range_offload R rq" using same rr by (simp add: range_offload_def split: option.split)
qed

lemma same_tables_trans: "same_tables env R S \<Longrightarrow> same_tables env S T \<Longrightarrow> same_tables env R T"
proof -
  assume "same_tables env R S" "same_tables env S T"
  then have a: "S\<lparr>fr_affinity := fr_affinity R, fr_registry := fr_registry R\<rparr> = R" "T\<lparr>fr_affinity := fr_affinity S, fr_registry := fr_registry S\<rparr> = S"
    and b: "\<forall>e. endpoint_of (en_breaker env) (fr_registry T) e = endpoint_of (en_breaker env) (fr_registry R) e"
    by (simp_all add: same_tables_def)
  have "T\<lparr>fr_affinity := fr_affinity R, fr_registry := fr_registry R\<rparr> =
      (T\<lparr>fr_affinity := fr_affinity S, fr_registry := fr_registry S\<rparr>)\<lparr>fr_affinity := fr_affinity R, fr_registry := fr_registry R\<rparr>" by simp
  with a b show ?thesis unfolding same_tables_def by simp
qed

lemma weighted_draw_in:
  assumes "weighted_draw env R tk allowed n key avoid fp = res"
  shows "res = None \<longleftrightarrow> allowed = []" "res = Some a \<Longrightarrow> \<exists>w. (a, w) \<in> set allowed"
proof -
  define pool where "pool = (let tot = sum_list (map snd allowed)
    in if 1 / 1000000000 < \<bar>tot - 1\<bar> then map (\<lambda>(a, w). (a, w / tot)) allowed else allowed)"
  have pool: "map fst pool = map fst allowed" by (auto simp: pool_def Let_def)
  then have len: "length pool = length allowed" using map_eq_imp_length_eq by blast
  have res: "res = (case select_index (en_blake env) (en_prefill env) (fr_prefill R) (ck_mono (tk_clock tk))
      (map (\<lambda>(a, w). endpoint_id_for_adapter a) pool) (map snd pool) n (tk_rand1 tk) (tk_rand2 tk) key avoid fp of
      None \<Rightarrow> None | Some i \<Rightarrow> Some (fst (pool ! i)))" (is "res = (case ?sel of None \<Rightarrow> _ | Some i \<Rightarrow> _)")
    unfolding assms [symmetric] weighted_draw_def pool_def Let_def ..
  have "?sel = None \<longleftrightarrow> pool = []" by (simp add: select_index_def Let_def)
  with res len show "res = None \<longleftrightarrow> allowed = []" by (auto split: option.splits)
  assume "res = Some a"
  then obtain i where i: "?sel = Some i" "a = fst (pool ! i)" using res by (auto split: option.splits)
  have "i < length pool" using not_avoided_bound eligible_sub select_eligible [OF i(1)] by fastforce
  then have "a \<in> set (map fst allowed)" using i(2) pool by (metis length_map nth_map nth_mem)
  then show "\<exists>w. (a, w) \<in> set allowed" by auto
qed

lemma find_SomeD: "find P xs = Some x \<Longrightarrow> x \<in> set xs \<and> P x"
  by (auto simp: find_Some_iff)

lemma honour_pin_sound:
  assumes "honour_pin env R now key m allowed = ((kept, avoid), R')"
  shows "same_tables env R R'" "kept = Some a \<Longrightarrow> \<exists>w. (a, w) \<in> set allowed"
  using assms by (auto simp: honour_pin_def same_tablesI dest!: find_SomeD split: option.splits if_splits)

lemma draw_and_pin_sound:
  assumes "draw_and_pin env R tk rq pool key avoid = (res, R')"
  shows "same_tables env R R'" "res = Inr (Some a) \<Longrightarrow> \<exists>w. (a, w) \<in> set pool" "pool \<noteq> [] \<Longrightarrow> \<exists>a. res = Inr (Some a)"
    "\<nexists>e. res = Inl e"
  using assms weighted_draw_in [of env R tk pool "rq_tokens rq" key avoid "rq_fingerprint rq"]
  by (auto simp: draw_and_pin_def record_affinity_and_return_def same_tablesI split: option.splits)

lemma targeted_draw_sound:
  assumes "targeted_draw env R tk rq preferred require_target allowed = (res, R')"
  shows "same_tables env R R'" "res = Inr (Some a) \<Longrightarrow> \<exists>w. (a, w) \<in> set allowed"
    "res = Inr (Some a) \<Longrightarrow> present preferred \<Longrightarrow> require_target \<Longrightarrow> Some (endpoint_id_for_adapter a) = preferred"
    "allowed \<noteq> [] \<Longrightarrow> \<not> (present preferred \<and> require_target) \<Longrightarrow> \<exists>a. res = Inr (Some a)"
    "allowed \<noteq> [] \<Longrightarrow> res \<noteq> Inr None"
proof -
  define key where "key = (if en_affinity_enabled env then current_affinity_key rq else None)"
  obtain kept avoid R1 where pin: "(case key of
      Some key \<Rightarrow> if \<not> require_target then honour_pin env R (ck_mono (tk_clock tk)) key (rq_model rq) allowed else ((None, None), R)
    | None \<Rightarrow> ((None, None), R)) = ((kept, avoid), R1)" by (metis prod.collapse)
  have R1: "same_tables env R R1" "kept = Some a \<Longrightarrow> \<exists>w. (a, w) \<in> set allowed" "require_target \<Longrightarrow> kept = None" for a
    using pin honour_pin_sound [of env R _ _ _ allowed kept avoid R1] by (auto split: option.splits if_splits)
  define targeted where "targeted = filter (\<lambda>(a, w). Some (endpoint_id_for_adapter a) = preferred) allowed"
  have res: "(res, R') = (case kept of
       Some a \<Rightarrow> (Inr (Some a), R1)
     | None \<Rightarrow> if present preferred \<and> targeted \<noteq> [] then draw_and_pin env R1 tk rq targeted key None
               else if present preferred \<and> require_target then (Inl TargetUnavailableError, R1)
               else draw_and_pin env R1 tk rq allowed key avoid)"
    unfolding assms [symmetric] targeted_draw_def key_def [symmetric] Let_def pin case_prod_conv targeted_def ..
  have sub: "\<exists>w. (a, w) \<in> set allowed \<and> Some (endpoint_id_for_adapter a) = preferred" if "\<exists>w. (a, w) \<in> set targeted" for a
    using that by (auto simp: targeted_def)
  note draws = draw_and_pin_sound [of env R1 tk rq targeted key None res R'] draw_and_pin_sound [of env R1 tk rq allowed key avoid res R']
  show "same_tables env R R'"
    using res R1(1) draws(1,5) same_tables_trans by (auto split: option.splits if_splits)
  show "\<exists>w. (a, w) \<in> set allowed" if "res = Inr (Some a)"
    using that res R1(2) draws(2,6) sub by (auto split: option.splits if_splits)
  show "Some (endpoint_id_for_adapter a) = preferred" if "res = Inr (Some a)" "present preferred" "require_target"
    using that res R1(3) draws(2) sub by (auto split: option.splits if_splits)
  show "\<exists>a. res = Inr (Some a)" if "allowed \<noteq> []" "\<not> (present preferred \<and> require_target)"
    using that res draws(3,7) by (auto split: option.splits if_splits)
  show "res \<noteq> Inr None" if "allowed \<noteq> []"
    using that res draws(3,7) by (auto split: option.splits if_splits)
qed

text \<open>What one selection without a pin chooses from.\<close>

definition candidates :: "router_env \<Rightarrow> fixed_router \<Rightarrow> route_request \<Rightarrow> clock \<Rightarrow> string list \<Rightarrow> (route_adapter \<times> real) list" where
  "candidates env R rq ck exclude =
     filter (\<lambda>(a, w). 0 < w \<and> endpoint_id_for_adapter a \<notin> set exclude \<and> admitted env R ck a) (route_range R rq)"

text \<open>The offload route may be chosen for a prompt it takes, and only if no other candidate is left.\<close>

definition offload_may :: "fixed_router \<Rightarrow> route_request \<Rightarrow> route_adapter \<Rightarrow> bool" where
  "offload_may R rq a = (case range_offload R rq of None \<Rightarrow> True | Some (b, pol) \<Rightarrow> a = b \<longrightarrow> takes_input pol (rq_tokens rq))"

definition offload_alone :: "fixed_router \<Rightarrow> route_request \<Rightarrow> route_adapter \<Rightarrow> (route_adapter \<times> real) list \<Rightarrow> bool" where
  "offload_alone R rq a cands = (case range_offload R rq of None \<Rightarrow> True | Some (b, pol) \<Rightarrow> a = b \<longrightarrow> (\<forall>x \<in> set cands. fst x = b))"

lemma hold_back_sound:
  assumes "offload_target R m route snap = range_offload R rq"
  shows "hold_back_offload R m route snap (rq_tokens rq) allowed = Some left \<Longrightarrow> x \<in> set left \<Longrightarrow>
      x \<in> set allowed \<and> offload_may R rq (fst x) \<and> offload_alone R rq (fst x) allowed"
    "x \<in> set allowed \<Longrightarrow> offload_may R rq (fst x) \<Longrightarrow>
      \<exists>left. hold_back_offload R m route snap (rq_tokens rq) allowed = Some left \<and> left \<noteq> []"
    "hold_back_offload R m route snap (rq_tokens rq) allowed = Some left \<Longrightarrow> allowed \<noteq> [] \<Longrightarrow> left \<noteq> []"
  unfolding hold_back_offload_def assms offload_may_def offload_alone_def
  by (cases x; auto simp: Let_def filter_empty_conv case_prod_beta split: option.splits if_splits)+

lemma select_adapter_sound:
  assumes "\<not> present pin" "select_adapter env R tk rq pin exclude preferred require_target = (res, R')"
  defines "cands \<equiv> candidates env R rq (tk_clock tk) exclude"
  shows "same_tables env R R'"
    "res = Inr (Some a) \<Longrightarrow> (\<exists>w. (a, w) \<in> set cands) \<and> offload_may R rq a \<and> offload_alone R rq a cands \<and>
       (present preferred \<and> require_target \<longrightarrow> Some (endpoint_id_for_adapter a) = preferred)"
    "x \<in> set cands \<Longrightarrow> offload_may R rq (fst x) \<Longrightarrow> \<not> (present preferred \<and> require_target) \<Longrightarrow> \<exists>a. res = Inr (Some a)"
    "res = Inr None \<Longrightarrow> route_range R rq = []"
proof -
  have "same_tables env R R' \<and> (res = Inr None \<longrightarrow> route_range R rq = []) \<and>
    (res = Inr (Some a) \<longrightarrow> (\<exists>w. (a, w) \<in> set cands) \<and> offload_may R rq a \<and> offload_alone R rq a cands \<and>
       (present preferred \<and> require_target \<longrightarrow> Some (endpoint_id_for_adapter a) = preferred)) \<and>
    (x \<in> set cands \<and> offload_may R rq (fst x) \<and> \<not> (present preferred \<and> require_target) \<longrightarrow> (\<exists>a. res = Inr (Some a)))" (is "?ok res R'")
  proof (cases "\<exists>route. dict_get (fr_routes R) (rq_model rq) = Some route \<and> rc_published route \<and> rc_adapters route \<noteq> []")
    case False
    then have "route_range R rq = []" by (auto simp: route_range_def split: option.split)
    moreover from this have "cands = []" by (simp add: cands_def candidates_def)
    ultimately show ?thesis using False assms(2) by (auto simp: select_adapter_def split: option.splits)
  next
    case True
    then obtain route where r: "dict_get (fr_routes R) (rq_model rq) = Some route" "rc_published route" "rc_adapters route \<noteq> []" by blast
    let ?snap = "dispatch_range R (rq_model rq) route (rq_scope rq) (rq_modalities rq)"
    have snap: "filter (\<lambda>(a, w). adapter_supports_modalities a (rq_modalities rq))
        (filter (\<lambda>(a, w). adapter_in_endpoint_scope a (rq_scope rq)) (get_effective_adapters R (rq_model rq) route)) = ?snap"
      by (auto simp: dispatch_range_def intro!: filter_cong)
    have range: "route_range R rq = ?snap" using r by (simp add: route_range_def)
    obtain al rf r1 where ad: "admit_routes (en_breaker env) (tk_clock tk) exclude (fr_registry R) ?snap = ((al, rf), r1)" by (metis prod.collapse)
    have al: "al = cands" "\<And>e. endpoint_of (en_breaker env) r1 e = endpoint_of (en_breaker env) (fr_registry R) e"
      using admit_routes_at [of "en_breaker env" "tk_clock tk" exclude "fr_registry R" ?snap]
      by (simp_all add: ad cands_def candidates_def range admitted_def)
    let ?R1 = "R\<lparr>fr_registry := r1\<rparr>"
    have R1: "same_tables env R ?R1" using al(2) by (rule same_tablesI)
    have off: "offload_target ?R1 (rq_model rq) route ?snap = range_offload ?R1 rq"
      using r effective_same [OF R1] by (simp add: range_offload_def range)
    have may: "offload_may ?R1 rq = offload_may R rq" "offload_alone ?R1 rq = offload_alone R rq"
      using effective_same(5) [OF R1] by (auto simp: offload_may_def offload_alone_def fun_eq_iff)
    obtain e1 e2 e3 where sel: "(res, R') =
        (if rq_modalities rq \<noteq> [] \<and> ?snap = [] then (Inl e1, R)
         else if rq_scope rq \<noteq> None \<and> ?snap = [] then (Inl e2, R)
         else if al = [] then (Inl e3, ?R1)
         else case hold_back_offload ?R1 (rq_model rq) route ?snap (rq_tokens rq) al of
                None \<Rightarrow> (Inl (AllCircuitsOpenError OnlyOffloadTooLong), ?R1)
              | Some left \<Rightarrow> targeted_draw env ?R1 tk rq preferred require_target left)"
      using assms(2) [symmetric] r(2,3) unfolding select_adapter_def r(1) option.case Let_def snap ad case_prod_conv if_not_P [OF assms(1)]
      by (simp only: simp_thms if_False)
    consider (gone) e where "?snap = []" "(res, R') = (Inl e, R)"
      | (none) e where "al = []" "(res, R') = (Inl e, ?R1)"
      | (long) e where "hold_back_offload ?R1 (rq_model rq) route ?snap (rq_tokens rq) al = None" "(res, R') = (Inl e, ?R1)"
      | (draw) left where "al \<noteq> []" "hold_back_offload ?R1 (rq_model rq) route ?snap (rq_tokens rq) al = Some left"
          "targeted_draw env ?R1 tk rq preferred require_target left = (res, R')"
    proof (cases "?snap = [] \<and> (rq_modalities rq \<noteq> [] \<or> rq_scope rq \<noteq> None)")
      case True
      with sel gone show ?thesis by (cases "rq_modalities rq \<noteq> []") simp_all
    next
      case False
      then have "(res, R') = (if al = [] then (Inl e3, ?R1)
         else case hold_back_offload ?R1 (rq_model rq) route ?snap (rq_tokens rq) al of
                None \<Rightarrow> (Inl (AllCircuitsOpenError OnlyOffloadTooLong), ?R1)
              | Some left \<Rightarrow> targeted_draw env ?R1 tk rq preferred require_target left)"
        using sel by metis
      then show ?thesis using none long draw
        by (cases "al = []"; cases "hold_back_offload ?R1 (rq_model rq) route ?snap (rq_tokens rq) al") simp_all
    qed
    then show ?thesis
    proof cases
      case gone
      have "cands = []" by (simp add: cands_def candidates_def range gone(1))
      with gone(2) show ?thesis by simp
    next
      case none
      then show ?thesis using R1 unfolding al(1) by simp
    next
      case long
      have "\<not> offload_may R rq (fst x)" if "x \<in> set al" for x using hold_back_sound(2) [OF off that] long(1) may by auto
      then show ?thesis using R1 long(2) unfolding al(1) by blast
    next
      case (draw left)
      note td = targeted_draw_sound [OF draw(3)]
      have "res \<noteq> Inr None" using td(5) hold_back_sound(3) [OF off draw(2)] draw(1) by blast
      moreover
      have "same_tables env R R'" using R1 td(1) same_tables_trans by blast
      moreover have "(\<exists>w. (a, w) \<in> set cands) \<and> offload_may R rq a \<and> offload_alone R rq a cands \<and>
          (present preferred \<and> require_target \<longrightarrow> Some (endpoint_id_for_adapter a) = preferred)" if "res = Inr (Some a)"
        using td(2,3) [OF that] hold_back_sound(1) [OF off draw(2)] al(1) may by fastforce
      moreover have "\<exists>a. res = Inr (Some a)" if "x \<in> set cands" "offload_may R rq (fst x)" "\<not> (present preferred \<and> require_target)"
        using td(4) that hold_back_sound(2) [OF off] draw(2) al(1) may by fastforce
      ultimately show ?thesis by blast
    qed
  qed
  then show "same_tables env R R'"
    "res = Inr (Some a) \<Longrightarrow> (\<exists>w. (a, w) \<in> set cands) \<and> offload_may R rq a \<and> offload_alone R rq a cands \<and>
       (present preferred \<and> require_target \<longrightarrow> Some (endpoint_id_for_adapter a) = preferred)"
    "x \<in> set cands \<Longrightarrow> offload_may R rq (fst x) \<Longrightarrow> \<not> (present preferred \<and> require_target) \<Longrightarrow> \<exists>a. res = Inr (Some a)"
    "res = Inr None \<Longrightarrow> route_range R rq = []"
    by blast+
qed

section \<open>Claiming what was selected\<close>

lemma begin_dispatch_result:
  assumes "begin_dispatch cfg r e ck = (c, r')"
  shows "c = None \<longleftrightarrow> \<not> admits (ep_breaker (endpoint_of cfg r e)) (ck_perf ck)"
    "c = None \<Longrightarrow> endpoint_of cfg r' f = endpoint_of cfg r f" "c = Some d \<Longrightarrow> dc_endpoint_id d = e"
proof -
  obtain b r1 where er: "ensure_circuit cfg r e = (b, r1)" by fastforce
  have b: "b = ep_breaker (endpoint_of cfg r e)" "endpoint_of cfg r1 f = endpoint_of cfg r f" for f
    using ensure_circuit_simps(1,2) [of cfg r e] er by (simp_all add: endpoint_of_def)
  obtain ad tok b1 where bd: "breaker_begin_dispatch b ck = ((ad, tok), b1)" by (metis prod.collapse)
  have res: "c = (if ad then Some \<lparr>dc_endpoint_id = e, dc_probe_token = tok\<rparr> else None)" "r' = put_circuit r1 e b1"
    using assms by (auto simp: begin_dispatch_def er bd)
  have ad: "ad = admits b (ck_perf ck)" using begin_admits [of b ck] bd by simp
  show "c = None \<longleftrightarrow> \<not> admits (ep_breaker (endpoint_of cfg r e)) (ck_perf ck)" using res(1) ad b(1) by simp
  show "dc_endpoint_id d = e" if "c = Some d" using that res(1) by (auto split: if_splits)
  assume "c = None"
  then have "b1 = b" using res(1) ad bd by (cases rule: begin_cases [of b ck]) (auto split: if_splits)
  then show "endpoint_of cfg r' f = endpoint_of cfg r f" using b res(2) by (simp add: endpoint_of_put)
qed

text \<open>How a request came by its endpoint: at the \<open>i\<close>-th tick, with the endpoints of \<open>ex\<close> left out because
  they had refused a claim before.\<close>

definition refused_before :: "router_env \<Rightarrow> fixed_router \<Rightarrow> (nat \<Rightarrow> tick) \<Rightarrow> nat \<Rightarrow> string list \<Rightarrow> bool" where
  "refused_before env R ticks i ex \<longleftrightarrow>
     (\<forall>e \<in> set ex. \<exists>j < i. \<not> admits (ep_breaker (endpoint_of (en_breaker env) (fr_registry R) e)) (ck_perf (tk_claim_clock (ticks j))))"

definition claimed :: "router_env \<Rightarrow> (nat \<Rightarrow> tick) \<Rightarrow> route_request \<Rightarrow> fixed_router \<Rightarrow> route_adapter \<Rightarrow> dispatch_claim option \<Rightarrow> fixed_router \<Rightarrow> bool" where
  "claimed env ticks rq R a claim R' \<longleftrightarrow>
     (\<exists>i ex R1 c r. (\<exists>w. (a, w) \<in> set (candidates env R rq (tk_clock (ticks i)) ex)) \<and> offload_may R rq a \<and>
        offload_alone R rq a (candidates env R rq (tk_clock (ticks i)) ex) \<and> refused_before env R ticks i ex \<and>
        same_tables env R R1 \<and> begin_dispatch (en_breaker env) (fr_registry R1) (endpoint_id_for_adapter a) (tk_claim_clock (ticks i)) = (Some c, r) \<and>
        claim = Some c \<and> R' = R1\<lparr>fr_registry := r\<rparr>)"

lemma claimed_same:
  assumes "same_tables env R S" "claimed env ticks rq S a claim R'"
  shows "claimed env ticks rq R a claim R'"
proof -
  note same = same_tablesD [OF assms(1)] effective_same [OF assms(1)]
  have "candidates env S rq = candidates env R rq" "offload_may S rq = offload_may R rq" "offload_alone S rq = offload_alone R rq"
    "refused_before env S ticks = refused_before env R ticks"
    by (auto simp: candidates_def offload_may_def offload_alone_def refused_before_def same fun_eq_iff intro!: filter_cong)
  then show ?thesis using assms(2) same_tables_trans [OF assms(1)] unfolding claimed_def by simp blast
qed

definition placed ::
  "router_env \<Rightarrow> (nat \<Rightarrow> tick) \<Rightarrow> route_request \<Rightarrow> fixed_router \<Rightarrow>
     router_error + (route_adapter \<times> dispatch_claim option) option \<Rightarrow> fixed_router \<Rightarrow> bool" where
  "placed env ticks rq R res R' =
     (case res of Inr (Some (a, claim)) \<Rightarrow> claimed env ticks rq R a claim R' | _ \<Rightarrow> same_tables env R R')"

lemma placed_same: "same_tables env R S \<Longrightarrow> placed env ticks rq S res R' \<Longrightarrow> placed env ticks rq R res R'"
  using claimed_same [of env R S] same_tables_trans [of env R S] by (auto simp: placed_def split: sum.splits option.splits)

lemma refused_claim:
  assumes "same_tables env R R1" "begin_dispatch (en_breaker env) (fr_registry R1) e (tk_claim_clock (ticks i)) = (None, r)" "refused_before env R ticks i ex"
  shows "same_tables env R (R1\<lparr>fr_registry := r\<rparr>)" "refused_before env R ticks (Suc i) (List.insert e ex)"
proof -
  note bd = begin_dispatch_result [OF assms(2)]
  show "same_tables env R (R1\<lparr>fr_registry := r\<rparr>)"
    by (rule same_tables_trans [OF assms(1)]) (intro same_tablesI(1) bd(2) refl)
  show "refused_before env R ticks (Suc i) (List.insert e ex)"
    using assms(3) bd(1) same_tablesD(7) [OF assms(1)] unfolding refused_before_def by (auto intro: less_SucI exI [of _ i]) (meson less_SucI)
qed

lemma claim_loop_sound:
  assumes "claim_loop env ticks rq i n ex R = (res, R')" "refused_before env R ticks i ex"
  shows "placed env ticks rq R res R'"
  using assms
proof (induction n arbitrary: i ex R)
  case (Suc n)
  obtain sel R1 where s: "select_adapter env R (ticks i) rq None ex None False = (sel, R1)" by fastforce
  note snd' = select_adapter_sound [OF not_present_None s]
  have R1: "same_tables env R R1" by (rule snd'(1))
  consider (ended) "\<nexists>a. sel = Inr (Some a)" | (found) a where "sel = Inr (Some a)" by blast
  then show ?case
  proof cases
    case ended
    then show ?thesis using Suc.prems(1) R1 s by (auto simp: placed_def split: sum.splits option.splits)
  next
    case (found a)
    obtain c r2 where bd: "begin_dispatch (en_breaker env) (fr_registry R1) (endpoint_id_for_adapter a) (tk_claim_clock (ticks i)) = (c, r2)" by fastforce
    have loop: "claim_loop env ticks rq i (Suc n) ex R =
        (case c of Some d \<Rightarrow> (Inr (Some (a, Some d)), R1\<lparr>fr_registry := r2\<rparr>)
         | None \<Rightarrow> claim_loop env ticks rq (Suc i) n (List.insert (endpoint_id_for_adapter a) ex) (R1\<lparr>fr_registry := r2\<rparr>))"
      using s found bd by (simp split: option.split)
    show ?thesis
    proof (cases c)
      case (Some d)
      have "claimed env ticks rq R a (Some d) (R1\<lparr>fr_registry := r2\<rparr>)"
        using snd'(2) [OF found] R1 bd Some Suc.prems(2) unfolding claimed_def
        by (intro exI [of _ i] exI [of _ ex] exI [of _ R1] exI [of _ d] exI [of _ r2]) (simp add: present_def)
      then show ?thesis using loop Suc.prems(1) Some by (auto simp: placed_def)
    next
      case None
      note rc = refused_claim [OF R1 bd [unfolded None] Suc.prems(2)]
      have "refused_before env (R1\<lparr>fr_registry := r2\<rparr>) ticks (Suc i) (List.insert (endpoint_id_for_adapter a) ex)"
        using rc same_tablesD(7) [OF rc(1)] unfolding refused_before_def by simp
      from Suc.IH [OF _ this] show ?thesis using loop None Suc.prems(1) by (intro placed_same [OF rc(1)]) simp
    qed
  qed
qed (auto simp: placed_def split: sum.split)

lemma select_and_claim_sound:
  assumes "select_and_claim_adapter env ticks rq R = (res, R')" "\<not> present (rq_pin rq)"
  shows "placed env ticks rq R res R'"
    "res = Inr (Some (a, c)) \<Longrightarrow> present (rq_preferred rq) \<Longrightarrow> rq_require_target rq \<Longrightarrow> Some (endpoint_id_for_adapter a) = rq_preferred rq"
proof -
  define n where "n = (case dict_get (fr_routes R) (rq_model rq) of
      None \<Rightarrow> 1 | Some route \<Rightarrow> if rc_adapters route = [] then 1 else length (rc_adapters route))"
  have n: "0 < n" by (auto simp: n_def split: option.split)
  have empty: "refused_before env S ticks i []" for S i by (simp add: refused_before_def)
  have "placed env ticks rq R res R' \<and> (res = Inr (Some (a, c)) \<and> present (rq_preferred rq) \<and> rq_require_target rq \<longrightarrow>
      Some (endpoint_id_for_adapter a) = rq_preferred rq)"
  proof (cases "present (rq_preferred rq)")
    case False
    then have "claim_loop env ticks rq 0 n [] R = (res, R')" using assms by (simp add: select_and_claim_adapter_def n_def Let_def)
    from claim_loop_sound [OF this empty] show ?thesis using False by simp
  next
    case True
    obtain sel R1 where s: "select_adapter env R (ticks 0) rq None [] (rq_preferred rq) (rq_require_target rq) = (sel, R1)" by fastforce
    note snd' = select_adapter_sound [OF not_present_None s]
    have R1: "same_tables env R R1" by (rule snd'(1))
    have res: "(res, R') = (case sel of
        Inl err \<Rightarrow> (Inl err, R1)
      | Inr None \<Rightarrow> claim_loop env ticks rq 1 n [] R1
      | Inr (Some a) \<Rightarrow>
          (case begin_dispatch (en_breaker env) (fr_registry R1) (endpoint_id_for_adapter a) (tk_claim_clock (ticks 0)) of
             (Some c, r2) \<Rightarrow> (Inr (Some (a, Some c)), R1\<lparr>fr_registry := r2\<rparr>)
           | (None, r2) \<Rightarrow>
               if rq_require_target rq then (Inl TargetUnavailableError, R1\<lparr>fr_registry := r2\<rparr>)
               else claim_loop env ticks rq 1 n [endpoint_id_for_adapter a] (R1\<lparr>fr_registry := r2\<rparr>)))"
      using assms True n s unfolding select_and_claim_adapter_def n_def [symmetric] Let_def
      by (simp split: sum.split option.split)
    consider (err) err where "sel = Inl err" | (none) "sel = Inr None" | (found) a where "sel = Inr (Some a)" by (metis sum.exhaust option.exhaust)
    then show ?thesis
    proof cases
      case err
      then show ?thesis using res R1 by (simp add: placed_def)
    next
      case none
      have "route_range R1 rq = []" using snd'(4) none effective_same(4) [OF R1] by simp
      then have "\<not> claimed env ticks rq R1 a c R'" for a c by (auto simp: claimed_def candidates_def)
      moreover have pl: "placed env ticks rq R1 res R'" using res none by (intro claim_loop_sound [OF _ empty]) simp
      ultimately have "\<nexists>a c. res = Inr (Some (a, c))" by (auto simp: placed_def)
      then show ?thesis using placed_same [OF R1 pl] by blast
    next
      case (found b)
      obtain d r2 where bd: "begin_dispatch (en_breaker env) (fr_registry R1) (endpoint_id_for_adapter b) (tk_claim_clock (ticks 0)) = (d, r2)" by fastforce
      show ?thesis
      proof (cases d)
        case (Some cl)
        have "claimed env ticks rq R b (Some cl) (R1\<lparr>fr_registry := r2\<rparr>)"
          using snd'(2) [OF found] R1 bd Some empty unfolding claimed_def
          by (intro exI [of _ 0] exI [of _ "[]"] exI [of _ R1] exI [of _ cl] exI [of _ r2]) (simp add: present_def)
        moreover have "present (rq_preferred rq) \<and> rq_require_target rq \<longrightarrow> Some (endpoint_id_for_adapter b) = rq_preferred rq"
          using snd'(2) [OF found] by (simp add: present_def)
        ultimately show ?thesis using res found bd Some by (auto simp: placed_def)
      next
        case None
        note rc = refused_claim [OF R1 bd [unfolded None] empty]
        have before: "refused_before env (R1\<lparr>fr_registry := r2\<rparr>) ticks 1 [endpoint_id_for_adapter b]"
          using rc(2) same_tablesD(7) [OF rc(1)] unfolding refused_before_def by simp
        show ?thesis
        proof (cases "rq_require_target rq")
          case True
          then show ?thesis using res found bd None rc(1) by (simp add: placed_def)
        next
          case False
          then have "claim_loop env ticks rq 1 n [endpoint_id_for_adapter b] (R1\<lparr>fr_registry := r2\<rparr>) = (res, R')" using res found bd None by simp
          then show ?thesis using False claim_loop_sound [OF _ before] placed_same [OF rc(1)] by blast
        qed
      qed
    qed
  qed
  then show "placed env ticks rq R res R'"
    "res = Inr (Some (a, c)) \<Longrightarrow> present (rq_preferred rq) \<Longrightarrow> rq_require_target rq \<Longrightarrow> Some (endpoint_id_for_adapter a) = rq_preferred rq"
    by blast+
qed

lemma effective_weight:
  assumes "(a, w) \<in> set (get_effective_adapters R m route)" "0 < w"
  shows "\<not> switched_off R (canonical_of route m) a"
proof
  assume off: "switched_off R (canonical_of route m) a"
  then have "\<not> (fr_disabled R = None \<and> fr_route_states R = None)" by (auto simp: switched_off_def)
  then have "w = 0" if "(a, w) \<in> set (apply_disabled_providers R as (canonical_of route m))" for as
    using that off by (auto simp: apply_disabled_providers_def split: if_splits)
  with assms show False by (auto simp: get_effective_adapters_def Let_def split: option.splits list.splits)
qed

lemma range_switched:
  assumes "(a, w) \<in> set (route_range R rq)" "0 < w"
  shows "\<not> switched_off R (canonical_id R (rq_model rq)) a" "adapter_in_endpoint_scope a (rq_scope rq)" "adapter_supports_modalities a (rq_modalities rq)"
proof -
  obtain route where r: "dict_get (fr_routes R) (rq_model rq) = Some route" "(a, w) \<in> set (dispatch_range R (rq_model rq) route (rq_scope rq) (rq_modalities rq))"
    using assms(1) by (cases "dict_get (fr_routes R) (rq_model rq)") (auto simp: route_range_def split: if_splits)
  then have "(a, w) \<in> set (get_effective_adapters R (rq_model rq) route)" by (auto simp: dispatch_range_def)
  from effective_weight [OF this assms(2)] show "\<not> switched_off R (canonical_id R (rq_model rq)) a" using r(1) by (simp add: canonical_id_def)
  show "adapter_in_endpoint_scope a (rq_scope rq)" "adapter_supports_modalities a (rq_modalities rq)" using r(2) by (auto simp: dispatch_range_def)
qed

lemma select_pinned:
  assumes "select_adapter env R tk rq pin exclude preferred require_target = (Inr (Some a), R')" "present pin"
  shows "R' = R" "\<exists>w. (a, w) \<in> set (route_range R rq) \<and> 0 < w" "Some (ra_provider a) = pin \<or> Some (endpoint_id_for_adapter a) = pin"
proof -
  obtain route where r: "dict_get (fr_routes R) (rq_model rq) = Some route" "rc_published route" "rc_adapters route \<noteq> []"
    using assms(1) by (auto simp: select_adapter_def split: option.splits if_splits)
  have snap: "filter (\<lambda>(a, w). adapter_supports_modalities a (rq_modalities rq))
      (filter (\<lambda>(a, w). adapter_in_endpoint_scope a (rq_scope rq)) (get_effective_adapters R (rq_model rq) route)) = route_range R rq"
    using r by (auto simp: route_range_def dispatch_range_def intro!: filter_cong)
  show "R' = R" "\<exists>w. (a, w) \<in> set (route_range R rq) \<and> 0 < w" "Some (ra_provider a) = pin \<or> Some (endpoint_id_for_adapter a) = pin"
    using assms r(2,3) unfolding select_adapter_def r(1) option.case Let_def snap by (auto dest!: find_SomeD split: if_splits)
qed

lemma claim_loop_places:
  assumes "tk_clock (ticks i) = ck" "tk_claim_clock (ticks i) = ck" "x \<in> set (candidates env R rq ck [])" "offload_may R rq (fst x)"
  shows "\<exists>a c R'. claim_loop env ticks rq i (Suc n) [] R = (Inr (Some (a, Some c)), R')"
proof -
  obtain sel R1 where s: "select_adapter env R (ticks i) rq None [] None False = (sel, R1)" by fastforce
  note so = select_adapter_sound [OF not_present_None s]
  obtain a where a: "sel = Inr (Some a)" using so(3) [of x] assms by auto
  then have "admitted env R ck a" using so(2) assms(1) by (auto simp: candidates_def)
  then have adm: "admitted env R1 ck a" using same_tablesD(8) [OF so(1)] by simp
  obtain c r2 where bd: "begin_dispatch (en_breaker env) (fr_registry R1) (endpoint_id_for_adapter a) ck = (c, r2)" by fastforce
  have "c \<noteq> None" using begin_dispatch_result(1) [OF bd] adm by (simp add: admitted_def)
  then show ?thesis using s a bd assms(2) by auto
qed

lemma claimed_candidate:
  assumes "claimed env ticks rq R a claim R'"
  shows "\<exists>i w c. claim = Some c \<and> dc_endpoint_id c = endpoint_id_for_adapter a \<and> (a, w) \<in> set (route_range R rq) \<and> 0 < w \<and>
    admitted env R (tk_clock (ticks i)) a \<and> admitted env R (tk_claim_clock (ticks i)) a"
proof -
  obtain i ex R1 c r w where cl: "(a, w) \<in> set (candidates env R rq (tk_clock (ticks i)) ex)" "same_tables env R R1"
    "begin_dispatch (en_breaker env) (fr_registry R1) (endpoint_id_for_adapter a) (tk_claim_clock (ticks i)) = (Some c, r)" "claim = Some c"
    using assms unfolding claimed_def by blast
  note bd = begin_dispatch_result [OF cl(3)]
  have "admitted env R (tk_claim_clock (ticks i)) a" using bd(1) same_tablesD(7) [OF cl(2)] by (simp add: admitted_def)
  with cl(1,4) bd(3) [OF refl] show ?thesis
    unfolding candidates_def by (intro exI [of _ i] exI [of _ w] exI [of _ c]) simp
qed

section \<open>An example\<close>

definition demo_env :: router_env where
  "demo_env = \<lparr>en_blake = (\<lambda>s. s), en_parser = (\<lambda>_. None),
     en_prefill = \<lparr>pf_enabled = True, pf_elephant_tokens = 100000, pf_elephant_limit = 1, pf_intervene_tokens = 8000,
       pf_affinity_ceiling = 60000, pf_priority_interactive = 0, pf_priority_large = 1, pf_priority_elephant = 2, pf_hint_ttl = 300\<rparr>,
     en_breaker = \<lparr>cf_alpha = None, cf_failure_threshold = None, cf_cooldown_seconds = None, cf_min_availability = None\<rparr>,
     en_alerts = \<lparr>po_enabled = False, po_page_on_usage_limit = False\<rparr>, en_loop_running = False,
     en_affinity_enabled = True, en_affinity_max_age = 86400\<rparr>"

definition demo_router :: fixed_router where
  "demo_router = register_route (FixedRouter_init None None None None) ''m'' [(demo_adapter 0 ''a'', 3), (demo_adapter 1 ''b'', 1)] [] False ''free'' True"

definition demo_request :: route_request where
  "demo_request = \<lparr>rq_model = ''m'', rq_pin = None, rq_preferred = None, rq_scope = None, rq_allow_fallback = True, rq_bound = None,
     rq_require_target = False, rq_modalities = [], rq_tokens = 10, rq_fingerprint = None, rq_units = [], rq_affinity_key = Some ''u'',
     rq_user_id = None, rq_user_name = None\<rparr>"

definition demo_tick :: tick where
  "demo_tick = \<lparr>tk_clock = demo_clock 1, tk_claim_clock = demo_clock 1, tk_rand1 = 9 / 10, tk_rand2 = 1 / 10\<rparr>"

lemma demo_selected:
  "fst (select_and_claim_adapter demo_env (\<lambda>_. demo_tick) demo_request demo_router) =
     Inr (Some (demo_adapter 1 ''b'', Some \<lparr>dc_endpoint_id = ''b'', dc_probe_token = None\<rparr>))"
  by code_simp

text \<open>A preferred endpoint is passed over for the pin of the caller, which the preference was meant to
  outrank: only a required target looks past the pin.\<close>

lemma pin_before_preference:
  "fst (select_and_claim_adapter demo_env (\<lambda>_. demo_tick) (demo_request\<lparr>rq_preferred := Some ''a''\<rparr>)
      (snd (select_and_claim_adapter demo_env (\<lambda>_. demo_tick) demo_request demo_router))) =
     Inr (Some (demo_adapter 1 ''b'', Some \<lparr>dc_endpoint_id = ''b'', dc_probe_token = None\<rparr>))"
  by code_simp

section \<open>Properties\<close>

text \<open>C29. Where a request is sent. The router chooses a route of the model that is published, weighs more
  than nothing after overrides, whose provider and route no administrator has switched off, inside
  the scope of the request and accepting its media. Unless the caller pinned it, the circuit of its
  endpoint admitted the request both when it was listed and when it was claimed, and the request
  holds a claim on that endpoint; the model's offload route is chosen only for a prompt it takes and
  only while every other such route was refused at some reading of the clock; and a required target
  is never replaced by another endpoint. A pinned request gets the pin and holds no claim.\<close>

theorem selection_admissible:
  assumes "select_and_claim_adapter env ticks rq R = (Inr (Some (a, claim)), R')"
  shows "(\<exists>w. (a, w) \<in> set (route_range R rq) \<and> 0 < w) \<and>
    \<not> switched_off R (canonical_id R (rq_model rq)) a \<and> adapter_in_endpoint_scope a (rq_scope rq) \<and>
    adapter_supports_modalities a (rq_modalities rq) \<and>
    (if present (rq_pin rq)
     then claim = None \<and> R' = R \<and> (Some (ra_provider a) = rq_pin rq \<or> Some (endpoint_id_for_adapter a) = rq_pin rq)
     else (\<exists>i c. claim = Some c \<and> dc_endpoint_id c = endpoint_id_for_adapter a \<and>
             admitted env R (tk_clock (ticks i)) a \<and> admitted env R (tk_claim_clock (ticks i)) a) \<and>
          (case range_offload R rq of
             None \<Rightarrow> True
           | Some (b, pol) \<Rightarrow> a = b \<longrightarrow> takes_input pol (rq_tokens rq) \<and>
               (\<forall>(a', w') \<in> set (route_range R rq). 0 < w' \<and> a' \<noteq> b \<longrightarrow>
                  (\<exists>i. \<not> admitted env R (tk_clock (ticks i)) a' \<or> \<not> admitted env R (tk_claim_clock (ticks i)) a'))) \<and>
          (present (rq_preferred rq) \<and> rq_require_target rq \<longrightarrow> Some (endpoint_id_for_adapter a) = rq_preferred rq))"
proof (cases "present (rq_pin rq)")
  case True
  then have "select_adapter env R (ticks 0) rq (rq_pin rq) [] None False = (Inr (Some a), R')" "claim = None"
    using assms by (auto simp: select_and_claim_adapter_def split: prod.splits sum.splits)
  note sel = select_pinned [OF this(1) True] and none = this(2)
  then obtain w where "(a, w) \<in> set (route_range R rq)" "0 < w" by blast
  with sel none True show ?thesis using range_switched by auto
next
  case False
  note pl = select_and_claim_sound [OF assms False]
  have cl: "claimed env ticks rq R a claim R'" using pl(1) by (simp add: placed_def)
  obtain i w c where c: "claim = Some c" "dc_endpoint_id c = endpoint_id_for_adapter a" "(a, w) \<in> set (route_range R rq)" "0 < w"
    "admitted env R (tk_clock (ticks i)) a" "admitted env R (tk_claim_clock (ticks i)) a"
    using claimed_candidate [OF cl] by blast
  obtain j ex where j: "offload_may R rq a" "offload_alone R rq a (candidates env R rq (tk_clock (ticks j)) ex)" "refused_before env R ticks j ex"
    using cl unfolding claimed_def by blast
  have off: "takes_input pol (rq_tokens rq) \<and> (\<forall>(a', w') \<in> set (route_range R rq). 0 < w' \<and> a' \<noteq> a \<longrightarrow>
      (\<exists>i. \<not> admitted env R (tk_clock (ticks i)) a' \<or> \<not> admitted env R (tk_claim_clock (ticks i)) a'))"
    if o': "range_offload R rq = Some (a, pol)" for pol
  proof (intro conjI ballI, goal_cases)
    case 1
    then show ?case using j(1) o' by (simp add: offload_may_def)
  next
    case (2 x)
    obtain a' w' where x: "x = (a', w')" by fastforce
    have "endpoint_id_for_adapter a' \<in> set ex \<or> \<not> admitted env R (tk_clock (ticks j)) a'" if "0 < w'" "a' \<noteq> a"
      using j(2) o' that 2 by (auto simp: offload_alone_def candidates_def x)
    then show ?case using j(3) by (auto simp: x refused_before_def admitted_def)
  qed
  have "case range_offload R rq of
             None \<Rightarrow> True
           | Some (b, pol) \<Rightarrow> a = b \<longrightarrow> takes_input pol (rq_tokens rq) \<and>
               (\<forall>(a', w') \<in> set (route_range R rq). 0 < w' \<and> a' \<noteq> b \<longrightarrow>
                  (\<exists>i. \<not> admitted env R (tk_clock (ticks i)) a' \<or> \<not> admitted env R (tk_claim_clock (ticks i)) a'))"
  proof (cases "range_offload R rq")
    case (Some x)
    then show ?thesis using off by (cases x) fastforce
  qed simp
  then show ?thesis unfolding if_not_P [OF False] using c range_switched [OF c(3,4)] pl(2) [OF refl] by blast
qed

theorem selection_admissible_witness:
  "\<exists>i. admitted demo_env demo_router (tk_claim_clock ((\<lambda>_. demo_tick) (i :: nat))) (demo_adapter 1 ''b'')"
proof -
  obtain R' where "select_and_claim_adapter demo_env (\<lambda>_. demo_tick) demo_request demo_router =
      (Inr (Some (demo_adapter 1 ''b'', Some \<lparr>dc_endpoint_id = ''b'', dc_probe_token = None\<rparr>)), R')"
    using demo_selected by (metis prod.collapse)
  note sel = selection_admissible [OF this]
  have "\<not> present (rq_pin demo_request)" by (simp add: demo_request_def)
  from sel [unfolded if_not_P [OF this]] show ?thesis by blast
qed

text \<open>C30. A request that can be placed is placed: when the clock stands still, a request without pin and
  without a required target gets a route with a claim on its endpoint exactly when some route in its
  range weighs more than nothing, is admitted by the circuit of its endpoint, and is not an offload
  route too small for the prompt.\<close>

theorem selection_places:
  assumes "\<And>k. tk_clock (ticks k) = ck" "\<And>k. tk_claim_clock (ticks k) = ck" "\<not> present (rq_pin rq)" "\<not> rq_require_target rq"
  shows "(\<exists>a c R'. select_and_claim_adapter env ticks rq R = (Inr (Some (a, Some c)), R')) \<longleftrightarrow>
    (\<exists>(a, w) \<in> set (route_range R rq). 0 < w \<and> admitted env R ck a \<and>
       (case range_offload R rq of None \<Rightarrow> True | Some (b, pol) \<Rightarrow> a = b \<longrightarrow> takes_input pol (rq_tokens rq)))"
proof
  assume "\<exists>a c R'. select_and_claim_adapter env ticks rq R = (Inr (Some (a, Some c)), R')"
  then obtain a c R' where s: "select_and_claim_adapter env ticks rq R = (Inr (Some (a, Some c)), R')" by blast
  have cl: "claimed env ticks rq R a (Some c) R'" using select_and_claim_sound(1) [OF s assms(3)] by (simp add: placed_def)
  then have "offload_may R rq a" by (auto simp: claimed_def)
  then show "\<exists>(a, w) \<in> set (route_range R rq). 0 < w \<and> admitted env R ck a \<and>
       (case range_offload R rq of None \<Rightarrow> True | Some (b, pol) \<Rightarrow> a = b \<longrightarrow> takes_input pol (rq_tokens rq))"
    using claimed_candidate [OF cl] assms(1) by (auto simp: offload_may_def)
next
  assume "\<exists>(a, w) \<in> set (route_range R rq). 0 < w \<and> admitted env R ck a \<and>
       (case range_offload R rq of None \<Rightarrow> True | Some (b, pol) \<Rightarrow> a = b \<longrightarrow> takes_input pol (rq_tokens rq))"
  then obtain a w where "(a, w) \<in> set (candidates env R rq ck [])" "offload_may R rq a"
    unfolding candidates_def offload_may_def by auto
  then obtain x where x: "x \<in> set (candidates env R rq ck [])" "offload_may R rq (fst x)" by (metis fst_conv)
  define n where "n = (case dict_get (fr_routes R) (rq_model rq) of
      None \<Rightarrow> 1 | Some route \<Rightarrow> if rc_adapters route = [] then 1 else length (rc_adapters route))"
  then have "0 < n" by (simp split: option.split)
  then obtain m where m: "n = Suc m" by (rule gr0_implies_Suc [THEN exE])
  show "\<exists>a c R'. select_and_claim_adapter env ticks rq R = (Inr (Some (a, Some c)), R')"
  proof (cases "present (rq_preferred rq)")
    case False
    then show ?thesis
      using claim_loop_places [OF assms(1,2) x, where i = 0 and n = m] assms(3) m
      by (simp add: select_and_claim_adapter_def n_def [symmetric] Let_def)
  next
    case True
    obtain sel R1 where s: "select_adapter env R (ticks 0) rq None [] (rq_preferred rq) False = (sel, R1)" by fastforce
    note so = select_adapter_sound [OF not_present_None s]
    obtain a where a: "sel = Inr (Some a)" using so(3) [of x] x assms(1) by auto
    then have "admitted env R ck a" using so(2) assms(1) by (auto simp: candidates_def)
    then have adm: "admitted env R1 ck a" using same_tablesD(8) [OF so(1)] by simp
    obtain c r2 where bd: "begin_dispatch (en_breaker env) (fr_registry R1) (endpoint_id_for_adapter a) ck = (c, r2)" by fastforce
    have "c \<noteq> None" using begin_dispatch_result(1) [OF bd] adm by (simp add: admitted_def)
    then show ?thesis using s a bd assms True m
      by (auto simp: select_and_claim_adapter_def n_def [symmetric] Let_def)
  qed
qed

theorem selection_places_witness:
  "\<exists>a c R'. select_and_claim_adapter demo_env (\<lambda>_. demo_tick) demo_request demo_router = (Inr (Some (a, Some c)), R')"
proof -
  have "(demo_adapter 0 ''a'', 3 / 4) \<in> set (route_range demo_router demo_request)" by code_simp
  moreover have "admitted demo_env demo_router (tk_clock demo_tick) (demo_adapter 0 ''a'')" by code_simp
  moreover have "range_offload demo_router demo_request = None" by code_simp
  moreover have "\<not> present (rq_pin demo_request)" "\<not> rq_require_target demo_request" "tk_claim_clock demo_tick = tk_clock demo_tick"
    by (simp_all add: demo_request_def demo_tick_def)
  ultimately show ?thesis
    using selection_places [of "\<lambda>_. demo_tick" "tk_clock demo_tick" demo_request demo_env demo_router] by fastforce
qed

end
