(* ===== verification/Fixed_Router.thy ===== *)
theory Fixed_Router
  imports Route_Selection
begin

text \<open>
  \<open>routing/routers.py\<close>, the dispatch of \<open>FixedRouter\<close>: \<open>chat_completion\<close> and
  \<open>stream_chat_completion\<close> with their fallback loops. A request runs in segments between the points
  where it waits: for the whole response, for the consumer of a stream, for the next chunk. Such a
  point is a \<open>flight\<close>, the local variables of the call; \<open>start_request\<close> is the first segment and
  \<open>resume\<close> the one after an answer. A system of requests interleaves segments with each other and
  with changes an administrator makes.

  Answers of adapters are inputs: the response, a chunk with whether it carries content and its size
  (\<open>has_non_empty_content\<close>, \<open>chunk_buffer_size\<close>), the end of a stream, an exception, or the end of the
  client, which cancels the task or closes the generator. The expiry of a first-token wait is an
  exception of class \<open>EngineWaitExpired\<close>. Each segment reads ticks as a selection does. Log lines,
  prices and base addresses are left out.
\<close>

section \<open>One attempt\<close>

datatype legacy_pin = LegacyUnset | LegacyNone | LegacyStr string | LegacyOther

definition resolve_pin_provider :: "string option \<Rightarrow> legacy_pin \<Rightarrow> router_error + string option" where
  "resolve_pin_provider option_pin legacy =
     (case legacy of
        LegacyUnset \<Rightarrow> Inr option_pin
      | LegacyNone \<Rightarrow> Inr option_pin
      | LegacyStr s \<Rightarrow> if option_pin \<noteq> None then Inl PinTypeError else Inr (Some s)
      | LegacyOther \<Rightarrow> Inl PinTypeError)"

definition execution_adapter :: "route_adapter \<Rightarrow> route_request \<Rightarrow> router_error + route_adapter" where
  "execution_adapter selected rq =
     (case rq_bound rq of
        None \<Rightarrow> Inr selected
      | Some b \<Rightarrow>
          if eb_endpoint_id b = endpoint_id_for_adapter selected then Inr (eb_adapter b)
          else if \<not> rq_require_target rq then Inr selected
          else Inl DispatchMismatchError)"

text \<open>The adapter an attempt runs, once its binding is built.\<close>

definition bind_leaf :: "route_adapter \<Rightarrow> route_request \<Rightarrow> router_error + route_adapter" where
  "bind_leaf selected rq =
     (case execution_adapter selected rq of
        Inl e \<Rightarrow> Inl e
      | Inr x \<Rightarrow> if endpoint_id_for_adapter x = [] \<or> rq_model rq = [] then Inl InvalidBinding else Inr x)"

definition router_on_success :: "router_env \<Rightarrow> fixed_router \<Rightarrow> string \<Rightarrow> fixed_router" where
  "router_on_success env R e = R\<lparr>fr_registry := snd (record_success (en_breaker env) (fr_registry R) e)\<rparr>"

definition router_on_failure ::
  "router_env \<Rightarrow> fixed_router \<Rightarrow> clock \<Rightarrow> string \<Rightarrow> string \<Rightarrow> route_request \<Rightarrow> route_error \<Rightarrow> fixed_router" where
  "router_on_failure env R ck e reason rq err =
     (let R1 = (if failure_may_lose_prefix_cache (Some (re_exn err))
                then R\<lparr>fr_prefill := forget_endpoint (fr_prefill R) e\<rparr> else R)
      in R1\<lparr>fr_registry := snd (record_failure (en_parser env) (en_breaker env) (fr_registry R1) e ck
             \<lparr>fa_reason = reason, fa_detail = ex_operator_text (re_exn err), fa_exn = Some (re_exn err), fa_user_id = rq_user_id rq,
              fa_user_name = rq_user_name rq, fa_policy = en_alerts env, fa_loop_running = en_loop_running env\<rparr>)\<rparr>)"

definition end_claim :: "fixed_router \<Rightarrow> dispatch_claim option \<Rightarrow> fixed_router" where
  "end_claim R claim = R\<lparr>fr_registry := end_dispatch (fr_registry R) claim\<rparr>"

definition release_lease :: "router_env \<Rightarrow> fixed_router \<Rightarrow> time \<Rightarrow> nat option \<Rightarrow> bool \<Rightarrow> fixed_router" where
  "release_lease env R now lease confirmed = R\<lparr>fr_prefill := prefill_release (en_prefill env) (fr_prefill R) now lease confirmed\<rparr>"

text \<open>\<open>_PromptAnchor.for_endpoint\<close> and \<open>_dispatch_priority\<close>.\<close>

definition anchor_for :: "router_env \<Rightarrow> route_request \<Rightarrow> route_adapter \<Rightarrow> anchor option" where
  "anchor_for env rq execution = (if \<not> ra_priority_scheduling execution then None else prompt_anchor (en_blake env) (rq_units rq))"

definition dispatch_priority :: "router_env \<Rightarrow> fixed_router \<Rightarrow> time \<Rightarrow> route_request \<Rightarrow> route_adapter \<Rightarrow> string \<Rightarrow> int option" where
  "dispatch_priority env R now rq execution e =
     (if \<not> ra_priority_scheduling execution then None
      else Some (priority_for_prefill (en_prefill env)
             (uncached_estimate (en_blake env) (fr_prefill R) now e (rq_tokens rq) (current_affinity_key rq) (rq_fingerprint rq)
                (Some (rq_units rq)))))"

definition acquire_lease :: "router_env \<Rightarrow> fixed_router \<Rightarrow> time \<Rightarrow> route_request \<Rightarrow> string \<Rightarrow> anchor option \<Rightarrow> nat \<times> fixed_router" where
  "acquire_lease env R now rq e anch =
     (case prefill_acquire (en_blake env) (en_prefill env) (fr_prefill R) now e (rq_tokens rq) (current_affinity_key rq)
             (rq_fingerprint rq) anch of
        (lease, t) \<Rightarrow> (lease, R\<lparr>fr_prefill := t\<rparr>))"

section \<open>Offload\<close>

definition request_offload_target :: "fixed_router \<Rightarrow> route_request \<Rightarrow> (route_adapter \<times> offload_policy) option" where
  "request_offload_target R rq =
     (if present (rq_pin rq) \<or> fr_offload R = None then None
      else case dict_get (fr_routes R) (rq_model rq) of
             None \<Rightarrow> None
           | Some route \<Rightarrow>
               (case offload_target R (rq_model rq) route
                       (dispatch_range R (rq_model rq) route (rq_scope rq) (rq_modalities rq)) of
                  None \<Rightarrow> None
                | Some (b, pol) \<Rightarrow> if takes_input pol (rq_tokens rq) then Some (b, pol) else None))"

text \<open>\<open>serves\<close> is what the offload adapter answers to \<open>has_capacity_for_role\<close>.\<close>

definition queue_deadline ::
  "router_env \<Rightarrow> fixed_router \<Rightarrow> clock \<Rightarrow> bool \<Rightarrow> route_adapter option \<Rightarrow> offload_policy option \<Rightarrow> int option \<Rightarrow>
     time option \<times> fixed_router" where
  "queue_deadline env R ck serves offload pol refused =
     (case (offload, pol) of
        (Some b, Some p) \<Rightarrow>
          if window_cannot_fit b refused then (None, R)
          else if \<not> serves then (None, R)
          else (case registry_allow_request (en_breaker env) (fr_registry R) (endpoint_id_for_adapter b) ck of
                  (ok, r) \<Rightarrow> (if ok then Some (ck_mono ck + op_wait_seconds p) else None, R\<lparr>fr_registry := r\<rparr>))
      | _ \<Rightarrow> (None, R))"

record primary_offload =
  po_reason :: "offload_reason option"
  po_deadline :: "time option"
  po_policy :: "offload_policy option"

definition primary_offload_plan ::
  "router_env \<Rightarrow> fixed_router \<Rightarrow> clock \<Rightarrow> bool \<Rightarrow> route_request \<Rightarrow> route_adapter \<Rightarrow> primary_offload \<times> fixed_router" where
  "primary_offload_plan env R ck serves rq primary =
     (case request_offload_target R rq of
        None \<Rightarrow> (\<lparr>po_reason = None, po_deadline = None, po_policy = None\<rparr>, R)
      | Some (b, pol) \<Rightarrow>
          if b = primary then (\<lparr>po_reason = Some LAST_RESORT, po_deadline = None, po_policy = None\<rparr>, R)
          else if \<not> rq_allow_fallback rq then (\<lparr>po_reason = None, po_deadline = None, po_policy = None\<rparr>, R)
          else (case queue_deadline env R ck serves (Some b) (Some pol) None of
                  (d, R1) \<Rightarrow> (\<lparr>po_reason = None, po_deadline = d, po_policy = Some pol\<rparr>, R1)))"

definition request_fallback_order :: "fixed_router \<Rightarrow> route_request \<Rightarrow> route_adapter \<Rightarrow> route_adapter fallback_order \<times> offload_policy option" where
  "request_fallback_order R rq primary =
     (case dict_get (fr_routes R) (rq_model rq) of
        None \<Rightarrow> (FallbackOrder_init [] None, None)
      | Some route \<Rightarrow>
          (let cands = dispatch_range R (rq_model rq) route (rq_scope rq) (rq_modalities rq);
               target = offload_target R (rq_model rq) route cands;
               (cands1, target1) = (case target of
                  Some (b, pol) \<Rightarrow> if \<not> takes_input pol (rq_tokens rq) then (filter (\<lambda>(a, w). a \<noteq> b) cands, None) else (cands, target)
                | None \<Rightarrow> (cands, None));
               offload = (case target1 of Some (b, pol) \<Rightarrow> if b = primary then None else Some b | None \<Rightarrow> None);
               ordinary = map fst (filter (\<lambda>(a, w). a \<noteq> primary \<and> 0 < w) cands1)
           in (FallbackOrder_init ordinary offload, map_option snd target1)))"

definition engine_queue_limit :: "fixed_router \<Rightarrow> string \<Rightarrow> int option" where
  "engine_queue_limit R model_id =
     (case (fr_offload R, dict_get (fr_routes R) model_id) of
        (Some source, Some route) \<Rightarrow>
          (case dict_get source (canonical_of route model_id) of None \<Rightarrow> None | Some pol \<Rightarrow> op_engine_queue_limit pol)
      | _ \<Rightarrow> None)"

section \<open>A request on its way\<close>

definition PRE_CONTENT_BUFFER_MAX_BYTES :: nat where "PRE_CONTENT_BUFFER_MAX_BYTES = 1000000"

text \<open>The local variables of a call that waits. \<open>fl_claim\<close> is the claim of a fallback, \<open>fl_announced\<close> a
  stream whose routing chunk is being consumed, \<open>fl_holding\<close> a first-token wait with the bytes and
  the number of chunks it holds back; what the adapter is told is \<open>fl_deadline\<close>, \<open>fl_priority\<close> and
  \<open>fl_engine_limit\<close>.\<close>

record flight =
  fl_request :: route_request
  fl_stream :: bool
  fl_primary :: route_adapter
  fl_primary_claim :: "dispatch_claim option"
  fl_fallback :: bool
  fl_route :: route_adapter
  fl_execution :: route_adapter
  fl_claim :: "dispatch_claim option"
  fl_lease :: "nat option"
  fl_offload_reason :: "offload_reason option"
  fl_deadline :: "time option"
  fl_priority :: "int option"
  fl_engine_limit :: "int option"
  fl_announced :: bool
  fl_holding :: "(nat \<times> nat) option"
  fl_first :: bool
  fl_yielded :: bool
  fl_attempts :: "route_attempt list"
  fl_failed :: "(string \<times> int option) list"
  fl_refused_window :: "int option"
  fl_order :: "route_adapter fallback_order"
  fl_offload_policy :: "offload_policy option"

datatype outcome =
    Served routing_block
  | Streamed
  | Raised route_error routing_block
  | RaisedRouter router_error
  | Cancelled

datatype answer =
    Pull
  | Whole "routing_block option"
  | Chunk bool nat
  | StreamEnd
  | Failed route_error
  | Hangup

type_synonym segment_end = "(outcome + flight) \<times> fixed_router"

text \<open>Every exit runs the \<open>finally\<close> blocks: the lease and both claims go back. Giving back twice does nothing.\<close>

definition finish :: "router_env \<Rightarrow> time \<Rightarrow> flight \<Rightarrow> outcome \<Rightarrow> fixed_router \<Rightarrow> segment_end" where
  "finish env now fl out R =
     (Inl out, end_claim (end_claim (release_lease env R now (fl_lease fl) False) (fl_claim fl)) (fl_primary_claim fl))"

definition failure_reason :: "flight \<Rightarrow> string" where
  "failure_reason fl = (if fl_stream fl then ''stream_exception'' else ''chat_exception'')"

text \<open>The block put on the error of an attempt that is re-raised. It holds the list of failed attempts by
  reference, which is filled in where the error leaves the router.\<close>

definition own_block :: "flight \<Rightarrow> routing_block" where
  "own_block fl = no_routing\<lparr>rb_provider := Some (ra_provider (fl_execution fl)),
     rb_endpoint_id := Some (endpoint_id_for_adapter (fl_route fl)), rb_fallback := (if fl_fallback fl then Some True else None)\<rparr>"

definition attach_block :: "flight \<Rightarrow> route_attempt list \<Rightarrow> route_error \<Rightarrow> route_error" where
  "attach_block fl as err =
     err\<lparr>re_routing := Some (mark_offload (case re_routing err of Some rb \<Rightarrow> rb | None \<Rightarrow> own_block fl) as)\<rparr>"

definition reraise :: "flight \<Rightarrow> route_attempt list \<Rightarrow> (string \<times> int option) list \<Rightarrow> route_error \<Rightarrow> outcome" where
  "reraise fl as failed err =
     (let e = attach_block fl as err; rb = the (re_routing e)
      in Raised e (if re_routing err = None then rb\<lparr>rb_failed_attempts := Some failed\<rparr> else rb))"

definition surfaced :: "router_env \<Rightarrow> time \<Rightarrow> flight \<Rightarrow> fixed_router \<Rightarrow> segment_end" where
  "surfaced env now fl R = (case raise_surfaced_error (fl_attempts fl) (fl_failed fl) of (e, rb) \<Rightarrow> finish env now fl (Raised e rb) R)"

text \<open>The dispatch of one fallback candidate, up to where it waits.\<close>

definition dispatch_fallback ::
  "router_env \<Rightarrow> tick \<Rightarrow> bool \<Rightarrow> flight \<Rightarrow> route_adapter \<Rightarrow> offload_reason option \<Rightarrow> route_adapter \<Rightarrow> dispatch_claim \<Rightarrow>
     fixed_router \<Rightarrow> flight \<times> fixed_router" where
  "dispatch_fallback env tk serves fl a reason execution claim R =
     (let rq = fl_request fl; e = endpoint_id_for_adapter a; ck = tk_claim_clock tk;
          priority = dispatch_priority env R (ck_mono ck) rq execution e;
          (deadline, R1) = (if reason \<noteq> None then (None, R)
                            else queue_deadline env R ck serves (offload_pending (fl_order fl)) (fl_offload_policy fl) (fl_refused_window fl));
          fl1 = fl\<lparr>fl_fallback := True, fl_route := a, fl_execution := execution, fl_claim := Some claim, fl_offload_reason := reason,
                   fl_deadline := deadline, fl_priority := priority, fl_first := True, fl_lease := None\<rparr>
      in if fl_stream fl
         then (fl1\<lparr>fl_announced := True, fl_holding := (if fl_offload_policy fl \<noteq> None \<and> deadline \<noteq> None then Some (0, 0) else None)\<rparr>, R1)
         else
           (case acquire_lease env (R1\<lparr>fr_registry := ensure (en_breaker env) (fr_registry R1) e\<rparr>) (ck_mono ck) rq e (anchor_for env rq execution) of
              (lease, R2) \<Rightarrow> (fl1\<lparr>fl_lease := Some lease\<rparr>, R2)))"

text \<open>The fallback loop up to its next attempt. The \<open>k\<close>-th candidate has the \<open>k\<close>-th tick.\<close>

function walk_on :: "router_env \<Rightarrow> (nat \<Rightarrow> tick) \<Rightarrow> bool \<Rightarrow> nat \<Rightarrow> flight \<Rightarrow> fixed_router \<Rightarrow> segment_end" where
  "walk_on env ticks serves k fl R =
     (case order_next (fl_order fl) of
        None \<Rightarrow> surfaced env (ck_mono (tk_clock (ticks k))) fl R
      | Some ((a, reason), o') \<Rightarrow>
          (let fl1 = fl\<lparr>fl_order := o'\<rparr>
           in if skips_for_context_window a (fl_refused_window fl) then walk_on env ticks serves (Suc k) fl1 R
              else
                (case bind_leaf a (fl_request fl) of
                   Inl err \<Rightarrow> finish env (ck_mono (tk_clock (ticks k))) fl1 (RaisedRouter err) R
                 | Inr x \<Rightarrow>
                     (let fl2 = (if a = fl_primary fl then fl1\<lparr>fl_primary_claim := None\<rparr> else fl1);
                          R1 = (if a = fl_primary fl then end_claim R (fl_primary_claim fl) else R)
                      in case begin_dispatch (en_breaker env) (fr_registry R1) (endpoint_id_for_adapter a) (tk_claim_clock (ticks k)) of
                           (None, r) \<Rightarrow> walk_on env ticks serves (Suc k) fl2 (R1\<lparr>fr_registry := r\<rparr>)
                         | (Some c, r) \<Rightarrow>
                             (case dispatch_fallback env (ticks k) serves fl2 a reason x c (R1\<lparr>fr_registry := r\<rparr>) of
                                (fl3, R2) \<Rightarrow> (Inr fl3, R2))))))"
  by auto
termination
  by (relation "measure (\<lambda>(env, ticks, serves, k, fl, R). left_of_order (fl_order fl))") (auto simp: next_left)

declare walk_on.simps [simp del]

definition fail_primary :: "router_env \<Rightarrow> (nat \<Rightarrow> tick) \<Rightarrow> bool \<Rightarrow> flight \<Rightarrow> route_error \<Rightarrow> fixed_router \<Rightarrow> segment_end" where
  "fail_primary env ticks serves fl err R =
     (let ck = tk_clock (ticks 0); now = ck_mono ck; rq = fl_request fl; primary = fl_primary fl;
          R1 = router_on_failure env (release_lease env R now (fl_lease fl) False) ck (endpoint_id_for_adapter primary) (failure_reason fl) rq err;
          failed = [failed_attempt (fl_execution fl) err];
          at0 = \<lparr>at_adapter = primary, at_error = err, at_offload = fl_offload_reason fl, at_route = Some primary\<rparr>
      in if present (rq_pin rq) \<or> \<not> rq_allow_fallback rq then finish env now fl (reraise fl [at0] failed err) R1
         else
           (let R2 = drop_affinity R1 rq
            in if fl_yielded fl then finish env now fl (reraise fl [at0] failed err) R2
               else
                 (case request_fallback_order R2 rq primary of
                    (order, pol) \<Rightarrow>
                      walk_on env ticks serves 1
                        (fl\<lparr>fl_attempts := [at0\<lparr>at_error := attach_block fl [at0] err\<rparr>], fl_failed := failed,
                            fl_refused_window := widest_refused_window None primary err,
                            fl_order := order_record_failure order (re_exn err) (Some primary), fl_offload_policy := pol,
                            fl_lease := None\<rparr>) R2)))"

definition fail_fallback :: "router_env \<Rightarrow> (nat \<Rightarrow> tick) \<Rightarrow> bool \<Rightarrow> flight \<Rightarrow> route_error \<Rightarrow> fixed_router \<Rightarrow> segment_end" where
  "fail_fallback env ticks serves fl err R =
     (let ck = tk_clock (ticks 0); now = ck_mono ck; rq = fl_request fl;
          R0 = (if fl_stream fl then R else release_lease env R now (fl_lease fl) False);
          R1 = router_on_failure env R0 ck (endpoint_id_for_adapter (fl_route fl)) (failure_reason fl) rq err;
          failed = fl_failed fl @ [failed_attempt (fl_execution fl) err];
          as = fl_attempts fl @ [\<lparr>at_adapter = fl_execution fl, at_error = err, at_offload = fl_offload_reason fl, at_route = Some (fl_route fl)\<rparr>]
      in if fl_yielded fl then finish env now fl (reraise fl as failed err) R1
         else
           (let R2 = end_claim (release_lease env R1 now (fl_lease fl) False) (fl_claim fl);
                fl1 = fl\<lparr>fl_attempts := as, fl_failed := failed,
                         fl_refused_window := widest_refused_window (fl_refused_window fl) (fl_route fl) err,
                         fl_order := order_record_failure (fl_order fl) (re_exn err) (Some (fl_route fl)),
                         fl_claim := None, fl_lease := None\<rparr>
            in if stops_after_request_refusals as then surfaced env now fl1 R2
               else walk_on env ticks serves 1 fl1 R2))"

definition attempt_failed :: "router_env \<Rightarrow> (nat \<Rightarrow> tick) \<Rightarrow> bool \<Rightarrow> flight \<Rightarrow> route_error \<Rightarrow> fixed_router \<Rightarrow> segment_end" where
  "attempt_failed env ticks serves fl err R =
     (if fl_fallback fl then fail_fallback env ticks serves fl err R else fail_primary env ticks serves fl err R)"

text \<open>The metadata of a response that came back whole.\<close>

definition response_block :: "flight \<Rightarrow> routing_block option \<Rightarrow> routing_block" where
  "response_block fl given =
     (let rb0 = (case given of
                   Some rb \<Rightarrow> rb
                 | None \<Rightarrow> no_routing\<lparr>rb_provider := Some (ra_provider (fl_execution fl)), rb_fallback := (if fl_fallback fl then Some True else None)\<rparr>);
          rb1 = rb0\<lparr>rb_endpoint_id := setdefault (rb_endpoint_id rb0) (endpoint_id_for_adapter (fl_route fl))\<rparr>;
          rb2 = (if fl_fallback fl then rb1\<lparr>rb_failed_attempts := setdefault (rb_failed_attempts rb1) (fl_failed fl)\<rparr> else rb1);
          rb3 = (case fl_offload_reason fl of Some r \<Rightarrow> rb2\<lparr>rb_offload := setdefault (rb_offload rb2) r\<rparr> | None \<Rightarrow> rb2)
      in if fl_fallback fl then mark_offload rb3 (fl_attempts fl) else rb3)"

definition served :: "router_env \<Rightarrow> time \<Rightarrow> flight \<Rightarrow> fixed_router \<Rightarrow> fixed_router" where
  "served env now fl R =
     router_on_success env (release_lease env R now (fl_lease fl) True) (endpoint_id_for_adapter (fl_route fl))"

text \<open>A chunk of a stream: held back while the first token is awaited and the buffer has room.\<close>

definition on_chunk :: "router_env \<Rightarrow> time \<Rightarrow> flight \<Rightarrow> bool \<Rightarrow> nat \<Rightarrow> fixed_router \<Rightarrow> flight \<times> fixed_router" where
  "on_chunk env now fl content sz R =
     (let (fl1, R1) = (if fl_first fl \<and> content then (fl\<lparr>fl_first := False\<rparr>, served env now fl R) else (fl, R))
      in case fl_holding fl of
           None \<Rightarrow> (fl1\<lparr>fl_yielded := True\<rparr>, R1)
         | Some (bytes, n) \<Rightarrow>
             if content \<or> PRE_CONTENT_BUFFER_MAX_BYTES \<le> bytes + sz then (fl1\<lparr>fl_holding := None, fl_yielded := True\<rparr>, R1)
             else (fl1\<lparr>fl_holding := Some (bytes + sz, Suc n)\<rparr>, R1))"

text \<open>The consumer took the routing chunk: a fallback is charged now, the primary already was.\<close>

definition on_pull :: "router_env \<Rightarrow> time \<Rightarrow> flight \<Rightarrow> fixed_router \<Rightarrow> flight \<times> fixed_router" where
  "on_pull env now fl R =
     (if fl_fallback fl
      then (case acquire_lease env R now (fl_request fl) (endpoint_id_for_adapter (fl_route fl)) (anchor_for env (fl_request fl) (fl_execution fl)) of
              (lease, R1) \<Rightarrow> (fl\<lparr>fl_announced := False, fl_lease := Some lease\<rparr>, R1))
      else (fl\<lparr>fl_announced := False\<rparr>, R))"

text \<open>\<open>None\<close>: the call does not wait for such an answer here.\<close>

definition resume :: "router_env \<Rightarrow> (nat \<Rightarrow> tick) \<Rightarrow> bool \<Rightarrow> flight \<Rightarrow> answer \<Rightarrow> fixed_router \<Rightarrow> segment_end option" where
  "resume env ticks serves fl ans R =
     (let now = ck_mono (tk_clock (ticks 0)) in
      case ans of
        Hangup \<Rightarrow> Some (finish env now fl Cancelled R)
      | Failed err \<Rightarrow> if fl_announced fl then None else Some (attempt_failed env ticks serves fl err R)
      | Whole rb \<Rightarrow> if fl_stream fl then None else Some (finish env now fl (Served (response_block fl rb)) (served env now fl R))
      | Pull \<Rightarrow> if fl_announced fl then Some (case on_pull env now fl R of (fl1, R1) \<Rightarrow> (Inr fl1, R1)) else None
      | Chunk content sz \<Rightarrow>
          if fl_stream fl \<and> \<not> fl_announced fl then Some (case on_chunk env now fl content sz R of (fl1, R1) \<Rightarrow> (Inr fl1, R1)) else None
      | StreamEnd \<Rightarrow> if fl_stream fl \<and> \<not> fl_announced fl then Some (finish env now fl Streamed R) else None)"

definition start_request ::
  "router_env \<Rightarrow> (nat \<Rightarrow> tick) \<Rightarrow> bool \<Rightarrow> bool \<Rightarrow> legacy_pin \<Rightarrow> route_request \<Rightarrow> fixed_router \<Rightarrow> segment_end" where
  "start_request env ticks serves stream legacy rq0 R =
     (case resolve_pin_provider (rq_pin rq0) legacy of
        Inl e \<Rightarrow> (Inl (RaisedRouter e), R)
      | Inr pin \<Rightarrow>
          (let rq = rq0\<lparr>rq_pin := pin\<rparr>; ck = tk_claim_clock (ticks 0) in
           case select_and_claim_adapter env ticks rq R of
             (Inl e, R1) \<Rightarrow> (Inl (RaisedRouter e), R1)
           | (Inr None, R1) \<Rightarrow> (Inl (RaisedRouter (if present pin then ProviderPinError else NoRouteConfigured)), R1)
           | (Inr (Some (primary, claim)), R1) \<Rightarrow>
               (let e = endpoint_id_for_adapter primary; leaf = bind_leaf primary rq;
                    (lease, R2) = acquire_lease env R1 (ck_mono ck) rq e (case leaf of Inl _ \<Rightarrow> None | Inr x \<Rightarrow> anchor_for env rq x)
                in case leaf of
                     Inl err \<Rightarrow> (Inl (RaisedRouter err), release_lease env (end_claim R2 claim) (ck_mono ck) (Some lease) False)
                   | Inr x \<Rightarrow>
                       (let (plan, R3) = primary_offload_plan env R2 ck serves rq primary
                        in (Inr \<lparr>fl_request = rq, fl_stream = stream, fl_primary = primary, fl_primary_claim = claim, fl_fallback = False,
                                 fl_route = primary, fl_execution = x, fl_claim = None, fl_lease = Some lease, fl_offload_reason = po_reason plan,
                                 fl_deadline = po_deadline plan, fl_priority = dispatch_priority env R3 (ck_mono ck) rq x e,
                                 fl_engine_limit = (if stream then engine_queue_limit R3 (rq_model rq) else None), fl_announced = stream,
                                 fl_holding = (if stream \<and> po_policy plan \<noteq> None \<and> po_deadline plan \<noteq> None then Some (0, 0) else None),
                                 fl_first = True, fl_yielded = False, fl_attempts = [], fl_failed = [], fl_refused_window = None,
                                 fl_order = FallbackOrder_init [] None, fl_offload_policy = None\<rparr>,
                            if stream then R3 else R3\<lparr>fr_registry := ensure (en_breaker env) (fr_registry R3) e\<rparr>)))))"

section \<open>Many requests\<close>

record system =
  sy_router :: fixed_router
  sy_calls :: "(outcome + flight) list"

datatype admin_change =
    SetRoute string "(route_adapter \<times> real) list" "string list" bool string bool
  | DropRoute string
  | SetOverrides "(string, (string, real) dict) dict option"
  | SetDisabled "string list option"
  | SetRouteStates "(string \<times> string) list option"
  | SetOffload "(string, offload_policy) dict option"

fun admin_step :: "fixed_router \<Rightarrow> admin_change \<Rightarrow> fixed_router" where
  "admin_step R (SetRoute m as aliases admin_only role published) = register_route R m as aliases admin_only role published"
| "admin_step R (DropRoute m) = R\<lparr>fr_routes := dict_del m (fr_routes R)\<rparr>"
| "admin_step R (SetOverrides x) = R\<lparr>fr_overrides := x\<rparr>"
| "admin_step R (SetDisabled x) = R\<lparr>fr_disabled := x\<rparr>"
| "admin_step R (SetRouteStates x) = R\<lparr>fr_route_states := x\<rparr>"
| "admin_step R (SetOffload x) = R\<lparr>fr_offload := x\<rparr>"

datatype system_event =
    Arrive "nat \<Rightarrow> tick" bool bool legacy_pin route_request
  | Answer nat "nat \<Rightarrow> tick" bool answer
  | Admin admin_change
  | PageSent string clock "time option" nat bool

text \<open>A call answers only while it is under way.\<close>

fun system_step :: "router_env \<Rightarrow> system \<Rightarrow> system_event \<Rightarrow> system option" where
  "system_step env s (Arrive ticks serves stream legacy rq) =
     (case start_request env ticks serves stream legacy rq (sy_router s) of
        (res, R) \<Rightarrow> Some \<lparr>sy_router = R, sy_calls = sy_calls s @ [res]\<rparr>)"
| "system_step env s (Answer i ticks serves ans) =
     (if length (sy_calls s) \<le> i then None
      else case sy_calls s ! i of
             Inl _ \<Rightarrow> None
           | Inr fl \<Rightarrow>
               (case resume env ticks serves fl ans (sy_router s) of
                  None \<Rightarrow> None
                | Some (res, R) \<Rightarrow> Some \<lparr>sy_router = R, sy_calls = (sy_calls s)[i := res]\<rparr>))"
| "system_step env s (Admin ch) = Some (s\<lparr>sy_router := admin_step (sy_router s) ch\<rparr>)"
| "system_step env s (PageSent e ck epoch gen delivered) =
     Some (s\<lparr>sy_router := (sy_router s)\<lparr>fr_registry := page_sent (fr_registry (sy_router s)) e ck epoch gen delivered\<rparr>\<rparr>)"

definition system_init :: "fixed_router \<Rightarrow> system" where
  "system_init R = \<lparr>sy_router = R, sy_calls = []\<rparr>"

section \<open>What a segment hands on\<close>

text \<open>The two resources a call holds: the probe of a half-open circuit and the prefill charge of an
  endpoint. \<open>handed\<close> says that between two points a call took only what it still holds, gave back
  the rest, and left the leases of others alone; the call is \<open>None\<close> before it starts and after it
  ended.\<close>

definition probe_of :: "router_env \<Rightarrow> fixed_router \<Rightarrow> string \<Rightarrow> nat option" where
  "probe_of env R e = cb_probe_token (ep_breaker (endpoint_of (en_breaker env) (fr_registry R) e))"

definition lease_open :: "fixed_router \<Rightarrow> nat \<Rightarrow> bool" where
  "lease_open R l \<longleftrightarrow> l < length (pt_leases (fr_prefill R)) \<and> \<not> pl_released (pt_leases (fr_prefill R) ! l)"

definition held_lease :: "flight option \<Rightarrow> nat option" where
  "held_lease c = Option.bind c fl_lease"

definition holds_probe :: "flight option \<Rightarrow> string \<Rightarrow> nat \<Rightarrow> bool" where
  "holds_probe c e tok =
     (case c of
        None \<Rightarrow> False
      | Some fl \<Rightarrow> \<lparr>dc_endpoint_id = e, dc_probe_token = Some tok\<rparr> \<in> set_option (fl_primary_claim fl) \<union> set_option (fl_claim fl))"

definition handed :: "router_env \<Rightarrow> flight option \<Rightarrow> fixed_router \<Rightarrow> flight option \<Rightarrow> fixed_router \<Rightarrow> bool" where
  "handed env c R c' R' \<longleftrightarrow>
     (\<forall>e tok. probe_of env R' e = Some tok \<longrightarrow> probe_of env R e = Some tok \<and> \<not> holds_probe c e tok \<or> holds_probe c' e tok) \<and>
     length (pt_leases (fr_prefill R)) \<le> length (pt_leases (fr_prefill R')) \<and>
     (\<forall>l. lease_open R' l \<longrightarrow> lease_open R l \<and> held_lease c \<noteq> Some l \<or> held_lease c' = Some l) \<and>
     (\<forall>l. lease_open R l \<and> held_lease c \<noteq> Some l \<longrightarrow> lease_open R' l) \<and>
     (\<forall>l. held_lease c' = Some l \<longrightarrow> held_lease c = Some l \<or> length (pt_leases (fr_prefill R)) \<le> l) \<and>
     (tracker_ok (fr_prefill R) \<longrightarrow> tracker_ok (fr_prefill R'))"

lemma handed_refl [simp]: "handed env c R c R"
  by (auto simp: handed_def)

lemma handed_trans:
  assumes "handed env c R d S" "handed env d S e T"
  shows "handed env c R e T"
proof -
  have inr: "l < length (pt_leases (fr_prefill R))" if "lease_open R l" for R l using that by (simp add: lease_open_def)
  have le: "length (pt_leases (fr_prefill R)) \<le> length (pt_leases (fr_prefill S))" using assms(1) by (simp add: handed_def)
  have "lease_open T l" if "lease_open R l" "held_lease c \<noteq> Some l" for l
  proof -
    have "lease_open S l" "held_lease d \<noteq> Some l" using assms(1) that inr [OF that(1)] unfolding handed_def by fastforce+
    then show ?thesis using assms(2) unfolding handed_def by blast
  qed
  moreover have "held_lease c = Some l \<or> length (pt_leases (fr_prefill R)) \<le> l" if "held_lease e = Some l" for l
  proof -
    have "held_lease d = Some l \<or> length (pt_leases (fr_prefill S)) \<le> l" using assms(2) that unfolding handed_def by blast
    then show ?thesis using assms(1) le unfolding handed_def by fastforce
  qed
  moreover have "length (pt_leases (fr_prefill R)) \<le> length (pt_leases (fr_prefill T))" using assms by (simp add: handed_def)
  ultimately show ?thesis using assms unfolding handed_def by blast
qed

text \<open>What does not touch claims and leases.\<close>

lemma handed_quiet:
  assumes "\<And>e tok. probe_of env R' e = Some tok \<Longrightarrow> probe_of env R e = Some tok" "pt_leases (fr_prefill R') = pt_leases (fr_prefill R)"
    "tracker_ok (fr_prefill R) \<Longrightarrow> tracker_ok (fr_prefill R')"
  shows "handed env c R c R'"
  using assms by (auto simp: handed_def lease_open_def)

lemma handed_fields:
  assumes "fl_lease fl' = fl_lease fl" "fl_primary_claim fl' = fl_primary_claim fl" "fl_claim fl' = fl_claim fl"
  shows "handed env (Some fl) R (Some fl') R"
  using assms by (auto simp: handed_def held_lease_def holds_probe_def)

lemma probe_end:
  "probe_of env (end_claim R claim) e =
     (case claim of
        None \<Rightarrow> probe_of env R e
      | Some c \<Rightarrow> if dc_endpoint_id c = e \<and> dc_probe_token c \<noteq> None \<and> probe_of env R e = dc_probe_token c then None else probe_of env R e)"
  using end_dispatch_at [of "en_breaker env" "fr_registry R" claim e "en_parser env"]
  by (auto simp: probe_of_def end_claim_def breaker_end_dispatch_def release_probe_def split: option.splits if_splits)

lemma end_claim_prefill [simp]: "fr_prefill (end_claim R c) = fr_prefill R"
  by (simp add: end_claim_def)

lemma handed_end_claim:
  "handed env (Some fl) R (Some (fl\<lparr>fl_claim := None\<rparr>)) (end_claim R (fl_claim fl))"
  "handed env (Some fl) R (Some (fl\<lparr>fl_primary_claim := None\<rparr>)) (end_claim R (fl_primary_claim fl))"
proof -
  have eq: "dc = \<lparr>dc_endpoint_id = e, dc_probe_token = Some tok\<rparr> \<longleftrightarrow> dc_endpoint_id dc = e \<and> dc_probe_token dc = Some tok" for dc :: dispatch_claim and e tok
    by (cases dc) auto
  show "handed env (Some fl) R (Some (fl\<lparr>fl_claim := None\<rparr>)) (end_claim R (fl_claim fl))"
    "handed env (Some fl) R (Some (fl\<lparr>fl_primary_claim := None\<rparr>)) (end_claim R (fl_primary_claim fl))"
    by (auto simp: handed_def held_lease_def holds_probe_def lease_open_def probe_end eq split: option.splits if_splits)
qed

lemma handed_begin:
  assumes "begin_dispatch (en_breaker env) (fr_registry R) e ck = (c, r)" "fl_claim fl = None"
  shows "handed env (Some fl) R (Some (fl\<lparr>fl_claim := c\<rparr>)) (R\<lparr>fr_registry := r\<rparr>)"
proof -
  obtain b r1 where er: "ensure_circuit (en_breaker env) (fr_registry R) e = (b, r1)" by fastforce
  have b: "b = ep_breaker (endpoint_of (en_breaker env) (fr_registry R) e)"
    "endpoint_of (en_breaker env) r1 f = endpoint_of (en_breaker env) (fr_registry R) f" for f
    using ensure_circuit_simps(1,2) [of "en_breaker env" "fr_registry R" e] er by (simp_all add: endpoint_of_def)
  obtain ad tok b1 where bd: "breaker_begin_dispatch b ck = ((ad, tok), b1)" by (metis prod.collapse)
  have res: "c = (if ad then Some \<lparr>dc_endpoint_id = e, dc_probe_token = tok\<rparr> else None)" "r = put_circuit r1 e b1"
    using assms by (auto simp: begin_dispatch_def er bd)
  have tok: "cb_probe_token b1 = cb_probe_token b \<or> ad \<and> tok \<noteq> None \<and> cb_probe_token b1 = tok"
    using bd by (cases rule: begin_cases [of b ck]) (auto simp: claim_probe_def)
  have "probe_of env (R\<lparr>fr_registry := r\<rparr>) f = probe_of env R f \<or> holds_probe (Some (fl\<lparr>fl_claim := c\<rparr>)) f (the (probe_of env (R\<lparr>fr_registry := r\<rparr>) f))" for f
    using tok b res by (auto simp: probe_of_def endpoint_of_put holds_probe_def)
  then show ?thesis using assms(2) unfolding handed_def by (auto simp: held_lease_def lease_open_def holds_probe_def) (metis option.sel)+
qed

lemma probe_quiet:
  "probe_of env (R\<lparr>fr_registry := ensure (en_breaker env) (fr_registry R) f\<rparr>) e = probe_of env R e"
  "probe_of env (R\<lparr>fr_registry := snd (registry_allow_request (en_breaker env) (fr_registry R) f ck)\<rparr>) e = probe_of env R e"
  "probe_of env (router_on_success env R f) e = Some tok \<Longrightarrow> probe_of env R e = Some tok"
  "probe_of env (router_on_failure env R ck f reason rq err) e = probe_of env R e"
  "probe_of env (R\<lparr>fr_registry := page_sent (fr_registry R) f ck epoch gen delivered\<rparr>) e = probe_of env R e"
proof -
  show "probe_of env (R\<lparr>fr_registry := ensure (en_breaker env) (fr_registry R) f\<rparr>) e = probe_of env R e" by (simp add: probe_of_def ensure_simps)
  show "probe_of env (R\<lparr>fr_registry := snd (registry_allow_request (en_breaker env) (fr_registry R) f ck)\<rparr>) e = probe_of env R e"
    by (simp add: probe_of_def allow_request_at)
  show "probe_of env R e = Some tok" if "probe_of env (router_on_success env R f) e = Some tok"
    using that by (auto simp: probe_of_def router_on_success_def record_success_at [of _ _ _ _ "en_parser env"] on_success_simps split: if_splits)
  show "probe_of env (router_on_failure env R ck f reason rq err) e = probe_of env R e"
    unfolding probe_of_def router_on_failure_def
    by (simp add: Let_def record_failure_at on_failure_simps split: charge.split prod.split)
       (metis on_failure_simps(4) snd_conv)
  show "probe_of env (R\<lparr>fr_registry := page_sent (fr_registry R) f ck epoch gen delivered\<rparr>) e = probe_of env R e"
    by (auto simp: probe_of_def page_sent_def endpoint_of_put send_finished_simps split: option.split) (simp add: endpoint_of_def dict_get_or_def)
qed

lemma release_leases:
  "pt_leases (prefill_release st t now lease confirmed) =
     (case lease of None \<Rightarrow> pt_leases t
      | Some i \<Rightarrow> if i < length (pt_leases t) then (pt_leases t)[i := (pt_leases t ! i)\<lparr>pl_released := True\<rparr>] else pt_leases t)"
proof (cases lease)
  case (Some i)
  show ?thesis
  proof (cases "length (pt_leases t) \<le> i \<or> pl_released (pt_leases t ! i)")
    case True
    moreover have "(pt_leases t)[i := (pt_leases t ! i)\<lparr>pl_released := True\<rparr>] = pt_leases t" if "pl_released (pt_leases t ! i)"
    proof -
      have "(pt_leases t ! i)\<lparr>pl_released := True\<rparr> = pt_leases t ! i" using that by (cases "pt_leases t ! i") simp
      then show ?thesis by simp
    qed
    ultimately show ?thesis by (auto simp: prefill_release_def Some)
  qed (auto simp: prefill_release_def Some Let_def split: option.split)
qed (simp add: prefill_release_def)

lemma lease_open_release:
  "lease_open (release_lease env R now lease confirmed) l \<longleftrightarrow> lease_open R l \<and> lease \<noteq> Some l"
  by (auto simp: lease_open_def release_lease_def release_leases nth_list_update split: option.splits if_splits)

lemma release_quiet [simp]:
  "length (pt_leases (fr_prefill (release_lease env R now lease confirmed))) = length (pt_leases (fr_prefill R))"
  "probe_of env (release_lease env R now lease confirmed) e = probe_of env R e"
  by (auto simp: release_lease_def release_leases probe_of_def split: option.split)

text \<open>A lease that was given back need not be remembered.\<close>

lemma tracker_quiet:
  "tracker_ok (fr_prefill R) \<Longrightarrow> tracker_ok (fr_prefill (release_lease env R now lease confirmed))"
  "tracker_ok (fr_prefill R) \<Longrightarrow> tracker_ok (fr_prefill (snd (acquire_lease env R now rq e anch)))"
  "tracker_ok (fr_prefill R) \<Longrightarrow> tracker_ok (fr_prefill (router_on_failure env R ck e reason rq err))"
proof -
  assume ok: "tracker_ok (fr_prefill R)"
  show "tracker_ok (fr_prefill (release_lease env R now lease confirmed))"
    using tracker_step [OF ok, of _ _ "PRelease now lease confirmed"] by (simp add: release_lease_def)
  show "tracker_ok (fr_prefill (snd (acquire_lease env R now rq e anch)))"
    using tracker_step [OF ok, of "en_blake env" "en_prefill env" "PAcquire now e (rq_tokens rq) (current_affinity_key rq) (rq_fingerprint rq) anch"]
    by (auto simp: acquire_lease_def split: prod.split)
  show "tracker_ok (fr_prefill (router_on_failure env R ck e reason rq err))"
    using ok tracker_step [OF ok, of _ _ "PForget _"] by (simp add: router_on_failure_def Let_def)
qed

lemma handed_release:
  "handed env (Some fl) R (Some (fl\<lparr>fl_lease := None\<rparr>)) (release_lease env R now (fl_lease fl) confirmed)"
  "handed env (Some fl) R (Some fl) (release_lease env R now (fl_lease fl) confirmed)"
  by (auto simp: handed_def lease_open_release held_lease_def holds_probe_def intro: tracker_quiet(1))

lemma acquire_effect:
  assumes "acquire_lease env R now rq e anch = (lease, R')"
  shows "lease = length (pt_leases (fr_prefill R))" "lease_open R' l \<longleftrightarrow> lease_open R l \<or> l = lease"
    "length (pt_leases (fr_prefill R')) = Suc lease" "probe_of env R' f = probe_of env R f"
  using assms by (auto simp: acquire_lease_def prefill_acquire_def Let_def lease_open_def nth_append probe_of_def less_Suc_eq split: option.splits if_splits)

lemma handed_acquire:
  assumes "acquire_lease env R now rq e anch = (lease, R')" "fl_lease fl = None"
  shows "handed env (Some fl) R (Some (fl\<lparr>fl_lease := Some lease\<rparr>)) R'"
  using acquire_effect [OF assms(1)] assms(2) tracker_quiet(2) [of R env now rq e anch] by (auto simp: handed_def held_lease_def holds_probe_def assms(1))

lemma prefill_quiet [simp]:
  "pt_leases (fr_prefill (router_on_success env R e)) = pt_leases (fr_prefill R)"
  "pt_leases (fr_prefill (router_on_failure env R ck e reason rq err)) = pt_leases (fr_prefill R)"
  "fr_prefill (drop_affinity R rq) = fr_prefill R" "probe_of env (drop_affinity R rq) e = probe_of env R e"
  by (auto simp: router_on_success_def router_on_failure_def Let_def forget_endpoint_def drop_affinity_def probe_of_def split: option.split)

lemma handed_on_failure: "handed env c R c (router_on_failure env R ck e reason rq err)"
  by (rule handed_quiet) (simp_all add: probe_quiet(4) tracker_quiet(3))

lemma handed_on_success: "handed env c R c (router_on_success env R e)"
  by (rule handed_quiet) (erule probe_quiet(3), simp_all add: router_on_success_def)

lemma handed_drop_affinity: "handed env c R c (drop_affinity R rq)"
  by (rule handed_quiet) simp_all

text \<open>An exit gives back everything.\<close>

lemma handed_finish:
  assumes "finish env now fl out R = (res, R')"
  shows "handed env (Some fl) R None R' \<and> res = Inl out"
proof -
  let ?f1 = "fl\<lparr>fl_lease := None\<rparr>" and ?R1 = "release_lease env R now (fl_lease fl) False"
  let ?f2 = "?f1\<lparr>fl_claim := None\<rparr>" and ?R2 = "end_claim ?R1 (fl_claim fl)"
  let ?f3 = "?f2\<lparr>fl_primary_claim := None\<rparr>" and ?R3 = "end_claim ?R2 (fl_primary_claim fl)"
  have a: "handed env (Some ?f1) ?R1 (Some ?f2) ?R2" using handed_end_claim(1) [of env ?f1 ?R1] by simp
  have b: "handed env (Some ?f2) ?R2 (Some ?f3) ?R3" using handed_end_claim(2) [of env ?f2 ?R2] by simp
  have c: "handed env (Some ?f3) ?R3 None ?R3" by (simp add: handed_def held_lease_def holds_probe_def)
  have "handed env (Some fl) R None ?R3" by (rule handed_trans [OF handed_release(1) handed_trans [OF a handed_trans [OF b c]]])
  then show ?thesis using assms by (simp add: finish_def)
qed

lemma handed_surfaced:
  "surfaced env now fl R = (res, R') \<Longrightarrow> handed env (Some fl) R None R' \<and> (\<exists>out. res = Inl out)"
  using handed_finish [of env now fl _ R res R'] by (auto simp: surfaced_def split: prod.splits)

definition live :: "outcome + flight \<Rightarrow> flight option" where
  "live res = (case res of Inl _ \<Rightarrow> None | Inr fl \<Rightarrow> Some fl)"

lemma queue_deadline_quiet:
  assumes "queue_deadline env R ck serves off pol ref = (d, R')"
  shows "handed env c R c R'" "fr_prefill R' = fr_prefill R"
proof -
  show pf: "fr_prefill R' = fr_prefill R"
    using assms by (auto simp: queue_deadline_def split: option.splits if_splits prod.splits)
  have "probe_of env R' e = probe_of env R e" for e
    using assms probe_quiet(2) [of env R _ ck e] by (auto simp: queue_deadline_def split: option.splits if_splits prod.splits) (metis snd_conv)+
  with pf show "handed env c R c R'" by (intro handed_quiet) simp_all
qed

text \<open>A call is charged for its prompt exactly until the endpoint produced something.\<close>

definition charged :: "fixed_router \<Rightarrow> flight \<Rightarrow> bool" where
  "charged R fl \<longleftrightarrow> (\<forall>l. fl_lease fl = Some l \<longrightarrow> l < length (pt_leases (fr_prefill R)) \<and> (lease_open R l \<longleftrightarrow> fl_first fl))"

definition passed :: "router_env \<Rightarrow> flight option \<Rightarrow> fixed_router \<Rightarrow> segment_end \<Rightarrow> bool" where
  "passed env c R seg \<longleftrightarrow> handed env c R (live (fst seg)) (snd seg) \<and> (\<forall>fl. live (fst seg) = Some fl \<longrightarrow> charged (snd seg) fl)"

lemma passed_trans: "handed env c R d S \<Longrightarrow> passed env d S seg \<Longrightarrow> passed env c R seg"
  using handed_trans unfolding passed_def by blast

lemma passed_finish: "passed env (Some fl) R (finish env now fl out R)"
  using handed_finish [of env now fl out R] by (cases "finish env now fl out R") (auto simp: passed_def live_def)

lemma passed_surfaced: "passed env (Some fl) R (surfaced env now fl R)"
  by (simp add: surfaced_def passed_finish split: prod.split)

lemma passed_dispatch:
  assumes "fl_lease fl = None"
  shows "passed env (Some (fl\<lparr>fl_claim := Some c\<rparr>)) R
    (case dispatch_fallback env tk serves fl a reason x c R of (fl3, R2) \<Rightarrow> (Inr fl3, R2))"
proof -
  let ?rq = "fl_request fl" and ?e = "endpoint_id_for_adapter a" and ?ck = "tk_claim_clock tk"
  obtain d R1 where q: "(if reason \<noteq> None then (None, R)
      else queue_deadline env R ?ck serves (offload_pending (fl_order fl)) (fl_offload_policy fl) (fl_refused_window fl)) = (d, R1)" by fastforce
  define fl1 where "fl1 = fl\<lparr>fl_fallback := True, fl_route := a, fl_execution := x, fl_claim := Some c, fl_offload_reason := reason,
      fl_deadline := d, fl_priority := dispatch_priority env R (ck_mono ?ck) ?rq x ?e, fl_first := True, fl_lease := None\<rparr>"
  have R1: "handed env k R k R1" for k using q queue_deadline_quiet(1) [of env R ?ck serves _ _ _ d R1] by (auto split: if_splits)
  have f1: "handed env (Some (fl\<lparr>fl_claim := Some c\<rparr>)) R1 (Some fl1) R1" using assms by (intro handed_fields) (simp_all add: fl1_def)
  show ?thesis
  proof (cases "fl_stream fl")
    case True
    have "handed env (Some fl1) R1 (Some (fl1\<lparr>fl_announced := True, fl_holding := h\<rparr>)) R1" for h by (rule handed_fields) simp_all
    then have "handed env (Some (fl\<lparr>fl_claim := Some c\<rparr>)) R (Some (fl1\<lparr>fl_announced := True, fl_holding := h\<rparr>)) R1" for h
      using R1 f1 handed_trans by blast
    then show ?thesis using q True by (simp add: dispatch_fallback_def Let_def fl1_def passed_def live_def charged_def)
  next
    case False
    let ?R1 = "R1\<lparr>fr_registry := ensure (en_breaker env) (fr_registry R1) ?e\<rparr>"
    obtain l R2 where al: "acquire_lease env ?R1 (ck_mono ?ck) ?rq ?e (anchor_for env ?rq x) = (l, R2)" by fastforce
    have "handed env (Some fl1) R1 (Some fl1) ?R1" by (rule handed_quiet) (simp_all add: probe_quiet(1))
    moreover have "handed env (Some fl1) ?R1 (Some (fl1\<lparr>fl_lease := Some l\<rparr>)) R2" by (rule handed_acquire [OF al]) (simp add: fl1_def)
    ultimately have "handed env (Some (fl\<lparr>fl_claim := Some c\<rparr>)) R (Some (fl1\<lparr>fl_lease := Some l\<rparr>)) R2"
      using R1 f1 handed_trans by blast
    moreover have "charged R2 (fl1\<lparr>fl_lease := Some l\<rparr>)" using acquire_effect [OF al] by (simp add: charged_def fl1_def)
    ultimately show ?thesis using q False al by (simp add: dispatch_fallback_def Let_def fl1_def passed_def live_def)
  qed
qed

lemma passed_walk:
  "fl_lease fl = None \<Longrightarrow> fl_claim fl = None \<Longrightarrow> passed env (Some fl) R (walk_on env ticks serves k fl R)"
proof (induction env ticks serves k fl R rule: walk_on.induct)
  case (1 env ticks serves k fl R)
  show ?case
  proof (cases "order_next (fl_order fl)")
    case None
    then show ?thesis by (subst walk_on.simps) (simp add: passed_surfaced)
  next
    case (Some n)
    then obtain a reason o' where n: "order_next (fl_order fl) = Some ((a, reason), o')" by (metis prod.collapse)
    let ?f1 = "fl\<lparr>fl_order := o'\<rparr>"
    have f1: "handed env (Some fl) R (Some ?f1) R" by (rule handed_fields) simp_all
    show ?thesis
    proof (cases "skips_for_context_window a (fl_refused_window fl)")
      case True
      have "passed env (Some ?f1) R (walk_on env ticks serves (Suc k) ?f1 R)"
        using 1(1) [OF n refl refl refl True] 1(3,4) by simp
      then show ?thesis using f1 passed_trans True n by (subst walk_on.simps) (simp add: Let_def)
    next
      case False
      show ?thesis
      proof (cases "bind_leaf a (fl_request fl)")
        case (Inl err)
        then show ?thesis using passed_trans [OF f1 passed_finish] False n by (subst walk_on.simps) (simp add: Let_def)
      next
        case (Inr x)
        define f2 where "f2 = (if a = fl_primary fl then ?f1\<lparr>fl_primary_claim := None\<rparr> else ?f1)"
        define R1 where "R1 = (if a = fl_primary fl then end_claim R (fl_primary_claim fl) else R)"
        have "handed env (Some ?f1) R (Some f2) R1" using handed_end_claim(2) [of env ?f1 R] by (simp add: f2_def R1_def)
        then have f2: "handed env (Some fl) R (Some f2) R1" using f1 handed_trans by blast
        have f2n: "fl_lease f2 = None" "fl_claim f2 = None" using 1(3,4) by (simp_all add: f2_def)
        obtain c r where bd: "begin_dispatch (en_breaker env) (fr_registry R1) (endpoint_id_for_adapter a) (tk_claim_clock (ticks k)) = (c, r)" by fastforce
        have f3: "handed env (Some fl) R (Some (f2\<lparr>fl_claim := c\<rparr>)) (R1\<lparr>fr_registry := r\<rparr>)"
          using f2 handed_begin [OF bd f2n(2)] handed_trans by blast
        have w: "walk_on env ticks serves k fl R = (case c of
            None \<Rightarrow> walk_on env ticks serves (Suc k) f2 (R1\<lparr>fr_registry := r\<rparr>)
          | Some c \<Rightarrow> (case dispatch_fallback env (ticks k) serves f2 a reason x c (R1\<lparr>fr_registry := r\<rparr>) of (fl3, R2) \<Rightarrow> (Inr fl3, R2)))"
          unfolding walk_on.simps [of env ticks serves k fl R] n option.case case_prod_conv Let_def if_not_P [OF False] Inr sum.case
            f2_def [symmetric] R1_def [symmetric] bd by (simp split: option.split)
        show ?thesis
        proof (cases c)
          case None
          have "passed env (Some f2) (R1\<lparr>fr_registry := r\<rparr>) (walk_on env ticks serves (Suc k) f2 (R1\<lparr>fr_registry := r\<rparr>))"
            using 1(2) [OF n refl refl refl False Inr f2_def R1_def] bd None f2n by auto
          moreover have "f2\<lparr>fl_claim := None\<rparr> = f2" using f2n by (cases f2) simp
          ultimately show ?thesis using f3 passed_trans w None by simp
        next
          case (Some d)
          then show ?thesis using w f3 passed_trans passed_dispatch [OF f2n(1)] by simp
        qed
      qed
    qed
  qed
qed

lemma passed_fail_primary:
  assumes "fl_claim fl = None"
  shows "passed env (Some fl) R (fail_primary env ticks serves fl err R)"
proof -
  define now where "now = ck_mono (tk_clock (ticks 0))"
  define R1 where "R1 = router_on_failure env (release_lease env R now (fl_lease fl) False) (tk_clock (ticks 0))
    (endpoint_id_for_adapter (fl_primary fl)) (failure_reason fl) (fl_request fl) err"
  define R2 where "R2 = drop_affinity R1 (fl_request fl)"
  obtain order pol where o': "request_fallback_order R2 (fl_request fl) (fl_primary fl) = (order, pol)" by fastforce
  have a: "handed env (Some fl) R (Some fl) R1" unfolding R1_def by (rule handed_trans [OF handed_release(2) handed_on_failure])
  have b: "handed env (Some fl) R (Some fl) R2" unfolding R2_def by (rule handed_trans [OF a handed_drop_affinity])
  have c: "handed env (Some fl) R (Some (fl\<lparr>fl_lease := None\<rparr>)) R2"
    unfolding R2_def R1_def by (rule handed_trans [OF handed_trans [OF handed_release(1) handed_on_failure] handed_drop_affinity])
  have w: "passed env (Some (fl\<lparr>fl_lease := None\<rparr>)) R2 (walk_on env ticks serves 1
      (fl\<lparr>fl_attempts := as, fl_failed := fs, fl_refused_window := rw, fl_order := od, fl_offload_policy := pol, fl_lease := None\<rparr>) R2)" for as fs rw od
    by (rule passed_trans [OF handed_fields passed_walk]) (simp_all add: assms)
  show ?thesis
    unfolding fail_primary_def Let_def now_def [symmetric] R1_def [symmetric] R2_def [symmetric] o' case_prod_conv
    using passed_trans [OF a passed_finish] passed_trans [OF b passed_finish] passed_trans [OF c w] by simp
qed

lemma passed_fail_fallback: "passed env (Some fl) R (fail_fallback env ticks serves fl err R)"
proof -
  define now where "now = ck_mono (tk_clock (ticks 0))"
  define R0 where "R0 = (if fl_stream fl then R else release_lease env R now (fl_lease fl) False)"
  define R1 where "R1 = router_on_failure env R0 (tk_clock (ticks 0))
    (endpoint_id_for_adapter (fl_route fl)) (failure_reason fl) (fl_request fl) err"
  define R2 where "R2 = end_claim (release_lease env R1 now (fl_lease fl) False) (fl_claim fl)"
  have "handed env (Some fl) R (Some fl) R0" using handed_release(2) by (simp add: R0_def)
  then have a: "handed env (Some fl) R (Some fl) R1" unfolding R1_def by (rule handed_trans [OF _ handed_on_failure])
  have "handed env (Some (fl\<lparr>fl_lease := None\<rparr>)) (release_lease env R1 now (fl_lease fl) False) (Some (fl\<lparr>fl_lease := None, fl_claim := None\<rparr>)) R2"
    unfolding R2_def using handed_end_claim(1) [of env "fl\<lparr>fl_lease := None\<rparr>" "release_lease env R1 now (fl_lease fl) False"] by simp
  then have b: "handed env (Some fl) R (Some (fl\<lparr>fl_lease := None, fl_claim := None\<rparr>)) R2"
    by (rule handed_trans [OF a handed_trans [OF handed_release(1)]])
  let ?f = "\<lambda>as fs rw od. fl\<lparr>fl_attempts := as, fl_failed := fs, fl_refused_window := rw, fl_order := od, fl_claim := None, fl_lease := None\<rparr>"
  have c: "handed env (Some fl) R (Some (?f as fs rw od)) R2" for as fs rw od
    by (rule handed_trans [OF b handed_fields]) simp_all
  have w: "passed env (Some (?f as fs rw od)) R2 (walk_on env ticks serves 1 (?f as fs rw od) R2)" for as fs rw od
    by (rule passed_walk) simp_all
  show ?thesis
    unfolding fail_fallback_def Let_def now_def [symmetric] R0_def [symmetric] R1_def [symmetric] R2_def [symmetric]
    using passed_trans [OF a passed_finish] passed_trans [OF c passed_surfaced] passed_trans [OF c w] by simp
qed

lemma charged_pull:
  assumes "on_pull env now fl R = (fl1, R1)" "charged R fl" "fl_fallback fl \<longrightarrow> fl_lease fl = None \<and> fl_first fl"
  shows "handed env (Some fl) R (Some fl1) R1" "charged R1 fl1"
proof -
  have "handed env (Some fl) R (Some fl1) R1 \<and> charged R1 fl1"
  proof (cases "fl_fallback fl")
    case False
    have "handed env (Some fl) R (Some (fl\<lparr>fl_announced := False\<rparr>)) R" by (rule handed_fields) simp_all
    then show ?thesis using assms False by (auto simp: on_pull_def charged_def)
  next
    case True
    obtain l R2 where al: "acquire_lease env R now (fl_request fl) (endpoint_id_for_adapter (fl_route fl)) (anchor_for env (fl_request fl) (fl_execution fl)) = (l, R2)" by fastforce
    have "handed env (Some fl) R (Some (fl\<lparr>fl_announced := False\<rparr>)) R" by (rule handed_fields) simp_all
    moreover have "handed env (Some (fl\<lparr>fl_announced := False\<rparr>)) R (Some (fl\<lparr>fl_announced := False, fl_lease := Some l\<rparr>)) R2"
      using handed_acquire [OF al, of "fl\<lparr>fl_announced := False\<rparr>"] assms(3) True by simp
    ultimately show ?thesis using assms True al acquire_effect [OF al] handed_trans by (auto simp: on_pull_def charged_def)
  qed
  then show "handed env (Some fl) R (Some fl1) R1" "charged R1 fl1" by simp_all
qed

lemma handed_served: "handed env (Some fl) R (Some fl) (served env now fl R)"
  unfolding served_def by (rule handed_trans [OF handed_release(2) handed_on_success])

lemma charged_chunk:
  assumes "on_chunk env now fl content sz R = (fl1, R1)" "charged R fl"
  shows "handed env (Some fl) R (Some fl1) R1" "charged R1 fl1"
proof -
  obtain fl2 R2 where s: "(if fl_first fl \<and> content then (fl\<lparr>fl_first := False\<rparr>, served env now fl R) else (fl, R)) = (fl2, R2)" by fastforce
  have "handed env (Some fl) (served env now fl R) (Some (fl\<lparr>fl_first := False\<rparr>)) (served env now fl R)" by (rule handed_fields) simp_all
  then have a: "handed env (Some fl) R (Some fl2) R2" using s handed_trans [OF handed_served] by (auto split: if_splits)
  have "\<not> lease_open (served env now fl R) l" if "fl_lease fl = Some l" for l
    using that lease_open_release [of env R now "fl_lease fl" True l] by (simp add: served_def lease_open_def)
  then have b: "charged R2 fl2" using s assms(2) by (auto simp: charged_def served_def split: if_splits)
  have "R1 = R2 \<and> fl_lease fl1 = fl_lease fl2 \<and> fl_first fl1 = fl_first fl2 \<and> fl_primary_claim fl1 = fl_primary_claim fl2 \<and> fl_claim fl1 = fl_claim fl2"
    using assms(1) unfolding on_chunk_def s Let_def case_prod_conv by (auto split: option.splits if_splits)
  then show "handed env (Some fl) R (Some fl1) R1" "charged R1 fl1"
    using handed_trans [OF a handed_fields] b by (auto simp: charged_def)
qed

section \<open>The course of one request\<close>

text \<open>The widest window that refused the prompt, from the attempts themselves.\<close>

definition refused_by :: "route_attempt list \<Rightarrow> int option" where
  "refused_by as = foldl (\<lambda>w x. widest_refused_window w (the (at_route x)) (at_error x)) None as"

definition flight_ok :: "flight \<Rightarrow> bool" where
  "flight_ok fl \<longleftrightarrow>
     (fl_announced fl \<longrightarrow> fl_stream fl \<and> \<not> fl_yielded fl) \<and> (fl_yielded fl \<longrightarrow> fl_stream fl) \<and>
     (if fl_fallback fl
      then fl_attempts fl \<noteq> [] \<and> \<not> present (rq_pin (fl_request fl)) \<and> rq_allow_fallback (fl_request fl) \<and>
           \<not> stops_after_request_refusals (fl_attempts fl) \<and> fl_refused_window fl = refused_by (fl_attempts fl) \<and>
           \<not> window_cannot_fit (fl_route fl) (refused_by (fl_attempts fl)) \<and>
           (\<exists>c. fl_claim fl = Some c \<and> dc_endpoint_id c = endpoint_id_for_adapter (fl_route fl)) \<and>
           (fl_announced fl \<longrightarrow> fl_lease fl = None \<and> fl_first fl)
      else fl_attempts fl = [] \<and> fl_claim fl = None \<and> fl_route fl = fl_primary fl)"

text \<open>What the loop leaves of a flight when it dispatches again.\<close>

definition redispatched :: "flight \<Rightarrow> flight \<Rightarrow> bool" where
  "redispatched fl fl' \<longleftrightarrow>
     fl_request fl' = fl_request fl \<and> fl_stream fl' = fl_stream fl \<and> fl_attempts fl' = fl_attempts fl \<and>
     fl_failed fl' = fl_failed fl \<and> fl_refused_window fl' = fl_refused_window fl \<and> fl_yielded fl' = fl_yielded fl \<and>
     fl_primary fl' = fl_primary fl \<and> fl_fallback fl' \<and> fl_first fl' \<and> (fl_stream fl \<longrightarrow> fl_announced fl' \<and> fl_lease fl' = None) \<and>
     (\<not> fl_stream fl \<longrightarrow> fl_announced fl' = fl_announced fl \<and> fl_lease fl' \<noteq> None) \<and>
     \<not> window_cannot_fit (fl_route fl') (fl_refused_window fl) \<and> bind_leaf (fl_route fl') (fl_request fl) = Inr (fl_execution fl') \<and>
     (\<exists>c. fl_claim fl' = Some c \<and> dc_endpoint_id c = endpoint_id_for_adapter (fl_route fl')) \<and>
     (\<forall>e. left_of_order (order_record_failure (fl_order fl') e (Some (fl_route fl'))) < left_of_order (fl_order fl))"

lemma redispatched_order:
  assumes "redispatched fl fl'" "fl_request fl = fl_request f" "fl_stream fl = fl_stream f" "fl_attempts fl = fl_attempts f" "fl_failed fl = fl_failed f"
    "fl_refused_window fl = fl_refused_window f" "fl_yielded fl = fl_yielded f" "fl_primary fl = fl_primary f" "fl_announced fl = fl_announced f"
    "left_of_order (fl_order fl) < left_of_order (fl_order f)"
  shows "redispatched f fl'"
  using assms unfolding redispatched_def by (auto intro: less_trans)

lemma dispatch_redispatched:
  assumes "dispatch_fallback env tk serves fl a reason x c R = (fl', R')" "\<not> window_cannot_fit a (fl_refused_window fl)"
    "bind_leaf a (fl_request fl) = Inr x" "dc_endpoint_id c = endpoint_id_for_adapter a"
    "\<And>e. left_of_order (order_record_failure (fl_order fl) e (Some a)) < left_of_order (fl_order f)"
    "fl_request fl = fl_request f" "fl_stream fl = fl_stream f" "fl_attempts fl = fl_attempts f" "fl_failed fl = fl_failed f"
    "fl_refused_window fl = fl_refused_window f" "fl_yielded fl = fl_yielded f" "fl_primary fl = fl_primary f" "fl_announced fl = fl_announced f"
  shows "redispatched f fl'"
  using assms(1) unfolding dispatch_fallback_def Let_def
  by (cases "fl_stream fl") (use assms in \<open>auto simp: redispatched_def split: prod.splits if_splits\<close>)

lemma walk_result:
  assumes "walk_on env ticks serves k fl R = (res, R')"
  shows "(case res of
      Inr fl' \<Rightarrow> redispatched fl fl'
    | Inl out \<Rightarrow> (case raise_surfaced_error (fl_attempts fl) (fl_failed fl) of (e, rb) \<Rightarrow> out = Raised e rb) \<or>
                 (\<exists>a err. bind_leaf a (fl_request fl) = Inl err \<and> out = RaisedRouter err))"
  using assms
proof (induction env ticks serves k fl R rule: walk_on.induct)
  case (1 env ticks serves k fl R)
  show ?case
  proof (cases "order_next (fl_order fl)")
    case None
    then show ?thesis using 1(3) by (subst (asm) walk_on.simps) (auto simp: surfaced_def finish_def split: prod.splits)
  next
    case (Some n)
    then obtain a reason o' where n: "order_next (fl_order fl) = Some ((a, reason), o')" by (metis prod.collapse)
    let ?f1 = "fl\<lparr>fl_order := o'\<rparr>"
    note less = next_left [OF n]
    show ?thesis
    proof (cases "skips_for_context_window a (fl_refused_window fl)")
      case True
      then have "walk_on env ticks serves (Suc k) ?f1 R = (res, R')" using 1(3) n by (subst (asm) walk_on.simps) (simp add: Let_def)
      from 1(1) [OF n refl refl refl True this] show ?thesis
        using less(1) by (auto split: sum.splits intro: redispatched_order)
    next
      case False
      show ?thesis
      proof (cases "bind_leaf a (fl_request fl)")
        case (Inl err)
        then show ?thesis using 1(3) n False by (subst (asm) walk_on.simps) (auto simp: Let_def finish_def)
      next
        case (Inr x)
        define f2 where "f2 = (if a = fl_primary fl then ?f1\<lparr>fl_primary_claim := None\<rparr> else ?f1)"
        define R1 where "R1 = (if a = fl_primary fl then end_claim R (fl_primary_claim fl) else R)"
        obtain c r where bd: "begin_dispatch (en_breaker env) (fr_registry R1) (endpoint_id_for_adapter a) (tk_claim_clock (ticks k)) = (c, r)" by fastforce
        have f2: "fl_request f2 = fl_request fl" "fl_stream f2 = fl_stream fl" "fl_attempts f2 = fl_attempts fl" "fl_failed f2 = fl_failed fl"
          "fl_refused_window f2 = fl_refused_window fl" "fl_yielded f2 = fl_yielded fl" "fl_primary f2 = fl_primary fl" "fl_announced f2 = fl_announced fl"
          "fl_order f2 = o'" by (simp_all add: f2_def)
        have w: "(res, R') = (case c of
            None \<Rightarrow> walk_on env ticks serves (Suc k) f2 (R1\<lparr>fr_registry := r\<rparr>)
          | Some c \<Rightarrow> (case dispatch_fallback env (ticks k) serves f2 a reason x c (R1\<lparr>fr_registry := r\<rparr>) of (fl3, R2) \<Rightarrow> (Inr fl3, R2)))"
          unfolding 1(3) [symmetric] walk_on.simps [of env ticks serves k fl R] n option.case case_prod_conv Let_def if_not_P [OF False] Inr sum.case
            f2_def [symmetric] R1_def [symmetric] bd by (simp split: option.split)
        show ?thesis
        proof (cases c)
          case None
          then have "walk_on env ticks serves (Suc k) f2 (R1\<lparr>fr_registry := r\<rparr>) = (res, R')" using w by simp
          with 1(2) [OF n refl refl refl False Inr f2_def R1_def] bd None have "(case res of
              Inr fl' \<Rightarrow> redispatched f2 fl'
            | Inl out \<Rightarrow> (case raise_surfaced_error (fl_attempts f2) (fl_failed f2) of (e, rb) \<Rightarrow> out = Raised e rb) \<or>
                 (\<exists>a err. bind_leaf a (fl_request f2) = Inl err \<and> out = RaisedRouter err))" by auto
          then show ?thesis using f2 less(1) by (auto split: sum.splits intro: redispatched_order)
        next
          case (Some d)
          obtain f3 R2 where df: "dispatch_fallback env (ticks k) serves f2 a reason x d (R1\<lparr>fr_registry := r\<rparr>) = (f3, R2)" by fastforce
          have "redispatched fl f3"
            using f2 less(2) False Inr begin_dispatch_result(3) [OF bd Some]
            by (intro dispatch_redispatched [OF df]) (simp_all add: skips_for_context_window_def)
          then show ?thesis using w Some df by simp
        qed
      qed
    qed
  qed
qed

text \<open>The attempts and their records once the current attempt failed too.\<close>

definition attempts_after :: "flight \<Rightarrow> route_error \<Rightarrow> route_attempt list" where
  "attempts_after fl err =
     (if fl_fallback fl
      then fl_attempts fl @ [\<lparr>at_adapter = fl_execution fl, at_error = err, at_offload = fl_offload_reason fl, at_route = Some (fl_route fl)\<rparr>]
      else (let at0 = \<lparr>at_adapter = fl_primary fl, at_error = err, at_offload = fl_offload_reason fl, at_route = Some (fl_primary fl)\<rparr>
            in [at0\<lparr>at_error := attach_block fl [at0] err\<rparr>]))"

definition failed_after :: "flight \<Rightarrow> route_error \<Rightarrow> (string \<times> int option) list" where
  "failed_after fl err = (if fl_fallback fl then fl_failed fl else []) @ [failed_attempt (fl_execution fl) err]"

lemma block_keeps [simp]:
  "describes_request (e\<lparr>re_routing := x\<rparr>) = describes_request e"
  "exceeds_context_window (e\<lparr>re_routing := x\<rparr>) = exceeds_context_window e"
  "widest_refused_window w a (e\<lparr>re_routing := x\<rparr>) = widest_refused_window w a e"
  "re_exn (attach_block fl as e) = re_exn e" "widest_refused_window w a (attach_block fl as e) = widest_refused_window w a e"
  by (simp_all add: describes_request_def exceeds_context_window_def widest_refused_window_def attach_block_def split: option.split)

lemma one_refusal: "\<not> stops_after_request_refusals [x]"
  by (simp add: stops_after_request_refusals_def request_refusals_end_fallback_def REQUEST_REFUSAL_LIMIT_def Let_def)

lemma refused_by_after:
  "refused_by (attempts_after fl err) =
     widest_refused_window (if fl_fallback fl then refused_by (fl_attempts fl) else None) (if fl_fallback fl then fl_route fl else fl_primary fl) err"
  by (simp add: refused_by_def attempts_after_def Let_def)

lemma redispatched_ok:
  assumes "redispatched f fl'" "fl_attempts f \<noteq> []" "\<not> present (rq_pin (fl_request f))" "rq_allow_fallback (fl_request f)" "\<not> fl_yielded f"
    "\<not> stops_after_request_refusals (fl_attempts f)" "fl_refused_window f = refused_by (fl_attempts f)" "\<not> fl_announced f"
  shows "flight_ok fl'"
  using assms unfolding redispatched_def flight_ok_def by auto

text \<open>What becomes of a failed attempt.\<close>

definition after_failure :: "flight \<Rightarrow> route_error \<Rightarrow> outcome + flight \<Rightarrow> bool" where
  "after_failure fl err res \<longleftrightarrow>
     (if present (rq_pin (fl_request fl)) \<or> \<not> rq_allow_fallback (fl_request fl) \<or> fl_yielded fl
      then \<exists>e rb. res = Inl (Raised e rb) \<and> e\<lparr>re_routing := None\<rparr> = err\<lparr>re_routing := None\<rparr>
      else (case res of
              Inr fl' \<Rightarrow> flight_ok fl' \<and> fl_fallback fl' \<and> \<not> fl_yielded fl' \<and> fl_request fl' = fl_request fl \<and>
                fl_attempts fl' = attempts_after fl err \<and> bind_leaf (fl_route fl') (fl_request fl) = Inr (fl_execution fl')
            | Inl out \<Rightarrow> (case raise_surfaced_error (attempts_after fl err) (failed_after fl err) of (e, rb) \<Rightarrow> out = Raised e rb) \<or>
                (\<exists>a e. bind_leaf a (fl_request fl) = Inl e \<and> out = RaisedRouter e)))"

lemma reraise_error: "\<exists>e rb. reraise fl as failed err = Raised e rb \<and> e\<lparr>re_routing := None\<rparr> = err\<lparr>re_routing := None\<rparr>"
  by (simp add: reraise_def attach_block_def Let_def)

lemma fail_primary_result:
  assumes "flight_ok fl" "\<not> fl_announced fl" "\<not> fl_fallback fl" "fail_primary env ticks serves fl err R = (res, R')"
  shows "after_failure fl err res"
proof (cases "present (rq_pin (fl_request fl)) \<or> \<not> rq_allow_fallback (fl_request fl) \<or> fl_yielded fl")
  case True
  then have "\<exists>now f S as fs. finish env now fl (reraise fl as fs err) S = (res, R')"
    using assms(4) by (auto simp: fail_primary_def Let_def split: if_splits)
  then show ?thesis using True reraise_error [of fl _ _ err] by (auto simp: after_failure_def finish_def)
next
  case False
  define at0 where "at0 = \<lparr>at_adapter = fl_primary fl, at_error = err, at_offload = fl_offload_reason fl, at_route = Some (fl_primary fl)\<rparr>"
  obtain S order pol where o': "walk_on env ticks serves 1
      (fl\<lparr>fl_attempts := [at0\<lparr>at_error := attach_block fl [at0] err\<rparr>], fl_failed := [failed_attempt (fl_execution fl) err],
          fl_refused_window := widest_refused_window None (fl_primary fl) err,
          fl_order := order_record_failure order (re_exn err) (Some (fl_primary fl)), fl_offload_policy := pol, fl_lease := None\<rparr>) S = (res, R')"
    (is "walk_on _ _ _ _ ?f _ = _")
    using assms(4) False by (auto simp: fail_primary_def Let_def at0_def split: prod.splits)
  have as: "attempts_after fl err = fl_attempts ?f" "failed_after fl err = fl_failed ?f"
    using assms(3) by (simp_all add: attempts_after_def failed_after_def Let_def at0_def)
  have "flight_ok fl' \<and> fl_fallback fl' \<and> \<not> fl_yielded fl' \<and> fl_request fl' = fl_request fl \<and>
      fl_attempts fl' = attempts_after fl err \<and> bind_leaf (fl_route fl') (fl_request fl) = Inr (fl_execution fl')" if "redispatched ?f fl'" for fl'
    using redispatched_ok [OF that] that False assms(2,3) one_refusal as(1) refused_by_after [of fl err]
    by (auto simp: redispatched_def as(1))
  then show ?thesis
    using walk_result [OF o'] False unfolding after_failure_def as by (auto split: sum.splits)
qed

lemma fail_fallback_result:
  assumes "flight_ok fl" "\<not> fl_announced fl" "fl_fallback fl" "fail_fallback env ticks serves fl err R = (res, R')"
  shows "after_failure fl err res"
proof (cases "fl_yielded fl")
  case True
  then show ?thesis using assms(4) reraise_error [of fl _ _ err] by (auto simp: fail_fallback_def Let_def after_failure_def finish_def)
next
  case False
  have fb: "\<not> present (rq_pin (fl_request fl))" "rq_allow_fallback (fl_request fl)" "fl_refused_window fl = refused_by (fl_attempts fl)"
    using assms(1,3) by (simp_all add: flight_ok_def)
  obtain now S where f: "(res, R') = (if stops_after_request_refusals (attempts_after fl err) then
        surfaced env now (fl\<lparr>fl_attempts := attempts_after fl err, fl_failed := failed_after fl err,
          fl_refused_window := widest_refused_window (fl_refused_window fl) (fl_route fl) err,
          fl_order := order_record_failure (fl_order fl) (re_exn err) (Some (fl_route fl)), fl_claim := None, fl_lease := None\<rparr>) S
      else walk_on env ticks serves 1 (fl\<lparr>fl_attempts := attempts_after fl err, fl_failed := failed_after fl err,
          fl_refused_window := widest_refused_window (fl_refused_window fl) (fl_route fl) err,
          fl_order := order_record_failure (fl_order fl) (re_exn err) (Some (fl_route fl)), fl_claim := None, fl_lease := None\<rparr>) S)"
    (is "_ = (if ?stop then surfaced _ _ ?f _ else _)")
    using assms(4) [symmetric] unfolding fail_fallback_def Let_def if_not_P [OF False]
    by (rule that [unfolded attempts_after_def failed_after_def if_P [OF assms(3)]])
  show ?thesis
  proof (cases ?stop)
    case True
    then show ?thesis using f False fb by (auto simp: after_failure_def surfaced_def finish_def split: prod.splits)
  next
    case go: False
    have "flight_ok fl' \<and> fl_fallback fl' \<and> \<not> fl_yielded fl' \<and> fl_request fl' = fl_request fl \<and>
        fl_attempts fl' = attempts_after fl err \<and> bind_leaf (fl_route fl') (fl_request fl) = Inr (fl_execution fl')" if "redispatched ?f fl'" for fl'
    proof -
      have "attempts_after fl err \<noteq> []" by (simp add: attempts_after_def)
      then have "flight_ok fl'" using go False fb assms(2,3) refused_by_after [of fl err] by (intro redispatched_ok [OF that]) simp_all
      then show ?thesis using that False by (simp add: redispatched_def)
    qed
    then show ?thesis
      using walk_result [of env ticks serves 1 ?f S res R'] f go False fb unfolding after_failure_def by (auto split: sum.splits)
  qed
qed

lemma resume_result:
  assumes "resume env ticks serves fl ans R = Some (res, R')" "flight_ok fl" "charged R fl"
  shows "passed env (Some fl) R (res, R')" "res = Inr fl' \<Longrightarrow> flight_ok fl'" "ans = Failed err \<Longrightarrow> after_failure fl err res"
    "res = Inr fl' \<Longrightarrow> (\<nexists>err. ans = Failed err) \<Longrightarrow> fl_order fl' = fl_order fl \<and> fl_route fl' = fl_route fl \<and> fl_fallback fl' = fl_fallback fl"
proof -
  let ?now = "ck_mono (tk_clock (ticks 0))"
  have "passed env (Some fl) R (res, R') \<and> (\<forall>fl'. res = Inr fl' \<longrightarrow> flight_ok fl') \<and> (\<forall>err. ans = Failed err \<longrightarrow> after_failure fl err res) \<and>
    (\<forall>fl'. res = Inr fl' \<and> (\<nexists>err. ans = Failed err) \<longrightarrow> fl_order fl' = fl_order fl \<and> fl_route fl' = fl_route fl \<and> fl_fallback fl' = fl_fallback fl)"
  proof (cases ans)
    case Pull
    obtain fl1 R1 where p: "on_pull env ?now fl R = (fl1, R1)" by fastforce
    have an: "fl_announced fl" and res: "res = Inr fl1" "R' = R1" using assms(1) Pull p by (auto simp: resume_def Let_def split: if_splits)
    have "fl_fallback fl \<longrightarrow> fl_lease fl = None \<and> fl_first fl" using assms(2) an by (simp add: flight_ok_def)
    note c = charged_pull [OF p assms(3) this]
    have "flight_ok fl1 \<and> fl_order fl1 = fl_order fl \<and> fl_route fl1 = fl_route fl \<and> fl_fallback fl1 = fl_fallback fl"
      using p assms(2) by (auto simp: on_pull_def flight_ok_def split: if_splits prod.splits)
    then show ?thesis using c res Pull by (simp add: passed_def live_def)
  next
    case (Whole rb)
    then have "(res, R') = finish env ?now fl (Served (response_block fl rb)) (served env ?now fl R)" using assms(1) by (auto simp: resume_def Let_def split: if_splits)
    moreover have "passed env (Some fl) R (finish env ?now fl (Served (response_block fl rb)) (served env ?now fl R))"
      by (rule passed_trans [OF handed_served passed_finish])
    ultimately show ?thesis using Whole by (simp add: finish_def)
  next
    case (Chunk content sz)
    obtain fl1 R1 where p: "on_chunk env ?now fl content sz R = (fl1, R1)" by fastforce
    have st: "fl_stream fl" "\<not> fl_announced fl" and res: "res = Inr fl1" "R' = R1"
      using assms(1) Chunk p by (auto simp: resume_def Let_def split: if_splits)
    have "flight_ok fl1 \<and> fl_order fl1 = fl_order fl \<and> fl_route fl1 = fl_route fl \<and> fl_fallback fl1 = fl_fallback fl"
      using p assms(2) st by (auto simp: on_chunk_def flight_ok_def Let_def split: if_splits prod.splits option.splits)
    then show ?thesis using charged_chunk [OF p assms(3)] res Chunk by (simp add: passed_def live_def)
  next
    case StreamEnd
    then have "(res, R') = finish env ?now fl Streamed R" using assms(1) by (auto simp: resume_def Let_def split: if_splits)
    then show ?thesis using passed_finish [of env fl R ?now Streamed] StreamEnd by (simp add: finish_def)
  next
    case Hangup
    then have "(res, R') = finish env ?now fl Cancelled R" using assms(1) by (simp add: resume_def Let_def)
    then show ?thesis using passed_finish [of env fl R ?now Cancelled] Hangup by (simp add: finish_def)
  next
    case (Failed err)
    then have an: "\<not> fl_announced fl" and f: "attempt_failed env ticks serves fl err R = (res, R')"
      using assms(1) by (auto simp: resume_def Let_def split: if_splits)
    have "passed env (Some fl) R (res, R') \<and> after_failure fl err res"
    proof (cases "fl_fallback fl")
      case True
      then show ?thesis using f fail_fallback_result [OF assms(2) an True] passed_fail_fallback [of env fl R ticks serves err] by (simp add: attempt_failed_def)
    next
      case False
      then have "fl_claim fl = None" using assms(2) by (simp add: flight_ok_def)
      with False show ?thesis
        using f fail_primary_result [OF assms(2) an False] passed_fail_primary [of fl env R ticks serves err] by (simp add: attempt_failed_def)
    qed
    moreover have "flight_ok fl'" if "after_failure fl err (Inr fl')" for fl' using that by (auto simp: after_failure_def split: if_splits)
    ultimately show ?thesis using Failed by auto
  qed
  note main = this
  show "passed env (Some fl) R (res, R')" by (rule main [THEN conjunct1])
  show "flight_ok fl'" if "res = Inr fl'" using main [THEN conjunct2, THEN conjunct1] that by simp
  show "after_failure fl err res" if "ans = Failed err" using main [THEN conjunct2, THEN conjunct2, THEN conjunct1] that by simp
  show "fl_order fl' = fl_order fl \<and> fl_route fl' = fl_route fl \<and> fl_fallback fl' = fl_fallback fl" if "res = Inr fl'" "\<nexists>err. ans = Failed err"
    using main [THEN conjunct2, THEN conjunct2, THEN conjunct2] that by simp
qed

text \<open>The first segment: a claimed endpoint is one claim more, and nothing else changes hands.\<close>

lemma placed_handed:
  assumes "select_and_claim_adapter env ticks rq R = (res, R1)"
  shows "case res of
      Inr (Some (a, claim)) \<Rightarrow> handed env None R (Some (fl\<lparr>fl_primary_claim := claim, fl_claim := None, fl_lease := None\<rparr>)) R1
    | _ \<Rightarrow> handed env None R None R1"
proof -
  have same: "handed env c R c S" if "same_tables env R S" for c S
    using same_tablesD(2,7) [OF that] by (intro handed_quiet) (simp_all add: probe_of_def)
  show ?thesis
  proof (cases "present (rq_pin rq)")
    case True
    have none: "handed env None R (Some (fl\<lparr>fl_primary_claim := None, fl_claim := None, fl_lease := None\<rparr>)) R"
      by (simp add: handed_def held_lease_def holds_probe_def)
    obtain sel S where s: "select_adapter env R (ticks 0) rq (rq_pin rq) [] None False = (sel, S)" by fastforce
    then have "S = R" using True by (auto simp: select_adapter_def Let_def split: option.splits if_splits)
    then show ?thesis using assms True s none by (auto simp: select_and_claim_adapter_def split: sum.splits option.splits)
  next
    case False
    note pl = select_and_claim_sound(1) [OF assms False]
    show ?thesis
    proof (cases "\<exists>a claim. res = Inr (Some (a, claim))")
      case True
      then obtain a claim where res: "res = Inr (Some (a, claim))" by blast
      then obtain i S c r where c: "same_tables env R S" "begin_dispatch (en_breaker env) (fr_registry S) (endpoint_id_for_adapter a) (tk_claim_clock (ticks i)) = (Some c, r)"
        "claim = Some c" "R1 = S\<lparr>fr_registry := r\<rparr>" using pl unfolding placed_def claimed_def by auto
      let ?f = "fl\<lparr>fl_primary_claim := None, fl_claim := None, fl_lease := None\<rparr>"
      have x: "handed env None R (Some ?f) S" using same [OF c(1), of None] by (simp add: handed_def held_lease_def holds_probe_def)
      have y: "handed env (Some ?f) S (Some (?f\<lparr>fl_claim := Some c\<rparr>)) R1" unfolding c(4) by (rule handed_begin [OF c(2)]) simp
      have z: "handed env (Some (?f\<lparr>fl_claim := Some c\<rparr>)) R1 (Some (fl\<lparr>fl_primary_claim := claim, fl_claim := None, fl_lease := None\<rparr>)) R1"
        using c(3) by (auto simp: handed_def held_lease_def holds_probe_def)
      show ?thesis unfolding res sum.case option.case case_prod_conv by (rule handed_trans [OF x handed_trans [OF y z]])
    next
      case none: False
      then have "same_tables env R R1" using pl by (auto simp: placed_def split: sum.splits option.splits)
      then show ?thesis using none same by (auto split: sum.splits option.splits)
    qed
  qed
qed

lemma plan_quiet:
  assumes "primary_offload_plan env R ck serves rq primary = (plan, R')"
  shows "handed env c R c R'" "fr_prefill R' = fr_prefill R"
proof -
  consider "R' = R" | b pol d where "queue_deadline env R ck serves (Some b) (Some pol) None = (d, R')"
    using assms by (auto simp: primary_offload_plan_def split: option.splits if_splits prod.splits)
  then have "handed env c R c R' \<and> fr_prefill R' = fr_prefill R" by cases (use queue_deadline_quiet in auto)
  then show "handed env c R c R'" "fr_prefill R' = fr_prefill R" by simp_all
qed

lemma start_result:
  assumes "start_request env ticks serves stream legacy rq0 R = (res, R')"
  shows "passed env None R (res, R')" "res = Inr fl \<Longrightarrow> flight_ok fl"
proof -
  have "passed env None R (res, R') \<and> (\<forall>fl. res = Inr fl \<longrightarrow> flight_ok fl)"
  proof (cases "resolve_pin_provider (rq_pin rq0) legacy")
    case (Inl e)
    then show ?thesis using assms by (auto simp: start_request_def passed_def live_def)
  next
    case (Inr pin)
    define rq where "rq = rq0\<lparr>rq_pin := pin\<rparr>"
    let ?ck = "tk_claim_clock (ticks 0)"
    obtain sel R1 where s: "select_and_claim_adapter env ticks rq R = (sel, R1)" by fastforce
    show ?thesis
    proof (cases "\<exists>a claim. sel = Inr (Some (a, claim))")
      case False
      then have "handed env None R None R1" using placed_handed [OF s, of undefined] by (auto split: sum.splits option.splits)
      moreover have "R' = R1 \<and> (\<exists>out. res = Inl out)"
        using assms False Inr s unfolding start_request_def rq_def [symmetric] by (auto simp: Let_def rq_def [symmetric] split: sum.splits option.splits)
      ultimately show ?thesis by (auto simp: passed_def live_def)
    next
      case True
      then obtain primary claim where sel: "sel = Inr (Some (primary, claim))" by blast
      define leaf where "leaf = bind_leaf primary rq"
      obtain l R2 where al: "acquire_lease env R1 (ck_mono ?ck) rq (endpoint_id_for_adapter primary)
          (case leaf of Inl _ \<Rightarrow> None | Inr x \<Rightarrow> anchor_for env rq x) = (l, R2)" by fastforce
      have h: "handed env None R (Some (fl\<lparr>fl_primary_claim := claim, fl_claim := None, fl_lease := Some l\<rparr>)) R2" for fl
      proof -
        have "handed env None R (Some (fl\<lparr>fl_primary_claim := claim, fl_claim := None, fl_lease := None\<rparr>)) R1"
          using placed_handed [OF s, of fl] sel by simp
        from handed_trans [OF this handed_acquire [OF al]] show ?thesis by simp
      qed
      show ?thesis
      proof (cases leaf)
        case (Inl err)
        fix fl0 :: flight
        let ?f = "fl0\<lparr>fl_primary_claim := claim, fl_claim := None, fl_lease := Some l\<rparr>"
        have res: "res = Inl (RaisedRouter err)" "R' = release_lease env (end_claim R2 claim) (ck_mono ?ck) (Some l) False"
          using assms Inr s sel al Inl unfolding start_request_def rq_def [symmetric] by (simp_all add: Let_def rq_def [symmetric] leaf_def [symmetric])
        have x: "handed env (Some ?f) R2 (Some (?f\<lparr>fl_primary_claim := None\<rparr>)) (end_claim R2 claim)"
          using handed_end_claim(2) [of env ?f R2] by simp
        have y: "handed env (Some (?f\<lparr>fl_primary_claim := None\<rparr>)) (end_claim R2 claim) (Some (?f\<lparr>fl_primary_claim := None, fl_lease := None\<rparr>)) R'"
          using handed_release(1) [of env "?f\<lparr>fl_primary_claim := None\<rparr>" "end_claim R2 claim" "ck_mono ?ck" False] res(2) by simp
        have z: "handed env (Some (?f\<lparr>fl_primary_claim := None, fl_lease := None\<rparr>)) R' None R'"
          by (simp add: handed_def held_lease_def holds_probe_def)
        have "handed env None R None R'" by (rule handed_trans [OF h handed_trans [OF x handed_trans [OF y z]]])
        then show ?thesis using res(1) by (simp add: passed_def live_def)
      next
        case leaf_ok: (Inr x)
        obtain plan R3 where pl: "primary_offload_plan env R2 ?ck serves rq primary = (plan, R3)" by fastforce
        let ?e = "endpoint_id_for_adapter primary"
        define R4 where "R4 = (if stream then R3 else R3\<lparr>fr_registry := ensure (en_breaker env) (fr_registry R3) ?e\<rparr>)"
        have "\<exists>fl. res = Inr fl \<and> R' = R4 \<and> fl_primary_claim fl = claim \<and> fl_claim fl = None \<and> fl_lease fl = Some l \<and> fl_first fl \<and>
            \<not> fl_fallback fl \<and> fl_attempts fl = [] \<and> fl_route fl = fl_primary fl \<and> fl_announced fl = stream \<and> fl_stream fl = stream \<and> \<not> fl_yielded fl"
          using assms unfolding start_request_def Inr sum.case Let_def rq_def [symmetric] s sel option.case case_prod_conv leaf_def [symmetric]
            leaf_ok al [unfolded leaf_ok sum.case] pl R4_def [symmetric] by clarsimp
        then obtain fl where res: "res = Inr fl" "R' = R4" "fl_primary_claim fl = claim" "fl_claim fl = None" "fl_lease fl = Some l" "fl_first fl"
          "\<not> fl_fallback fl" "fl_attempts fl = []" "fl_route fl = fl_primary fl" "fl_announced fl = stream" "fl_stream fl = stream" "\<not> fl_yielded fl"
          by blast
        have q: "handed env c R3 c R4" for c
        proof -
          have "handed env c R3 c (R3\<lparr>fr_registry := ensure (en_breaker env) (fr_registry R3) ?e\<rparr>)" by (rule handed_quiet) (simp_all add: probe_quiet(1))
          then show ?thesis by (simp add: R4_def)
        qed
        have "fl\<lparr>fl_primary_claim := claim, fl_claim := None, fl_lease := Some l\<rparr> = fl" using res(3-5) by (cases fl) simp
        then have "handed env None R (Some fl) R2" using h [of fl] by simp
        then have hd': "handed env None R (Some fl) R'" unfolding res(2) by (rule handed_trans [OF handed_trans [OF _ plan_quiet(1) [OF pl]] q])
        have pf: "fr_prefill R4 = fr_prefill R2" using plan_quiet(2) [OF pl] by (simp add: R4_def)
        have "charged R' fl" using acquire_effect [OF al] res by (auto simp: charged_def lease_open_def pf)
        moreover have "flight_ok fl" using res by (simp add: flight_ok_def)
        ultimately show ?thesis using hd' res(1) by (simp add: passed_def live_def)
      qed
    qed
  qed
  then show "passed env None R (res, R')" "res = Inr fl \<Longrightarrow> flight_ok fl" by blast+
qed

section \<open>The books of the router\<close>

text \<open>Every probe and every open charge belongs to a call under way, and no charge to two.\<close>

definition books :: "router_env \<Rightarrow> system \<Rightarrow> bool" where
  "books env s \<longleftrightarrow>
     tracker_ok (fr_prefill (sy_router s)) \<and>
     (\<forall>i fl. i < length (sy_calls s) \<and> live (sy_calls s ! i) = Some fl \<longrightarrow> flight_ok fl \<and> charged (sy_router s) fl) \<and>
     (\<forall>i j l. i < length (sy_calls s) \<and> j < length (sy_calls s) \<and> held_lease (live (sy_calls s ! i)) = Some l \<and>
        held_lease (live (sy_calls s ! j)) = Some l \<longrightarrow> i = j) \<and>
     (\<forall>l. lease_open (sy_router s) l \<longrightarrow> (\<exists>i < length (sy_calls s). held_lease (live (sy_calls s ! i)) = Some l)) \<and>
     (\<forall>e tok. probe_of env (sy_router s) e = Some tok \<longrightarrow> (\<exists>i < length (sy_calls s). holds_probe (live (sy_calls s ! i)) e tok))"

lemma books_update:
  assumes "books env s" "i < length (sy_calls s)" "passed env (live (sy_calls s ! i)) (sy_router s) (res, R')"
    "\<And>fl. res = Inr fl \<Longrightarrow> flight_ok fl"
  shows "books env \<lparr>sy_router = R', sy_calls = (sy_calls s)[i := res]\<rparr>"
proof -
  let ?R = "sy_router s" and ?cs = "sy_calls s" and ?c = "live (sy_calls s ! i)"
  let ?n = "length (pt_leases (fr_prefill ?R))"
  have h: "handed env ?c ?R (live res) R'" and ch: "\<And>fl. live res = Some fl \<Longrightarrow> charged R' fl" using assms(3) by (simp_all add: passed_def)
  have old: "l < ?n" if jl: "j < length ?cs" "held_lease (live (?cs ! j)) = Some l" for j l
  proof -
    obtain fl where fl: "live (?cs ! j) = Some fl" "fl_lease fl = Some l" using jl(2) by (auto simp: held_lease_def bind_eq_Some_conv)
    then have "charged ?R fl" using assms(1) jl(1) by (simp add: books_def)
    then show ?thesis using fl(2) by (simp add: charged_def)
  qed
  have uniq: "j = k" if "j < length ?cs" "k < length ?cs" "held_lease (live (?cs ! j)) = Some l" "held_lease (live (?cs ! k)) = Some l" for j k l
    using that assms(1) unfolding books_def by blast
  have new: "held_lease ?c = Some l \<or> ?n \<le> l" if "held_lease (live res) = Some l" for l using that h unfolding handed_def by blast
  have other: "lease_open R' l = lease_open ?R l" if "j < length ?cs" "j \<noteq> i" "held_lease (live (?cs ! j)) = Some l" for j l
  proof -
    have "held_lease ?c \<noteq> Some l" using uniq [OF that(1) assms(2) that(3)] that(2) by blast
    moreover have "held_lease (live res) \<noteq> Some l" using new old [OF that(1,3)] calculation by fastforce
    ultimately show ?thesis using h unfolding handed_def by blast
  qed
  have le: "?n \<le> length (pt_leases (fr_prefill R'))" using h unfolding handed_def by blast
  show ?thesis unfolding books_def system.simps length_list_update
  proof (intro conjI allI impI)
    show "tracker_ok (fr_prefill R')" using h assms(1) by (simp add: handed_def books_def)
  next
    fix j fl assume j: "j < length ?cs \<and> live (?cs[i := res] ! j) = Some fl"
    show "flight_ok fl"
      using j assms(1,4) by (cases "j = i") (auto simp: books_def live_def split: sum.splits)
    show "charged R' fl"
    proof (cases "j = i")
      case True
      then show ?thesis using ch j assms(2) by simp
    next
      case False
      then have "charged ?R fl" "live (?cs ! j) = Some fl" using assms(1) j by (auto simp: books_def)
      moreover have "lease_open R' l = lease_open ?R l" if "fl_lease fl = Some l" for l
        using other [of j l] that j False calculation(2) by (simp add: held_lease_def)
      ultimately show ?thesis using le by (auto simp: charged_def)
    qed
  next
    fix j k l assume jk: "j < length ?cs \<and> k < length ?cs \<and> held_lease (live (?cs[i := res] ! j)) = Some l \<and> held_lease (live (?cs[i := res] ! k)) = Some l"
    have "\<not> (m \<noteq> i \<and> m < length ?cs \<and> held_lease (live (?cs ! m)) = Some l \<and> held_lease (live res) = Some l)" for m
      using new [of l] uniq [of m i l] old [of m l] assms(2) by fastforce
    then show "j = k" using jk uniq [of j k l] by (cases "j = i"; cases "k = i") auto
  next
    fix l assume "lease_open R' l"
    then have "lease_open ?R l \<and> held_lease ?c \<noteq> Some l \<or> held_lease (live res) = Some l" using h unfolding handed_def by blast
    then show "\<exists>j < length ?cs. held_lease (live (?cs[i := res] ! j)) = Some l"
    proof
      assume "lease_open ?R l \<and> held_lease ?c \<noteq> Some l"
      then obtain j where "j < length ?cs" "held_lease (live (?cs ! j)) = Some l" "j \<noteq> i" using assms(1) unfolding books_def by metis
      then show ?thesis by (intro exI [of _ j]) simp
    qed (use assms(2) in \<open>intro exI [of _ i], simp\<close>)
  next
    fix e tok assume "probe_of env R' e = Some tok"
    then have "probe_of env ?R e = Some tok \<and> \<not> holds_probe ?c e tok \<or> holds_probe (live res) e tok" using h unfolding handed_def by blast
    then show "\<exists>j < length ?cs. holds_probe (live (?cs[i := res] ! j)) e tok"
    proof
      assume "probe_of env ?R e = Some tok \<and> \<not> holds_probe ?c e tok"
      then obtain j where "j < length ?cs" "holds_probe (live (?cs ! j)) e tok" "j \<noteq> i" using assms(1) unfolding books_def by metis
      then show ?thesis by (intro exI [of _ j]) simp
    qed (use assms(2) in \<open>intro exI [of _ i], simp\<close>)
  qed
qed

lemma books_quiet:
  assumes "books env s" "handed env None (sy_router s) None R'" "pt_leases (fr_prefill R') = pt_leases (fr_prefill (sy_router s))"
  shows "books env (s\<lparr>sy_router := R'\<rparr>)"
proof -
  have "lease_open R' l = lease_open (sy_router s) l" for l using assms(3) by (simp add: lease_open_def)
  moreover have "probe_of env R' e = Some tok \<Longrightarrow> probe_of env (sy_router s) e = Some tok" for e tok
    using assms(2) by (auto simp: handed_def holds_probe_def)
  ultimately show ?thesis using assms by (auto simp: books_def charged_def handed_def)
qed

lemma admin_quiet: "fr_prefill (admin_step R ch) = fr_prefill R" "fr_registry (admin_step R ch) = fr_registry R"
  by (cases ch; simp add: register_route_def Let_def)+

lemma books_ended_call:
  assumes "books env s"
  shows "books env (s\<lparr>sy_calls := sy_calls s @ [Inl out]\<rparr>)"
proof -
  let ?n = "length (sy_calls s)" and ?cs = "sy_calls s @ [Inl out]"
  have old: "live (?cs ! i) = live (sy_calls s ! i)" if "i < ?n" for i using that by (simp add: nth_append)
  have new: "i < ?n" if "i < Suc ?n" "held_lease (live (?cs ! i)) = Some l \<or> live (?cs ! i) = Some fl" for i l fl
    using that by (cases "i < ?n") (auto simp: nth_append live_def held_lease_def less_Suc_eq)
  have eq: "s\<lparr>sy_calls := ?cs\<rparr> = \<lparr>sy_router = sy_router s, sy_calls = ?cs\<rparr>" by (cases s) simp
  show ?thesis unfolding eq books_def system.simps length_append_singleton
  proof (intro conjI allI impI)
    show "tracker_ok (fr_prefill (sy_router s))" using assms by (simp add: books_def)
  next
    fix i fl assume "i < Suc ?n \<and> live (?cs ! i) = Some fl"
    then have "i < ?n \<and> live (sy_calls s ! i) = Some fl" using new old by metis
    then show "flight_ok fl" "charged (sy_router s) fl" using assms by (auto simp: books_def)
  next
    fix i j l assume a: "i < Suc ?n \<and> j < Suc ?n \<and> held_lease (live (?cs ! i)) = Some l \<and> held_lease (live (?cs ! j)) = Some l"
    then have "i < ?n" "j < ?n" using new by blast+
    then show "i = j" using a old assms by (simp add: books_def)
  next
    fix l assume "lease_open (sy_router s) l"
    then obtain i where "i < ?n" "held_lease (live (sy_calls s ! i)) = Some l" using assms unfolding books_def by blast
    then show "\<exists>i < Suc ?n. held_lease (live (?cs ! i)) = Some l" using old by (intro exI [of _ i]) simp
  next
    fix e tok assume "probe_of env (sy_router s) e = Some tok"
    then obtain i where "i < ?n" "holds_probe (live (sy_calls s ! i)) e tok" using assms unfolding books_def by blast
    then show "\<exists>i < Suc ?n. holds_probe (live (?cs ! i)) e tok" using old by (intro exI [of _ i]) simp
  qed
qed

lemma books_step:
  assumes "books env s" "system_step env s ev = Some s'"
  shows "books env s'"
proof (cases ev)
  case (Arrive ticks serves stream legacy rq)
  obtain res R where r: "start_request env ticks serves stream legacy rq (sy_router s) = (res, R)" by fastforce
  let ?s = "s\<lparr>sy_calls := sy_calls s @ [Inl Cancelled]\<rparr>" and ?n = "length (sy_calls s)"
  have "books env ?s" using assms(1) by (rule books_ended_call)
  moreover have "passed env (live (sy_calls ?s ! ?n)) (sy_router ?s) (res, R)" using start_result(1) [OF r] by (simp add: live_def)
  ultimately have "books env \<lparr>sy_router = R, sy_calls = (sy_calls ?s)[?n := res]\<rparr>"
    using start_result(2) [OF r] by (intro books_update) simp_all
  then show ?thesis using assms(2) Arrive r by simp
next
  case (Answer i ticks serves ans)
  then obtain fl res R where a: "i < length (sy_calls s)" "sy_calls s ! i = Inr fl" "resume env ticks serves fl ans (sy_router s) = Some (res, R)"
    "s' = \<lparr>sy_router = R, sy_calls = (sy_calls s)[i := res]\<rparr>"
    using assms(2) by (auto split: if_splits sum.splits option.splits)
  have "live (sy_calls s ! i) = Some fl" using a(2) by (simp add: live_def)
  then have ok: "flight_ok fl" "charged (sy_router s) fl" using assms(1) a(1) unfolding books_def by blast+
  show ?thesis unfolding a(4)
    using resume_result(1,2) [OF a(3) ok] assms(1) a(1,2) by (intro books_update) (simp_all add: live_def)
next
  case (Admin ch)
  have "handed env None (sy_router s) None (admin_step (sy_router s) ch)" by (rule handed_quiet) (simp_all add: admin_quiet probe_of_def)
  then show ?thesis using assms Admin books_quiet [of env s "admin_step (sy_router s) ch"] by (simp add: admin_quiet)
next
  case (PageSent e ck epoch gen delivered)
  let ?R = "(sy_router s)\<lparr>fr_registry := page_sent (fr_registry (sy_router s)) e ck epoch gen delivered\<rparr>"
  have "handed env None (sy_router s) None ?R" by (rule handed_quiet) (simp_all add: probe_quiet(5))
  then show ?thesis using assms PageSent books_quiet [of env s ?R] by simp
qed

interpretation router_books: kept_by_relation "\<lambda>s ev s'. system_step env s ev = Some s'" "books env" for env
  by unfold_locales (rule books_step)

text \<open>A router that has not dispatched anything yet.\<close>

definition idle_router :: "router_env \<Rightarrow> fixed_router \<Rightarrow> bool" where
  "idle_router env R \<longleftrightarrow> fr_registry R = Registry_init \<and> fr_prefill R = PrefillLoadTracker_init None None"

lemma books_init: "idle_router env R \<Longrightarrow> books env (system_init R)"
  using tracker_ok_init [of None None]
  by (simp add: books_def system_init_def idle_router_def lease_open_def PrefillLoadTracker_init_def probe_of_def endpoint_of_def
      Registry_init_def dict_get_or_def CircuitBreaker_init_def)

lemma books_reach: "idle_router env R \<Longrightarrow> steps (system_step env) (system_init R) es = Some s \<Longrightarrow> books env s"
  using router_books.reach_keeps [OF steps_reach books_init] .

lemma books_call:
  assumes "books env s" "i < length (sy_calls s)" "sy_calls s ! i = Inr fl"
  shows "flight_ok fl" "charged (sy_router s) fl"
proof -
  have "live (sy_calls s ! i) = Some fl" using assms(3) by (simp add: live_def)
  then show "flight_ok fl" "charged (sy_router s) fl" using assms(1,2) unfolding books_def by blast+
qed

section \<open>How long a request may go on\<close>

text \<open>What a failure leaves of the order bounds the failures still to come.\<close>

definition failures_left :: "nat \<Rightarrow> flight \<Rightarrow> bool" where
  "failures_left n fl \<longleftrightarrow> fl_fallback fl \<and> (\<forall>e. left_of_order (order_record_failure (fl_order fl) e (Some (fl_route fl))) < n)"

lemma fail_fallback_within:
  assumes "fail_fallback env ticks serves fl err R = (Inr fl', R')"
  shows "failures_left (left_of_order (order_record_failure (fl_order fl) (re_exn err) (Some (fl_route fl)))) fl'"
proof -
  have "\<not> fl_yielded fl" using assms by (auto simp: fail_fallback_def finish_def Let_def)
  moreover have "\<nexists>now f S. surfaced env now f S = (Inr fl', R')" by (auto simp: surfaced_def finish_def split: prod.splits)
  ultimately obtain f S where "walk_on env ticks serves 1 f S = (Inr fl', R')"
    "fl_order f = order_record_failure (fl_order fl) (re_exn err) (Some (fl_route fl))"
    using assms by (auto simp: fail_fallback_def Let_def split: if_splits)
  then show ?thesis using walk_result [of env ticks serves 1 f S "Inr fl'" R'] by (simp add: failures_left_def redispatched_def)
qed

lemma fallback_order_same:
  assumes "fr_routes R' = fr_routes R" "fr_overrides R' = fr_overrides R" "fr_disabled R' = fr_disabled R"
    "fr_route_states R' = fr_route_states R" "fr_offload R' = fr_offload R"
  shows "request_fallback_order R' rq primary = request_fallback_order R rq primary"
proof -
  have "apply_disabled_providers R' as m = apply_disabled_providers R as m" for as m
    using assms by (simp add: apply_disabled_providers_def switched_off_def)
  then have "get_effective_adapters R' m route = get_effective_adapters R m route" for m route
    using assms by (simp add: get_effective_adapters_def Let_def split: option.split list.split)
  then have "dispatch_range R' m route sc md = dispatch_range R m route sc md" for m route sc md by (simp add: dispatch_range_def)
  moreover have "offload_target R' m route as = offload_target R m route as" for m route as using assms by (simp add: offload_target_def)
  ultimately show ?thesis using assms(1) by (simp add: request_fallback_order_def split: option.split)
qed

lemma after_primary_tables:
  "request_fallback_order (drop_affinity (router_on_failure env (release_lease env R now l c) ck e reason rq err) rq') rq primary =
     request_fallback_order R rq primary"
  by (rule fallback_order_same)
     (simp_all add: drop_affinity_def router_on_failure_def release_lease_def Let_def split: option.split)

text \<open>The routes of the model inside the request's range, when the primary fails.\<close>

definition fallback_range :: "fixed_router \<Rightarrow> route_request \<Rightarrow> (route_adapter \<times> real) list" where
  "fallback_range R rq =
     (case dict_get (fr_routes R) (rq_model rq) of
        None \<Rightarrow> [] | Some route \<Rightarrow> dispatch_range R (rq_model rq) route (rq_scope rq) (rq_modalities rq))"

lemma ordinary_length:
  assumes "(b, w) \<in> set cands"
  shows "length (filter (\<lambda>a. Some a \<noteq> Some b) (map fst (filter P cands))) < length cands"
  using assms
proof (induction cands)
  case (Cons x cands)
  then show ?case by (cases "x = (b, w)") (auto simp: le_imp_less_Suc)
qed simp

lemma order_left: "left_of_order (fst (request_fallback_order R rq primary)) \<le> 2 * length (fallback_range R rq)"
proof (cases "dict_get (fr_routes R) (rq_model rq)")
  case None
  then show ?thesis by (simp add: request_fallback_order_def FallbackOrder_init_def left_of_order_def)
next
  case (Some route)
  let ?cs = "dispatch_range R (rq_model rq) route (rq_scope rq) (rq_modalities rq)"
  let ?t = "offload_target R (rq_model rq) route ?cs"
  have plain: "left_of_order (FallbackOrder_init (map fst (filter P (filter Q ?cs))) None) \<le> 2 * length ?cs" for P Q
    using length_filter_le [of P "filter Q ?cs"] length_filter_le [of Q ?cs] by (simp add: FallbackOrder_init_def left_of_order_def)
  have none: "left_of_order (FallbackOrder_init (map fst (filter P ?cs)) None) \<le> 2 * length ?cs" for P
    using length_filter_le [of P ?cs] by (simp add: FallbackOrder_init_def left_of_order_def)
  have off: "left_of_order (FallbackOrder_init (map fst (filter P ?cs)) (Some b)) \<le> 2 * length ?cs" if "?t = Some (b, pol)" for P b pol
  proof -
    have "\<exists>w. (b, w) \<in> set ?cs"
      using that by (auto simp: offload_target_def find_Some_iff split: option.splits) (metis nth_mem)
    then obtain w where "(b, w) \<in> set ?cs" ..
    from ordinary_length [OF this, of P] show ?thesis by (simp add: FallbackOrder_init_def left_of_order_def)
  qed
  show ?thesis
    using plain none off by (auto simp: request_fallback_order_def fallback_range_def Some Let_def split: option.split)
qed

lemma fail_primary_within:
  assumes "fail_primary env ticks serves fl err R = (Inr fl', R')"
  shows "failures_left (2 * length (fallback_range R (fl_request fl)) + 1) fl'"
proof -
  let ?order = "fst (request_fallback_order R (fl_request fl) (fl_primary fl))"
  have "\<exists>f S. walk_on env ticks serves 1 f S = (Inr fl', R') \<and> fl_order f = order_record_failure ?order (re_exn err) (Some (fl_primary fl))"
    using assms unfolding fail_primary_def Let_def after_primary_tables
    by (auto simp: finish_def split: if_splits prod.splits)
  then obtain f S where "walk_on env ticks serves 1 f S = (Inr fl', R')" "fl_order f = order_record_failure ?order (re_exn err) (Some (fl_primary fl))"
    by blast
  moreover from this have "left_of_order (fl_order f) \<le> 2 * length (fallback_range R (fl_request fl)) + 1"
    using record_left [of ?order "re_exn err" "Some (fl_primary fl)"] order_left [of R "fl_request fl" "fl_primary fl"] by simp
  ultimately show ?thesis
    using walk_result [of env ticks serves 1 f S "Inr fl'" R'] by (auto simp: failures_left_def redispatched_def intro: less_le_trans)
qed

fun fails :: "nat \<Rightarrow> system_event \<Rightarrow> bool" where
  "fails i (Answer j _ _ (Failed _)) = (j = i)"
| "fails i _ = False"

lemma ended_stays:
  assumes "steps (system_step env) s es = Some s'" "i < length (sy_calls s)" "sy_calls s ! i = Inl out"
  shows "filter (fails i) es = []"
  using assms
proof (induction es arbitrary: s)
  case (Cons ev es)
  obtain t where t: "system_step env s ev = Some t" "steps (system_step env) t es = Some s'" using Cons.prems(1) by (auto split: option.splits)
  have "\<not> fails i ev \<and> i < length (sy_calls t) \<and> sy_calls t ! i = Inl out"
    using t(1) Cons.prems(2,3)
    by (cases ev) (auto simp: nth_append nth_list_update split: prod.splits if_splits sum.splits option.splits elim!: fails.elims)
  then show ?case using Cons.IH [OF t(2)] by simp
qed simp

lemma failures_bounded:
  assumes "steps (system_step env) s es = Some s'" "books env s" "i < length (sy_calls s)" "sy_calls s ! i = Inr fl" "failures_left n fl"
  shows "length (filter (fails i) es) \<le> n"
  using assms
proof (induction es arbitrary: s fl n)
  case (Cons ev es)
  obtain t where t: "system_step env s ev = Some t" "steps (system_step env) t es = Some s'" using Cons.prems(1) by (auto split: option.splits)
  have bt: "books env t" using books_step [OF Cons.prems(2) t(1)] .
  have len: "i < length (sy_calls t)" using t(1) Cons.prems(3) by (cases ev) (auto split: prod.splits if_splits sum.splits option.splits)
  show ?case
  proof (cases "\<exists>ticks serves ans. ev = Answer i ticks serves ans")
    case False
    then have "sy_calls t ! i = Inr fl" "\<not> fails i ev"
      using t(1) Cons.prems(3,4)
      by (cases ev; auto simp: nth_append nth_list_update split: prod.splits if_splits sum.splits option.splits elim!: fails.elims)+
    then show ?thesis using Cons.IH [OF t(2) bt len _ Cons.prems(5)] by simp
  next
    case True
    then obtain ticks serves ans where ev: "ev = Answer i ticks serves ans" by blast
    obtain res R where r: "resume env ticks serves fl ans (sy_router s) = Some (res, R)" "sy_calls t ! i = res"
      using t(1) Cons.prems(3,4) ev by (auto split: option.splits)
    have ok: "flight_ok fl" "charged (sy_router s) fl" using books_call [OF Cons.prems(2-4)] .
    have fb: "fl_fallback fl" using Cons.prems(5) by (simp add: failures_left_def)
    show ?thesis
    proof (cases res)
      case (Inl out)
      then have "filter (fails i) es = []" using ended_stays [OF t(2) len] r(2) by simp
      moreover have "fails i ev \<Longrightarrow> 0 < n" using Cons.prems(5) by (auto simp: failures_left_def dest: spec [of _ undefined])
      ultimately show ?thesis by (simp add: Suc_le_eq)
    next
      case (Inr fl')
      show ?thesis
      proof (cases "\<exists>err. ans = Failed err")
        case False
        then have "failures_left n fl'" using resume_result(4) [OF r(1) ok Inr] Cons.prems(5) by (simp add: failures_left_def)
        moreover have "\<not> fails i ev" using False ev by (auto elim!: fails.elims)
        ultimately show ?thesis using Cons.IH [OF t(2) bt len, of fl' n] r(2) Inr by simp
      next
        case True
        then obtain err where err: "ans = Failed err" by blast
        let ?m = "left_of_order (order_record_failure (fl_order fl) (re_exn err) (Some (fl_route fl)))"
        have "fail_fallback env ticks serves fl err (sy_router s) = (Inr fl', R)"
          using r(1) err Inr fb by (auto simp: resume_def attempt_failed_def Let_def split: if_splits)
        then have "length (filter (fails i) es) \<le> ?m"
          using Cons.IH [OF t(2) bt len, of fl' ?m] r(2) Inr fail_fallback_within by blast
        moreover have "?m < n" using Cons.prems(5) by (simp add: failures_left_def)
        ultimately show ?thesis by simp
      qed
    qed
  qed
qed simp

section \<open>An example\<close>

text \<open>A stream whose first endpoint fails before it said anything, and whose second one answers.\<close>

definition demo_ticks :: "nat \<Rightarrow> tick" where "demo_ticks _ = demo_tick"

definition demo_start :: "system_event list" where
  "demo_start = [Arrive demo_ticks True True LegacyUnset demo_request, Answer 0 demo_ticks True Pull]"

definition demo_failure :: system_event where
  "demo_failure = Answer 0 demo_ticks True (Failed (demo_error Other_exn (Some 503)))"

definition demo_state :: "system_event list \<Rightarrow> system" where
  "demo_state es = the (steps (system_step demo_env) (system_init demo_router) es)"

lemma demo_idle: "idle_router demo_env demo_router"
  by (simp add: idle_router_def demo_router_def register_route_def FixedRouter_init_def Let_def)

lemma demo_runs:
  "steps (system_step demo_env) (system_init demo_router) demo_start = Some (demo_state demo_start)"
  "steps (system_step demo_env) (system_init demo_router) (demo_start @ [demo_failure]) = Some (demo_state (demo_start @ [demo_failure]))"
proof -
  have run: "steps f s es = Some (the (steps f s es))" if "\<not> Option.is_none (steps f s es)" for f :: "system \<Rightarrow> system_event \<Rightarrow> system option" and s es
    using that by (cases "steps f s es") simp_all
  have "\<not> Option.is_none (steps (system_step demo_env) (system_init demo_router) demo_start)"
    "\<not> Option.is_none (steps (system_step demo_env) (system_init demo_router) (demo_start @ [demo_failure]))" by code_simp+
  from run [OF this(1)] run [OF this(2)] show
    "steps (system_step demo_env) (system_init demo_router) demo_start = Some (demo_state demo_start)"
    "steps (system_step demo_env) (system_init demo_router) (demo_start @ [demo_failure]) = Some (demo_state (demo_start @ [demo_failure]))"
    by (simp_all add: demo_state_def)
qed

lemma demo_calls:
  "length (sy_calls (demo_state demo_start)) = 1" "\<not> isl (sy_calls (demo_state demo_start) ! 0)"
  "length (sy_calls (demo_state (demo_start @ [demo_failure]))) = 1" "\<not> isl (sy_calls (demo_state (demo_start @ [demo_failure])) ! 0)"
  by code_simp+

section \<open>Properties\<close>

lemma books_leases:
  assumes "books env s"
  shows "lease_open (sy_router s) l \<longleftrightarrow> (\<exists>i fl. i < length (sy_calls s) \<and> sy_calls s ! i = Inr fl \<and> fl_lease fl = Some l \<and> fl_first fl)"
proof -
  have held: "held_lease (live c) = Some l \<longleftrightarrow> (\<exists>fl. c = Inr fl \<and> fl_lease fl = Some l)" for c
    by (auto simp: held_lease_def live_def split: sum.splits)
  have "fl_first fl \<longleftrightarrow> lease_open (sy_router s) l" if "i < length (sy_calls s)" "sy_calls s ! i = Inr fl" "fl_lease fl = Some l" for i fl
    using books_call(2) [OF assms that(1,2)] that(3) by (simp add: charged_def)
  moreover have "\<exists>i < length (sy_calls s). held_lease (live (sy_calls s ! i)) = Some l" if "lease_open (sy_router s) l"
    using assms that by (simp add: books_def)
  ultimately show ?thesis unfolding held by blast
qed

lemma open_sum_none:
  assumes "\<And>i. i < length ls \<Longrightarrow> pl_released (ls ! i)"
  shows "open_sum f ls = 0"
proof -
  have "map (\<lambda>l. if pl_released l then 0 else f l) ls = map (\<lambda>_. 0) ls" using assms by (auto simp: in_set_conv_nth)
  then show ?thesis unfolding open_sum_def by (simp only: sum_list_0)
qed

lemma books_probe:
  assumes "books env s" "probe_of env (sy_router s) e = Some tok"
  shows "\<exists>i fl. i < length (sy_calls s) \<and> sy_calls s ! i = Inr fl \<and>
    (fl_primary_claim fl = Some \<lparr>dc_endpoint_id = e, dc_probe_token = Some tok\<rparr> \<or> fl_claim fl = Some \<lparr>dc_endpoint_id = e, dc_probe_token = Some tok\<rparr>)"
proof -
  obtain i where "i < length (sy_calls s)" "holds_probe (live (sy_calls s ! i)) e tok" using assms unfolding books_def by blast
  then show ?thesis by (intro exI [of _ i]) (cases "sy_calls s ! i"; auto simp: holds_probe_def live_def)
qed

lemma books_all_ended:
  assumes "books env s" "list_all isl (sy_calls s)"
  shows "backlog (fr_prefill (sy_router s)) e = 0 \<and> elephants (fr_prefill (sy_router s)) e = 0 \<and> probe_of env (sy_router s) e = None"
proof -
  have ended: "sy_calls s ! i \<noteq> Inr fl" if "i < length (sy_calls s)" for i fl using that assms(2) by (force simp: list_all_length)
  then have "\<not> lease_open (sy_router s) l" for l using books_leases [OF assms(1)] by blast
  then have "open_sum f (pt_leases (fr_prefill (sy_router s))) = 0" for f by (intro open_sum_none) (simp add: lease_open_def)
  moreover have "load_ok (fr_prefill (sy_router s))" using assms(1) by (simp add: books_def tracker_ok_def)
  moreover have "probe_of env (sy_router s) e = None"
    using books_probe [OF assms(1)] ended by (cases "probe_of env (sy_router s) e") blast+
  ultimately show ?thesis by (simp add: load_ok_def)
qed

text \<open>C16. The router leaks nothing. Requests, whole or streamed, run interleaved with each other and with
  changes of the tables; each ends by a response, a refusal, an error of the router, a cancelled task
  or a generator closed at any point. At every moment a prompt is charged to an endpoint exactly while
  some request under way holds that charge and its endpoint has produced nothing yet, no two requests
  hold the same charge, and every half-open circuit that is being probed is probed by a request under
  way that has the token. Once every request has ended, no endpoint has a backlog or a large prompt
  under way and no circuit is held.\<close>

theorem nothing_leaks:
  assumes "idle_router env R" "steps (system_step env) (system_init R) es = Some s"
  shows "(lease_open (sy_router s) l \<longleftrightarrow> (\<exists>i fl. i < length (sy_calls s) \<and> sy_calls s ! i = Inr fl \<and> fl_lease fl = Some l \<and> fl_first fl)) \<and>
    (\<forall>i j f g. i < length (sy_calls s) \<and> j < length (sy_calls s) \<and> sy_calls s ! i = Inr f \<and> sy_calls s ! j = Inr g \<and>
       fl_lease f = Some l \<and> fl_lease g = Some l \<longrightarrow> i = j) \<and>
    (probe_of env (sy_router s) e = Some tok \<longrightarrow>
       (\<exists>i fl. i < length (sy_calls s) \<and> sy_calls s ! i = Inr fl \<and>
          (fl_primary_claim fl = Some \<lparr>dc_endpoint_id = e, dc_probe_token = Some tok\<rparr> \<or> fl_claim fl = Some \<lparr>dc_endpoint_id = e, dc_probe_token = Some tok\<rparr>))) \<and>
    (list_all isl (sy_calls s) \<longrightarrow>
       backlog (fr_prefill (sy_router s)) e = 0 \<and> elephants (fr_prefill (sy_router s)) e = 0 \<and> probe_of env (sy_router s) e = None)"
proof -
  have b: "books env s" using books_reach [OF assms] .
  have "i = j" if "i < length (sy_calls s)" "j < length (sy_calls s)" "sy_calls s ! i = Inr f" "sy_calls s ! j = Inr g"
    "fl_lease f = Some l" "fl_lease g = Some l" for i j f g
  proof -
    have "held_lease (live (sy_calls s ! i)) = Some l" "held_lease (live (sy_calls s ! j)) = Some l" using that by (simp_all add: held_lease_def live_def)
    then show ?thesis using b that(1,2) unfolding books_def by blast
  qed
  then show ?thesis using books_leases [OF b] books_probe [OF b] books_all_ended [OF b] by blast
qed

theorem nothing_leaks_witness:
  "(\<exists>i fl. i < length (sy_calls (demo_state demo_start)) \<and> sy_calls (demo_state demo_start) ! i = Inr fl \<and> fl_lease fl = Some 0 \<and> fl_first fl) \<and>
   backlog (fr_prefill (sy_router (demo_state demo_start))) ''b'' = 10"
proof
  have "lease_open (sy_router (demo_state demo_start)) 0" by code_simp
  then show "\<exists>i fl. i < length (sy_calls (demo_state demo_start)) \<and> sy_calls (demo_state demo_start) ! i = Inr fl \<and> fl_lease fl = Some 0 \<and> fl_first fl"
    using nothing_leaks [OF demo_idle demo_runs(1)] by blast
qed code_simp

text \<open>C17. What becomes of a failed attempt. In any run, when the attempt a request waits for fails, the
  request ends with that very error if it was pinned, asked for no fallback, or its consumer already
  has part of a stream. Otherwise it goes on only to an attempt on a route it may bind, holding a
  claim on that route's endpoint, whose window was not already shown to be too small for the prompt,
  and only while fewer than two attempts called the request malformed; or else it ends, with the
  error chosen among all attempts or with the error of a route that cannot be bound.\<close>

theorem failed_attempt_rule:
  assumes "idle_router env R" "steps (system_step env) (system_init R) es = Some s" "i < length (sy_calls s)" "sy_calls s ! i = Inr fl"
    "resume env ticks serves fl (Failed err) (sy_router s) = Some (res, R')"
  shows "if present (rq_pin (fl_request fl)) \<or> \<not> rq_allow_fallback (fl_request fl) \<or> fl_yielded fl
    then \<exists>e rb. res = Inl (Raised e rb) \<and> e\<lparr>re_routing := None\<rparr> = err\<lparr>re_routing := None\<rparr>
    else (case res of
            Inr fl' \<Rightarrow> fl_attempts fl' = attempts_after fl err \<and> \<not> fl_yielded fl' \<and>
              bind_leaf (fl_route fl') (fl_request fl) = Inr (fl_execution fl') \<and>
              (\<exists>c. fl_claim fl' = Some c \<and> dc_endpoint_id c = endpoint_id_for_adapter (fl_route fl')) \<and>
              \<not> window_cannot_fit (fl_route fl') (refused_by (attempts_after fl err)) \<and>
              \<not> stops_after_request_refusals (attempts_after fl err)
          | Inl out \<Rightarrow> (case raise_surfaced_error (attempts_after fl err) (failed_after fl err) of (e, rb) \<Rightarrow> out = Raised e rb) \<or>
              (\<exists>a e. bind_leaf a (fl_request fl) = Inl e \<and> out = RaisedRouter e))"
proof -
  have b: "books env s" using books_reach [OF assms(1,2)] .
  have "after_failure fl err res" using resume_result(3) [OF assms(5) books_call [OF b assms(3,4)]] by simp
  then show ?thesis unfolding after_failure_def flight_ok_def by (auto split: sum.split if_splits)
qed

theorem failed_attempt_rule_witness:
  "\<exists>fl'. sy_calls (demo_state (demo_start @ [demo_failure])) ! 0 = Inr fl' \<and>
     (\<exists>c. fl_claim fl' = Some c \<and> dc_endpoint_id c = endpoint_id_for_adapter (fl_route fl'))"
proof -
  let ?s = "demo_state demo_start" and ?err = "demo_error Other_exn (Some 503)"
  obtain fl where fl: "sy_calls ?s ! 0 = Inr fl" using demo_calls(2) by (cases "sy_calls ?s ! 0") simp_all
  have "system_step demo_env ?s demo_failure = Some (demo_state (demo_start @ [demo_failure]))"
    using demo_runs by (simp add: steps_append split: option.splits)
  then obtain res R' where r: "resume demo_env demo_ticks True fl (Failed ?err) (sy_router ?s) = Some (res, R')"
    "\<lparr>sy_router = R', sy_calls = (sy_calls ?s)[0 := res]\<rparr> = demo_state (demo_start @ [demo_failure])"
    using fl demo_calls(1) by (auto simp: demo_failure_def split: option.splits)
  then have calls: "sy_calls (demo_state (demo_start @ [demo_failure])) = (sy_calls ?s)[0 := res]" by (metis system.select_convs(2))
  have "rq_pin (fl_request (projr (sy_calls ?s ! 0))) = None" "rq_allow_fallback (fl_request (projr (sy_calls ?s ! 0)))"
    "\<not> fl_yielded (projr (sy_calls ?s ! 0))" by code_simp+
  then have free: "\<not> (present (rq_pin (fl_request fl)) \<or> \<not> rq_allow_fallback (fl_request fl) \<or> fl_yielded fl)" by (simp add: fl present_def)
  obtain fl' where fl': "res = Inr fl'" using demo_calls calls by (cases res) simp_all
  have "0 < length (sy_calls ?s)" using demo_calls(1) by simp
  from failed_attempt_rule [OF demo_idle demo_runs(1) this fl r(1)] free fl'
  have "\<exists>c. fl_claim fl' = Some c \<and> dc_endpoint_id c = endpoint_id_for_adapter (fl_route fl')" by simp
  then show ?thesis using calls fl' demo_calls(1) by simp
qed

text \<open>Fallback ends. Whatever the endpoints answer and whatever other requests and administrators do,
  once the primary attempt of a request failed, at most twice as many further attempts and one more
  fail as the model had routes in the range of the request at that moment.\<close>

lemma attempts_bounded:
  assumes "idle_router env R" "steps (system_step env) (system_init R) es = Some s" "i < length (sy_calls s)" "sy_calls s ! i = Inr fl" "\<not> fl_fallback fl"
    "steps (system_step env) s (Answer i ticks serves (Failed err) # fs) = Some s'"
  shows "length (filter (fails i) fs) \<le> 2 * length (fallback_range (sy_router s) (fl_request fl)) + 1"
proof -
  let ?ev = "Answer i ticks serves (Failed err)"
  have b: "books env s" using books_reach [OF assms(1,2)] .
  obtain t where t: "system_step env s ?ev = Some t" "steps (system_step env) t fs = Some s'" using assms(6) by (auto split: option.splits)
  obtain res R' where r: "fail_primary env ticks serves fl err (sy_router s) = (res, R')" "sy_calls t = (sy_calls s)[i := res]"
    using t(1) assms(3-5) by (auto simp: resume_def attempt_failed_def Let_def split: if_splits prod.splits)
  have len: "i < length (sy_calls t)" "sy_calls t ! i = res" using r(2) assms(3) by simp_all
  show ?thesis
  proof (cases res)
    case (Inl out)
    then show ?thesis using ended_stays [OF t(2) len(1)] len(2) by simp
  next
    case (Inr fl')
    then show ?thesis
      using failures_bounded [OF t(2) books_step [OF b t(1)] len(1), of fl'] len(2) fail_primary_within [of env ticks serves fl err "sy_router s" fl' R'] r(1) by simp
  qed
qed

end
