(* ===== verification/Hybrid_Plan.thy ===== *)
theory Hybrid_Plan
  imports Fixed_Router "HOL-Library.Sublist"
begin

text \<open>
  The decision layer above the shared router: \<open>routing/decisions.py\<close>, \<open>routing/policies.py\<close>,
  \<open>routing/dispatch.py\<close>, \<open>routing/route_scope.py\<close>, the execution backends of \<open>routing/backends.py\<close>, the
  plan of \<open>routing/hybrid.py\<close> and the composition of \<open>serving/servers/hybrid_composition.py\<close>. A backend is
  a bounded view of one shared \<open>FixedRouter\<close>, so the router is passed along and every read that
  may change it (a selection, an admission check) returns it.

  A frozen set is a list. A range that may be a callable is a function of the router, constant when the
  range is not live. Whether an endpoint is this deployment's own is a parameter.

  The lemmas: resolving, planning and asking the policy leave the route table alone, and an attempt is
  only started on a route inside the range of its backend and inside what the caller granted.
\<close>

section \<open>Decisions\<close>

datatype routing_target = ProviderTarget string | EndpointTarget string

definition RoutingTarget_init :: "string option \<Rightarrow> string option \<Rightarrow> routing_target option" where
  "RoutingTarget_init provider endpoint_id =
     (if present provider \<and> \<not> present endpoint_id then Some (ProviderTarget (the provider))
      else if present endpoint_id \<and> \<not> present provider then Some (EndpointTarget (the endpoint_id))
      else None)"

fun describe_target :: "routing_target \<Rightarrow> string" where
  "describe_target (EndpointTarget e) = ''endpoint:'' @ e"
| "describe_target (ProviderTarget p) = ''provider:'' @ p"

definition target_endpoint :: "routing_target option \<Rightarrow> string option" where
  "target_endpoint t = (case t of Some (EndpointTarget e) \<Rightarrow> Some e | _ \<Rightarrow> None)"

record routing_decision =
  rd_backend :: string
  rd_target :: "routing_target option"

record fallback_entry =
  fb_backend :: string
  fb_target :: "routing_target option"

text \<open>What a hybrid request may end with before or between its attempts.\<close>

datatype hybrid_error =
    FromRouter router_error
  | TargetValueError
  | HybridRoutingError

section \<open>The scheduling policy\<close>

record fixed_policy =
  fp_local_backend :: string
  fp_cloud_backend :: string
  fp_local_scope :: "fixed_router \<Rightarrow> string list"
  fp_cloud_scope :: "fixed_router \<Rightarrow> string list option"

text \<open>What one consultation reads: the numbers and clocks of the draw, the clocks of the admission checks,
  and the ticks of each resolution of a provider.\<close>

record policy_reads =
  pr_draw :: tick
  pr_clock :: "nat \<Rightarrow> clock"
  pr_resolve :: "nat \<Rightarrow> nat \<Rightarrow> tick"

definition in_declared :: "route_adapter \<Rightarrow> string list \<Rightarrow> bool" where
  "in_declared a declared \<longleftrightarrow> endpoint_id_for_adapter a \<in> set declared \<or> ra_provider a \<in> set declared"

definition is_local :: "route_adapter \<Rightarrow> string list \<Rightarrow> bool" where
  "is_local a loc = (if loc = [] then False else in_declared a loc)"

definition domain_of :: "fixed_policy \<Rightarrow> route_adapter \<Rightarrow> string list \<Rightarrow> string" where
  "domain_of pol a loc = (if is_local a loc then fp_local_backend pol else fp_cloud_backend pol)"

definition domain_serves ::
  "router_env \<Rightarrow> clock \<Rightarrow> fixed_policy \<Rightarrow> string \<Rightarrow> string \<Rightarrow> string list \<Rightarrow> string list option \<Rightarrow> fixed_router \<Rightarrow> bool \<times> fixed_router" where
  "domain_serves env ck pol backend_name model_id loc cloud R =
     (let in_local_domain = (backend_name = fp_local_backend pol);
          declared = (if in_local_domain then Some loc else cloud)
      in if declared = Some [] then (False, R)
         else
           (case eligible_adapters env R ck model_id None None of
              (as, R1) \<Rightarrow>
                (list_ex (\<lambda>(a, w). is_local a loc = in_local_domain \<and>
                    (case declared of None \<Rightarrow> True | Some d \<Rightarrow> in_declared a d)) as, R1)))"

definition default_backend ::
  "router_env \<Rightarrow> clock \<Rightarrow> fixed_policy \<Rightarrow> string \<Rightarrow> string list \<Rightarrow> string list option \<Rightarrow> fixed_router \<Rightarrow> string \<times> fixed_router" where
  "default_backend env ck pol model_id loc cloud R =
     (case domain_serves env ck pol (fp_local_backend pol) model_id loc cloud R of
        (ok, R1) \<Rightarrow> (if ok then fp_local_backend pol else fp_cloud_backend pol, R1))"

definition domain_for_endpoint ::
  "router_env \<Rightarrow> clock \<Rightarrow> fixed_policy \<Rightarrow> string \<Rightarrow> string \<Rightarrow> string list \<Rightarrow> fixed_router \<Rightarrow> string option \<times> fixed_router" where
  "domain_for_endpoint env ck pol model_id endpoint_id loc R =
     (case eligible_adapters env R ck model_id None None of
        (as, R1) \<Rightarrow> (map_option (\<lambda>(a, w). domain_of pol a loc) (find (\<lambda>(a, w). endpoint_id_for_adapter a = endpoint_id) as), R1))"

definition domain_for_pin ::
  "router_env \<Rightarrow> (nat \<Rightarrow> clock) \<Rightarrow> fixed_policy \<Rightarrow> string \<Rightarrow> string \<Rightarrow> string list \<Rightarrow> string list option \<Rightarrow> fixed_router \<Rightarrow>
     string \<times> fixed_router" where
  "domain_for_pin env cks pol model_id provider loc cloud R =
     (case eligible_adapters env R (cks 0) model_id None None of
        (as, R1) \<Rightarrow>
          (case find (\<lambda>(a, w). provider = endpoint_id_for_adapter a \<or> provider = ra_provider a) as of
             Some (a, w) \<Rightarrow> (domain_of pol a loc, R1)
           | None \<Rightarrow> default_backend env (cks 1) pol model_id loc cloud R1))"

definition select_backend ::
  "router_env \<Rightarrow> policy_reads \<Rightarrow> fixed_policy \<Rightarrow> route_request \<Rightarrow> fixed_router \<Rightarrow> (hybrid_error + routing_decision) \<times> fixed_router" where
  "select_backend env rd pol rq R =
     (let loc = fp_local_scope pol R; cloud = fp_cloud_scope pol R in
      if present (rq_pin rq)
      then (case domain_for_pin env (pr_clock rd) pol (rq_model rq) (the (rq_pin rq)) loc cloud R of
              (owner, R1) \<Rightarrow> (Inr \<lparr>rd_backend = owner, rd_target = RoutingTarget_init (rq_pin rq) None\<rparr>, R1))
      else
        (let (owner, R1) = (if present (rq_preferred rq)
                            then domain_for_endpoint env (pr_clock rd 0) pol (rq_model rq) (the (rq_preferred rq)) loc R else (None, R))
         in case owner of
              Some b \<Rightarrow> (Inr \<lparr>rd_backend = b, rd_target = RoutingTarget_init None (rq_preferred rq)\<rparr>, R1)
            | None \<Rightarrow>
                (case select_adapter env R1 (pr_draw rd) (rq\<lparr>rq_scope := None, rq_fingerprint := None\<rparr>) None [] None False of
                   (Inl err, R2) \<Rightarrow> (Inl (FromRouter err), R2)
                 | (Inr None, R2) \<Rightarrow>
                     (case default_backend env (pr_clock rd 1) pol (rq_model rq) loc cloud R2 of
                        (b, R3) \<Rightarrow> (Inr \<lparr>rd_backend = b, rd_target = None\<rparr>, R3))
                 | (Inr (Some a), R2) \<Rightarrow>
                     (case RoutingTarget_init None (Some (endpoint_id_for_adapter a)) of
                        None \<Rightarrow> (Inl TargetValueError, R2)
                      | Some t \<Rightarrow> (Inr \<lparr>rd_backend = domain_of pol a loc, rd_target = Some t\<rparr>, R2)))))"

text \<open>The remaining candidates in the order of the route. \<open>None\<close> is the \<open>ValueError\<close> of an empty endpoint.\<close>

fun fallback_entries ::
  "fixed_policy \<Rightarrow> string list \<Rightarrow> string list option \<Rightarrow> string list \<Rightarrow> string option \<Rightarrow> (route_adapter \<times> real) list \<Rightarrow> fallback_entry list option" where
  "fallback_entries pol loc cloud required primary [] = Some []"
| "fallback_entries pol loc cloud required primary ((a, w) # as) =
     (let e = endpoint_id_for_adapter a; declared = (if is_local a loc then Some loc else cloud)
      in if \<not> adapter_supports_modalities a required then fallback_entries pol loc cloud required primary as
         else if Some e = primary then fallback_entries pol loc cloud required primary as
         else if (case declared of None \<Rightarrow> False | Some d \<Rightarrow> \<not> in_declared a d) then fallback_entries pol loc cloud required primary as
         else (case RoutingTarget_init None (Some e) of
                 None \<Rightarrow> None
               | Some t \<Rightarrow> map_option ((#) \<lparr>fb_backend = domain_of pol a loc, fb_target = Some t\<rparr>) (fallback_entries pol loc cloud required primary as)))"

definition fallback_attempts ::
  "router_env \<Rightarrow> clock \<Rightarrow> fixed_policy \<Rightarrow> route_request \<Rightarrow> routing_decision \<Rightarrow> fixed_router \<Rightarrow>
     (hybrid_error + fallback_entry list) \<times> fixed_router" where
  "fallback_attempts env ck pol rq decision R =
     (let loc = fp_local_scope pol R; cloud = fp_cloud_scope pol R in
      if present (rq_pin rq) then (Inr [], R)
      else
        (case eligible_adapters env R ck (rq_model rq) None None of
           (as, R1) \<Rightarrow>
             (case fallback_entries pol loc cloud (rq_modalities rq) (target_endpoint (rd_target decision)) as of
                None \<Rightarrow> (Inl TargetValueError, R1)
              | Some es \<Rightarrow> (Inr es, R1))))"

definition policy_fallback_backends ::
  "router_env \<Rightarrow> clock \<Rightarrow> fixed_policy \<Rightarrow> route_request \<Rightarrow> routing_decision \<Rightarrow> fixed_router \<Rightarrow> string list \<times> fixed_router" where
  "policy_fallback_backends env ck pol rq decision R =
     (let loc = fp_local_scope pol R; cloud = fp_cloud_scope pol R in
      if present (rq_pin rq) then ([], R)
      else
        (let other = (if rd_backend decision = fp_local_backend pol then fp_cloud_backend pol else fp_local_backend pol)
         in case domain_serves env ck pol other (rq_model rq) loc cloud R of (ok, R1) \<Rightarrow> (if ok then [other] else [], R1)))"

section \<open>Execution backends\<close>

record observation_scope =
  os_endpoints :: "string list option"
  os_providers :: "(string, string) dict"

definition prime :: "observation_scope \<Rightarrow> route_adapter list \<Rightarrow> observation_scope" where
  "prime sc adapters =
     (if os_endpoints sc = None then sc
      else sc\<lparr>os_providers := foldl (\<lambda>d a. dict_set (endpoint_id_for_adapter a) (ra_provider a) d) [] adapters\<rparr>)"

definition ObservationScope_init :: "string list option \<Rightarrow> route_adapter list \<Rightarrow> observation_scope" where
  "ObservationScope_init endpoint_scope adapters = prime \<lparr>os_endpoints = endpoint_scope, os_providers = []\<rparr> adapters"

definition includes_endpoint :: "observation_scope \<Rightarrow> string \<Rightarrow> bool" where
  "includes_endpoint sc e =
     (case os_endpoints sc of
        None \<Rightarrow> True
      | Some es \<Rightarrow> e \<in> set es \<or> (case dict_get (os_providers sc) e of None \<Rightarrow> False | Some p \<Rightarrow> p \<in> set es))"

text \<open>A \<open>LocalBackend\<close>, or a \<open>FixedCloudBackend\<close> when \<open>be_cloud\<close> is set.\<close>

record backend =
  be_name :: string
  be_pool_id :: string
  be_cloud :: bool
  be_scope_spec :: "fixed_router \<Rightarrow> string list option"
  be_observation :: observation_scope
  be_model_scope :: "string list option"
  be_manage_lifecycle :: bool
  be_started :: bool

definition adapters_in_router :: "fixed_router \<Rightarrow> string option \<Rightarrow> route_adapter list" where
  "adapters_in_router R model_id =
     concat (map (\<lambda>(key, canonical, as). map fst as)
       (case model_id of
          None \<Rightarrow> iter_effective_routes R
        | Some m \<Rightarrow> filter (\<lambda>(key, canonical, as). canonical = canonical_id R m) (iter_effective_routes R)))"

definition build_observation_scope :: "(fixed_router \<Rightarrow> string list option) \<Rightarrow> fixed_router \<Rightarrow> observation_scope" where
  "build_observation_scope spec R = ObservationScope_init (spec R) (adapters_in_router R None)"

definition LocalBackend_init :: "(fixed_router \<Rightarrow> string list option) \<Rightarrow> string list option \<Rightarrow> string \<Rightarrow> bool \<Rightarrow> fixed_router \<Rightarrow> backend" where
  "LocalBackend_init spec models name manage R =
     \<lparr>be_name = name, be_pool_id = name, be_cloud = False, be_scope_spec = spec, be_observation = build_observation_scope spec R,
      be_model_scope = models, be_manage_lifecycle = manage, be_started = False\<rparr>"

text \<open>\<open>None\<close> is the \<open>ValueError\<close> of an empty range.\<close>

definition FixedCloudBackend_init :: "(fixed_router \<Rightarrow> string list option) \<Rightarrow> string list option \<Rightarrow> string \<Rightarrow> bool \<Rightarrow> fixed_router \<Rightarrow> backend option" where
  "FixedCloudBackend_init spec models name manage R =
     (case spec R of
        Some (e # es) \<Rightarrow>
          Some \<lparr>be_name = name, be_pool_id = name, be_cloud = True, be_scope_spec = spec, be_observation = build_observation_scope spec R,
                be_model_scope = models, be_manage_lifecycle = manage, be_started = False\<rparr>
      | _ \<Rightarrow> None)"

definition refresh_route_table :: "fixed_router \<Rightarrow> backend \<Rightarrow> backend" where
  "refresh_route_table R be = be\<lparr>be_observation := build_observation_scope (be_scope_spec be) R\<rparr>"

definition serves_model :: "fixed_router \<Rightarrow> backend \<Rightarrow> string \<Rightarrow> bool" where
  "serves_model R be model_id = (case be_model_scope be of None \<Rightarrow> True | Some ms \<Rightarrow> canonical_id R model_id \<in> set ms)"

definition allowed_endpoints :: "fixed_router \<Rightarrow> string list" where
  "allowed_endpoints R = map endpoint_id_for_adapter (adapters_in_router R None)"

definition dispatch_scope :: "fixed_router \<Rightarrow> backend \<Rightarrow> string \<Rightarrow> string list option" where
  "dispatch_scope R be model_id =
     (if be_cloud be
      then if serves_model R be model_id then os_endpoints (be_observation be) else Some []
      else if os_endpoints (be_observation be) = None then None
           else Some (filter (includes_endpoint (be_observation be)) (allowed_endpoints R)))"

definition scope_endpoints :: "fixed_router \<Rightarrow> string list \<Rightarrow> string option \<Rightarrow> string list" where
  "scope_endpoints R scope model_id =
     map endpoint_id_for_adapter (filter (\<lambda>a. adapter_in_endpoint_scope a (Some scope)) (adapters_in_router R model_id))"

definition resolve_target ::
  "router_env \<Rightarrow> (nat \<Rightarrow> tick) \<Rightarrow> backend \<Rightarrow> routing_target \<Rightarrow> route_request \<Rightarrow> fixed_router \<Rightarrow> string option \<times> fixed_router" where
  "resolve_target env ticks be target rq R =
     (if be_cloud be \<and> \<not> serves_model R be (rq_model rq) then (None, R)
      else case target of
             EndpointTarget e \<Rightarrow> (if includes_endpoint (be_observation be) e then Some e else None, R)
           | ProviderTarget p \<Rightarrow>
               (case preferred_endpoint_for_provider env ticks (rq\<lparr>rq_modalities := [], rq_tokens := 0\<rparr>) p R of
                  (Some e, R1) \<Rightarrow> (if includes_endpoint (be_observation be) e then Some e else None, R1)
                | (None, R1) \<Rightarrow> (None, R1)))"

definition resolved_endpoint ::
  "router_env \<Rightarrow> (nat \<Rightarrow> tick) \<Rightarrow> backend \<Rightarrow> routing_target option \<Rightarrow> route_request \<Rightarrow> fixed_router \<Rightarrow> string option \<times> fixed_router" where
  "resolved_endpoint env ticks be target rq R =
     (case target of None \<Rightarrow> (None, R) | Some t \<Rightarrow> resolve_target env ticks be t rq R)"

text \<open>The lifecycle: what the wrapped router's \<open>start\<close> answered, \<open>None\<close> when it has no such method.\<close>

definition backend_start :: "bool option \<Rightarrow> backend \<Rightarrow> bool \<times> backend" where
  "backend_start answer be =
     (if \<not> be_manage_lifecycle be \<or> be_started be then (False, be)
      else case answer of None \<Rightarrow> (False, be) | Some b \<Rightarrow> (b, be\<lparr>be_started := b\<rparr>))"

definition backend_stop :: "backend \<Rightarrow> bool \<times> backend" where
  "backend_stop be = (if \<not> be_started be then (False, be) else (True, be\<lparr>be_started := False\<rparr>))"

section \<open>Dispatch instructions\<close>

text \<open>The binding of an endpoint together with the model and the pool it was resolved for.\<close>

record pool_binding = endpoint_binding +
  pb_model_id :: string
  pb_pool_id :: "string option"

datatype backend_dispatch = ExecuteEndpoint pool_binding | DelegatePool string

definition binding_for_adapter :: "route_adapter \<Rightarrow> string \<Rightarrow> string option \<Rightarrow> router_error + pool_binding" where
  "binding_for_adapter a model_id pool_id =
     (if endpoint_id_for_adapter a = [] \<or> model_id = [] then Inl InvalidBinding
      else Inr \<lparr>eb_endpoint_id = endpoint_id_for_adapter a, eb_adapter = a, pb_model_id = model_id, pb_pool_id = pool_id\<rparr>)"

definition binding_for :: "fixed_router \<Rightarrow> backend \<Rightarrow> string \<Rightarrow> string \<Rightarrow> router_error + pool_binding option" where
  "binding_for R be model_id e =
     (if \<not> serves_model R be model_id then Inl DispatchMismatchError
      else if (case dispatch_scope R be model_id of None \<Rightarrow> False | Some sc \<Rightarrow> e \<notin> set (scope_endpoints R sc (Some model_id))) then Inr None
      else case find (\<lambda>a. endpoint_id_for_adapter a = e) (adapters_in_router R (Some model_id)) of
             None \<Rightarrow> Inr None
           | Some a \<Rightarrow> map_sum id Some (binding_for_adapter a model_id (Some (be_pool_id be))))"

definition backend_pool_id :: "backend \<Rightarrow> string" where
  "backend_pool_id be = (if be_pool_id be \<noteq> [] then be_pool_id be else be_name be)"

definition dispatch_for_attempt :: "string \<Rightarrow> pool_binding option \<Rightarrow> bool \<Rightarrow> router_error + backend_dispatch" where
  "dispatch_for_attempt pool_id binding exact =
     (if exact
      then (case binding of
              None \<Rightarrow> Inl DispatchMismatchError
            | Some b \<Rightarrow> Inr (ExecuteEndpoint (if pb_pool_id b = None then b\<lparr>pb_pool_id := Some pool_id\<rparr> else b)))
      else Inr (DelegatePool pool_id))"

definition check_instruction :: "fixed_router \<Rightarrow> backend \<Rightarrow> backend_dispatch \<Rightarrow> string \<Rightarrow> bool" where
  "check_instruction R be instruction model_id =
     (serves_model R be model_id \<and>
      (case instruction of
         DelegatePool pool \<Rightarrow> pool = be_pool_id be
       | ExecuteEndpoint b \<Rightarrow>
           canonical_id R (pb_model_id b) = canonical_id R model_id \<and>
           (case dispatch_scope R be model_id of
              None \<Rightarrow> True
            | Some sc \<Rightarrow> eb_endpoint_id b \<in> set (scope_endpoints R sc (Some model_id)))))"

text \<open>A request narrowed to the range of the pool that takes it.\<close>

definition scoped_options :: "fixed_router \<Rightarrow> backend \<Rightarrow> pool_binding option \<Rightarrow> route_request \<Rightarrow> router_error + route_request" where
  "scoped_options R be binding rq =
     (if \<not> serves_model R be (rq_model rq) then Inl DispatchMismatchError
      else if (case binding of None \<Rightarrow> False | Some b \<Rightarrow> canonical_id R (pb_model_id b) \<noteq> canonical_id R (rq_model rq)) then Inl DispatchMismatchError
      else case dispatch_scope R be (rq_model rq) of
             None \<Rightarrow> Inr rq
           | Some declared \<Rightarrow>
               (let allowed = scope_endpoints R declared (Some (rq_model rq));
                    effective = (case rq_scope rq of
                                   None \<Rightarrow> allowed
                                 | Some imposed \<Rightarrow> filter (\<lambda>e. e \<in> set allowed) (scope_endpoints R imposed (Some (rq_model rq))))
                in if effective = [] then Inl DispatchMismatchError else Inr (rq\<lparr>rq_scope := Some effective\<rparr>)))"

section \<open>The plan\<close>

record planned =
  pa_backend :: string
  pa_endpoint :: "string option"
  pa_exact :: bool
  pa_domain_fallback :: bool

definition binding_for_attempt :: "fixed_router \<Rightarrow> backend \<Rightarrow> string \<Rightarrow> planned \<Rightarrow> router_error + pool_binding option" where
  "binding_for_attempt R be model_id a =
     (case pa_endpoint a of None \<Rightarrow> Inr None | Some e \<Rightarrow> binding_for R be model_id e)"

definition attempt_scope :: "fixed_router \<Rightarrow> backend \<Rightarrow> string \<Rightarrow> string list option \<Rightarrow> string list option" where
  "attempt_scope R be model_id imposed =
     (case (imposed, dispatch_scope R be model_id) of
        (None, declared) \<Rightarrow> declared
      | (Some im, None) \<Rightarrow> Some im
      | (Some im, Some de) \<Rightarrow> Some (filter (\<lambda>e. e \<in> set (scope_endpoints R de None)) (scope_endpoints R im None)))"

definition attempt_options :: "fixed_router \<Rightarrow> backend \<Rightarrow> planned \<Rightarrow> pool_binding option \<Rightarrow> route_request \<Rightarrow> route_request" where
  "attempt_options R be a binding rq =
     rq\<lparr>rq_preferred := pa_endpoint a, rq_scope := attempt_scope R be (rq_model rq) (rq_scope rq),
        rq_allow_fallback := pa_domain_fallback a, rq_bound := map_option endpoint_binding.truncate binding,
        rq_require_target := pa_exact a\<rparr>"

text \<open>One planned attempt, from its binding to the first wait of the wrapped router. \<open>Inl\<close> is what is
  raised before anything was sent.\<close>

definition start_attempt ::
  "router_env \<Rightarrow> (nat \<Rightarrow> tick) \<Rightarrow> bool \<Rightarrow> backend \<Rightarrow> planned \<Rightarrow> bool \<Rightarrow> legacy_pin \<Rightarrow> route_request \<Rightarrow> fixed_router \<Rightarrow>
     router_error + segment_end" where
  "start_attempt env ticks serves be a stream legacy rq R =
     (case binding_for_attempt R be (rq_model rq) a of
        Inl err \<Rightarrow> Inl err
      | Inr binding \<Rightarrow>
          (case dispatch_for_attempt (backend_pool_id be) binding (pa_exact a) of
             Inl err \<Rightarrow> Inl err
           | Inr instruction \<Rightarrow>
               if \<not> check_instruction R be instruction (rq_model rq) then Inl DispatchMismatchError
               else (case scoped_options R be binding (attempt_options R be a binding rq) of
                       Inl err \<Rightarrow> Inl err
                     | Inr rq1 \<Rightarrow> Inr (start_request env ticks serves stream legacy rq1 R))))"

fun plan_fallbacks ::
  "fixed_router \<Rightarrow> (string, backend) dict \<Rightarrow> string \<Rightarrow> string option \<Rightarrow> (string \<times> routing_target option) list \<Rightarrow> planned list" where
  "plan_fallbacks R backends model_id primary [] = []"
| "plan_fallbacks R backends model_id primary ((name, target) # rest) =
     (case dict_get backends name of
        None \<Rightarrow> plan_fallbacks R backends model_id primary rest
      | Some be \<Rightarrow>
          if \<not> serves_model R be model_id then plan_fallbacks R backends model_id primary rest
          else (case target of
                  None \<Rightarrow> \<lparr>pa_backend = name, pa_endpoint = None, pa_exact = False, pa_domain_fallback = True\<rparr> #
                            plan_fallbacks R backends model_id primary rest
                | Some (ProviderTarget p) \<Rightarrow> plan_fallbacks R backends model_id primary rest
                | Some (EndpointTarget e) \<Rightarrow>
                    if Some e = primary \<or> \<not> includes_endpoint (be_observation be) e then plan_fallbacks R backends model_id primary rest
                    else \<lparr>pa_backend = name, pa_endpoint = Some e, pa_exact = True, pa_domain_fallback = False\<rparr> #
                         plan_fallbacks R backends model_id primary rest))"

text \<open>The cross-backend order of a policy that only classifies domains.\<close>

definition fallback_backends :: "(string, backend) dict \<Rightarrow> routing_decision \<Rightarrow> string list \<Rightarrow> string list" where
  "fallback_backends backends decision plan = filter (\<lambda>b. dict_get backends b \<noteq> None \<and> b \<noteq> rd_backend decision) plan"

definition fallback_order_of :: "fixed_router \<Rightarrow> (string, backend) dict \<Rightarrow> string \<Rightarrow> routing_decision \<Rightarrow> string list \<Rightarrow> string list" where
  "fallback_order_of R backends model_id decision plan =
     filter (\<lambda>b. b \<noteq> rd_backend decision \<and> (case dict_get backends b of None \<Rightarrow> False | Some be \<Rightarrow> serves_model R be model_id))
       (fallback_backends backends decision plan)"

text \<open>\<open>per_endpoint\<close>: whether the policy names the endpoint of each attempt, which \<open>FixedPolicy\<close> does.\<close>

definition requested_fallbacks ::
  "router_env \<Rightarrow> clock \<Rightarrow> bool \<Rightarrow> fixed_policy \<Rightarrow> (string, backend) dict \<Rightarrow> route_request \<Rightarrow> routing_decision \<Rightarrow> fixed_router \<Rightarrow>
     (hybrid_error + (string \<times> routing_target option) list) \<times> fixed_router" where
  "requested_fallbacks env ck per_endpoint pol backends rq decision R =
     (if per_endpoint
      then (case fallback_attempts env ck pol rq decision R of
              (Inl err, R1) \<Rightarrow> (Inl err, R1)
            | (Inr es, R1) \<Rightarrow> (Inr (map (\<lambda>x. (fb_backend x, fb_target x)) (filter (\<lambda>x. dict_get backends (fb_backend x) \<noteq> None) es)), R1))
      else (case policy_fallback_backends env ck pol rq decision R of
              (bs, R1) \<Rightarrow> (Inr (map (\<lambda>b. (b, None)) (fallback_order_of R1 backends (rq_model rq) decision bs)), R1)))"

definition attempt_plan ::
  "router_env \<Rightarrow> policy_reads \<Rightarrow> bool \<Rightarrow> fixed_policy \<Rightarrow> (string, backend) dict \<Rightarrow> backend \<Rightarrow> route_request \<Rightarrow> routing_decision \<Rightarrow>
     fixed_router \<Rightarrow> (hybrid_error + planned list) \<times> fixed_router" where
  "attempt_plan env rd per_endpoint pol backends be rq decision R =
     (let (primary, R1) = resolved_endpoint env (pr_resolve rd 0) be (rd_target decision) rq R
      in case requested_fallbacks env (pr_clock rd 2) per_endpoint pol backends rq decision R1 of
           (Inl err, R2) \<Rightarrow> (Inl err, R2)
         | (Inr fallbacks, R2) \<Rightarrow>
             (Inr (\<lparr>pa_backend = rd_backend decision, pa_endpoint = primary, pa_exact = False, pa_domain_fallback = \<not> per_endpoint\<rparr> #
                   plan_fallbacks R2 backends (rq_model rq) primary fallbacks), R2))"

section \<open>The composition\<close>

definition local_endpoint_scope :: "(route_adapter \<Rightarrow> string \<Rightarrow> bool) \<Rightarrow> string \<Rightarrow> fixed_router \<Rightarrow> string list" where
  "local_endpoint_scope owns model_id R =
     (case dict_get (fr_routes R) model_id of
        None \<Rightarrow> []
      | Some route \<Rightarrow>
          map (\<lambda>(a, w). the (ra_endpoint_id a))
            (filter (\<lambda>(a, w). present (ra_endpoint_id a) \<and> owns a (the (ra_endpoint_id a))) (rc_adapters route)))"

definition registered_endpoints :: "string \<Rightarrow> fixed_router \<Rightarrow> string list" where
  "registered_endpoints model_id R =
     (case dict_get (fr_routes R) model_id of
        None \<Rightarrow> []
      | Some route \<Rightarrow> map (\<lambda>(a, w). the (ra_endpoint_id a)) (filter (\<lambda>(a, w). present (ra_endpoint_id a)) (rc_adapters route)))"

definition cloud_endpoint_scope :: "(route_adapter \<Rightarrow> string \<Rightarrow> bool) \<Rightarrow> string \<Rightarrow> fixed_router \<Rightarrow> string list" where
  "cloud_endpoint_scope owns model_id R =
     filter (\<lambda>e. e \<notin> set (local_endpoint_scope owns model_id R)) (registered_endpoints model_id R)"

text \<open>\<open>_owns_local\<close>: a declared range decides by membership, otherwise the resolver answers.\<close>

definition owns_local :: "string list option \<Rightarrow> (route_adapter \<Rightarrow> string \<Rightarrow> bool) \<Rightarrow> route_adapter \<Rightarrow> string \<Rightarrow> bool" where
  "owns_local declared ownership a e =
     (case declared of None \<Rightarrow> ownership a e | Some d \<Rightarrow> e \<in> set d \<or> ra_provider a \<in> set d)"

definition build_composition ::
  "bool \<Rightarrow> string list option \<Rightarrow> (route_adapter \<Rightarrow> string \<Rightarrow> bool) \<Rightarrow> string list option \<Rightarrow> string \<Rightarrow> fixed_router \<Rightarrow>
     (fixed_policy \<times> backend \<times> backend) option" where
  "build_composition enabled declared ownership cloud_scope model_id R =
     (let owns = owns_local declared ownership; loc = local_endpoint_scope owns model_id;
          cloud = (\<lambda>R. case cloud_scope of Some c \<Rightarrow> c | None \<Rightarrow> cloud_endpoint_scope owns model_id R)
      in if \<not> enabled \<or> loc R = [] then None
         else (case FixedCloudBackend_init (Some \<circ> cloud) (Some [model_id]) ''cloud'' False R of
                 None \<Rightarrow> None
               | Some cl \<Rightarrow>
                   Some (\<lparr>fp_local_backend = ''local'', fp_cloud_backend = ''cloud'', fp_local_scope = loc, fp_cloud_scope = Some \<circ> cloud\<rparr>,
                         LocalBackend_init (Some \<circ> loc) (Some [model_id]) ''local'' False R, cl)))"

section \<open>What planning keeps\<close>

lemma eligible_same:
  assumes "eligible_adapters env R ck model_id scope size_prompt = (as, R')"
  shows "same_tables env R R'"
proof -
  have "R' = R \<or> (\<exists>routes. R' = R\<lparr>fr_registry := snd (admit_routes (en_breaker env) ck [] (fr_registry R) routes)\<rparr>)"
    using assms by (auto simp: eligible_adapters_def split: option.splits if_splits prod.splits) (metis snd_conv)+
  then show ?thesis by (auto simp: admit_routes_at intro!: same_tablesI(1))
qed

lemma first_preferred_same:
  "first_preferred env ticks rq k es R = (res, R') \<Longrightarrow> same_tables env R R'"
proof (induction es arbitrary: k R)
  case (Cons e es)
  obtain sel R1 where s: "select_adapter env R (ticks k) rq None [] (Some e) False = (sel, R1)" by fastforce
  have "same_tables env R R1" by (rule select_adapter_sound(1) [OF not_present_None s])
  then show ?case using Cons s by (auto split: sum.splits option.splits if_splits intro: same_tables_trans)
qed simp

lemma resolve_same: "resolve_target env ticks be t rq R = (res, R') \<Longrightarrow> same_tables env R R'"
  by (auto simp: resolve_target_def preferred_endpoint_for_provider_def dest: first_preferred_same
      split: if_splits routing_target.splits prod.splits option.splits)

lemma resolved_same: "resolved_endpoint env ticks be t rq R = (res, R') \<Longrightarrow> same_tables env R R'"
  by (auto simp: resolved_endpoint_def dest: resolve_same split: option.splits)

lemma serves_same: "domain_serves env ck pol b m loc cloud R = (res, R') \<Longrightarrow> same_tables env R R'"
  by (auto simp: domain_serves_def Let_def dest: eligible_same split: if_splits prod.splits)

lemma domain_same:
  "default_backend env ck pol m loc cloud R = (b, R') \<Longrightarrow> same_tables env R R'"
  "domain_for_endpoint env ck pol m e loc R = (be, R') \<Longrightarrow> same_tables env R R'"
  "domain_for_pin env cks pol m p loc cloud R = (b, R') \<Longrightarrow> same_tables env R R'"
proof -
  show d: "default_backend env ck pol m loc cloud R = (b, R') \<Longrightarrow> same_tables env R R'" for ck b R
    by (auto simp: default_backend_def dest: serves_same split: prod.splits)
  show "domain_for_endpoint env ck pol m e loc R = (be, R') \<Longrightarrow> same_tables env R R'"
    by (auto simp: domain_for_endpoint_def dest: eligible_same split: prod.splits)
  show "domain_for_pin env cks pol m p loc cloud R = (b, R') \<Longrightarrow> same_tables env R R'"
    by (auto simp: domain_for_pin_def dest: eligible_same d intro: same_tables_trans split: prod.splits option.splits)
qed

lemma select_backend_same:
  assumes "select_backend env rd pol rq R = (res, R')"
  shows "same_tables env R R'"
proof (cases "present (rq_pin rq)")
  case True
  then show ?thesis using assms by (auto simp: select_backend_def Let_def dest: domain_same(3) split: prod.splits)
next
  case False
  obtain owner R1 where o': "(if present (rq_preferred rq)
      then domain_for_endpoint env (pr_clock rd 0) pol (rq_model rq) (the (rq_preferred rq)) (fp_local_scope pol R) R else (None, R)) = (owner, R1)" by fastforce
  then have R1: "same_tables env R R1" by (auto dest: domain_same(2) split: if_splits)
  let ?rq = "rq\<lparr>rq_scope := None, rq_fingerprint := None\<rparr>"
  obtain sel R2 where s: "select_adapter env R1 (pr_draw rd) ?rq None [] None False = (sel, R2)" by fastforce
  have R2: "same_tables env R R2" by (rule same_tables_trans [OF R1 select_adapter_sound(1) [OF not_present_None s]])
  have "R' = R1 \<or> R' = R2 \<or> (\<exists>b. default_backend env (pr_clock rd 1) pol (rq_model rq) (fp_local_scope pol R) (fp_cloud_scope pol R) R2 = (b, R'))"
    using assms False unfolding select_backend_def Let_def o' if_not_P [OF False] case_prod_conv s
    by (auto split: option.splits sum.splits prod.splits)
  then show ?thesis using R1 R2 domain_same(1) same_tables_trans by blast
qed

lemma fallbacks_same:
  assumes "requested_fallbacks env ck pe pol bs rq d R = (res, R')"
  shows "same_tables env R R'"
proof (cases pe)
  case True
  obtain x R1 where f: "fallback_attempts env ck pol rq d R = (x, R1)" by fastforce
  then have "same_tables env R R1" by (auto simp: fallback_attempts_def Let_def dest: eligible_same split: if_splits prod.splits option.splits)
  then show ?thesis using assms True f by (auto simp: requested_fallbacks_def split: sum.splits)
next
  case False
  obtain x R1 where f: "policy_fallback_backends env ck pol rq d R = (x, R1)" by fastforce
  then have "same_tables env R R1" by (auto simp: policy_fallback_backends_def Let_def dest: serves_same split: if_splits prod.splits)
  then show ?thesis using assms False f by (auto simp: requested_fallbacks_def)
qed

lemma attempt_plan_same:
  assumes "attempt_plan env rd pe pol bs be rq d R = (res, R')"
  shows "same_tables env R R'"
proof -
  obtain primary R1 where p: "resolved_endpoint env (pr_resolve rd 0) be (rd_target d) rq R = (primary, R1)" by fastforce
  obtain fs R2 where f: "requested_fallbacks env (pr_clock rd 2) pe pol bs rq d R1 = (fs, R2)" by fastforce
  have "R' = R2" using assms p f by (auto simp: attempt_plan_def split: sum.splits)
  then show ?thesis using same_tables_trans [OF resolved_same [OF p] fallbacks_same [OF f]] by simp
qed

text \<open>The entries after the first name one endpoint each, in the order the policy gave.\<close>

lemma fallback_entries_endpoints:
  "fallback_entries pol loc cloud req primary as = Some es \<Longrightarrow>
     (\<forall>x \<in> set es. \<exists>e. fb_target x = Some (EndpointTarget e) \<and> e \<noteq> []) \<and>
     subseq (map (\<lambda>x. the (target_endpoint (fb_target x))) es) (map (endpoint_id_for_adapter \<circ> fst) as)"
proof (induction as arbitrary: es)
  case (Cons x as)
  obtain a w where x: "x = (a, w)" by fastforce
  show ?case using Cons by (auto simp: x Let_def RoutingTarget_init_def present_def target_endpoint_def split: if_splits option.splits)
qed simp

lemma plan_fallbacks_exact:
  assumes "\<forall>(b, t) \<in> set fs. \<exists>e. t = Some (EndpointTarget e)"
  shows "(\<forall>a \<in> set (plan_fallbacks R bs m primary fs). pa_exact a \<and> \<not> pa_domain_fallback a \<and> pa_endpoint a \<noteq> None) \<and>
    subseq (map (the \<circ> pa_endpoint) (plan_fallbacks R bs m primary fs)) (map (the \<circ> target_endpoint \<circ> snd) fs)"
  using assms
proof (induction fs)
  case (Cons x fs)
  obtain b t where x: "x = (b, t)" by fastforce
  obtain e where t: "t = Some (EndpointTarget e)" using Cons.prems by (auto simp: x)
  show ?case using Cons by (auto simp: x t target_endpoint_def split: option.splits)
qed simp

lemma attempt_plan_shape:
  assumes "attempt_plan env rd True pol bs be rq d R = (Inr plan, R')"
  shows "\<exists>a rest. plan = a # rest \<and> \<not> pa_exact a \<and> \<not> pa_domain_fallback a \<and> pa_backend a = rd_backend d \<and>
    (\<forall>x \<in> set rest. pa_exact x \<and> \<not> pa_domain_fallback x \<and> pa_endpoint x \<noteq> None) \<and>
    (\<exists>as S T. same_tables env R S \<and> eligible_adapters env S (pr_clock rd 2) (rq_model rq) None None = (as, T) \<and>
       subseq (map (the \<circ> pa_endpoint) rest) (map (endpoint_id_for_adapter \<circ> fst) as))"
proof -
  obtain primary R1 where p: "resolved_endpoint env (pr_resolve rd 0) be (rd_target d) rq R = (primary, R1)" by fastforce
  obtain fs where f: "requested_fallbacks env (pr_clock rd 2) True pol bs rq d R1 = (Inr fs, R')"
    and plan: "plan = \<lparr>pa_backend = rd_backend d, pa_endpoint = primary, pa_exact = False, pa_domain_fallback = False\<rparr> #
      plan_fallbacks R' bs (rq_model rq) primary fs"
    using assms p by (auto simp: attempt_plan_def split: sum.splits prod.splits)
  obtain es where e: "fallback_attempts env (pr_clock rd 2) pol rq d R1 = (Inr es, R')"
    "fs = map (\<lambda>x. (fb_backend x, fb_target x)) (filter (\<lambda>x. dict_get bs (fb_backend x) \<noteq> None) es)"
    using f by (auto simp: requested_fallbacks_def split: sum.splits prod.splits)
  obtain as T where as: "eligible_adapters env R1 (pr_clock rd 2) (rq_model rq) None None = (as, T)" by fastforce
  have es: "(\<forall>x \<in> set es. \<exists>e. fb_target x = Some (EndpointTarget e)) \<and>
      subseq (map (\<lambda>x. the (target_endpoint (fb_target x))) es) (map (endpoint_id_for_adapter \<circ> fst) as)"
    using e(1) as by (auto simp: fallback_attempts_def Let_def dest: fallback_entries_endpoints split: if_splits option.splits)
  have "subseq (map (the \<circ> target_endpoint \<circ> snd) fs) (map (\<lambda>x. the (target_endpoint (fb_target x))) es)"
    unfolding e(2) map_map by (simp add: comp_def subseq_map)
  then have sub: "subseq (map (the \<circ> target_endpoint \<circ> snd) fs) (map (endpoint_id_for_adapter \<circ> fst) as)"
    using es subseq_order.order_trans by blast
  have "\<forall>(b, t) \<in> set fs. \<exists>e. t = Some (EndpointTarget e)" using es e(2) by auto
  note px = plan_fallbacks_exact [OF this, of R' bs "rq_model rq" primary]
  have order: "subseq (map (the \<circ> pa_endpoint) (plan_fallbacks R' bs (rq_model rq) primary fs)) (map (endpoint_id_for_adapter \<circ> fst) as)"
    using px sub subseq_order.order_trans by blast
  let ?a = "\<lparr>pa_backend = rd_backend d, pa_endpoint = primary, pa_exact = False, pa_domain_fallback = False\<rparr>"
    and ?rest = "plan_fallbacks R' bs (rq_model rq) primary fs"
  have "plan = ?a # ?rest" "\<not> pa_exact ?a" "\<not> pa_domain_fallback ?a" "pa_backend ?a = rd_backend d" using plan by simp_all
  then show ?thesis using px order as resolved_same [OF p] by blast
qed

section \<open>What an attempt starts\<close>

lemma start_flight:
  assumes "start_request env ticks serves stream legacy rq0 R = (res, R')"
  shows "res = Inl out \<Longrightarrow> \<exists>e. out = RaisedRouter e"
    "res = Inr fl \<Longrightarrow> \<exists>pin claim R1. fl_request fl = rq0\<lparr>rq_pin := pin\<rparr> \<and>
       select_and_claim_adapter env ticks (fl_request fl) R = (Inr (Some (fl_route fl, claim)), R1) \<and>
       bind_leaf (fl_route fl) (fl_request fl) = Inr (fl_execution fl) \<and> \<not> fl_fallback fl \<and> fl_stream fl = stream \<and> fl_failed fl = []"
proof -
  have "(\<forall>out. res = Inl out \<longrightarrow> (\<exists>e. out = RaisedRouter e)) \<and> (\<forall>fl. res = Inr fl \<longrightarrow> (\<exists>pin claim R1. fl_request fl = rq0\<lparr>rq_pin := pin\<rparr> \<and>
       select_and_claim_adapter env ticks (fl_request fl) R = (Inr (Some (fl_route fl, claim)), R1) \<and>
       bind_leaf (fl_route fl) (fl_request fl) = Inr (fl_execution fl) \<and> \<not> fl_fallback fl \<and> fl_stream fl = stream \<and> fl_failed fl = []))"
  proof (cases "resolve_pin_provider (rq_pin rq0) legacy")
    case (Inl e)
    then show ?thesis using assms by (auto simp: start_request_def)
  next
    case (Inr pin)
    define rq where "rq = rq0\<lparr>rq_pin := pin\<rparr>"
    obtain sel R1 where s: "select_and_claim_adapter env ticks rq R = (sel, R1)" by fastforce
    show ?thesis
    proof (cases "\<exists>a claim. sel = Inr (Some (a, claim))")
      case False
      then show ?thesis
        using assms unfolding start_request_def Inr sum.case Let_def rq_def [symmetric] s by (auto split: sum.splits option.splits)
    next
      case True
      then obtain a claim where sel: "sel = Inr (Some (a, claim))" by blast
      show ?thesis
      proof (cases "bind_leaf a rq")
        case leaf: (Inl e)
        then show ?thesis
          using assms unfolding start_request_def Inr sum.case Let_def rq_def [symmetric] s sel option.case case_prod_conv by (auto split: prod.splits)
      next
        case leaf: (Inr x)
        then show ?thesis
          using assms unfolding start_request_def Inr sum.case Let_def rq_def [symmetric] s sel option.case case_prod_conv
          by (auto split: prod.splits simp: s sel) (auto simp: rq_def)
      qed
    qed
  qed
  then show "res = Inl out \<Longrightarrow> \<exists>e. out = RaisedRouter e"
    "res = Inr fl \<Longrightarrow> \<exists>pin claim R1. fl_request fl = rq0\<lparr>rq_pin := pin\<rparr> \<and>
       select_and_claim_adapter env ticks (fl_request fl) R = (Inr (Some (fl_route fl, claim)), R1) \<and>
       bind_leaf (fl_route fl) (fl_request fl) = Inr (fl_execution fl) \<and> \<not> fl_fallback fl \<and> fl_stream fl = stream \<and> fl_failed fl = []"
    by blast+
qed

lemma claimed_in_range:
  assumes "select_and_claim_adapter env ticks rq R = (Inr (Some (a, claim)), R')"
  shows "\<exists>w. (a, w) \<in> set (route_range R rq) \<and> 0 < w"
proof (cases "present (rq_pin rq)")
  case True
  then have "select_adapter env R (ticks 0) rq (rq_pin rq) [] None False = (Inr (Some a), R')"
    using assms by (auto simp: select_and_claim_adapter_def split: prod.splits sum.splits)
  from select_pinned(2) [OF this True] show ?thesis .
next
  case False
  have "claimed env ticks rq R a claim R'" using select_and_claim_sound(1) [OF assms False] by (simp add: placed_def)
  from claimed_candidate [OF this] show ?thesis by blast
qed

text \<open>No provider label is the endpoint id of another route.\<close>

definition labels_apart :: "fixed_router \<Rightarrow> string \<Rightarrow> bool" where
  "labels_apart R model_id \<longleftrightarrow>
     list_all (\<lambda>a. list_all (\<lambda>b. ra_provider a = endpoint_id_for_adapter b \<longrightarrow> endpoint_id_for_adapter a = endpoint_id_for_adapter b)
         (adapters_in_router R None))
       ((case dict_get (fr_routes R) model_id of None \<Rightarrow> [] | Some route \<Rightarrow> map fst (get_effective_adapters R model_id route)) @
        adapters_in_router R None)"

lemma adapters_sub: "set (adapters_in_router R m) \<subseteq> set (adapters_in_router R None)"
  by (cases m) (auto simp: adapters_in_router_def)

lemma scope_endpoints_mono: "set (scope_endpoints R sc m) \<subseteq> set (scope_endpoints R sc None)"
  using adapters_sub [of R m] by (auto simp: scope_endpoints_def)

lemma labels_scope:
  assumes "labels_apart R m" "a \<in> set (adapters_in_router R None) \<or> (\<exists>route w. dict_get (fr_routes R) m = Some route \<and> (a, w) \<in> set (get_effective_adapters R m route))"
    "adapter_in_endpoint_scope a (Some es)" "set es \<subseteq> set (scope_endpoints R sc None)"
  shows "endpoint_id_for_adapter a \<in> set es"
proof -
  have "endpoint_id_for_adapter a = ra_provider a" if "ra_provider a \<in> set es"
  proof -
    have "ra_provider a \<in> set (scope_endpoints R sc None)" using that assms(4) by blast
    then obtain b where "b \<in> set (adapters_in_router R None)" "ra_provider a = endpoint_id_for_adapter b" by (auto simp: scope_endpoints_def)
    moreover have "a \<in> set ((case dict_get (fr_routes R) m of None \<Rightarrow> [] | Some route \<Rightarrow> map fst (get_effective_adapters R m route)) @
        adapters_in_router R None)"
      using assms(2) by (auto simp: image_iff split: option.splits) (metis fst_conv option.inject)
    ultimately show ?thesis using assms(1) unfolding labels_apart_def list_all_iff by metis
  qed
  then show ?thesis using assms(3) by (auto simp: adapter_in_endpoint_scope_def)
qed

lemma labels_range:
  assumes "labels_apart R (rq_model rq)" "(a, w) \<in> set (route_range R rq)" "adapter_in_endpoint_scope a (Some es)"
    "set es \<subseteq> set (scope_endpoints R sc None)"
  shows "endpoint_id_for_adapter a \<in> set es"
proof -
  obtain route where "dict_get (fr_routes R) (rq_model rq) = Some route" "(a, w) \<in> set (get_effective_adapters R (rq_model rq) route)"
    using assms(2) by (cases "dict_get (fr_routes R) (rq_model rq)") (auto simp: route_range_def dispatch_range_def split: if_splits)
  then show ?thesis using labels_scope [OF assms(1) _ assms(3,4)] by blast
qed

text \<open>What an attempt that is under way was allowed to run.\<close>

lemma attempt_started:
  assumes "start_attempt env ticks serves be a stream legacy rq R = Inr (Inr fl, R')"
  shows "serves_model R be (rq_model rq)" "fl_stream fl = stream" "\<not> fl_fallback fl" "rq_allow_fallback (fl_request fl) = pa_domain_fallback a"
    "pa_exact a \<Longrightarrow> Some (endpoint_id_for_adapter (fl_route fl)) = pa_endpoint a" "endpoint_id_for_adapter (fl_route fl) \<noteq> []"
    "endpoint_id_for_adapter (fl_execution fl) = endpoint_id_for_adapter (fl_route fl)" "fl_failed fl = []"
    "dispatch_scope R be (rq_model rq) = Some declared \<Longrightarrow> labels_apart R (rq_model rq) \<Longrightarrow>
       endpoint_id_for_adapter (fl_route fl) \<in> set (scope_endpoints R declared (Some (rq_model rq))) \<and>
       (\<forall>grant. rq_scope rq = Some grant \<longrightarrow> endpoint_id_for_adapter (fl_route fl) \<in> set (scope_endpoints R grant None))"
proof -
  obtain binding instruction rq1 where st: "binding_for_attempt R be (rq_model rq) a = Inr binding"
    "dispatch_for_attempt (backend_pool_id be) binding (pa_exact a) = Inr instruction" "check_instruction R be instruction (rq_model rq)"
    "scoped_options R be binding (attempt_options R be a binding rq) = Inr rq1" "start_request env ticks serves stream legacy rq1 R = (Inr fl, R')"
    using assms by (auto simp: start_attempt_def split: sum.splits if_splits)
  let ?rq = "attempt_options R be a binding rq"
  have opt: "rq_model ?rq = rq_model rq" "rq_allow_fallback ?rq = pa_domain_fallback a" "rq_bound ?rq = map_option endpoint_binding.truncate binding"
    "rq_require_target ?rq = pa_exact a" "rq_scope ?rq = attempt_scope R be (rq_model rq) (rq_scope rq)" by (simp_all add: attempt_options_def)
  have rq1: "rq_model rq1 = rq_model rq" "rq_allow_fallback rq1 = pa_domain_fallback a" "rq_bound rq1 = map_option endpoint_binding.truncate binding"
    "rq_require_target rq1 = pa_exact a"
    using st(4) opt by (auto simp: scoped_options_def Let_def split: if_splits option.splits)
  obtain pin claim R1 where fl: "fl_request fl = rq1\<lparr>rq_pin := pin\<rparr>" "select_and_claim_adapter env ticks (fl_request fl) R = (Inr (Some (fl_route fl, claim)), R1)"
    "bind_leaf (fl_route fl) (fl_request fl) = Inr (fl_execution fl)" "\<not> fl_fallback fl" "fl_stream fl = stream" "fl_failed fl = []"
    using start_flight(2) [OF st(5) refl] by blast
  show "serves_model R be (rq_model rq)" using st(3) by (simp add: check_instruction_def)
  show "fl_stream fl = stream" "\<not> fl_fallback fl" "fl_failed fl = []" by (fact fl)+
  show "rq_allow_fallback (fl_request fl) = pa_domain_fallback a" using fl(1) rq1 by simp
  have leaf: "\<exists>x. execution_adapter (fl_route fl) (fl_request fl) = Inr x \<and> endpoint_id_for_adapter x \<noteq> []"
    using fl(3) by (auto simp: bind_leaf_def split: sum.splits if_splits)
  have bound: "eb_endpoint_id b = endpoint_id_for_adapter (eb_adapter b) \<and> Some (eb_endpoint_id b) = pa_endpoint a" if b: "binding = Some b" for b
  proof -
    obtain e where "pa_endpoint a = Some e" "binding_for R be (rq_model rq) e = Inr (Some b)"
      using st(1) b by (auto simp: binding_for_attempt_def split: option.splits)
    moreover from this obtain x where "find (\<lambda>a. endpoint_id_for_adapter a = e) (adapters_in_router R (Some (rq_model rq))) = Some x"
      "map_sum id Some (binding_for_adapter x (rq_model rq) (Some (be_pool_id be))) = Inr (Some b)"
      by (auto simp: binding_for_def split: if_splits option.splits)
    ultimately show ?thesis
      by (cases "binding_for_adapter x (rq_model rq) (Some (be_pool_id be))") (auto simp: binding_for_adapter_def dest!: find_SomeD split: if_splits)
  qed
  have tr: "eb_endpoint_id (endpoint_binding.truncate b) = eb_endpoint_id b" "eb_adapter (endpoint_binding.truncate b) = eb_adapter b" for b :: pool_binding
    by (simp_all add: endpoint_binding.defs)
  have req: "rq_bound (fl_request fl) = map_option endpoint_binding.truncate binding" "rq_require_target (fl_request fl) = pa_exact a"
    using fl(1) rq1 by simp_all
  show "Some (endpoint_id_for_adapter (fl_route fl)) = pa_endpoint a" if ex: "pa_exact a"
  proof -
    obtain b where b: "binding = Some b" using st(2) ex by (auto simp: dispatch_for_attempt_def split: option.splits)
    then have "eb_endpoint_id b = endpoint_id_for_adapter (fl_route fl)"
      using leaf req ex by (auto simp: execution_adapter_def tr split: if_splits)
    then show ?thesis using bound [OF b] by auto
  qed
  show "endpoint_id_for_adapter (fl_route fl) \<noteq> []"
  proof (cases "\<exists>b. binding = Some b \<and> eb_endpoint_id b = endpoint_id_for_adapter (fl_route fl)")
    case True
    then obtain b where b: "binding = Some b" "eb_endpoint_id b = endpoint_id_for_adapter (fl_route fl)" by blast
    then show ?thesis using leaf req bound [OF b(1)] by (auto simp: execution_adapter_def tr)
  next
    case False
    then show ?thesis using leaf req by (auto simp: execution_adapter_def tr split: option.splits if_splits)
  qed
  have "execution_adapter (fl_route fl) (fl_request fl) = Inr (fl_execution fl)"
    using fl(3) by (auto simp: bind_leaf_def split: sum.splits if_splits)
  then show "endpoint_id_for_adapter (fl_execution fl) = endpoint_id_for_adapter (fl_route fl)"
    using req bound by (auto simp: execution_adapter_def tr split: option.splits if_splits)
  assume sc: "dispatch_scope R be (rq_model rq) = Some declared" and apart: "labels_apart R (rq_model rq)"
  obtain w where w: "(fl_route fl, w) \<in> set (route_range R (fl_request fl))" "0 < w" using claimed_in_range [OF fl(2)] by blast
  define allowed where "allowed = scope_endpoints R declared (Some (rq_model rq))"
  define eff where "eff = (case rq_scope ?rq of None \<Rightarrow> allowed
    | Some im \<Rightarrow> filter (\<lambda>e. e \<in> set allowed) (scope_endpoints R im (Some (rq_model rq))))"
  have scope: "rq_scope rq1 = Some eff"
    using st(4) sc opt(1) by (auto simp: scoped_options_def Let_def eff_def allowed_def split: if_splits option.splits)
  have eff: "set eff \<subseteq> set allowed" by (auto simp: eff_def split: option.splits)
  have "adapter_in_endpoint_scope (fl_route fl) (Some eff)" using range_switched(2) [OF w] fl(1) scope by simp
  then have e: "endpoint_id_for_adapter (fl_route fl) \<in> set eff"
    using labels_range [of R "fl_request fl" "fl_route fl" w eff declared] w(1) apart fl(1) rq1(1) eff scope_endpoints_mono [of R declared "Some (rq_model rq)"]
    by (auto simp: allowed_def)
  have "endpoint_id_for_adapter (fl_route fl) \<in> set (scope_endpoints R grant None)" if g: "rq_scope rq = Some grant" for grant
  proof -
    let ?im = "filter (\<lambda>e. e \<in> set (scope_endpoints R declared None)) (scope_endpoints R grant None)"
    have "rq_scope ?rq = Some ?im" using opt(5) g sc by (simp add: attempt_scope_def)
    then obtain x where x: "x \<in> set (adapters_in_router R (Some (rq_model rq)))" "endpoint_id_for_adapter (fl_route fl) = endpoint_id_for_adapter x"
      "adapter_in_endpoint_scope x (Some ?im)"
      using e by (auto simp: eff_def scope_endpoints_def)
    have "endpoint_id_for_adapter x \<in> set ?im"
      using x(1,3) adapters_sub by (intro labels_scope [OF apart, of x ?im grant]) auto
    then show ?thesis using x(2) by simp
  qed
  then show "endpoint_id_for_adapter (fl_route fl) \<in> set (scope_endpoints R declared (Some (rq_model rq))) \<and>
      (\<forall>grant. rq_scope rq = Some grant \<longrightarrow> endpoint_id_for_adapter (fl_route fl) \<in> set (scope_endpoints R grant None))"
    using e eff by (auto simp: allowed_def)
qed

text \<open>The range of a backend right after a refresh.\<close>

lemma refreshed_scope:
  assumes "build_composition enabled declared ownership None m R0 = Some (pol, loc, cloud)"
  shows "os_endpoints (be_observation (refresh_route_table R loc)) = Some (local_endpoint_scope (owns_local declared ownership) m R)"
    "os_endpoints (be_observation (refresh_route_table R cloud)) = Some (cloud_endpoint_scope (owns_local declared ownership) m R)"
    "be_cloud (refresh_route_table R cloud)" "\<not> be_cloud (refresh_route_table R loc)" "be_model_scope (refresh_route_table R cloud) = Some [m]"
  using assms
  by (auto simp: build_composition_def Let_def refresh_route_table_def build_observation_scope_def ObservationScope_init_def prime_def
      LocalBackend_init_def FixedCloudBackend_init_def split: if_splits option.splits list.splits)

lemma primed_providers:
  "dict_get (foldl (\<lambda>d a. dict_set (endpoint_id_for_adapter a) (ra_provider a) d) d0 as) e = Some p \<Longrightarrow>
     dict_get d0 e = Some p \<or> (\<exists>a \<in> set as. endpoint_id_for_adapter a = e \<and> ra_provider a = p)"
proof (induction as arbitrary: d0)
  case (Cons a as)
  from Cons.IH [OF Cons.prems [unfolded foldl_Cons]] show ?case by (auto split: if_splits)
qed simp

section \<open>An example\<close>

text \<open>One model with an endpoint of this deployment and one of a cloud provider.\<close>

definition demo_composition :: "fixed_policy \<times> backend \<times> backend" where
  "demo_composition = the (build_composition True None (\<lambda>a e. e = ''a'') None ''m'' demo_router)"

definition demo_primary :: planned where
  "demo_primary = \<lparr>pa_backend = ''local'', pa_endpoint = Some ''a'', pa_exact = True, pa_domain_fallback = False\<rparr>"

lemma demo_attempt:
  "\<exists>fl R'. start_attempt demo_env demo_ticks True (fst (snd demo_composition)) demo_primary False LegacyUnset
     (demo_request\<lparr>rq_scope := Some [''p'']\<rparr>) demo_router = Inr (Inr fl, R')"
proof -
  let ?st = "start_attempt demo_env demo_ticks True (fst (snd demo_composition)) demo_primary False LegacyUnset (demo_request\<lparr>rq_scope := Some [''p'']\<rparr>) demo_router"
  have "\<not> isl ?st" "\<not> isl (fst (projr ?st))" by code_simp+
  then show ?thesis by (cases ?st; cases "fst (projr ?st)") (auto simp: prod_eq_iff)
qed

section \<open>Properties\<close>

text \<open>C20. A backend stays inside its domain. When an attempt starts on an endpoint, the backend serves the
  model, and the endpoint is one that the declared range of the backend resolves to for this model; if
  the caller granted a range of its own, the endpoint is also inside that grant. Neither range is ever
  widened by the other, provided that no provider label is the endpoint id of another route. An exact
  attempt runs the very endpoint it names, and the wrapped router may fall back only where the plan
  says so.\<close>

theorem attempt_stays_in_domain:
  assumes "start_attempt env ticks serves be a stream legacy rq R = Inr (Inr fl, R')"
    "dispatch_scope R be (rq_model rq) = Some declared" "labels_apart R (rq_model rq)"
  shows "serves_model R be (rq_model rq) \<and>
    endpoint_id_for_adapter (fl_route fl) \<in> set (scope_endpoints R declared (Some (rq_model rq))) \<and>
    (case rq_scope rq of None \<Rightarrow> True | Some grant \<Rightarrow> endpoint_id_for_adapter (fl_route fl) \<in> set (scope_endpoints R grant None)) \<and>
    (pa_exact a \<longrightarrow> Some (endpoint_id_for_adapter (fl_route fl)) = pa_endpoint a) \<and>
    rq_allow_fallback (fl_request fl) = pa_domain_fallback a"
  using attempt_started(1,4,5) [OF assms(1)] attempt_started(9) [OF assms] by (auto split: option.split)

theorem attempt_stays_in_domain_witness:
  "\<exists>fl R'. start_attempt demo_env demo_ticks True (fst (snd demo_composition)) demo_primary False LegacyUnset
     (demo_request\<lparr>rq_scope := Some [''p'']\<rparr>) demo_router = Inr (Inr fl, R') \<and> endpoint_id_for_adapter (fl_route fl) = ''a''"
proof -
  let ?be = "fst (snd demo_composition)" and ?rq = "demo_request\<lparr>rq_scope := Some [''p'']\<rparr>"
  obtain fl R' where st: "start_attempt demo_env demo_ticks True ?be demo_primary False LegacyUnset ?rq demo_router = Inr (Inr fl, R')"
    using demo_attempt by blast
  have "dispatch_scope demo_router ?be (rq_model ?rq) = Some [''a'']" "labels_apart demo_router (rq_model ?rq)" by code_simp+
  from attempt_stays_in_domain [OF st this] have "endpoint_id_for_adapter (fl_route fl) = ''a''" by (simp add: demo_primary_def)
  with st show ?thesis by blast
qed



end
