(* ===== verification/Hybrid_Router.thy ===== *)
theory Hybrid_Router
  imports Hybrid_Plan
begin

text \<open>
  \<open>routing/hybrid.py\<close> with \<open>routing/hybrid_attempt_history.py\<close> and \<open>routing/hybrid_stream_frames.py\<close>: one
  request surface over the backends. The router asks the policy, plans the attempts, dispatches them one
  after the other through the segments of the shared router, and keeps a bounded record of which
  backend ran which endpoint for the feedback.

  A chunk of a stream is a frame: what the layer reads of its text and of its parsed payload. The
  messages of errors are left out. Requests interleave with each other, with changes of the tables,
  with refreshes of the backends and with feedback; the log keeps what was dispatched and what was
  forwarded to the client, with the number of the request.
\<close>

section \<open>Frames and metadata\<close>

record hybrid_block = routing_block +
  hb_backend :: "string option"
  hb_preferred_endpoint_id :: "string option"
  hb_preferred_target :: "string option"
  hb_preference_in_range :: "bool option"

definition as_hybrid :: "routing_block \<Rightarrow> hybrid_block" where
  "as_hybrid rb = routing_block.extend rb
     (hybrid_block.fields None None None None)"

datatype routing_value = NotABlock | Block hybrid_block

text \<open>A parsed payload: the value under \<open>_routing\<close>, whether there are choices, whether there is usage.\<close>

datatype frame_payload = NotObject | Object "routing_value option" bool bool

text \<open>A text that starts with \<open>data: \<close>, spells the routing key, is the end marker, and what it parses to.\<close>

datatype frame =
    Text bool bool bool "frame_payload option"
  | DictChunk frame_payload
  | OtherChunk

fun carries_routing :: "frame \<Rightarrow> bool" where
  "carries_routing (Text data spells done payload) = spells"
| "carries_routing _ = True"

fun is_client_visible :: "frame \<Rightarrow> bool" where
  "is_client_visible (Text data spells done payload) =
     (if \<not> data \<or> \<not> carries_routing (Text data spells done payload) \<or> done then True
      else case payload of
             Some (Object (Some r) choices usage) \<Rightarrow> choices \<or> usage
           | _ \<Rightarrow> True)"
| "is_client_visible _ = True"

fun tag_backend_chunk :: "frame \<Rightarrow> string \<Rightarrow> frame" where
  "tag_backend_chunk (Text data spells done payload) backend_name =
     (if \<not> data \<or> \<not> carries_routing (Text data spells done payload) \<or> done then Text data spells done payload
      else case payload of
             Some (Object (Some (Block b)) choices usage) \<Rightarrow>
               Text data spells done (Some (Object (Some (Block (b\<lparr>hb_backend := setdefault (hb_backend b) backend_name\<rparr>))) choices usage))
           | _ \<Rightarrow> Text data spells done payload)"
| "tag_backend_chunk f backend_name = f"

text \<open>The routing metadata a frame carries for the dispatch record.\<close>

fun frame_routing :: "frame \<Rightarrow> routing_block option" where
  "frame_routing (DictChunk (Object (Some (Block b)) choices usage)) = Some (routing_block.truncate b)"
| "frame_routing (Text True True done (Some (Object (Some (Block b)) choices usage))) = Some (routing_block.truncate b)"
| "frame_routing _ = None"

text \<open>The frame every stream of the shared router starts with (\<open>routing_chunk\<close> of \<open>routing/telemetry.py\<close>).\<close>

definition routing_frame :: "flight \<Rightarrow> frame" where
  "routing_frame fl =
     Text True True False (Some (Object (Some (Block (as_hybrid
       (let earlier = offload_marker (fl_attempts fl) in
        \<lparr>rb_provider = Some (ra_provider (fl_execution fl)), rb_endpoint_id = ra_endpoint_id (fl_execution fl),
         rb_fallback = (if fl_fallback fl then Some True else None),
         rb_failed_attempts = (if fl_failed fl = [] then None else Some (fl_failed fl)),
         rb_offload = (case fl_offload_reason fl of Some r \<Rightarrow> Some r | None \<Rightarrow> map_option fst earlier),
         rb_offload_endpoint_id = map_option snd earlier\<rparr>)))) False False))"

text \<open>Why an attempt failed: an error of the upstream with the metadata it carries, an error of the shared
  router that is neither a refusal nor a mismatch, or a stream without a chunk.\<close>

datatype attempt_failure = Upstream route_error routing_block | LocalFailure router_error | NoOutput

fun failure_routing :: "attempt_failure \<Rightarrow> routing_block option" where
  "failure_routing (Upstream e rb) = Some rb"
| "failure_routing _ = None"

definition plain_error :: route_error where
  "plain_error = \<lparr>re_exn = \<lparr>ex_class = Other_exn, ex_status = None, ex_status_code = None, ex_code = None, ex_response = None,
     ex_operator_text = None\<rparr>, re_error_body = None, re_message = [], re_routing = None\<rparr>"

fun failure_error :: "attempt_failure \<Rightarrow> route_error" where
  "failure_error (Upstream e rb) = e"
| "failure_error _ = plain_error"

record attempt_rec =
  hr_endpoint_id :: string
  hr_provider :: "string option"
  hr_status :: "int option"
  hr_backend :: string

definition failed_endpoint :: "attempt_failure \<Rightarrow> string option \<Rightarrow> string option" where
  "failed_endpoint f endpoint_id =
     (case failure_routing f of
        Some rb \<Rightarrow> if present (rb_endpoint_id rb) then rb_endpoint_id rb else endpoint_id
      | None \<Rightarrow> endpoint_id)"

definition attempt_record :: "string \<Rightarrow> string option \<Rightarrow> attempt_failure \<Rightarrow> attempt_rec" where
  "attempt_record backend_name endpoint_id f =
     \<lparr>hr_endpoint_id = (if present (failed_endpoint f endpoint_id) then the (failed_endpoint f endpoint_id) else backend_name),
      hr_provider = (case failure_routing f of Some rb \<Rightarrow> if present (rb_provider rb) then rb_provider rb else None | None \<Rightarrow> None),
      hr_status = http_status_of (re_exn (failure_error f)), hr_backend = backend_name\<rparr>"

definition history :: "attempt_rec list \<Rightarrow> (string \<times> int option) list" where
  "history attempts = map (\<lambda>r. (hr_endpoint_id r, hr_status r)) attempts"

definition merge_attempt_history :: "attempt_rec list \<Rightarrow> hybrid_block \<Rightarrow> hybrid_block" where
  "merge_attempt_history attempts b =
     (if attempts = [] then b
      else b\<lparr>rb_fallback := setdefault (rb_fallback b) True,
             rb_failed_attempts := Some ((case rb_failed_attempts b of None \<Rightarrow> [] | Some xs \<Rightarrow> xs) @ history attempts)\<rparr>)"

definition tag_backend :: "string \<Rightarrow> hybrid_block \<Rightarrow> hybrid_block" where
  "tag_backend backend_name b = b\<lparr>hb_backend := setdefault (hb_backend b) backend_name\<rparr>"

definition tag_preference :: "routing_target option \<Rightarrow> string option \<Rightarrow> hybrid_block \<Rightarrow> hybrid_block" where
  "tag_preference target resolved b =
     (let b1 = (case resolved of None \<Rightarrow> b | Some e \<Rightarrow> b\<lparr>hb_preferred_endpoint_id := setdefault (hb_preferred_endpoint_id b) e\<rparr>)
      in case target of
           None \<Rightarrow> b1
         | Some t \<Rightarrow> b1\<lparr>hb_preferred_target := setdefault (hb_preferred_target b1) (describe_target t),
                       hb_preference_in_range := setdefault (hb_preference_in_range b1) (resolved \<noteq> None)\<rparr>)"

definition attempt_history_chunk :: "attempt_rec list \<Rightarrow> routing_target option \<Rightarrow> string option \<Rightarrow> frame" where
  "attempt_history_chunk attempts target resolved =
     Text True True False (Some (Object (Some (Block (tag_preference target resolved
       (as_hybrid (no_routing\<lparr>rb_fallback := Some True, rb_failed_attempts := Some (history attempts)\<rparr>))))) False False))"

text \<open>The records merged by endpoint into the metadata of the error that is raised.\<close>

fun merge_records :: "string list \<Rightarrow> (string \<times> int option) list \<Rightarrow> (string \<times> int option) list" where
  "merge_records known [] = []"
| "merge_records known ((e, s) # rs) = (if e \<in> set known then merge_records known rs else (e, s) # merge_records (e # known) rs)"

definition attach_attempt_history :: "attempt_rec list \<Rightarrow> routing_block option \<Rightarrow> routing_block option" where
  "attach_attempt_history attempts routing =
     (if attempts = [] then routing
      else map_option (\<lambda>rb. rb\<lparr>rb_failed_attempts :=
             Some (case rb_failed_attempts rb of
                     None \<Rightarrow> history attempts
                   | Some xs \<Rightarrow> xs @ merge_records (map fst xs) (history attempts))\<rparr>) routing)"

section \<open>The router and its feedback\<close>

record feedback_dispatch =
  fd_model_id :: string
  fd_backend :: string
  fd_endpoints :: "(string, string) dict"

record hybrid_router =
  hy_policy :: fixed_policy
  hy_per_endpoint :: bool
  hy_backends :: "(string, backend) dict"
  hy_max_recorded :: nat
  hy_decisions :: "(string, feedback_dispatch) dict"
  hy_started :: "string list"

text \<open>\<open>None\<close> is a \<open>ValueError\<close>: no room for records, a backend on the wrong side, an empty or a doubled name.\<close>

definition HybridRouter_init :: "fixed_policy \<Rightarrow> bool \<Rightarrow> backend \<Rightarrow> backend \<Rightarrow> nat \<Rightarrow> hybrid_router option" where
  "HybridRouter_init pol per_endpoint local_be cloud_be max_recorded =
     (if max_recorded < 1 \<or> be_cloud local_be \<or> \<not> be_cloud cloud_be \<or> be_name local_be = [] \<or> be_name cloud_be = [] \<or>
         be_name local_be = be_name cloud_be then None
      else Some \<lparr>hy_policy = pol, hy_per_endpoint = per_endpoint,
                 hy_backends = [(be_name local_be, local_be), (be_name cloud_be, cloud_be)], hy_max_recorded = max_recorded,
                 hy_decisions = [], hy_started = []\<rparr>)"

definition hybrid_canonical_id :: "hybrid_router \<Rightarrow> fixed_router \<Rightarrow> string \<Rightarrow> string" where
  "hybrid_canonical_id H R model_id =
     (case find (\<lambda>(name, be). canonical_id R model_id \<noteq> model_id) (hy_backends H) of
        Some _ \<Rightarrow> canonical_id R model_id | None \<Rightarrow> model_id)"

definition own_endpoint :: "string \<Rightarrow> string option \<Rightarrow> (string, string) dict \<Rightarrow> (string, string) dict" where
  "own_endpoint backend_name e d = (if present e then dict_set (the e) backend_name d else d)"

definition owned_endpoints :: "string \<Rightarrow> routing_block option \<Rightarrow> string option \<Rightarrow> (string, string) dict \<Rightarrow> (string, string) dict" where
  "owned_endpoints backend_name routing endpoint_id d =
     (case routing of
        None \<Rightarrow> own_endpoint backend_name endpoint_id d
      | Some rb \<Rightarrow>
          foldl (\<lambda>d (e, s). own_endpoint backend_name (Some e) d)
            (own_endpoint backend_name (if present (rb_endpoint_id rb) then rb_endpoint_id rb else endpoint_id) d)
            (case rb_failed_attempts rb of None \<Rightarrow> [] | Some xs \<Rightarrow> xs))"

definition remember_backend_decision ::
  "hybrid_router \<Rightarrow> fixed_router \<Rightarrow> string option \<Rightarrow> string \<Rightarrow> string \<Rightarrow> routing_block option \<Rightarrow> string option \<Rightarrow> hybrid_router" where
  "remember_backend_decision H R request_id backend_name model_id routing endpoint_id =
     (if \<not> present request_id then H
      else
        (let rid = the request_id;
             d = (if dict_get (hy_decisions H) rid = None \<and> hy_max_recorded H \<le> length (hy_decisions H)
                  then tl (hy_decisions H) else hy_decisions H);
             rec = (case dict_get d rid of
                      Some r \<Rightarrow> r
                    | None \<Rightarrow> \<lparr>fd_model_id = hybrid_canonical_id H R model_id, fd_backend = backend_name, fd_endpoints = []\<rparr>)
         in H\<lparr>hy_decisions := dict_set rid
                (rec\<lparr>fd_backend := backend_name, fd_endpoints := owned_endpoints backend_name routing endpoint_id (fd_endpoints rec)\<rparr>) d\<rparr>))"

record observation =
  ob_model_id :: string
  ob_endpoint_id :: string
  ob_request_id :: "string option"
  ob_terminal :: bool

definition owns_observation :: "fixed_router \<Rightarrow> backend \<Rightarrow> observation \<Rightarrow> bool" where
  "owns_observation R be obs =
     (if \<not> serves_model R be (ob_model_id obs) then False else includes_endpoint (be_observation be) (ob_endpoint_id obs))"

definition release_decision_of :: "observation \<Rightarrow> hybrid_router \<Rightarrow> hybrid_router" where
  "release_decision_of obs H =
     (if \<not> ob_terminal obs then H
      else if present (ob_request_id obs) then H\<lparr>hy_decisions := dict_del (the (ob_request_id obs)) (hy_decisions H)\<rparr> else H)"

definition resolve_feedback_backend :: "fixed_router \<Rightarrow> observation \<Rightarrow> hybrid_router \<Rightarrow> string option \<times> hybrid_router" where
  "resolve_feedback_backend R obs H =
     (case (case ob_request_id obs of None \<Rightarrow> None | Some rid \<Rightarrow> dict_get (hy_decisions H) rid) of
        Some rec \<Rightarrow>
          if hybrid_canonical_id H R (ob_model_id obs) \<noteq> fd_model_id rec then (None, H)
          else ((case dict_get (fd_endpoints rec) (ob_endpoint_id obs) of
                   Some b \<Rightarrow> Some b
                 | None \<Rightarrow> if fd_endpoints rec = [] then Some (fd_backend rec) else None), release_decision_of obs H)
      | None \<Rightarrow>
          (case filter (\<lambda>(name, be). owns_observation R be obs) (hy_backends H) of
             [(name, be)] \<Rightarrow> (Some name, release_decision_of obs H)
           | _ \<Rightarrow> (None, H)))"

text \<open>The backend that is handed the observation.\<close>

definition record_observation :: "fixed_router \<Rightarrow> observation \<Rightarrow> hybrid_router \<Rightarrow> string option \<times> hybrid_router" where
  "record_observation R obs H = resolve_feedback_backend R obs H"

definition hybrid_refresh :: "fixed_router \<Rightarrow> hybrid_router \<Rightarrow> hybrid_router" where
  "hybrid_refresh R H = H\<lparr>hy_backends := map (\<lambda>(name, be). (name, refresh_route_table R be)) (hy_backends H)\<rparr>"

text \<open>Starting and stopping, with what the router of each backend answers.\<close>

fun start_backends :: "(string \<Rightarrow> bool option) \<Rightarrow> (string, backend) dict \<Rightarrow> string list \<Rightarrow> (bool \<times> string list) \<times> (string, backend) dict" where
  "start_backends answers [] started = ((False, started), [])"
| "start_backends answers ((name, be) # rest) started =
     (if name \<in> set started
      then (case start_backends answers rest started of (res, bs) \<Rightarrow> (res, (name, be) # bs))
      else
        (case backend_start (answers name) be of
           (ok, be1) \<Rightarrow>
             (case start_backends answers rest (if ok then started @ [name] else started) of
                ((act, st), bs) \<Rightarrow> ((ok \<or> act, st), (name, be1) # bs))))"

definition hybrid_start_all :: "(string \<Rightarrow> bool option) \<Rightarrow> hybrid_router \<Rightarrow> bool \<times> hybrid_router" where
  "hybrid_start_all answers H =
     (case start_backends answers (hy_backends H) (hy_started H) of
        ((act, st), bs) \<Rightarrow> (act, H\<lparr>hy_backends := bs, hy_started := st\<rparr>))"

definition hybrid_stop_all :: "hybrid_router \<Rightarrow> bool \<times> hybrid_router" where
  "hybrid_stop_all H =
     (list_ex (\<lambda>(name, be). name \<in> set (hy_started H) \<and> be_started be) (hy_backends H),
      H\<lparr>hy_backends := map (\<lambda>(name, be). (name, if name \<in> set (hy_started H) then snd (backend_stop be) else be)) (hy_backends H),
        hy_started := []\<rparr>)"

section \<open>One request\<close>

text \<open>The local variables of a request, and of a request that waits in an attempt: \<open>hf_held\<close> are frames the
  shared router holds back until the first token.\<close>

record hybrid_call =
  hc_request :: route_request
  hc_request_id :: "string option"
  hc_stream :: bool
  hc_legacy :: legacy_pin
  hc_target :: "routing_target option"
  hc_preferred :: "string option"
  hc_plan :: "planned list"
  hc_attempts :: "attempt_rec list"
  hc_errors :: "attempt_failure list"
  hc_refusals :: "router_error list"
  hc_dispatched :: "string list"

record hybrid_flight =
  hf_call :: hybrid_call
  hf_attempt :: planned
  hf_rest :: "planned list"
  hf_inner :: flight
  hf_committed :: bool
  hf_held :: "frame list"

datatype hybrid_outcome =
    HServed hybrid_block
  | HStreamed
  | HFailed attempt_failure "routing_block option"
  | HRaised hybrid_error
  | HCancelled

text \<open>What the log says of a request: a backend dispatched an endpoint, an attempt planned for an endpoint
  ended before anything was sent, a frame of an endpoint went to the client.\<close>

datatype log_note = Dispatched string string | Rejected string string | Forwarded string string frame

type_synonym hybrid_segment = "((hybrid_outcome + hybrid_flight) \<times> log_note list) \<times> hybrid_router \<times> fixed_router"

definition refusals_end_plan :: "attempt_rec list \<Rightarrow> attempt_failure list \<Rightarrow> bool" where
  "refusals_end_plan attempts errors =
     request_refusals_end_fallback (zip (map hr_endpoint_id attempts) (map failure_error errors))"

definition raise_after_attempts :: "hybrid_call \<Rightarrow> hybrid_outcome" where
  "raise_after_attempts hc =
     (if hc_errors hc \<noteq> []
      then (let f = hc_errors hc ! select_surfaced_error (map failure_error (hc_errors hc))
            in HFailed f (attach_attempt_history (hc_attempts hc) (failure_routing f)))
      else case hc_refusals hc of
             r # rs \<Rightarrow> HRaised (FromRouter r)
           | [] \<Rightarrow> HRaised HybridRoutingError)"

text \<open>What an attempt that ended leads to: the outcome of the request, or the request with the failure in
  its books. \<open>started\<close>: a stream produced a chunk; \<open>committed\<close>: the client has seen something of it.\<close>

definition refused_attempt :: "router_error \<Rightarrow> bool" where
  "refused_attempt e = (case e of TargetUnavailableError \<Rightarrow> True | AllCircuitsOpenError _ \<Rightarrow> True | _ \<Rightarrow> False)"

definition failed_attempt_over ::
  "hybrid_call \<Rightarrow> planned \<Rightarrow> bool \<Rightarrow> attempt_failure \<Rightarrow> fixed_router \<Rightarrow> hybrid_router \<Rightarrow> (hybrid_outcome + hybrid_call) \<times> hybrid_router" where
  "failed_attempt_over hc a committed f R H =
     (let H1 = remember_backend_decision H R (hc_request_id hc) (pa_backend a) (rq_model (hc_request hc)) (failure_routing f) (pa_endpoint a);
          hc1 = hc\<lparr>hc_attempts := hc_attempts hc @ [attempt_record (pa_backend a) (pa_endpoint a) f], hc_errors := hc_errors hc @ [f],
                   hc_dispatched := (case failed_endpoint f (pa_endpoint a) of None \<Rightarrow> hc_dispatched hc | Some e \<Rightarrow> hc_dispatched hc @ [e])\<rparr>
      in if committed then (Inl (HFailed f (failure_routing f)), H1)
         else if refusals_end_plan (hc_attempts hc1) (hc_errors hc1) then (Inl (raise_after_attempts hc1), H1)
         else (Inr hc1, H1))"

definition attempt_over ::
  "hybrid_call \<Rightarrow> planned \<Rightarrow> bool \<Rightarrow> bool \<Rightarrow> outcome \<Rightarrow> fixed_router \<Rightarrow> hybrid_router \<Rightarrow> (hybrid_outcome + hybrid_call) \<times> hybrid_router" where
  "attempt_over hc a started committed out R H =
     (case out of
        Served rb \<Rightarrow>
          (Inl (HServed (tag_preference (hc_target hc) (hc_preferred hc) (tag_backend (pa_backend a)
                  (merge_attempt_history (hc_attempts hc) (as_hybrid rb))))),
           remember_backend_decision H R (hc_request_id hc) (pa_backend a) (rq_model (hc_request hc)) (Some rb) (pa_endpoint a))
      | Streamed \<Rightarrow>
          if started then (Inl HStreamed, H)
          else (Inr (hc\<lparr>hc_attempts := hc_attempts hc @ [attempt_record (pa_backend a) (pa_endpoint a) NoOutput],
                         hc_errors := hc_errors hc @ [NoOutput]\<rparr>), H)
      | RaisedRouter e \<Rightarrow>
          if refused_attempt e
          then if committed then (Inl (HRaised (FromRouter e)), H) else (Inr (hc\<lparr>hc_refusals := hc_refusals hc @ [e]\<rparr>), H)
          else if e = DispatchMismatchError then (Inl (HRaised (FromRouter e)), H)
          else failed_attempt_over hc a committed (LocalFailure e) R H
      | Raised e rb \<Rightarrow> failed_attempt_over hc a committed (Upstream e rb) R H
      | Cancelled \<Rightarrow> (Inl HCancelled, H))"

definition remember_stream_dispatch :: "hybrid_router \<Rightarrow> fixed_router \<Rightarrow> hybrid_call \<Rightarrow> planned \<Rightarrow> frame \<Rightarrow> hybrid_router" where
  "remember_stream_dispatch H R hc a f =
     remember_backend_decision H R (hc_request_id hc) (pa_backend a) (rq_model (hc_request hc)) (frame_routing f) None"

text \<open>Frames on their way to the client.\<close>

fun forward ::
  "fixed_router \<Rightarrow> hybrid_call \<Rightarrow> planned \<Rightarrow> string \<Rightarrow> bool \<Rightarrow> frame list \<Rightarrow> hybrid_router \<Rightarrow> (bool \<times> log_note list) \<times> hybrid_router" where
  "forward R hc a e committed [] H = ((committed, []), H)"
| "forward R hc a e committed (f # fs) H =
     (let H1 = (if \<not> committed \<or> carries_routing f then remember_stream_dispatch H R hc a f else H)
      in case forward R hc a e (committed \<or> is_client_visible f) fs H1 of
           ((c, ns), H2) \<Rightarrow> ((c, Forwarded (pa_backend a) e (tag_backend_chunk f (pa_backend a)) # ns), H2))"

text \<open>An attempt that is under way.\<close>

definition under_way ::
  "hybrid_call \<Rightarrow> planned \<Rightarrow> planned list \<Rightarrow> flight \<Rightarrow> hybrid_router \<Rightarrow> fixed_router \<Rightarrow> hybrid_segment" where
  "under_way hc a rest fl H R =
     (let e = endpoint_id_for_adapter (fl_route fl) in
      if \<not> hc_stream hc
      then ((Inr \<lparr>hf_call = hc, hf_attempt = a, hf_rest = rest, hf_inner = fl, hf_committed = False, hf_held = []\<rparr>, [Dispatched (pa_backend a) e]), H, R)
      else (case forward R hc a e False [routing_frame fl] H of
              ((c, ns), H1) \<Rightarrow>
                ((Inr \<lparr>hf_call = hc, hf_attempt = a, hf_rest = rest, hf_inner = fl, hf_committed = c, hf_held = []\<rparr>,
                  Dispatched (pa_backend a) e #
                  (if hc_attempts hc = [] then []
                   else [Forwarded (pa_backend a) e (attempt_history_chunk (hc_attempts hc) (hc_target hc) (hc_preferred hc))]) @ ns), H1, R)))"

text \<open>The attempts that are left. The \<open>k\<close>-th one that starts reads the \<open>k\<close>-th ticks.\<close>

fun hybrid_walk ::
  "router_env \<Rightarrow> (nat \<Rightarrow> nat \<Rightarrow> tick) \<Rightarrow> (nat \<Rightarrow> bool) \<Rightarrow> nat \<Rightarrow> hybrid_call \<Rightarrow> planned list \<Rightarrow> hybrid_router \<Rightarrow> fixed_router \<Rightarrow> hybrid_segment" where
  "hybrid_walk env ticks serves k hc [] H R = ((Inl (raise_after_attempts hc), []), H, R)"
| "hybrid_walk env ticks serves k hc (a # rest) H R =
     (if (case pa_endpoint a of None \<Rightarrow> False | Some e \<Rightarrow> e \<in> set (hc_dispatched hc))
      then hybrid_walk env ticks serves (Suc k) hc rest H R
      else case dict_get (hy_backends H) (pa_backend a) of
             None \<Rightarrow> ((Inl (HRaised HybridRoutingError), []), H, R)
           | Some be \<Rightarrow>
               (case start_attempt env (ticks k) (serves k) be a (hc_stream hc) (hc_legacy hc) (hc_request hc) R of
                  Inl err \<Rightarrow> ((Inl (HRaised (FromRouter err)), []), H, R)
                | Inr (Inr fl, R1) \<Rightarrow> under_way hc a rest fl H R1
                | Inr (Inl out, R1) \<Rightarrow>
                    (let rejected = (case pa_endpoint a of None \<Rightarrow> [] | Some e \<Rightarrow> [Rejected (pa_backend a) e])
                     in case attempt_over hc a False False out R1 H of
                          (Inl res, H1) \<Rightarrow> ((Inl res, rejected), H1, R1)
                        | (Inr hc1, H1) \<Rightarrow>
                            (case hybrid_walk env ticks serves (Suc k) hc1 rest H1 R1 of
                               ((res, ns), H2, R2) \<Rightarrow> ((res, rejected @ ns), H2, R2)))))"

definition hybrid_start ::
  "router_env \<Rightarrow> policy_reads \<Rightarrow> (nat \<Rightarrow> nat \<Rightarrow> tick) \<Rightarrow> (nat \<Rightarrow> bool) \<Rightarrow> bool \<Rightarrow> legacy_pin \<Rightarrow> string option \<Rightarrow> route_request \<Rightarrow>
     hybrid_router \<Rightarrow> fixed_router \<Rightarrow> hybrid_segment" where
  "hybrid_start env rd ticks serves stream legacy request_id rq H R =
     (case select_backend env rd (hy_policy H) rq R of
        (Inl err, R1) \<Rightarrow> ((Inl (HRaised err), []), H, R1)
      | (Inr decision, R1) \<Rightarrow>
          (case dict_get (hy_backends H) (rd_backend decision) of
             None \<Rightarrow> ((Inl (HRaised HybridRoutingError), []), H, R1)
           | Some be \<Rightarrow>
               (let H1 = remember_backend_decision H R1 request_id (rd_backend decision) (rq_model rq) None None
                in case attempt_plan env rd (hy_per_endpoint H) (hy_policy H) (hy_backends H) be rq decision R1 of
                     (Inl err, R2) \<Rightarrow> ((Inl (HRaised err), []), H1, R2)
                   | (Inr plan, R2) \<Rightarrow>
                       (case resolved_endpoint env (pr_resolve rd 1) be (rd_target decision) rq R2 of
                          (preferred, R3) \<Rightarrow>
                            hybrid_walk env ticks serves 0
                              \<lparr>hc_request = rq, hc_request_id = request_id, hc_stream = stream, hc_legacy = legacy, hc_target = rd_target decision,
                               hc_preferred = preferred, hc_plan = plan, hc_attempts = [], hc_errors = [], hc_refusals = [], hc_dispatched = []\<rparr> plan H1 R3))))"

text \<open>The frames a segment of the shared router lets out, and those it still holds back.\<close>

definition frames_out :: "hybrid_flight \<Rightarrow> answer \<Rightarrow> frame \<Rightarrow> outcome + flight \<Rightarrow> frame list \<times> frame list" where
  "frames_out hf ans fm res =
     (case res of
        Inl Streamed \<Rightarrow> (hf_held hf, [])
      | Inl _ \<Rightarrow> ([], [])
      | Inr fl \<Rightarrow>
          (case ans of
             Chunk content sz \<Rightarrow> if fl_holding fl = None then (hf_held hf @ [fm], []) else ([], hf_held hf @ [fm])
           | Failed err \<Rightarrow> if fl_announced fl then ([routing_frame fl], []) else ([], [])
           | _ \<Rightarrow> ([], hf_held hf)))"

definition hybrid_resume ::
  "router_env \<Rightarrow> (nat \<Rightarrow> nat \<Rightarrow> tick) \<Rightarrow> (nat \<Rightarrow> bool) \<Rightarrow> hybrid_flight \<Rightarrow> answer \<Rightarrow> frame \<Rightarrow> hybrid_router \<Rightarrow> fixed_router \<Rightarrow> hybrid_segment option" where
  "hybrid_resume env ticks serves hf ans fm H R =
     (case resume env (ticks 0) (serves 0) (hf_inner hf) ans R of
        None \<Rightarrow> None
      | Some (res, R1) \<Rightarrow>
          (let hc = hf_call hf; a = hf_attempt hf;
               e = endpoint_id_for_adapter (fl_route (case res of Inl _ \<Rightarrow> hf_inner hf | Inr fl \<Rightarrow> fl));
               (out, held) = frames_out hf ans fm res;
               ((c, ns), H1) = forward R1 hc a e (hf_committed hf) out H
           in Some (case res of
                Inr fl \<Rightarrow>
                  ((Inr (hf\<lparr>hf_inner := fl, hf_committed := c, hf_held := held\<rparr>),
                    (case ans of Failed err \<Rightarrow> [Dispatched (pa_backend a) e] | _ \<Rightarrow> []) @ ns), H1, R1)
              | Inl o' \<Rightarrow>
                  (case attempt_over hc a True c o' R1 H1 of
                     (Inl final, H2) \<Rightarrow> ((Inl final, ns), H2, R1)
                   | (Inr hc1, H2) \<Rightarrow>
                       (case hybrid_walk env ticks serves 1 hc1 (hf_rest hf) H2 R1 of
                          ((res2, ns2), H3, R3) \<Rightarrow> ((res2, ns @ ns2), H3, R3))))))"

section \<open>Many requests\<close>

record hybrid_system =
  hs_router :: fixed_router
  hs_hybrid :: hybrid_router
  hs_calls :: "(hybrid_outcome + hybrid_flight) list"
  hs_ids :: "string option list"
  hs_log :: "(nat \<times> log_note) list"

datatype hybrid_event =
    HArrive policy_reads "nat \<Rightarrow> nat \<Rightarrow> tick" "nat \<Rightarrow> bool" bool legacy_pin "string option" route_request
  | HAnswer nat "nat \<Rightarrow> nat \<Rightarrow> tick" "nat \<Rightarrow> bool" answer frame
  | HAdmin admin_change
  | HRefresh
  | HObserve observation
  | HPage string clock "time option" nat bool
  | HStart "string \<Rightarrow> bool option"
  | HStop

fun hybrid_step :: "router_env \<Rightarrow> hybrid_system \<Rightarrow> hybrid_event \<Rightarrow> hybrid_system option" where
  "hybrid_step env s (HArrive rd ticks serves stream legacy request_id rq) =
     (case hybrid_start env rd ticks serves stream legacy request_id rq (hs_hybrid s) (hs_router s) of
        ((res, ns), H, R) \<Rightarrow>
          Some \<lparr>hs_router = R, hs_hybrid = H, hs_calls = hs_calls s @ [res], hs_ids = hs_ids s @ [request_id],
                hs_log = hs_log s @ map (Pair (length (hs_calls s))) ns\<rparr>)"
| "hybrid_step env s (HAnswer i ticks serves ans fm) =
     (if length (hs_calls s) \<le> i then None
      else case hs_calls s ! i of
             Inl _ \<Rightarrow> None
           | Inr hf \<Rightarrow>
               (case hybrid_resume env ticks serves hf ans fm (hs_hybrid s) (hs_router s) of
                  None \<Rightarrow> None
                | Some ((res, ns), H, R) \<Rightarrow>
                    Some (s\<lparr>hs_router := R, hs_hybrid := H, hs_calls := (hs_calls s)[i := res], hs_log := hs_log s @ map (Pair i) ns\<rparr>)))"
| "hybrid_step env s (HAdmin ch) = Some (s\<lparr>hs_router := admin_step (hs_router s) ch\<rparr>)"
| "hybrid_step env s HRefresh = Some (s\<lparr>hs_hybrid := hybrid_refresh (hs_router s) (hs_hybrid s)\<rparr>)"
| "hybrid_step env s (HObserve obs) = Some (s\<lparr>hs_hybrid := snd (record_observation (hs_router s) obs (hs_hybrid s))\<rparr>)"
| "hybrid_step env s (HPage e ck epoch gen delivered) =
     Some (s\<lparr>hs_router := (hs_router s)\<lparr>fr_registry := page_sent (fr_registry (hs_router s)) e ck epoch gen delivered\<rparr>\<rparr>)"
| "hybrid_step env s (HStart answers) = Some (s\<lparr>hs_hybrid := snd (hybrid_start_all answers (hs_hybrid s))\<rparr>)"
| "hybrid_step env s HStop = Some (s\<lparr>hs_hybrid := snd (hybrid_stop_all (hs_hybrid s))\<rparr>)"

definition hybrid_init :: "hybrid_router \<Rightarrow> fixed_router \<Rightarrow> hybrid_system" where
  "hybrid_init H R = \<lparr>hs_router = R, hs_hybrid = H, hs_calls = [], hs_ids = [], hs_log = []\<rparr>"

section \<open>The shared router between two points of a request\<close>

lemma same_handed: "same_tables env R S \<Longrightarrow> handed env c R c S"
  using same_tablesD(2,7) [of env R S] by (intro handed_quiet) (simp_all add: probe_of_def)

definition inner_of :: "hybrid_outcome + hybrid_flight \<Rightarrow> outcome + flight" where
  "inner_of c = (case c of Inl _ \<Rightarrow> Inl Cancelled | Inr hf \<Rightarrow> Inr (hf_inner hf))"

lemma live_inner [simp]: "live (inner_of (Inl x)) = None" "live (inner_of (Inr hf)) = Some (hf_inner hf)"
  by (simp_all add: inner_of_def live_def)

text \<open>A segment hands on what its attempt holds, and leaves a flight of the shared router in order.\<close>

definition hands_on :: "router_env \<Rightarrow> flight option \<Rightarrow> fixed_router \<Rightarrow> hybrid_outcome + hybrid_flight \<Rightarrow> fixed_router \<Rightarrow> bool" where
  "hands_on env c R res R' \<longleftrightarrow> passed env c R (inner_of res, R') \<and> (\<forall>hf. res = Inr hf \<longrightarrow> flight_ok (hf_inner hf))"

lemma hands_on_trans: "handed env c R d S \<Longrightarrow> hands_on env d S res R' \<Longrightarrow> hands_on env c R res R'"
  using passed_trans unfolding hands_on_def by blast

lemma hands_on_ended: "handed env c R None R' \<Longrightarrow> hands_on env c R (Inl out) R'"
  by (simp add: hands_on_def passed_def)

lemma forward_state:
  "forward R hc a e c fs H = ((c', ns), H') \<Longrightarrow> c' \<longleftrightarrow> c \<or> (\<exists>f \<in> set fs. is_client_visible f)"
  by (induction fs arbitrary: c ns H) (auto simp: Let_def split: prod.splits)

lemma routing_frame_hidden [simp]: "\<not> is_client_visible (routing_frame fl)" "\<not> is_client_visible (attempt_history_chunk as t r)"
  by (simp_all add: routing_frame_def attempt_history_chunk_def)

lemma under_way_state:
  assumes "under_way hc a rest fl H R = ((res, ns), H', R')"
  shows "R' = R" "res = Inr \<lparr>hf_call = hc, hf_attempt = a, hf_rest = rest, hf_inner = fl, hf_committed = False, hf_held = []\<rparr>"
  using assms forward_state [of R hc a "endpoint_id_for_adapter (fl_route fl)" False "[routing_frame fl]" H]
  by (auto simp: under_way_def Let_def split: if_splits prod.splits)

lemma attempt_passed:
  assumes "start_attempt env ticks serves be a stream legacy rq R = Inr (res, R')"
  shows "passed env None R (res, R')" "res = Inr fl \<Longrightarrow> flight_ok fl"
proof -
  obtain rq1 where "start_request env ticks serves stream legacy rq1 R = (res, R')"
    using assms by (auto simp: start_attempt_def split: sum.splits if_splits)
  from start_result [OF this] show "passed env None R (res, R')" "res = Inr fl \<Longrightarrow> flight_ok fl" .
qed

lemma walk_hands_on:
  "hybrid_walk env ticks serves k hc plan H R = ((res, ns), H', R') \<Longrightarrow> hands_on env None R res R'"
proof (induction plan arbitrary: k hc H R ns)
  case (Cons a plan)
  show ?case
  proof (cases "case pa_endpoint a of None \<Rightarrow> False | Some e \<Rightarrow> e \<in> set (hc_dispatched hc)")
    case True
    then show ?thesis using Cons by simp
  next
    case fresh: False
    show ?thesis
    proof (cases "dict_get (hy_backends H) (pa_backend a)")
      case None
      then show ?thesis using Cons.prems fresh by (auto intro: hands_on_ended)
    next
      case (Some be)
      note walk = Cons.prems [unfolded hybrid_walk.simps if_not_P [OF fresh] Some option.case]
      show ?thesis
      proof (cases "start_attempt env (ticks k) (serves k) be a (hc_stream hc) (hc_legacy hc) (hc_request hc) R")
        case (Inl err)
        then show ?thesis using walk by (auto intro: hands_on_ended)
      next
        case (Inr seg)
        obtain r S where seg: "seg = (r, S)" by fastforce
        note p = attempt_passed [OF Inr [unfolded seg]]
        show ?thesis
        proof (cases r)
          case r: (Inr fl)
          have "under_way hc a plan fl H S = ((res, ns), H', R')" using walk Inr seg r by simp
          from under_way_state [OF this] show ?thesis using p r by (simp add: hands_on_def inner_of_def)
        next
          case r: (Inl out)
          have h: "handed env None R None S" using p(1) r by (simp add: passed_def live_def)
          obtain x H1 where o': "attempt_over hc a False False out S H = (x, H1)" by fastforce
          show ?thesis
          proof (cases x)
            case (Inl fin)
            then show ?thesis using walk Inr seg r o' h by (auto simp: Let_def intro: hands_on_ended)
          next
            case x: (Inr hc1)
            obtain ns' where "hybrid_walk env ticks serves (Suc k) hc1 plan H1 S = ((res, ns'), H', R')"
              using walk Inr seg r o' x by (auto simp: Let_def split: prod.splits)
            from Cons.IH [OF this] show ?thesis by (rule hands_on_trans [OF h])
          qed
        qed
      qed
    qed
  qed
qed (auto intro: hands_on_ended)

lemma start_hands_on:
  assumes "hybrid_start env rd ticks serves stream legacy rid rq H R = ((res, ns), H', R')"
  shows "hands_on env None R res R'"
proof -
  obtain d R1 where s: "select_backend env rd (hy_policy H) rq R = (d, R1)" by fastforce
  have R1: "handed env None R None R1" by (rule same_handed [OF select_backend_same [OF s]])
  show ?thesis
  proof (cases d)
    case (Inl err)
    then show ?thesis using assms s R1 by (auto simp: hybrid_start_def intro: hands_on_ended)
  next
    case (Inr decision)
    show ?thesis
    proof (cases "dict_get (hy_backends H) (rd_backend decision)")
      case None
      then show ?thesis using assms s Inr R1 by (auto simp: hybrid_start_def intro: hands_on_ended)
    next
      case (Some be)
      obtain plan R2 where pl: "attempt_plan env rd (hy_per_endpoint H) (hy_policy H) (hy_backends H) be rq decision R1 = (plan, R2)" by fastforce
      have R2: "handed env None R None R2" by (rule handed_trans [OF R1 same_handed [OF attempt_plan_same [OF pl]]])
      show ?thesis
      proof (cases plan)
        case bad: (Inl err)
        then show ?thesis using assms s Inr Some pl R2 by (auto simp: hybrid_start_def Let_def intro: hands_on_ended)
      next
        case ok: (Inr as)
        obtain pref R3 where r: "resolved_endpoint env (pr_resolve rd 1) be (rd_target decision) rq R2 = (pref, R3)" by fastforce
        have R3: "handed env None R None R3" by (rule handed_trans [OF R2 same_handed [OF resolved_same [OF r]]])
        show ?thesis
          using assms s Inr Some pl ok r by (auto simp: hybrid_start_def Let_def intro!: hands_on_trans [OF R3] dest!: walk_hands_on)
      qed
    qed
  qed
qed

lemma resume_hands_on:
  assumes "hybrid_resume env ticks serves hf ans fm H R = Some ((res, ns), H', R')" "flight_ok (hf_inner hf)" "charged R (hf_inner hf)"
  shows "hands_on env (Some (hf_inner hf)) R res R'"
proof -
  obtain r R1 where r: "resume env (ticks 0) (serves 0) (hf_inner hf) ans R = Some (r, R1)"
    using assms(1) by (auto simp: hybrid_resume_def split: option.splits)
  note p = resume_result(1,2) [OF r assms(2,3)]
  let ?e = "endpoint_id_for_adapter (fl_route (case r of Inl _ \<Rightarrow> hf_inner hf | Inr fl \<Rightarrow> fl))"
  obtain out held where f: "frames_out hf ans fm r = (out, held)" by fastforce
  obtain c n H1 where fw: "forward R1 (hf_call hf) (hf_attempt hf) ?e (hf_committed hf) out H = ((c, n), H1)" by (metis prod.collapse)
  note res = assms(1) [unfolded hybrid_resume_def r option.case case_prod_conv Let_def f fw]
  show ?thesis
  proof (cases r)
    case (Inr fl)
    then show ?thesis using res p by (auto simp: hands_on_def inner_of_def)
  next
    case (Inl o')
    have h: "handed env (Some (hf_inner hf)) R None R1" using p(1) Inl by (simp add: passed_def live_def)
    obtain x H2 where ov: "attempt_over (hf_call hf) (hf_attempt hf) True c o' R1 H1 = (x, H2)" by fastforce
    show ?thesis
    proof (cases x)
      case fin: (Inl final)
      then show ?thesis using res Inl ov h by (auto intro: hands_on_ended)
    next
      case x: (Inr hc1)
      obtain ns' where "hybrid_walk env ticks serves 1 hc1 (hf_rest hf) H2 R1 = ((res, ns'), H', R')"
        using res Inl ov x by (auto split: prod.splits)
      from walk_hands_on [OF this] show ?thesis by (rule hands_on_trans [OF h])
    qed
  qed
qed

section \<open>The course of one request\<close>

text \<open>What the log of one request says: the endpoints it was dispatched to, in order, with their backends,
  and where the frames came from that the client could see.\<close>

fun dispatches :: "log_note list \<Rightarrow> (string \<times> string) list" where
  "dispatches [] = []"
| "dispatches (Dispatched b e # ns) = (b, e) # dispatches ns"
| "dispatches (_ # ns) = dispatches ns"

fun shown :: "log_note list \<Rightarrow> (string \<times> string) list" where
  "shown [] = []"
| "shown (Forwarded b e f # ns) = (if is_client_visible f then (b, e) # shown ns else shown ns)"
| "shown (_ # ns) = shown ns"

lemma dispatches_append [simp]: "dispatches (xs @ ys) = dispatches xs @ dispatches ys"
  by (induction xs rule: dispatches.induct) simp_all

lemma shown_append [simp]: "shown (xs @ ys) = shown xs @ shown ys"
  by (induction xs rule: shown.induct) simp_all

lemma dispatches_set: "(b, e) \<in> set (dispatches ns) \<longleftrightarrow> Dispatched b e \<in> set ns"
  by (induction ns rule: dispatches.induct) auto

lemma tag_visible [simp]: "is_client_visible (tag_backend_chunk f b) = is_client_visible f"
  by (cases f) (auto split: option.split frame_payload.split routing_value.split)

lemma forward_notes:
  "forward R hc a e c fs H = ((c', ns), H') \<Longrightarrow> dispatches ns = [] \<and> set (shown ns) \<subseteq> {(pa_backend a, e)} \<and> (shown ns \<noteq> [] \<longrightarrow> c')"
proof (induction fs arbitrary: c ns H)
  case (Cons f fs)
  obtain H1 n where f: "forward R hc a e (c \<or> is_client_visible f) fs H1 = ((c', n), H')"
    "ns = Forwarded (pa_backend a) e (tag_backend_chunk f (pa_backend a)) # n"
    using Cons.prems by (auto simp: Let_def split: prod.splits)
  from Cons.IH [OF f(1)] forward_state [OF f(1)] show ?case using f(2) by auto
qed simp

lemma under_way_notes:
  assumes "under_way hc a rest fl H R = ((res, ns), H', R')"
  shows "dispatches ns = [(pa_backend a, endpoint_id_for_adapter (fl_route fl))] \<and> shown ns = []"
proof (cases "hc_stream hc")
  case True
  let ?e = "endpoint_id_for_adapter (fl_route fl)"
  obtain c n H1 where f: "forward R hc a ?e False [routing_frame fl] H = ((c, n), H1)" by (metis prod.collapse)
  note fn = forward_notes [OF f]
  have "\<not> c" using forward_state [OF f] by simp
  then have "shown n = []" using fn by blast
  then show ?thesis using assms True f fn by (auto simp: under_way_def Let_def)
qed (use assms in \<open>auto simp: under_way_def Let_def\<close>)

text \<open>What a request keeps from one attempt to the next.\<close>

definition same_call :: "hybrid_call \<Rightarrow> hybrid_call \<Rightarrow> bool" where
  "same_call hc hc' \<longleftrightarrow> hc_request hc' = hc_request hc \<and> hc_request_id hc' = hc_request_id hc \<and> hc_stream hc' = hc_stream hc \<and>
     hc_legacy hc' = hc_legacy hc \<and> hc_plan hc' = hc_plan hc \<and> set (hc_dispatched hc) \<subseteq> set (hc_dispatched hc')"

lemma same_call_refl [simp]: "same_call hc hc"
  by (simp add: same_call_def)

lemma same_call_trans: "same_call a b \<Longrightarrow> same_call b c \<Longrightarrow> same_call a c"
  by (auto simp: same_call_def)

lemma attempt_over_call:
  assumes "attempt_over hc a started committed out R H = (Inr hc1, H1)"
  shows "same_call hc hc1" "\<not> committed \<or> \<not> started"
    "out = Raised e rb \<Longrightarrow> present (rb_endpoint_id rb) \<Longrightarrow> the (rb_endpoint_id rb) \<in> set (hc_dispatched hc1)"
    "started \<Longrightarrow> (\<exists>e rb. out = Raised e rb) \<or> (\<exists>e. out = RaisedRouter e)"
  using assms
  by (auto simp: attempt_over_def failed_attempt_over_def same_call_def Let_def failed_endpoint_def split: outcome.splits if_splits option.splits)

text \<open>Metadata that names no endpoint but the given one.\<close>

definition names_only :: "string \<Rightarrow> routing_block option \<Rightarrow> bool" where
  "names_only e routing =
     (case routing of None \<Rightarrow> True | Some rb \<Rightarrow> (rb_endpoint_id rb = None \<or> rb_endpoint_id rb = Some e) \<and> rb_failed_attempts rb = None)"

text \<open>An attempt that may not fall back by itself.\<close>

definition lone :: "flight \<Rightarrow> bool" where
  "lone fl \<longleftrightarrow> \<not> fl_fallback fl \<and> \<not> rq_allow_fallback (fl_request fl) \<and> fl_failed fl = [] \<and> endpoint_id_for_adapter (fl_route fl) \<noteq> [] \<and>
     endpoint_id_for_adapter (fl_execution fl) = endpoint_id_for_adapter (fl_route fl)"

lemma resume_lone:
  assumes "resume env ticks serves fl ans R = Some (res, R')" "flight_ok fl" "lone fl"
  shows "res = Inr fl' \<Longrightarrow> (\<forall>err. ans \<noteq> Failed err) \<and> lone fl' \<and> fl_route fl' = fl_route fl"
    "res = Inl (Raised e rb) \<Longrightarrow> \<exists>err. ans = Failed err \<and> (re_routing err = None \<longrightarrow> rb_endpoint_id rb = Some (endpoint_id_for_adapter (fl_route fl)) \<and>
       (case rb_failed_attempts rb of None \<Rightarrow> True | Some xs \<Rightarrow> \<forall>x \<in> set xs. fst x = endpoint_id_for_adapter (fl_route fl)))"
    "res \<noteq> Inl (RaisedRouter x)"
    "res = Inl (Served rb) \<Longrightarrow> \<exists>given. ans = Whole given \<and> (names_only (endpoint_id_for_adapter (fl_route fl)) given \<longrightarrow>
       rb_endpoint_id rb = Some (endpoint_id_for_adapter (fl_route fl)) \<and> rb_failed_attempts rb = None)"
proof -
  have fb: "\<not> fl_fallback fl" "\<not> rq_allow_fallback (fl_request fl)" using assms(3) by (simp_all add: lone_def)
  have route: "fl_route fl = fl_primary fl" using assms(2) fb by (simp add: flight_ok_def)
  have failed: "\<exists>now S as. (res, R') = finish env now fl (reraise fl as [failed_attempt (fl_execution fl) err] err) S" if "ans = Failed err" for err
    using assms(1) that fb by (auto simp: resume_def Let_def attempt_failed_def fail_primary_def split: if_splits) metis
  show "(\<forall>err. ans \<noteq> Failed err) \<and> lone fl' \<and> fl_route fl' = fl_route fl" if res: "res = Inr fl'"
  proof -
    have "ans \<noteq> Failed err" for err using failed [of err] res by (auto simp: finish_def)
    moreover have "lone fl' \<and> fl_route fl' = fl_route fl"
      using assms(1,3) res calculation
      by (cases ans) (auto simp: resume_def Let_def finish_def on_pull_def on_chunk_def lone_def split: if_splits prod.splits option.splits)
    ultimately show ?thesis by blast
  qed
  have mark: "rb_endpoint_id (mark_offload b as) = rb_endpoint_id b" "rb_failed_attempts (mark_offload b as) = rb_failed_attempts b" for b as
    by (auto simp: mark_offload_def split: option.split)
  show "\<exists>err. ans = Failed err \<and> (re_routing err = None \<longrightarrow> rb_endpoint_id rb = Some (endpoint_id_for_adapter (fl_route fl)) \<and>
       (case rb_failed_attempts rb of None \<Rightarrow> True | Some xs \<Rightarrow> \<forall>x \<in> set xs. fst x = endpoint_id_for_adapter (fl_route fl)))"
    if res: "res = Inl (Raised e rb)"
  proof -
    obtain err where a: "ans = Failed err"
      using assms(1) res by (cases ans) (auto simp: resume_def Let_def finish_def split: if_splits prod.splits)
    have "endpoint_id_for_adapter (fl_execution fl) = endpoint_id_for_adapter (fl_route fl)" using assms(3) by (simp add: lone_def)
    then show ?thesis using failed [OF a] res a
      by (auto simp: finish_def reraise_def attach_block_def own_block_def Let_def mark failed_attempt_def)
  qed
  show "res \<noteq> Inl (RaisedRouter x)"
    using assms(1) failed by (cases ans) (auto simp: resume_def Let_def finish_def reraise_def split: if_splits prod.splits)
  show "\<exists>given. ans = Whole given \<and> (names_only (endpoint_id_for_adapter (fl_route fl)) given \<longrightarrow>
      rb_endpoint_id rb = Some (endpoint_id_for_adapter (fl_route fl)) \<and> rb_failed_attempts rb = None)"
    if "res = Inl (Served rb)"
    using assms(1) that failed fb
    by (cases ans) (auto simp: resume_def Let_def finish_def reraise_def response_block_def no_routing_def setdefault_def names_only_def split: if_splits prod.splits option.splits)
qed

text \<open>Where the walk over a plan stops: nothing was dispatched and the request ended, or one attempt of the plan
  is under way on an endpoint that was not dispatched before.\<close>

definition went_on :: "hybrid_call \<Rightarrow> planned list \<Rightarrow> log_note list \<Rightarrow> hybrid_outcome + hybrid_flight \<Rightarrow> bool" where
  "went_on hc plan ns res =
     (case res of
      Inl _ \<Rightarrow> dispatches ns = [] \<and> shown ns = []
    | Inr hf \<Rightarrow> (\<exists>pre. plan = pre @ hf_attempt hf # hf_rest hf) \<and> dispatches ns = [(pa_backend (hf_attempt hf), endpoint_id_for_adapter (fl_route (hf_inner hf)))] \<and>
        shown ns = [] \<and> \<not> hf_committed hf \<and> hf_held hf = [] \<and> endpoint_id_for_adapter (fl_route (hf_inner hf)) \<notin> set (hc_dispatched (hf_call hf)) \<and>
        same_call hc (hf_call hf) \<and> lone (hf_inner hf) \<and> fl_stream (hf_inner hf) = hc_stream hc \<and>
        (pa_exact (hf_attempt hf) \<longrightarrow> Some (endpoint_id_for_adapter (fl_route (hf_inner hf))) = pa_endpoint (hf_attempt hf)))"

lemma went_on_later: "same_call hc hc1 \<Longrightarrow> went_on hc1 plan ns res \<Longrightarrow> went_on hc (a # plan) ns res"
  using same_call_trans [of hc hc1] unfolding went_on_def by (auto simp: same_call_def split: sum.splits intro: exI [of _ "a # _"])

lemma went_on_notes: "dispatches ns = dispatches n \<Longrightarrow> shown ns = shown n \<Longrightarrow> went_on hc plan ns res = went_on hc plan n res"
  by (simp add: went_on_def split: sum.split)

lemma went_on_ended: "dispatches ns = [] \<Longrightarrow> shown ns = [] \<Longrightarrow> went_on hc plan ns (Inl x)"
  by (simp add: went_on_def)

lemma walk_course:
  assumes "hybrid_walk env ticks serves k hc plan H R = ((res, ns), H', R')" "\<forall>a \<in> set plan. \<not> pa_domain_fallback a" "\<forall>a \<in> set (tl plan). pa_exact a"
    "plan \<noteq> [] \<Longrightarrow> pa_exact (hd plan) \<or> hc_dispatched hc = []"
  shows "went_on hc plan ns res"
  using assms
proof (induction plan arbitrary: k hc H R ns)
  case (Cons a plan)
  have step: "went_on hc (a # plan) n res"
    if w: "hybrid_walk env ticks serves k1 hc1 plan H1 R1 = ((res, n), H', R')" and sc: "same_call hc hc1" for k1 hc1 H1 R1 n
  proof -
    have "plan \<noteq> [] \<Longrightarrow> pa_exact (hd plan)" using Cons.prems(3) by (cases plan) auto
    moreover have "\<forall>a \<in> set (tl plan). pa_exact a" using Cons.prems(3) by (cases plan) auto
    ultimately have "went_on hc1 plan n res"
      using Cons.prems(2) by (intro Cons.IH [OF w]) auto
    then show ?thesis by (rule went_on_later [OF sc])
  qed
  show ?case
  proof (cases "case pa_endpoint a of None \<Rightarrow> False | Some e \<Rightarrow> e \<in> set (hc_dispatched hc)")
    case True
    then show ?thesis using Cons.prems(1) by (intro step [of "Suc k" hc H R ns]) simp_all
  next
    case fresh: False
    show ?thesis
    proof (cases "dict_get (hy_backends H) (pa_backend a)")
      case None
      then show ?thesis using Cons.prems(1) fresh by (auto intro: went_on_ended)
    next
      case (Some be)
      note walk = Cons.prems(1) [unfolded hybrid_walk.simps if_not_P [OF fresh] Some option.case]
      show ?thesis
      proof (cases "start_attempt env (ticks k) (serves k) be a (hc_stream hc) (hc_legacy hc) (hc_request hc) R")
        case (Inl err)
        then show ?thesis using walk by (auto intro: went_on_ended)
      next
        case (Inr seg)
        obtain r S where seg: "seg = (r, S)" by fastforce
        show ?thesis
        proof (cases r)
          case r: (Inr fl)
          note at = attempt_started [OF Inr [unfolded seg r]]
          have u: "under_way hc a plan fl H S = ((res, ns), H', R')" using walk Inr seg r by simp
          have "endpoint_id_for_adapter (fl_route fl) \<notin> set (hc_dispatched hc)"
            using at(5) fresh Cons.prems(4) by (cases "pa_exact a") (auto split: option.splits)
          moreover have "lone fl" using at Cons.prems(2) by (simp add: lone_def)
          ultimately show ?thesis using under_way_state [OF u] under_way_notes [OF u] at(2,5) by (simp add: went_on_def)
        next
          case r: (Inl out)
          obtain x H1 where o': "attempt_over hc a False False out S H = (x, H1)" by fastforce
          show ?thesis
          proof (cases x)
            case (Inl fin)
            then show ?thesis using walk Inr seg r o' by (auto simp: Let_def intro!: went_on_ended split: option.splits)
          next
            case x: (Inr hc1)
            obtain n where n: "hybrid_walk env ticks serves (Suc k) hc1 plan H1 S = ((res, n), H', R')" "dispatches ns = dispatches n" "shown ns = shown n"
              using walk Inr seg r o' x by (auto simp: Let_def split: prod.splits option.splits)
            from step [OF n(1)] attempt_over_call(1) [OF o' [unfolded x]] show ?thesis unfolding went_on_notes [OF n(2,3)] .
          qed
        qed
      qed
    qed
  qed
qed (auto intro: went_on_ended)

definition endpoints_of :: "planned list \<Rightarrow> string list" where
  "endpoints_of plan = map (the \<circ> pa_endpoint) plan"

text \<open>A request on course: no endpoint was dispatched twice; after the first dispatch the endpoints follow the
  plan, with the rest of it still to come; everything the client has seen is from the last dispatch; a
  request under way waits for that dispatch, has written off the ones before, and is committed as soon
  as the client has seen something.\<close>

definition course_ok :: "log_note list \<Rightarrow> hybrid_outcome + hybrid_flight \<Rightarrow> bool" where
  "course_ok ns c \<longleftrightarrow>
     distinct (map snd (dispatches ns)) \<and> (\<forall>x \<in> set (shown ns). dispatches ns \<noteq> [] \<and> x = last (dispatches ns)) \<and>
     (case c of
        Inl _ \<Rightarrow> True
      | Inr hf \<Rightarrow>
          (\<exists>ds. dispatches ns = ds @ [(pa_backend (hf_attempt hf), endpoint_id_for_adapter (fl_route (hf_inner hf)))] \<and>
             snd ` set ds \<subseteq> set (hc_dispatched (hf_call hf))) \<and>
          (shown ns \<noteq> [] \<longrightarrow> hf_committed hf) \<and> lone (hf_inner hf) \<and> fl_stream (hf_inner hf) = hc_stream (hf_call hf) \<and>
          (\<forall>a \<in> set (hf_rest hf). pa_exact a \<and> \<not> pa_domain_fallback a) \<and>
          subseq (map snd (tl (dispatches ns)) @ endpoints_of (hf_rest hf)) (endpoints_of (tl (hc_plan (hf_call hf)))))"

lemma start_course:
  assumes "hybrid_start env rd ticks serves stream legacy rid rq H R = ((res, ns), H', R')" "hy_per_endpoint H"
  shows "course_ok ns res"
proof -
  have ended: "course_ok n (Inl x)" if "dispatches n = []" "shown n = []" for n x using that by (simp add: course_ok_def)
  obtain d R1 where s: "select_backend env rd (hy_policy H) rq R = (d, R1)" by fastforce
  show ?thesis
  proof (cases "\<exists>decision be plan R2. d = Inr decision \<and> dict_get (hy_backends H) (rd_backend decision) = Some be \<and>
      attempt_plan env rd True (hy_policy H) (hy_backends H) be rq decision R1 = (Inr plan, R2)")
    case False
    then show ?thesis using assms s by (auto simp: hybrid_start_def Let_def intro!: ended split: sum.splits option.splits prod.splits)
  next
    case True
    then obtain decision be plan R2 where d: "d = Inr decision" "dict_get (hy_backends H) (rd_backend decision) = Some be"
      "attempt_plan env rd True (hy_policy H) (hy_backends H) be rq decision R1 = (Inr plan, R2)" by blast
    obtain a rest where pl: "plan = a # rest" "\<not> pa_domain_fallback a" "\<forall>x \<in> set rest. pa_exact x \<and> \<not> pa_domain_fallback x"
      using attempt_plan_shape [OF d(3)] by blast
    obtain pref R3 where r: "resolved_endpoint env (pr_resolve rd 1) be (rd_target decision) rq R2 = (pref, R3)" by fastforce
    define hc where "hc = \<lparr>hc_request = rq, hc_request_id = rid, hc_stream = stream, hc_legacy = legacy, hc_target = rd_target decision,
      hc_preferred = pref, hc_plan = plan, hc_attempts = [], hc_errors = [], hc_refusals = [], hc_dispatched = []\<rparr>"
    obtain H1 where w: "hybrid_walk env ticks serves 0 hc plan H1 R3 = ((res, ns), H', R')"
      using assms s d r by (auto simp: hybrid_start_def Let_def hc_def)
    have "went_on hc plan ns res" by (rule walk_course [OF w]) (use pl in \<open>auto simp: hc_def\<close>)
    then show ?thesis
    proof (cases res)
      case (Inr hf)
      with \<open>went_on hc plan ns res\<close> obtain pre where g: "plan = pre @ hf_attempt hf # hf_rest hf"
        "dispatches ns = [(pa_backend (hf_attempt hf), endpoint_id_for_adapter (fl_route (hf_inner hf)))]" "shown ns = []"
        "same_call hc (hf_call hf)" "lone (hf_inner hf)" "fl_stream (hf_inner hf) = hc_stream hc" by (auto simp: went_on_def)
      have "suffix (hf_rest hf) rest" using g(1) pl(1) by (cases pre) (auto simp: suffix_def)
      then have "subseq (endpoints_of (hf_rest hf)) (endpoints_of rest)" "set (hf_rest hf) \<subseteq> set rest"
        using set_mono_suffix by (auto simp: endpoints_of_def intro!: subseq_map [OF suffix_imp_subseq])
      moreover have "tl (hc_plan (hf_call hf)) = rest" "hc_stream (hf_call hf) = hc_stream hc" using g(4) pl(1) by (simp_all add: same_call_def hc_def)
      ultimately show ?thesis using g(2,3,5,6) pl(3) Inr by (auto simp: course_ok_def)
    qed (auto simp: course_ok_def went_on_def)
  qed
qed

lemma course_grows:
  assumes "course_ok ns0 (Inr hf)" "endpoint_id_for_adapter (fl_route (hf_inner hf)) \<in> set (hc_dispatched hc1)" "same_call (hf_call hf) hc1"
    "\<not> hf_committed hf" "went_on hc1 (hf_rest hf) ns res"
  shows "course_ok (ns0 @ ns) res"
proof -
  let ?e = "endpoint_id_for_adapter (fl_route (hf_inner hf))"
  obtain ds where ds: "dispatches ns0 = ds @ [(pa_backend (hf_attempt hf), ?e)]" "snd ` set ds \<subseteq> set (hc_dispatched (hf_call hf))"
    and ok: "distinct (map snd (dispatches ns0))" "shown ns0 = []" "\<forall>a \<in> set (hf_rest hf). pa_exact a \<and> \<not> pa_domain_fallback a"
      "subseq (map snd (tl (dispatches ns0)) @ endpoints_of (hf_rest hf)) (endpoints_of (tl (hc_plan (hf_call hf))))"
    using assms(1,4) by (auto simp: course_ok_def)
  show ?thesis
  proof (cases res)
    case (Inl x)
    then show ?thesis using assms(5) ok by (simp add: course_ok_def went_on_def)
  next
    case (Inr g)
    let ?f = "endpoint_id_for_adapter (fl_route (hf_inner g))"
    obtain pre where g: "hf_rest hf = pre @ hf_attempt g # hf_rest g" "dispatches ns = [(pa_backend (hf_attempt g), ?f)]" "shown ns = []"
      "?f \<notin> set (hc_dispatched (hf_call g))" "same_call hc1 (hf_call g)" "lone (hf_inner g)" "fl_stream (hf_inner g) = hc_stream hc1"
      "pa_exact (hf_attempt g) \<longrightarrow> Some ?f = pa_endpoint (hf_attempt g)"
      using assms(5) Inr by (auto simp: went_on_def)
    have old: "snd ` set (dispatches ns0) \<subseteq> set (hc_dispatched (hf_call g))"
      using ds assms(2,3) g(5) by (auto simp: same_call_def)
    have ep: "the (pa_endpoint (hf_attempt g)) = ?f" using g(8) ok(3) g(1) by (metis in_set_conv_decomp option.sel)
    have "subseq (?f # endpoints_of (hf_rest g)) (endpoints_of (hf_rest hf))" unfolding g(1) using ep by (simp add: endpoints_of_def list_emb_append2)
    then have "subseq (map snd (tl (dispatches ns0)) @ ?f # endpoints_of (hf_rest g)) (map snd (tl (dispatches ns0)) @ endpoints_of (hf_rest hf))"
      by (intro list_emb_append_mono) simp_all
    then have "subseq (map snd (tl (dispatches ns0)) @ ?f # endpoints_of (hf_rest g)) (endpoints_of (tl (hc_plan (hf_call hf))))"
      using ok(4) subseq_order.order_trans by blast
    moreover have "hc_plan (hf_call g) = hc_plan (hf_call hf)" "hc_stream (hf_call g) = hc_stream hc1" using assms(3) g(5) by (simp_all add: same_call_def)
    moreover have "map snd (tl (dispatches ns0 @ dispatches ns)) = map snd (tl (dispatches ns0)) @ [?f]" using ds(1) g(2) by (cases ds) simp_all
    ultimately show ?thesis using Inr old g ok by (auto simp: course_ok_def)
  qed
qed

lemma resume_course:
  assumes "hybrid_resume env ticks serves hf ans fm H R = Some ((res, ns), H', R')" "course_ok ns0 (Inr hf)" "flight_ok (hf_inner hf)"
    "\<And>err. ans = Failed err \<Longrightarrow> re_routing err = None"
  shows "course_ok (ns0 @ ns) res"
proof -
  obtain r R1 where r: "resume env (ticks 0) (serves 0) (hf_inner hf) ans R = Some (r, R1)"
    using assms(1) by (auto simp: hybrid_resume_def split: option.splits)
  have lone: "lone (hf_inner hf)" using assms(2) by (simp add: course_ok_def)
  note lr = resume_lone [OF r assms(3) lone]
  let ?e = "endpoint_id_for_adapter (fl_route (hf_inner hf))"
  have e: "endpoint_id_for_adapter (fl_route (case r of Inl _ \<Rightarrow> hf_inner hf | Inr fl \<Rightarrow> fl)) = ?e"
    using lr(1) by (cases r) simp_all
  obtain out held where f: "frames_out hf ans fm r = (out, held)" by fastforce
  obtain c n H1 where fw: "forward R1 (hf_call hf) (hf_attempt hf) ?e (hf_committed hf) out H = ((c, n), H1)" by (metis prod.collapse)
  note res = assms(1) [unfolded hybrid_resume_def r option.case case_prod_conv Let_def e f fw]
  note fn = forward_notes [OF fw] and fs = forward_state [OF fw]
  obtain ds where ds: "dispatches ns0 = ds @ [(pa_backend (hf_attempt hf), ?e)]" using assms(2) by (auto simp: course_ok_def)
  have more: "course_ok (ns0 @ n) (Inl x)" for x using assms(2) fn ds by (auto simp: course_ok_def)
  show ?thesis
  proof (cases r)
    case (Inr fl)
    then have ns: "res = Inr (hf\<lparr>hf_inner := fl, hf_committed := c, hf_held := held\<rparr>)" "ns = n"
      using res lr(1) [OF Inr] by (auto split: answer.splits)
    have "fl_stream fl = fl_stream (hf_inner hf)"
      using r Inr lr(1) [OF Inr] by (cases ans) (auto simp: resume_def Let_def finish_def on_pull_def on_chunk_def split: if_splits prod.splits option.splits)
    then show ?thesis using assms(2) fn fs lr(1) [OF Inr] ds unfolding ns by (auto simp: course_ok_def)
  next
    case (Inl o')
    obtain x H2 where ov: "attempt_over (hf_call hf) (hf_attempt hf) True c o' R1 H1 = (x, H2)" by fastforce
    show ?thesis
    proof (cases x)
      case fin: (Inl final)
      then show ?thesis using res Inl ov more by auto
    next
      case x: (Inr hc1)
      note oc = attempt_over_call [OF ov [unfolded x]]
      obtain ee rb where raised: "o' = Raised ee rb" using oc(4) lr(3) Inl by blast
      have frames: "out = []" using f Inl raised by (simp add: frames_out_def)
      then have nc: "\<not> hf_committed hf" "n = []" using oc(2) fw by auto
      have "rb_endpoint_id rb = Some ?e" using lr(2) [of ee rb] Inl raised assms(4) by auto
      moreover have "?e \<noteq> []" using lone by (simp add: lone_def)
      ultimately have disp: "?e \<in> set (hc_dispatched hc1)" using oc(3) [OF raised] by (simp add: present_def)
      obtain n2 where w: "hybrid_walk env ticks serves 1 hc1 (hf_rest hf) H2 R1 = ((res, n2), H', R')" "ns = n2"
        using res Inl ov x nc(2) by (auto split: prod.splits)
      have rest: "\<forall>a \<in> set (hf_rest hf). pa_exact a \<and> \<not> pa_domain_fallback a" using assms(2) by (simp add: course_ok_def)
      have "went_on hc1 (hf_rest hf) n2 res"
      proof (rule walk_course [OF w(1)])
        show "pa_exact (hd (hf_rest hf)) \<or> hc_dispatched hc1 = []" if "hf_rest hf \<noteq> []" using rest that by simp
        show "\<forall>a \<in> set (tl (hf_rest hf)). pa_exact a" using rest by (cases "hf_rest hf") auto
      qed (use rest in auto)
      then show ?thesis unfolding w(2) by (rule course_grows [OF assms(2) disp oc(1) nc(1)])
    qed
  qed
qed

section \<open>Who is credited\<close>

text \<open>The entries of the feedback records: request, endpoint, backend.\<close>

definition credits :: "hybrid_router \<Rightarrow> (string \<times> string \<times> string) set" where
  "credits H = {(rid, e, b). \<exists>rec. (rid, rec) \<in> set (hy_decisions H) \<and> (e, b) \<in> set (fd_endpoints rec)}"

text \<open>The endpoints one call may credit.\<close>

definition named :: "routing_block option \<Rightarrow> string option \<Rightarrow> string set" where
  "named routing endpoint_id =
     (case routing of
        None \<Rightarrow> set_option endpoint_id
      | Some rb \<Rightarrow> set_option (if present (rb_endpoint_id rb) then rb_endpoint_id rb else endpoint_id) \<union>
                   (case rb_failed_attempts rb of None \<Rightarrow> {} | Some xs \<Rightarrow> fst ` set xs))"

lemma own_entries: "set (own_endpoint b e d) \<subseteq> set d \<union> set_option e \<times> {b}"
  using dict_set_entries [of _ b d] by (auto simp: own_endpoint_def present_def split: option.splits if_splits)

lemma owned_entries: "set (owned_endpoints b routing ep d) \<subseteq> set d \<union> named routing ep \<times> {b}"
proof (cases routing)
  case None
  then show ?thesis using own_entries [of b ep d] by (simp add: owned_endpoints_def named_def)
next
  case (Some rb)
  have fold: "set (foldl (\<lambda>d (e, s). own_endpoint b (Some e) d) d0 xs) \<subseteq> set d0 \<union> (fst ` set xs) \<times> {b}" for d0 and xs :: "(string \<times> int option) list"
  proof (induction xs arbitrary: d0)
    case (Cons y ys)
    then show ?case using own_entries [of b "Some (fst y)" d0] by (cases y) fastforce
  qed simp
  define e where "e = (if present (rb_endpoint_id rb) then rb_endpoint_id rb else ep)"
  define xs where "xs = (case rb_failed_attempts rb of None \<Rightarrow> [] | Some xs \<Rightarrow> xs)"
  have n: "named routing ep = set_option e \<union> fst ` set xs" using Some by (auto simp: named_def e_def xs_def split: option.split)
  have o': "owned_endpoints b routing ep d = foldl (\<lambda>d (e, s). own_endpoint b (Some e) d) (own_endpoint b e d) xs"
    using Some by (simp add: owned_endpoints_def e_def xs_def)
  have "set (own_endpoint b e d) \<union> (fst ` set xs) \<times> {b} \<subseteq> set d \<union> (set_option e \<union> fst ` set xs) \<times> {b}"
    using own_entries [of b e d] by blast
  then show ?thesis unfolding n o' by (rule subset_trans [OF fold])
qed

lemma remember_credits:
  "credits (remember_backend_decision H R rid b m routing ep) \<subseteq> credits H \<union> {(r, e, b) | r e. rid = Some r \<and> e \<in> named routing ep}"
proof (cases "present rid")
  case True
  then obtain r where r: "rid = Some r" by (cases rid) simp_all
  define d where "d = (if dict_get (hy_decisions H) r = None \<and> hy_max_recorded H \<le> length (hy_decisions H) then tl (hy_decisions H) else hy_decisions H)"
  define rec where "rec = (case dict_get d r of Some x \<Rightarrow> x | None \<Rightarrow> \<lparr>fd_model_id = hybrid_canonical_id H R m, fd_backend = b, fd_endpoints = []\<rparr>)"
  let ?rec = "rec\<lparr>fd_backend := b, fd_endpoints := owned_endpoints b routing ep (fd_endpoints rec)\<rparr>"
  have H: "hy_decisions (remember_backend_decision H R rid b m routing ep) = dict_set r ?rec d"
    using True by (simp add: remember_backend_decision_def Let_def r d_def rec_def)
  have d: "set d \<subseteq> set (hy_decisions H)" by (cases "hy_decisions H") (auto simp: d_def)
  have rec: "(r, e, b') \<in> credits H" if "(e, b') \<in> set (fd_endpoints rec)" for e b'
    using that d by (auto simp: rec_def credits_def dest: map_of_SomeD split: option.splits)
  show ?thesis
  proof
    fix y assume y: "y \<in> credits (remember_backend_decision H R rid b m routing ep)"
    obtain x e b' where xeb: "y = (x, e, b')" by (metis prod.collapse)
    from y obtain rr where rr: "(x, rr) \<in> insert (r, ?rec) (set d)" "(e, b') \<in> set (fd_endpoints rr)"
      using dict_set_entries [of r ?rec d] unfolding credits_def H xeb by blast
    show "y \<in> credits H \<union> {(r, e, b) | r e. rid = Some r \<and> e \<in> named routing ep}"
    proof (cases "(x, rr) = (r, ?rec)")
      case True
      then have "(e, b') \<in> set (fd_endpoints rec) \<or> b' = b \<and> e \<in> named routing ep"
        using rr(2) owned_entries [of b routing ep "fd_endpoints rec"] by auto
      then show ?thesis using rec True r by (auto simp: xeb)
    qed (use rr d in \<open>auto simp: credits_def xeb\<close>)
  qed
qed (simp add: remember_backend_decision_def)

lemma remember_bounded:
  assumes "length (hy_decisions H) \<le> hy_max_recorded H" "0 < hy_max_recorded H"
  shows "length (hy_decisions (remember_backend_decision H R rid b m routing ep)) \<le> hy_max_recorded H"
    "hy_max_recorded (remember_backend_decision H R rid b m routing ep) = hy_max_recorded H"
    "hy_per_endpoint (remember_backend_decision H R rid b m routing ep) = hy_per_endpoint H"
  using assms by (auto simp: remember_backend_decision_def Let_def length_dict_set split: option.splits)

text \<open>What a request may be credited with: endpoints its log says a backend dispatched, or was about to.\<close>

definition noted :: "log_note list \<Rightarrow> string \<Rightarrow> string set" where
  "noted ns b = {e. Dispatched b e \<in> set ns \<or> Rejected b e \<in> set ns}"

definition fed :: "string option \<Rightarrow> log_note list \<Rightarrow> hybrid_router \<Rightarrow> hybrid_router \<Rightarrow> bool" where
  "fed rid ns H H' \<longleftrightarrow>
     credits H' \<subseteq> credits H \<union> {(r, e, b) | r e b. rid = Some r \<and> e \<in> noted ns b} \<and>
     hy_max_recorded H' = hy_max_recorded H \<and> hy_per_endpoint H' = hy_per_endpoint H \<and>
     (0 < hy_max_recorded H \<and> length (hy_decisions H) \<le> hy_max_recorded H \<longrightarrow> length (hy_decisions H') \<le> hy_max_recorded H)"

lemma fed_refl [simp]: "fed rid ns H H"
  by (auto simp: fed_def)

lemma fed_trans: "fed rid ns H H1 \<Longrightarrow> fed rid ns H1 H2 \<Longrightarrow> fed rid ns H H2"
  unfolding fed_def by fastforce

lemma fed_mono:
  assumes "fed rid ns H H'" "set ns \<subseteq> set ns'"
  shows "fed rid ns' H H'"
proof -
  have "noted ns b \<subseteq> noted ns' b" for b using assms(2) by (auto simp: noted_def)
  then have "{(r, e, b) | r e b. rid = Some r \<and> e \<in> noted ns b} \<subseteq> {(r, e, b) | r e b. rid = Some r \<and> e \<in> noted ns' b}" by blast
  then show ?thesis using assms(1) unfolding fed_def by blast
qed

lemma fed_remember:
  assumes "named routing ep \<subseteq> noted ns b"
  shows "fed rid ns H (remember_backend_decision H R rid b m routing ep)"
proof -
  have "credits (remember_backend_decision H R rid b m routing ep) \<subseteq> credits H \<union> {(r, e, b) | r e b. rid = Some r \<and> e \<in> noted ns b}"
    by (rule subset_trans [OF remember_credits]) (use assms in blast)
  moreover have "hy_max_recorded (remember_backend_decision H R rid b m routing ep) = hy_max_recorded H"
    "hy_per_endpoint (remember_backend_decision H R rid b m routing ep) = hy_per_endpoint H"
    by (simp_all add: remember_backend_decision_def Let_def)
  ultimately show ?thesis using remember_bounded(1) [of H R rid b m routing ep] by (simp add: fed_def)
qed

definition frame_noted :: "log_note list \<Rightarrow> string \<Rightarrow> frame \<Rightarrow> bool" where
  "frame_noted ns b f \<longleftrightarrow> (\<forall>rb. frame_routing f = Some rb \<longrightarrow> named (Some rb) None \<subseteq> noted ns b)"

lemma forward_fed:
  "forward R hc a e c fs H = ((c', n), H') \<Longrightarrow> \<forall>f \<in> set fs. frame_noted ns (pa_backend a) f \<Longrightarrow> fed (hc_request_id hc) ns H H'"
proof (induction fs arbitrary: c n H)
  case (Cons f fs)
  obtain n1 where f: "forward R hc a e (c \<or> is_client_visible f) fs (if \<not> c \<or> carries_routing f then remember_stream_dispatch H R hc a f else H) = ((c', n1), H')"
    using Cons.prems(1) by (auto simp: Let_def split: prod.splits)
  have "named (frame_routing f) None \<subseteq> noted ns (pa_backend a)"
    using Cons.prems(2) by (cases "frame_routing f") (simp_all add: frame_noted_def named_def)
  then have "fed (hc_request_id hc) ns H (if \<not> c \<or> carries_routing f then remember_stream_dispatch H R hc a f else H)"
    by (auto simp: remember_stream_dispatch_def intro: fed_remember)
  then show ?case using Cons.IH [OF f] Cons.prems(2) by (auto intro: fed_trans)
qed simp

lemma truncate_hybrid [simp]: "routing_block.truncate (as_hybrid rb) = rb"
  by (simp add: as_hybrid_def routing_block.defs)

lemma routing_frame_noted:
  assumes "lone fl" "endpoint_id_for_adapter (fl_route fl) \<in> noted ns b"
  shows "frame_noted ns b (routing_frame fl)"
proof -
  have "present (ra_endpoint_id (fl_execution fl)) \<Longrightarrow> the (ra_endpoint_id (fl_execution fl)) = endpoint_id_for_adapter (fl_route fl)"
    using assms(1) by (auto simp: lone_def endpoint_id_for_adapter_def split: if_splits)
  then show ?thesis using assms by (auto simp: frame_noted_def routing_frame_def named_def lone_def Let_def split: if_splits)
qed

lemma under_way_fed:
  assumes "under_way hc a rest fl H R = ((res, ns), H', R')" "lone fl"
  shows "fed (hc_request_id hc) ns H H'"
proof (cases "hc_stream hc")
  case True
  let ?e = "endpoint_id_for_adapter (fl_route fl)"
  obtain c n H1 where f: "forward R hc a ?e False [routing_frame fl] H = ((c, n), H1)" by (metis prod.collapse)
  have ns: "H' = H1" "Dispatched (pa_backend a) ?e \<in> set ns" using assms(1) True f by (auto simp: under_way_def Let_def)
  then have "frame_noted ns (pa_backend a) (routing_frame fl)" by (intro routing_frame_noted [OF assms(2)]) (simp add: noted_def)
  then show ?thesis using forward_fed [OF f, of ns] ns(1) by simp
qed (use assms in \<open>auto simp: under_way_def Let_def\<close>)

lemma attempt_over_fed:
  assumes "attempt_over hc a started committed out R H = (x, H')"
    "\<And>rb. out = Served rb \<Longrightarrow> named (Some rb) (pa_endpoint a) \<subseteq> noted ns (pa_backend a)"
    "\<And>e rb. out = Raised e rb \<Longrightarrow> named (Some rb) (pa_endpoint a) \<subseteq> noted ns (pa_backend a)"
    "\<And>e. out = RaisedRouter e \<Longrightarrow> named None (pa_endpoint a) \<subseteq> noted ns (pa_backend a)"
  shows "fed (hc_request_id hc) ns H H'"
  using assms
  by (auto simp: attempt_over_def failed_attempt_over_def Let_def split: outcome.splits if_splits intro!: fed_remember)

lemma walk_fed:
  assumes "hybrid_walk env ticks serves k hc plan H R = ((res, ns), H', R')" "\<forall>a \<in> set plan. \<not> pa_domain_fallback a"
  shows "fed (hc_request_id hc) ns H H'"
  using assms
proof (induction plan arbitrary: k hc H R ns)
  case (Cons a plan)
  show ?case
  proof (cases "case pa_endpoint a of None \<Rightarrow> False | Some e \<Rightarrow> e \<in> set (hc_dispatched hc)")
    case True
    then show ?thesis using Cons by simp
  next
    case fresh: False
    show ?thesis
    proof (cases "dict_get (hy_backends H) (pa_backend a)")
      case None
      then show ?thesis using Cons.prems(1) fresh by auto
    next
      case (Some be)
      note walk = Cons.prems(1) [unfolded hybrid_walk.simps if_not_P [OF fresh] Some option.case]
      show ?thesis
      proof (cases "start_attempt env (ticks k) (serves k) be a (hc_stream hc) (hc_legacy hc) (hc_request hc) R")
        case (Inl err)
        then show ?thesis using walk by auto
      next
        case (Inr seg)
        obtain r S where seg: "seg = (r, S)" by fastforce
        show ?thesis
        proof (cases r)
          case r: (Inr fl)
          have "lone fl" using attempt_started [OF Inr [unfolded seg r]] Cons.prems(2) by (simp add: lone_def)
          then show ?thesis using walk Inr seg r by (intro under_way_fed) simp_all
        next
          case r: (Inl out)
          obtain rq1 where "start_request env (ticks k) (serves k) (hc_stream hc) (hc_legacy hc) rq1 R = (Inl out, S)"
            using Inr seg r by (auto simp: start_attempt_def split: sum.splits if_splits)
          then obtain e where out: "out = RaisedRouter e" using start_flight(1) by blast
          let ?rej = "case pa_endpoint a of None \<Rightarrow> [] | Some e \<Rightarrow> [Rejected (pa_backend a) e]"
          obtain x H1 where o': "attempt_over hc a False False out S H = (x, H1)" by fastforce
          have f: "fed (hc_request_id hc) ?rej H H1"
            by (rule attempt_over_fed [OF o']) (auto simp: out named_def noted_def split: option.splits)
          show ?thesis
          proof (cases x)
            case (Inl fin)
            then show ?thesis using walk Inr seg r o' f by (auto simp: Let_def)
          next
            case x: (Inr hc1)
            obtain n where n: "hybrid_walk env ticks serves (Suc k) hc1 plan H1 S = ((res, n), H', R')" "ns = ?rej @ n"
              using walk Inr seg r o' x by (auto simp: Let_def split: prod.splits)
            have "hc_request_id hc1 = hc_request_id hc" using attempt_over_call(1) [OF o' [unfolded x]] by (simp add: same_call_def)
            then have "fed (hc_request_id hc) n H1 H'" using Cons.IH [OF n(1)] Cons.prems(2) by simp
            then show ?thesis using f unfolding n(2) by (intro fed_trans [of _ _ H H1 H']) (auto elim: fed_mono)
          qed
        qed
      qed
    qed
  qed
qed simp

lemma start_fed:
  assumes "hybrid_start env rd ticks serves stream legacy rid rq H R = ((res, ns), H', R')" "hy_per_endpoint H"
  shows "fed rid ns H H'" "res = Inr hf \<Longrightarrow> hc_request_id (hf_call hf) = rid \<and> hf_held hf = []"
proof -
  obtain d R1 where s: "select_backend env rd (hy_policy H) rq R = (d, R1)" by fastforce
  have "fed rid ns H H' \<and> (\<forall>hf. res = Inr hf \<longrightarrow> hc_request_id (hf_call hf) = rid \<and> hf_held hf = [])"
  proof (cases "\<exists>decision be. d = Inr decision \<and> dict_get (hy_backends H) (rd_backend decision) = Some be")
    case False
    then show ?thesis using assms s by (auto simp: hybrid_start_def split: sum.splits option.splits)
  next
    case True
    then obtain decision be where d: "d = Inr decision" "dict_get (hy_backends H) (rd_backend decision) = Some be" by blast
    define H1 where "H1 = remember_backend_decision H R1 rid (rd_backend decision) (rq_model rq) None None"
    have f1: "fed rid ns H H1" unfolding H1_def by (rule fed_remember) (simp add: named_def)
    obtain pl R2 where p: "attempt_plan env rd True (hy_policy H) (hy_backends H) be rq decision R1 = (pl, R2)" by fastforce
    show ?thesis
    proof (cases pl)
      case (Inl err)
      then show ?thesis using assms s d p f1 by (auto simp: hybrid_start_def Let_def H1_def)
    next
      case (Inr plan)
      note shape = attempt_plan_shape [OF p [unfolded Inr]]
      then have pl: "\<forall>a \<in> set plan. \<not> pa_domain_fallback a" "\<forall>a \<in> set (tl plan). pa_exact a" by auto
      obtain pref R3 where r: "resolved_endpoint env (pr_resolve rd 1) be (rd_target decision) rq R2 = (pref, R3)" by fastforce
      define hc where "hc = \<lparr>hc_request = rq, hc_request_id = rid, hc_stream = stream, hc_legacy = legacy, hc_target = rd_target decision,
        hc_preferred = pref, hc_plan = plan, hc_attempts = [], hc_errors = [], hc_refusals = [], hc_dispatched = []\<rparr>"
      have w: "hybrid_walk env ticks serves 0 hc plan H1 R3 = ((res, ns), H', R')"
        using assms s d p Inr r by (simp add: hybrid_start_def Let_def hc_def H1_def)
      have "fed rid ns H1 H'" using walk_fed [OF w pl(1)] by (simp add: hc_def)
      moreover have "went_on hc plan ns res" by (rule walk_course [OF w pl]) (simp add: hc_def)
      ultimately show ?thesis using fed_trans [OF f1] by (auto simp: went_on_def same_call_def hc_def)
    qed
  qed
  then show "fed rid ns H H'" "res = Inr hf \<Longrightarrow> hc_request_id (hf_call hf) = rid \<and> hf_held hf = []" by blast+
qed

text \<open>An answer of the adapter of endpoint \<open>e\<close>, and a chunk of its stream, may bring routing metadata, but none
  that names another endpoint; its errors bring none.\<close>

definition plain_frame :: "string \<Rightarrow> frame \<Rightarrow> bool" where
  "plain_frame e fm = names_only e (frame_routing fm)"

definition plain_answer :: "string \<Rightarrow> answer \<Rightarrow> frame \<Rightarrow> bool" where
  "plain_answer e ans fm \<longleftrightarrow>
     (case ans of Failed err \<Rightarrow> re_routing err = None | Whole given \<Rightarrow> names_only e given | _ \<Rightarrow> True) \<and> plain_frame e fm"

lemma plain_frame_noted: "plain_frame e f \<Longrightarrow> e \<in> noted ns b \<Longrightarrow> frame_noted ns b f"
  by (auto simp: plain_frame_def frame_noted_def names_only_def named_def present_def split: option.splits if_splits)

lemma resume_fed:
  assumes "hybrid_resume env ticks serves hf ans fm H R = Some ((res, ns), H', R')" "course_ok ns0 (Inr hf)" "flight_ok (hf_inner hf)"
    "plain_answer (endpoint_id_for_adapter (fl_route (hf_inner hf))) ans fm"
    "\<forall>f \<in> set (hf_held hf). plain_frame (endpoint_id_for_adapter (fl_route (hf_inner hf))) f"
  shows "fed (hc_request_id (hf_call hf)) (ns0 @ ns) H H'"
    "res = Inr g \<Longrightarrow> hc_request_id (hf_call g) = hc_request_id (hf_call hf) \<and> (\<forall>f \<in> set (hf_held g). plain_frame (endpoint_id_for_adapter (fl_route (hf_inner g))) f)"
proof -
  let ?rid = "hc_request_id (hf_call hf)" and ?a = "hf_attempt hf" and ?e = "endpoint_id_for_adapter (fl_route (hf_inner hf))"
  obtain r R1 where r: "resume env (ticks 0) (serves 0) (hf_inner hf) ans R = Some (r, R1)"
    using assms(1) by (auto simp: hybrid_resume_def split: option.splits)
  have lone: "lone (hf_inner hf)" using assms(2) by (simp add: course_ok_def)
  note lr = resume_lone [OF r assms(3) lone]
  have e: "endpoint_id_for_adapter (fl_route (case r of Inl _ \<Rightarrow> hf_inner hf | Inr fl \<Rightarrow> fl)) = ?e" using lr(1) by (cases r) simp_all
  obtain out held where f: "frames_out hf ans fm r = (out, held)" by fastforce
  obtain c n H1 where fw: "forward R1 (hf_call hf) ?a ?e (hf_committed hf) out H = ((c, n), H1)" by (metis prod.collapse)
  note res = assms(1) [unfolded hybrid_resume_def r option.case case_prod_conv Let_def e f fw]
  have "(pa_backend ?a, ?e) \<in> set (dispatches ns0)" using assms(2) by (auto simp: course_ok_def)
  then have me: "?e \<in> noted (ns0 @ m) (pa_backend ?a)" for m by (simp add: dispatches_set noted_def)
  have plain: "\<forall>x \<in> set out \<union> set held. plain_frame ?e x"
    using f assms(4,5) lr(1) by (auto simp: frames_out_def plain_answer_def split: sum.splits outcome.splits answer.splits if_splits)
  have f1: "fed ?rid (ns0 @ m) H H1" for m by (rule forward_fed [OF fw]) (use plain me plain_frame_noted in blast)
  have "fed ?rid (ns0 @ ns) H H' \<and> (\<forall>g. res = Inr g \<longrightarrow> hc_request_id (hf_call g) = ?rid \<and> (\<forall>f \<in> set (hf_held g). plain_frame (endpoint_id_for_adapter (fl_route (hf_inner g))) f))"
  proof (cases r)
    case (Inr fl)
    then show ?thesis using res lr(1) [OF Inr] f1 plain by auto
  next
    case (Inl o')
    obtain x H2 where ov: "attempt_over (hf_call hf) ?a True c o' R1 H1 = (x, H2)" by fastforce
    have f2: "fed ?rid (ns0 @ m) H1 H2" for m
    proof (rule attempt_over_fed [OF ov])
      show "named (Some rb) (pa_endpoint ?a) \<subseteq> noted (ns0 @ m) (pa_backend ?a)" if o: "o' = Served rb" for rb
      proof -
        have "rb_endpoint_id rb = Some ?e" "rb_failed_attempts rb = None" using lr(4) [of rb] Inl o assms(4) by (auto simp: plain_answer_def)
        moreover have "?e \<noteq> []" using lone by (simp add: lone_def)
        ultimately show ?thesis using me by (simp add: named_def present_def)
      qed
      show "named (Some rb) (pa_endpoint ?a) \<subseteq> noted (ns0 @ m) (pa_backend ?a)" if o: "o' = Raised ee rb" for ee rb
      proof -
        have "rb_endpoint_id rb = Some ?e" "case rb_failed_attempts rb of None \<Rightarrow> True | Some xs \<Rightarrow> \<forall>x \<in> set xs. fst x = ?e"
          using lr(2) [of ee rb] Inl o assms(4) by (auto simp: plain_answer_def)
        moreover have "?e \<noteq> []" using lone by (simp add: lone_def)
        ultimately show ?thesis using me by (auto simp: named_def present_def split: option.splits)
      qed
    qed (use lr(3) Inl in blast)
    show ?thesis
    proof (cases x)
      case fin: (Inl final)
      then show ?thesis using res Inl ov fed_trans [OF f1 f2] by auto
    next
      case x: (Inr hc1)
      note oc = attempt_over_call [OF ov [unfolded x]]
      obtain n2 where w: "hybrid_walk env ticks serves 1 hc1 (hf_rest hf) H2 R1 = ((res, n2), H', R')" "ns = n @ n2"
        using res Inl ov x by (auto split: prod.splits)
      have rest: "\<forall>a \<in> set (hf_rest hf). pa_exact a \<and> \<not> pa_domain_fallback a" using assms(2) by (simp add: course_ok_def)
      have id: "hc_request_id hc1 = ?rid" using oc(1) by (simp add: same_call_def)
      have "fed ?rid n2 H2 H'" using walk_fed [OF w(1)] rest id by simp
      then have "fed ?rid (ns0 @ ns) H2 H'" by (rule fed_mono) (use w(2) in auto)
      moreover have "went_on hc1 (hf_rest hf) n2 res"
      proof (rule walk_course [OF w(1)])
        show "\<forall>a \<in> set (tl (hf_rest hf)). pa_exact a" using rest by (cases "hf_rest hf") auto
      qed (use rest in auto)
      ultimately show ?thesis using fed_trans [OF fed_trans [OF f1 f2]] id by (auto simp: went_on_def same_call_def)
    qed
  qed
  then show "fed ?rid (ns0 @ ns) H H'"
    "res = Inr g \<Longrightarrow> hc_request_id (hf_call g) = ?rid \<and> (\<forall>f \<in> set (hf_held g). plain_frame (endpoint_id_for_adapter (fl_route (hf_inner g))) f)" by blast+
qed

section \<open>What every run keeps\<close>

definition router_view :: "hybrid_system \<Rightarrow> system" where
  "router_view s = \<lparr>sy_router = hs_router s, sy_calls = map inner_of (hs_calls s)\<rparr>"

definition notes_of :: "nat \<Rightarrow> (nat \<times> log_note) list \<Rightarrow> log_note list" where
  "notes_of i lg = map snd (filter (\<lambda>x. fst x = i) lg)"

lemma notes_of_simps [simp]:
  "notes_of i [] = []" "notes_of i (xs @ ys) = notes_of i xs @ notes_of i ys" "notes_of i (map (Pair i) ns) = ns" "j \<noteq> i \<Longrightarrow> notes_of i (map (Pair j) ns) = []"
  by (simp_all add: notes_of_def filter_map comp_def)

lemma notes_of_new: "\<forall>x \<in> set lg. fst x < n \<Longrightarrow> notes_of n lg = []"
  by (auto simp: notes_of_def filter_empty_conv)

definition call_ok :: "log_note list \<Rightarrow> string option \<Rightarrow> hybrid_outcome + hybrid_flight \<Rightarrow> bool" where
  "call_ok ns rid c \<longleftrightarrow> course_ok ns c \<and>
     (case c of Inl _ \<Rightarrow> True | Inr hf \<Rightarrow> hc_request_id (hf_call hf) = rid \<and> (\<forall>f \<in> set (hf_held hf). plain_frame (endpoint_id_for_adapter (fl_route (hf_inner hf))) f))"

definition credited :: "string option list \<Rightarrow> (nat \<times> log_note) list \<Rightarrow> (string \<times> string \<times> string) set" where
  "credited ids lg = {(r, e, b). \<exists>i < length ids. ids ! i = Some r \<and> e \<in> noted (notes_of i lg) b}"

definition hybrid_ok :: "hybrid_system \<Rightarrow> bool" where
  "hybrid_ok s \<longleftrightarrow>
     hy_per_endpoint (hs_hybrid s) \<and> 0 < hy_max_recorded (hs_hybrid s) \<and> length (hy_decisions (hs_hybrid s)) \<le> hy_max_recorded (hs_hybrid s) \<and>
     length (hs_ids s) = length (hs_calls s) \<and> (\<forall>x \<in> set (hs_log s). fst x < length (hs_calls s)) \<and>
     (\<forall>i < length (hs_calls s). call_ok (notes_of i (hs_log s)) (hs_ids s ! i) (hs_calls s ! i)) \<and>
     credits (hs_hybrid s) \<subseteq> credited (hs_ids s) (hs_log s)"

text \<open>The steps of a run whose adapters answer so.\<close>

fun plain_event :: "hybrid_system \<Rightarrow> hybrid_event \<Rightarrow> bool" where
  "plain_event s (HAnswer i ticks serves ans fm) =
     (if length (hs_calls s) \<le> i then True
      else case hs_calls s ! i of Inl _ \<Rightarrow> True | Inr hf \<Rightarrow> plain_answer (endpoint_id_for_adapter (fl_route (hf_inner hf))) ans fm)"
| "plain_event s _ = True"

definition plain_step :: "router_env \<Rightarrow> hybrid_system \<Rightarrow> hybrid_event \<Rightarrow> hybrid_system option" where
  "plain_step env s ev = (if plain_event s ev then hybrid_step env s ev else None)"

lemma view_books:
  assumes "books env (router_view s)" "hybrid_step env s ev = Some s'"
  shows "books env (router_view s')"
proof (cases ev)
  case (HArrive rd ticks serves stream legacy rid rq)
  obtain res ns H R where st: "hybrid_start env rd ticks serves stream legacy rid rq (hs_hybrid s) (hs_router s) = ((res, ns), H, R)" by (metis prod.collapse)
  have h: "hands_on env None (hs_router s) res R" by (rule start_hands_on [OF st])
  let ?v = "(router_view s)\<lparr>sy_calls := sy_calls (router_view s) @ [Inl Cancelled]\<rparr>" and ?n = "length (hs_calls s)"
  have "books env ?v" using assms(1) by (rule books_ended_call)
  then have "books env \<lparr>sy_router = R, sy_calls = (sy_calls ?v)[?n := inner_of res]\<rparr>"
    by (rule books_update) (use h in \<open>auto simp: router_view_def hands_on_def live_def nth_append inner_of_def split: sum.splits\<close>)
  moreover have "router_view s' = \<lparr>sy_router = R, sy_calls = (sy_calls ?v)[?n := inner_of res]\<rparr>"
    using assms(2) HArrive st by (auto simp: router_view_def list_update_append)
  ultimately show ?thesis by simp
next
  case (HAnswer i ticks serves ans fm)
  obtain hf res ns H R where a: "i < length (hs_calls s)" "hs_calls s ! i = Inr hf"
    "hybrid_resume env ticks serves hf ans fm (hs_hybrid s) (hs_router s) = Some ((res, ns), H, R)"
    "s' = s\<lparr>hs_router := R, hs_hybrid := H, hs_calls := (hs_calls s)[i := res], hs_log := hs_log s @ map (Pair i) ns\<rparr>"
    using assms(2) HAnswer by (auto split: if_splits sum.splits option.splits)
  have v: "i < length (sy_calls (router_view s))" "sy_calls (router_view s) ! i = Inr (hf_inner hf)" using a(1,2) by (simp_all add: router_view_def inner_of_def)
  note fl = books_call [OF assms(1) v]
  have h: "hands_on env (Some (hf_inner hf)) (hs_router s) res R" using resume_hands_on [OF a(3)] fl by (simp add: router_view_def)
  have "books env \<lparr>sy_router = R, sy_calls = (sy_calls (router_view s))[i := inner_of res]\<rparr>"
    by (rule books_update [OF assms(1) v(1)]) (use h v in \<open>auto simp: router_view_def hands_on_def live_def inner_of_def split: sum.splits\<close>)
  then show ?thesis by (simp add: a(4) router_view_def map_update)
next
  case (HAdmin ch)
  have "handed env None (hs_router s) None (admin_step (hs_router s) ch)" by (rule handed_quiet) (simp_all add: admin_quiet probe_of_def)
  then have "books env ((router_view s)\<lparr>sy_router := admin_step (hs_router s) ch\<rparr>)"
    by (intro books_quiet [OF assms(1)]) (simp_all add: router_view_def admin_quiet)
  then show ?thesis using assms(2) HAdmin by (auto simp: router_view_def)
next
  case (HPage e ck epoch gen delivered)
  let ?R = "(hs_router s)\<lparr>fr_registry := page_sent (fr_registry (hs_router s)) e ck epoch gen delivered\<rparr>"
  have "handed env None (hs_router s) None ?R" by (rule handed_quiet) (simp_all add: probe_quiet(5))
  then have "books env ((router_view s)\<lparr>sy_router := ?R\<rparr>)" by (intro books_quiet [OF assms(1)]) (simp_all add: router_view_def)
  then show ?thesis using assms(2) HPage by (auto simp: router_view_def)
qed (use assms in \<open>auto simp: router_view_def\<close>)

lemma credited_mono: "credited ids lg \<subseteq> credited (ids @ xs) (lg @ ys)"
  by (auto simp: credited_def noted_def nth_append)

lemma observation_quiet:
  "credits (snd (record_observation R obs H)) \<subseteq> credits H"
  "length (hy_decisions (snd (record_observation R obs H))) \<le> length (hy_decisions H)"
  "hy_max_recorded (snd (record_observation R obs H)) = hy_max_recorded H" "hy_per_endpoint (snd (record_observation R obs H)) = hy_per_endpoint H"
proof -
  have del: "snd (record_observation R obs H) = H \<or> snd (record_observation R obs H) = H\<lparr>hy_decisions := dict_del (the (ob_request_id obs)) (hy_decisions H)\<rparr>"
    by (auto simp: record_observation_def resolve_feedback_backend_def release_decision_of_def split: option.splits list.splits)
  show "credits (snd (record_observation R obs H)) \<subseteq> credits H"
    using del dict_del_entries [of "the (ob_request_id obs)" "hy_decisions H"] by (auto simp: credits_def)
  have "length (dict_del k d) \<le> length d" for k and d :: "(string, feedback_dispatch) dict" by (induction d) auto
  then show "length (hy_decisions (snd (record_observation R obs H))) \<le> length (hy_decisions H)"
    "hy_max_recorded (snd (record_observation R obs H)) = hy_max_recorded H" "hy_per_endpoint (snd (record_observation R obs H)) = hy_per_endpoint H"
    using del by auto
qed

lemma hybrid_ok_quiet:
  assumes "hybrid_ok s" "hs_calls s' = hs_calls s" "hs_ids s' = hs_ids s" "hs_log s' = hs_log s" "credits (hs_hybrid s') \<subseteq> credits (hs_hybrid s)"
    "length (hy_decisions (hs_hybrid s')) \<le> length (hy_decisions (hs_hybrid s))" "hy_max_recorded (hs_hybrid s') = hy_max_recorded (hs_hybrid s)"
    "hy_per_endpoint (hs_hybrid s') = hy_per_endpoint (hs_hybrid s)"
  shows "hybrid_ok s'"
  using assms(1) subset_trans [OF assms(5)] le_trans [OF assms(6)] unfolding hybrid_ok_def assms(2-4,7,8) by blast

lemma hybrid_ok_step:
  assumes "hybrid_ok s" "books env (router_view s)" "hybrid_step env s ev = Some s'" "plain_event s ev"
  shows "hybrid_ok s'"
proof (cases ev)
  case (HArrive rd ticks serves stream legacy rid rq)
  obtain res ns H R where st: "hybrid_start env rd ticks serves stream legacy rid rq (hs_hybrid s) (hs_router s) = ((res, ns), H, R)" by (metis prod.collapse)
  have s': "s' = \<lparr>hs_router = R, hs_hybrid = H, hs_calls = hs_calls s @ [res], hs_ids = hs_ids s @ [rid],
      hs_log = hs_log s @ map (Pair (length (hs_calls s))) ns\<rparr>" using assms(3) HArrive st by simp
  let ?n = "length (hs_calls s)"
  have pe: "hy_per_endpoint (hs_hybrid s)" and len: "length (hs_ids s) = ?n" and lg: "\<forall>x \<in> set (hs_log s). fst x < ?n"
    using assms(1) by (simp_all add: hybrid_ok_def)
  note f = start_fed [OF st pe]
  have call: "call_ok ns rid res" using start_course [OF st pe] f(2) by (auto simp: call_ok_def split: sum.splits)
  have "call_ok (notes_of i (hs_log s')) (hs_ids s' ! i) (hs_calls s' ! i)" if "i < Suc ?n" for i
    using that assms(1) call len notes_of_new [OF lg] by (cases "i = ?n") (auto simp: s' hybrid_ok_def nth_append)
  moreover have "credits H \<subseteq> credited (hs_ids s') (hs_log s')"
  proof -
    have "{(r, e, b) | r e b. rid = Some r \<and> e \<in> noted ns b} \<subseteq> credited (hs_ids s') (hs_log s')"
      using len notes_of_new [OF lg] by (auto simp: credited_def s' nth_append intro!: exI [of _ ?n])
    moreover have "credits (hs_hybrid s) \<subseteq> credited (hs_ids s') (hs_log s')"
      using assms(1) credited_mono [of "hs_ids s" "hs_log s"] unfolding s' hybrid_ok_def hybrid_system.simps by blast
    ultimately show ?thesis using f(1) unfolding fed_def by blast
  qed
  ultimately show ?thesis using assms(1) f(1) lg len unfolding hybrid_ok_def fed_def by (auto simp: s')
next
  case (HAnswer i ticks serves ans fm)
  obtain hf res ns H R where a: "i < length (hs_calls s)" "hs_calls s ! i = Inr hf"
    "hybrid_resume env ticks serves hf ans fm (hs_hybrid s) (hs_router s) = Some ((res, ns), H, R)"
    "s' = s\<lparr>hs_router := R, hs_hybrid := H, hs_calls := (hs_calls s)[i := res], hs_log := hs_log s @ map (Pair i) ns\<rparr>"
    using assms(3) HAnswer by (auto split: if_splits sum.splits option.splits)
  have len: "length (hs_ids s) = length (hs_calls s)" using assms(1) by (simp add: hybrid_ok_def)
  have co: "call_ok (notes_of i (hs_log s)) (hs_ids s ! i) (Inr hf)" using assms(1) a(1,2) by (auto simp: hybrid_ok_def dest: spec [of _ i])
  then have c: "course_ok (notes_of i (hs_log s)) (Inr hf)" "hc_request_id (hf_call hf) = hs_ids s ! i" 
    "\<forall>f \<in> set (hf_held hf). plain_frame (endpoint_id_for_adapter (fl_route (hf_inner hf))) f"
    by (simp_all add: call_ok_def)
  have v: "i < length (sy_calls (router_view s))" "sy_calls (router_view s) ! i = Inr (hf_inner hf)" using a(1,2) by (simp_all add: router_view_def inner_of_def)
  note ok = books_call(1) [OF assms(2) v]
  have pl: "plain_answer (endpoint_id_for_adapter (fl_route (hf_inner hf))) ans fm" using assms(4) HAnswer a(1,2) by simp
  then have failed: "\<And>err. ans = Failed err \<Longrightarrow> re_routing err = None" by (simp add: plain_answer_def)
  note f = resume_fed [OF a(3) c(1) ok pl c(3)]
  have call: "call_ok (notes_of i (hs_log s) @ ns) (hs_ids s ! i) res"
    using resume_course [OF a(3) c(1) ok failed] f(2) c(2) by (auto simp: call_ok_def split: sum.splits)
  have "call_ok (notes_of j (hs_log s')) (hs_ids s' ! j) (hs_calls s' ! j)" if "j < length (hs_calls s)" for j
    using that assms(1) call a(1) by (cases "j = i") (auto simp: a(4) hybrid_ok_def)
  moreover have "credits H \<subseteq> credited (hs_ids s') (hs_log s')"
  proof -
    have "{(r, e, b) | r e b. hs_ids s ! i = Some r \<and> e \<in> noted (notes_of i (hs_log s) @ ns) b} \<subseteq> credited (hs_ids s') (hs_log s')"
      using a(1) len by (auto simp: credited_def a(4))
    moreover have "credits (hs_hybrid s) \<subseteq> credited (hs_ids s') (hs_log s')"
      using assms(1) credited_mono [of "hs_ids s" "hs_log s" "[]" "map (Pair i) ns"] unfolding a(4) hybrid_ok_def by auto
    ultimately show ?thesis using f(1) unfolding fed_def c(2) by blast
  qed
  ultimately show ?thesis using assms(1) f(1) a(1) unfolding hybrid_ok_def fed_def by (auto simp: a(4))
next
  case (HObserve obs)
  show ?thesis by (rule hybrid_ok_quiet [OF assms(1)]) (use assms(3) HObserve in \<open>auto simp: observation_quiet intro: subsetD [OF observation_quiet(1)]\<close>)
next
  case (HStart ans)
  obtain act st bs where "start_backends ans (hy_backends (hs_hybrid s)) (hy_started (hs_hybrid s)) = ((act, st), bs)" by (metis prod.collapse)
  then have "s' = s\<lparr>hs_hybrid := (hs_hybrid s)\<lparr>hy_backends := bs, hy_started := st\<rparr>\<rparr>" using assms(3) HStart by (simp add: hybrid_start_all_def)
  then show ?thesis by (intro hybrid_ok_quiet [OF assms(1)]) (simp_all add: credits_def)
qed (use assms(3) in \<open>auto simp: hybrid_refresh_def hybrid_stop_all_def credits_def intro!: hybrid_ok_quiet [OF assms(1)]\<close>)

interpretation hybrid_run: kept_by_relation "\<lambda>s ev s'. plain_step env s ev = Some s'" "\<lambda>s. books env (router_view s) \<and> hybrid_ok s" for env
  by unfold_locales (use view_books hybrid_ok_step in \<open>auto simp: plain_step_def split: if_splits\<close>)

lemma hybrid_reach:
  assumes "idle_router env R" "HybridRouter_init pol True local_be cloud_be n = Some H" "steps (plain_step env) (hybrid_init H R) es = Some s"
  shows "books env (router_view s)" "hybrid_ok s"
proof -
  have "books env (router_view (hybrid_init H R))" using books_init [OF assms(1)] by (simp add: router_view_def hybrid_init_def system_init_def)
  moreover have "hybrid_ok (hybrid_init H R)"
    using assms(2) by (auto simp: hybrid_ok_def hybrid_init_def HybridRouter_init_def credits_def split: if_splits)
  ultimately show "books env (router_view s)" "hybrid_ok s"
    using hybrid_run.reach_keeps [OF steps_reach [OF assms(3)]] by blast+
qed

lemma hybrid_course:
  assumes "idle_router env R" "HybridRouter_init pol True local_be cloud_be n = Some H" "steps (plain_step env) (hybrid_init H R) es = Some s" "i < length (hs_calls s)"
  shows "course_ok (notes_of i (hs_log s)) (hs_calls s ! i)"
  using hybrid_reach(2) [OF assms(1-3)] assms(4) by (simp add: hybrid_ok_def call_ok_def)

lemma view_call:
  "(\<exists>i fl. i < length (sy_calls (router_view s)) \<and> sy_calls (router_view s) ! i = Inr fl \<and> P fl) \<longleftrightarrow>
     (\<exists>i hf. i < length (hs_calls s) \<and> hs_calls s ! i = Inr hf \<and> P (hf_inner hf))"
proof -
  have inner: "(\<exists>fl. inner_of c = Inr fl \<and> P fl) \<longleftrightarrow> (\<exists>hf. c = Inr hf \<and> P (hf_inner hf))" for c
    by (cases c) (simp_all add: inner_of_def)
  have "(\<exists>i fl. i < length (sy_calls (router_view s)) \<and> sy_calls (router_view s) ! i = Inr fl \<and> P fl) \<longleftrightarrow>
      (\<exists>i < length (hs_calls s). \<exists>fl. inner_of (hs_calls s ! i) = Inr fl \<and> P fl)" by (auto simp: router_view_def)
  then show ?thesis unfolding inner by blast
qed

lemma committed_failure:
  assumes "hf_committed hf" "lone (hf_inner hf)" "flight_ok (hf_inner hf)"
    "hybrid_resume env ticks serves hf (Failed err) fm H R = Some ((res, ns), H', R')"
  shows "\<exists>f rb. res = Inl (HFailed f rb) \<and> dispatches ns = []"
proof -
  obtain r R1 where r: "resume env (ticks 0) (serves 0) (hf_inner hf) (Failed err) R = Some (r, R1)"
    using assms(4) by (auto simp: hybrid_resume_def split: option.splits)
  note lr = resume_lone [OF r assms(3,2)]
  obtain e rb where raised: "r = Inl (Raised e rb)"
    using r assms(2) by (auto simp: resume_def Let_def attempt_failed_def fail_primary_def finish_def reraise_def lone_def split: if_splits)
  have "frames_out hf (Failed err) fm r = ([], [])" by (simp add: frames_out_def raised)
  then show ?thesis
    using assms(1,4) unfolding hybrid_resume_def r option.case case_prod_conv Let_def
    by (auto simp: raised attempt_over_def failed_attempt_over_def Let_def)
qed

section \<open>An example\<close>

text \<open>A stream that is planned for the cloud, fails there before anything was seen, and goes on locally.\<close>

definition demo_backend :: "bool \<Rightarrow> string \<Rightarrow> string \<Rightarrow> backend" where
  "demo_backend cloud name e = \<lparr>be_name = name, be_pool_id = name, be_cloud = cloud, be_scope_spec = (\<lambda>_. Some [e]),
     be_observation = \<lparr>os_endpoints = Some [e], os_providers = []\<rparr>, be_model_scope = Some [''m''], be_manage_lifecycle = False, be_started = False\<rparr>"

definition demo_hybrid :: hybrid_router where
  "demo_hybrid = \<lparr>hy_policy = \<lparr>fp_local_backend = ''local'', fp_cloud_backend = ''cloud'', fp_local_scope = (\<lambda>_. [''a'']), fp_cloud_scope = (\<lambda>_. Some [''b''])\<rparr>,
     hy_per_endpoint = True, hy_backends = [(''local'', demo_backend False ''local'' ''a''), (''cloud'', demo_backend True ''cloud'' ''b'')],
     hy_max_recorded = 4, hy_decisions = [], hy_started = []\<rparr>"

definition demo_reads :: policy_reads where
  "demo_reads = \<lparr>pr_draw = demo_tick, pr_clock = (\<lambda>_. demo_clock 1), pr_resolve = (\<lambda>_. demo_ticks)\<rparr>"

definition demo_chunk :: frame where
  "demo_chunk = Text True False False (Some (Object None True False))"

definition demo_answer :: "answer \<Rightarrow> hybrid_event" where
  "demo_answer ans = HAnswer 0 (\<lambda>_. demo_ticks) (\<lambda>_. True) ans demo_chunk"

definition demo_hybrid_run :: "hybrid_event list" where
  "demo_hybrid_run = [HArrive demo_reads (\<lambda>_. demo_ticks) (\<lambda>_. True) True LegacyUnset (Some ''r'') demo_request, demo_answer Pull,
     demo_answer (Failed (demo_error Other_exn (Some 503))), demo_answer Pull]"

definition demo_hybrid_state :: hybrid_system where
  "demo_hybrid_state = the (steps (plain_step demo_env) (hybrid_init demo_hybrid demo_router) demo_hybrid_run)"

text \<open>A stream whose client has seen a chunk, and its failure after that.\<close>

definition demo_seen_run :: "hybrid_event list" where
  "demo_seen_run = take 2 demo_hybrid_run @ [demo_answer (Chunk False 1)]"

definition demo_seen_state :: hybrid_system where
  "demo_seen_state = the (steps (plain_step demo_env) (hybrid_init demo_hybrid demo_router) demo_seen_run)"

definition demo_broken :: hybrid_event where
  "demo_broken = demo_answer (Failed (demo_error Other_exn (Some 503)))"

lemma demo_hybrid_built:
  "HybridRouter_init (hy_policy demo_hybrid) True (demo_backend False ''local'' ''a'') (demo_backend True ''cloud'' ''b'') 4 = Some demo_hybrid"
  by (simp add: HybridRouter_init_def demo_hybrid_def demo_backend_def)

lemma demo_hybrid_runs:
  "steps (plain_step demo_env) (hybrid_init demo_hybrid demo_router) demo_hybrid_run = Some demo_hybrid_state"
  "steps (plain_step demo_env) (hybrid_init demo_hybrid demo_router) demo_seen_run = Some demo_seen_state"
proof -
  have "\<not> Option.is_none (steps (plain_step demo_env) (hybrid_init demo_hybrid demo_router) demo_hybrid_run)" by code_simp
  then show "steps (plain_step demo_env) (hybrid_init demo_hybrid demo_router) demo_hybrid_run = Some demo_hybrid_state"
    by (cases "steps (plain_step demo_env) (hybrid_init demo_hybrid demo_router) demo_hybrid_run") (simp_all add: demo_hybrid_state_def)
  have "\<not> Option.is_none (steps (plain_step demo_env) (hybrid_init demo_hybrid demo_router) demo_seen_run)" by code_simp
  then show "steps (plain_step demo_env) (hybrid_init demo_hybrid demo_router) demo_seen_run = Some demo_seen_state"
    by (cases "steps (plain_step demo_env) (hybrid_init demo_hybrid demo_router) demo_seen_run") (simp_all add: demo_seen_state_def)
qed

lemma demo_hybrid_log:
  "dispatches (notes_of 0 (hs_log demo_hybrid_state)) = [(''cloud'', ''b''), (''local'', ''a'')]"
  "length (hs_calls demo_hybrid_state) = 1" "hy_decisions (hs_hybrid demo_hybrid_state) \<noteq> []"
  "dispatches (notes_of 0 (hs_log demo_seen_state)) = [(''cloud'', ''b'')]" "shown (notes_of 0 (hs_log demo_seen_state)) = [(''cloud'', ''b'')]"
  "length (hs_calls demo_seen_state) = 1" "\<not> isl (hs_calls demo_seen_state ! 0)"
  by code_simp+

section \<open>The claims\<close>

text \<open>C18. A request never asks an endpoint twice, and keeps to its plan. In any run of requests, table changes,
  refreshes, lifecycle calls and feedback in which no adapter names a foreign endpoint in its own
  metadata, the endpoints one request was dispatched to are all
  different, across the backends; while the request is under way, the endpoints it was dispatched to
  after the first, followed by those still to be tried, are in the order of the plan it was given at
  the start.\<close>

theorem hybrid_dispatches_once:
  assumes "idle_router env R" "HybridRouter_init pol True local_be cloud_be n = Some H" "steps (plain_step env) (hybrid_init H R) es = Some s" "i < length (hs_calls s)"
  shows "distinct (map snd (dispatches (notes_of i (hs_log s)))) \<and>
    (\<forall>hf. hs_calls s ! i = Inr hf \<longrightarrow>
       subseq (map snd (tl (dispatches (notes_of i (hs_log s)))) @ endpoints_of (hf_rest hf)) (endpoints_of (tl (hc_plan (hf_call hf)))))"
  using hybrid_course [OF assms] by (auto simp: course_ok_def)

theorem hybrid_dispatches_once_witness:
  "distinct (map snd (dispatches (notes_of 0 (hs_log demo_hybrid_state)))) \<and> length (dispatches (notes_of 0 (hs_log demo_hybrid_state))) = 2"
  using hybrid_dispatches_once [OF demo_idle demo_hybrid_built demo_hybrid_runs(1), of 0] by (simp add: demo_hybrid_log)

text \<open>C19. The client sees one answer. In any run, every frame the client of a request could see came from the
  last endpoint the request was dispatched to, so that two endpoints never mix into one answer; and
  once the client has seen something, a failure of that endpoint ends the request with the failure and
  dispatches nothing more.\<close>

theorem hybrid_one_answer:
  assumes "idle_router env R" "HybridRouter_init pol True local_be cloud_be n = Some H" "steps (plain_step env) (hybrid_init H R) es = Some s" "i < length (hs_calls s)"
  shows "(\<forall>x \<in> set (shown (notes_of i (hs_log s))). dispatches (notes_of i (hs_log s)) \<noteq> [] \<and> x = last (dispatches (notes_of i (hs_log s)))) \<and>
    (shown (notes_of i (hs_log s)) \<noteq> [] \<and> hybrid_step env s (HAnswer i ticks serves (Failed err) fm) = Some s' \<longrightarrow>
       (\<exists>f rb. hs_calls s' ! i = Inl (HFailed f rb)) \<and> dispatches (notes_of i (hs_log s')) = dispatches (notes_of i (hs_log s)))"
proof -
  note c = hybrid_course [OF assms] and b = hybrid_reach(1) [OF assms(1-3)]
  have "(\<exists>f rb. hs_calls s' ! i = Inl (HFailed f rb)) \<and> dispatches (notes_of i (hs_log s')) = dispatches (notes_of i (hs_log s))"
    if seen: "shown (notes_of i (hs_log s)) \<noteq> []" and st: "hybrid_step env s (HAnswer i ticks serves (Failed err) fm) = Some s'"
  proof -
    obtain hf res ns H1 R1 where a: "hs_calls s ! i = Inr hf"
      "hybrid_resume env ticks serves hf (Failed err) fm (hs_hybrid s) (hs_router s) = Some ((res, ns), H1, R1)"
      "s' = s\<lparr>hs_router := R1, hs_hybrid := H1, hs_calls := (hs_calls s)[i := res], hs_log := hs_log s @ map (Pair i) ns\<rparr>"
      using st by (auto split: if_splits sum.splits option.splits)
    have "i < length (sy_calls (router_view s))" "sy_calls (router_view s) ! i = Inr (hf_inner hf)"
      using a(1) assms(4) by (simp_all add: router_view_def inner_of_def)
    from books_call(1) [OF b this] have "flight_ok (hf_inner hf)" .
    moreover have "hf_committed hf" "lone (hf_inner hf)" using c a(1) seen by (simp_all add: course_ok_def)
    ultimately show ?thesis using committed_failure [OF _ _ _ a(2)] assms(4) by (auto simp: a(3))
  qed
  then show ?thesis using c unfolding course_ok_def by blast
qed

theorem hybrid_one_answer_witness:
  "shown (notes_of 0 (hs_log demo_seen_state)) = [(''cloud'', ''b'')] \<and>
   (\<exists>s' f rb. hybrid_step demo_env demo_seen_state demo_broken = Some s' \<and> hs_calls s' ! 0 = Inl (HFailed f rb))"
proof -
  have "\<not> Option.is_none (hybrid_step demo_env demo_seen_state demo_broken)" by code_simp
  then obtain s' where s': "hybrid_step demo_env demo_seen_state demo_broken = Some s'"
    by (cases "hybrid_step demo_env demo_seen_state demo_broken") simp_all
  then show ?thesis
    using hybrid_one_answer [OF demo_idle demo_hybrid_built demo_hybrid_runs(2), of 0] by (auto simp: demo_hybrid_log demo_broken_def demo_answer_def)
qed

text \<open>Several attempts in two backends still leak nothing of the shared router. In any run a prompt is
  charged to an endpoint exactly while some request holds that charge in the attempt it waits for and
  that attempt has produced nothing yet; a half-open circuit that is being probed is probed by the
  attempt of some request; and once every request has ended, no endpoint has a backlog or a large
  prompt under way and no circuit is held.\<close>

lemma hybrid_nothing_leaks:
  assumes "idle_router env R" "HybridRouter_init pol True local_be cloud_be n = Some H" "steps (plain_step env) (hybrid_init H R) es = Some s"
  shows "(lease_open (hs_router s) l \<longleftrightarrow>
       (\<exists>i hf. i < length (hs_calls s) \<and> hs_calls s ! i = Inr hf \<and> fl_lease (hf_inner hf) = Some l \<and> fl_first (hf_inner hf))) \<and>
    (probe_of env (hs_router s) e = Some tok \<longrightarrow>
       (\<exists>i hf. i < length (hs_calls s) \<and> hs_calls s ! i = Inr hf \<and>
          (fl_primary_claim (hf_inner hf) = Some \<lparr>dc_endpoint_id = e, dc_probe_token = Some tok\<rparr> \<or>
           fl_claim (hf_inner hf) = Some \<lparr>dc_endpoint_id = e, dc_probe_token = Some tok\<rparr>))) \<and>
    (list_all isl (hs_calls s) \<longrightarrow>
       backlog (fr_prefill (hs_router s)) e = 0 \<and> elephants (fr_prefill (hs_router s)) e = 0 \<and> probe_of env (hs_router s) e = None)"
proof -
  note b = hybrid_reach(1) [OF assms]
  have ended: "list_all isl (sy_calls (router_view s))" if "list_all isl (hs_calls s)"
    using that by (auto simp: router_view_def list_all_iff inner_of_def split: sum.splits)
  show ?thesis
    using books_leases [OF b, of l] books_probe [OF b, of e tok] books_all_ended [OF b, of e] ended
    unfolding view_call by (simp add: router_view_def)
qed

text \<open>C22. Feedback goes to the backend that ran the request. In any run the records of dispatches never
  outgrow their limit, and a record credits a backend with an endpoint of a request only if that
  backend dispatched the endpoint for a request of that id, or was about to when the attempt was turned
  down before anything was sent. A terminal observation of a recorded request on such an endpoint is
  handed to that backend.\<close>

theorem feedback_books:
  assumes "idle_router env R" "HybridRouter_init pol True local_be cloud_be n = Some H" "steps (plain_step env) (hybrid_init H R) es = Some s"
  shows "length (hy_decisions (hs_hybrid s)) \<le> hy_max_recorded (hs_hybrid s) \<and>
    (\<forall>rid rec e b. dict_get (hy_decisions (hs_hybrid s)) rid = Some rec \<and> dict_get (fd_endpoints rec) e = Some b \<longrightarrow>
       (\<exists>i < length (hs_calls s). hs_ids s ! i = Some rid \<and>
          (Dispatched b e \<in> set (notes_of i (hs_log s)) \<or> Rejected b e \<in> set (notes_of i (hs_log s)))) \<and>
       (hybrid_canonical_id (hs_hybrid s) (hs_router s) m = fd_model_id rec \<longrightarrow>
          fst (record_observation (hs_router s) \<lparr>ob_model_id = m, ob_endpoint_id = e, ob_request_id = Some rid, ob_terminal = True\<rparr> (hs_hybrid s)) = Some b))"
proof -
  have ok: "length (hy_decisions (hs_hybrid s)) \<le> hy_max_recorded (hs_hybrid s)" "length (hs_ids s) = length (hs_calls s)"
    "credits (hs_hybrid s) \<subseteq> credited (hs_ids s) (hs_log s)" using hybrid_reach(2) [OF assms] by (simp_all add: hybrid_ok_def)
  have "\<exists>i < length (hs_calls s). hs_ids s ! i = Some rid \<and> (Dispatched b e \<in> set (notes_of i (hs_log s)) \<or> Rejected b e \<in> set (notes_of i (hs_log s)))"
    if "dict_get (hy_decisions (hs_hybrid s)) rid = Some rec" "dict_get (fd_endpoints rec) e = Some b" for rid rec e b
  proof -
    have "(rid, e, b) \<in> credits (hs_hybrid s)" using that by (auto simp: credits_def dest: map_of_SomeD)
    then show ?thesis using ok(2,3) by (auto simp: credited_def noted_def)
  qed
  then show ?thesis using ok(1) by (simp add: record_observation_def resolve_feedback_backend_def)
qed

theorem feedback_books_witness:
  "\<exists>i < length (hs_calls demo_hybrid_state). hs_ids demo_hybrid_state ! i = Some ''r'' \<and>
     (Dispatched ''cloud'' ''b'' \<in> set (notes_of i (hs_log demo_hybrid_state)) \<or> Rejected ''cloud'' ''b'' \<in> set (notes_of i (hs_log demo_hybrid_state)))"
proof -
  let ?H = "hs_hybrid demo_hybrid_state"
  have "\<not> Option.is_none (dict_get (hy_decisions ?H) ''r'')" "dict_get (fd_endpoints (the (dict_get (hy_decisions ?H) ''r''))) ''b'' = Some ''cloud''" by code_simp+
  then obtain rec where "dict_get (hy_decisions ?H) ''r'' = Some rec" "dict_get (fd_endpoints rec) ''b'' = Some ''cloud''"
    by (cases "dict_get (hy_decisions ?H) ''r''") simp_all
  then show ?thesis using feedback_books [OF demo_idle demo_hybrid_built demo_hybrid_runs(1)] by blast
qed

section \<open>Where the comments promise more\<close>

definition demo_observation :: observation where
  "demo_observation = \<lparr>ob_model_id = ''m'', ob_endpoint_id = ''b'', ob_request_id = Some ''r'', ob_terminal = True\<rparr>"

text \<open>A terminal observation releases the record of its request, and its duplicate is handed to the same backend
  once more, through the endpoint alone.\<close>

lemma duplicate_counted_twice:
  "(case record_observation demo_router demo_observation (hs_hybrid demo_hybrid_state) of
      (b, H) \<Rightarrow> (b, fst (record_observation demo_router demo_observation H))) = (Some ''cloud'', Some ''cloud'')"
  by code_simp

text \<open>Asking where a request would go pins its session.\<close>

lemma asking_pins:
  "fr_affinity demo_router = []" "fr_affinity (snd (select_backend demo_env demo_reads (hy_policy demo_hybrid) demo_request demo_router)) \<noteq> []"
  by code_simp+

end
