(* ===== verification/Sliding_Window.thy ===== *)
theory Sliding_Window
  imports Prelude
begin

text \<open>
  The \<open>dict\<close> of \<open>deque\<close>s of times behind the limiters of \<open>serving/utils\<close>: \<open>_window\<close> and
  \<open>_sweep_inactive\<close>, which \<open>login_rate_limit.py\<close> and \<open>mail_rate_limit.py\<close> declare in the same words and
  \<open>signup_rate_limit.py\<close> and \<open>auth_failure_blocklist.py\<close> write in line. Both only forget times before a
  cutoff, and the cutoff moves with the clock, so a store with forgetting answers like the complete
  history. The locale \<open>follows_history\<close> lifts that from one call to runs.
\<close>

section \<open>The store\<close>

type_synonym 'k windows = "('k, time list) dict"

definition SWEEP_EVERY :: nat where "SWEEP_EVERY = 1024"

definition popleft_before :: "time \<Rightarrow> time list \<Rightarrow> time list" where
  "popleft_before cutoff bucket = dropWhile (\<lambda>t. t < cutoff) bucket"

definition sweep_inactive :: "'k windows \<Rightarrow> time \<Rightarrow> 'k windows" where
  "sweep_inactive buckets cutoff = filter (\<lambda>(k, b). b \<noteq> []) (map (\<lambda>(k, b). (k, popleft_before cutoff b)) buckets)"

definition window_of :: "'k windows \<Rightarrow> 'k \<Rightarrow> time \<Rightarrow> 'k windows" where
  "window_of buckets key cutoff = dict_set key (popleft_before cutoff (dict_get_or buckets key [])) buckets"

definition append_time :: "'k windows \<Rightarrow> 'k \<Rightarrow> time \<Rightarrow> 'k windows" where
  "append_time buckets key now = dict_set key (dict_get_or buckets key [] @ [now]) buckets"

text \<open>The counter that triggers a sweep.\<close>

definition sweep_due :: "nat \<Rightarrow> bool \<times> nat" where
  "sweep_due counter = (if SWEEP_EVERY \<le> counter + 1 then (True, 0) else (False, counter + 1))"

text \<open>\<open>sum(1 for t in bucket if t >= cutoff)\<close>.\<close>

definition since :: "time \<Rightarrow> time list \<Rightarrow> int" where
  "since cutoff ts = int (length (filter (\<lambda>t. cutoff \<le> t) ts))"

section \<open>A store and its history\<close>

text \<open>From a cutoff on, the store cannot be told from the complete history of every key.\<close>

definition tracks :: "'k windows \<Rightarrow> ('k \<Rightarrow> time list) \<Rightarrow> time \<Rightarrow> bool" where
  "tracks d H c0 \<longleftrightarrow> dict_wf d \<and> (\<forall>k c. c0 \<le> c \<longrightarrow> popleft_before c (dict_get_or d k []) = popleft_before c (H k))"

lemma popleft_twice: "c \<le> c' \<Longrightarrow> popleft_before c' (popleft_before c xs) = popleft_before c' xs"
  by (induction xs) (auto simp: popleft_before_def)

lemma popleft_append:
  "popleft_before c xs = popleft_before c ys \<Longrightarrow> popleft_before c (xs @ zs) = popleft_before c (ys @ zs)"
  unfolding popleft_before_def dropWhile_append dropWhile_eq_Nil_conv [symmetric] by simp

lemma tracks_init [simp]: "tracks [] (\<lambda>_. []) c"
  by (simp add: tracks_def dict_get_or_def)

lemma tracks_later: "tracks d H c \<Longrightarrow> c \<le> c' \<Longrightarrow> tracks d H c'"
  by (simp add: tracks_def)

lemma tracks_cong:
  "tracks d H c \<Longrightarrow> dict_wf d' \<Longrightarrow> (\<And>k. dict_get_or d' k [] = dict_get_or d k []) \<Longrightarrow> tracks d' H c"
  by (simp add: tracks_def)

lemma tracks_window:
  assumes "tracks d H c" "c \<le> c'"
  shows "tracks (window_of d k c') H c'" "dict_get_or (window_of d k c') k [] = popleft_before c' (H k)"
  using assms by (auto simp: tracks_def window_of_def dict_get_or_def popleft_twice)

lemma tracks_append: "tracks d H c \<Longrightarrow> tracks (append_time d k t) (H(k := H k @ [t])) c"
  by (auto simp: tracks_def append_time_def dict_get_or_def intro: popleft_append)

lemma sweep_get:
  assumes "dict_wf d"
  shows "dict_get_or (sweep_inactive d c) k [] = popleft_before c (dict_get_or d k [])" "dict_wf (sweep_inactive d c)"
proof -
  have m: "map_of (map (\<lambda>(k, b). (k, f b)) d) k = map_option f (map_of d k)" for f :: "time list \<Rightarrow> time list"
    by (induction d) auto
  have fst: "map fst (map (\<lambda>(k, b). (k, popleft_before c b)) d) = map fst d" by (induction d) auto
  then have wf: "dict_wf (map (\<lambda>(k, b). (k, popleft_before c b)) d)" using assms by (simp only:)
  then show "dict_wf (sweep_inactive d c)" unfolding sweep_inactive_def by (rule dict_wf_filter)
  show "dict_get_or (sweep_inactive d c) k [] = popleft_before c (dict_get_or d k [])"
    unfolding sweep_inactive_def dict_get_or_def dict_get_filter [OF wf] m by (cases "map_of d k") (auto simp: popleft_before_def eq_commute [of "[]"])
qed

lemma tracks_sweep: "tracks d H c \<Longrightarrow> c \<le> c' \<Longrightarrow> tracks (sweep_inactive d c') H c'"
  using sweep_get [of d c'] by (auto simp: tracks_def popleft_twice)

lemma tracks_sweep_if:
  "tracks d H c \<Longrightarrow> c \<le> c' \<Longrightarrow> tracks (if b then sweep_inactive d c' else d) H c'"
  by (simp add: tracks_sweep tracks_later)

text \<open>In a history in the order of time, what is left of a key is what happened since the cutoff.\<close>

lemma popleft_count:
  "sorted (map tm h) \<Longrightarrow> length (popleft_before c (map tm (filter P h))) = length (filter (\<lambda>r. P r \<and> c \<le> tm r) h)"
proof (induction h)
  case (Cons r h)
  then show ?case
  proof (cases "tm r < c")
    case False
    then have later: "c \<le> tm x" if "x \<in> set h" for x using Cons.prems that by force
    have keep: "popleft_before c xs = xs" if "\<And>x. x \<in> set xs \<Longrightarrow> c \<le> x" for xs
      using that by (cases xs) (auto simp: popleft_before_def not_less)
    have "popleft_before c (map tm (filter P h)) = map tm (filter P h)" by (rule keep) (use later in auto)
    moreover have "filter (\<lambda>r. P r \<and> c \<le> tm r) h = filter P h" using later by (auto intro!: filter_cong)
    ultimately
    show ?thesis using Cons False by (auto simp: popleft_before_def not_less)
  qed (auto simp: popleft_before_def)
qed (simp add: popleft_before_def)

lemma since_popleft: "c' \<le> c \<Longrightarrow> since c (popleft_before c' xs) = since c xs"
  by (induction xs) (auto simp: since_def popleft_before_def)

lemma popleft_since: "sorted ts \<Longrightarrow> int (length (popleft_before c ts)) = since c ts"
  using popleft_count [of id ts c "\<lambda>_. True"] by (simp add: since_def)

lemma tracks_forget: "tracks d H c \<Longrightarrow> tracks (dict_del k d) (H(k := [])) c"
  by (simp add: tracks_def dict_get_or_def)

text \<open>A history of records with their moments: the moments of the records of one key, and how many of them
  are recent.\<close>

definition moments :: "('r \<Rightarrow> time) \<Rightarrow> ('r \<Rightarrow> bool) \<Rightarrow> 'r list \<Rightarrow> time list" where
  "moments tm P h = map tm (filter P h)"

definition recent :: "('r \<Rightarrow> time) \<Rightarrow> ('r \<Rightarrow> bool) \<Rightarrow> time \<Rightarrow> 'r list \<Rightarrow> int" where
  "recent tm P c h = int (length (filter (\<lambda>r. P r \<and> c \<le> tm r) h))"

abbreviation keeps :: "('r \<Rightarrow> time) \<Rightarrow> 'k windows \<Rightarrow> ('k \<Rightarrow> 'r \<Rightarrow> bool) \<Rightarrow> 'r list \<Rightarrow> time \<Rightarrow> bool" where
  "keeps tm d P h c \<equiv> tracks d (\<lambda>k. moments tm (P k) h) c"

lemma keeps_init [simp]: "keeps tm [] P [] c"
  by (simp add: moments_def)

lemma window_recent:
  assumes "keeps tm d P h c" "c \<le> c'" "sorted (map tm h)"
  shows "int (length (dict_get_or (window_of d k c') k [])) = recent tm (P k) c' h"
  using tracks_window(2) [OF assms(1,2)] popleft_count [OF assms(3)] by (simp add: moments_def recent_def)

lemma keeps_recorded:
  assumes "keeps tm d P h c" "c \<le> c'" "\<And>j. P j r \<longleftrightarrow> j = k"
  shows "keeps tm (append_time (window_of d k c') k (tm r)) P (h @ [r]) c'"
proof -
  have "(\<lambda>j. moments tm (P j) (h @ [r])) = (\<lambda>j. moments tm (P j) h)(k := moments tm (P k) h @ [tm r])"
    using assms(3) by (auto simp: moments_def)
  then show ?thesis using tracks_append [OF tracks_window(1) [OF assms(1,2)]] by simp
qed

lemma keeps_passed:
  assumes "keeps tm d P h c" "c \<le> c'" "\<And>j. \<not> P j r"
  shows "keeps tm d P (h @ [r]) c'" "keeps tm (window_of d k c') P (h @ [r]) c'"
proof -
  have "(\<lambda>j. moments tm (P j) (h @ [r])) = (\<lambda>j. moments tm (P j) h)" using assms(3) by (auto simp: moments_def)
  then show "keeps tm d P (h @ [r]) c'" "keeps tm (window_of d k c') P (h @ [r]) c'"
    using tracks_later [OF assms(1,2)] tracks_window(1) [OF assms(1,2)] by simp_all
qed

section \<open>Following a reference\<close>

text \<open>A run that collects the answers.\<close>

fun answers :: "('s \<Rightarrow> 'e \<Rightarrow> 'r \<times> 's) \<Rightarrow> 's \<Rightarrow> 'e list \<Rightarrow> 'r list" where
  "answers f s [] = []"
| "answers f s (e # es) = (case f s e of (r, t) \<Rightarrow> r # answers f t es)"

fun final :: "('s \<Rightarrow> 'e \<Rightarrow> 'r \<times> 's) \<Rightarrow> 's \<Rightarrow> 'e list \<Rightarrow> 's" where
  "final f s [] = s"
| "final f s (e # es) = final f (snd (f s e)) es"

lemma answers_snoc [simp]:
  "answers f s (es @ [e]) = answers f s es @ [fst (f (final f s es) e)]" "final f s (es @ [e]) = snd (f (final f s es) e)"
  "length (answers f s es) = length es"
  by (induction es arbitrary: s) (auto split: prod.split)

text \<open>An implementation that forgets, a reference that does not, and what relates them up to a moment:
  calls at later moments get the same answer.\<close>

locale follows_history =
  fixes impl :: "'s \<Rightarrow> 'e \<Rightarrow> 'r \<times> 's"
    and ref :: "'h \<Rightarrow> 'e \<Rightarrow> 'r \<times> 'h"
    and moment :: "'e \<Rightarrow> time"
    and related :: "'s \<Rightarrow> 'h \<Rightarrow> time \<Rightarrow> bool"
  assumes same_answer: "related s h t \<Longrightarrow> t \<le> moment e \<Longrightarrow> fst (impl s e) = fst (ref h e)"
    and stays_related: "related s h t \<Longrightarrow> t \<le> moment e \<Longrightarrow> related (snd (impl s e)) (snd (ref h e)) (moment e)"
begin

lemma same_answers:
  "related s h t \<Longrightarrow> sorted (t # map moment es) \<Longrightarrow> answers impl s es = answers ref h es"
proof (induction es arbitrary: s h t)
  case (Cons e es)
  then have e: "t \<le> moment e" "sorted (moment e # map moment es)" by simp_all
  from same_answer [OF Cons.prems(1) e(1)] Cons.IH [OF stays_related [OF Cons.prems(1) e(1)] e(2)] show ?case
    by (simp add: case_prod_beta)
qed simp

text \<open>A fresh limiter is related to the empty history at any moment.\<close>

lemma same_answers_fresh:
  assumes "\<And>t. related s h t" "sorted (map moment es)"
  shows "answers impl s es = answers ref h es"
proof (cases es)
  case (Cons e es')
  then show ?thesis using same_answers [OF assms(1), of "moment e" es] assms(2) by simp
qed simp

end

end
