(* ===== verification/Login_Limits.thy ===== *)
theory Login_Limits
  imports Sliding_Window
begin

text \<open>
  \<open>serving/utils/login_rate_limit.py\<close>, \<open>signup_rate_limit.py\<close> and \<open>mail_rate_limit.py\<close>: the limits on
  sign-in attempts, wrong setup codes, sign-ups and anonymous mail requests. Each critical section
  has no await and is one step. \<open>normalize_ip_bucket\<close> rests on the package \<open>ipaddress\<close> and is an
  argument here (\<open>bucket\<close>); settings are a record. A verdict is \<open>None\<close> for an attempt that may go ahead and
  names the window that refused it otherwise.
\<close>

section \<open>Sign-in\<close>

definition FIFTEEN_MIN_SECONDS :: time where "FIFTEEN_MIN_SECONDS = 15 * 60"
definition HOUR_SECONDS :: time where "HOUR_SECONDS = 3600"
definition DAY_SECONDS :: time where "DAY_SECONDS = 86400"
definition SETUP_ATTEMPTS_PER_15MIN :: nat where "SETUP_ATTEMPTS_PER_15MIN = 10"

record limit_settings =
  st_login_per_15min :: int
  st_login_account_per_15min :: int
  st_login_per_hour_per_ip :: int
  st_signup_per_hour :: int
  st_signup_per_day :: int
  st_signup_require_resolved :: bool
  st_unresolved_per_hour :: int
  st_unresolved_per_day :: int

record login_state =
  ls_device :: "string windows"
  ls_account_device :: "string windows"
  ls_account_address :: "(string \<times> string) windows"
  ls_account :: "string windows"
  ls_ip :: "string windows"
  ls_sweep_counter :: nat
  ls_setup :: "string windows"
  ls_setup_sweep_counter :: nat

definition login_init :: login_state where
  "login_init = \<lparr>ls_device = [], ls_account_device = [], ls_account_address = [], ls_account = [], ls_ip = [],
     ls_sweep_counter = 0, ls_setup = [], ls_setup_sweep_counter = 0\<rparr>"

definition identifier_key :: "string \<Rightarrow> string" where
  "identifier_key email = py_lower (py_strip email)"

definition bucket_length :: "'k windows \<Rightarrow> 'k \<Rightarrow> int" where
  "bucket_length d k = int (length (dict_get_or d k []))"

definition login_sweep :: "login_state \<Rightarrow> time \<Rightarrow> login_state" where
  "login_sweep s now =
     (case sweep_due (ls_sweep_counter s) of
        (due, n) \<Rightarrow>
          (let s1 = s\<lparr>ls_sweep_counter := n\<rparr>; c = now - FIFTEEN_MIN_SECONDS
           in if \<not> due then s1
              else s1\<lparr>ls_device := sweep_inactive (ls_device s1) c, ls_account_device := sweep_inactive (ls_account_device s1) c,
                     ls_account_address := sweep_inactive (ls_account_address s1) c, ls_account := sweep_inactive (ls_account s1) c,
                     ls_ip := sweep_inactive (ls_ip s1) (now - HOUR_SECONDS)\<rparr>))"

definition check_device_login :: "limit_settings \<Rightarrow> login_state \<Rightarrow> time \<Rightarrow> string \<Rightarrow> string \<Rightarrow> string option \<times> login_state" where
  "check_device_login st s now account device =
     (let c = now - FIFTEEN_MIN_SECONDS; dev = window_of (ls_device s) device c; n = bucket_length dev device;
          s1 = s\<lparr>ls_device := append_time dev device now\<rparr>
      in if st_login_per_15min st \<le> n then (Some ''device'', s1)
         else
           (let devs = window_of (ls_account_device s1) account c
            in if st_login_account_per_15min st \<le> bucket_length devs account then (Some ''devices'', s1\<lparr>ls_account_device := devs\<rparr>)
               else (None, s1\<lparr>ls_account_device := append_time devs account now\<rparr>)))"

definition check_address_login :: "limit_settings \<Rightarrow> login_state \<Rightarrow> time \<Rightarrow> string \<Rightarrow> string \<Rightarrow> string option \<times> login_state" where
  "check_address_login st s now account ip_key =
     (let c = now - FIFTEEN_MIN_SECONDS; addr = window_of (ls_account_address s) (account, ip_key) c;
          ips = window_of (ls_ip s) ip_key (now - HOUR_SECONDS);
          address_count = bucket_length addr (account, ip_key); ip_count = bucket_length ips ip_key;
          s1 = s\<lparr>ls_account_address := append_time addr (account, ip_key) now, ls_ip := append_time ips ip_key now\<rparr>
      in if st_login_per_hour_per_ip st \<le> ip_count then (Some ''ip'', s1)
         else if st_login_per_15min st \<le> address_count then (Some ''email'', s1)
         else
           (let accs = window_of (ls_account s1) account c
            in if st_login_account_per_15min st \<le> bucket_length accs account then (Some ''account'', s1\<lparr>ls_account := accs\<rparr>)
               else (None, s1\<lparr>ls_account := append_time accs account now\<rparr>)))"

definition check_and_record_login ::
  "limit_settings \<Rightarrow> (string \<Rightarrow> string) \<Rightarrow> login_state \<Rightarrow> time \<Rightarrow> string \<Rightarrow> string \<Rightarrow> string option \<Rightarrow> string option \<times> login_state" where
  "check_and_record_login st bucket s now email ip device =
     (let s1 = login_sweep s now; account = identifier_key email
      in case device of
           Some d \<Rightarrow> check_device_login st s1 now account d
         | None \<Rightarrow> check_address_login st s1 now account (bucket ip))"

definition record_failed_setup_attempt :: "(string \<Rightarrow> string) \<Rightarrow> login_state \<Rightarrow> time \<Rightarrow> string \<Rightarrow> bool \<times> login_state" where
  "record_failed_setup_attempt bucket s now ip =
     (let c = now - FIFTEEN_MIN_SECONDS; ip_key = bucket ip;
          (due, n) = sweep_due (ls_setup_sweep_counter s);
          d = window_of (if due then sweep_inactive (ls_setup s) c else ls_setup s) ip_key c;
          count = length (dict_get_or d ip_key [])
      in (count < SETUP_ATTEMPTS_PER_15MIN, s\<lparr>ls_setup_sweep_counter := n, ls_setup := append_time d ip_key now\<rparr>))"

datatype login_event =
    Login time string string "string option"
  | WrongSetupCode time string

fun login_moment :: "login_event \<Rightarrow> time" where
  "login_moment (Login now _ _ _) = now"
| "login_moment (WrongSetupCode now _) = now"

fun login_step :: "limit_settings \<Rightarrow> (string \<Rightarrow> string) \<Rightarrow> login_state \<Rightarrow> login_event \<Rightarrow> string option \<times> login_state" where
  "login_step st bucket s (Login now email ip device) = check_and_record_login st bucket s now email ip device"
| "login_step st bucket s (WrongSetupCode now ip) =
     (case record_failed_setup_attempt bucket s now ip of (ok, s1) \<Rightarrow> (if ok then None else Some ''setup'', s1))"

section \<open>Sign-up\<close>

record signup_state =
  su_attempts :: "string windows"
  su_unresolved :: "time list"
  su_sweep_counter :: nat

definition signup_init :: signup_state where
  "signup_init = \<lparr>su_attempts = [], su_unresolved = [], su_sweep_counter = 0\<rparr>"

definition signup_key :: "(string \<Rightarrow> string) \<Rightarrow> string \<Rightarrow> string" where
  "signup_key bucket ip = ''client:'' @ bucket ip"

text \<open>\<open>None\<close> for the source: no client address could be established.\<close>

definition check_and_record_signup ::
  "limit_settings \<Rightarrow> (string \<Rightarrow> string) \<Rightarrow> signup_state \<Rightarrow> time \<Rightarrow> string option \<Rightarrow> string option \<times> signup_state" where
  "check_and_record_signup st bucket s now source =
     (case source of
        None \<Rightarrow>
          if st_signup_require_resolved st then (Some ''unresolved'', s)
          else
            (let ts = popleft_before (now - DAY_SECONDS) (su_unresolved s); s1 = s\<lparr>su_unresolved := ts\<rparr>
             in if st_unresolved_per_day st \<le> int (length ts) then (Some ''unresolved_day'', s1)
                else if st_unresolved_per_hour st \<le> since (now - HOUR_SECONDS) ts then (Some ''unresolved_hour'', s1)
                else (None, s1\<lparr>su_unresolved := ts @ [now]\<rparr>))
      | Some ip \<Rightarrow>
          (let key = signup_key bucket ip; c = now - DAY_SECONDS;
               (due, n) = sweep_due (su_sweep_counter s);
               d = (if due then sweep_inactive (su_attempts s) c else su_attempts s);
               ts = popleft_before c (dict_get_or d key []);
               s1 = s\<lparr>su_sweep_counter := n,
                      su_attempts := (if dict_get d key = None then d else if ts = [] then dict_del key d else dict_set key ts d)\<rparr>
           in if st_signup_per_day st \<le> int (length ts) then (Some ''day'', s1)
              else if st_signup_per_hour st \<le> since (now - HOUR_SECONDS) ts then (Some ''hour'', s1)
              else (None, s1\<lparr>su_attempts := dict_set key (ts @ [now]) (su_attempts s1)\<rparr>)))"

fun signup_step :: "limit_settings \<Rightarrow> (string \<Rightarrow> string) \<Rightarrow> signup_state \<Rightarrow> time \<times> string option \<Rightarrow> string option \<times> signup_state" where
  "signup_step st bucket s (now, source) = check_and_record_signup st bucket s now source"

section \<open>Mail\<close>

datatype mail_kind = Password_reset | Verification

definition MAIL_REQUESTS_PER_ADDRESS_PER_HOUR :: int where "MAIL_REQUESTS_PER_ADDRESS_PER_HOUR = 3"
definition MAIL_REQUESTS_PER_IP_PER_HOUR :: int where "MAIL_REQUESTS_PER_IP_PER_HOUR = 10"

record mail_state =
  ml_address :: "(mail_kind \<times> string) windows"
  ml_ip :: "string windows"
  ml_sweep_counter :: nat

definition mail_init :: mail_state where
  "mail_init = \<lparr>ml_address = [], ml_ip = [], ml_sweep_counter = 0\<rparr>"

definition mail_sweep :: "mail_state \<Rightarrow> time \<Rightarrow> mail_state" where
  "mail_sweep s now =
     (case sweep_due (ml_sweep_counter s) of
        (due, n) \<Rightarrow>
          (let s1 = s\<lparr>ml_sweep_counter := n\<rparr>; c = now - HOUR_SECONDS
           in if \<not> due then s1 else s1\<lparr>ml_address := sweep_inactive (ml_address s1) c, ml_ip := sweep_inactive (ml_ip s1) c\<rparr>))"

definition check_and_record_mail_request ::
  "(string \<Rightarrow> string) \<Rightarrow> mail_state \<Rightarrow> time \<Rightarrow> mail_kind \<Rightarrow> string \<Rightarrow> string \<Rightarrow> string option \<times> mail_state" where
  "check_and_record_mail_request bucket s now kind email ip =
     (let c = now - HOUR_SECONDS; akey = (kind, identifier_key email); ikey = bucket ip;
          s1 = mail_sweep s now; ips = window_of (ml_ip s1) ikey c; s2 = s1\<lparr>ml_ip := ips\<rparr>
      in if MAIL_REQUESTS_PER_IP_PER_HOUR \<le> bucket_length ips ikey then (Some ''ip'', s2)
         else
           (let adrs = window_of (ml_address s2) akey c; s3 = s2\<lparr>ml_address := adrs\<rparr>
            in if MAIL_REQUESTS_PER_ADDRESS_PER_HOUR \<le> bucket_length adrs akey then (Some ''address'', s3)
               else (None, s3\<lparr>ml_ip := append_time (ml_ip s3) ikey now, ml_address := append_time (ml_address s3) akey now\<rparr>)))"

fun mail_step :: "(string \<Rightarrow> string) \<Rightarrow> mail_state \<Rightarrow> time \<times> mail_kind \<times> string \<times> string \<Rightarrow> string option \<times> mail_state" where
  "mail_step bucket s (now, kind, email, ip) = check_and_record_mail_request bucket s now kind email ip"

section \<open>What the limits mean\<close>

text \<open>The reference keeps every attempt with its verdict and counts.\<close>

type_synonym login_history = "(login_event \<times> string option) list"

abbreviation attempt_moment :: "login_event \<times> string option \<Rightarrow> time" where
  "attempt_moment r \<equiv> login_moment (fst r)"

fun by_device :: "string \<Rightarrow> login_event \<times> string option \<Rightarrow> bool" where
  "by_device d (Login _ _ _ (Some d'), _) = (d' = d)"
| "by_device d _ = False"

fun by_devices_of :: "string \<Rightarrow> login_event \<times> string option \<Rightarrow> bool" where
  "by_devices_of a (Login _ email _ (Some _), v) = (identifier_key email = a \<and> v = None)"
| "by_devices_of a _ = False"

fun from_address :: "(string \<Rightarrow> string) \<Rightarrow> string \<times> string \<Rightarrow> login_event \<times> string option \<Rightarrow> bool" where
  "from_address bucket key (Login _ email ip None, _) = ((identifier_key email, bucket ip) = key)"
| "from_address bucket key _ = False"

fun from_ip :: "(string \<Rightarrow> string) \<Rightarrow> string \<Rightarrow> login_event \<times> string option \<Rightarrow> bool" where
  "from_ip bucket i (Login _ _ ip None, _) = (bucket ip = i)"
| "from_ip bucket i _ = False"

fun into_account :: "string \<Rightarrow> login_event \<times> string option \<Rightarrow> bool" where
  "into_account a (Login _ email _ None, v) = (identifier_key email = a \<and> v = None)"
| "into_account a _ = False"

fun wrong_code_from :: "(string \<Rightarrow> string) \<Rightarrow> string \<Rightarrow> login_event \<times> string option \<Rightarrow> bool" where
  "wrong_code_from bucket i (WrongSetupCode _ ip, _) = (bucket ip = i)"
| "wrong_code_from bucket i _ = False"

fun login_verdict :: "limit_settings \<Rightarrow> (string \<Rightarrow> string) \<Rightarrow> login_history \<Rightarrow> login_event \<Rightarrow> string option" where
  "login_verdict st bucket h (Login now email ip (Some d)) =
     (if st_login_per_15min st \<le> recent attempt_moment (by_device d) (now - FIFTEEN_MIN_SECONDS) h then Some ''device''
      else if st_login_account_per_15min st \<le> recent attempt_moment (by_devices_of (identifier_key email)) (now - FIFTEEN_MIN_SECONDS) h
      then Some ''devices'' else None)"
| "login_verdict st bucket h (Login now email ip None) =
     (if st_login_per_hour_per_ip st \<le> recent attempt_moment (from_ip bucket (bucket ip)) (now - HOUR_SECONDS) h then Some ''ip''
      else if st_login_per_15min st \<le> recent attempt_moment (from_address bucket (identifier_key email, bucket ip)) (now - FIFTEEN_MIN_SECONDS) h
      then Some ''email''
      else if st_login_account_per_15min st \<le> recent attempt_moment (into_account (identifier_key email)) (now - FIFTEEN_MIN_SECONDS) h
      then Some ''account'' else None)"
| "login_verdict st bucket h (WrongSetupCode now ip) =
     (if int SETUP_ATTEMPTS_PER_15MIN \<le> recent attempt_moment (wrong_code_from bucket (bucket ip)) (now - FIFTEEN_MIN_SECONDS) h
      then Some ''setup'' else None)"

definition login_reference :: "limit_settings \<Rightarrow> (string \<Rightarrow> string) \<Rightarrow> login_history \<Rightarrow> login_event \<Rightarrow> string option \<times> login_history" where
  "login_reference st bucket h e = (let v = login_verdict st bucket h e in (v, h @ [(e, v)]))"

definition login_related :: "(string \<Rightarrow> string) \<Rightarrow> login_state \<Rightarrow> login_history \<Rightarrow> time \<Rightarrow> bool" where
  "login_related bucket s h t \<longleftrightarrow>
     sorted (map attempt_moment h) \<and> (\<forall>r \<in> set h. attempt_moment r \<le> t) \<and>
     keeps attempt_moment (ls_device s) by_device h (t - FIFTEEN_MIN_SECONDS) \<and>
     keeps attempt_moment (ls_account_device s) by_devices_of h (t - FIFTEEN_MIN_SECONDS) \<and>
     keeps attempt_moment (ls_account_address s) (from_address bucket) h (t - FIFTEEN_MIN_SECONDS) \<and>
     keeps attempt_moment (ls_account s) into_account h (t - FIFTEEN_MIN_SECONDS) \<and>
     keeps attempt_moment (ls_ip s) (from_ip bucket) h (t - HOUR_SECONDS) \<and>
     keeps attempt_moment (ls_setup s) (wrong_code_from bucket) h (t - FIFTEEN_MIN_SECONDS)"

lemma login_related_init [simp]: "login_related bucket login_init [] t"
  by (simp add: login_related_def login_init_def)

lemma login_sweep_related:
  assumes "login_related bucket s h t" "t \<le> now"
  shows "login_related bucket (login_sweep s now) h now"
  using assms unfolding login_related_def login_sweep_def
  by (auto simp: sweep_due_def Let_def FIFTEEN_MIN_SECONDS_def HOUR_SECONDS_def intro: order_trans
      elim!: tracks_sweep tracks_later)

text \<open>What a sign-in with a device entry leaves of the other windows, and one without of the device windows.\<close>

lemma untouched:
  assumes "login_related bucket s h now"
  shows "keeps attempt_moment (ls_setup s) (wrong_code_from bucket) (h @ [(Login now email ip dv, v)]) (now - FIFTEEN_MIN_SECONDS)"
    "keeps attempt_moment (ls_account_address s) (from_address bucket) (h @ [(Login now email ip (Some d), v)]) (now - FIFTEEN_MIN_SECONDS)"
    "keeps attempt_moment (ls_account s) into_account (h @ [(Login now email ip (Some d), v)]) (now - FIFTEEN_MIN_SECONDS)"
    "keeps attempt_moment (ls_ip s) (from_ip bucket) (h @ [(Login now email ip (Some d), v)]) (now - HOUR_SECONDS)"
    "keeps attempt_moment (ls_device s) by_device (h @ [(Login now email ip None, v)]) (now - FIFTEEN_MIN_SECONDS)"
    "keeps attempt_moment (ls_account_device s) by_devices_of (h @ [(Login now email ip None, v)]) (now - FIFTEEN_MIN_SECONDS)"
  using assms by (auto simp: login_related_def intro: keeps_passed(1))

lemma later_attempt:
  assumes "login_related bucket s h now" "login_moment e = now"
  shows "sorted (map attempt_moment (h @ [(e, v)]))" "\<forall>r \<in> set (h @ [(e, v)]). attempt_moment r \<le> now"
  using assms by (auto simp: login_related_def sorted_append)

lemma check_device_follows:
  assumes rel: "login_related bucket s h now"
    and r: "check_device_login st s now (identifier_key email) d = (v, s')"
  shows "v = login_verdict st bucket h (Login now email ip (Some d))"
    "login_related bucket s' (h @ [(Login now email ip (Some d), v)]) now"
proof -
  let ?c = "now - FIFTEEN_MIN_SECONDS" and ?e = "Login now email ip (Some d)" and ?a = "identifier_key email"
  have k: "keeps attempt_moment (ls_device s) by_device h ?c" "keeps attempt_moment (ls_account_device s) by_devices_of h ?c"
    "sorted (map attempt_moment h)" using rel by (simp_all add: login_related_def)
  have n: "bucket_length (window_of (ls_device s) d ?c) d = recent attempt_moment (by_device d) ?c h"
    "bucket_length (window_of (ls_account_device s) ?a ?c) ?a = recent attempt_moment (by_devices_of ?a) ?c h"
    using window_recent [OF k(1) order_refl k(3)] window_recent [OF k(2) order_refl k(3)] by (simp_all add: bucket_length_def)
  show v: "v = login_verdict st bucket h ?e"
    using r by (auto simp: check_device_login_def Let_def n split: if_splits)
  have dev: "keeps attempt_moment (append_time (window_of (ls_device s) d ?c) d now) by_device (h @ [(?e, v)]) ?c"
    using keeps_recorded [OF k(1) order_refl, of "(?e, v)" d] by auto
  have ok: "keeps attempt_moment (append_time (window_of (ls_account_device s) ?a ?c) ?a now) by_devices_of (h @ [(?e, v)]) ?c" if "v = None"
    using that keeps_recorded [OF k(2) order_refl, of "(?e, v)" ?a] by auto
  have no: "keeps attempt_moment (ls_account_device s) by_devices_of (h @ [(?e, v)]) ?c"
    "keeps attempt_moment (window_of (ls_account_device s) ?a ?c) by_devices_of (h @ [(?e, v)]) ?c" if "v \<noteq> None"
    using that keeps_passed [OF k(2) order_refl, of "(?e, v)"] by auto
  show "login_related bucket s' (h @ [(?e, v)]) now"
    using r dev ok no untouched(1-4) [OF rel, of email ip] later_attempt [OF rel, of ?e v] unfolding login_related_def
    by (auto simp: check_device_login_def Let_def split: if_splits)
qed

lemma check_address_follows:
  assumes rel: "login_related bucket s h now"
    and r: "check_address_login st s now (identifier_key email) (bucket ip) = (v, s')"
  shows "v = login_verdict st bucket h (Login now email ip None)"
    "login_related bucket s' (h @ [(Login now email ip None, v)]) now"
proof -
  let ?c = "now - FIFTEEN_MIN_SECONDS" and ?e = "Login now email ip None" and ?a = "identifier_key email" and ?i = "bucket ip"
  have k: "keeps attempt_moment (ls_account_address s) (from_address bucket) h ?c" "keeps attempt_moment (ls_ip s) (from_ip bucket) h (now - HOUR_SECONDS)"
    "keeps attempt_moment (ls_account s) into_account h ?c" "sorted (map attempt_moment h)" using rel by (simp_all add: login_related_def)
  have n: "bucket_length (window_of (ls_account_address s) (?a, ?i) ?c) (?a, ?i) = recent attempt_moment (from_address bucket (?a, ?i)) ?c h"
    "bucket_length (window_of (ls_ip s) ?i (now - HOUR_SECONDS)) ?i = recent attempt_moment (from_ip bucket ?i) (now - HOUR_SECONDS) h"
    "bucket_length (window_of (ls_account s) ?a ?c) ?a = recent attempt_moment (into_account ?a) ?c h"
    using window_recent [OF k(1) order_refl k(4)] window_recent [OF k(2) order_refl k(4)] window_recent [OF k(3) order_refl k(4)]
    by (simp_all add: bucket_length_def)
  show v: "v = login_verdict st bucket h ?e"
    using r by (auto simp: check_address_login_def Let_def n split: if_splits)
  have adr: "keeps attempt_moment (append_time (window_of (ls_account_address s) (?a, ?i) ?c) (?a, ?i) now) (from_address bucket) (h @ [(?e, v)]) ?c"
    using keeps_recorded [OF k(1) order_refl, of "(?e, v)" "(?a, ?i)"] by auto
  have ips: "keeps attempt_moment (append_time (window_of (ls_ip s) ?i (now - HOUR_SECONDS)) ?i now) (from_ip bucket) (h @ [(?e, v)]) (now - HOUR_SECONDS)"
    using keeps_recorded [OF k(2) order_refl, of "(?e, v)" ?i] by auto
  have ok: "keeps attempt_moment (append_time (window_of (ls_account s) ?a ?c) ?a now) into_account (h @ [(?e, v)]) ?c" if "v = None"
    using that keeps_recorded [OF k(3) order_refl, of "(?e, v)" ?a] by auto
  have no: "keeps attempt_moment (ls_account s) into_account (h @ [(?e, v)]) ?c"
    "keeps attempt_moment (window_of (ls_account s) ?a ?c) into_account (h @ [(?e, v)]) ?c" if "v \<noteq> None"
    using that keeps_passed [OF k(3) order_refl, of "(?e, v)"] by auto
  show "login_related bucket s' (h @ [(?e, v)]) now"
    using r adr ips ok no untouched(1,5,6) [OF rel, of email ip] later_attempt [OF rel, of ?e v] unfolding login_related_def
    by (auto simp: check_address_login_def Let_def split: if_splits)
qed

lemma setup_follows:
  assumes rel: "login_related bucket s h t" "t \<le> now"
    and r: "login_step st bucket s (WrongSetupCode now ip) = (v, s')"
  shows "v = login_verdict st bucket h (WrongSetupCode now ip)" "login_related bucket s' (h @ [(WrongSetupCode now ip, v)]) now"
proof -
  let ?c = "now - FIFTEEN_MIN_SECONDS" and ?e = "WrongSetupCode now ip" and ?i = "bucket ip"
  obtain due m where sd: "sweep_due (ls_setup_sweep_counter s) = (due, m)" by fastforce
  have le: "t - FIFTEEN_MIN_SECONDS \<le> ?c" using rel(2) by simp
  have k: "keeps attempt_moment (if due then sweep_inactive (ls_setup s) ?c else ls_setup s) (wrong_code_from bucket) h ?c" (is "keeps _ ?d _ _ _")
    using rel(1) by (intro tracks_sweep_if [OF _ le]) (simp add: login_related_def)
  have so: "sorted (map attempt_moment h)" using rel(1) by (simp add: login_related_def)
  have n: "int (length (dict_get_or (window_of ?d ?i ?c) ?i [])) = recent attempt_moment (wrong_code_from bucket ?i) ?c h"
    by (rule window_recent [OF k order_refl so])
  have res: "v = (if length (dict_get_or (window_of ?d ?i ?c) ?i []) < SETUP_ATTEMPTS_PER_15MIN then None else Some ''setup'')"
    "s' = s\<lparr>ls_setup_sweep_counter := m, ls_setup := append_time (window_of ?d ?i ?c) ?i now\<rparr>"
    using r by (simp_all add: record_failed_setup_attempt_def sd Let_def)
  show "v = login_verdict st bucket h ?e" unfolding res(1) by (simp add: n [symmetric] not_less)
  have "wrong_code_from bucket j (?e, v) \<longleftrightarrow> j = ?i" for j by auto
  from keeps_recorded [OF k order_refl this]
  have "keeps attempt_moment (append_time (window_of ?d ?i ?c) ?i now) (wrong_code_from bucket) (h @ [(?e, v)]) ?c" by simp
  moreover have "keeps attempt_moment (ls_device s) by_device (h @ [(?e, v)]) ?c" "keeps attempt_moment (ls_account_device s) by_devices_of (h @ [(?e, v)]) ?c"
    "keeps attempt_moment (ls_account_address s) (from_address bucket) (h @ [(?e, v)]) ?c" "keeps attempt_moment (ls_account s) into_account (h @ [(?e, v)]) ?c"
    "keeps attempt_moment (ls_ip s) (from_ip bucket) (h @ [(?e, v)]) (now - HOUR_SECONDS)"
    using rel by (auto simp: login_related_def intro: keeps_passed(1))
  moreover have "sorted (map attempt_moment (h @ [(?e, v)]))" "\<forall>r \<in> set (h @ [(?e, v)]). attempt_moment r \<le> now"
    using rel by (auto simp: login_related_def sorted_append intro: order_trans)
  ultimately show "login_related bucket s' (h @ [(?e, v)]) now" unfolding res(2) login_related_def by simp
qed

lemma login_follows:
  assumes rel: "login_related bucket s h t" "t \<le> login_moment e"
  shows "fst (login_step st bucket s e) = login_verdict st bucket h e"
    "login_related bucket (snd (login_step st bucket s e)) (snd (login_reference st bucket h e)) (login_moment e)"
proof -
  obtain v s' where st: "login_step st bucket s e = (v, s')" by fastforce
  have "v = login_verdict st bucket h e \<and> login_related bucket s' (h @ [(e, v)]) (login_moment e)"
  proof (cases e)
    case (Login now email ip device)
    then have rel': "login_related bucket (login_sweep s now) h now" using login_sweep_related [OF rel(1)] rel(2) by simp
    show ?thesis
    proof (cases device)
      case None
      then show ?thesis using st Login check_address_follows [OF rel', of st email ip v s'] by (simp add: check_and_record_login_def Let_def)
    next
      case (Some d)
      then show ?thesis using st Login check_device_follows [OF rel', of st email d v s' ip] by (simp add: check_and_record_login_def Let_def)
    qed
  next
    case (WrongSetupCode now ip)
    then show ?thesis using setup_follows [OF rel(1), of now st ip v s'] rel(2) st by simp
  qed
  then show "fst (login_step st bucket s e) = login_verdict st bucket h e"
    "login_related bucket (snd (login_step st bucket s e)) (snd (login_reference st bucket h e)) (login_moment e)"
    by (auto simp: st login_reference_def Let_def)
qed

interpretation login_limits: follows_history "login_step st bucket" "login_reference st bucket" login_moment "login_related bucket" for st bucket
  by unfold_locales (simp_all add: login_follows, simp add: login_reference_def Let_def)

text \<open>Mail requests: only those let through are kept.\<close>

type_synonym mail_request = "time \<times> mail_kind \<times> string \<times> string"

fun mailed_to :: "mail_kind \<times> string \<Rightarrow> mail_request \<Rightarrow> bool" where
  "mailed_to key (_, kind, email, _) = ((kind, identifier_key email) = key)"

fun mailed_from :: "(string \<Rightarrow> string) \<Rightarrow> string \<Rightarrow> mail_request \<Rightarrow> bool" where
  "mailed_from bucket i (_, _, _, ip) = (bucket ip = i)"

fun mail_verdict :: "(string \<Rightarrow> string) \<Rightarrow> mail_request list \<Rightarrow> mail_request \<Rightarrow> string option" where
  "mail_verdict bucket h (now, kind, email, ip) =
     (if MAIL_REQUESTS_PER_IP_PER_HOUR \<le> recent fst (mailed_from bucket (bucket ip)) (now - HOUR_SECONDS) h then Some ''ip''
      else if MAIL_REQUESTS_PER_ADDRESS_PER_HOUR \<le> recent fst (mailed_to (kind, identifier_key email)) (now - HOUR_SECONDS) h then Some ''address''
      else None)"

definition mail_reference :: "(string \<Rightarrow> string) \<Rightarrow> mail_request list \<Rightarrow> mail_request \<Rightarrow> string option \<times> mail_request list" where
  "mail_reference bucket h e = (let v = mail_verdict bucket h e in (v, if v = None then h @ [e] else h))"

definition mail_related :: "(string \<Rightarrow> string) \<Rightarrow> mail_state \<Rightarrow> mail_request list \<Rightarrow> time \<Rightarrow> bool" where
  "mail_related bucket s h t \<longleftrightarrow>
     sorted (map fst h) \<and> (\<forall>r \<in> set h. fst r \<le> t) \<and>
     keeps fst (ml_address s) mailed_to h (t - HOUR_SECONDS) \<and> keeps fst (ml_ip s) (mailed_from bucket) h (t - HOUR_SECONDS)"

lemma mail_related_init [simp]: "mail_related bucket mail_init [] t"
  by (simp add: mail_related_def mail_init_def)

lemma mail_sweep_related: "mail_related bucket s h t \<Longrightarrow> t \<le> now \<Longrightarrow> mail_related bucket (mail_sweep s now) h now"
  unfolding mail_related_def mail_sweep_def
  by (auto simp: sweep_due_def Let_def intro: order_trans elim!: tracks_sweep tracks_later)

lemma mail_follows:
  assumes "mail_related bucket s h t" "t \<le> fst e"
  shows "fst (mail_step bucket s e) = mail_verdict bucket h e"
    "mail_related bucket (snd (mail_step bucket s e)) (snd (mail_reference bucket h e)) (fst e)"
proof -
  obtain now kind email ip where e: "e = (now, kind, email, ip)" by (cases e)
  let ?s = "mail_sweep s now" and ?c = "now - HOUR_SECONDS" and ?a = "(kind, identifier_key email)" and ?i = "bucket ip"
  have rel: "mail_related bucket ?s h now" using mail_sweep_related [OF assms(1)] assms(2) e by simp
  then have k: "keeps fst (ml_address ?s) mailed_to h ?c" "keeps fst (ml_ip ?s) (mailed_from bucket) h ?c" "sorted (map fst h)"
    by (simp_all add: mail_related_def)
  have n: "bucket_length (window_of (ml_address ?s) ?a ?c) ?a = recent fst (mailed_to ?a) ?c h"
    "bucket_length (window_of (ml_ip ?s) ?i ?c) ?i = recent fst (mailed_from bucket ?i) ?c h"
    using window_recent [OF k(1) order_refl k(3)] window_recent [OF k(2) order_refl k(3)] by (simp_all add: bucket_length_def)
  show v: "fst (mail_step bucket s e) = mail_verdict bucket h e"
    by (simp add: e check_and_record_mail_request_def Let_def n)
  have w: "keeps fst (window_of (ml_address ?s) ?a ?c) mailed_to h ?c" "keeps fst (window_of (ml_ip ?s) ?i ?c) (mailed_from bucket) h ?c"
    using k(1,2) by (auto intro: tracks_window(1))
  have rec: "keeps fst (append_time (window_of (ml_address ?s) ?a ?c) ?a now) mailed_to (h @ [e]) ?c"
    "keeps fst (append_time (window_of (ml_ip ?s) ?i ?c) ?i now) (mailed_from bucket) (h @ [e]) ?c"
    using keeps_recorded [OF k(1) order_refl, of e ?a] keeps_recorded [OF k(2) order_refl, of e ?i] e by auto
  show "mail_related bucket (snd (mail_step bucket s e)) (snd (mail_reference bucket h e)) (fst e)"
    using rel w rec k(1) unfolding mail_related_def mail_reference_def Let_def
    by (auto simp: e check_and_record_mail_request_def Let_def n sorted_append)
qed

interpretation mail_limits: follows_history "mail_step bucket" "mail_reference bucket" fst "mail_related bucket" for bucket
  by unfold_locales (simp_all add: mail_follows, simp add: mail_reference_def Let_def)

text \<open>Sign-ups that were let through, with their source.\<close>

type_synonym signup_attempt = "time \<times> string option"

fun signed_up_from :: "(string \<Rightarrow> string) \<Rightarrow> string \<Rightarrow> signup_attempt \<Rightarrow> bool" where
  "signed_up_from bucket key (_, source) = (map_option (signup_key bucket) source = Some key)"

fun unresolved_attempt :: "signup_attempt \<Rightarrow> bool" where
  "unresolved_attempt (_, source) = (source = None)"

fun signup_verdict :: "limit_settings \<Rightarrow> (string \<Rightarrow> string) \<Rightarrow> signup_attempt list \<Rightarrow> signup_attempt \<Rightarrow> string option" where
  "signup_verdict st bucket h (now, None) =
     (if st_signup_require_resolved st then Some ''unresolved''
      else if st_unresolved_per_day st \<le> recent fst unresolved_attempt (now - DAY_SECONDS) h then Some ''unresolved_day''
      else if st_unresolved_per_hour st \<le> recent fst unresolved_attempt (now - HOUR_SECONDS) h then Some ''unresolved_hour''
      else None)"
| "signup_verdict st bucket h (now, Some ip) =
     (let P = signed_up_from bucket (signup_key bucket ip)
      in if st_signup_per_day st \<le> recent fst P (now - DAY_SECONDS) h then Some ''day''
         else if st_signup_per_hour st \<le> recent fst P (now - HOUR_SECONDS) h then Some ''hour''
         else None)"

definition signup_reference ::
  "limit_settings \<Rightarrow> (string \<Rightarrow> string) \<Rightarrow> signup_attempt list \<Rightarrow> signup_attempt \<Rightarrow> string option \<times> signup_attempt list" where
  "signup_reference st bucket h e = (let v = signup_verdict st bucket h e in (v, if v = None then h @ [e] else h))"

definition signup_related :: "(string \<Rightarrow> string) \<Rightarrow> signup_state \<Rightarrow> signup_attempt list \<Rightarrow> time \<Rightarrow> bool" where
  "signup_related bucket s h t \<longleftrightarrow>
     sorted (map fst h) \<and> (\<forall>r \<in> set h. fst r \<le> t) \<and>
     keeps fst (su_attempts s) (signed_up_from bucket) h (t - DAY_SECONDS) \<and>
     (\<forall>c. t - DAY_SECONDS \<le> c \<longrightarrow> popleft_before c (su_unresolved s) = popleft_before c (moments fst unresolved_attempt h))"

lemma signup_related_init [simp]: "signup_related bucket signup_init [] t"
  by (simp add: signup_related_def signup_init_def) (simp add: moments_def)

lemma since_moments: "since c (moments tm P h) = recent tm P c h"
  by (simp add: since_def moments_def recent_def filter_map comp_def filter_filter conj_commute)

lemma popleft_recent: "sorted (map tm h) \<Longrightarrow> int (length (popleft_before c (moments tm P h))) = recent tm P c h"
  by (simp add: moments_def recent_def popleft_count)

lemma signup_unresolved_follows:
  assumes rel: "signup_related bucket s h t" "t \<le> now"
  shows "fst (signup_step st bucket s (now, None)) = signup_verdict st bucket h (now, None)"
    "signup_related bucket (snd (signup_step st bucket s (now, None))) (snd (signup_reference st bucket h (now, None))) now"
proof -
  let ?e = "(now, None :: string option)" and ?c = "now - DAY_SECONDS"
  have ts: "popleft_before c (su_unresolved s) = popleft_before c (moments fst unresolved_attempt h)" if "?c \<le> c" for c
    using rel that by (auto simp: signup_related_def)
  have k: "sorted (map fst h)" "keeps fst (su_attempts s) (signed_up_from bucket) h ?c"
    using rel by (auto simp: signup_related_def elim: tracks_later)
  have hd': "?c \<le> now - HOUR_SECONDS" by (simp add: DAY_SECONDS_def HOUR_SECONDS_def)
  have n: "int (length (popleft_before ?c (su_unresolved s))) = recent fst unresolved_attempt ?c h"
    "since (now - HOUR_SECONDS) (popleft_before ?c (su_unresolved s)) = recent fst unresolved_attempt (now - HOUR_SECONDS) h"
    using since_popleft [OF hd'] by (simp_all add: ts popleft_recent [OF k(1)] since_moments)
  have res: "signup_step st bucket s ?e =
      (if st_signup_require_resolved st then (Some ''unresolved'', s)
       else if st_unresolved_per_day st \<le> recent fst unresolved_attempt ?c h
       then (Some ''unresolved_day'', s\<lparr>su_unresolved := popleft_before ?c (su_unresolved s)\<rparr>)
       else if st_unresolved_per_hour st \<le> recent fst unresolved_attempt (now - HOUR_SECONDS) h
       then (Some ''unresolved_hour'', s\<lparr>su_unresolved := popleft_before ?c (su_unresolved s)\<rparr>)
       else (None, s\<lparr>su_unresolved := popleft_before ?c (su_unresolved s) @ [now]\<rparr>))"
    unfolding signup_step.simps check_and_record_signup_def Let_def option.case n by simp
  show "fst (signup_step st bucket s ?e) = signup_verdict st bucket h ?e" unfolding res by simp
  have tw: "popleft_before c (popleft_before ?c (su_unresolved s)) = popleft_before c (moments fst unresolved_attempt h)" if "?c \<le> c" for c
    using that by (simp add: popleft_twice ts)
  have snoc: "popleft_before c (popleft_before ?c (su_unresolved s) @ [now]) = popleft_before c (moments fst unresolved_attempt (h @ [?e]))" if "?c \<le> c" for c
    using popleft_append [OF tw [OF that], of "[now]"] by (simp add: moments_def)
  have att: "keeps fst (su_attempts s) (signed_up_from bucket) (h @ [?e]) ?c" using k(2) by (intro keeps_passed(1)) auto
  have time: "\<forall>r \<in> set h. fst r \<le> now" using rel by (auto simp: signup_related_def)
  show "signup_related bucket (snd (signup_step st bucket s ?e)) (snd (signup_reference st bucket h ?e)) now"
    using k time tw snoc att ts unfolding res signup_related_def signup_reference_def Let_def by (simp add: sorted_append)
qed

lemma signup_resolved_follows:
  assumes rel: "signup_related bucket s h t" "t \<le> now"
  shows "fst (signup_step st bucket s (now, Some ip)) = signup_verdict st bucket h (now, Some ip)"
    "signup_related bucket (snd (signup_step st bucket s (now, Some ip))) (snd (signup_reference st bucket h (now, Some ip))) now"
proof -
  let ?e = "(now, Some ip)" and ?c = "now - DAY_SECONDS" and ?k = "signup_key bucket ip"
  obtain due m where sd: "sweep_due (su_sweep_counter s) = (due, m)" by fastforce
  define d where "d = (if due then sweep_inactive (su_attempts s) ?c else su_attempts s)"
  define d1 where "d1 = (if dict_get d ?k = None then d else if popleft_before ?c (dict_get_or d ?k []) = [] then dict_del ?k d
    else dict_set ?k (popleft_before ?c (dict_get_or d ?k [])) d)"
  have le: "t - DAY_SECONDS \<le> ?c" using rel(2) by simp
  have k: "keeps fst d (signed_up_from bucket) h ?c"
    unfolding d_def using rel(1) by (intro tracks_sweep_if [OF _ le]) (simp add: signup_related_def)
  have so: "sorted (map fst h)" "\<forall>r \<in> set h. fst r \<le> now" using rel by (auto simp: signup_related_def)
  have un: "popleft_before c (su_unresolved s) = popleft_before c (moments fst unresolved_attempt h)" if "?c \<le> c" for c
    using rel that by (auto simp: signup_related_def)
  have wf: "dict_wf d" using k by (simp add: tracks_def)
  have ts: "popleft_before ?c (dict_get_or d ?k []) = popleft_before ?c (moments fst (signed_up_from bucket ?k) h)"
    using k by (simp add: tracks_def)
  have hd': "?c \<le> now - HOUR_SECONDS" by (simp add: DAY_SECONDS_def HOUR_SECONDS_def)
  have n: "int (length (popleft_before ?c (dict_get_or d ?k []))) = recent fst (signed_up_from bucket ?k) ?c h"
    "since (now - HOUR_SECONDS) (popleft_before ?c (dict_get_or d ?k [])) = recent fst (signed_up_from bucket ?k) (now - HOUR_SECONDS) h"
    using since_popleft [OF hd'] by (simp_all add: ts popleft_recent [OF so(1)] since_moments)
  have res: "signup_step st bucket s ?e =
      (if st_signup_per_day st \<le> recent fst (signed_up_from bucket ?k) ?c h then (Some ''day'', s\<lparr>su_sweep_counter := m, su_attempts := d1\<rparr>)
       else if st_signup_per_hour st \<le> recent fst (signed_up_from bucket ?k) (now - HOUR_SECONDS) h
       then (Some ''hour'', s\<lparr>su_sweep_counter := m, su_attempts := d1\<rparr>)
       else (None, s\<lparr>su_sweep_counter := m, su_attempts := dict_set ?k (popleft_before ?c (dict_get_or d ?k []) @ [now]) d1\<rparr>))"
    unfolding signup_step.simps check_and_record_signup_def Let_def sd option.case case_prod_conv d_def [symmetric] n d1_def [symmetric] by simp
  have d1: "dict_get_or d1 j [] = dict_get_or (window_of d ?k ?c) j []" for j
    by (auto simp: d1_def window_of_def dict_get_or_def popleft_before_def eq_commute [of "[]"] split: option.split)
  have w1: "dict_wf d1" using wf by (simp add: d1_def)
  have a: "keeps fst d1 (signed_up_from bucket) h ?c" by (rule tracks_cong [OF tracks_window(1) [OF k order_refl] w1 d1])
  have "signed_up_from bucket j ?e \<longleftrightarrow> j = ?k" for j by auto
  then have b: "keeps fst (append_time (window_of d ?k ?c) ?k now) (signed_up_from bucket) (h @ [?e]) ?c"
    using keeps_recorded [OF k order_refl, of ?e ?k] by simp
  have "dict_get_or (dict_set ?k (popleft_before ?c (dict_get_or d ?k []) @ [now]) d1) j [] = dict_get_or (append_time (window_of d ?k ?c) ?k now) j []" for j
    using d1 [of j] by (simp add: dict_get_or_def append_time_def window_of_def split: option.split)
  then have b1: "keeps fst (dict_set ?k (popleft_before ?c (dict_get_or d ?k []) @ [now]) d1) (signed_up_from bucket) (h @ [?e]) ?c"
    using w1 by (intro tracks_cong [OF b]) simp_all
  have un1: "moments fst unresolved_attempt (h @ [?e]) = moments fst unresolved_attempt h" by (simp add: moments_def)
  show "fst (signup_step st bucket s ?e) = signup_verdict st bucket h ?e" unfolding res by (simp add: Let_def)
  show "signup_related bucket (snd (signup_step st bucket s ?e)) (snd (signup_reference st bucket h ?e)) now"
    using so a b1 un unfolding res signup_related_def signup_reference_def by (simp add: Let_def sorted_append un1)
qed

lemma signup_follows:
  assumes "signup_related bucket s h t" "t \<le> fst e"
  shows "fst (signup_step st bucket s e) = signup_verdict st bucket h e"
    "signup_related bucket (snd (signup_step st bucket s e)) (snd (signup_reference st bucket h e)) (fst e)"
proof -
  obtain now source where e: "e = (now, source)" by (cases e)
  have t: "t \<le> now" using assms(2) e by simp
  show "fst (signup_step st bucket s e) = signup_verdict st bucket h e"
    "signup_related bucket (snd (signup_step st bucket s e)) (snd (signup_reference st bucket h e)) (fst e)"
    using signup_unresolved_follows [OF assms(1) t, of st] signup_resolved_follows [OF assms(1) t, of st]
    unfolding e by (cases source; simp only: fst_conv)+
qed

interpretation signup_limits: follows_history "signup_step st bucket" "signup_reference st bucket" fst "signup_related bucket" for st bucket
  by unfold_locales (simp only: signup_follows(1), simp add: signup_reference_def Let_def, rule signup_follows(2))

section \<open>Windows are never overfilled\<close>

definition in_window :: "('r \<Rightarrow> time) \<Rightarrow> ('r \<Rightarrow> bool) \<Rightarrow> time \<Rightarrow> time \<Rightarrow> 'r list \<Rightarrow> int" where
  "in_window tm P c w h = int (length (filter (\<lambda>r. P r \<and> c \<le> tm r \<and> tm r \<le> c + w) h))"

lemma filter_length_mono: "(\<And>x. P x \<Longrightarrow> Q x) \<Longrightarrow> length (filter P h) \<le> length (filter Q h)"
  by (induction h) auto

lemma in_window_recorded:
  assumes "in_window tm P c w h \<le> L" "P r \<Longrightarrow> recent tm P (tm r - w) h < L"
  shows "in_window tm P c w (h @ [r]) \<le> L"
proof (cases "P r \<and> c \<le> tm r \<and> tm r \<le> c + w")
  case True
  then have "length (filter (\<lambda>x. P x \<and> c \<le> tm x \<and> tm x \<le> c + w) h) \<le> length (filter (\<lambda>x. P x \<and> tm r - w \<le> tm x) h)"
    by (intro filter_length_mono) auto
  with True assms(2) show ?thesis by (simp add: in_window_def recent_def)
qed (use assms(1) in \<open>auto simp: in_window_def\<close>)

lemma reference_simps [simp]:
  "fst (login_reference st bucket h e) = login_verdict st bucket h e"
  "snd (login_reference st bucket h e) = h @ [(e, login_verdict st bucket h e)]"
  "fst (mail_reference bucket g m) = mail_verdict bucket g m"
  "snd (mail_reference bucket g m) = (if mail_verdict bucket g m = None then g @ [m] else g)"
  "fst (signup_reference st bucket f u) = signup_verdict st bucket f u"
  "snd (signup_reference st bucket f u) = (if signup_verdict st bucket f u = None then f @ [u] else f)"
  by (simp_all add: login_reference_def mail_reference_def signup_reference_def Let_def)

text \<open>The attempts of a run with their verdicts, and those that were let through.\<close>

definition verdicts :: "('s \<Rightarrow> 'e \<Rightarrow> string option \<times> 's) \<Rightarrow> 's \<Rightarrow> 'e list \<Rightarrow> ('e \<times> string option) list" where
  "verdicts f s es = zip es (answers f s es)"

definition let_through :: "('s \<Rightarrow> 'e \<Rightarrow> string option \<times> 's) \<Rightarrow> 's \<Rightarrow> 'e list \<Rightarrow> 'e list" where
  "let_through f s es = map fst (filter (\<lambda>r. snd r = None) (verdicts f s es))"

lemma verdicts_snoc: "verdicts f s (es @ [e]) = verdicts f s es @ [(e, fst (f (final f s es) e))]"
  by (simp add: verdicts_def)

lemma histories:
  "final (login_reference st bucket) [] es = verdicts (login_reference st bucket) [] es"
  "final (mail_reference bucket) [] ms = let_through (mail_reference bucket) [] ms"
  "final (signup_reference st bucket) [] us = let_through (signup_reference st bucket) [] us"
proof -
  show "final (login_reference st bucket) [] es = verdicts (login_reference st bucket) [] es"
    by (induction es rule: rev_induct) (simp_all add: verdicts_snoc verdicts_def)
  show "final (mail_reference bucket) [] ms = let_through (mail_reference bucket) [] ms"
    by (induction ms rule: rev_induct) (simp_all add: let_through_def verdicts_snoc, simp add: verdicts_def)
  show "final (signup_reference st bucket) [] us = let_through (signup_reference st bucket) [] us"
    by (induction us rule: rev_induct) (simp_all add: let_through_def verdicts_snoc, simp add: verdicts_def)
qed

lemma mail_windows:
  "in_window fst (mailed_to key) c HOUR_SECONDS (final (mail_reference bucket) [] ms) \<le> MAIL_REQUESTS_PER_ADDRESS_PER_HOUR \<and>
   in_window fst (mailed_from bucket i) c HOUR_SECONDS (final (mail_reference bucket) [] ms) \<le> MAIL_REQUESTS_PER_IP_PER_HOUR"
proof (induction ms rule: rev_induct)
  case Nil
  then show ?case by (simp add: in_window_def MAIL_REQUESTS_PER_ADDRESS_PER_HOUR_def MAIL_REQUESTS_PER_IP_PER_HOUR_def)
next
  case (snoc e ms)
  let ?h = "final (mail_reference bucket) [] ms"
  show ?case
  proof (cases "mail_verdict bucket ?h e = None")
    case True
    obtain now kind email ip where e: "e = (now, kind, email, ip)" by (cases e)
    have "recent fst (mailed_to key) (fst e - HOUR_SECONDS) ?h < MAIL_REQUESTS_PER_ADDRESS_PER_HOUR" if "mailed_to key e"
      using True that e by (auto split: if_splits)
    moreover have "recent fst (mailed_from bucket i) (fst e - HOUR_SECONDS) ?h < MAIL_REQUESTS_PER_IP_PER_HOUR" if "mailed_from bucket i e"
      using True that e by (auto split: if_splits)
    ultimately show ?thesis using snoc True by (simp add: in_window_recorded)
  qed (use snoc in auto)
qed

lemma login_windows:
  assumes "0 \<le> st_login_account_per_15min st"
  shows "in_window attempt_moment (into_account a) c FIFTEEN_MIN_SECONDS (final (login_reference st bucket) [] es) \<le> st_login_account_per_15min st \<and>
    in_window attempt_moment (by_devices_of a) c FIFTEEN_MIN_SECONDS (final (login_reference st bucket) [] es) \<le> st_login_account_per_15min st"
proof (induction es rule: rev_induct)
  case Nil
  then show ?case using assms by (simp add: in_window_def)
next
  case (snoc e es)
  let ?h = "final (login_reference st bucket) [] es" and ?v = "login_verdict st bucket (final (login_reference st bucket) [] es) e"
  have "recent attempt_moment (into_account a) (login_moment e - FIFTEEN_MIN_SECONDS) ?h < st_login_account_per_15min st" if "into_account a (e, ?v)"
    using that by (cases "(a, e, ?v)" rule: into_account.cases) (auto split: if_splits)
  moreover have "recent attempt_moment (by_devices_of a) (login_moment e - FIFTEEN_MIN_SECONDS) ?h < st_login_account_per_15min st" if "by_devices_of a (e, ?v)"
    using that by (cases "(a, e, ?v)" rule: by_devices_of.cases) (auto split: if_splits)
  ultimately show ?case using snoc by (simp add: in_window_recorded)
qed

lemma signup_windows:
  assumes "0 \<le> st_signup_per_day st" "0 \<le> st_signup_per_hour st"
  shows "in_window fst (signed_up_from bucket key) c DAY_SECONDS (final (signup_reference st bucket) [] us) \<le> st_signup_per_day st \<and>
    in_window fst (signed_up_from bucket key) c HOUR_SECONDS (final (signup_reference st bucket) [] us) \<le> st_signup_per_hour st"
proof (induction us rule: rev_induct)
  case Nil
  then show ?case using assms by (simp add: in_window_def)
next
  case (snoc e us)
  let ?h = "final (signup_reference st bucket) [] us"
  show ?case
  proof (cases "signup_verdict st bucket ?h e = None")
    case True
    have "recent fst (signed_up_from bucket key) (fst e - DAY_SECONDS) ?h < st_signup_per_day st \<and>
        recent fst (signed_up_from bucket key) (fst e - HOUR_SECONDS) ?h < st_signup_per_hour st" if "signed_up_from bucket key e"
      using True that by (cases e; cases "snd e") (auto simp: Let_def split: if_splits)
    then show ?thesis using snoc True by (simp add: in_window_recorded)
  qed (use snoc in auto)
qed

section \<open>Recognised browsers\<close>

fun has_device :: "login_event \<Rightarrow> bool" where
  "has_device (Login _ _ _ d) = (d \<noteq> None)"
| "has_device (WrongSetupCode _ _) = False"

lemma recent_filter: "(\<And>r. P r \<Longrightarrow> Q r) \<Longrightarrow> recent tm P c (filter Q h) = recent tm P c h"
  by (auto simp: recent_def intro!: arg_cong [of _ _ length] filter_cong)

lemma device_only:
  "by_device d r \<Longrightarrow> has_device (fst r)" "by_devices_of a r \<Longrightarrow> has_device (fst r)"
  by (cases "(d, r)" rule: by_device.cases; auto) (cases "(a, r)" rule: by_devices_of.cases; auto)

lemma device_verdict:
  assumes "has_device e"
  shows "login_verdict st bucket (filter (\<lambda>r. has_device (fst r)) h) e = login_verdict st bucket h e"
proof -
  obtain now email ip d where e: "e = Login now email ip (Some d)" using assms by (cases e) auto
  show ?thesis unfolding e by (simp add: recent_filter device_only)
qed

lemma device_run:
  "filter (\<lambda>r. has_device (fst r)) (verdicts (login_reference st bucket) h es) =
     verdicts (login_reference st bucket) (filter (\<lambda>r. has_device (fst r)) h) (filter has_device es)"
proof (induction es arbitrary: h)
  case (Cons e es)
  let ?v = "login_verdict st bucket h e"
  have step: "verdicts (login_reference st bucket) g (e # es') = (e, login_verdict st bucket g e) # verdicts (login_reference st bucket) (g @ [(e, login_verdict st bucket g e)]) es'" for g es'
    by (simp add: verdicts_def case_prod_beta)
  show ?case using Cons.IH [of "h @ [(e, ?v)]"] by (cases "has_device e") (simp_all add: step device_verdict)
qed (simp add: verdicts_def)

text \<open>Settings for examples.\<close>

definition demo_limits :: limit_settings where
  "demo_limits = \<lparr>st_login_per_15min = 1, st_login_account_per_15min = 1, st_login_per_hour_per_ip = 1, st_signup_per_hour = 0, st_signup_per_day = 0,
      st_signup_require_resolved = False, st_unresolved_per_hour = 0, st_unresolved_per_day = 0\<rparr>"

section \<open>Properties\<close>

text \<open>C33. The limiters count exactly. As long as the clock does not go back, every answer of the sign-in,
  sign-up and mail limiters, whatever was swept or expired in between, is the one a reference gives
  that keeps every attempt for ever and counts those inside the windows of the documentation: per
  device, per account over recognised browsers, per address, per account and address, per account,
  per source of sign-ups or mails and per addressee.\<close>

theorem limiters_count_exactly:
  assumes "sorted (map login_moment es)" "sorted (map fst us)" "sorted (map fst ms)"
  shows "answers (login_step st bucket) login_init es = answers (login_reference st bucket) [] es \<and>
    answers (signup_step st bucket) signup_init us = answers (signup_reference st bucket) [] us \<and>
    answers (mail_step bucket) mail_init ms = answers (mail_reference bucket) [] ms"
proof (intro conjI)
  show "answers (login_step st bucket) login_init es = answers (login_reference st bucket) [] es"
    by (rule login_limits.same_answers_fresh [OF login_related_init assms(1)])
  show "answers (signup_step st bucket) signup_init us = answers (signup_reference st bucket) [] us"
    by (rule signup_limits.same_answers_fresh [OF signup_related_init assms(2)])
  show "answers (mail_step bucket) mail_init ms = answers (mail_reference bucket) [] ms"
    by (rule mail_limits.same_answers_fresh [OF mail_related_init assms(3)])
qed

theorem limiters_count_exactly_witness:
  "answers (mail_step (\<lambda>ip. ip)) mail_init [(0, Verification, '' a@x '', ''1''), (3600, Verification, ''A@x'', ''2''), (3600, Verification, ''a@x'', ''3''),
      (3600, Verification, ''a@x'', ''4''), (3601, Verification, ''a@x'', ''5'')] = [None, None, None, Some ''address'', None]"
proof -
  let ?ms = "[(0, Verification, '' a@x '', ''1''), (3600, Verification, ''A@x'', ''2''), (3600, Verification, ''a@x'', ''3''),
      (3600, Verification, ''a@x'', ''4''), (3601, Verification, ''a@x'', ''5'')] :: mail_request list"
  have "answers (mail_step (\<lambda>ip. ip)) mail_init ?ms = answers (mail_reference (\<lambda>ip. ip)) [] ?ms"
    using limiters_count_exactly [of "[]" "[]" ?ms undefined "\<lambda>ip. ip"] by simp
  also have "\<dots> = [None, None, None, Some ''address'', None]" by code_simp
  finally show ?thesis .
qed

text \<open>C34. Nobody else locks a recognised browser out. The answers to the sign-ins that carry a valid device
  entry are the same as if no other sign-in and no setup attempt had been made, from any address
  and against any account.\<close>

theorem known_devices_isolated:
  assumes "sorted (map login_moment es)"
  shows "filter (\<lambda>r. has_device (fst r)) (verdicts (login_step st bucket) login_init es) =
    verdicts (login_step st bucket) login_init (filter has_device es)"
proof -
  have "sorted (map login_moment (filter has_device es))" using assms by (rule sorted_filter)
  then have "verdicts (login_step st bucket) login_init fs = verdicts (login_reference st bucket) [] fs" if "fs = es \<or> fs = filter has_device es" for fs
    using that assms login_limits.same_answers_fresh [OF login_related_init, where es = fs] by (auto simp: verdicts_def)
  then show ?thesis using device_run [of st bucket "[]" es] by simp
qed

theorem known_devices_isolated_witness:
  "verdicts (login_step demo_limits (\<lambda>ip. ip)) login_init
      [Login 0 ''o'' ''1'' None, Login 1 ''o'' ''1'' None, Login 2 ''o'' ''1'' (Some ''d'')] =
     [(Login 0 ''o'' ''1'' None, None), (Login 1 ''o'' ''1'' None, Some ''ip''), (Login 2 ''o'' ''1'' (Some ''d''), None)] \<and>
   filter (\<lambda>r. has_device (fst r)) (verdicts (login_step demo_limits (\<lambda>ip. ip)) login_init
      [Login 0 ''o'' ''1'' None, Login 1 ''o'' ''1'' None, Login 2 ''o'' ''1'' (Some ''d'')]) =
     verdicts (login_step demo_limits (\<lambda>ip. ip)) login_init [Login 2 ''o'' ''1'' (Some ''d'')]"
proof
  show "filter (\<lambda>r. has_device (fst r)) (verdicts (login_step demo_limits (\<lambda>ip. ip)) login_init
      [Login 0 ''o'' ''1'' None, Login 1 ''o'' ''1'' None, Login 2 ''o'' ''1'' (Some ''d'')]) =
     verdicts (login_step demo_limits (\<lambda>ip. ip)) login_init [Login 2 ''o'' ''1'' (Some ''d'')]"
    by (subst known_devices_isolated) simp_all
qed code_simp

text \<open>No window is ever overfilled. In any hour at most three mails of a kind are sent for one address
  and ten for one client; in any fifteen minutes an account is tried at most the configured number of
  times from unknown browsers and as often again from recognised ones; in any hour and any day a
  client signs up at most as often as configured.\<close>

lemma windows_never_overfilled:
  assumes "sorted (map login_moment es)" "sorted (map fst us)" "sorted (map fst ms)"
    "0 \<le> st_login_account_per_15min st" "0 \<le> st_signup_per_day st" "0 \<le> st_signup_per_hour st"
  shows "in_window fst (mailed_to key) c HOUR_SECONDS (let_through (mail_step bucket) mail_init ms) \<le> 3 \<and>
    in_window fst (mailed_from bucket i) c HOUR_SECONDS (let_through (mail_step bucket) mail_init ms) \<le> 10 \<and>
    in_window attempt_moment (into_account a) c FIFTEEN_MIN_SECONDS (verdicts (login_step st bucket) login_init es) \<le> st_login_account_per_15min st \<and>
    in_window attempt_moment (by_devices_of a) c FIFTEEN_MIN_SECONDS (verdicts (login_step st bucket) login_init es) \<le> st_login_account_per_15min st \<and>
    in_window fst (signed_up_from bucket k) c DAY_SECONDS (let_through (signup_step st bucket) signup_init us) \<le> st_signup_per_day st \<and>
    in_window fst (signed_up_from bucket k) c HOUR_SECONDS (let_through (signup_step st bucket) signup_init us) \<le> st_signup_per_hour st"
proof -
  have "verdicts (login_step st bucket) login_init es = verdicts (login_reference st bucket) [] es"
    "let_through (mail_step bucket) mail_init ms = let_through (mail_reference bucket) [] ms"
    "let_through (signup_step st bucket) signup_init us = let_through (signup_reference st bucket) [] us"
    using login_limits.same_answers_fresh [OF login_related_init assms(1)] mail_limits.same_answers_fresh [OF mail_related_init assms(3)]
      signup_limits.same_answers_fresh [OF signup_related_init assms(2)] by (simp_all add: verdicts_def let_through_def)
  then show ?thesis
    using mail_windows [of key c bucket ms i] login_windows [OF assms(4), of a c bucket es] signup_windows [OF assms(5,6), of bucket k c us]
    by (simp add: histories MAIL_REQUESTS_PER_ADDRESS_PER_HOUR_def MAIL_REQUESTS_PER_IP_PER_HOUR_def)
qed

end
