(* ===== verification/Auth_Blocklist.thy ===== *)
theory Auth_Blocklist
  imports Sliding_Window "HOL-Library.Multiset" "HOL-Library.Sublist" "HOL-Library.List_Lexorder" "HOL-Library.Char_ord"
begin

text \<open>
  \<open>serving/utils/auth_failure_blocklist.py\<close>, with \<open>normalize_ip_bucket\<close> of \<open>request_ip.py\<close>: failed
  authentications are counted per client bucket, and a bucket that fails too often within a window is
  refused for a while. Failures without a known client have a budget of their own. What the module
  asks of the package \<open>ipaddress\<close> is the record \<open>ip_lib\<close>. Every critical section is one step.
\<close>

section \<open>Addresses\<close>

text \<open>\<open>lib_prefix a n\<close> is \<open>ip_network(f"{a}/{n}", strict=False)\<close>.\<close>

record ('a, 'n) ip_lib =
  lib_address :: "string \<Rightarrow> 'a option"
  lib_network :: "string \<Rightarrow> 'n option"
  lib_version :: "'a \<Rightarrow> nat"
  lib_ipv4_mapped :: "'a \<Rightarrow> 'a option"
  lib_contains :: "'n \<Rightarrow> 'a \<Rightarrow> bool"
  lib_prefix :: "'a \<Rightarrow> nat \<Rightarrow> 'n"
  lib_str :: "'a \<Rightarrow> string"
  lib_network_str :: "'n \<Rightarrow> string"

definition IPV6_BUCKET_PREFIXLEN :: nat where "IPV6_BUCKET_PREFIXLEN = 64"

definition normalize_ip_bucket :: "('a, 'n) ip_lib \<Rightarrow> string \<Rightarrow> string" where
  "normalize_ip_bucket lib ip =
     (case lib_address lib ip of
        None \<Rightarrow> ip
      | Some parsed \<Rightarrow>
          if lib_version lib parsed = 4 then lib_str lib parsed
          else case lib_ipv4_mapped lib parsed of
                 Some mapped \<Rightarrow> lib_str lib mapped
               | None \<Rightarrow> lib_network_str lib (lib_prefix lib parsed IPV6_BUCKET_PREFIXLEN))"

datatype provenance = Address string | ClientInfo string bool

definition client_ip :: "provenance \<Rightarrow> string option" where
  "client_ip p = (case p of Address ip \<Rightarrow> Some ip | ClientInfo ip resolved \<Rightarrow> if resolved then Some ip else None)"

section \<open>The block list\<close>

record block_settings =
  bs_enabled :: bool
  bs_threshold :: int
  bs_window_sec :: time
  bs_duration_sec :: time
  bs_unresolved_threshold :: int
  bs_unresolved_window_sec :: time
  bs_unresolved_duration_sec :: time
  bs_exempt_ips :: string

record 'n block_state =
  bk_failures :: "string windows"
  bk_blocked_until :: "(string, time) dict"
  bk_unresolved_failures :: "time list"
  bk_unresolved_until :: "time option"
  bk_sweep_counter :: nat
  bk_exempt_cache :: "(string \<times> 'n list) option"

definition block_init :: "'n block_state" where
  "block_init = \<lparr>bk_failures = [], bk_blocked_until = [], bk_unresolved_failures = [], bk_unresolved_until = None,
     bk_sweep_counter = 0, bk_exempt_cache = None\<rparr>"

text \<open>\<open>str.split(",")\<close>.\<close>

fun split_commas :: "string \<Rightarrow> string list" where
  "split_commas [] = [[]]"
| "split_commas (c # cs) =
     (if c = CHR '','' then [] # split_commas cs
      else case split_commas cs of [] \<Rightarrow> [[c]] | w # ws \<Rightarrow> (c # w) # ws)"

definition parse_networks :: "('a, 'n) ip_lib \<Rightarrow> string \<Rightarrow> 'n list" where
  "parse_networks lib raw = List.map_filter (lib_network lib) (filter (\<lambda>e. e \<noteq> []) (map py_strip (split_commas raw)))"

definition exempt_networks :: "('a, 'n) ip_lib \<Rightarrow> block_settings \<Rightarrow> 'n block_state \<Rightarrow> 'n list \<times> 'n block_state" where
  "exempt_networks lib bs s =
     (let raw = bs_exempt_ips bs
      in case bk_exempt_cache s of
           Some (r, nets) \<Rightarrow>
             if r = raw then (nets, s)
             else (parse_networks lib raw, s\<lparr>bk_exempt_cache := Some (raw, parse_networks lib raw)\<rparr>)
         | None \<Rightarrow> (parse_networks lib raw, s\<lparr>bk_exempt_cache := Some (raw, parse_networks lib raw)\<rparr>))"

definition in_networks :: "('a, 'n) ip_lib \<Rightarrow> 'n list \<Rightarrow> string \<Rightarrow> bool" where
  "in_networks lib nets ip =
     (if nets = [] then False
      else case lib_address lib ip of
             None \<Rightarrow> False
           | Some parsed \<Rightarrow>
               (let p = (if lib_version lib parsed = 6
                         then (case lib_ipv4_mapped lib parsed of Some m \<Rightarrow> m | None \<Rightarrow> parsed) else parsed)
                in list_ex (\<lambda>net. lib_contains lib net p) nets))"

definition is_exempt :: "('a, 'n) ip_lib \<Rightarrow> block_settings \<Rightarrow> 'n block_state \<Rightarrow> string \<Rightarrow> bool \<times> 'n block_state" where
  "is_exempt lib bs s ip = (case exempt_networks lib bs s of (nets, s1) \<Rightarrow> (in_networks lib nets ip, s1))"

definition sweep_blocks :: "block_settings \<Rightarrow> 'n block_state \<Rightarrow> time \<Rightarrow> 'n block_state" where
  "sweep_blocks bs s now =
     s\<lparr>bk_failures := sweep_inactive (bk_failures s) (now - bs_window_sec bs),
       bk_blocked_until := filter (\<lambda>(k, u). \<not> u \<le> now) (bk_blocked_until s),
       bk_unresolved_failures := popleft_before (now - bs_unresolved_window_sec bs) (bk_unresolved_failures s),
       bk_unresolved_until := (case bk_unresolved_until s of Some u \<Rightarrow> if u \<le> now then None else Some u | None \<Rightarrow> None)\<rparr>"

definition retry_after :: "time \<Rightarrow> time \<Rightarrow> int" where
  "retry_after until now = max 1 \<lfloor>until - now + 999 / 1000\<rfloor>"

definition is_ip_blocked :: "('a, 'n) ip_lib \<Rightarrow> block_settings \<Rightarrow> 'n block_state \<Rightarrow> time \<Rightarrow> provenance \<Rightarrow> (bool \<times> int) \<times> 'n block_state" where
  "is_ip_blocked lib bs s now p =
     (if \<not> bs_enabled bs then ((False, 0), s)
      else case client_ip p of
             None \<Rightarrow>
               (case bk_unresolved_until s of
                  None \<Rightarrow> ((False, 0), s)
                | Some u \<Rightarrow> if u \<le> now then ((False, 0), s\<lparr>bk_unresolved_until := None\<rparr>) else ((True, retry_after u now), s))
           | Some ip \<Rightarrow>
               (case is_exempt lib bs s ip of
                  (ex, s1) \<Rightarrow>
                    if ex then ((False, 0), s1)
                    else (let key = normalize_ip_bucket lib ip
                          in case dict_get (bk_blocked_until s1) key of
                               None \<Rightarrow> ((False, 0), s1)
                             | Some u \<Rightarrow>
                                 if u \<le> now then ((False, 0), s1\<lparr>bk_blocked_until := dict_del key (bk_blocked_until s1)\<rparr>)
                                 else ((True, retry_after u now), s1))))"

definition record_unresolved :: "block_settings \<Rightarrow> 'n block_state \<Rightarrow> time \<Rightarrow> bool \<times> 'n block_state" where
  "record_unresolved bs s now =
     (let ts = popleft_before (now - bs_unresolved_window_sec bs) (bk_unresolved_failures s); s1 = s\<lparr>bk_unresolved_failures := ts\<rparr>
      in if (case bk_unresolved_until s of Some u \<Rightarrow> now < u | None \<Rightarrow> False) then (False, s1)
         else if bs_unresolved_threshold bs \<le> int (length (ts @ [now]))
         then (True, s1\<lparr>bk_unresolved_until := Some (now + bs_unresolved_duration_sec bs), bk_unresolved_failures := []\<rparr>)
         else (False, s1\<lparr>bk_unresolved_failures := ts @ [now]\<rparr>))"

definition record_resolved :: "block_settings \<Rightarrow> 'n block_state \<Rightarrow> time \<Rightarrow> string \<Rightarrow> bool \<times> 'n block_state" where
  "record_resolved bs s now key =
     (let (due, n) = sweep_due (bk_sweep_counter s);
          s1 = s\<lparr>bk_sweep_counter := n\<rparr>;
          s2 = (if due then sweep_blocks bs s1 now else s1)
      in if (case dict_get (bk_blocked_until s2) key of Some u \<Rightarrow> now < u | None \<Rightarrow> False) then (False, s2)
         else
           (let d = append_time (window_of (bk_failures s2) key (now - bs_window_sec bs)) key now
            in if bs_threshold bs \<le> int (length (dict_get_or d key []))
               then (True, s2\<lparr>bk_blocked_until := dict_set key (now + bs_duration_sec bs) (bk_blocked_until s2), bk_failures := dict_del key d\<rparr>)
               else (False, s2\<lparr>bk_failures := d\<rparr>)))"

definition record_auth_failure :: "('a, 'n) ip_lib \<Rightarrow> block_settings \<Rightarrow> 'n block_state \<Rightarrow> time \<Rightarrow> provenance \<Rightarrow> bool \<times> 'n block_state" where
  "record_auth_failure lib bs s now p =
     (if \<not> bs_enabled bs then (False, s)
      else case client_ip p of
             None \<Rightarrow> record_unresolved bs s now
           | Some ip \<Rightarrow>
               (case is_exempt lib bs s ip of
                  (ex, s1) \<Rightarrow> if ex then (False, s1) else record_resolved bs s1 now (normalize_ip_bucket lib ip)))"

type_synonym active_block = "string \<times> time \<times> int"

definition UNRESOLVED_GLOBAL :: string where "UNRESOLVED_GLOBAL = ''unresolved-global''"

definition block_order :: "active_block \<Rightarrow> time \<times> string" where
  "block_order b = (case b of (k, u, _) \<Rightarrow> (- u, k))"

definition active_entries :: "time option \<Rightarrow> (string, time) dict \<Rightarrow> time \<Rightarrow> active_block list" where
  "active_entries unresolved d now =
     (case unresolved of Some u \<Rightarrow> [(UNRESOLVED_GLOBAL, u, retry_after u now)] | None \<Rightarrow> []) @
     map (\<lambda>(k, u). (k, u, retry_after u now)) d"

definition list_active_blocks :: "block_settings \<Rightarrow> 'n block_state \<Rightarrow> time \<Rightarrow> active_block list \<times> 'n block_state" where
  "list_active_blocks bs s now =
     (if \<not> bs_enabled bs then ([], s)
      else
        (let s1 = s\<lparr>bk_unresolved_until := (case bk_unresolved_until s of Some u \<Rightarrow> if u \<le> now then None else Some u | None \<Rightarrow> None),
                    bk_blocked_until := filter (\<lambda>(k, u). \<not> u \<le> now) (bk_blocked_until s)\<rparr>
         in (sort_key block_order (active_entries (bk_unresolved_until s1) (bk_blocked_until s1) now), s1)))"

definition clear_block :: "('a, 'n) ip_lib \<Rightarrow> block_settings \<Rightarrow> 'n block_state \<Rightarrow> time \<Rightarrow> string \<Rightarrow> bool \<times> 'n block_state" where
  "clear_block lib bs s now ip =
     (if \<not> bs_enabled bs then (False, s)
      else
        (let key = normalize_ip_bucket lib ip
         in if key = UNRESOLVED_GLOBAL
            then (case bk_unresolved_until s of Some u \<Rightarrow> now < u | None \<Rightarrow> False,
                  s\<lparr>bk_unresolved_until := None, bk_unresolved_failures := []\<rparr>)
            else (case dict_get (bk_blocked_until s) key of Some u \<Rightarrow> now < u | None \<Rightarrow> False,
                  s\<lparr>bk_blocked_until := dict_del key (bk_blocked_until s), bk_failures := dict_del key (bk_failures s)\<rparr>)))"

datatype block_event =
    Check time provenance
  | Failure time provenance
  | ListBlocks time
  | Clear time string

datatype block_answer = Blocked bool int | Counted bool | Listed "active_block list" | Lifted bool

fun block_moment :: "block_event \<Rightarrow> time" where
  "block_moment (Check now _) = now"
| "block_moment (Failure now _) = now"
| "block_moment (ListBlocks now) = now"
| "block_moment (Clear now _) = now"

fun block_step :: "('a, 'n) ip_lib \<Rightarrow> block_settings \<Rightarrow> 'n block_state \<Rightarrow> block_event \<Rightarrow> block_answer \<times> 'n block_state" where
  "block_step lib bs s (Check now p) = (case is_ip_blocked lib bs s now p of ((b, n), s1) \<Rightarrow> (Blocked b n, s1))"
| "block_step lib bs s (Failure now p) = (case record_auth_failure lib bs s now p of (b, s1) \<Rightarrow> (Counted b, s1))"
| "block_step lib bs s (ListBlocks now) = (case list_active_blocks bs s now of (bs', s1) \<Rightarrow> (Listed bs', s1))"
| "block_step lib bs s (Clear now ip) = (case clear_block lib bs s now ip of (b, s1) \<Rightarrow> (Lifted b, s1))"

section \<open>What the block list means\<close>

text \<open>The reference never forgets on its own: it keeps the failures of a bucket since its last block or
  pardon, and every deadline.\<close>

record block_ref =
  rf_failures :: "string \<Rightarrow> time list"
  rf_until :: "(string, time) dict"
  rf_unresolved :: "time list"
  rf_unresolved_until :: "time option"

definition ref_init :: block_ref where
  "ref_init = \<lparr>rf_failures = (\<lambda>_. []), rf_until = [], rf_unresolved = [], rf_unresolved_until = None\<rparr>"

definition active :: "time \<Rightarrow> time option \<Rightarrow> time option" where
  "active now u = (case u of Some x \<Rightarrow> if now < x then Some x else None | None \<Rightarrow> None)"

definition answer_of :: "time \<Rightarrow> time option \<Rightarrow> block_answer" where
  "answer_of now u = (case u of Some x \<Rightarrow> Blocked True (retry_after x now) | None \<Rightarrow> Blocked False 0)"

text \<open>The bucket a failure or a check counts for; an exempt client has none.\<close>

definition counted_as :: "('a, 'n) ip_lib \<Rightarrow> block_settings \<Rightarrow> string \<Rightarrow> string option" where
  "counted_as lib bs ip =
     (if in_networks lib (parse_networks lib (bs_exempt_ips bs)) ip then None else Some (normalize_ip_bucket lib ip))"

fun block_reference :: "('a, 'n) ip_lib \<Rightarrow> block_settings \<Rightarrow> block_ref \<Rightarrow> block_event \<Rightarrow> block_answer \<times> block_ref" where
  "block_reference lib bs r (Check now p) =
     (if \<not> bs_enabled bs then Blocked False 0
      else case client_ip p of
             None \<Rightarrow> answer_of now (active now (rf_unresolved_until r))
           | Some ip \<Rightarrow>
               (case counted_as lib bs ip of None \<Rightarrow> Blocked False 0 | Some k \<Rightarrow> answer_of now (active now (dict_get (rf_until r) k))), r)"
| "block_reference lib bs r (Failure now p) =
     (if \<not> bs_enabled bs then (Counted False, r)
      else case client_ip p of
             None \<Rightarrow>
               if active now (rf_unresolved_until r) \<noteq> None then (Counted False, r)
               else if bs_unresolved_threshold bs \<le> since (now - bs_unresolved_window_sec bs) (rf_unresolved r) + 1
               then (Counted True, r\<lparr>rf_unresolved_until := Some (now + bs_unresolved_duration_sec bs), rf_unresolved := []\<rparr>)
               else (Counted False, r\<lparr>rf_unresolved := rf_unresolved r @ [now]\<rparr>)
           | Some ip \<Rightarrow>
               (case counted_as lib bs ip of
                  None \<Rightarrow> (Counted False, r)
                | Some k \<Rightarrow>
                    if active now (dict_get (rf_until r) k) \<noteq> None then (Counted False, r)
                    else if bs_threshold bs \<le> since (now - bs_window_sec bs) (rf_failures r k) + 1
                    then (Counted True, r\<lparr>rf_until := dict_set k (now + bs_duration_sec bs) (rf_until r), rf_failures := (rf_failures r)(k := [])\<rparr>)
                    else (Counted False, r\<lparr>rf_failures := (rf_failures r)(k := rf_failures r k @ [now])\<rparr>)))"
| "block_reference lib bs r (ListBlocks now) =
     (Listed (if \<not> bs_enabled bs then []
              else sort_key block_order (active_entries (active now (rf_unresolved_until r)) (filter (\<lambda>(k, u). now < u) (rf_until r)) now)), r)"
| "block_reference lib bs r (Clear now ip) =
     (let k = normalize_ip_bucket lib ip
      in if \<not> bs_enabled bs then (Lifted False, r)
         else if k = UNRESOLVED_GLOBAL
         then (Lifted (active now (rf_unresolved_until r) \<noteq> None), r\<lparr>rf_unresolved_until := None, rf_unresolved := []\<rparr>)
         else (Lifted (active now (dict_get (rf_until r) k) \<noteq> None),
               r\<lparr>rf_until := dict_del k (rf_until r), rf_failures := (rf_failures r)(k := [])\<rparr>))"

text \<open>How the two states correspond up to a moment.\<close>

definition same_failures :: "block_settings \<Rightarrow> 'n block_state \<Rightarrow> block_ref \<Rightarrow> time \<Rightarrow> bool" where
  "same_failures bs s r t \<longleftrightarrow>
     tracks (bk_failures s) (rf_failures r) (t - bs_window_sec bs) \<and> (\<forall>k. sorted (rf_failures r k) \<and> (\<forall>x \<in> set (rf_failures r k). x \<le> t))"

definition same_deadlines :: "(string, time) dict \<Rightarrow> (string, time) dict \<Rightarrow> time \<Rightarrow> bool" where
  "same_deadlines d e t \<longleftrightarrow> dict_wf d \<and> dict_wf e \<and> (\<forall>k now. t \<le> now \<longrightarrow> active now (dict_get d k) = active now (dict_get e k))"

definition same_unresolved :: "block_settings \<Rightarrow> 'n block_state \<Rightarrow> block_ref \<Rightarrow> time \<Rightarrow> bool" where
  "same_unresolved bs s r t \<longleftrightarrow>
     (\<forall>c. t - bs_unresolved_window_sec bs \<le> c \<longrightarrow> popleft_before c (bk_unresolved_failures s) = popleft_before c (rf_unresolved r)) \<and>
     sorted (rf_unresolved r) \<and> (\<forall>x \<in> set (rf_unresolved r). x \<le> t) \<and>
     (\<forall>now. t \<le> now \<longrightarrow> active now (bk_unresolved_until s) = active now (rf_unresolved_until r))"

definition cache_ok :: "('a, 'n) ip_lib \<Rightarrow> 'n block_state \<Rightarrow> bool" where
  "cache_ok lib s \<longleftrightarrow> (\<forall>raw nets. bk_exempt_cache s = Some (raw, nets) \<longrightarrow> nets = parse_networks lib raw)"

definition block_related :: "('a, 'n) ip_lib \<Rightarrow> block_settings \<Rightarrow> 'n block_state \<Rightarrow> block_ref \<Rightarrow> time \<Rightarrow> bool" where
  "block_related lib bs s r t \<longleftrightarrow>
     same_failures bs s r t \<and> same_deadlines (bk_blocked_until s) (rf_until r) t \<and> same_unresolved bs s r t \<and> cache_ok lib s"

lemma block_related_init: "block_related lib bs block_init ref_init t"
  by (simp add: block_related_def same_failures_def same_deadlines_def same_unresolved_def cache_ok_def block_init_def ref_init_def)

lemma active_simps: "active now (Some u) = (if now < u then Some u else None)" "active now None = None"
  by (simp_all add: active_def)

declare map_of_eq_Some_iff [simp del] Some_eq_map_of_iff [simp del] split_paired_All [simp del] split_paired_Ex [simp del]

lemma read_active:
  "(case u of Some x \<Rightarrow> now < x | None \<Rightarrow> False) \<longleftrightarrow> active now u \<noteq> None"
  "(case u of Some x \<Rightarrow> if x \<le> now then None else Some x | None \<Rightarrow> None) = active now u"
  by (auto simp: active_def split: option.split)

lemma active_later: "t \<le> now \<Longrightarrow> active now (active t u) = active now u"
  by (auto simp: active_def split: option.splits)

lemma block_related_later: "block_related lib bs s r t \<Longrightarrow> t \<le> now \<Longrightarrow> block_related lib bs s r now"
  by (fastforce simp: block_related_def same_failures_def same_deadlines_def same_unresolved_def elim: tracks_later)

text \<open>What the operations do to each part.\<close>

lemma exempt_follows:
  assumes "cache_ok lib s" "is_exempt lib bs s ip = (ex, s1)"
  shows "ex \<longleftrightarrow> counted_as lib bs ip = None" "cache_ok lib s1" "\<exists>c. s1 = s\<lparr>bk_exempt_cache := c\<rparr>"
proof -
  have "\<exists>c. s = s\<lparr>bk_exempt_cache := c\<rparr>" by (rule exI [of _ "bk_exempt_cache s"]) simp
  then show "ex \<longleftrightarrow> counted_as lib bs ip = None" "cache_ok lib s1" "\<exists>c. s1 = s\<lparr>bk_exempt_cache := c\<rparr>"
    using assms by (auto simp: is_exempt_def exempt_networks_def cache_ok_def counted_as_def Let_def split: option.splits if_splits prod.splits)
qed

lemma expire_deadlines:
  assumes "same_deadlines d e t"
  shows "same_deadlines (filter (\<lambda>(k, u). \<not> u \<le> t) d) e t" "dict_get d k = Some u \<Longrightarrow> u \<le> t \<Longrightarrow> same_deadlines (dict_del k d) e t"
proof -
  have wf: "dict_wf d" using assms by (simp add: same_deadlines_def)
  have "active now (dict_get (filter (\<lambda>(k, u). \<not> u \<le> t) d) j) = active now (dict_get d j)" if "t \<le> now" for now j
    using that unfolding dict_get_filter [OF wf] by (auto simp: active_def split: option.splits)
  then show "same_deadlines (filter (\<lambda>(k, u). \<not> u \<le> t) d) e t" using assms by (simp add: same_deadlines_def)
  show "same_deadlines (dict_del k d) e t" if k: "dict_get d k = Some u" "u \<le> t"
  proof -
    have "active now (dict_get (dict_del k d) j) = active now (dict_get d j)" if "t \<le> now" for now j
      using k that by (simp add: active_def)
    then show ?thesis using assms by (simp add: same_deadlines_def)
  qed
qed

lemma set_deadline:
  assumes "same_deadlines d e t"
  shows "same_deadlines (dict_set k u d) (dict_set k u e) t" "same_deadlines (dict_del k d) (dict_del k e) t"
  using assms by (simp_all add: same_deadlines_def)

lemma sweep_related:
  assumes "block_related lib bs s r now"
  shows "block_related lib bs (sweep_blocks bs s now) r now"
proof -
  have "same_deadlines (filter (\<lambda>(k, u). \<not> u \<le> now) (bk_blocked_until s)) (rf_until r) now"
    using assms expire_deadlines(1) by (simp add: block_related_def)
  moreover have "same_failures bs (sweep_blocks bs s now) r now"
    using assms by (auto simp: block_related_def same_failures_def sweep_blocks_def intro: tracks_sweep)
  moreover have "same_unresolved bs (sweep_blocks bs s now) r now"
    using assms by (auto simp: block_related_def same_unresolved_def sweep_blocks_def popleft_twice read_active active_later)
  ultimately show ?thesis using assms by (simp add: block_related_def cache_ok_def sweep_blocks_def)
qed

lemma resolved_failure_follows:
  assumes rel: "block_related lib bs s r now" and res: "record_resolved bs s now k = (b, s')"
    and ref: "(b', r') = (if active now (dict_get (rf_until r) k) \<noteq> None then (False, r)
        else if bs_threshold bs \<le> since (now - bs_window_sec bs) (rf_failures r k) + 1
        then (True, r\<lparr>rf_until := dict_set k (now + bs_duration_sec bs) (rf_until r), rf_failures := (rf_failures r)(k := [])\<rparr>)
        else (False, r\<lparr>rf_failures := (rf_failures r)(k := rf_failures r k @ [now])\<rparr>))"
  shows "b = b' \<and> block_related lib bs s' r' now"
proof -
  obtain due n where sd: "sweep_due (bk_sweep_counter s) = (due, n)" by fastforce
  define s1 where "s1 = (if due then sweep_blocks bs (s\<lparr>bk_sweep_counter := n\<rparr>) now else s\<lparr>bk_sweep_counter := n\<rparr>)"
  have "block_related lib bs (s\<lparr>bk_sweep_counter := n\<rparr>) r now"
    using rel by (simp add: block_related_def same_failures_def same_unresolved_def cache_ok_def)
  then have rel1: "block_related lib bs s1 r now" using sweep_related [of lib bs "s\<lparr>bk_sweep_counter := n\<rparr>" r now] by (simp add: s1_def)
  let ?c = "now - bs_window_sec bs" and ?H = "rf_failures r"
  define d where "d = append_time (window_of (bk_failures s1) k ?c) k now"
  have tr: "tracks (bk_failures s1) ?H ?c" and so: "\<And>j. sorted (?H j)" "\<And>j x. x \<in> set (?H j) \<Longrightarrow> x \<le> now"
    using rel1 by (auto simp: block_related_def same_failures_def)
  have dl: "same_deadlines (bk_blocked_until s1) (rf_until r) now" using rel1 by (simp add: block_related_def)
  have blocked: "(case dict_get (bk_blocked_until s1) k of Some u \<Rightarrow> now < u | None \<Rightarrow> False) \<longleftrightarrow> active now (dict_get (rf_until r) k) \<noteq> None"
    using dl by (simp add: read_active same_deadlines_def)
  have len: "int (length (dict_get_or d k [])) = since ?c (?H k) + 1"
    using tracks_window(2) [OF tr order_refl, of k] popleft_since [OF so(1) [of k], of ?c]
    by (simp add: d_def append_time_def dict_get_or_def)
  have td: "tracks d (?H(k := ?H k @ [now])) ?c" unfolding d_def by (rule tracks_append [OF tracks_window(1) [OF tr order_refl]])
  have tdel: "tracks (dict_del k d) (?H(k := [])) ?c" using tracks_forget [OF td, of k] by simp
  have step: "(b, s') = (if active now (dict_get (rf_until r) k) \<noteq> None then (False, s1)
      else if bs_threshold bs \<le> since ?c (?H k) + 1
      then (True, s1\<lparr>bk_blocked_until := dict_set k (now + bs_duration_sec bs) (bk_blocked_until s1), bk_failures := dict_del k d\<rparr>)
      else (False, s1\<lparr>bk_failures := d\<rparr>))"
    unfolding res [symmetric] record_resolved_def sd Let_def case_prod_conv s1_def [symmetric] blocked d_def [symmetric] len by simp
  have sorted': "sorted (?H k @ [now])" using so by (simp add: sorted_append)
  show ?thesis
    using step ref rel1 set_deadline(1) [OF dl, where k = k and u = "now + bs_duration_sec bs"] td tdel so sorted'
    by (auto simp: block_related_def same_failures_def same_unresolved_def cache_ok_def split: if_splits)
qed

lemma unresolved_failure_follows:
  assumes rel: "block_related lib bs s r now" and res: "record_unresolved bs s now = (b, s')"
    and ref: "(b', r') = (if active now (rf_unresolved_until r) \<noteq> None then (False, r)
        else if bs_unresolved_threshold bs \<le> since (now - bs_unresolved_window_sec bs) (rf_unresolved r) + 1
        then (True, r\<lparr>rf_unresolved_until := Some (now + bs_unresolved_duration_sec bs), rf_unresolved := []\<rparr>)
        else (False, r\<lparr>rf_unresolved := rf_unresolved r @ [now]\<rparr>))"
  shows "b = b' \<and> block_related lib bs s' r' now"
proof -
  let ?c = "now - bs_unresolved_window_sec bs"
  define ts where "ts = popleft_before ?c (bk_unresolved_failures s)"
  have pop: "popleft_before c (bk_unresolved_failures s) = popleft_before c (rf_unresolved r)" if "?c \<le> c" for c
    using rel that by (simp add: block_related_def same_unresolved_def)
  have so: "sorted (rf_unresolved r)" "\<And>x. x \<in> set (rf_unresolved r) \<Longrightarrow> x \<le> now"
    and un: "\<And>m. now \<le> m \<Longrightarrow> active m (bk_unresolved_until s) = active m (rf_unresolved_until r)"
    using rel by (auto simp: block_related_def same_unresolved_def)
  have blocked: "(case bk_unresolved_until s of Some u \<Rightarrow> now < u | None \<Rightarrow> False) \<longleftrightarrow> active now (rf_unresolved_until r) \<noteq> None"
    using un [OF order_refl] by (simp add: read_active)
  have len: "int (length (ts @ [now])) = since ?c (rf_unresolved r) + 1" using popleft_since [OF so(1)] by (simp add: ts_def pop)
  have keep: "popleft_before c ts = popleft_before c (rf_unresolved r)" if "?c \<le> c" for c using that by (simp add: ts_def popleft_twice pop)
  have snoc: "popleft_before c (ts @ [now]) = popleft_before c (rf_unresolved r @ [now])" if "?c \<le> c" for c
    using popleft_append [OF keep [OF that]] .
  have step: "(b, s') = (if active now (rf_unresolved_until r) \<noteq> None then (False, s\<lparr>bk_unresolved_failures := ts\<rparr>)
      else if bs_unresolved_threshold bs \<le> since ?c (rf_unresolved r) + 1
      then (True, s\<lparr>bk_unresolved_until := Some (now + bs_unresolved_duration_sec bs), bk_unresolved_failures := []\<rparr>)
      else (False, s\<lparr>bk_unresolved_failures := ts @ [now]\<rparr>))"
    unfolding res [symmetric] record_unresolved_def Let_def ts_def [symmetric] blocked len by simp
  have sorted': "sorted (rf_unresolved r @ [now])" using so by (simp add: sorted_append)
  show ?thesis
    using step ref rel keep snoc so un sorted' by (auto simp: block_related_def same_failures_def same_unresolved_def cache_ok_def split: if_splits)
qed

lemma active_listing:
  assumes "same_deadlines d e now" "active now u = active now v"
  shows "sort_key block_order (active_entries (active now u) (filter (\<lambda>(k, u). \<not> u \<le> now) d) now) =
    sort_key block_order (active_entries (active now v) (filter (\<lambda>(k, u). now < u) e) now)"
proof -
  let ?d = "filter (\<lambda>(k, u). \<not> u \<le> now) d" and ?e = "filter (\<lambda>(k, u). now < u) e"
  have wf: "dict_wf d" "dict_wf e" using assms(1) by (simp_all add: same_deadlines_def)
  have "x \<in> set ?d \<longleftrightarrow> x \<in> set ?e" for x
  proof -
    obtain k w where x: "x = (k, w)" by (cases x)
    have "active now (dict_get d k) = active now (dict_get e k)" using assms(1) by (simp add: same_deadlines_def)
    moreover have "(k, w) \<in> set ?d \<longleftrightarrow> dict_get d k = Some w \<and> now < w" "(k, w) \<in> set ?e \<longleftrightarrow> dict_get e k = Some w \<and> now < w"
      using map_of_eq_Some_iff [OF wf(1), of k w] map_of_eq_Some_iff [OF wf(2), of k w] by auto
    moreover have "f = Some w \<and> now < w \<longleftrightarrow> active now f = Some w" for f by (auto simp: active_def split: option.split)
    ultimately show ?thesis unfolding x by simp
  qed
  then have "set ?d = set ?e" by blast
  moreover have "distinct ?d" "distinct ?e" using wf by (simp_all add: distinct_map)
  ultimately have "mset ?d = mset ?e" using set_eq_iff_mset_eq_distinct by blast
  then have m: "mset (active_entries (active now u) ?d now) = mset (active_entries (active now v) ?e now)"
    by (simp add: active_entries_def assms(2))
  have inj: "inj_on block_order (set (active_entries w f now))" for w f
    by (auto simp: inj_on_def active_entries_def block_order_def split: option.splits)
  show ?thesis by (rule sort_key_inj_key_eq [OF _ inj sorted_sort_key]) (simp add: m)
qed

lemma block_follows:
  assumes "block_related lib bs s r t" "t \<le> block_moment e"
  shows "fst (block_step lib bs s e) = fst (block_reference lib bs r e) \<and>
    block_related lib bs (snd (block_step lib bs s e)) (snd (block_reference lib bs r e)) (block_moment e)"
proof -
  define now where "now = block_moment e"
  have rel: "block_related lib bs s r now" using block_related_later assms by (simp add: now_def)
  have dl: "same_deadlines (bk_blocked_until s) (rf_until r) now" using rel by (simp add: block_related_def)
  have get: "active now (dict_get (bk_blocked_until s) k) = active now (dict_get (rf_until r) k)" for k using dl by (simp add: same_deadlines_def)
  have un: "active m (bk_unresolved_until s) = active m (rf_unresolved_until r)" if "now \<le> m" for m
    using rel that by (simp add: block_related_def same_unresolved_def)
  have ca: "cache_ok lib s" using rel by (simp add: block_related_def)
  have cached: "block_related lib bs (s\<lparr>bk_exempt_cache := c\<rparr>) r now" if "cache_ok lib (s\<lparr>bk_exempt_cache := c\<rparr>)" for c
    using rel that by (simp add: block_related_def same_failures_def same_unresolved_def)
  show ?thesis
  proof (cases "bs_enabled bs")
    case False
    then show ?thesis using rel by (cases e) (simp_all add: is_ip_blocked_def record_auth_failure_def list_active_blocks_def clear_block_def Let_def now_def)
  next
    case True
    show ?thesis
    proof (cases e)
      case (Check n p)
      then have n: "n = now" by (simp add: now_def)
      show ?thesis
      proof (cases "client_ip p")
        case None
        have "block_related lib bs (s\<lparr>bk_unresolved_until := None\<rparr>) r now" if "bk_unresolved_until s = Some u" "u \<le> now" for u
          using rel that un by (auto simp: block_related_def same_failures_def same_unresolved_def cache_ok_def active_simps)
        then show ?thesis using True Check n None rel un [OF order_refl]
          by (auto simp: is_ip_blocked_def answer_of_def active_def split: option.splits if_splits)
      next
        case (Some ip)
        obtain ex s1 where ex: "is_exempt lib bs s ip = (ex, s1)" by fastforce
        note x = exempt_follows [OF ca ex]
        have rel1: "block_related lib bs s1 r now" using x(2,3) cached by blast
        have dl1: "same_deadlines (bk_blocked_until s1) (rf_until r) now" using rel1 by (simp add: block_related_def)
        have get1: "active now (dict_get (bk_blocked_until s1) k) = active now (dict_get (rf_until r) k)" for k using dl1 by (simp add: same_deadlines_def)
        let ?k = "normalize_ip_bucket lib ip"
        have "block_related lib bs (s1\<lparr>bk_blocked_until := dict_del ?k (bk_blocked_until s1)\<rparr>) r now"
          if "dict_get (bk_blocked_until s1) ?k = Some u" "u \<le> now" for u
          using rel1 expire_deadlines(2) [OF dl1 that] by (simp add: block_related_def same_failures_def same_unresolved_def cache_ok_def)
        then show ?thesis using True Check n Some ex x(1) rel1 get1 [of ?k]
          by (cases ex) (auto simp: is_ip_blocked_def counted_as_def answer_of_def active_def Let_def split: option.splits if_splits)
      qed
    next
      case (Failure n p)
      then have n: "n = now" by (simp add: now_def)
      show ?thesis
      proof (cases "client_ip p")
        case None
        obtain b s' where b: "record_unresolved bs s now = (b, s')" by fastforce
        from unresolved_failure_follows [OF rel b prod.collapse] show ?thesis
          using True Failure n None b by (auto simp: record_auth_failure_def split: if_splits)
      next
        case (Some ip)
        obtain ex s1 where ex: "is_exempt lib bs s ip = (ex, s1)" by fastforce
        note x = exempt_follows [OF ca ex]
        have rel1: "block_related lib bs s1 r now" using x(2,3) cached by blast
        let ?k = "normalize_ip_bucket lib ip"
        obtain b s' where b: "record_resolved bs s1 now ?k = (b, s')" by fastforce
        from resolved_failure_follows [OF rel1 b prod.collapse] show ?thesis
          using True Failure n Some ex x(1) rel1 b by (auto simp: record_auth_failure_def counted_as_def split: if_splits)
      qed
    next
      case (ListBlocks n)
      then have n: "n = now" by (simp add: now_def)
      have "block_related lib bs (s\<lparr>bk_unresolved_until := active now (bk_unresolved_until s),
          bk_blocked_until := filter (\<lambda>(k, u). \<not> u \<le> now) (bk_blocked_until s)\<rparr>) r now"
        using rel expire_deadlines(1) [OF dl] by (simp add: block_related_def same_failures_def same_unresolved_def cache_ok_def active_later)
      then show ?thesis using True ListBlocks n active_listing [OF dl un [OF order_refl]]
        by (simp add: list_active_blocks_def read_active Let_def)
    next
      case (Clear n ip)
      then have n: "n = now" by (simp add: now_def)
      let ?k = "normalize_ip_bucket lib ip"
      have "block_related lib bs (s\<lparr>bk_unresolved_until := None, bk_unresolved_failures := []\<rparr>) (r\<lparr>rf_unresolved_until := None, rf_unresolved := []\<rparr>) now"
        using rel by (simp add: block_related_def same_failures_def same_unresolved_def cache_ok_def)
      moreover have "block_related lib bs (s\<lparr>bk_blocked_until := dict_del ?k (bk_blocked_until s), bk_failures := dict_del ?k (bk_failures s)\<rparr>)
          (r\<lparr>rf_until := dict_del ?k (rf_until r), rf_failures := (rf_failures r)(?k := [])\<rparr>) now"
        using rel set_deadline(2) [OF dl, of ?k] by (auto simp: block_related_def same_failures_def same_unresolved_def cache_ok_def intro: tracks_forget)
      ultimately show ?thesis using True Clear n un [OF order_refl] get [of ?k] by (simp add: clear_block_def Let_def read_active)
    qed
  qed
qed

interpretation block_list: follows_history "block_step lib bs" "block_reference lib bs" block_moment "block_related lib bs" for lib bs
  by unfold_locales (simp_all add: block_follows)

section \<open>Blocks are earned\<close>

text \<open>The times of the failures of a bucket, and those of the clients without an address.\<close>

fun failed_at :: "('a, 'n) ip_lib \<Rightarrow> block_settings \<Rightarrow> string option \<Rightarrow> block_event \<Rightarrow> time list" where
  "failed_at lib bs b (Failure now p) =
     (if (case client_ip p of None \<Rightarrow> b = None | Some ip \<Rightarrow> b \<noteq> None \<and> counted_as lib bs ip = b) then [now] else [])"
| "failed_at lib bs b _ = []"

definition failures_of :: "('a, 'n) ip_lib \<Rightarrow> block_settings \<Rightarrow> string option \<Rightarrow> block_event list \<Rightarrow> time list" where
  "failures_of lib bs b es = concat (map (failed_at lib bs b) es)"

text \<open>A deadline a bucket may have: so many failures in one window, and the block from the last of them.\<close>

definition earned :: "int \<Rightarrow> time \<Rightarrow> time \<Rightarrow> time list \<Rightarrow> time \<Rightarrow> bool" where
  "earned threshold width duration ts until \<longleftrightarrow>
     (\<exists>T \<in> set ts. until = T + duration \<and> threshold \<le> since (T - width) (filter (\<lambda>t. t \<le> T) ts))"

definition blocks_earned :: "('a, 'n) ip_lib \<Rightarrow> block_settings \<Rightarrow> block_ref \<Rightarrow> block_event list \<Rightarrow> bool" where
  "blocks_earned lib bs r es \<longleftrightarrow>
     (\<forall>k. subseq (rf_failures r k) (failures_of lib bs (Some k) es)) \<and> subseq (rf_unresolved r) (failures_of lib bs None es) \<and>
     (\<forall>k u. dict_get (rf_until r) k = Some u \<longrightarrow> earned (bs_threshold bs) (bs_window_sec bs) (bs_duration_sec bs) (failures_of lib bs (Some k) es) u) \<and>
     (\<forall>u. rf_unresolved_until r = Some u \<longrightarrow>
        earned (bs_unresolved_threshold bs) (bs_unresolved_window_sec bs) (bs_unresolved_duration_sec bs) (failures_of lib bs None es) u)"

lemma earned_snoc: "earned n w d ts u \<Longrightarrow> earned n w d (ts @ ys) u"
  by (fastforce simp: earned_def since_def)

lemma failures_snoc: "failures_of lib bs b (es @ [e]) = failures_of lib bs b es @ failed_at lib bs b e"
  by (simp add: failures_of_def)

lemma blocks_earned_grow: "blocks_earned lib bs r es \<Longrightarrow> blocks_earned lib bs r (es @ [e])"
  by (auto simp: blocks_earned_def failures_snoc intro: earned_snoc subseq_rev_drop_many list_emb_append2)

lemma earned_now:
  assumes "subseq hs ts" "n \<le> since (now - w) hs + 1" "0 \<le> w" "\<forall>t \<in> set ts. t \<le> now"
  shows "earned n w d (ts @ [now]) (now + d)"
proof -
  have "length (filter (\<lambda>t. now - w \<le> t) hs) \<le> length (filter (\<lambda>t. now - w \<le> t) ts)"
    by (rule list_emb_length [OF subseq_filter [OF assms(1)]])
  moreover have "filter (\<lambda>t. t \<le> now) (ts @ [now]) = ts @ [now]" using assms(4) by (simp add: filter_id_conv)
  ultimately show ?thesis using assms(2,3) unfolding earned_def by (intro bexI [of _ now]) (simp_all add: since_def)
qed

lemma failures_moments: "x \<in> set (failures_of lib bs b es) \<Longrightarrow> x \<in> block_moment ` set es"
proof -
  have "x = block_moment e" if "x \<in> set (failed_at lib bs b e)" for e using that by (cases e) (auto split: if_splits)
  then show "x \<in> set (failures_of lib bs b es) \<Longrightarrow> x \<in> block_moment ` set es" by (auto simp: failures_of_def)
qed

lemma failure_earned:
  assumes ok: "blocks_earned lib bs r es" and past: "\<And>b. \<forall>t \<in> set (failures_of lib bs b es). t \<le> now"
    and w: "0 \<le> bs_window_sec bs" "0 \<le> bs_unresolved_window_sec bs"
  shows "blocks_earned lib bs (snd (block_reference lib bs r (Failure now p))) (es @ [Failure now p])"
proof (cases "\<not> bs_enabled bs \<or> (\<exists>ip. client_ip p = Some ip \<and> counted_as lib bs ip = None)")
  case True
  then have "snd (block_reference lib bs r (Failure now p)) = r" by auto
  then show ?thesis using blocks_earned_grow [OF ok] by simp
next
  case False
  let ?e = "Failure now p"
  note grown = blocks_earned_grow [OF ok, of ?e]
  show ?thesis
  proof (cases "client_ip p")
    case None
    have new: "failures_of lib bs None (es @ [?e]) = failures_of lib bs None es @ [now]" by (simp add: failures_snoc None)
    have sub: "subseq (rf_unresolved r) (failures_of lib bs None es)" using ok by (simp add: blocks_earned_def)
    show ?thesis using grown False None new sub earned_now [OF sub _ w(2) past, of "bs_unresolved_threshold bs" "bs_unresolved_duration_sec bs"]
      by (auto simp: blocks_earned_def)
  next
    case (Some ip)
    then obtain k where k: "counted_as lib bs ip = Some k" using False by auto
    have new: "failures_of lib bs (Some k) (es @ [?e]) = failures_of lib bs (Some k) es @ [now]" by (simp add: failures_snoc Some k)
    have sub: "subseq (rf_failures r k) (failures_of lib bs (Some k) es)" using ok by (simp add: blocks_earned_def)
    show ?thesis using grown False Some k new sub earned_now [OF sub _ w(1) past, of "bs_threshold bs" "bs_duration_sec bs"]
      by (auto simp: blocks_earned_def)
  qed
qed

lemma step_earned:
  assumes "blocks_earned lib bs r es" "\<And>b. \<forall>t \<in> set (failures_of lib bs b es). t \<le> block_moment e" "0 \<le> bs_window_sec bs" "0 \<le> bs_unresolved_window_sec bs"
  shows "blocks_earned lib bs (snd (block_reference lib bs r e)) (es @ [e])"
proof (cases e)
  case (Failure now p)
  then show ?thesis using failure_earned [OF assms(1) _ assms(3,4), of now p] assms(2) by simp
next
  case (Clear now ip)
  then show ?thesis using blocks_earned_grow [OF assms(1), of e] by (auto simp: blocks_earned_def Let_def)
qed (use blocks_earned_grow [OF assms(1), of e] in simp_all)

lemma run_earned:
  assumes "sorted (map block_moment es)" "0 \<le> bs_window_sec bs" "0 \<le> bs_unresolved_window_sec bs"
  shows "blocks_earned lib bs (final (block_reference lib bs) ref_init es) es"
  using assms(1)
proof (induction es rule: rev_induct)
  case Nil
  then show ?case by (simp add: blocks_earned_def ref_init_def)
next
  case (snoc e es)
  then have "\<forall>t \<in> set (failures_of lib bs b es). t \<le> block_moment e" for b
    using failures_moments [of _ lib bs b es] by (fastforce simp: sorted_append)
  then show ?case using step_earned [OF _ _ assms(2,3), of lib "final (block_reference lib bs) ref_init es" es e] snoc by (simp add: sorted_append)
qed

section \<open>Properties\<close>

text \<open>C35. The block list forgets nothing that matters. As long as the clock does not go back, every answer
  (is this client blocked and for how long, did this failure block it, who is blocked, was a block
  lifted) is the one of a reference without sweeps, expiry on reading and caches, which remembers
  for each bucket every failure since its last block or pardon and every deadline.\<close>

theorem blocklist_exact:
  assumes "sorted (map block_moment es)"
  shows "answers (block_step lib bs) block_init es = answers (block_reference lib bs) ref_init es"
  by (rule block_list.same_answers_fresh [OF block_related_init assms])

text \<open>An address library for examples: every text is an IPv4 address and a network of its own.\<close>

definition demo_lib :: "(string, string) ip_lib" where
  "demo_lib = \<lparr>lib_address = Some, lib_network = Some, lib_version = (\<lambda>_. 4), lib_ipv4_mapped = (\<lambda>_. None),
     lib_contains = (=), lib_prefix = (\<lambda>a _. a), lib_str = (\<lambda>a. a), lib_network_str = (\<lambda>n. n)\<rparr>"

definition demo_blocks :: block_settings where
  "demo_blocks = \<lparr>bs_enabled = True, bs_threshold = 2, bs_window_sec = 10, bs_duration_sec = 60, bs_unresolved_threshold = 2,
     bs_unresolved_window_sec = 10, bs_unresolved_duration_sec = 5, bs_exempt_ips = ''9, 8''\<rparr>"

definition demo_blocked :: "block_event list" where
  "demo_blocked = [Failure 0 (Address ''7''), Failure 3 (Address ''8''), Failure 4 (Address ''8''), Failure 5 (Address ''7'')]"

theorem blocklist_exact_witness:
  "answers (block_step demo_lib demo_blocks) block_init (demo_blocked @ [Check 9 (Address ''8''), Check 9 (Address ''7'')]) =
     [Counted False, Counted False, Counted False, Counted True, Blocked False 0, Blocked True 56]"
proof -
  let ?es = "demo_blocked @ [Check 9 (Address ''8''), Check 9 (Address ''7'')]"
  have "answers (block_step demo_lib demo_blocks) block_init ?es = answers (block_reference demo_lib demo_blocks) ref_init ?es"
    by (rule blocklist_exact) (simp add: demo_blocked_def)
  also have "\<dots> = [Counted False, Counted False, Counted False, Counted True, Blocked False 0, Blocked True 56]" by code_simp
  finally show ?thesis .
qed

text \<open>C36. Nobody is blocked without cause. Whenever a client is refused, it is not exempt, its bucket failed
  at least as often as the threshold says within one window that ends with a failure of its own, less
  than the duration of a block ago, and it is told to wait for the rest of that duration; a client
  without an address is refused only for the failures of such clients.\<close>

theorem blocks_are_earned:
  assumes "sorted (map block_moment (es @ [Check now p]))" "0 \<le> bs_window_sec bs" "0 \<le> bs_unresolved_window_sec bs"
    "answers (block_step lib bs) block_init (es @ [Check now p]) = as @ [Blocked True n]"
  shows "\<exists>until > now. n = retry_after until now \<and>
    (case client_ip p of
       None \<Rightarrow> earned (bs_unresolved_threshold bs) (bs_unresolved_window_sec bs) (bs_unresolved_duration_sec bs) (failures_of lib bs None es) until
     | Some ip \<Rightarrow> \<exists>k. counted_as lib bs ip = Some k \<and>
         earned (bs_threshold bs) (bs_window_sec bs) (bs_duration_sec bs) (failures_of lib bs (Some k) es) until)"
proof -
  let ?r = "final (block_reference lib bs) ref_init es"
  have "answers (block_reference lib bs) ref_init (es @ [Check now p]) = as @ [Blocked True n]"
    by (rule trans [OF block_list.same_answers_fresh [OF block_related_init assms(1), symmetric] assms(4)])
  then have b: "fst (block_reference lib bs ?r (Check now p)) = Blocked True n" by (simp only: answers_snoc append1_eq_conv)
  have "blocks_earned lib bs ?r es" using assms(1) by (intro run_earned [OF _ assms(2,3)]) (simp add: sorted_append)
  then show ?thesis using b
    by (fastforce simp: blocks_earned_def answer_of_def active_def split: option.splits if_splits)
qed

theorem blocks_are_earned_witness:
  "\<exists>until > 9. (56 :: int) = retry_after until 9 \<and> earned 2 10 60 (failures_of demo_lib demo_blocks (Some ''7'') demo_blocked) until"
proof -
  have "sorted (map block_moment (demo_blocked @ [Check 9 (Address ''7'')]))" by (simp add: demo_blocked_def)
  moreover have "0 \<le> bs_window_sec demo_blocks" "0 \<le> bs_unresolved_window_sec demo_blocks" by (simp_all add: demo_blocks_def)
  moreover have "answers (block_step demo_lib demo_blocks) block_init (demo_blocked @ [Check 9 (Address ''7'')]) =
      [Counted False, Counted False, Counted False, Counted True] @ [Blocked True 56]" by code_simp
  ultimately have "\<exists>until > 9. (56 :: int) = retry_after until 9 \<and> (case client_ip (Address ''7'') of
       None \<Rightarrow> earned (bs_unresolved_threshold demo_blocks) (bs_unresolved_window_sec demo_blocks) (bs_unresolved_duration_sec demo_blocks) (failures_of demo_lib demo_blocks None demo_blocked) until
     | Some ip \<Rightarrow> \<exists>k. counted_as demo_lib demo_blocks ip = Some k \<and>
         earned (bs_threshold demo_blocks) (bs_window_sec demo_blocks) (bs_duration_sec demo_blocks) (failures_of demo_lib demo_blocks (Some k) demo_blocked) until)"
    by (rule blocks_are_earned)
  moreover have "counted_as demo_lib demo_blocks ''7'' = Some ''7''" by code_simp
  ultimately show ?thesis by (simp add: client_ip_def) (simp add: demo_blocks_def)
qed

end
