(* ===== verification/Session_Store.thy ===== *)
theory Session_Store
  imports Sliding_Window
begin

text \<open>
  \<open>SessionStore\<close> of \<open>routing/model_selection/session.py\<close>: an \<open>OrderedDict\<close> from sessions to what they settled
  on, ordered by when each was last stored, that forgets what has been idle for too long and, past its
  capacity, what was stored longest ago. Keys and states are type variables. \<open>put\<close> and \<open>get\<close> run under
  a lock, so each is one step.

  The store is compared with the complete list of everything that was ever stored: an answer is the last
  state stored under the key, unless it is too old or as many other sessions were stored since as the
  store holds. This interprets \<open>follows_history\<close>.
\<close>

section \<open>Ordered dicts\<close>

definition move_to_end :: "'k \<Rightarrow> ('k, 'v) dict \<Rightarrow> ('k, 'v) dict" where
  "move_to_end k d = (case dict_get d k of None \<Rightarrow> d | Some v \<Rightarrow> dict_del k d @ [(k, v)])"

text \<open>\<open>while len(d) > n: d.popitem(last=False)\<close>.\<close>

fun pop_oldest :: "nat \<Rightarrow> ('k, 'v) dict \<Rightarrow> ('k, 'v) dict" where
  "pop_oldest n [] = []"
| "pop_oldest n (x # xs) = (if n < length (x # xs) then pop_oldest n xs else x # xs)"

lemma pop_oldest_drop: "pop_oldest n d = drop (length d - n) d"
  by (induction d) (auto simp: Suc_diff_le)

lemma del_absent: "k \<notin> fst ` set d \<Longrightarrow> dict_del k d = d"
  by (induction d) auto

lemma del_append [simp]: "dict_del k (xs @ ys) = dict_del k xs @ dict_del k ys"
  by (simp add: AList.delete_eq)

lemma del_length: "dict_wf d \<Longrightarrow> length d \<le> Suc (length (dict_del k d))"
  by (induction d) (auto simp: del_absent)

lemma move_set: "move_to_end k (dict_set k v d) = dict_del k d @ [(k, v)]"
proof -
  have "dict_del k (dict_set k v d) = dict_del k d" by (induction d) auto
  then show ?thesis by (simp add: move_to_end_def)
qed

section \<open>The store\<close>

record ('k, 'v) session_store =
  st_idle_timeout :: time
  st_max_sessions :: nat
  st_entries :: "('k, 'v \<times> time) dict"

text \<open>\<open>None\<close> is the \<open>ValueError\<close> of a timeout or a capacity that is not positive.\<close>

definition SessionStore_init :: "time \<Rightarrow> nat \<Rightarrow> ('k, 'v) session_store option" where
  "SessionStore_init idle_timeout_seconds max_sessions =
     (if idle_timeout_seconds \<le> 0 \<or> max_sessions = 0 then None
      else Some \<lparr>st_idle_timeout = idle_timeout_seconds, st_max_sessions = max_sessions, st_entries = []\<rparr>)"

definition session_get :: "time \<Rightarrow> 'k \<Rightarrow> ('k, 'v) session_store \<Rightarrow> 'v option \<times> ('k, 'v) session_store" where
  "session_get now key s =
     (case dict_get (st_entries s) key of
        None \<Rightarrow> (None, s)
      | Some (state, stored_at) \<Rightarrow>
          if st_idle_timeout s < now - stored_at then (None, s\<lparr>st_entries := dict_del key (st_entries s)\<rparr>)
          else (Some state, s))"

definition drop_idle :: "time \<Rightarrow> time \<Rightarrow> ('k, 'v \<times> time) dict \<Rightarrow> ('k, 'v \<times> time) dict" where
  "drop_idle idle now d = dropWhile (\<lambda>(k, v, t). \<not> now - t \<le> idle) d"

definition session_put :: "time \<Rightarrow> 'k \<Rightarrow> 'v \<Rightarrow> ('k, 'v) session_store \<Rightarrow> ('k, 'v) session_store" where
  "session_put now key state s =
     s\<lparr>st_entries := pop_oldest (st_max_sessions s)
         (drop_idle (st_idle_timeout s) now (move_to_end key (dict_set key (state, now) (st_entries s))))\<rparr>"

section \<open>Everything that was stored\<close>

text \<open>What was stored, oldest first: moment, session, state.\<close>

type_synonym ('k, 'v) stores = "(time \<times> 'k \<times> 'v) list"

definition key_of :: "time \<times> 'k \<times> 'v \<Rightarrow> 'k" where
  "key_of x = fst (snd x)"

definition recall :: "time \<Rightarrow> nat \<Rightarrow> time \<Rightarrow> 'k \<Rightarrow> ('k, 'v) stores \<Rightarrow> 'v option" where
  "recall idle cap now k h =
     (case dropWhile (\<lambda>x. key_of x \<noteq> k) (rev h) of
        [] \<Rightarrow> None
      | (t, _, v) # _ \<Rightarrow>
          if now - t \<le> idle \<and> length (remdups (map key_of (takeWhile (\<lambda>x. key_of x \<noteq> k) (rev h)))) < cap then Some v else None)"

text \<open>The last state of every session, in the order of their moments.\<close>

definition recency :: "('k, 'v) stores \<Rightarrow> ('k, 'v \<times> time) dict" where
  "recency h = foldl (\<lambda>d (t, k, v). dict_del k d @ [(k, (v, t))]) [] h"

lemma recency_snoc [simp]: "recency [] = []" "recency (h @ [(t, k, v)]) = dict_del k (recency h) @ [(k, (v, t))]"
  by (simp_all add: recency_def)

lemma recency_keys: "fst ` set (recency h) = key_of ` set h" "dict_wf (recency h)"
proof -
  have "fst ` set (recency h) = key_of ` set h \<and> dict_wf (recency h)"
  proof (induction h rule: rev_induct)
    case (snoc x h)
    obtain t k v where x: "x = (t, k, v)" by (metis prod.collapse)
    have "fst ` set (dict_del k (recency h)) = key_of ` set h - {k}" using snoc by (simp add: delete_keys image_set del: set_map)
    then show ?case using snoc by (auto simp: x key_of_def)
  qed simp
  then show "fst ` set (recency h) = key_of ` set h" "dict_wf (recency h)" by blast+
qed

lemma recency_append: "recency (g @ h) = filter (\<lambda>x. fst x \<notin> key_of ` set h) (recency g) @ recency h"
proof (induction h rule: rev_induct)
  case (snoc x h)
  obtain t k v where x: "x = (t, k, v)" by (metis prod.collapse)
  have "recency (g @ h @ [x]) = dict_del k (recency (g @ h)) @ [(k, (v, t))]" by (simp add: x flip: append_assoc)
  also have "\<dots> = filter (\<lambda>y. fst y \<noteq> k) (filter (\<lambda>x. fst x \<notin> key_of ` set h) (recency g)) @ dict_del k (recency h) @ [(k, (v, t))]"
    unfolding snoc by (simp add: AList.delete_eq split_def eq_commute)
  finally show ?case by (simp add: x key_of_def conj_commute)
qed simp

lemma recency_length: "length (recency h) = card (key_of ` set h)"
  using distinct_card [OF recency_keys(2) [of h]] by (simp add: recency_keys(1))

text \<open>The store that never forgets, cut down to the last sessions, answers as \<open>recall\<close> does.\<close>

definition live :: "time \<Rightarrow> time \<Rightarrow> 'k \<times> 'v \<times> time \<Rightarrow> bool" where
  "live idle now x \<longleftrightarrow> now - snd (snd x) \<le> idle"

definition last_n :: "nat \<Rightarrow> 'a list \<Rightarrow> 'a list" where
  "last_n n xs = drop (length xs - n) xs"

lemma last_n_append: "last_n n (xs @ ys) = last_n (n - length ys) xs @ last_n n ys"
  by (cases "length ys \<le> n") (simp_all add: last_n_def)

lemma recall_get:
  "recall idle cap now k h = map_option fst (dict_get (filter (live idle now) (last_n cap (recency h))) k)"
proof (cases "k \<in> key_of ` set h")
  case False
  then have dw: "dropWhile (\<lambda>x. key_of x \<noteq> k) (rev h) = []" by auto
  have "k \<notin> fst ` set (filter (live idle now) (last_n cap (recency h)))"
    using False set_drop_subset [of _ "recency h"] recency_keys(1) [of h] by (force simp: last_n_def)
  then have "dict_get (filter (live idle now) (last_n cap (recency h))) k = None" by (simp add: map_of_eq_None_iff)
  then show ?thesis unfolding recall_def dw by simp
next
  case True
  then obtain x where "x \<in> set h" "key_of x = k" by blast
  then obtain g y f where h: "h = g @ y # f" "key_of y = k" "\<forall>z \<in> set f. key_of z \<noteq> k"
    using split_list_last_prop [of h "\<lambda>x. key_of x = k"] by blast
  obtain t v where y: "y = (t, k, v)" using h(2) by (cases y) (auto simp: key_of_def)
  have tw: "takeWhile (\<lambda>x. key_of x \<noteq> k) (rev h) = rev f" "dropWhile (\<lambda>x. key_of x \<noteq> k) (rev h) = y # rev g"
    using h by (simp_all add: takeWhile_append dropWhile_append)
  have n: "length (remdups (map key_of (rev f))) = length (recency f)"
    by (simp add: recency_length length_remdups_card_conv)
  define ys where "ys = filter (\<lambda>x. fst x \<notin> key_of ` set f) (dict_del k (recency g))"
  have kf: "k \<notin> key_of ` set f" using h(3) by auto
  have "recency h = (ys @ [(k, (v, t))]) @ recency f"
    using recency_append [of "g @ [y]" f] kf unfolding h(1) y ys_def by simp
  then have rec: "last_n cap (recency h) = last_n (cap - length (recency f)) (ys @ [(k, (v, t))]) @ last_n cap (recency f)"
    by (simp only: last_n_append)
  have later: "dict_get (filter (live idle now) (last_n cap (recency f))) k = None"
    unfolding map_of_eq_None_iff using kf set_drop_subset [of _ "recency f"] recency_keys(1) [of f] by (force simp: last_n_def)
  have earlier: "dict_get (filter (live idle now) (last_n m ys)) k = None" for m
    unfolding map_of_eq_None_iff using set_drop_subset [of _ ys] by (force simp: last_n_def ys_def AList.delete_eq)
  show ?thesis
  proof (cases "length (recency f) < cap")
    case True
    then have "last_n (cap - length (recency f)) (ys @ [(k, (v, t))]) = last_n (cap - length (recency f) - 1) ys @ [(k, (v, t))]"
      by (simp add: last_n_append) (simp add: last_n_def)
    then show ?thesis using True later earlier
      by (simp add: recall_def tw y n rec map_add_def) (simp add: live_def)
  next
    case False
    then have "last_n cap (recency h) = last_n cap (recency f)" unfolding rec by (simp add: last_n_def)
    then show ?thesis using False later by (simp add: recall_def tw y n)
  qed
qed

section \<open>The store answers like the list\<close>

datatype ('k, 'v) store_op = SGet time 'k | SPut time 'k 'v

fun op_time :: "('k, 'v) store_op \<Rightarrow> time" where
  "op_time (SGet t k) = t"
| "op_time (SPut t k v) = t"

fun store_step :: "('k, 'v) session_store \<Rightarrow> ('k, 'v) store_op \<Rightarrow> 'v option \<times> ('k, 'v) session_store" where
  "store_step s (SGet now k) = session_get now k s"
| "store_step s (SPut now k v) = (None, session_put now k v s)"

fun recall_step :: "time \<Rightarrow> nat \<Rightarrow> ('k, 'v) stores \<Rightarrow> ('k, 'v) store_op \<Rightarrow> 'v option \<times> ('k, 'v) stores" where
  "recall_step idle cap h (SGet now k) = (recall idle cap now k h, h)"
| "recall_step idle cap h (SPut now k v) = (None, h @ [(now, k, v)])"

definition in_order :: "('k, 'v \<times> time) dict \<Rightarrow> time \<Rightarrow> bool" where
  "in_order d now \<longleftrightarrow> sorted (map (snd \<circ> snd) d) \<and> (\<forall>x \<in> set d. snd (snd x) \<le> now)"

definition store_follows :: "time \<Rightarrow> nat \<Rightarrow> ('k, 'v) session_store \<Rightarrow> ('k, 'v) stores \<Rightarrow> time \<Rightarrow> bool" where
  "store_follows idle cap s h now \<longleftrightarrow>
     st_idle_timeout s = idle \<and> st_max_sessions s = cap \<and> 0 < cap \<and> 0 < idle \<and> dict_wf (st_entries s) \<and> in_order (st_entries s) now \<and>
     in_order (recency h) now \<and> filter (live idle now) (st_entries s) = filter (live idle now) (last_n cap (recency h))"

lemma in_order_later: "in_order d now \<Longrightarrow> now \<le> later \<Longrightarrow> in_order d later"
  by (auto simp: in_order_def)

lemma in_order_del: "in_order d now \<Longrightarrow> in_order (dict_del k d) now"
  by (auto simp: in_order_def AList.delete_eq sorted_filter)

lemma in_order_filter: "in_order d now \<Longrightarrow> in_order (filter P d) now"
  by (simp add: in_order_def sorted_filter)

lemma in_order_drop: "in_order d now \<Longrightarrow> in_order (drop n d) now"
  by (auto simp: in_order_def drop_map [symmetric] sorted_wrt_drop dest: in_set_dropD)

lemma in_order_snoc: "in_order d now \<Longrightarrow> in_order (d @ [(k, (v, now))]) now"
  by (auto simp: in_order_def sorted_append)

lemma live_earlier: "now \<le> later \<Longrightarrow> filter (live idle later) xs = filter (live idle later) (filter (live idle now) xs)"
  by (auto simp: live_def intro!: filter_cong)

text \<open>In a dict in the order of its moments the live entries come last, so that cutting it down and
  dropping the idle ones commute.\<close>

lemma live_suffix: "in_order d now \<Longrightarrow> drop_idle idle now d = filter (live idle now) d"
proof (induction d)
  case (Cons x d)
  then have d: "in_order d now" by (simp add: in_order_def)
  show ?case
  proof (cases "live idle now x")
    case True
    then have "filter (live idle now) d = d" using Cons.prems by (auto simp: in_order_def live_def filter_id_conv)
    moreover have "drop_idle idle now (x # d) = x # d" using True by (cases x) (simp add: drop_idle_def live_def)
    ultimately show ?thesis using True by simp
  next
    case False
    then have "drop_idle idle now (x # d) = drop_idle idle now d" by (cases x) (simp add: drop_idle_def live_def)
    then show ?thesis using False Cons.IH [OF d] by simp
  qed
qed (simp add: drop_idle_def)

lemma live_last_n:
  assumes "in_order d now"
  shows "filter (live idle now) (last_n n d) = last_n n (filter (live idle now) d)"
proof -
  let ?i = "takeWhile (\<lambda>(k, v, t). \<not> now - t \<le> idle) d" and ?l = "filter (live idle now) d"
  have d: "d = ?i @ ?l" using live_suffix [OF assms, of idle] takeWhile_dropWhile_id [of "\<lambda>(k, v, t). \<not> now - t \<le> idle" d] by (simp add: drop_idle_def)
  have "\<not> live idle now x" if "x \<in> set ?i" for x using set_takeWhileD [OF that] by (auto simp: live_def)
  then have "filter (live idle now) (last_n m ?i) = []" for m by (auto simp: last_n_def filter_empty_conv dest!: in_set_dropD)
  moreover have "filter (live idle now) (last_n n ?l) = last_n n ?l" by (auto simp: last_n_def filter_id_conv dest: in_set_dropD)
  ultimately show ?thesis using arg_cong [OF d, of "\<lambda>x. filter (live idle now) (last_n n x)"] by (simp add: last_n_append)
qed

lemma last_n_again:
  assumes "dict_wf d" "0 < n"
  shows "last_n n (dict_del k (last_n n d) @ [x]) = last_n n (dict_del k d @ [x])"
proof -
  define a where "a = take (length d - n) d"
  have d: "d = a @ last_n n d" by (simp add: a_def last_n_def)
  show ?thesis
  proof (cases "length d \<le> n")
    case False
    then have len: "length (last_n n d) = n" by (simp add: last_n_def)
    have "dict_wf (last_n n d)" using assms(1) by (simp add: last_n_def drop_map [symmetric] distinct_drop)
    then have "n \<le> length (dict_del k (last_n n d) @ [x])" using del_length [of "last_n n d" k] len by simp
    then have "last_n n (dict_del k a @ (dict_del k (last_n n d) @ [x])) = last_n n (dict_del k (last_n n d) @ [x])"
      by (simp only: last_n_append) (simp add: last_n_def)
    then show ?thesis using arg_cong [OF d, of "dict_del k"] by simp
  qed (simp add: last_n_def)
qed

lemma live_del: "filter (live idle now) (dict_del k d) = dict_del k (filter (live idle now) d)"
  by (simp add: AList.delete_eq conj_commute)

lemma store_follows_later:
  assumes "store_follows idle cap s h t" "t \<le> now"
  shows "store_follows idle cap s h now"
proof -
  have "filter (live idle t) (st_entries s) = filter (live idle t) (last_n cap (recency h))" using assms(1) by (simp add: store_follows_def)
  then have "filter (live idle now) (st_entries s) = filter (live idle now) (last_n cap (recency h))"
    using live_earlier [OF assms(2), of idle "st_entries s"] live_earlier [OF assms(2), of idle "last_n cap (recency h)"] by simp
  then show ?thesis using assms in_order_later by (auto simp: store_follows_def)
qed

lemma store_put_follows:
  assumes "store_follows idle cap s h t" "t \<le> now"
  shows "store_follows idle cap (session_put now k v s) (h @ [(now, k, v)]) now"
proof -
  let ?d = "st_entries s" and ?x = "(k, (v, now))" and ?r = "recency h"
  have pos: "0 < cap" "0 < idle" "st_max_sessions s = cap" "st_idle_timeout s = idle" "dict_wf ?d" using assms(1) by (simp_all add: store_follows_def)
  have ord: "in_order ?d now" "in_order ?r now" using assms in_order_later by (auto simp: store_follows_def)
  have new: "in_order (dict_del k ?d @ [?x]) now" "in_order (dict_del k ?r @ [?x]) now" using ord by (simp_all add: in_order_del in_order_snoc)
  have same: "filter (live idle now) ?d = last_n cap (filter (live idle now) ?r)"
    using assms live_earlier [OF assms(2), of idle] live_last_n [OF ord(2)] unfolding store_follows_def by metis
  have x: "live idle now ?x" using pos(2) by (simp add: live_def)
  define l where "l = filter (live idle now) (dict_del k ?d @ [?x])"
  have e: "st_entries (session_put now k v s) = last_n cap l"
    by (simp add: session_put_def move_set live_suffix [OF new(1)] pop_oldest_drop pos last_n_def l_def)
  have "l = dict_del k (last_n cap (filter (live idle now) ?r)) @ [?x]" using same x by (simp add: l_def live_del)
  then have "last_n cap l = last_n cap (dict_del k (filter (live idle now) ?r) @ [?x])"
    using last_n_again [OF dict_wf_filter [OF recency_keys(2)] pos(1)] by simp
  also have "\<dots> = last_n cap (filter (live idle now) (recency (h @ [(now, k, v)])))" using x by (simp add: live_del)
  also have "\<dots> = filter (live idle now) (last_n cap (recency (h @ [(now, k, v)])))"
    by (rule live_last_n [symmetric]) (use new(2) in simp)
  finally have same': "last_n cap l = filter (live idle now) (last_n cap (recency (h @ [(now, k, v)])))" .
  have "dict_wf (dict_del k ?d @ [?x])" using pos(5) by (auto simp: AList.delete_eq)
  then have "dict_wf l" unfolding l_def by (rule dict_wf_filter)
  moreover have "in_order l now" unfolding l_def by (rule in_order_filter [OF new(1)])
  ultimately have "dict_wf (last_n cap l)" "in_order (last_n cap l) now" by (simp_all add: last_n_def in_order_drop drop_map [symmetric] distinct_drop)
  moreover have "in_order (recency (h @ [(now, k, v)])) now" "filter (live idle now) (last_n cap l) = last_n cap l"
    using new(2) same' by simp_all
  moreover have "st_idle_timeout (session_put now k v s) = idle" "st_max_sessions (session_put now k v s) = cap" using pos by (simp_all add: session_put_def)
  ultimately show ?thesis using same' pos(1,2) unfolding store_follows_def e by metis
qed

lemma store_get_follows:
  assumes "store_follows idle cap s h t" "t \<le> now"
  shows "fst (session_get now k s) = recall idle cap now k h" "store_follows idle cap (snd (session_get now k s)) h now"
proof -
  let ?d = "st_entries s"
  have f: "st_idle_timeout s = idle" "dict_wf ?d" "in_order ?d now" "in_order (recency h) now" "st_max_sessions s = cap" "0 < cap" "0 < idle"
    using assms in_order_later by (auto simp: store_follows_def)
  have same: "filter (live idle now) ?d = filter (live idle now) (last_n cap (recency h))"
    using assms live_earlier [OF assms(2), of idle] unfolding store_follows_def by metis
  have "fst (session_get now k s) = map_option fst (dict_get (filter (live idle now) ?d) k)"
    by (auto simp: session_get_def dict_get_filter [OF f(2)] f(1) live_def split: option.splits)
  then show "fst (session_get now k s) = recall idle cap now k h" unfolding same recall_get .
  have del: "filter (live idle now) (dict_del k ?d) = filter (live idle now) ?d" if "dict_get ?d k = Some (v, a)" "idle < now - a" for v a
  proof -
    have "dict_get (filter (live idle now) ?d) k = None" using that by (simp add: dict_get_filter [OF f(2)] live_def)
    then show ?thesis unfolding live_del by (intro del_absent) (simp add: map_of_eq_None_iff)
  qed
  show "store_follows idle cap (snd (session_get now k s)) h now"
    using f same del by (auto simp: session_get_def store_follows_def in_order_del split: option.split)
qed

interpretation sessions: follows_history "store_step :: ('k, 'v) session_store \<Rightarrow> _" "recall_step idle cap" op_time "store_follows idle cap" for idle cap
proof
  fix s :: "('k, 'v) session_store" and h :: "('k, 'v) stores" and t and e :: "('k, 'v) store_op"
  assume r: "store_follows idle cap s h t" "t \<le> op_time e"
  show "fst (store_step s e) = fst (recall_step idle cap h e)" using r store_get_follows(1) by (cases e) fastforce+
  show "store_follows idle cap (snd (store_step s e)) (snd (recall_step idle cap h e)) (op_time e)"
    using r store_get_follows(2) store_put_follows by (cases e) fastforce+
qed

lemma store_init_follows: "SessionStore_init idle cap = Some s \<Longrightarrow> store_follows idle cap s [] t"
  by (auto simp: SessionStore_init_def store_follows_def in_order_def last_n_def split: if_splits)

text \<open>As long as the clock does not go back, the store answers every question like the complete list.\<close>

lemma session_store_exact:
  assumes "SessionStore_init idle cap = Some s" "sorted (map op_time es)"
  shows "answers store_step s es = answers (recall_step idle cap) [] es"
  by (rule sessions.same_answers_fresh [OF store_init_follows [OF assms(1)] assms(2)])

text \<open>The store stays within its capacity.\<close>

lemma session_put_bounded: "length (st_entries (session_put now k v s)) \<le> st_max_sessions s"
  by (simp add: session_put_def pop_oldest_drop)

end
