(* ===== verification/Model_Selection.thy ===== *)
theory Model_Selection
  imports Session_Store Prompt_Identity
begin

text \<open>
  \<open>routing/model_selection\<close>: which of a tier's candidates serves a request. \<open>constraints.py\<close> leaves out the
  candidates that cannot, \<open>scoring.py\<close> ranks the rest, \<open>session.py\<close> keeps a session on its model,
  \<open>selector.py\<close> puts them together and \<open>config.py\<close> reads the tiers. A \<open>frozenset\<close> is a list read by membership.
  The section of the configuration arrives as the record that pydantic validated; the digest of a tier's
  version and \<open>json.dumps\<close> are arguments \<open>sha\<close> and \<open>dumps\<close>.

  The lemmas: a tier ranks in the order its configuration lists, and the choice for a request in closed
  form over that order and the state of its session.
\<close>

section \<open>Values\<close>

record candidate =
  cd_model_id :: string
  cd_reasoning_effort :: "string option"

record candidate_info =
  ci_context_length :: int
  ci_max_output_length :: int
  ci_input_modalities :: "string list"
  ci_supports_tools :: bool
  ci_reasoning_efforts :: "string list"

datatype turn_kind = NEW_TURN | TOOL_CONTINUATION | SIDE_CALL

record request_features =
  rf_prompt_tokens :: int
  rf_turn :: turn_kind
  rf_max_tokens :: "int option"
  rf_input_modalities :: "string list"
  rf_uses_tools :: bool

datatype drop_kind = UNAVAILABLE | EFFORT | TOOLS | MODALITY | CONTEXT

datatype session_action = NEW_SESSION | KEEP | TURN_SWITCH | FORCED_SWITCH | ASIDE

record session_state =
  ss_candidate :: candidate
  ss_profile_version :: string
  ss_turns :: int
  ss_switches :: int

record decision =
  de_profile :: string
  de_ranked :: "candidate list"
  de_dropped :: "(candidate \<times> drop_kind) list"
  de_session_action :: session_action
  de_next_state :: "session_state option"
  de_profile_version :: string
  de_scorer_version :: string

definition chosen :: "decision \<Rightarrow> candidate option" where
  "chosen d = (case de_ranked d of [] \<Rightarrow> None | c # _ \<Rightarrow> Some c)"

section \<open>What a candidate can serve\<close>

definition PROMPT_ESTIMATE_HEADROOM :: real where "PROMPT_ESTIMATE_HEADROOM = 5 / 4"

definition reserved_output :: "candidate_info \<Rightarrow> request_features \<Rightarrow> int" where
  "reserved_output info f =
     (case rf_max_tokens f of None \<Rightarrow> 0 | Some m \<Rightarrow> if m = 0 then 0 else min m (ci_max_output_length info))"

definition drop_reason :: "candidate \<Rightarrow> candidate_info option \<Rightarrow> request_features \<Rightarrow> drop_kind option" where
  "drop_reason c info f =
     (case info of
        None \<Rightarrow> Some UNAVAILABLE
      | Some i \<Rightarrow>
          if (case cd_reasoning_effort c of None \<Rightarrow> False | Some e \<Rightarrow> e \<notin> set (ci_reasoning_efforts i)) then Some EFFORT
          else if rf_uses_tools f \<and> \<not> ci_supports_tools i then Some TOOLS
          else if \<not> list_all (\<lambda>m. m \<in> set (ci_input_modalities i)) (rf_input_modalities f) then Some MODALITY
          else if ci_context_length i < \<lceil>real_of_int (rf_prompt_tokens f) * PROMPT_ESTIMATE_HEADROOM\<rceil> + reserved_output i f then Some CONTEXT
          else None)"

fun split_by_constraints ::
  "candidate list \<Rightarrow> (string, candidate_info) dict \<Rightarrow> request_features \<Rightarrow> candidate list \<times> (candidate \<times> drop_kind) list" where
  "split_by_constraints [] catalog f = ([], [])"
| "split_by_constraints (c # cs) catalog f =
     (case split_by_constraints cs catalog f of
        (able, dropped) \<Rightarrow>
          (case drop_reason c (dict_get catalog (cd_model_id c)) f of
             None \<Rightarrow> (c # able, dropped)
           | Some reason \<Rightarrow> (able, (c, reason) # dropped)))"

section \<open>Ranking\<close>

definition StaticScorer_init :: "candidate list \<Rightarrow> (candidate, real) dict" where
  "StaticScorer_init cs =
     foldl (\<lambda>d (i, c). dict_set c ((real (length cs) - real i) / real (length cs)) d) [] (enumerate 0 cs)"

definition static_score :: "(candidate, real) dict \<Rightarrow> candidate list \<Rightarrow> (candidate, real) dict" where
  "static_score quality cs = foldl (\<lambda>d c. dict_set c (dict_get_or quality c 0) d) [] cs"

definition max_quality_rank :: "candidate list \<Rightarrow> (candidate, real) dict \<Rightarrow> candidate list" where
  "max_quality_rank cs estimates = sort_key (\<lambda>c. - dict_get_or estimates c 0) cs"

section \<open>Sessions\<close>

definition first_then :: "candidate \<Rightarrow> candidate list \<Rightarrow> candidate list" where
  "first_then c order = c # filter (\<lambda>x. x \<noteq> c) order"

definition continue_session ::
  "candidate list \<Rightarrow> session_state option \<Rightarrow> turn_kind \<Rightarrow> string \<Rightarrow> (candidate list \<times> session_action) \<times> session_state option" where
  "continue_session ranked state turn profile_version =
     (let usable = (case state of None \<Rightarrow> None | Some s \<Rightarrow> if ss_profile_version s = profile_version then Some s else None);
          new_turn = (if turn = NEW_TURN then 1 else 0)
      in if turn = SIDE_CALL
         then ((case usable of None \<Rightarrow> ranked | Some s \<Rightarrow> if ss_candidate s \<in> set ranked then first_then (ss_candidate s) ranked else ranked, ASIDE), None)
         else case ranked of
                [] \<Rightarrow> (([], if usable = None then NEW_SESSION else FORCED_SWITCH), None)
              | best # rest \<Rightarrow>
                  (case usable of
                     None \<Rightarrow>
                       ((ranked, NEW_SESSION), Some \<lparr>ss_candidate = best, ss_profile_version = profile_version, ss_turns = new_turn, ss_switches = 0\<rparr>)
                   | Some s \<Rightarrow>
                       if ss_candidate s \<in> set ranked \<and> (turn = TOOL_CONTINUATION \<or> best = ss_candidate s)
                       then ((first_then (ss_candidate s) ranked, KEEP),
                             Some \<lparr>ss_candidate = ss_candidate s, ss_profile_version = profile_version, ss_turns = ss_turns s + new_turn,
                                   ss_switches = ss_switches s\<rparr>)
                       else ((ranked, if ss_candidate s \<notin> set ranked then FORCED_SWITCH else TURN_SWITCH),
                             Some \<lparr>ss_candidate = best, ss_profile_version = profile_version, ss_turns = ss_turns s + new_turn,
                                   ss_switches = ss_switches s + 1\<rparr>)))"

section \<open>Tiers\<close>

definition AUTO_MODEL_ID :: string where "AUTO_MODEL_ID = ''auto''"
definition AUTO_MODEL_PREFIX :: string where "AUTO_MODEL_PREFIX = ''auto-''"
definition STATIC_VERSION :: string where "STATIC_VERSION = ''static-1''"

definition starts_with :: "string \<Rightarrow> string \<Rightarrow> bool" where
  "starts_with p s \<longleftrightarrow> take (length p) s = p"

definition is_auto_model_id :: "string \<Rightarrow> bool" where
  "is_auto_model_id m \<longleftrightarrow> m = AUTO_MODEL_ID \<or> starts_with AUTO_MODEL_PREFIX m"

text \<open>The scorer and the objective of a tier are the static ones, so a tier is its candidates.\<close>

record auto_profile =
  ap_name :: string
  ap_candidates :: "candidate list"
  ap_version :: string
  ap_quality :: "(candidate, real) dict"

record auto_config =
  ac_default_profile :: string
  ac_profiles :: "(string, auto_profile) dict"
  ac_idle_timeout_seconds :: time
  ac_max_sessions :: nat

record auto_spec =
  as_default_profile :: string
  as_profiles :: "(string, candidate list) dict"
  as_idle_timeout_seconds :: time
  as_max_sessions :: nat

datatype auto_problem =
    BadDefault string
  | BadName string
  | ListedTwice string nat
  | CandidateIsAuto string nat

text \<open>\<open>[a-z0-9]+(?:-[a-z0-9]+)*\<close>, matched to the end.\<close>

definition name_char :: "char \<Rightarrow> bool" where
  "name_char c \<longleftrightarrow> (97 \<le> (of_char c :: nat) \<and> (of_char c :: nat) \<le> 122) \<or> (48 \<le> (of_char c :: nat) \<and> (of_char c :: nat) \<le> 57)"

fun profile_name_from :: "bool \<Rightarrow> string \<Rightarrow> bool" where
  "profile_name_from inside [] = inside"
| "profile_name_from inside (c # cs) =
     (if name_char c then profile_name_from True cs
      else c = CHR ''-'' \<and> inside \<and> profile_name_from False cs)"

definition profile_name_ok :: "string \<Rightarrow> bool" where
  "profile_name_ok name = profile_name_from False name"

definition virtual_model_ids :: "string list \<Rightarrow> string list" where
  "virtual_model_ids names = AUTO_MODEL_ID # map (\<lambda>n. AUTO_MODEL_PREFIX @ n) names"

definition profile_version :: "(string \<Rightarrow> string) \<Rightarrow> (json \<Rightarrow> string) \<Rightarrow> string \<Rightarrow> candidate list \<Rightarrow> string" where
  "profile_version sha dumps name cs =
     take 12 (sha (dumps (JObj
       [(''profile'', JStr name), (''scorer'', JStr STATIC_VERSION), (''objective'', JStr ''max_quality''),
        (''candidates'', JArr (map (\<lambda>c. JArr [JStr (cd_model_id c), (case cd_reasoning_effort c of None \<Rightarrow> JNull | Some e \<Rightarrow> JStr e)]) cs))])))"

fun candidate_problems :: "string \<Rightarrow> string list \<Rightarrow> nat \<Rightarrow> candidate list \<Rightarrow> candidate list \<Rightarrow> auto_problem list" where
  "candidate_problems name virtual i seen [] = []"
| "candidate_problems name virtual i seen (c # cs) =
     (if c \<in> set seen then [ListedTwice name i] else []) @ (if cd_model_id c \<in> set virtual then [CandidateIsAuto name i] else []) @
     candidate_problems name virtual (Suc i) (c # seen) cs"

definition profile_problems :: "string list \<Rightarrow> string \<times> candidate list \<Rightarrow> auto_problem list" where
  "profile_problems virtual p =
     (if profile_name_ok (fst p) then [] else [BadName (fst p)]) @ candidate_problems (fst p) virtual 0 [] (snd p)"

definition AutoProfile_init :: "(string \<Rightarrow> string) \<Rightarrow> (json \<Rightarrow> string) \<Rightarrow> string \<Rightarrow> candidate list \<Rightarrow> auto_profile" where
  "AutoProfile_init sha dumps name cs =
     \<lparr>ap_name = name, ap_candidates = cs, ap_version = profile_version sha dumps name cs, ap_quality = StaticScorer_init cs\<rparr>"

definition parse_auto_config :: "(string \<Rightarrow> string) \<Rightarrow> (json \<Rightarrow> string) \<Rightarrow> auto_spec \<Rightarrow> auto_problem list + auto_config" where
  "parse_auto_config sha dumps spec =
     (let virtual = virtual_model_ids (map fst (as_profiles spec));
          problems = (if as_default_profile spec \<in> set (map fst (as_profiles spec)) then [] else [BadDefault (as_default_profile spec)]) @
            concat (map (profile_problems virtual) (as_profiles spec))
      in if problems \<noteq> [] then Inl problems
         else Inr \<lparr>ac_default_profile = as_default_profile spec,
                   ac_profiles = map (\<lambda>(name, cs). (name, AutoProfile_init sha dumps name cs)) (as_profiles spec),
                   ac_idle_timeout_seconds = as_idle_timeout_seconds spec, ac_max_sessions = as_max_sessions spec\<rparr>)"

text \<open>The lookup of the default tier cannot fail in a parsed configuration.\<close>

definition resolve :: "auto_config \<Rightarrow> string \<Rightarrow> auto_profile option" where
  "resolve cfg m =
     (if m = AUTO_MODEL_ID then dict_get (ac_profiles cfg) (ac_default_profile cfg)
      else if starts_with AUTO_MODEL_PREFIX m then dict_get (ac_profiles cfg) (drop (length AUTO_MODEL_PREFIX) m)
      else None)"

record catalog_check =
  cc_conflicts :: "string list"
  cc_warnings :: "(string \<times> candidate) list"

definition check_against_catalog :: "auto_config \<Rightarrow> (string, candidate_info) dict \<Rightarrow> catalog_check" where
  "check_against_catalog cfg catalog =
     \<lparr>cc_conflicts = filter (\<lambda>m. dict_get catalog m \<noteq> None) (virtual_model_ids (map fst (ac_profiles cfg))),
      cc_warnings = concat (map (\<lambda>(name, p). map (Pair (ap_name p)) (filter (\<lambda>c.
        case dict_get catalog (cd_model_id c) of
          None \<Rightarrow> True
        | Some info \<Rightarrow> (case cd_reasoning_effort c of None \<Rightarrow> False | Some e \<Rightarrow> e \<notin> set (ci_reasoning_efforts info))) (ap_candidates p)))
        (ac_profiles cfg))\<rparr>"

section \<open>Selection\<close>

definition select :: "auto_profile \<Rightarrow> request_features \<Rightarrow> (string, candidate_info) dict \<Rightarrow> session_state option \<Rightarrow> decision" where
  "select p f catalog state =
     (let (able, dropped) = split_by_constraints (ap_candidates p) catalog f;
          estimates = static_score (ap_quality p) able;
          ranked = max_quality_rank able estimates;
          ((order, action), next_state) = continue_session ranked state (rf_turn f) (ap_version p)
      in \<lparr>de_profile = ap_name p, de_ranked = order, de_dropped = dropped, de_session_action = action, de_next_state = next_state,
          de_profile_version = ap_version p, de_scorer_version = STATIC_VERSION\<rparr>)"

section \<open>A tier ranks as it is listed\<close>

lemma split_filter:
  "split_by_constraints cs catalog f =
     (filter (\<lambda>c. drop_reason c (dict_get catalog (cd_model_id c)) f = None) cs,
      map (\<lambda>c. (c, the (drop_reason c (dict_get catalog (cd_model_id c)) f)))
        (filter (\<lambda>c. drop_reason c (dict_get catalog (cd_model_id c)) f \<noteq> None) cs))"
  by (induction cs) (auto split: option.splits)

lemma foldl_dict_set_get:
  "distinct (map fst xs) \<Longrightarrow>
     dict_get (foldl (\<lambda>d (k, v). dict_set k v d) d xs) k = (case dict_get xs k of Some v \<Rightarrow> Some v | None \<Rightarrow> dict_get d k)"
proof (induction xs arbitrary: d)
  case (Cons x xs)
  obtain a b where x: "x = (a, b)" by fastforce
  have "dict_get xs a = None" using Cons.prems x by (simp add: map_of_eq_None_iff)
  then show ?case using Cons x by (simp split: option.split)
qed simp

lemma static_quality:
  assumes "distinct cs" "i < length cs"
  shows "dict_get_or (StaticScorer_init cs) (cs ! i) 0 = (real (length cs) - real i) / real (length cs)"
proof -
  let ?q = "\<lambda>i. (real (length cs) - real i) / real (length cs)"
  have "StaticScorer_init cs = foldl (\<lambda>d (k, v). dict_set k v d) [] (map (\<lambda>(i, c). (c, ?q i)) (enumerate 0 cs))"
    by (simp add: StaticScorer_init_def foldl_map split_def)
  moreover have "map fst (map (\<lambda>(i, c). (c, ?q i)) (enumerate 0 cs)) = cs" by (simp add: split_def comp_def map_snd_enumerate)
  moreover have "(cs ! i, ?q i) \<in> set (map (\<lambda>(i, c). (c, ?q i)) (enumerate 0 cs))"
    using assms(2) by (force simp: in_set_enumerate_eq)
  ultimately show ?thesis using assms(1) by (simp add: foldl_dict_set_get dict_get_or_def map_of_is_SomeI split: option.split)
qed

lemma static_score_get: "c \<in> set cs \<Longrightarrow> dict_get_or (static_score q cs) c 0 = dict_get_or q c 0"
proof -
  have "dict_get_or (foldl (\<lambda>d c. dict_set c (dict_get_or q c 0) d) d cs) c 0 = (if c \<in> set cs then dict_get_or q c 0 else dict_get_or d c 0)" for d
    by (induction cs arbitrary: d) (auto simp: dict_get_or_def)
  then show "c \<in> set cs \<Longrightarrow> ?thesis" by (simp add: static_score_def)
qed

lemma rank_listed:
  assumes "distinct cs"
  shows "max_quality_rank (filter P cs) (static_score (StaticScorer_init cs) (filter P cs)) = filter P cs"
proof -
  let ?key = "\<lambda>c. - dict_get_or (static_score (StaticScorer_init cs) (filter P cs)) c 0"
  let ?q = "\<lambda>c. - dict_get_or (StaticScorer_init cs) c 0"
  have "sorted (map ?q cs)" unfolding sorted_iff_nth_mono
    using static_quality [OF assms] by (auto simp: divide_right_mono)
  then have "sorted (map ?q (filter P cs))" by (rule sorted_filter)
  moreover have "map ?q (filter P cs) = map ?key (filter P cs)"
    by (rule map_cong) (use static_score_get [of _ "filter P cs"] in auto)
  ultimately have "sorted (map ?key (filter P cs))" by (simp only:)
  then show ?thesis unfolding max_quality_rank_def by (rule sort_key_id_if_sorted)
qed

section \<open>What a parsed configuration promises\<close>

lemma candidate_problems_none:
  "candidate_problems name virtual i seen cs = [] \<Longrightarrow>
     distinct cs \<and> set cs \<inter> set seen = {} \<and> (\<forall>c \<in> set cs. cd_model_id c \<notin> set virtual)"
proof (induction cs arbitrary: i seen)
  case (Cons c cs)
  then have "c \<notin> set seen" "cd_model_id c \<notin> set virtual" "candidate_problems name virtual (Suc i) (c # seen) cs = []"
    by (simp_all split: if_splits)
  with Cons.IH [of "Suc i" "c # seen"] show ?case by auto
qed simp

lemma prefix_inject [simp]: "starts_with AUTO_MODEL_PREFIX (AUTO_MODEL_PREFIX @ n)" "drop (length AUTO_MODEL_PREFIX) (AUTO_MODEL_PREFIX @ n) = n"
  "AUTO_MODEL_PREFIX @ n \<noteq> AUTO_MODEL_ID" "\<not> starts_with AUTO_MODEL_PREFIX AUTO_MODEL_ID"
  by (simp_all add: starts_with_def AUTO_MODEL_PREFIX_def AUTO_MODEL_ID_def)

lemma profiles_get:
  "dict_get (map (\<lambda>(name, cs). (name, AutoProfile_init sha dumps name cs)) ps) n = map_option (AutoProfile_init sha dumps n) (dict_get ps n)"
  by (induction ps) auto

lemma parsed_config:
  assumes "parse_auto_config sha dumps spec = Inr cfg" "resolve cfg m = Some p"
  shows "\<exists>cs. p = AutoProfile_init sha dumps (ap_name p) cs \<and> distinct cs \<and> (\<forall>c \<in> set cs. resolve cfg (cd_model_id c) = None)"
proof -
  let ?v = "virtual_model_ids (map fst (as_profiles spec))"
  have ok: "concat (map (profile_problems ?v) (as_profiles spec)) = []" "as_default_profile spec \<in> set (map fst (as_profiles spec))"
    "ac_profiles cfg = map (\<lambda>(name, cs). (name, AutoProfile_init sha dumps name cs)) (as_profiles spec)" "ac_default_profile cfg = as_default_profile spec"
    using assms(1) by (auto simp: parse_auto_config_def Let_def split: if_splits)
  have none: "resolve cfg x = None" if "x \<notin> set ?v" for x
  proof -
    have "dict_get (as_profiles spec) n = None" if "x = AUTO_MODEL_PREFIX @ n" for n
      using that \<open>x \<notin> set ?v\<close> by (auto simp: virtual_model_ids_def map_of_eq_None_iff)
    moreover have "x = AUTO_MODEL_PREFIX @ drop (length AUTO_MODEL_PREFIX) x" if "starts_with AUTO_MODEL_PREFIX x"
      using that append_take_drop_id [of "length AUTO_MODEL_PREFIX" x] by (simp add: starts_with_def)
    ultimately show ?thesis using \<open>x \<notin> set ?v\<close> by (auto simp: resolve_def ok(3) profiles_get virtual_model_ids_def)
  qed
  obtain n where "dict_get (ac_profiles cfg) n = Some p" using assms(2) by (auto simp: resolve_def split: if_splits)
  then obtain cs where cs: "dict_get (as_profiles spec) n = Some cs" "p = AutoProfile_init sha dumps n cs" unfolding ok(3) profiles_get by auto
  then have "profile_problems ?v (n, cs) = []" using ok(1) map_of_SomeD [OF cs(1)] by simp
  then have "candidate_problems n ?v 0 [] cs = []" by (simp add: profile_problems_def)
  from candidate_problems_none [OF this] none cs(2) show ?thesis by (auto simp: AutoProfile_init_def)
qed

text \<open>The names that are served are exactly those that resolve to a tier.\<close>

lemma virtual_resolves:
  assumes "parse_auto_config sha dumps spec = Inr cfg"
  shows "resolve cfg m \<noteq> None \<longleftrightarrow> m \<in> set (virtual_model_ids (map fst (ac_profiles cfg)))"
proof -
  have dom: "fst ` set (ac_profiles cfg) = dom (dict_get (ac_profiles cfg))" by (simp add: dom_map_of_conv_image_fst)
  have "ac_default_profile cfg \<in> fst ` set (ac_profiles cfg)"
    using assms by (force simp: parse_auto_config_def Let_def split: if_splits)
  then have default: "ac_default_profile cfg \<in> dom (dict_get (ac_profiles cfg))" unfolding dom .
  have pre: "m \<in> (\<lambda>n. AUTO_MODEL_PREFIX @ n) ` A \<longleftrightarrow> starts_with AUTO_MODEL_PREFIX m \<and> drop (length AUTO_MODEL_PREFIX) m \<in> A" for A
    by (auto simp: starts_with_def image_iff) (metis append_take_drop_id)
  have "m \<in> set (virtual_model_ids (map fst (ac_profiles cfg))) \<longleftrightarrow>
      m = AUTO_MODEL_ID \<or> starts_with AUTO_MODEL_PREFIX m \<and> drop (length AUTO_MODEL_PREFIX) m \<in> dom (dict_get (ac_profiles cfg))"
    using pre [of "dom (dict_get (ac_profiles cfg))"] by (simp add: virtual_model_ids_def image_image flip: dom)
  then show ?thesis using default by (auto simp: resolve_def)
qed

section \<open>The choice in closed form\<close>

definition able :: "auto_profile \<Rightarrow> request_features \<Rightarrow> (string, candidate_info) dict \<Rightarrow> candidate list" where
  "able p f catalog = filter (\<lambda>c. drop_reason c (dict_get catalog (cd_model_id c)) f = None) (ap_candidates p)"

text \<open>The state of the session, if it is of this version of the tier.\<close>

definition usable :: "auto_profile \<Rightarrow> session_state option \<Rightarrow> session_state option" where
  "usable p state = (case state of None \<Rightarrow> None | Some s \<Rightarrow> if ss_profile_version s = ap_version p then Some s else None)"

lemma first_then_self: "distinct xs \<Longrightarrow> hd xs = c \<Longrightarrow> xs \<noteq> [] \<Longrightarrow> first_then c xs = xs"
  by (cases xs) (auto simp: first_then_def filter_id_conv)

lemma continued:
  assumes "distinct ranked"
  shows "continue_session ranked state turn v = (((order, action), next_state)) \<Longrightarrow>
    (let u = (case state of None \<Rightarrow> None | Some s \<Rightarrow> if ss_profile_version s = v then Some s else None)
     in order = (case u of
          None \<Rightarrow> ranked
        | Some s \<Rightarrow> if turn \<noteq> NEW_TURN \<and> ss_candidate s \<in> set ranked then first_then (ss_candidate s) ranked else ranked) \<and>
      next_state = (if turn = SIDE_CALL \<or> ranked = [] then None
        else Some \<lparr>ss_candidate = hd order, ss_profile_version = v,
          ss_turns = (case u of None \<Rightarrow> 0 | Some s \<Rightarrow> ss_turns s) + (if turn = NEW_TURN then 1 else 0),
          ss_switches = (case u of None \<Rightarrow> 0 | Some s \<Rightarrow> ss_switches s + (if ss_candidate s = hd order then 0 else 1))\<rparr>))"
  using assms first_then_self [OF assms]
  by (cases ranked; cases turn) (auto simp: continue_session_def Let_def first_then_def split: option.splits if_splits)

lemma select_continues:
  assumes "parse_auto_config sha dumps spec = Inr cfg" "resolve cfg m = Some p"
  shows "distinct (able p f catalog)" "\<forall>c \<in> set (able p f catalog). resolve cfg (cd_model_id c) = None"
    "continue_session (able p f catalog) state (rf_turn f) (ap_version p) =
       ((de_ranked (select p f catalog state), de_session_action (select p f catalog state)), de_next_state (select p f catalog state))"
    "de_dropped (select p f catalog state) = map (\<lambda>c. (c, the (drop_reason c (dict_get catalog (cd_model_id c)) f)))
       (filter (\<lambda>c. c \<notin> set (able p f catalog)) (ap_candidates p))"
proof -
  obtain cs where p: "p = AutoProfile_init sha dumps (ap_name p) cs" "distinct cs" "\<forall>c \<in> set cs. resolve cfg (cd_model_id c) = None"
    using parsed_config [OF assms] by blast
  have q: "ap_candidates p = cs" "ap_quality p = StaticScorer_init cs" by (subst p(1), simp add: AutoProfile_init_def)+
  show "distinct (able p f catalog)" "\<forall>c \<in> set (able p f catalog). resolve cfg (cd_model_id c) = None" using p(2,3) by (auto simp: able_def q)
  have "max_quality_rank (able p f catalog) (static_score (ap_quality p) (able p f catalog)) = able p f catalog"
    unfolding able_def q by (rule rank_listed [OF p(2)])
  then show "continue_session (able p f catalog) state (rf_turn f) (ap_version p) =
       ((de_ranked (select p f catalog state), de_session_action (select p f catalog state)), de_next_state (select p f catalog state))"
    by (simp add: select_def split_filter flip: able_def) (simp add: split: prod.splits)
  show "de_dropped (select p f catalog state) = map (\<lambda>c. (c, the (drop_reason c (dict_get catalog (cd_model_id c)) f)))
       (filter (\<lambda>c. c \<notin> set (able p f catalog)) (ap_candidates p))"
    by (auto simp: select_def split_filter able_def split: prod.splits intro!: map_cong filter_cong)
qed

text \<open>C25. The model of an automatic tier, in closed form. For a tier of a configuration that was accepted, the
  ranked candidates are exactly those that can serve the request, each once, and every other
  candidate is reported with its reason; none of them is itself an automatic tier. They come in the
  order of the configuration, except that a session inside a tool loop, or a side call, puts the
  session's own candidate first while it can serve. The state to store is the first choice with the
  number of turns, and of changes of candidate, brought up to date; a side call, and a request nobody
  can serve, store nothing.\<close>

theorem tier_choice:
  assumes "parse_auto_config sha dumps spec = Inr cfg" "resolve cfg m = Some p"
  shows "(let d = select p f catalog state; u = usable p state; as = able p f catalog in
    set (de_ranked d) = set as \<and> distinct (de_ranked d) \<and> (\<forall>c \<in> set (de_ranked d). resolve cfg (cd_model_id c) = None) \<and>
    de_dropped d = map (\<lambda>c. (c, the (drop_reason c (dict_get catalog (cd_model_id c)) f))) (filter (\<lambda>c. c \<notin> set as) (ap_candidates p)) \<and>
    de_ranked d = (case u of
        None \<Rightarrow> as
      | Some s \<Rightarrow> if rf_turn f \<noteq> NEW_TURN \<and> ss_candidate s \<in> set as then ss_candidate s # filter (\<lambda>c. c \<noteq> ss_candidate s) as else as) \<and>
    de_next_state d = (if rf_turn f = SIDE_CALL \<or> as = [] then None
      else Some \<lparr>ss_candidate = hd (de_ranked d), ss_profile_version = ap_version p,
        ss_turns = (case u of None \<Rightarrow> 0 | Some s \<Rightarrow> ss_turns s) + (if rf_turn f = NEW_TURN then 1 else 0),
        ss_switches = (case u of None \<Rightarrow> 0 | Some s \<Rightarrow> ss_switches s + (if ss_candidate s = hd (de_ranked d) then 0 else 1))\<rparr>))"
proof -
  note sel = select_continues [OF assms]
  note c = continued [OF sel(1) [of f catalog] sel(3), unfolded Let_def usable_def [symmetric] first_then_def]
  then have "set (de_ranked (select p f catalog state)) = set (able p f catalog)" "distinct (de_ranked (select p f catalog state))"
    using sel(1) [of f catalog] by (auto split: option.splits)
  then show ?thesis unfolding Let_def using c sel(2,4) by blast
qed

section \<open>An example\<close>

definition demo_spec :: auto_spec where
  "demo_spec = \<lparr>as_default_profile = ''best'',
     as_profiles = [(''best'', [\<lparr>cd_model_id = ''big'', cd_reasoning_effort = None\<rparr>, \<lparr>cd_model_id = ''mid'', cd_reasoning_effort = None\<rparr>])],
     as_idle_timeout_seconds = 1800, as_max_sessions = 2\<rparr>"

definition demo_config :: auto_config where
  "demo_config = projr (parse_auto_config id (\<lambda>_. ''json'') demo_spec)"

definition demo_info :: candidate_info where
  "demo_info = \<lparr>ci_context_length = 1000, ci_max_output_length = 100, ci_input_modalities = [''text''], ci_supports_tools = True,
     ci_reasoning_efforts = []\<rparr>"

definition demo_features :: "turn_kind \<Rightarrow> request_features" where
  "demo_features turn = \<lparr>rf_prompt_tokens = 100, rf_turn = turn, rf_max_tokens = None, rf_input_modalities = [''text''], rf_uses_tools = False\<rparr>"

lemma demo_parsed: "parse_auto_config id (\<lambda>_. ''json'') demo_spec = Inr demo_config"
proof -
  have "isl (parse_auto_config id (\<lambda>_. ''json'') demo_spec) = False" by code_simp
  then show ?thesis by (cases "parse_auto_config id (\<lambda>_. ''json'') demo_spec") (simp_all add: demo_config_def)
qed

theorem tier_choice_witness:
  "\<exists>p. resolve demo_config ''auto'' = Some p \<and>
     de_ranked (select p (demo_features TOOL_CONTINUATION) [(''big'', demo_info), (''mid'', demo_info)]
       (Some \<lparr>ss_candidate = ap_candidates p ! 1, ss_profile_version = ap_version p, ss_turns = 1, ss_switches = 0\<rparr>)) =
     [ap_candidates p ! 1, ap_candidates p ! 0]"
proof -
  have "resolve demo_config ''auto'' \<noteq> None" by code_simp
  then obtain p where p: "resolve demo_config ''auto'' = Some p" by blast
  have "able (the (resolve demo_config ''auto'')) (demo_features TOOL_CONTINUATION) [(''big'', demo_info), (''mid'', demo_info)] =
      [ap_candidates (the (resolve demo_config ''auto'')) ! 0, ap_candidates (the (resolve demo_config ''auto'')) ! 1]"
    "ap_candidates (the (resolve demo_config ''auto'')) ! 0 \<noteq> ap_candidates (the (resolve demo_config ''auto'')) ! 1" by code_simp+
  then show ?thesis
    using p tier_choice [OF demo_parsed p, of "demo_features TOOL_CONTINUATION" "[(''big'', demo_info), (''mid'', demo_info)]"
      "Some \<lparr>ss_candidate = ap_candidates p ! 1, ss_profile_version = ap_version p, ss_turns = 1, ss_switches = 0\<rparr>"]
    by (simp add: Let_def usable_def demo_features_def)
qed

end
