(* ===== verification/Model_Access.thy ===== *)
theory Model_Access
  imports Roles Prompt_Identity
begin

text \<open>
  \<open>serving/model_access.py\<close>: who may use a model. The entry of a model in the configuration is a JSON object;
  \<open>float\<close> of a string, \<open>str\<close> of a value that is not a string, and the host name \<open>urlparse\<close> finds are arguments.
  The runtime override of a required role is an argument as well, \<open>None\<close> in a deployment without one.

  The lemmas: what an allowed caller satisfies, and that a model which names no role is open to everybody
  only when all its routes are engines on this machine and nothing says that it costs money.
\<close>

section \<open>The role a model asks for\<close>

text \<open>Whether \<open>float(value) != 0.0\<close> or the conversion raises.\<close>

definition price_is_paid :: "(string \<Rightarrow> real option) \<Rightarrow> json \<Rightarrow> bool" where
  "price_is_paid py_float value =
     (case value of
        JNum x \<Rightarrow> x \<noteq> 0
      | JBool b \<Rightarrow> b
      | JStr s \<Rightarrow> (case py_float s of None \<Rightarrow> True | Some x \<Rightarrow> x \<noteq> 0)
      | _ \<Rightarrow> True)"

definition pricing_mapping_indicates_paid :: "(string \<Rightarrow> real option) \<Rightarrow> json \<Rightarrow> bool" where
  "pricing_mapping_indicates_paid py_float pricing =
     (case pricing of JObj d \<Rightarrow> list_ex (\<lambda>(k, v). price_is_paid py_float v) d | _ \<Rightarrow> False)"

definition entry_indicates_paid :: "(string \<Rightarrow> real option) \<Rightarrow> (string \<times> json) list \<Rightarrow> bool" where
  "entry_indicates_paid py_float d \<longleftrightarrow>
     pricing_mapping_indicates_paid py_float (jget d ''pricing'') \<or> jget d ''pricing_schedule'' \<noteq> JNull \<or> jget d ''pricing_source'' \<noteq> JNull"

definition model_pricing_indicates_paid :: "(string \<Rightarrow> real option) \<Rightarrow> (string \<times> json) list \<Rightarrow> bool" where
  "model_pricing_indicates_paid py_float model =
     (if entry_indicates_paid py_float model then True
      else case jget model ''route'' of
             JArr routes \<Rightarrow> list_ex (\<lambda>r. case r of JObj d \<Rightarrow> entry_indicates_paid py_float d | _ \<Rightarrow> False) routes
           | _ \<Rightarrow> False)"

definition LOCAL_ROUTE_HOSTS :: "string list" where
  "LOCAL_ROUTE_HOSTS = [''localhost'', ''127.0.0.1'', ''0.0.0.0'', ''host.docker.internal'']"

definition PROVABLY_LOCAL_INFERENCE_KINDS :: "string list" where
  "PROVABLY_LOCAL_INFERENCE_KINDS = [''sglang'', ''vllm'', ''ollama'']"

text \<open>\<open>a or b\<close> on values.\<close>

definition json_or :: "json \<Rightarrow> json \<Rightarrow> json" where
  "json_or a b = (if truthy a then a else b)"

definition json_text :: "(json \<Rightarrow> string) \<Rightarrow> json \<Rightarrow> string" where
  "json_text py_str v = (case v of JStr s \<Rightarrow> s | _ \<Rightarrow> py_str v)"

definition route_is_locally_served ::
  "(string \<Rightarrow> string option) \<Rightarrow> (json \<Rightarrow> string) \<Rightarrow> (string \<times> json) list \<Rightarrow> json \<Rightarrow> json \<Rightarrow> bool" where
  "route_is_locally_served hostname py_str route provider_kind model_base_url =
     (case json_or (jget route ''kind'') provider_kind of
        JStr kind \<Rightarrow>
          kind \<in> set PROVABLY_LOCAL_INFERENCE_KINDS \<and>
          (let base_url = json_or (jget route ''base_url'') model_base_url
           in case hostname (if truthy base_url then json_text py_str base_url else []) of
                None \<Rightarrow> False | Some host \<Rightarrow> host \<in> set LOCAL_ROUTE_HOSTS)
      | _ \<Rightarrow> False)"

definition model_cost_is_unknown_remote ::
  "(string \<Rightarrow> real option) \<Rightarrow> (string \<Rightarrow> string option) \<Rightarrow> (json \<Rightarrow> string) \<Rightarrow> (string \<times> json) list \<Rightarrow> bool" where
  "model_cost_is_unknown_remote py_float hostname py_str model =
     (if model_pricing_indicates_paid py_float model then False
      else
        (let kind = jget model ''provider''; base_url = jget model ''base_url''
         in case jget model ''route'' of
              JArr (r # rs) \<Rightarrow>
                list_ex (\<lambda>r. case r of JObj d \<Rightarrow> \<not> route_is_locally_served hostname py_str d kind base_url | _ \<Rightarrow> False) (r # rs)
            | _ \<Rightarrow> \<not> route_is_locally_served hostname py_str [(''kind'', kind), (''base_url'', base_url)] JNull JNull))"

definition default_required_role_for_model ::
  "(string \<Rightarrow> real option) \<Rightarrow> (string \<Rightarrow> string option) \<Rightarrow> (json \<Rightarrow> string) \<Rightarrow> (string \<times> json) list \<Rightarrow> string" where
  "default_required_role_for_model py_float hostname py_str model =
     (case dict_get model ''required_role'' of
        Some v \<Rightarrow> if truthy (jget model ''admin_only'') \<and> json_text py_str v = ''free'' then ''admin'' else json_text py_str v
      | None \<Rightarrow>
          if truthy (jget model ''admin_only'') then ''admin''
          else if model_pricing_indicates_paid py_float model then ''pro''
          else if model_cost_is_unknown_remote py_float hostname py_str model then ''pro''
          else ''free'')"

section \<open>The caller\<close>

record user_ctx =
  uc_user_id :: "string option"
  uc_agent_grant_id :: "string option"
  uc_role :: "string option"
  uc_disabled_models :: json
  uc_key_allowed_models :: "string list option"
  uc_agent_allowed_models :: "string list option"

text \<open>Sorted in the source; only membership is read.\<close>

definition normalize_disabled_models :: "json \<Rightarrow> string list" where
  "normalize_disabled_models value =
     (case value of
        JArr xs \<Rightarrow> remdups (concat (map (\<lambda>x. case x of JStr s \<Rightarrow> if py_strip s \<noteq> [] then [py_strip s] else [] | _ \<Rightarrow> []) xs))
      | _ \<Rightarrow> [])"

definition is_model_disabled_for_user :: "string \<Rightarrow> user_ctx option \<Rightarrow> bool" where
  "is_model_disabled_for_user m ctx =
     (case ctx of None \<Rightarrow> False | Some c \<Rightarrow> m \<in> set (normalize_disabled_models (uc_disabled_models c)))"

definition is_model_outside_grant_scope :: "string \<Rightarrow> user_ctx option \<Rightarrow> bool" where
  "is_model_outside_grant_scope m ctx =
     (case ctx of None \<Rightarrow> False | Some c \<Rightarrow> (case uc_agent_allowed_models c of None \<Rightarrow> False | Some ms \<Rightarrow> m \<notin> set ms))"

definition is_model_outside_key_scope :: "string \<Rightarrow> user_ctx option \<Rightarrow> bool" where
  "is_model_outside_key_scope m ctx =
     (case ctx of None \<Rightarrow> False | Some c \<Rightarrow> (case uc_key_allowed_models c of None \<Rightarrow> False | Some ms \<Rightarrow> m \<notin> set ms))"

section \<open>The check\<close>

text \<open>What the adapters of a route declare.\<close>

record model_config =
  mc_id :: string
  mc_name :: string
  mc_provider_model_id :: "string option"
  mc_aliases :: "string list"
  mc_context_length :: int
  mc_max_output_length :: int
  mc_input_modalities :: "string list"
  mc_supports_tools :: bool
  mc_reasoning_efforts :: "string list"
  mc_supported_params :: "string list"

record access_route =
  ar_published :: bool
  ar_required_role :: string
  ar_admin_only :: bool
  ar_adapters :: "model_config list"

datatype access_denial = UNPUBLISHED | ROLE | DISABLED | OUTSIDE_KEY | OUTSIDE_GRANT

definition route_canonical_model_id :: "access_route \<Rightarrow> string \<Rightarrow> string" where
  "route_canonical_model_id route model_id = (case ar_adapters route of [] \<Rightarrow> model_id | c # _ \<Rightarrow> mc_id c)"

definition baseline_required_role :: "access_route \<Rightarrow> string" where
  "baseline_required_role route =
     (if ar_required_role route \<noteq> [] then ar_required_role route else if ar_admin_only route then ''admin'' else ''free'')"

definition caller_role :: "user_ctx option \<Rightarrow> string" where
  "caller_role ctx = (case ctx of None \<Rightarrow> ''free'' | Some c \<Rightarrow> (case uc_role c of None \<Rightarrow> ''free'' | Some r \<Rightarrow> if r = [] then ''free'' else r))"

definition model_access_denial ::
  "(string \<Rightarrow> string \<Rightarrow> string) option \<Rightarrow> access_route \<Rightarrow> string \<Rightarrow> user_ctx option \<Rightarrow> bool \<Rightarrow> access_denial option" where
  "model_access_denial visibility_resolver route model_id ctx grant_scope =
     (if \<not> ar_published route then Some UNPUBLISHED
      else
        (let canonical = route_canonical_model_id route model_id; baseline = baseline_required_role route;
             required = (case visibility_resolver of None \<Rightarrow> baseline | Some eff \<Rightarrow> eff canonical baseline)
         in if \<not> has_role (caller_role ctx) required then Some ROLE
            else if is_model_disabled_for_user canonical ctx then Some DISABLED
            else if is_model_outside_key_scope canonical ctx then Some OUTSIDE_KEY
            else if grant_scope \<and> is_model_outside_grant_scope canonical ctx then Some OUTSIDE_GRANT
            else None))"

lemma objects_ex: "list_ex (\<lambda>r. case r of JObj d \<Rightarrow> P d | _ \<Rightarrow> False) rs \<longleftrightarrow> (\<exists>d. JObj d \<in> set rs \<and> P d)"
proof (induction rs)
  case (Cons r rs)
  then show ?case by (cases r) auto
qed simp

text \<open>A model that names no role and is not an administrator's is open to everybody exactly when no price is
  known for it and every route is an engine on this machine.\<close>

lemma free_by_default:
  assumes "dict_get model ''required_role'' = None" "\<not> truthy (jget model ''admin_only'')"
  shows "default_required_role_for_model py_float hostname py_str model = ''free'' \<longleftrightarrow>
    \<not> model_pricing_indicates_paid py_float model \<and>
    (case jget model ''route'' of
       JArr (r # rs) \<Rightarrow> (\<forall>d. JObj d \<in> set (r # rs) \<longrightarrow> route_is_locally_served hostname py_str d (jget model ''provider'') (jget model ''base_url''))
     | _ \<Rightarrow> route_is_locally_served hostname py_str [(''kind'', jget model ''provider''), (''base_url'', jget model ''base_url'')] JNull JNull)"
  using assms unfolding default_required_role_for_model_def model_cost_is_unknown_remote_def objects_ex Let_def
  by (simp split: json.split list.split) blast

text \<open>An empty grant opens nothing, and no grant at all restricts nothing.\<close>

lemma grant_scope_empty:
  "is_model_outside_grant_scope m (Some (c\<lparr>uc_agent_allowed_models := Some []\<rparr>))"
  "\<not> is_model_outside_grant_scope m (Some (c\<lparr>uc_agent_allowed_models := None\<rparr>))"
  by (simp_all add: is_model_outside_grant_scope_def)

lemma access_granted:
  "model_access_denial vr route m ctx True = None \<longleftrightarrow>
     ar_published route \<and>
     has_role (caller_role ctx) (case vr of None \<Rightarrow> baseline_required_role route | Some eff \<Rightarrow> eff (route_canonical_model_id route m) (baseline_required_role route)) \<and>
     \<not> is_model_disabled_for_user (route_canonical_model_id route m) ctx \<and>
     \<not> is_model_outside_key_scope (route_canonical_model_id route m) ctx \<and>
     \<not> is_model_outside_grant_scope (route_canonical_model_id route m) ctx"
  by (simp add: model_access_denial_def Let_def)

end
