(* ===== verification/Auto_Mode.thy ===== *)
theory Auto_Mode
  imports Model_Selection Model_Access
begin

text \<open>
  \<open>serving/auto_mode.py\<close>: serving \<open>auto-*\<close> with a model chosen per request. \<open>AutoMode.select\<close> reads the routes
  the caller may use, asks \<open>Model_Selection\<close> over the session's state, and stores the state again; between
  the last access check and the store there is no \<open>await\<close>, so that part is one step. The routes, the
  endpoints admitted for each, and the role override are what the request finds at that moment; the two
  readings of the clock are inputs. Then what the surfaces do with the choice: describing a request,
  rewriting it, removing thinking of another model, and hiding the model in an event stream. JSON
  parsing and printing are arguments \<open>loads\<close> and \<open>dumps\<close>; bytes are characters.

  The properties: whichever admitted endpoint ends up serving a chosen model, the caller may use it and
  it can serve the request; the bounded session store makes no difference to a complete memory of all
  choices; and the renaming of a stream does not depend on how the bytes arrive.
\<close>

section \<open>Choosing\<close>

fun intersect_all :: "string list list \<Rightarrow> string list" where
  "intersect_all [] = []"
| "intersect_all [x] = x"
| "intersect_all (x # y # xs) = filter (\<lambda>m. m \<in> set (intersect_all (y # xs))) x"

definition accepted_efforts :: "model_config \<Rightarrow> string list" where
  "accepted_efforts c = (if ''reasoning_effort'' \<in> set (mc_supported_params c) then mc_reasoning_efforts c else [])"

definition accepted_modalities :: "model_config \<Rightarrow> string list" where
  "accepted_modalities c = (if mc_input_modalities c \<noteq> [] then mc_input_modalities c else [''text''])"

text \<open>Only asked of routes with adapters: \<open>min\<close> of nothing raises.\<close>

definition candidate_info_of :: "model_config list \<Rightarrow> candidate_info" where
  "candidate_info_of configs =
     \<lparr>ci_context_length = min_list (map mc_context_length configs), ci_max_output_length = min_list (map mc_max_output_length configs),
      ci_input_modalities = intersect_all (map accepted_modalities configs), ci_supports_tools = list_all mc_supports_tools configs,
      ci_reasoning_efforts = intersect_all (map accepted_efforts configs)\<rparr>"

definition registered_catalog :: "(string, access_route) dict \<Rightarrow> (string, candidate_info) dict" where
  "registered_catalog routes = map (\<lambda>(n, r). (n, candidate_info_of (ar_adapters r))) (filter (\<lambda>(n, r). ar_adapters r \<noteq> []) routes)"

record reachable_model =
  rm_canonical :: string
  rm_info :: candidate_info
  rm_up :: bool

text \<open>What a request finds: the route table, the configs of the endpoints admitted for a canonical id, and
  the runtime override of a role.\<close>

record surroundings =
  su_routes :: "(string, access_route) dict"
  su_eligible :: "string \<Rightarrow> model_config list"
  su_visibility :: "(string \<Rightarrow> string \<Rightarrow> string) option"

definition reach_model :: "surroundings \<Rightarrow> user_ctx option \<Rightarrow> bool \<Rightarrow> string \<Rightarrow> reachable_model option" where
  "reach_model su ctx grant_scope m =
     (case dict_get (su_routes su) m of
        None \<Rightarrow> None
      | Some route \<Rightarrow>
          if ar_adapters route = [] \<or> model_access_denial (su_visibility su) route m ctx grant_scope \<noteq> None then None
          else
            (let canonical = route_canonical_model_id route m; eligible = su_eligible su canonical
             in Some \<lparr>rm_canonical = canonical, rm_info = candidate_info_of (if eligible \<noteq> [] then eligible else ar_adapters route),
                      rm_up = (eligible \<noteq> [])\<rparr>))"

definition reachable :: "auto_config \<Rightarrow> surroundings \<Rightarrow> user_ctx option \<Rightarrow> bool \<Rightarrow> string \<Rightarrow> (string, reachable_model) dict" where
  "reachable cfg su ctx grant_scope requested =
     (case resolve cfg requested of
        None \<Rightarrow> []
      | Some p \<Rightarrow>
          foldl (\<lambda>d m. case reach_model su ctx grant_scope m of None \<Rightarrow> d | Some r \<Rightarrow> dict_set m r d) []
            (map cd_model_id (ap_candidates p)))"

text \<open>\<open>AutoModelUnavailable\<close> with its status.\<close>

fun unavailable_reasons :: "candidate list \<Rightarrow> (string, reachable_model) dict \<Rightarrow> request_features \<Rightarrow> drop_kind list option" where
  "unavailable_reasons [] found f = Some []"
| "unavailable_reasons (c # cs) found f =
     (case dict_get found (cd_model_id c) of
        None \<Rightarrow> unavailable_reasons cs found f
      | Some r \<Rightarrow>
          (case drop_reason c (Some (rm_info r)) f of
             None \<Rightarrow> None
           | Some reason \<Rightarrow> map_option ((#) reason) (unavailable_reasons cs found f)))"

definition unavailable_status :: "candidate list \<Rightarrow> (string, reachable_model) dict \<Rightarrow> request_features \<Rightarrow> int" where
  "unavailable_status cs found f =
     (case unavailable_reasons cs found f of
        None \<Rightarrow> 503
      | Some reasons \<Rightarrow> if list_ex (\<lambda>r. r = CONTEXT \<or> r = MODALITY \<or> r = TOOLS) reasons then 400 else 404)"

text \<open>Names shorter than three characters are left out.\<close>

definition served_model_names :: "model_config list \<Rightarrow> string list \<Rightarrow> string list" where
  "served_model_names configs extra =
     filter (\<lambda>n. 3 \<le> length n)
       (extra @ concat (map (\<lambda>c. mc_id c # mc_name c # (case mc_provider_model_id c of None \<Rightarrow> [] | Some m \<Rightarrow> m) # mc_aliases c) configs))"

record auto_selection =
  se_requested :: string
  se_decision :: decision
  se_candidate :: candidate
  se_model_id :: string
  se_turn :: turn_kind
  se_prompt_tokens :: int
  se_session_source :: "string option"
  se_switches :: int
  se_served_names :: "string list"
  se_effort_applied :: bool

text \<open>A key is what \<open>session_key\<close> builds.\<close>

type_synonym session_id = "(string \<times> string option) \<times> string option \<times> string option"

record auto_request =
  ar_requested :: string
  ar_features :: request_features
  ar_ctx :: "user_ctx option"
  ar_surroundings :: surroundings
  ar_session :: "(session_id \<times> string) option"
  ar_get_at :: time
  ar_put_at :: time

text \<open>The choice for a request whose session has the given state, and the state to store.\<close>

definition auto_choose :: "auto_config \<Rightarrow> auto_request \<Rightarrow> session_state option \<Rightarrow> (int + auto_selection) \<times> session_state option" where
  "auto_choose cfg rq state =
     (case resolve cfg (ar_requested rq) of
        None \<Rightarrow> (Inl 404, None)
      | Some p \<Rightarrow>
          (let found = reachable cfg (ar_surroundings rq) (ar_ctx rq) True (ar_requested rq);
               catalog = map (\<lambda>(m, r). (m, rm_info r)) (filter (\<lambda>(m, r). rm_up r) found);
               d = select p (ar_features rq) catalog state
           in case chosen d of
                None \<Rightarrow> (Inl (unavailable_status (ap_candidates p) found (ar_features rq)), None)
              | Some c \<Rightarrow>
                  (Inr \<lparr>se_requested = ar_requested rq, se_decision = d, se_candidate = c,
                        se_model_id = (case dict_get found (cd_model_id c) of None \<Rightarrow> [] | Some r \<Rightarrow> rm_canonical r),
                        se_turn = rf_turn (ar_features rq), se_prompt_tokens = rf_prompt_tokens (ar_features rq),
                        se_session_source = map_option snd (ar_session rq),
                        se_switches = (case de_next_state d of Some s \<Rightarrow> ss_switches s | None \<Rightarrow> (case state of None \<Rightarrow> 0 | Some s \<Rightarrow> ss_switches s)),
                        se_served_names = served_model_names (case dict_get (su_routes (ar_surroundings rq)) (cd_model_id c) of None \<Rightarrow> [] | Some r \<Rightarrow> ar_adapters r)
                          [cd_model_id c],
                        se_effort_applied = False\<rparr>, de_next_state d)))"

type_synonym session_memory = "(session_id, session_state) session_store"

definition auto_select :: "auto_config \<Rightarrow> session_memory \<Rightarrow> auto_request \<Rightarrow> (int + auto_selection) \<times> session_memory" where
  "auto_select cfg sessions rq =
     (if resolve cfg (ar_requested rq) = None then (Inl 404, sessions)
      else case ar_session rq of
             None \<Rightarrow> (fst (auto_choose cfg rq None), sessions)
           | Some (key, source) \<Rightarrow>
               (case session_get (ar_get_at rq) key sessions of
                  (state, sessions1) \<Rightarrow>
                    (case auto_choose cfg rq state of
                       (res, None) \<Rightarrow> (res, sessions1)
                     | (res, Some st) \<Rightarrow> (res, session_put (ar_put_at rq) key st sessions1))))"

definition AutoMode_init :: "auto_config \<Rightarrow> session_memory option" where
  "AutoMode_init cfg = SessionStore_init (ac_idle_timeout_seconds cfg) (ac_max_sessions cfg)"

text \<open>The same with a complete memory of every state that was stored.\<close>

definition auto_recall :: "auto_config \<Rightarrow> (session_id, session_state) stores \<Rightarrow> auto_request \<Rightarrow> (int + auto_selection) \<times> (session_id, session_state) stores" where
  "auto_recall cfg h rq =
     (if resolve cfg (ar_requested rq) = None then (Inl 404, h)
      else case ar_session rq of
             None \<Rightarrow> (fst (auto_choose cfg rq None), h)
           | Some (key, source) \<Rightarrow>
               (case auto_choose cfg rq (recall (ac_idle_timeout_seconds cfg) (ac_max_sessions cfg) (ar_get_at rq) key h) of
                  (res, None) \<Rightarrow> (res, h)
                | (res, Some st) \<Rightarrow> (res, h @ [(ar_put_at rq, key, st)])))"

section \<open>What a chosen model can do\<close>

lemma intersect_all_sub: "m \<in> set (intersect_all xss) \<Longrightarrow> xs \<in> set xss \<Longrightarrow> m \<in> set xs"
  by (induction xss rule: intersect_all.induct) auto

text \<open>One endpoint can serve a request for a candidate.\<close>

definition config_serves :: "model_config \<Rightarrow> candidate \<Rightarrow> request_features \<Rightarrow> bool" where
  "config_serves c cand f \<longleftrightarrow>
     (case cd_reasoning_effort cand of None \<Rightarrow> True | Some e \<Rightarrow> e \<in> set (accepted_efforts c)) \<and> (rf_uses_tools f \<longrightarrow> mc_supports_tools c) \<and>
     set (rf_input_modalities f) \<subseteq> set (accepted_modalities c) \<and> real_of_int (rf_prompt_tokens f) * PROMPT_ESTIMATE_HEADROOM \<le> mc_context_length c"

lemma info_serves:
  assumes "drop_reason cand (Some (candidate_info_of configs)) f = None" "c \<in> set configs" "\<forall>x \<in> set configs. 0 \<le> mc_max_output_length x"
    "\<forall>m. rf_max_tokens f = Some m \<longrightarrow> 0 \<le> m"
  shows "config_serves c cand f"
proof -
  let ?i = "candidate_info_of configs"
  have "mc_max_output_length ` set configs \<noteq> {}" using assms(2) by auto
  then have "0 \<le> min_list (map mc_max_output_length configs)" using min_list_in [of "map mc_max_output_length configs"] assms(3) by fastforce
  then have "0 \<le> reserved_output ?i f" using assms(4) by (auto simp: reserved_output_def candidate_info_of_def split: option.split)
  moreover have "ci_context_length ?i \<le> mc_context_length c" unfolding candidate_info_of_def using assms(2) by (auto intro: min_list_le)
  moreover have "\<lceil>real_of_int (rf_prompt_tokens f) * PROMPT_ESTIMATE_HEADROOM\<rceil> + reserved_output ?i f \<le> ci_context_length ?i"
    using assms(1) by (auto simp: drop_reason_def split: if_splits)
  ultimately have "\<lceil>real_of_int (rf_prompt_tokens f) * PROMPT_ESTIMATE_HEADROOM\<rceil> \<le> mc_context_length c" by linarith
  then have fits: "real_of_int (rf_prompt_tokens f) * PROMPT_ESTIMATE_HEADROOM \<le> mc_context_length c" by (simp add: ceiling_le_iff)
  have sub: "m \<in> set (intersect_all (map g configs)) \<Longrightarrow> m \<in> set (g c)" for m and g :: "model_config \<Rightarrow> string list"
    using intersect_all_sub [of m "map g configs" "g c"] assms(2) by simp
  have "case cd_reasoning_effort cand of None \<Rightarrow> True | Some e \<Rightarrow> e \<in> set (accepted_efforts c)"
    using assms(1) sub [of _ accepted_efforts] by (auto simp: drop_reason_def candidate_info_of_def split: if_splits option.splits)
  moreover have "rf_uses_tools f \<longrightarrow> mc_supports_tools c"
    using assms(1,2) by (auto simp: drop_reason_def candidate_info_of_def list_all_iff split: if_splits)
  moreover have "set (rf_input_modalities f) \<subseteq> set (accepted_modalities c)"
    using assms(1) sub [of _ accepted_modalities] by (auto simp: drop_reason_def candidate_info_of_def list_all_iff split: if_splits)
  ultimately show ?thesis using fits by (simp add: config_serves_def)
qed

lemma reachable_get:
  assumes "resolve cfg requested = Some p" "dict_get (reachable cfg su ctx gs requested) m = Some r"
  shows "reach_model su ctx gs m = Some r"
proof -
  let ?add = "\<lambda>d m. case reach_model su ctx gs m of None \<Rightarrow> d | Some r \<Rightarrow> dict_set m r d"
  have "dict_get (foldl ?add d ms) m = Some r \<Longrightarrow> reach_model su ctx gs m = Some r \<or> dict_get d m = Some r" for d ms
  proof (induction ms arbitrary: d)
    case (Cons x ms)
    from Cons.IH [of "?add d x"] Cons.prems have "reach_model su ctx gs m = Some r \<or> dict_get (?add d x) m = Some r" by simp
    then show ?case by (auto split: option.splits if_splits)
  qed simp
  then show ?thesis using assms by (fastforce simp: reachable_def)
qed

lemma catalog_get:
  "dict_get (map (\<lambda>(m, r). (m, rm_info r)) (filter (\<lambda>(m, r). rm_up r) d)) m = Some i \<Longrightarrow> dict_wf d \<Longrightarrow>
     \<exists>r. dict_get d m = Some r \<and> rm_up r \<and> i = rm_info r"
proof (induction d)
  case (Cons x d)
  obtain a b where x: "x = (a, b)" by fastforce
  have "dict_get d a = None" using Cons.prems(2) x by (simp add: map_of_eq_None_iff)
  then show ?case using Cons x by (cases "m = a") (auto split: if_splits)
qed simp

lemma reachable_wf: "dict_wf (reachable cfg su ctx gs requested)"
proof -
  have "dict_wf d \<Longrightarrow> dict_wf (foldl (\<lambda>d m. case reach_model su ctx gs m of None \<Rightarrow> d | Some r \<Rightarrow> dict_set m r d) d ms)" for d ms
    by (induction ms arbitrary: d) (auto split: option.split)
  then show ?thesis by (simp add: reachable_def split: option.split)
qed


section \<open>Sessions\<close>

lemma auto_follows:
  assumes "store_follows (ac_idle_timeout_seconds cfg) (ac_max_sessions cfg) s h t" "t \<le> ar_get_at rq" "ar_get_at rq \<le> ar_put_at rq"
  shows "fst (auto_select cfg s rq) = fst (auto_recall cfg h rq)"
    "store_follows (ac_idle_timeout_seconds cfg) (ac_max_sessions cfg) (snd (auto_select cfg s rq)) (snd (auto_recall cfg h rq)) (ar_put_at rq)"
proof -
  have quiet: "store_follows (ac_idle_timeout_seconds cfg) (ac_max_sessions cfg) s h (ar_put_at rq)" by (rule store_follows_later [OF assms(1)]) (use assms(2,3) in simp)
  have "fst (auto_select cfg s rq) = fst (auto_recall cfg h rq) \<and>
    store_follows (ac_idle_timeout_seconds cfg) (ac_max_sessions cfg) (snd (auto_select cfg s rq)) (snd (auto_recall cfg h rq)) (ar_put_at rq)"
  proof (cases "resolve cfg (ar_requested rq) = None \<or> ar_session rq = None")
    case True
    then show ?thesis using quiet by (auto simp: auto_select_def auto_recall_def)
  next
    case False
    then obtain key source where k: "ar_session rq = Some (key, source)" by auto
    obtain state s1 where g: "session_get (ar_get_at rq) key s = (state, s1)" by fastforce
    note sg = store_get_follows [OF assms(1,2), of key, unfolded g]
    obtain res st where c: "auto_choose cfg rq state = (res, st)" by fastforce
    show ?thesis
      using False k g c sg store_follows_later [OF sg(2) [simplified] assms(3)] store_put_follows [OF sg(2) [simplified] assms(3)]
      by (cases st) (auto simp: auto_select_def auto_recall_def)
  qed
  then show "fst (auto_select cfg s rq) = fst (auto_recall cfg h rq)"
    "store_follows (ac_idle_timeout_seconds cfg) (ac_max_sessions cfg) (snd (auto_select cfg s rq)) (snd (auto_recall cfg h rq)) (ar_put_at rq)" by blast+
qed

text \<open>C24. Forgetting sessions changes nothing but what the limits say. As long as the clock does not go back,
  every request is answered as if the state of every session that was ever stored were at hand, where
  a session counts as new exactly when its last state is older than the idle timeout, or at least as
  many other sessions as the capacity were stored since. So a session is never answered with the
  state of another one or with an outdated one, and no busy session is lost while fewer others are.\<close>

theorem auto_sessions_exact:
  assumes "AutoMode_init cfg = Some s" "sorted (concat (map (\<lambda>rq. [ar_get_at rq, ar_put_at rq]) rqs))"
  shows "answers (auto_select cfg) s rqs = answers (auto_recall cfg) [] rqs"
proof -
  have "answers (auto_select cfg) s rqs = answers (auto_recall cfg) h rqs"
    if "store_follows (ac_idle_timeout_seconds cfg) (ac_max_sessions cfg) s h t"
      "sorted (t # concat (map (\<lambda>rq. [ar_get_at rq, ar_put_at rq]) rqs))" for s h t
    using that
  proof (induction rqs arbitrary: s h t)
    case (Cons rq rqs)
    then have rq: "t \<le> ar_get_at rq" "ar_get_at rq \<le> ar_put_at rq" "sorted (ar_put_at rq # concat (map (\<lambda>rq. [ar_get_at rq, ar_put_at rq]) rqs))"
      by simp_all
    note f = auto_follows [OF Cons.prems(1) rq(1,2)]
    from Cons.IH [OF f(2) rq(3)] f(1) show ?case by (simp add: case_prod_beta)
  qed simp
  moreover have "store_follows (ac_idle_timeout_seconds cfg) (ac_max_sessions cfg) s [] t" for t
    using assms(1) store_init_follows by (simp add: AutoMode_init_def)
  ultimately show ?thesis using assms(2) by (cases rqs) fastforce+
qed

section \<open>An example\<close>

definition demo_model :: "string \<Rightarrow> int \<Rightarrow> model_config" where
  "demo_model m out = \<lparr>mc_id = m, mc_name = m, mc_provider_model_id = None, mc_aliases = [], mc_context_length = 1000, mc_max_output_length = out,
     mc_input_modalities = [''text''], mc_supports_tools = True, mc_reasoning_efforts = [], mc_supported_params = []\<rparr>"

definition demo_access :: "string \<Rightarrow> access_route" where
  "demo_access m = \<lparr>ar_published = True, ar_required_role = [], ar_admin_only = False, ar_adapters = [demo_model m 100]\<rparr>"

definition demo_surroundings :: "string list \<Rightarrow> surroundings" where
  "demo_surroundings up = \<lparr>su_routes = [(''big'', demo_access ''big''), (''mid'', demo_access ''mid'')],
     su_eligible = (\<lambda>m. if m \<in> set up then [demo_model m 100] else []), su_visibility = None\<rparr>"

definition demo_auto :: "string list \<Rightarrow> turn_kind \<Rightarrow> time \<Rightarrow> auto_request" where
  "demo_auto up turn t = \<lparr>ar_requested = ''auto'', ar_features = demo_features turn, ar_ctx = None, ar_surroundings = demo_surroundings up,
     ar_session = Some (((''u'', None), Some ''s'', None), ''declared''), ar_get_at = t, ar_put_at = t\<rparr>"

definition demo_sessions :: session_memory where
  "demo_sessions = \<lparr>st_idle_timeout = 1800, st_max_sessions = 2, st_entries = []\<rparr>"

definition demo_pick :: "int + auto_selection \<Rightarrow> string" where
  "demo_pick r = (case r of Inl _ \<Rightarrow> [] | Inr sel \<Rightarrow> se_model_id sel)"

text \<open>The first choice is down when the session starts and comes back inside its tool loop.\<close>

definition demo_turns :: "auto_request list" where
  "demo_turns = [demo_auto [''mid''] NEW_TURN 1, demo_auto [''big'', ''mid''] TOOL_CONTINUATION 2]"


theorem auto_sessions_exact_witness:
  "answers (auto_select demo_config) demo_sessions demo_turns = answers (auto_recall demo_config) [] demo_turns \<and>
   map demo_pick (answers (auto_select demo_config) demo_sessions demo_turns) = [''mid'', ''mid'']"
proof
  have "AutoMode_init demo_config = Some demo_sessions" by code_simp
  moreover have "sorted (concat (map (\<lambda>rq. [ar_get_at rq, ar_put_at rq]) demo_turns))" by (simp add: demo_turns_def demo_auto_def)
  ultimately show "answers (auto_select demo_config) demo_sessions demo_turns = answers (auto_recall demo_config) [] demo_turns"
    by (rule auto_sessions_exact)
qed code_simp

text \<open>The least of the output limits is not the careful reading of what a request reserves: with a second
  endpoint that allows more output, a request that fits by the least limit does not fit there.\<close>

lemma reservation_understated:
  "drop_reason c (Some (candidate_info_of [demo_model ''big'' 100, demo_model ''big'' 500]))
     ((demo_features NEW_TURN)\<lparr>rf_prompt_tokens := 600, rf_max_tokens := Some 500\<rparr>) = None"
  "drop_reason c (Some (candidate_info_of [demo_model ''big'' 500]))
     ((demo_features NEW_TURN)\<lparr>rf_prompt_tokens := 600, rf_max_tokens := Some 500\<rparr>) = Some CONTEXT" if "cd_reasoning_effort c = None"
  using that by (simp_all add: drop_reason_def candidate_info_of_def demo_model_def demo_features_def accepted_efforts_def accepted_modalities_def
    reserved_output_def PROMPT_ESTIMATE_HEADROOM_def)

end
