(* ===== verification/Auto_Surface.thy ===== *)
theory Auto_Surface
  imports Auto_Mode
begin

text \<open>
  \<open>serving/auto_mode.py\<close>, second part: what the inference surfaces do with a choice. A request is described in
  neutral terms and keyed to its session; the body is rewritten for the chosen model, thinking another
  model wrote is removed from it, and the name of the model is replaced in the opening event of an
  Anthropic stream. A number of a body without a fraction is an integer.
\<close>

section \<open>Describing a request\<close>

definition session_key :: "user_ctx option \<Rightarrow> string option \<Rightarrow> string option \<Rightarrow> (session_id \<times> string) option" where
  "session_key ctx declared opening_fingerprint =
     (if declared = None \<and> opening_fingerprint = None then None
      else
        (let user = (case ctx of None \<Rightarrow> None | Some c \<Rightarrow> uc_user_id c); grant = (case ctx of None \<Rightarrow> None | Some c \<Rightarrow> uc_agent_grant_id c)
         in Some (((case user of None \<Rightarrow> ''anonymous'' | Some u \<Rightarrow> if u = [] then ''anonymous'' else u, grant), declared, opening_fingerprint),
                  if declared \<noteq> None then ''declared'' else ''conversation'')))"

definition role_is :: "json \<Rightarrow> string \<Rightarrow> bool" where
  "role_is m r \<longleftrightarrow> (case m of JObj d \<Rightarrow> jget d ''role'' = JStr r | _ \<Rightarrow> False)"

definition openai_features ::
  "dumper \<Rightarrow> (json \<Rightarrow> string) \<Rightarrow> json list \<Rightarrow> json \<Rightarrow> json \<Rightarrow> int option \<Rightarrow> string list \<Rightarrow> request_features" where
  "openai_features dumps py_str messages tools response_format max_tokens required_modalities =
     \<lparr>rf_prompt_tokens = int (estimate_prefill_tokens dumps py_str messages tools response_format),
      rf_turn = (if messages \<noteq> [] \<and> role_is (last messages) ''tool'' then TOOL_CONTINUATION else NEW_TURN),
      rf_max_tokens = max_tokens, rf_input_modalities = ''text'' # required_modalities, rf_uses_tools = truthy tools\<rparr>"

definition objects_in :: "json \<Rightarrow> (string \<times> json) list list" where
  "objects_in v = (case v of JArr xs \<Rightarrow> concat (map (\<lambda>x. case x of JObj d \<Rightarrow> [d] | _ \<Rightarrow> []) xs) | _ \<Rightarrow> [])"

definition block_and_inner :: "(string \<times> json) list \<Rightarrow> (string \<times> json) list list" where
  "block_and_inner block = block # (if jget block ''type'' = JStr ''tool_result'' then objects_in (jget block ''content'') else [])"

text \<open>The roles \<open>_anthropic_blocks\<close> pairs with the blocks are not read by its callers.\<close>

definition anthropic_blocks :: "json \<Rightarrow> (string \<times> json) list list" where
  "anthropic_blocks messages = concat (map (\<lambda>d. concat (map block_and_inner (objects_in (jget d ''content'')))) (objects_in messages))"

definition json_int :: "json \<Rightarrow> int option" where
  "json_int v = (case v of JNum x \<Rightarrow> if real_of_int \<lfloor>x\<rfloor> = x then Some \<lfloor>x\<rfloor> else None | JBool b \<Rightarrow> Some (if b then 1 else 0) | _ \<Rightarrow> None)"

definition anthropic_features :: "(string \<times> json) list \<Rightarrow> int \<Rightarrow> bool \<Rightarrow> request_features" where
  "anthropic_features body prompt_tokens side_call =
     (let messages = jget body ''messages'';
          in_tool_loop = (case messages of
              JArr (m # ms) \<Rightarrow>
                role_is (last (m # ms)) ''user'' \<and> list_ex (\<lambda>b. jget b ''type'' = JStr ''tool_result'') (anthropic_blocks (JArr [last (m # ms)]))
            | _ \<Rightarrow> False);
          has_image = list_ex (\<lambda>b. jget b ''type'' = JStr ''image'') (anthropic_blocks messages)
      in \<lparr>rf_prompt_tokens = prompt_tokens,
          rf_turn = (if side_call then SIDE_CALL else if in_tool_loop then TOOL_CONTINUATION else NEW_TURN),
          rf_max_tokens = json_int (jget body ''max_tokens''),
          rf_input_modalities = (if has_image then [''text'', ''image''] else [''text'']), rf_uses_tools = truthy (jget body ''tools'')\<rparr>)"

section \<open>Rewriting a request\<close>

record chat_payload =
  cp_model :: string
  cp_reasoning_effort :: "string option"

definition apply_to_chat_request :: "auto_selection \<Rightarrow> chat_payload \<Rightarrow> auto_selection \<times> chat_payload" where
  "apply_to_chat_request sel payload =
     (case cd_reasoning_effort (se_candidate sel) of
        Some e \<Rightarrow>
          if cp_reasoning_effort payload = None
          then (sel\<lparr>se_effort_applied := True\<rparr>, payload\<lparr>cp_model := se_model_id sel, cp_reasoning_effort := Some e\<rparr>)
          else (sel, payload\<lparr>cp_model := se_model_id sel\<rparr>)
      | None \<Rightarrow> (sel, payload\<lparr>cp_model := se_model_id sel\<rparr>))"

definition apply_to_anthropic_body :: "auto_selection \<Rightarrow> (string \<times> json) list \<Rightarrow> auto_selection \<times> (string \<times> json) list" where
  "apply_to_anthropic_body sel body0 =
     (let body = dict_set ''model'' (JStr (se_model_id sel)) body0; output_config = jget body ''output_config'';
          client_effort = (jget body ''reasoning_effort'' \<noteq> JNull \<or> (case output_config of JObj d \<Rightarrow> jget d ''effort'' \<noteq> JNull | _ \<Rightarrow> False))
      in case cd_reasoning_effort (se_candidate sel) of
           None \<Rightarrow> (sel, body)
         | Some e \<Rightarrow>
             if client_effort then (sel, body)
             else (case output_config of
                     JNull \<Rightarrow> (sel\<lparr>se_effort_applied := True\<rparr>, dict_set ''output_config'' (JObj [(''effort'', JStr e)]) body)
                   | JObj d \<Rightarrow> (sel\<lparr>se_effort_applied := True\<rparr>, dict_set ''output_config'' (JObj (dict_set ''effort'' (JStr e) d)) body)
                   | _ \<Rightarrow> (sel, body)))"

definition hide_served_model :: "auto_selection \<Rightarrow> model_config list \<Rightarrow> (string \<times> string list) option \<Rightarrow> string \<times> string list" where
  "hide_served_model sel also current =
     (se_requested sel, (case current of Some (_, names) \<Rightarrow> names | None \<Rightarrow> se_served_names sel) @ served_model_names also [])"

section \<open>Thinking of another model\<close>

definition is_thinking :: "json \<Rightarrow> bool" where
  "is_thinking b \<longleftrightarrow> (case b of JObj d \<Rightarrow> jget d ''type'' = JStr ''thinking'' \<or> jget d ''type'' = JStr ''redacted_thinking'' | _ \<Rightarrow> False)"

definition last_assistant :: "json list \<Rightarrow> nat option" where
  "last_assistant ms = (case filter (\<lambda>i. role_is (ms ! i) ''assistant'') [0..<length ms] of [] \<Rightarrow> None | is \<Rightarrow> Some (last is))"

text \<open>The messages that are left, and the number of blocks removed.\<close>

fun strip_messages :: "nat option \<Rightarrow> nat \<Rightarrow> json list \<Rightarrow> json list \<times> nat" where
  "strip_messages keep_index i [] = ([], 0)"
| "strip_messages keep_index i (m # ms) =
     (case strip_messages keep_index (Suc i) ms of
        (kept, removed) \<Rightarrow>
          if Some i = keep_index \<or> \<not> role_is m ''assistant'' then (m # kept, removed)
          else (case m of
                  JObj d \<Rightarrow>
                    (case jget d ''content'' of
                       JArr content \<Rightarrow>
                         (let remaining = filter (\<lambda>b. \<not> is_thinking b) content
                          in (if remaining \<noteq> [] then JObj (dict_set ''content'' (JArr remaining) d) # kept else kept,
                              length content - length remaining + removed))
                     | _ \<Rightarrow> (m # kept, removed))
                | _ \<Rightarrow> (m # kept, removed)))"

definition strip_foreign_thinking :: "auto_selection \<Rightarrow> (string \<times> json) list \<Rightarrow> nat \<times> (string \<times> json) list" where
  "strip_foreign_thinking sel body =
     (if se_switches sel = 0 then (0, body)
      else case jget body ''messages'' of
             JArr ms \<Rightarrow>
               (let keep_index = (if se_turn sel = TOOL_CONTINUATION \<and> de_session_action (se_decision sel) = KEEP then last_assistant ms else None);
                    (kept, removed) = strip_messages keep_index 0 ms
                in (removed, if removed \<noteq> 0 then dict_set ''messages'' (JArr kept) body else body))
           | _ \<Rightarrow> (0, body))"

definition thinks :: "json \<Rightarrow> bool" where
  "thinks m \<longleftrightarrow> role_is m ''assistant'' \<and>
     (case m of JObj d \<Rightarrow> (case jget d ''content'' of JArr content \<Rightarrow> list_ex is_thinking content | _ \<Rightarrow> False) | _ \<Rightarrow> False)"

lemma strip_messages_clean:
  "x \<in> set (fst (strip_messages keep i ms)) \<Longrightarrow> thinks x \<Longrightarrow> \<exists>k < length ms. keep = Some (i + k) \<and> x = ms ! k"
proof (induction ms arbitrary: i)
  case (Cons m ms)
  obtain kept removed where s: "strip_messages keep (Suc i) ms = (kept, removed)" by fastforce
  have "x = m \<and> Some i = keep \<or> x \<in> set kept"
    using Cons.prems s
    by (auto simp: thinks_def role_is_def jget_def dict_get_or_def list_ex_iff Let_def split: if_splits json.splits option.splits)
  then show ?case
  proof
    assume "x \<in> set kept"
    then obtain k where "k < length ms" "keep = Some (Suc i + k)" "x = ms ! k" using Cons.IH [of "Suc i"] Cons.prems(2) s by auto
    then show ?thesis by (intro exI [of _ "Suc k"]) simp
  qed auto
qed simp

lemma strip_messages_none: "snd (strip_messages keep i ms) = 0 \<Longrightarrow> k < length ms \<Longrightarrow> keep \<noteq> Some (i + k) \<Longrightarrow> \<not> thinks (ms ! k)"
proof (induction ms arbitrary: i k)
  case (Cons m ms)
  obtain kept removed where s: "strip_messages keep (Suc i) ms = (kept, removed)" by fastforce
  have le: "length (filter (\<lambda>b. \<not> is_thinking b) content) \<le> length content" for content by (rule length_filter_le)
  have "removed \<le> snd (strip_messages keep i (m # ms))" using s le by (auto simp: Let_def le_diff_conv2 trans_le_add1 split: json.split)
  then have "removed = 0" using Cons.prems(1) by simp
  show ?case
  proof (cases k)
    case 0
    have "length (filter (\<lambda>b. \<not> is_thinking b) content) < length content" if "list_ex is_thinking content" for content
      using that length_filter_less [of _ content "\<lambda>b. \<not> is_thinking b"] by (auto simp: list_ex_iff)
    then show ?thesis using 0 Cons.prems s by (fastforce simp: thinks_def Let_def split: if_splits json.splits)
  next
    case (Suc j)
    then show ?thesis using Cons.IH [of "Suc i" j] Cons.prems s \<open>removed = 0\<close> by simp
  qed
qed simp

text \<open>Once a session has changed models, no message of an assistant carries thinking any more, except the last
  one while the session keeps its model inside a tool loop; before that nothing is touched.\<close>

lemma foreign_thinking_gone:
  assumes "jget body ''messages'' = JArr ms" "strip_foreign_thinking sel body = (n, body')"
  shows "se_switches sel = 0 \<Longrightarrow> body' = body"
    "se_switches sel \<noteq> 0 \<Longrightarrow> \<exists>ms'. jget body' ''messages'' = JArr ms' \<and> (\<forall>x \<in> set ms'. thinks x \<longrightarrow>
       se_turn sel = TOOL_CONTINUATION \<and> de_session_action (se_decision sel) = KEEP \<and> (\<exists>i. last_assistant ms = Some i \<and> x = ms ! i))"
proof -
  show "se_switches sel = 0 \<Longrightarrow> body' = body" using assms by (simp add: strip_foreign_thinking_def)
  define keep where "keep = (if se_turn sel = TOOL_CONTINUATION \<and> de_session_action (se_decision sel) = KEEP then last_assistant ms else None)"
  obtain kept removed where s: "strip_messages keep 0 ms = (kept, removed)" by fastforce
  have kept_at: "se_turn sel = TOOL_CONTINUATION \<and> de_session_action (se_decision sel) = KEEP \<and> last_assistant ms = Some k" if "keep = Some k" for k
    using that by (simp add: keep_def split: if_splits)
  assume "se_switches sel \<noteq> 0"
  then have b: "body' = (if removed \<noteq> 0 then dict_set ''messages'' (JArr kept) body else body)"
    using assms s by (auto simp: strip_foreign_thinking_def keep_def split: prod.splits)
  let ?ms = "if removed \<noteq> 0 then kept else ms"
  have "jget body' ''messages'' = JArr ?ms" using b assms(1) by (simp add: jget_def dict_get_or_def)
  moreover have "\<exists>k. keep = Some k \<and> x = ms ! k" if x: "x \<in> set ?ms" "thinks x" for x
  proof (cases "removed = 0")
    case True
    then obtain k where "k < length ms" "x = ms ! k" using x(1) by (auto simp: in_set_conv_nth)
    then show ?thesis using strip_messages_none [of keep 0 ms k] s True x(2) by auto
  qed (use x strip_messages_clean [of x keep 0 ms] s in auto)
  ultimately show "\<exists>ms'. jget body' ''messages'' = JArr ms' \<and> (\<forall>x \<in> set ms'. thinks x \<longrightarrow>
       se_turn sel = TOOL_CONTINUATION \<and> de_session_action (se_decision sel) = KEEP \<and> (\<exists>i. last_assistant ms = Some i \<and> x = ms ! i))"
    using kept_at by blast
qed

section \<open>The name in a stream\<close>

definition LF :: char where "LF = CHR 0x0A"
definition CR :: char where "CR = CHR 0x0D"
definition BLANK_LF :: string where "BLANK_LF = [LF, LF]"
definition BLANK_CRLF :: string where "BLANK_CRLF = [CR, LF, CR, LF]"

lemma length_blank [simp]: "length BLANK_LF = 2" "length BLANK_CRLF = 4"
  by (simp_all add: BLANK_LF_def BLANK_CRLF_def)

text \<open>\<open>bytes.find\<close>, \<open>split\<close> and \<open>strip\<close>.\<close>

definition bytes_find :: "string \<Rightarrow> string \<Rightarrow> nat option" where
  "bytes_find sub b = first_index (\<lambda>i. take (length sub) (drop i b) = sub) [0..<Suc (length b)]"

fun split_on :: "char \<Rightarrow> string \<Rightarrow> string list" where
  "split_on c [] = [[]]"
| "split_on c (x # xs) =
     (if x = c then [] # split_on c xs else (case split_on c xs of [] \<Rightarrow> [[x]] | l # ls \<Rightarrow> (x # l) # ls))"

fun join_with :: "char \<Rightarrow> string list \<Rightarrow> string" where
  "join_with c [] = []"
| "join_with c [l] = l"
| "join_with c (l # m # ls) = l @ [c] @ join_with c (m # ls)"

definition bytes_space :: "char \<Rightarrow> bool" where
  "bytes_space c \<longleftrightarrow> c \<in> {CHR '' '', CHR 0x09, CHR 0x0A, CHR 0x0B, CHR 0x0C, CHR 0x0D}"

definition bytes_strip :: "string \<Rightarrow> string" where
  "bytes_strip s = rev (dropWhile bytes_space (rev (dropWhile bytes_space s)))"

definition event_end :: "string \<Rightarrow> nat option" where
  "event_end b =
     (case (bytes_find BLANK_LF b, bytes_find BLANK_CRLF b) of
        (None, None) \<Rightarrow> None
      | (Some i, None) \<Rightarrow> Some (i + 2)
      | (None, Some j) \<Rightarrow> Some (j + 4)
      | (Some i, Some j) \<Rightarrow> Some (min (i + 2) (j + 4)))"

definition rename_payload :: "(string \<Rightarrow> json option) \<Rightarrow> (json \<Rightarrow> string) \<Rightarrow> string \<Rightarrow> string \<Rightarrow> string option" where
  "rename_payload loads dumps model payload =
     (case loads payload of
        Some (JObj d) \<Rightarrow>
          (if jget d ''type'' = JStr ''message_start''
           then (case jget d ''message'' of
                   JObj m \<Rightarrow> Some (dumps (JObj (dict_set ''message'' (JObj (dict_set ''model'' (JStr model) m)) d)))
                 | _ \<Rightarrow> None)
           else None)
      | _ \<Rightarrow> None)"

fun rename_lines :: "(string \<Rightarrow> json option) \<Rightarrow> (json \<Rightarrow> string) \<Rightarrow> string \<Rightarrow> string list \<Rightarrow> string list option" where
  "rename_lines loads dumps model [] = None"
| "rename_lines loads dumps model (l # ls) =
     (if \<not> starts_with ''data:'' l then map_option ((#) l) (rename_lines loads dumps model ls)
      else map_option (\<lambda>s. (''data: '' @ s @ (if l \<noteq> [] \<and> last l = CR then [CR] else [])) # ls)
             (rename_payload loads dumps model (bytes_strip (drop 5 l))))"

definition rename_event :: "(string \<Rightarrow> json option) \<Rightarrow> (json \<Rightarrow> string) \<Rightarrow> string \<Rightarrow> string \<Rightarrow> string option" where
  "rename_event loads dumps model event = map_option (join_with LF) (rename_lines loads dumps model (split_on LF event))"

definition MAX_HELD :: nat where "MAX_HELD = 65536"

record renamer =
  rn_held :: string
  rn_done :: bool

definition renamer_init :: renamer where
  "renamer_init = \<lparr>rn_held = [], rn_done = False\<rparr>"

text \<open>Where an event ends, without searching: the first place after which a delimiter has just ended.\<close>

definition closes :: "string \<Rightarrow> bool" where
  "closes b \<longleftrightarrow> (2 \<le> length b \<and> drop (length b - 2) b = BLANK_LF) \<or> (4 \<le> length b \<and> drop (length b - 4) b = BLANK_CRLF)"

definition ends_at :: "string \<Rightarrow> string \<Rightarrow> nat \<Rightarrow> bool" where
  "ends_at sub b n \<longleftrightarrow> length sub \<le> n \<and> n \<le> length b \<and> take (length sub) (drop (n - length sub) b) = sub"

lemma bytes_find_least:
  assumes "bytes_find sub b = Some i"
  shows "ends_at sub b (i + length sub)" "m < i + length sub \<Longrightarrow> \<not> ends_at sub b m"
proof -
  have i: "i \<le> length b" "take (length sub) (drop i b) = sub" "\<forall>j < i. take (length sub) (drop j b) \<noteq> sub"
    using assms by (auto simp: bytes_find_def first_index_Some_iff nth_append split: if_splits)
  have "length sub \<le> length b - i" using length_take [of "length sub" "drop i b"] unfolding i(2) by simp
  then show "ends_at sub b (i + length sub)" using i(1,2) by (simp add: ends_at_def)
  show "m < i + length sub \<Longrightarrow> \<not> ends_at sub b m" using i(3) by (auto simp: ends_at_def)
qed

lemma bytes_find_none: "bytes_find sub b = None \<Longrightarrow> \<not> ends_at sub b m"
  by (auto simp: bytes_find_def first_index_None ends_at_def)

lemma closes_take: "n \<le> length b \<Longrightarrow> closes (take n b) \<longleftrightarrow> ends_at BLANK_LF b n \<or> ends_at BLANK_CRLF b n"
  by (auto simp: closes_def ends_at_def drop_take min_absorb2)

lemma event_end_least:
  assumes "event_end b = Some n"
  shows "n \<le> length b" "closes (take n b)" "m < n \<Longrightarrow> \<not> closes (take m b)"
proof -
  have "(ends_at BLANK_LF b n \<or> ends_at BLANK_CRLF b n) \<and> (\<forall>m < n. \<not> ends_at BLANK_LF b m \<and> \<not> ends_at BLANK_CRLF b m)"
    using assms bytes_find_least [of BLANK_LF b] bytes_find_least [of BLANK_CRLF b] bytes_find_none [of BLANK_LF b] bytes_find_none [of BLANK_CRLF b]
    by (auto simp: event_end_def min_def split: option.splits if_splits)
  moreover from this show "n \<le> length b" by (auto simp: ends_at_def)
  ultimately show "closes (take n b)" "m < n \<Longrightarrow> \<not> closes (take m b)" using closes_take [of n b] closes_take [of m b] by auto
qed

lemma event_end_none: "event_end b = None \<Longrightarrow> m \<le> length b \<Longrightarrow> \<not> closes (take m b)"
  using bytes_find_none [of BLANK_LF b] bytes_find_none [of BLANK_CRLF b]
  by (auto simp: event_end_def closes_take split: option.splits)

lemma event_end_pos: "event_end b = Some n \<Longrightarrow> 0 < n"
  using event_end_least(2) [of b n] by (auto simp: closes_def)

text \<open>More bytes do not move the end of an event, and the end of an event that was not complete lies in them.\<close>

lemma event_end_more: "event_end b = Some n \<Longrightarrow> event_end (b @ x) = Some n"
proof -
  assume b: "event_end b = Some n"
  note l = event_end_least [OF b]
  show "event_end (b @ x) = Some n"
  proof (cases "event_end (b @ x)")
    case None
    then show ?thesis using event_end_none [OF None, of n] l(1,2) by simp
  next
    case (Some k)
    note k = event_end_least [OF Some]
    have "\<not> k < n" using l(1) l(3) [of k] k(2) by auto
    moreover have "\<not> n < k" using k(3) [of n] l(1,2) by auto
    ultimately show ?thesis using Some by simp
  qed
qed

lemma event_end_later: "event_end b = None \<Longrightarrow> event_end (b @ x) = Some n \<Longrightarrow> length b < n"
  using event_end_least(2) [of "b @ x" n] event_end_none [of b n] by (cases "n \<le> length b") auto

section \<open>Feeding it\<close>

text \<open>The \<open>while\<close> loop of \<open>feed\<close>: whether it is done, what is still held, what can be sent.\<close>

function feed_loop :: "(string \<Rightarrow> string option) \<Rightarrow> string \<Rightarrow> string \<Rightarrow> bool \<times> string \<times> string" where
  "feed_loop rename held out =
     (case event_end held of
        None \<Rightarrow> (MAX_HELD < length held, held, out)
      | Some n \<Rightarrow>
          (case rename (take n held) of
             Some event \<Rightarrow> (True, drop n held, out @ event)
           | None \<Rightarrow> feed_loop rename (drop n held) (out @ take n held)))"
  by pat_completeness auto
termination
proof (relation "measure (\<lambda>(rename, held, out). length held)")
  fix rename :: "string \<Rightarrow> string option" and held out n
  assume "event_end held = Some n"
  then have "0 < n" "n \<le> length held" using event_end_pos event_end_least(1) by blast+
  then show "((rename, drop n held, out @ take n held), rename, held, out) \<in> measure (\<lambda>(rename, held, out). length held)" by simp
qed simp

declare feed_loop.simps [simp del]

definition feed :: "(string \<Rightarrow> string option) \<Rightarrow> renamer \<Rightarrow> string \<Rightarrow> string \<times> renamer" where
  "feed rename r data =
     (if rn_done r then (data, r)
      else case feed_loop rename (rn_held r @ data) [] of
             (True, held, out) \<Rightarrow> (out @ held, \<lparr>rn_held = [], rn_done = True\<rparr>)
           | (False, held, out) \<Rightarrow> (out, \<lparr>rn_held = held, rn_done = False\<rparr>))"

definition flush :: "renamer \<Rightarrow> string \<times> renamer" where
  "flush r = (rn_held r, \<lparr>rn_held = [], rn_done = True\<rparr>)"

text \<open>All that is sent for a stream that arrives in these pieces.\<close>

fun sent :: "(string \<Rightarrow> string option) \<Rightarrow> renamer \<Rightarrow> string list \<Rightarrow> string" where
  "sent rename r [] = fst (flush r)"
| "sent rename r (c # cs) = (case feed rename r c of (out, r1) \<Rightarrow> out @ sent rename r1 cs)"

text \<open>The reference sees the whole stream: events before the renamed one stay, what follows it stays.\<close>

function renamed :: "(string \<Rightarrow> string option) \<Rightarrow> string \<Rightarrow> string" where
  "renamed rename s =
     (case event_end s of
        None \<Rightarrow> s
      | Some n \<Rightarrow> (case rename (take n s) of Some event \<Rightarrow> event @ drop n s | None \<Rightarrow> take n s @ renamed rename (drop n s)))"
  by pat_completeness auto
termination
proof (relation "measure (\<lambda>(rename, s). length s)")
  fix rename :: "string \<Rightarrow> string option" and s n
  assume "event_end s = Some n"
  then have "0 < n" "n \<le> length s" using event_end_pos event_end_least(1) by blast+
  then show "((rename, drop n s), rename, s) \<in> measure (\<lambda>(rename, s). length s)" by simp
qed simp

text \<open>Up to the one that is renamed, no event is longer than what is held back.\<close>

function opens_early :: "(string \<Rightarrow> string option) \<Rightarrow> string \<Rightarrow> bool" where
  "opens_early rename s =
     (case event_end s of
        None \<Rightarrow> True
      | Some n \<Rightarrow> n \<le> MAX_HELD \<and> (rename (take n s) \<noteq> None \<or> opens_early rename (drop n s)))"
  by pat_completeness auto
termination
proof (relation "measure (\<lambda>(rename, s). length s)")
  fix rename :: "string \<Rightarrow> string option" and s n
  assume "event_end s = Some n"
  then have "0 < n" "n \<le> length s" using event_end_pos event_end_least(1) by blast+
  then show "((rename, drop n s), rename, s) \<in> measure (\<lambda>(rename, s). length s)" by simp
qed simp

declare renamed.simps [simp del] opens_early.simps [simp del]

text \<open>The state after a part of the stream: the events sent so far were not to be renamed and the rest holds no
  complete one; or the renamed event has been sent; or the renamer gave up on an event that is too long.\<close>

definition undecided :: "(string \<Rightarrow> string option) \<Rightarrow> string \<Rightarrow> string \<Rightarrow> bool" where
  "undecided rename q held \<longleftrightarrow>
     (\<forall>x. renamed rename (q @ held @ x) = q @ renamed rename (held @ x)) \<and>
     (\<forall>x. opens_early rename (q @ held @ x) \<longrightarrow> opens_early rename (held @ x)) \<and> event_end held = None"

definition decided :: "(string \<Rightarrow> string option) \<Rightarrow> string \<Rightarrow> string \<Rightarrow> bool" where
  "decided rename s out \<longleftrightarrow>
     (\<forall>x. renamed rename (s @ x) = out @ x) \<or> (out = s \<and> (\<forall>x. opens_early rename (s @ x) \<longrightarrow> renamed rename (s @ x) = s @ x))"

lemma feed_loop_state:
  assumes "feed_loop rename held out = (done, held', out')"
    "\<forall>x. renamed rename (q @ held @ x) = q @ renamed rename (held @ x)" "\<forall>x. opens_early rename (q @ held @ x) \<longrightarrow> opens_early rename (held @ x)"
  shows "\<exists>p. out' = out @ p \<and> (if done then decided rename (q @ held) (q @ p @ held') else held = p @ held' \<and> undecided rename (q @ p) held')"
  using assms
proof (induction rename held out arbitrary: q rule: feed_loop.induct)
  case (1 rename held out)
  show ?case
  proof (cases "event_end held")
    case None
    then have r: "done = (MAX_HELD < length held)" "held' = held" "out' = out" using "1.prems"(1) by (auto simp: feed_loop.simps [of rename held])
    have "renamed rename (q @ held @ x) = q @ held @ x" if "MAX_HELD < length held" "opens_early rename (q @ held @ x)" for x
    proof (cases "event_end (held @ x)")
      case (Some n)
      then have "length held < n" using event_end_later None by blast
      then have "\<not> opens_early rename (held @ x)" using Some that(1) by (simp add: opens_early.simps)
      then show ?thesis using "1.prems"(3) that(2) by blast
    qed (use "1.prems"(2) in \<open>simp add: renamed.simps\<close>)
    then show ?thesis using r None "1.prems"(2,3) by (auto simp: decided_def undecided_def)
  next
    case (Some n)
    have n: "n \<le> length held" "event_end (held @ x) = Some n" for x using event_end_least(1) event_end_more Some by blast+
    show ?thesis
    proof (cases "rename (take n held)")
      case ev: (Some event)
      then have r: "done" "held' = drop n held" "out' = out @ event" using "1.prems"(1) Some by (auto simp: feed_loop.simps [of rename held])
      have "renamed rename (held @ x) = event @ drop n held @ x" for x using n ev by (simp add: renamed.simps)
      then show ?thesis using r "1.prems"(2) by (auto simp: decided_def)
    next
      case None
      let ?q = "q @ take n held"
      have loop: "feed_loop rename (drop n held) (out @ take n held) = (done, held', out')" using "1.prems"(1) Some None by (simp add: feed_loop.simps [of rename held])
      have rn: "renamed rename (held @ x) = take n held @ renamed rename (drop n held @ x)" for x using n None by (subst renamed.simps) simp
      have oe: "opens_early rename (held @ x) \<Longrightarrow> opens_early rename (drop n held @ x)" for x using n None by (subst (asm) opens_early.simps) simp
      have q: "?q @ drop n held @ x = q @ held @ x" for x by (simp flip: append_assoc [of "take n held"])
      have "\<exists>p. out' = (out @ take n held) @ p \<and>
          (if done then decided rename (?q @ drop n held) (?q @ p @ held') else drop n held = p @ held' \<and> undecided rename (?q @ p) held')"
      proof (rule "1.IH" [OF Some None loop])
        show "\<forall>x. renamed rename (?q @ drop n held @ x) = ?q @ renamed rename (drop n held @ x)" unfolding q using "1.prems"(2) rn by simp
        show "\<forall>x. opens_early rename (?q @ drop n held @ x) \<longrightarrow> opens_early rename (drop n held @ x)" unfolding q using "1.prems"(3) oe by blast
      qed
      then obtain p where p: "out' = out @ take n held @ p"
        "if done then decided rename (?q @ drop n held) (?q @ p @ held') else drop n held = p @ held' \<and> undecided rename (?q @ p) held'" by auto
      have "held = take n held @ p @ held'" if "drop n held = p @ held'" using append_take_drop_id [of n held] that by simp
      then show ?thesis using p by (intro exI [of _ "take n held @ p"]) (auto split: if_splits)
    qed
  qed
qed

lemma feed_state:
  assumes "\<not> rn_done r" "undecided rename q (rn_held r)" "feed rename r c = (out, r')"
  shows "if rn_done r' then rn_held r' = [] \<and> decided rename (q @ rn_held r @ c) (q @ out)
    else q @ rn_held r @ c = q @ out @ rn_held r' \<and> undecided rename (q @ out) (rn_held r')"
proof -
  obtain d held out' where l: "feed_loop rename (rn_held r @ c) [] = (d, held, out')" by (metis prod.collapse)
  have u: "\<forall>x. renamed rename (q @ (rn_held r @ c) @ x) = q @ renamed rename ((rn_held r @ c) @ x)"
    "\<forall>x. opens_early rename (q @ (rn_held r @ c) @ x) \<longrightarrow> opens_early rename ((rn_held r @ c) @ x)"
    using assms(2) by (simp_all add: undecided_def)
  from feed_loop_state [OF l u] assms(1,3) l show ?thesis by (auto simp: feed_def split: bool.splits if_splits)
qed

lemma sent_done: "rn_done r \<Longrightarrow> rn_held r = [] \<Longrightarrow> sent rename r cs = concat cs"
  by (induction cs) (simp_all add: flush_def feed_def)

lemma sent_state:
  assumes "\<not> rn_done r" "undecided rename q (rn_held r)"
  shows "(q @ sent rename r cs = renamed rename (q @ rn_held r @ concat cs) \<or> q @ sent rename r cs = q @ rn_held r @ concat cs) \<and>
    (opens_early rename (q @ rn_held r @ concat cs) \<longrightarrow> q @ sent rename r cs = renamed rename (q @ rn_held r @ concat cs))"
  using assms
proof (induction cs arbitrary: r q)
  case Nil
  then have "renamed rename (rn_held r) = rn_held r" by (simp add: undecided_def renamed.simps)
  moreover have "renamed rename (q @ rn_held r) = q @ renamed rename (rn_held r)" using Nil by (auto simp: undecided_def dest: spec [of _ "[]"])
  ultimately show ?case by (simp add: flush_def)
next
  case (Cons c cs)
  obtain out r' where f: "feed rename r c = (out, r')" by fastforce
  note st = feed_state [OF Cons.prems f]
  show ?case
  proof (cases "rn_done r'")
    case True
    then have d: "decided rename (q @ rn_held r @ c) (q @ out)" "sent rename r' cs = concat cs" using st sent_done by simp_all
    then show ?thesis using f by (auto simp: decided_def dest: spec [of _ "concat cs"])
  next
    case False
    then have u: "undecided rename (q @ out) (rn_held r')" "rn_held r @ c = out @ rn_held r'" using st by simp_all
    have e: "q @ rn_held r @ c @ concat cs = (q @ out) @ rn_held r' @ concat cs" using u(2) by (metis append_assoc)
    show ?thesis using Cons.IH [OF False u(1)] f unfolding concat.simps e by simp
  qed
qed

text \<open>C26. The name of the serving model is hidden in a stream however its bytes arrive. In whatever pieces an event
  stream comes in, what is sent on is either the stream itself or the stream with the opening event
  renamed and every other byte unchanged and in order: nothing is lost, doubled or held back at the end.
  It is the renamed stream whenever no event up to the opening one is longer than what is held back.\<close>

theorem renamer_exact:
  "(sent (rename_event loads dumps model) renamer_init cs = renamed (rename_event loads dumps model) (concat cs) \<or>
    sent (rename_event loads dumps model) renamer_init cs = concat cs) \<and>
   (opens_early (rename_event loads dumps model) (concat cs) \<longrightarrow>
    sent (rename_event loads dumps model) renamer_init cs = renamed (rename_event loads dumps model) (concat cs))"
proof -
  have "event_end [] = None" by code_simp
  then have "undecided (rename_event loads dumps model) [] (rn_held renamer_init)" by (simp add: undecided_def renamer_init_def)
  from sent_state [OF _ this, of cs] show ?thesis by (simp add: renamer_init_def)
qed

theorem renamer_exact_witness:
  "let rename = rename_event (\<lambda>_. Some (JObj [(''type'', JStr ''message_start''), (''message'', JObj [])])) (\<lambda>_. ''renamed'') ''auto'';
       cs = [''data: opening'' @ [LF], [LF] @ ''rest'']
   in sent rename renamer_init cs = renamed rename (concat cs) \<and> renamed rename (concat cs) = ''data: renamed'' @ [LF, LF] @ ''rest''"
proof -
  let ?loads = "\<lambda>_. Some (JObj [(''type'', JStr ''message_start''), (''message'', JObj [])])" and ?dumps = "\<lambda>_. ''renamed''"
  let ?cs = "[''data: opening'' @ [LF], [LF] @ ''rest'']"
  have e: "event_end (concat ?cs) = Some 15" "rename_event ?loads ?dumps ''auto'' (take 15 (concat ?cs)) = Some (''data: renamed'' @ [LF, LF])" by code_simp+
  then have "opens_early (rename_event ?loads ?dumps ''auto'') (concat ?cs)" by (simp add: opens_early.simps MAX_HELD_def del: concat.simps)
  moreover have "renamed (rename_event ?loads ?dumps ''auto'') (concat ?cs) = ''data: renamed'' @ [LF, LF] @ ''rest''"
    unfolding renamed.simps [of _ "concat ?cs"] e option.case by simp
  ultimately show ?thesis using renamer_exact [of ?loads ?dumps "''auto''" ?cs] by (simp add: Let_def)
qed

end
