(* ===== verification/Prefix_Cache.thy ===== *)
theory Prefix_Cache
  imports Session_Store Prompt_Identity "HOL-Library.Sublist"
begin

text \<open>
  \<open>routing/routewise/prefix_cache.py\<close> and \<open>prefix_cache_pending.py\<close>: what RouteWise expects a provider to have
  cached of a prompt. A prompt is cut into blocks of tokens that are kept as digests; a bounded memory
  holds the blocks of the last successful request per scope; the coordinator turns a match into a
  discount; and a pending store keeps the blocks of a request until its outcome is known. The digest
  \<open>mac\<close> under the process secret, the tokenizer, \<open>blake\<close> and \<open>json.dumps\<close> are arguments.

  The properties: the tokens that match are the whole blocks of the common prefix, the memory forgets
  only what is old or crowded out, and the pending store loses nothing without a reason.
\<close>

section \<open>Prompts\<close>

definition MAX_CANONICAL_CHARS :: nat where "MAX_CANONICAL_CHARS = 16000000"
definition MEDIA_PAYLOAD_MIN_CHARS :: nat where "MEDIA_PAYLOAD_MIN_CHARS = 256"

definition MEDIA_BLOCK_TYPES :: "string list" where
  "MEDIA_BLOCK_TYPES = [''image'', ''image_url'', ''input_image'', ''audio'', ''input_audio'', ''video'', ''video_url'', ''input_video'',
     ''file'', ''input_file'']"

definition media_identity :: "(string \<Rightarrow> string) \<Rightarrow> string \<Rightarrow> string" where
  "media_identity blake payload = [CHR 0x03] @ ''media:'' @ show_nat (length payload) @ '':'' @ blake payload"

definition media_field :: "(string \<Rightarrow> string) \<Rightarrow> json \<Rightarrow> json" where
  "media_field blake v =
     (case v of JStr s \<Rightarrow> if MEDIA_PAYLOAD_MIN_CHARS \<le> length s then JStr (media_identity blake s) else v | _ \<Rightarrow> v)"

definition is_media_block :: "json \<Rightarrow> bool" where
  "is_media_block b = (case b of JObj d \<Rightarrow> (case jget d ''type'' of JStr t \<Rightarrow> t \<in> set MEDIA_BLOCK_TYPES | _ \<Rightarrow> False) | _ \<Rightarrow> False)"

definition without_media_payload :: "(string \<Rightarrow> string) \<Rightarrow> json \<Rightarrow> json" where
  "without_media_payload blake b =
     (case b of
        JObj d \<Rightarrow> JObj (map (\<lambda>(k, v). (k, case v of JObj inner \<Rightarrow> JObj (map (\<lambda>(i, x). (i, media_field blake x)) inner) | _ \<Rightarrow> media_field blake v)) d)
      | _ \<Rightarrow> b)"

definition message_without_media :: "(string \<Rightarrow> string) \<Rightarrow> json \<Rightarrow> json" where
  "message_without_media blake m =
     (case m of
        JObj d \<Rightarrow>
          (case jget d ''content'' of
             JArr content \<Rightarrow>
               if list_ex is_media_block content
               then JObj (dict_set ''content'' (JArr (map (\<lambda>b. if is_media_block b then without_media_payload blake b else b) content)) d)
               else m
           | _ \<Rightarrow> m)
      | _ \<Rightarrow> m)"

text \<open>A block whose type is a list or an object is not hashable: asking whether it is a media type raises \<open>TypeError\<close>.\<close>

definition unhashable_type :: "json \<Rightarrow> bool" where
  "unhashable_type b = (case b of JObj d \<Rightarrow> (case jget d ''type'' of JArr _ \<Rightarrow> True | JObj _ \<Rightarrow> True | _ \<Rightarrow> False) | _ \<Rightarrow> False)"

definition message_raises :: "json \<Rightarrow> bool" where
  "message_raises m = (case m of JObj d \<Rightarrow> (case jget d ''content'' of JArr content \<Rightarrow> list_ex unhashable_type content | _ \<Rightarrow> False) | _ \<Rightarrow> False)"

definition canonicalize_prompt :: "(json \<Rightarrow> string) \<Rightarrow> (string \<Rightarrow> string) \<Rightarrow> json list \<Rightarrow> json \<Rightarrow> json \<Rightarrow> string option" where
  "canonicalize_prompt dumps blake messages tools response_format =
     (if list_ex message_raises messages then None else Some (dumps (JObj [(''messages'', JArr (map (message_without_media blake) messages)), (''tools'', tools), (''response_format'', response_format)])))"

section \<open>Blocks\<close>

record block =
  bl_digest :: string
  bl_token_count :: nat

text \<open>The bytes of a run of tokens: as 64-bit integers, or in decimal when some token of the request does not fit.\<close>

datatype run_bytes = Raw64 "int list" | Decimal "int list"

definition fits64 :: "int \<Rightarrow> bool" where
  "fits64 t \<longleftrightarrow> - (2 ^ 63) \<le> t \<and> t < 2 ^ 63"

function chunks :: "nat \<Rightarrow> 'a list \<Rightarrow> 'a list list" where
  "chunks n xs = (if n = 0 \<or> xs = [] then [] else take n xs # chunks n (drop n xs))"
  by pat_completeness auto
termination by (relation "measure (length \<circ> snd)") auto

declare chunks.simps [simp del]

definition block_payloads :: "int list \<Rightarrow> nat \<Rightarrow> (nat \<times> run_bytes) list" where
  "block_payloads ids n =
     (if list_all fits64 ids then map (\<lambda>c. (length c, Raw64 c)) (chunks n ids) else map (\<lambda>c. (length c, Decimal c)) (chunks n ids))"

definition token_blocks :: "(run_bytes \<Rightarrow> string) \<Rightarrow> nat \<Rightarrow> int list \<Rightarrow> block list" where
  "token_blocks mac n ids = map (\<lambda>(count, payload). \<lparr>bl_digest = mac payload, bl_token_count = count\<rparr>) (block_payloads ids n)"

text \<open>\<open>None\<close> is the \<open>ValueError\<close> of a block size that is not positive or the \<open>TypeError\<close> of the prompt.\<close>

definition build_blocks ::
  "(run_bytes \<Rightarrow> string) \<Rightarrow> (string \<Rightarrow> int list) \<Rightarrow> (json \<Rightarrow> string) \<Rightarrow> (string \<Rightarrow> string) \<Rightarrow> nat \<Rightarrow> json list \<Rightarrow> json \<Rightarrow> json \<Rightarrow> block list option" where
  "build_blocks mac tokenize dumps blake block_size messages tools response_format =
     (if block_size = 0 then None
      else map_option (\<lambda>text. token_blocks mac block_size (tokenize (take MAX_CANONICAL_CHARS text)))
             (canonicalize_prompt dumps blake messages tools response_format))"

fun longest_common_prefix_tokens :: "block list \<Rightarrow> block list \<Rightarrow> nat" where
  "longest_common_prefix_tokens (l # ls) (r # rs) =
     (if bl_digest l \<noteq> bl_digest r then 0 else bl_token_count l + longest_common_prefix_tokens ls rs)"
| "longest_common_prefix_tokens _ _ = 0"

section \<open>The memory of a scope\<close>

record cache_scope =
  cs_user_hash :: string
  cs_project_hash :: string
  cs_session_hash :: string
  cs_provider_id :: string
  cs_endpoint_id :: string
  cs_model_profile :: string
  cs_key_slot_id :: string
  cs_params_hash :: string

record cache_signal =
  sg_matched_prefix_tokens :: nat
  sg_meets_threshold :: bool
  sg_has_history :: bool
  sg_last_seen_at :: "time option"

definition empty_signal :: cache_signal where
  "empty_signal = \<lparr>sg_matched_prefix_tokens = 0, sg_meets_threshold = False, sg_has_history = False, sg_last_seen_at = None\<rparr>"

record prefix_memory =
  pm_ttl_sec :: time
  pm_max_entries :: nat
  pm_min_match_tokens :: nat
  pm_entries :: "(cache_scope, block list \<times> time) dict"

definition PrefixMemory_init :: "time \<Rightarrow> nat \<Rightarrow> nat \<Rightarrow> prefix_memory option" where
  "PrefixMemory_init ttl_sec max_entries min_match_tokens =
     (if max_entries = 0 then None
      else Some \<lparr>pm_ttl_sec = ttl_sec, pm_max_entries = max_entries, pm_min_match_tokens = min_match_tokens, pm_entries = []\<rparr>)"

definition memory_expired :: "time \<Rightarrow> time \<Rightarrow> time \<Rightarrow> bool" where
  "memory_expired ttl last_seen now \<longleftrightarrow> 0 < ttl \<and> ttl < now - last_seen"

definition memory_lookup :: "cache_scope \<Rightarrow> block list \<Rightarrow> time \<Rightarrow> prefix_memory \<Rightarrow> cache_signal \<times> prefix_memory" where
  "memory_lookup scope current now pm =
     (case dict_get (pm_entries pm) scope of
        None \<Rightarrow> (empty_signal, pm)
      | Some (blocks, seen) \<Rightarrow>
          if memory_expired (pm_ttl_sec pm) seen now then (empty_signal, pm\<lparr>pm_entries := dict_del scope (pm_entries pm)\<rparr>)
          else
            (let matched = longest_common_prefix_tokens current blocks
             in (\<lparr>sg_matched_prefix_tokens = matched, sg_meets_threshold = (pm_min_match_tokens pm \<le> matched), sg_has_history = True,
                  sg_last_seen_at = Some seen\<rparr>, pm\<lparr>pm_entries := move_to_end scope (pm_entries pm)\<rparr>)))"

definition memory_observe :: "cache_scope \<Rightarrow> block list \<Rightarrow> time \<Rightarrow> prefix_memory \<Rightarrow> prefix_memory" where
  "memory_observe scope blocks now pm =
     (let d = (case dict_get (pm_entries pm) scope of
                 Some (_, seen) \<Rightarrow> if memory_expired (pm_ttl_sec pm) seen now then dict_del scope (pm_entries pm) else pm_entries pm
               | None \<Rightarrow> pm_entries pm)
      in pm\<lparr>pm_entries := pop_oldest (pm_max_entries pm) (move_to_end scope (dict_set scope (blocks, now) d))\<rparr>)"

section \<open>The discount\<close>

definition price_delta_per_token :: "real \<Rightarrow> real option \<Rightarrow> real" where
  "price_delta_per_token prompt_price cached_price =
     (case cached_price of None \<Rightarrow> 0 | Some c \<Rightarrow> if c \<le> 0 \<or> prompt_price \<le> c then 0 else (prompt_price - c) / 1000000)"

record cost_record =
  pc_matched_prefix_tokens :: nat
  pc_expected_cached_tokens :: real
  pc_cache_discount :: real
  pc_would_apply :: bool
  pc_has_history :: bool
  pc_meets_threshold :: bool

definition evaluate_prefix :: "bool \<Rightarrow> cache_scope \<Rightarrow> block list \<Rightarrow> real \<Rightarrow> real \<Rightarrow> time \<Rightarrow> prefix_memory \<Rightarrow> cost_record \<times> prefix_memory" where
  "evaluate_prefix enabled scope blocks cold_cost price_delta now pm =
     (case memory_lookup scope blocks now pm of
        (signal, pm1) \<Rightarrow>
          (let expected = (if sg_has_history signal \<and> sg_meets_threshold signal then real (sg_matched_prefix_tokens signal) else 0);
               discount = (if enabled \<and> 0 < expected \<and> 0 < price_delta then min (expected * price_delta) (max cold_cost 0) else 0)
           in (\<lparr>pc_matched_prefix_tokens = sg_matched_prefix_tokens signal, pc_expected_cached_tokens = expected, pc_cache_discount = discount,
                pc_would_apply = (0 < discount), pc_has_history = sg_has_history signal, pc_meets_threshold = sg_meets_threshold signal\<rparr>, pm1)))"

definition hash_field :: "(string \<Rightarrow> string) \<Rightarrow> string \<Rightarrow> string" where
  "hash_field hmac v = (if v = [] then [] else hmac v)"

definition scope_for ::
  "(string \<Rightarrow> string) \<Rightarrow> string \<Rightarrow> string \<Rightarrow> string \<Rightarrow> string \<Rightarrow> string \<Rightarrow> string \<Rightarrow> string \<Rightarrow> string \<Rightarrow> cache_scope" where
  "scope_for hmac session provider_id endpoint_id model_profile user project key_slot cache_params =
     \<lparr>cs_user_hash = hash_field hmac user, cs_project_hash = hash_field hmac project, cs_session_hash = hash_field hmac session,
      cs_provider_id = provider_id, cs_endpoint_id = endpoint_id, cs_model_profile = model_profile, cs_key_slot_id = key_slot,
      cs_params_hash = hash_field hmac cache_params\<rparr>"

text \<open>A discount never exceeds the cost without a cache and is never negative; nothing is discounted while the
  feature is off, below the threshold, or where cached tokens are not cheaper.\<close>

lemma discount_bounds:
  assumes "evaluate_prefix enabled scope blocks cold delta now pm = (r, pm')"
  shows "0 \<le> pc_cache_discount r" "pc_cache_discount r \<le> max cold 0"
    "0 < pc_cache_discount r \<Longrightarrow> enabled \<and> 0 < delta \<and> pc_has_history r \<and> pm_min_match_tokens pm \<le> pc_matched_prefix_tokens r"
    "pc_would_apply r \<longleftrightarrow> 0 < pc_cache_discount r"
  using assms by (auto simp: evaluate_prefix_def memory_lookup_def empty_signal_def Let_def split: option.splits if_splits prod.splits)

lemma scopes_apart:
  assumes "inj hmac" "\<And>v. hmac v \<noteq> []" "scope_for hmac s p e m u pr k c = scope_for hmac s' p' e' m' u' pr' k' c'"
  shows "s = s' \<and> p = p' \<and> e = e' \<and> m = m' \<and> u = u' \<and> pr = pr' \<and> k = k' \<and> c = c'"
proof -
  have "hash_field hmac v = hash_field hmac w \<Longrightarrow> v = w" for v w
    using assms(1,2) by (auto simp: hash_field_def inj_def split: if_splits) (metis assms(2))
  then show ?thesis using assms(3) by (simp add: scope_for_def)
qed

section \<open>The memory holds the last observation\<close>

datatype memory_op = MLookup time cache_scope "block list" | MObserve time cache_scope "block list"

fun memory_step :: "prefix_memory \<Rightarrow> memory_op \<Rightarrow> prefix_memory" where
  "memory_step pm (MLookup now k b) = snd (memory_lookup k b now pm)"
| "memory_step pm (MObserve now k b) = memory_observe k b now pm"

fun last_observed :: "memory_op list \<Rightarrow> cache_scope \<Rightarrow> (block list \<times> time) option" where
  "last_observed [] k = None"
| "last_observed (MObserve now j b # ops) k = (if j = k then Some (b, now) else last_observed ops k)"
| "last_observed (MLookup now j b # ops) k = last_observed ops k"

definition memory_ok :: "memory_op list \<Rightarrow> prefix_memory \<Rightarrow> bool" where
  "memory_ok rops pm \<longleftrightarrow> dict_wf (pm_entries pm) \<and> length (pm_entries pm) \<le> pm_max_entries pm \<and> (\<forall>(k, v) \<in> set (pm_entries pm). last_observed rops k = Some v)"

lemma length_del_le: "length (dict_del k d) \<le> length d"
  by (simp add: AList.delete_eq)

lemma length_dict_del_present: "k \<in> fst ` set d \<Longrightarrow> length (dict_del k d) < length d"
proof (induction d)
  case (Cons x d)
  then show ?case using length_del_le [of k d] by (cases x) auto
qed simp

lemma moved: "dict_wf d \<Longrightarrow> dict_wf (move_to_end k d) \<and> length (move_to_end k d) \<le> length d \<and> set (move_to_end k d) \<subseteq> set d"
proof (cases "dict_get d k")
  case (Some v)
  assume d: "dict_wf d"
  have "k \<in> fst ` set d" using Some map_of_eq_None_iff [of d k] by auto
  then have "length (dict_del k d) < length d" by (rule length_dict_del_present)
  moreover have "dict_wf (dict_del k d @ [(k, v)])" using d by (auto simp: AList.delete_eq)
  ultimately show ?thesis using Some map_of_SomeD [OF Some] dict_del_entries [of k d] by (auto simp: move_to_end_def)
qed (simp add: move_to_end_def)

lemma memory_step_ok:
  assumes "memory_ok rops pm"
  shows "memory_ok (op # rops) (memory_step pm op)"
proof (cases op)
  case (MLookup now k b)
  have "dict_wf (pm_entries pm)" using assms by (simp add: memory_ok_def)
  then show ?thesis using assms moved [of "pm_entries pm" k] dict_del_entries [of k "pm_entries pm"] length_del_le [of k "pm_entries pm"]
    by (auto simp: MLookup memory_lookup_def memory_ok_def Let_def split: option.split prod.split)
next
  case (MObserve now k b)
  let ?d = "pm_entries pm"
  define d where "d = dict_del k ?d @ [(k, (b, now))]"
  have again: "dict_del k (dict_del k ?d) = dict_del k ?d" by (rule del_absent) (auto simp: AList.delete_eq)
  have obs: "memory_step pm op = pm\<lparr>pm_entries := pop_oldest (pm_max_entries pm) d\<rparr>"
    by (auto simp: MObserve memory_observe_def move_set again d_def split: option.split prod.split)
  have "dict_wf d" using assms by (auto simp: memory_ok_def d_def AList.delete_eq)
  moreover have "\<forall>(j, v) \<in> set d. last_observed (op # rops) j = Some v"
    using assms by (auto simp: memory_ok_def d_def MObserve AList.delete_eq)
  ultimately show ?thesis unfolding obs
    by (auto simp: memory_ok_def pop_oldest_drop drop_map [symmetric] distinct_drop dest!: in_set_dropD)
qed

text \<open>A hit compares with the last observation of exactly this scope, which is not older than the lifetime;
  and the memory never holds more scopes than its limit.\<close>

lemma memory_run_ok:
  assumes "PrefixMemory_init ttl cap least = Some pm"
  shows "memory_ok (rev ops) (foldl memory_step pm ops)"
  using assms
proof (induction ops rule: rev_induct)
  case Nil
  then show ?case by (auto simp: PrefixMemory_init_def memory_ok_def split: if_splits)
next
  case (snoc op ops)
  then show ?case using memory_step_ok by simp
qed

lemma hit_is_last_observation:
  assumes "PrefixMemory_init ttl cap least = Some pm" "sg_has_history (fst (memory_lookup k b now (foldl memory_step pm ops)))"
  shows "\<exists>b' t. last_observed (rev ops) k = Some (b', t) \<and> \<not> memory_expired (pm_ttl_sec (foldl memory_step pm ops)) t now \<and>
     sg_matched_prefix_tokens (fst (memory_lookup k b now (foldl memory_step pm ops))) = longest_common_prefix_tokens b b'"
proof (cases "dict_get (pm_entries (foldl memory_step pm ops)) k")
  case None
  then show ?thesis using assms(2) by (simp add: memory_lookup_def empty_signal_def)
next
  case (Some v)
  have "last_observed (rev ops) k = Some v" using memory_run_ok [OF assms(1), of ops] map_of_SomeD [OF Some] by (auto simp: memory_ok_def)
  then show ?thesis using assms(2) Some
    by (cases v) (auto simp: memory_lookup_def empty_signal_def Let_def simp del: map_of_eq_Some_iff split: if_splits)
qed

section \<open>What matches\<close>

lemma chunks_simps [simp]:
  "chunks n [] = []" "0 < n \<Longrightarrow> xs \<noteq> [] \<Longrightarrow> chunks n xs = take n xs # chunks n (drop n xs)"
  by (simp_all add: chunks.simps [of n "[]"] chunks.simps [of n xs])

fun common_blocks :: "'a list list \<Rightarrow> 'a list list \<Rightarrow> nat" where
  "common_blocks (l # ls) (r # rs) = (if l \<noteq> r then 0 else length l + common_blocks ls rs)"
| "common_blocks _ _ = 0"

lemma lcp_append: "longest_common_prefix (p @ xs) (p @ ys) = p @ longest_common_prefix xs ys"
  by (induction p) simp_all

lemma lcp_prefixes: "prefix (longest_common_prefix xs ys) xs" "prefix (longest_common_prefix xs ys) ys"
  by (simp_all add: longest_common_prefix_prefix1 longest_common_prefix_prefix2)

lemma common_chunks:
  assumes "0 < n"
  shows "common_blocks (chunks n xs) (chunks n ys) = (if xs = ys then length xs else n * (length (longest_common_prefix xs ys) div n))"
proof (induction "length xs" arbitrary: xs ys rule: less_induct)
  case less
  show ?case
  proof (cases "xs = [] \<or> ys = []")
    case True
    then show ?thesis by (cases xs; cases ys) auto
  next
    case False
    then have c: "chunks n xs = take n xs # chunks n (drop n xs)" "chunks n ys = take n ys # chunks n (drop n ys)" using assms by auto
    show ?thesis
    proof (cases "take n xs = take n ys")
      case True
      have ih: "common_blocks (chunks n (drop n xs)) (chunks n (drop n ys)) =
          (if drop n xs = drop n ys then length (drop n xs) else n * (length (longest_common_prefix (drop n xs) (drop n ys)) div n))"
        using less [of "drop n xs" "drop n ys"] False assms by simp
      have eq: "xs = ys \<longleftrightarrow> drop n xs = drop n ys" using True by (metis append_take_drop_id)
      have l: "longest_common_prefix xs ys = take n xs @ longest_common_prefix (drop n xs) (drop n ys)"
        using lcp_append [of "take n xs" "drop n xs" "drop n ys"] True by (metis append_take_drop_id)
      show ?thesis
      proof (cases "n \<le> length xs")
        case len: True
        then have "min (length ys) n = n" using arg_cong [OF True, of length] by simp
        moreover have "n + n * (k div n) = n * ((n + k) div n)" for k using assms by simp
        ultimately show ?thesis using c True ih eq l len by (cases "xs = ys") (simp_all add: min_absorb2)
      next
        case short: False
        then have x: "take n ys = xs" using True by simp
        have "min (length ys) n = length xs" using x by (metis length_take)
        then have "length ys < n" using short by (simp add: min_def split: if_splits)
        then have "ys = xs" using x by simp
        moreover have "drop n xs = []" using short by simp
        ultimately show ?thesis using c(1) x by simp
      qed
    next
      case diff: False
      have "length (longest_common_prefix xs ys) < n"
      proof (rule ccontr)
        assume "\<not> length (longest_common_prefix xs ys) < n"
        then have "take n xs = take n (longest_common_prefix xs ys)" "take n ys = take n (longest_common_prefix xs ys)"
          using lcp_prefixes [of xs ys] by (auto simp: prefix_def) (metis append_eq_conv_conj take_append take_eq_Nil diff_is_0_eq not_less append_Nil2)+
        then show False using diff by simp
      qed
      then show ?thesis using c diff by auto
    qed
  qed
qed

lemma token_blocks_raw: "list_all fits64 ids \<Longrightarrow> token_blocks mac n ids = map (\<lambda>c. \<lparr>bl_digest = mac (Raw64 c), bl_token_count = length c\<rparr>) (chunks n ids)"
  by (simp add: token_blocks_def block_payloads_def)

lemma matched_are_common:
  assumes "inj_on mac (Raw64 ` (set ls \<union> set rs))"
  shows "longest_common_prefix_tokens (map (\<lambda>c. \<lparr>bl_digest = mac (Raw64 c), bl_token_count = length c\<rparr>) ls)
           (map (\<lambda>c. \<lparr>bl_digest = mac (Raw64 c), bl_token_count = length c\<rparr>) rs) = common_blocks ls rs"
  using assms
proof (induction ls rs rule: common_blocks.induct)
  case (1 l ls r rs)
  have "mac (Raw64 l) = mac (Raw64 r) \<longleftrightarrow> l = r" using inj_on_eq_iff [OF 1(2), of "Raw64 l" "Raw64 r"] by simp
  moreover have "inj_on mac (Raw64 ` (set ls \<union> set rs))" using 1(2) by (rule inj_on_subset) auto
  ultimately show ?case using 1(1) by simp
qed simp_all

text \<open>C27. The blocks of two prompts match on exactly the whole blocks of their common prefix: where the
  digests of the two prompts' runs do not collide, \<open>longest_common_prefix_tokens\<close> of the blocks that
  \<open>build_blocks\<close> makes of two prompts is the length of the prompt when they are the same tokens, and otherwise
  the length of the longest common prefix of the tokens rounded down to a multiple of the block size; a
  block that is only half the same is never counted, and no common block is missed.\<close>

theorem prefix_match_exact:
  assumes "build_blocks mac tokenize dumps blake n ms tools form = Some bs" "build_blocks mac tokenize dumps blake n ms' tools' form' = Some bs'"
    and "xs = tokenize (take MAX_CANONICAL_CHARS (the (canonicalize_prompt dumps blake ms tools form)))"
    and "ys = tokenize (take MAX_CANONICAL_CHARS (the (canonicalize_prompt dumps blake ms' tools' form')))"
    and "list_all fits64 xs" "list_all fits64 ys" "inj_on mac (Raw64 ` (set (chunks n xs) \<union> set (chunks n ys)))"
  shows "longest_common_prefix_tokens bs bs' = (if xs = ys then length xs else n * (length (longest_common_prefix xs ys) div n))"
proof -
  have n: "0 < n" and "bs = token_blocks mac n xs" "bs' = token_blocks mac n ys"
    using assms(1-4) by (auto simp: build_blocks_def split: if_splits)
  then show ?thesis using assms(5-7) by (simp add: token_blocks_raw matched_are_common common_chunks)
qed

theorem prefix_match_exact_witness:
  "let mac = (\<lambda>r. case r of Raw64 c \<Rightarrow> map (\<lambda>t. char_of (nat t)) c | Decimal c \<Rightarrow> []);
       tokenize = map (\<lambda>c. int (of_char c));
       dumps = (\<lambda>j. case j of JObj ((k, JArr [JStr s]) # d) \<Rightarrow> s | _ \<Rightarrow> []);
       blocks = (\<lambda>s. the (build_blocks mac tokenize dumps id 2 [JStr s] JNull JNull))
   in longest_common_prefix_tokens (blocks ''abcdef'') (blocks ''abcxy'') = 2"
proof -
  let ?mac = "\<lambda>r. case r of Raw64 c \<Rightarrow> map (\<lambda>t. char_of (nat t)) c | Decimal c \<Rightarrow> []"
  let ?tokenize = "map (\<lambda>c. int (of_char c))"
  let ?dumps = "\<lambda>j. case j of JObj ((k, JArr [JStr s]) # d) \<Rightarrow> s | _ \<Rightarrow> []"
  let ?b = "\<lambda>s. build_blocks ?mac ?tokenize ?dumps id 2 [JStr s] JNull JNull"
  let ?x = "[97, 98, 99, 100, 101, 102] :: int list" and ?y = "[97, 98, 99, 120, 121] :: int list"
  have c: "canonicalize_prompt ?dumps id [JStr s] JNull JNull = Some s" for s
    by (simp add: canonicalize_prompt_def message_raises_def message_without_media_def)
  have s: "?b s = Some (the (?b s))" for s by (simp add: build_blocks_def c)
  have t: "?tokenize (take MAX_CANONICAL_CHARS ''abcdef'') = ?x" "?tokenize (take MAX_CANONICAL_CHARS ''abcxy'') = ?y"
    by (simp_all add: MAX_CANONICAL_CHARS_def)
  have ch: "chunks 2 ?x = [[97, 98], [99, 100], [101, 102]]" "chunks 2 ?y = [[97, 98], [99, 120], [121]]" by simp_all
  have inj: "inj_on ?mac (Raw64 ` (set [[97, 98], [99, 100], [101, 102]] \<union> set [[97, 98], [99, 120], [121]]))" by code_simp
  have "longest_common_prefix_tokens (the (?b ''abcdef'')) (the (?b ''abcxy'')) =
      (if ?x = ?y then length ?x else 2 * (length (longest_common_prefix ?x ?y) div 2))"
    by (rule prefix_match_exact [OF s s]) (simp_all only: c t option.sel ch inj, simp_all add: fits64_def)
  then show ?thesis by simp
qed

end
