(* ===== verification/Prefix_Pending.thy ===== *)
theory Prefix_Pending
  imports Prefix_Cache
begin

text \<open>
  \<open>PendingPrefixCacheStore\<close> of \<open>routing/routewise/prefix_cache_pending.py\<close>: the blocks of a request wait here
  until its winning observation arrives. The store is a dict kept in the order of the last activity, so that
  only its front has to be looked at for what expired. Every operation reads the clock once; the reading
  is an argument. An operation returns what it reports as evicted with what it answers.

  The property: with a clock that does not go back the front is always the entry that was quiet longest,
  every loss of an entry has the reason that is reported for it, and a sweep removes exactly what expired.
\<close>

section \<open>The store\<close>

definition PENDING_TTL_SECONDS :: time where "PENDING_TTL_SECONDS = 300"
definition PENDING_MAX_ENTRIES :: int where "PENDING_MAX_ENTRIES = 10000"

record pending_entry =
  pe_blocks :: "block list"
  pe_scopes :: "(string, cache_scope) dict"
  pe_created_at :: time
  pe_last_activity_at :: time

record pending_store =
  pp_ttl_seconds :: time
  pp_max_entries :: nat
  pp_entries :: "(string, pending_entry) dict"

datatype evict_reason = TtlExpired | SizeCap

text \<open>What \<open>_emit_eviction\<close> is called with: the request, its entry, the reason and how many entries were left.\<close>

record eviction =
  ev_request_id :: string
  ev_entry :: pending_entry
  ev_reason :: evict_reason
  ev_pending_count :: nat

definition PendingStore_init :: "time \<Rightarrow> int \<Rightarrow> pending_store" where
  "PendingStore_init ttl_seconds max_entries =
     \<lparr>pp_ttl_seconds = max 0 ttl_seconds, pp_max_entries = nat (max 1 max_entries), pp_entries = []\<rparr>"

definition pending_expired :: "time \<Rightarrow> time \<Rightarrow> pending_entry \<Rightarrow> bool" where
  "pending_expired ttl now e \<longleftrightarrow> ttl < now - pe_last_activity_at e"

text \<open>The first entry, dropped if it expired; and the loop that pops the first entries above the cap.\<close>

fun drop_stale_front :: "time \<Rightarrow> time \<Rightarrow> (string, pending_entry) dict \<Rightarrow> eviction list \<times> (string, pending_entry) dict" where
  "drop_stale_front ttl now [] = ([], [])"
| "drop_stale_front ttl now ((k, e) # d) =
     (if pending_expired ttl now e
      then ([\<lparr>ev_request_id = k, ev_entry = e, ev_reason = TtlExpired, ev_pending_count = length d\<rparr>], d)
      else ([], (k, e) # d))"

fun pop_above :: "nat \<Rightarrow> (string, pending_entry) dict \<Rightarrow> eviction list \<times> (string, pending_entry) dict" where
  "pop_above n [] = ([], [])"
| "pop_above n ((k, e) # d) =
     (if n < length ((k, e) # d)
      then (let (ev, d') = pop_above n d
            in (\<lparr>ev_request_id = k, ev_entry = e, ev_reason = SizeCap, ev_pending_count = length d\<rparr> # ev, d'))
      else ([], (k, e) # d))"

definition pending_put ::
  "time \<Rightarrow> string \<Rightarrow> block list \<Rightarrow> (string, cache_scope) dict \<Rightarrow> pending_store \<Rightarrow> eviction list \<times> pending_store" where
  "pending_put now request_id blocks scopes s =
     (if request_id = [] \<or> scopes = [] then ([], s)
      else
        (let (ev1, d1) = (if dict_get (pp_entries s) request_id = None \<and> pp_max_entries s \<le> length (pp_entries s)
                          then drop_stale_front (pp_ttl_seconds s) now (pp_entries s) else ([], pp_entries s));
             prior = dict_get d1 request_id;
             e = \<lparr>pe_blocks = blocks, pe_scopes = scopes,
                  pe_created_at = (case prior of None \<Rightarrow> now | Some p \<Rightarrow> pe_created_at p),
                  pe_last_activity_at = (case prior of None \<Rightarrow> now | Some p \<Rightarrow> pe_last_activity_at p)\<rparr>;
             (ev2, d2) = pop_above (pp_max_entries s) (dict_set request_id e d1)
         in (ev1 @ ev2, s\<lparr>pp_entries := d2\<rparr>)))"

definition pending_touch :: "time \<Rightarrow> string \<Rightarrow> pending_store \<Rightarrow> bool \<times> eviction list \<times> pending_store" where
  "pending_touch now request_id s =
     (if request_id = [] then (False, [], s)
      else case dict_get (pp_entries s) request_id of
             None \<Rightarrow> (False, [], s)
           | Some e \<Rightarrow>
               (let d = dict_del request_id (pp_entries s)
                in if pending_expired (pp_ttl_seconds s) now e
                   then (False, [\<lparr>ev_request_id = request_id, ev_entry = e, ev_reason = TtlExpired, ev_pending_count = length d\<rparr>],
                         s\<lparr>pp_entries := d\<rparr>)
                   else (True, [], s\<lparr>pp_entries := dict_set request_id (e\<lparr>pe_last_activity_at := now\<rparr>) d\<rparr>)))"

definition pending_pop :: "time \<Rightarrow> string \<Rightarrow> pending_store \<Rightarrow> pending_entry option \<times> eviction list \<times> pending_store" where
  "pending_pop now request_id s =
     (if request_id = [] then (None, [], s)
      else case dict_get (pp_entries s) request_id of
             None \<Rightarrow> (None, [], s)
           | Some e \<Rightarrow>
               (let d = dict_del request_id (pp_entries s)
                in if pending_expired (pp_ttl_seconds s) now e
                   then (None, [\<lparr>ev_request_id = request_id, ev_entry = e, ev_reason = TtlExpired, ev_pending_count = length d\<rparr>],
                         s\<lparr>pp_entries := d\<rparr>)
                   else (Some e, [], s\<lparr>pp_entries := d\<rparr>)))"

definition pending_discard :: "string \<Rightarrow> pending_store \<Rightarrow> bool \<times> pending_store" where
  "pending_discard request_id s =
     (if request_id = [] then (False, s)
      else (dict_get (pp_entries s) request_id \<noteq> None, s\<lparr>pp_entries := dict_del request_id (pp_entries s)\<rparr>))"

definition pending_clear :: "pending_store \<Rightarrow> pending_store" where
  "pending_clear s = s\<lparr>pp_entries := []\<rparr>"

fun sweep_front :: "time \<Rightarrow> time \<Rightarrow> (string, pending_entry) dict \<Rightarrow> eviction list \<times> (string, pending_entry) dict" where
  "sweep_front ttl now [] = ([], [])"
| "sweep_front ttl now ((k, e) # d) =
     (if \<not> pending_expired ttl now e then ([], (k, e) # d)
      else (let (ev, d') = sweep_front ttl now d
            in (\<lparr>ev_request_id = k, ev_entry = e, ev_reason = TtlExpired, ev_pending_count = length d\<rparr> # ev, d')))"

definition sweep_pending :: "time \<Rightarrow> pending_store \<Rightarrow> nat \<times> eviction list \<times> pending_store" where
  "sweep_pending now s =
     (let (ev, d) = sweep_front (pp_ttl_seconds s) now (pp_entries s) in (length ev, ev, s\<lparr>pp_entries := d\<rparr>))"

section \<open>Operations\<close>

datatype pending_op =
    PPut string "block list" "(string, cache_scope) dict"
  | PTouch string
  | PPop string
  | PDiscard string
  | PClear
  | PSweep

fun pending_step :: "pending_store \<Rightarrow> time \<times> pending_op \<Rightarrow> eviction list \<times> pending_store" where
  "pending_step s (now, PPut r b c) = pending_put now r b c s"
| "pending_step s (now, PTouch r) = snd (pending_touch now r s)"
| "pending_step s (now, PPop r) = snd (pending_pop now r s)"
| "pending_step s (now, PDiscard r) = ([], snd (pending_discard r s))"
| "pending_step s (now, PClear) = ([], pending_clear s)"
| "pending_step s (now, PSweep) = snd (sweep_pending now s)"

definition pending_run :: "pending_store \<Rightarrow> (time \<times> pending_op) list \<Rightarrow> pending_store" where
  "pending_run s ops = foldl (\<lambda>s x. snd (pending_step s x)) s ops"

text \<open>The requests an operation takes out on purpose.\<close>

fun consumes :: "pending_op \<Rightarrow> string \<Rightarrow> bool" where
  "consumes (PPop r) k \<longleftrightarrow> k = r"
| "consumes (PDiscard r) k \<longleftrightarrow> k = r"
| "consumes PClear k \<longleftrightarrow> True"
| "consumes _ k \<longleftrightarrow> False"

section \<open>The order of the entries\<close>

definition quiet_order :: "time \<Rightarrow> (string, pending_entry) dict \<Rightarrow> bool" where
  "quiet_order now d \<longleftrightarrow> sorted (map (pe_last_activity_at \<circ> snd) d) \<and> (\<forall>x \<in> set d. pe_last_activity_at (snd x) \<le> now)"

definition pending_ok :: "time \<Rightarrow> pending_store \<Rightarrow> bool" where
  "pending_ok now s \<longleftrightarrow>
     0 < pp_max_entries s \<and> 0 \<le> pp_ttl_seconds s \<and> dict_wf (pp_entries s) \<and> length (pp_entries s) \<le> pp_max_entries s \<and>
     quiet_order now (pp_entries s)"

lemma quiet_later: "quiet_order now d \<Longrightarrow> now \<le> later \<Longrightarrow> quiet_order later d"
  by (auto simp: quiet_order_def)

lemma quiet_del: "quiet_order now d \<Longrightarrow> quiet_order now (dict_del k d)"
  by (auto simp: quiet_order_def AList.delete_eq sorted_filter)

lemma quiet_tl: "quiet_order now (x # d) \<Longrightarrow> quiet_order now d"
  by (simp add: quiet_order_def)

lemma held_get: "x \<in> set d \<Longrightarrow> dict_get d (fst x) \<noteq> None"
  using map_of_eq_None_iff [of d "fst x"] by auto

lemma set_new: "dict_get d k = None \<Longrightarrow> dict_set k v d = d @ [(k, v)]"
  by (induction d) (auto split: if_splits)

lemma quiet_new: "quiet_order now d \<Longrightarrow> pe_last_activity_at e = now \<Longrightarrow> quiet_order now (d @ [(k, e)])"
  by (auto simp: quiet_order_def sorted_append)

lemma quiet_replaced:
  assumes "dict_get d k = Some p" "pe_last_activity_at e = pe_last_activity_at p" "dict_wf d"
  shows "map (pe_last_activity_at \<circ> snd) (dict_set k e d) = map (pe_last_activity_at \<circ> snd) d"
  using assms by (induction d) (auto split: if_splits)

lemma quiet_map: "quiet_order now d \<longleftrightarrow> sorted (map (pe_last_activity_at \<circ> snd) d) \<and> (\<forall>t \<in> set (map (pe_last_activity_at \<circ> snd) d). t \<le> now)"
  by (auto simp: quiet_order_def)

lemma pop_above_fits: "length d \<le> n \<Longrightarrow> pop_above n d = ([], d)"
  by (cases d) auto

lemma expired_front:
  assumes "quiet_order now ((k, e) # d)" "\<not> pending_expired ttl t e" "x \<in> set ((k, e) # d)"
  shows "\<not> pending_expired ttl t (snd x)"
  using assms by (force simp: quiet_order_def pending_expired_def)

lemma sweep_exact: "quiet_order t d \<Longrightarrow> snd (sweep_front ttl now d) = filter (\<lambda>x. \<not> pending_expired ttl now (snd x)) d"
proof (induction d)
  case (Cons x d)
  obtain k e where x: "x = (k, e)" by (cases x)
  show ?case
  proof (cases "pending_expired ttl now e")
    case True
    then show ?thesis using Cons quiet_tl by (auto simp: x split: prod.split)
  next
    case False
    then have "filter (\<lambda>x. \<not> pending_expired ttl now (snd x)) d = d"
      using expired_front [OF Cons.prems [unfolded x] False] by (simp add: filter_id_conv)
    then show ?thesis using False by (simp add: x)
  qed
qed simp

lemma sweep_reports:
  "map (\<lambda>v. (ev_request_id v, ev_entry v)) (fst (sweep_front ttl now d)) = takeWhile (\<lambda>x. pending_expired ttl now (snd x)) d"
  "v \<in> set (fst (sweep_front ttl now d)) \<Longrightarrow> ev_reason v = TtlExpired"
  "d = map (\<lambda>v. (ev_request_id v, ev_entry v)) (fst (sweep_front ttl now d)) @ snd (sweep_front ttl now d)"
  by (induction d) (auto split: prod.splits if_splits)

section \<open>What one operation does\<close>

text \<open>Every entry that is reported was held, is gone, and had expired or, for \<open>size_cap\<close>, was the one that was
  quiet longest in a full store where nothing had expired; no other entry is lost unless the operation takes it.\<close>

definition accounted :: "pending_store \<Rightarrow> time \<Rightarrow> pending_op \<Rightarrow> eviction list \<Rightarrow> pending_store \<Rightarrow> bool" where
  "accounted s now op ev s' \<longleftrightarrow>
     (\<forall>v \<in> set ev. dict_get (pp_entries s) (ev_request_id v) = Some (ev_entry v) \<and> dict_get (pp_entries s') (ev_request_id v) = None \<and>
        (case ev_reason v of
           TtlExpired \<Rightarrow> pending_expired (pp_ttl_seconds s) now (ev_entry v)
         | SizeCap \<Rightarrow> length (pp_entries s) = pp_max_entries s \<and>
             (\<forall>x \<in> set (pp_entries s). \<not> pending_expired (pp_ttl_seconds s) now (snd x) \<and> pe_last_activity_at (ev_entry v) \<le> pe_last_activity_at (snd x)))) \<and>
     (\<forall>x \<in> set (pp_entries s). dict_get (pp_entries s') (fst x) \<noteq> None \<or> consumes op (fst x) \<or> fst x \<in> ev_request_id ` set ev)"

lemma put_step:
  assumes ok: "pending_ok now s"
  shows "accounted s now (PPut r b c) (fst (pending_put now r b c s)) (snd (pending_put now r b c s))" (is ?acc)
    and "pending_ok now (snd (pending_put now r b c s))" (is ?ok)
proof -
  let ?d = "pp_entries s" and ?cap = "pp_max_entries s"
  have wf: "dict_wf ?d" "quiet_order now ?d" "length ?d \<le> ?cap" "0 < ?cap" using ok by (simp_all add: pending_ok_def)
  note held = held_get [of _ ?d]
  show "?acc" "?ok"
  proof (atomize(full), cases "r = [] \<or> c = []")
    case True
    then show "?acc \<and> ?ok" using ok held by (auto simp: pending_put_def accounted_def)
  next
    case rc: False
    let ?e = "\<lambda>p :: pending_entry option. \<lparr>pe_blocks = b, pe_scopes = c, pe_created_at = (case p of None \<Rightarrow> now | Some p \<Rightarrow> pe_created_at p),
                  pe_last_activity_at = (case p of None \<Rightarrow> now | Some p \<Rightarrow> pe_last_activity_at p)\<rparr>"
    show "?acc \<and> ?ok"
    proof (cases "dict_get ?d r")
      case (Some q)
      have len: "length (dict_set r e ?d) = length ?d" for e using Some by (simp add: length_dict_set)
      have put: "pending_put now r b c s = ([], s\<lparr>pp_entries := dict_set r (?e (Some q)) ?d\<rparr>)"
        using rc Some wf(3) len by (simp add: pending_put_def pop_above_fits)
      have "quiet_order now (dict_set r (?e (Some q)) ?d)"
        using wf(2) quiet_replaced [OF Some _ wf(1), of "?e (Some q)"] by (simp only: quiet_map) simp
      then show ?thesis unfolding put using ok wf len held by (auto simp: accounted_def pending_ok_def)
    next
      case None
      have r: "r \<notin> fst ` set ?d" using None by (simp add: map_of_eq_None_iff)
      show ?thesis
      proof (cases "length ?d < ?cap")
        case True
        then have put: "pending_put now r b c s = ([], s\<lparr>pp_entries := ?d @ [(r, ?e None)]\<rparr>)"
          using rc None by (simp add: pending_put_def set_new pop_above_fits)
        have "dict_get (?d @ [(r, ?e None)]) (fst x) \<noteq> None" if "x \<in> set ?d" for x
          by (rule held_get) (use that in simp)
        moreover have "quiet_order now (?d @ [(r, ?e None)])" using quiet_new [OF wf(2), of "?e None" r] by simp
        ultimately show ?thesis using ok wf True r
          by (simp add: put accounted_def pending_ok_def del: map_of_append)
      next
        case False
        then obtain k f d' where d: "?d = (k, f) # d'" "length ?d = ?cap" using wf(3,4) by (cases ?d) auto
        have k: "k \<noteq> r" "k \<notin> fst ` set d'" "dict_get d' r = None" using r wf(1) d(1) None by (auto split: if_splits)
        have put: "pending_put now r b c s =
            ([\<lparr>ev_request_id = k, ev_entry = f, ev_reason = (if pending_expired (pp_ttl_seconds s) now f then TtlExpired else SizeCap),
               ev_pending_count = (if pending_expired (pp_ttl_seconds s) now f then length d' else Suc (length d'))\<rparr>],
             s\<lparr>pp_entries := d' @ [(r, ?e None)]\<rparr>)"
          using rc None d k by (simp add: pending_put_def set_new pop_above_fits)
        have "quiet_order now (d' @ [(r, ?e None)])" using quiet_new [OF quiet_tl] wf(2) d(1) by simp
        moreover have "dict_wf (d' @ [(r, ?e None)])" "dict_get (d' @ [(r, ?e None)]) k = None"
          using wf(1) d(1) r k by (auto simp: map_of_eq_None_iff)
        moreover have "dict_get (d' @ [(r, ?e None)]) (fst x) \<noteq> None" if "x \<in> set d'" for x
          by (rule held_get) (use that in simp)
        moreover have "pe_last_activity_at f \<le> pe_last_activity_at (snd x)" if "x \<in> set ?d" for x
          using wf(2) that d(1) by (auto simp: quiet_order_def)
        ultimately show ?thesis unfolding put using ok d expired_front [of now k f d' "pp_ttl_seconds s" now] wf(2)
          by (auto simp: accounted_def pending_ok_def simp del: map_of_append)
      qed
    qed
  qed
qed

lemma taken_step:
  assumes "pending_ok now s" "dict_get (pp_entries s) r = Some e"
  shows "pending_ok now (s\<lparr>pp_entries := dict_del r (pp_entries s)\<rparr>)"
    and "pending_ok now (s\<lparr>pp_entries := dict_set r (e\<lparr>pe_last_activity_at := now\<rparr>) (dict_del r (pp_entries s))\<rparr>)"
proof -
  let ?d = "pp_entries s"
  have wf: "dict_wf ?d" "quiet_order now ?d" using assms(1) by (simp_all add: pending_ok_def)
  have "r \<in> fst ` set ?d" using assms(2) map_of_eq_None_iff [of ?d r] by auto
  then have len: "length (dict_del r ?d) < length ?d" by (rule length_dict_del_present)
  have "dict_get (dict_del r ?d) r = None" by simp
  note new = set_new [OF this, of "e\<lparr>pe_last_activity_at := now\<rparr>"]
  show "pending_ok now (s\<lparr>pp_entries := dict_del r ?d\<rparr>)" using assms(1) len quiet_del [OF wf(2)] by (simp add: pending_ok_def)
  show "pending_ok now (s\<lparr>pp_entries := dict_set r (e\<lparr>pe_last_activity_at := now\<rparr>) (dict_del r ?d)\<rparr>)"
  proof -
    have "quiet_order now (dict_set r (e\<lparr>pe_last_activity_at := now\<rparr>) (dict_del r ?d))" unfolding new by (rule quiet_new [OF quiet_del [OF wf(2)]]) simp
    moreover have "length (dict_set r (e\<lparr>pe_last_activity_at := now\<rparr>) (dict_del r ?d)) \<le> length ?d" unfolding new using len by simp
    ultimately show ?thesis using assms(1) by (simp add: pending_ok_def)
  qed
qed

lemma sweep_step:
  assumes ok: "pending_ok now s"
  shows "accounted s now PSweep (fst (snd (sweep_pending now s))) (snd (snd (sweep_pending now s)))"
    and "pending_ok now (snd (snd (sweep_pending now s)))"
    and "pp_entries (snd (snd (sweep_pending now s))) = filter (\<lambda>x. \<not> pending_expired (pp_ttl_seconds s) now (snd x)) (pp_entries s)"
proof -
  let ?d = "pp_entries s" and ?ttl = "pp_ttl_seconds s"
  let ?live = "filter (\<lambda>x. \<not> pending_expired ?ttl now (snd x)) ?d"
  have wf: "dict_wf ?d" "quiet_order now ?d" using ok by (simp_all add: pending_ok_def)
  obtain ev where sw: "sweep_front ?ttl now ?d = (ev, ?live)" using sweep_exact [OF wf(2)] by (metis prod.collapse)
  then have st: "sweep_pending now s = (length ev, ev, s\<lparr>pp_entries := ?live\<rparr>)" by (simp add: sweep_pending_def)
  note rep = sweep_reports(1) [of ?ttl now ?d, unfolded sw fst_conv] sweep_reports(2) [of _ ?ttl now ?d, unfolded sw fst_conv]
    sweep_reports(3) [of ?d ?ttl now, unfolded sw fst_conv snd_conv]
  have gone: "(ev_request_id v, ev_entry v) \<in> set ?d \<and> pending_expired ?ttl now (ev_entry v) \<and> ev_reason v = TtlExpired" if "v \<in> set ev" for v
  proof -
    have "(ev_request_id v, ev_entry v) \<in> set (takeWhile (\<lambda>x. pending_expired ?ttl now (snd x)) ?d)" using that unfolding rep(1) [symmetric] by auto
    then show ?thesis using rep(2) [OF that] by (auto dest: set_takeWhileD)
  qed
  have "dict_get ?d (ev_request_id v) = Some (ev_entry v) \<and> dict_get ?live (ev_request_id v) = None" if "v \<in> set ev" for v
  proof -
    have "dict_get ?d (ev_request_id v) = Some (ev_entry v)" using gone [OF that] map_of_is_SomeI [OF wf(1)] by blast
    then show ?thesis using gone [OF that] by (simp add: dict_get_filter [OF wf(1)] del: map_of_eq_Some_iff)
  qed
  moreover have "dict_get ?live (fst x) \<noteq> None \<or> fst x \<in> ev_request_id ` set ev" if x: "x \<in> set ?d" for x
  proof (cases "x \<in> set ?live")
    case False
    then have "x \<in> set (map (\<lambda>v. (ev_request_id v, ev_entry v)) ev)" using x arg_cong [OF rep(3), of set] unfolding set_append by blast
    then show ?thesis by auto
  qed (simp only: held_get, simp)
  ultimately show "accounted s now PSweep (fst (snd (sweep_pending now s))) (snd (snd (sweep_pending now s)))"
    using gone unfolding st by (auto simp: accounted_def)
  show "pending_ok now (snd (snd (sweep_pending now s)))"
    using ok dict_wf_filter [OF wf(1)] unfolding st
    by (auto simp: pending_ok_def quiet_order_def sorted_filter intro: order_trans [OF length_filter_le])
  show "pp_entries (snd (snd (sweep_pending now s))) = ?live" unfolding st by simp
qed

lemma pending_step_ok:
  assumes "pending_ok t s" "t \<le> now"
  shows "accounted s now op (fst (pending_step s (now, op))) (snd (pending_step s (now, op))) \<and> pending_ok now (snd (pending_step s (now, op)))"
proof -
  have ok: "pending_ok now s" using assms quiet_later by (auto simp: pending_ok_def)
  note held = held_get [of _ "pp_entries s"]
  have del: "pending_ok now (s\<lparr>pp_entries := dict_del r (pp_entries s)\<rparr>)" for r
    using taken_step(1) [OF ok, of r] ok by (cases "dict_get (pp_entries s) r") (simp_all add: del_absent map_of_eq_None_iff)
  show ?thesis
  proof (cases op)
    case (PPut r b c)
    then show ?thesis using put_step [OF ok] by simp
  next
    case (PTouch r)
    then show ?thesis using ok held taken_step [OF ok, of r]
      by (auto simp: pending_touch_def accounted_def Let_def split: option.split)
  next
    case (PPop r)
    then show ?thesis using ok held taken_step [OF ok, of r]
      by (auto simp: pending_pop_def accounted_def Let_def split: option.split)
  next
    case (PDiscard r)
    then show ?thesis using ok held del [of r] by (auto simp: pending_discard_def accounted_def)
  next
    case PClear
    then show ?thesis using ok by (simp add: pending_clear_def accounted_def pending_ok_def quiet_order_def)
  next
    case PSweep
    then show ?thesis using sweep_step [OF ok] by simp
  qed
qed

lemma pending_run_ok: "sorted (map fst ops) \<Longrightarrow> pending_ok t s \<Longrightarrow> \<forall>x \<in> set ops. t \<le> fst x \<and> fst x \<le> now \<Longrightarrow> t \<le> now \<Longrightarrow> pending_ok now (pending_run s ops)"
proof (induction ops arbitrary: s t)
  case Nil
  then show ?case using quiet_later by (auto simp: pending_run_def pending_ok_def)
next
  case (Cons x ops)
  have "pending_ok (fst x) (snd (pending_step s x))" using pending_step_ok [of t s "fst x" "snd x"] Cons.prems by simp
  then show ?case using Cons.IH [of "fst x" "snd (pending_step s x)"] Cons.prems by (simp add: pending_run_def)
qed

lemma pending_step_limits: "pp_max_entries (snd (pending_step s x)) = pp_max_entries s" "pp_ttl_seconds (snd (pending_step s x)) = pp_ttl_seconds s"
  by (cases "(s, x)" rule: pending_step.cases;
      auto simp: pending_put_def pending_touch_def pending_pop_def pending_discard_def pending_clear_def sweep_pending_def Let_def split: option.split prod.split)+

lemma run_keeps_limits: "pp_max_entries (pending_run s ops) = pp_max_entries s" "pp_ttl_seconds (pending_run s ops) = pp_ttl_seconds s"
  by (induction ops arbitrary: s) (simp_all add: pending_run_def pending_step_limits)

text \<open>C28. The pending store loses nothing without the reason it reports. After any operations on a new store
  with a clock that does not go back, the next operation keeps the store within its cap and accounts for
  every entry: what is reported as \<open>ttl\<close> was held and had been quiet for longer than the lease, what is
  reported as \<open>size_cap\<close> was the entry quiet longest in a full store in which nothing had expired, and any
  other entry stays unless this operation pops, discards or clears it; and a sweep, though it stops at the
  first entry that has not expired, leaves exactly the entries that have not.\<close>

theorem pending_accounting:
  assumes "sorted (map fst ops)" "\<forall>x \<in> set ops. fst x \<le> now" and s_def: "s = pending_run (PendingStore_init ttl cap) ops"
  shows "length (pp_entries (snd (pending_step s (now, op)))) \<le> nat (max 1 cap) \<and>
    accounted s now op (fst (pending_step s (now, op))) (snd (pending_step s (now, op))) \<and>
    pp_entries (snd (pending_step s (now, PSweep))) = filter (\<lambda>x. \<not> pending_expired (max 0 ttl) now (snd x)) (pp_entries s)"
proof -
  let ?t = "case ops of [] \<Rightarrow> now | x # _ \<Rightarrow> fst x"
  have "pending_ok ?t (PendingStore_init ttl cap)" by (simp add: PendingStore_init_def pending_ok_def quiet_order_def)
  moreover have "\<forall>x \<in> set ops. ?t \<le> fst x" "?t \<le> now" using assms(1,2) by (cases ops; force)+
  ultimately have ok: "pending_ok now s" using pending_run_ok [OF assms(1)] assms(2) unfolding s_def by blast
  have lim: "pp_max_entries s = nat (max 1 cap)" "pp_ttl_seconds s = max 0 ttl"
    unfolding s_def run_keeps_limits by (simp_all add: PendingStore_init_def)
  note stp = pending_step_ok [OF ok order_refl, of op]
  show ?thesis
    using stp pending_step_limits(1) [of s "(now, op)"] lim sweep_step(3) [OF ok] by (simp add: pending_ok_def)
qed

theorem pending_accounting_witness:
  "let sc = [(''e'', \<lparr>cs_user_hash = [], cs_project_hash = [], cs_session_hash = ''s'', cs_provider_id = ''p'', cs_endpoint_id = ''e'',
                cs_model_profile = ''m'', cs_key_slot_id = [], cs_params_hash = []\<rparr>)];
       ops = [(0, PPut ''a'' [] sc), (1, PPut ''b'' [] sc), (2, PTouch ''a'')];
       s = pending_run (PendingStore_init 10 2) ops
   in accounted s 5 (PPut ''c'' [] sc) (fst (pending_step s (5, PPut ''c'' [] sc))) (snd (pending_step s (5, PPut ''c'' [] sc))) \<and>
      map ev_request_id (fst (pending_step s (5, PPut ''c'' [] sc))) = [''b'']"
proof -
  let ?sc = "[(''e'', \<lparr>cs_user_hash = [], cs_project_hash = [], cs_session_hash = ''s'', cs_provider_id = ''p'', cs_endpoint_id = ''e'',
                cs_model_profile = ''m'', cs_key_slot_id = [], cs_params_hash = []\<rparr>)]"
  let ?ops = "[(0, PPut ''a'' [] ?sc), (1, PPut ''b'' [] ?sc), (2, PTouch ''a'')]"
  let ?s = "pending_run (PendingStore_init 10 2) ?ops"
  have "accounted ?s 5 (PPut ''c'' [] ?sc) (fst (pending_step ?s (5, PPut ''c'' [] ?sc))) (snd (pending_step ?s (5, PPut ''c'' [] ?sc)))"
    using pending_accounting [of ?ops 5 ?s 10 2 "PPut ''c'' [] ?sc"] by simp
  moreover have "map ev_request_id (fst (pending_step ?s (5, PPut ''c'' [] ?sc))) = [''b'']" by code_simp
  ultimately show ?thesis by simp
qed

end
