(* ===== verification/Spec2Isabelle.thy ===== *)
theory Spec2Isabelle
  imports Key_Rotation Upstream_Limiter Request_Admission Endpoint_Health Prefill_Load
    Latency_Profile Cost_Envelope Route_Costs Provider_Quota Hybrid_Router Login_Limits Auth_Blocklist
    Auto_Surface Prefix_Pending
begin

text \<open>
  A verification library for hybridInference, the gateway that serves one API for many
  language-model providers and local inference engines. A request passes an admission (who
  the caller is, how many requests it may have open, what it may still spend), is routed to an
  endpoint (by weight and load, or by price and latency), waits for an outbound slot of that
  endpoint, and is sent with one of the keys of its provider; failures rotate keys, feed the
  health of the endpoint and may open its circuit. The library models the components on that
  path that keep state or take decisions, each from its source under \<open>src/apps/backend\<close>.

  \<^bold>\<open>Conventions\<close>. Each method of a class is one function of the state (a record) and its arguments,
  with the clock reading, random numbers and answers of services as further arguments. A method
  under a lock, and a stretch of an \<open>async\<close> function between two \<open>await\<close>s, is one step; a task
  is a sequence of such steps, and the theorems quantify over all interleavings of steps.
  Exceptions are values of a sum or option type. A \<open>dict\<close> is an association list in insertion
  order. \<open>float\<close> is \<open>real\<close>, so rounding is not modelled; integers are unbounded as in Python.
  Text is ASCII. Functions of libraries are arguments: the digests (\<open>sha\<close>, \<open>blake\<close>),
  \<open>json.dumps\<close>, \<open>str\<close> of values that are not strings, \<open>datetime.fromisoformat\<close>, the local
  midnight, and the solver and price curve of the \<open>llm_routewise\<close> package. Log lines and the
  wording of messages are left out. Every definition is total: loops are recursion over
  lists or have a termination measure, and no fuel is used.

  \<^bold>\<open>The theories\<close>.
  \<^item> \<open>Prelude\<close>: dicts, Python string functions, runs and reachable states, and the contracts
    the components interpret: \<open>kept_invariant\<close> (steps that keep an invariant),
    \<open>kept_by_relation\<close> (the same for a step relation) and \<open>simulation\<close> (refinement).
  \<^item> \<open>Roles\<close> (\<open>serving/config/settings.py\<close>): the order of the user roles.
  \<^item> \<open>Key_Pool\<close> (\<open>serving/adapters/key_pool.py\<close>): the keys of one provider with tiers,
    affinity, mutes and the back-off of a sole key. The properties say who gets which key and
    when nobody does, what a release decides, that mutes expire, and that a pool stays well
    formed.
  \<^item> \<open>Key_Rotation\<close> (\<open>serving/adapters/openai_compat.py\<close>): the loops that send a request with
    one key after another, streaming and not, and the keys attached at run time. Attempts of
    the upstream are inputs. The properties: every pass uses a new entitled key, rotation is
    exhaustive, a stream is never sent twice after it may have started, pre-flight errors agree
    with those of the pool.
  \<^item> \<open>Admission_Line\<close> and \<open>Upstream_Limiter\<close> (\<open>serving/adapters/upstream_limiter.py\<close>):
    an abstract waiting line, and the adaptive outbound buckets and engine holds that refine
    it. Tasks wait on futures, which are explicit state. The properties: exact accounting of
    slots under every interleaving, first come first served, the additive-increase rule in
    closed form, one release per slot.
  \<^item> \<open>Quota\<close> (\<open>serving/quota.py\<close>) and \<open>Spend_Ledger\<close> (\<open>serving/spend_ledger.py\<close>): the budgets
    and their refusals on the civil calendar, and the ledger that reserves, records and writes
    costs behind the request, with retries and writes whose outcome is unknown. The properties:
    the books balance, an admission fits every budget, a write moves cost without losing it,
    nothing is stranded.
  \<^item> \<open>Interactive_Load\<close> (\<open>serving/batch/interactive_load.py\<close>), \<open>User_Concurrency\<close> and
    \<open>Request_Admission\<close> (\<open>serving/servers/concurrency.py\<close>): per-user slots and the whole
    admission of a request over slots, load and ledger, cut at its awaits. The property:
    whatever order requests arrive, are refused, retargeted and end in, all three resources are
    held exactly by the live requests.
  \<^item> \<open>Py_Regex\<close>, \<open>Usage_Limit\<close> (\<open>routing/usage_limit.py\<close>): a backtracking matcher with the
    priorities of Python's \<open>re\<close>, and the detection of plan limits in error texts, with the
    deadline until which alerts stay quiet.
  \<^item> \<open>Circuit_Breaker\<close> and \<open>Endpoint_Health\<close> (\<open>routing/endpoint_health.py\<close>): classification
    of failures, the breaker with its single half-open probe and its paging policy, and the
    registry. The properties: one probe at a time, recovery, closed forms over the charged
    outcomes, and that the registry refines one independent endpoint per identifier.
  \<^item> \<open>Prompt_Identity\<close> and \<open>Prefill_Load\<close> (\<open>routing/prefill_load.py\<close>): size and identity of a
    prompt, and the tracker of prefill load with warm-prefix hints and the choice of an
    endpoint by two weighted draws.
  \<^item> \<open>Fallback_Order\<close> (\<open>routing/offload.py\<close>): the offload policy and the order in which a
    request walks its remaining routes. The property: every walk ends, and what it hands out.
  \<^item> \<open>Route_Errors\<close>, \<open>Route_Selection\<close> and \<open>Fixed_Router\<close> (\<open>routing/routers.py\<close>): what a failed
    attempt says and which error a caller is told; the route table with overrides, kill switches
    and affinity, and the selection that claims an endpoint over the breaker, the tracker and the
    offload policy; and the whole of \<open>FixedRouter\<close>, where requests, whole or streamed, run
    interleaved and fall back. The properties: where a request may be sent and when it is placed,
    what becomes of a failed attempt, that fallback ends, and that no prefill charge and no probe
    outlives the requests.
  \<^item> \<open>Hybrid_Plan\<close> (\<open>routing/policies.py\<close>, \<open>decisions.py\<close>, \<open>dispatch.py\<close>, \<open>backends.py\<close>,
    \<open>route_scope.py\<close>, \<open>serving/servers/hybrid_composition.py\<close>): the policy that assigns a request to
    the local or the cloud domain, the two backends over the shared router with their ranges, the
    binding instructions, the plan of attempts and the composition that splits the routes of a
    model. The properties: an attempt never leaves the range of its backend or the grant of the
    caller, and the two domains stay disjoint however routes are edited.
  \<^item> \<open>Hybrid_Router\<close> (\<open>routing/hybrid.py\<close>, \<open>hybrid_attempt_history.py\<close>, \<open>hybrid_stream_frames.py\<close>):
    the request loops of \<open>HybridRouter\<close>, whole and streamed, cut at their awaits into the
    segments of \<open>Fixed_Router\<close>, with the frames forwarded to the client, the history of attempts,
    the feedback records and the lifecycle. A log of dispatches and forwarded frames is kept beside
    the state so that the properties can speak of the past: no endpoint is asked twice, the client
    sees the answer of one endpoint, nothing of the shared router leaks, and feedback goes to the
    backend that ran the endpoint. The runs are those of \<open>plain_step\<close>: metadata that an
    adapter adds to its answer names no endpoint but its own, and its errors carry none, as with
    all adapters of the repository (OpenRouter names its own, the last chunk of a stream none).
  \<^item> \<open>Latency_Profile\<close>, \<open>Cost_Envelope\<close>, \<open>Route_Costs\<close>, \<open>Provider_Quota\<close>
    (\<open>routing/routewise\<close>): the latency window, the range of request costs, the output
    predictor, the wrapper of the selection LP, the concurrency gate and provider-reported
    quotas.
  \<^item> \<open>Prefix_Cache\<close> and \<open>Prefix_Pending\<close> (\<open>routing/routewise/prefix_cache.py\<close>, \<open>prefix_cache_pending.py\<close>):
    what a provider is expected to have cached of a prompt. The properties: two prompts match on
    exactly the whole blocks of their common prefix, and the store of pending snapshots loses
    nothing without the reason it reports; lemmas bound the discount, separate the scopes and say
    that a hit is the last observation of its scope.
  \<^item> \<open>Session_Store\<close> and \<open>Model_Selection\<close> (\<open>routing/model_selection\<close>), \<open>Model_Access\<close>
    (\<open>serving/model_access.py\<close>), \<open>Auto_Mode\<close> and \<open>Auto_Surface\<close> (\<open>serving/auto_mode.py\<close>): the virtual
    models that stand for a tier. A tier drops the candidates that cannot serve a request, ranks the
    rest and keeps a session on its model; a caller is offered only models it has access to; the
    request is rewritten for the model that was chosen and the answer is renamed. The properties:
    the choice in closed form, access of the caller to what it is given, sessions that are forgotten
    only by the timeout and the capacity (\<open>follows_history\<close> again), and a renamed stream that is exact
    however it is cut.
  \<^item> \<open>Sliding_Window\<close>, \<open>Login_Limits\<close>, \<open>Auth_Blocklist\<close> (\<open>serving/utils\<close>): the windows of attempts
    behind the limiters of sign-ins, sign-ups, mails and failed authentications, and the contract
    \<open>follows_history\<close> that an implementation which forgets answers like one which does not. The
    properties: exact counting, recognised browsers that nobody locks out, bounds in every
    window, and blocks only for cause.

  \<^bold>\<open>Not modelled\<close>. The RouteWise router with hedging, whose cost, latency and prefix-cache layers are
  above, and with it \<open>RouteWiseCloudBackend\<close> and \<open>RouteScopeView\<close>; the reloading of routing tables
  and the loading of the auto tiers from files. The translation between vendor
  message formats, HTTP handlers and middleware, SQL storage and migrations, the batch API,
  alert delivery, configuration and price tables are glue around services and formats outside
  the repository, and are left out, as are the user interface, deployment files and benchmarks.

  \<^bold>\<open>Findings\<close>. Where the models disagree with comments or documentation a lemma of the theory says so:
  a probe at the ceiling of a bucket (\<open>Upstream_Limiter\<close>), the budget of a user without limit on
  exempt models (\<open>User_Concurrency\<close>), slots of re-added keys (\<open>Key_Pool\<close>), an affinity pin that
  outranks a preferred endpoint (\<open>Route_Selection\<close>), an upstream text that makes the failure handling
  raise (\<open>Usage_Limit\<close>), an output reservation that is too small for some endpoints (\<open>Auto_Mode\<close>), a duplicate of a terminal observation that is delivered again, and a question
  to the router that pins the session (both \<open>Hybrid_Router\<close>).
\<close>

end
